(* ===== verification/Prelude.thy ===== *)
theory Prelude
  imports Main "HOL-Library.Word"
begin

text \<open>
  Shared vocabulary of the development: the machine integer types of the STM32F103 build,
  the kernel's error codes, C's truncating division, copies into arrays, the \<open>for\<close> loop over a
  16-bit counter, and the generic lemmas on words and lists that the component theories use.
  Nothing here models a particular source function.
\<close>

unbundle bit_operations_syntax

section \<open>Machine integers and error codes\<close>

type_synonym u8 = "8 word"
type_synonym u16 = "16 word"
type_synonym u32 = "32 word"
type_synonym u64 = "64 word"

text \<open>\<open>rt_err_t\<close> is a signed integer; the kernel returns the codes negated.\<close>

type_synonym rt_err_t = int

abbreviation (input) RT_EOK :: rt_err_t where "RT_EOK \<equiv> 0"
abbreviation (input) RT_ERROR :: rt_err_t where "RT_ERROR \<equiv> 1"
abbreviation (input) RT_ETIMEOUT :: rt_err_t where "RT_ETIMEOUT \<equiv> 2"
abbreviation (input) RT_EFULL :: rt_err_t where "RT_EFULL \<equiv> 3"
abbreviation (input) RT_EEMPTY :: rt_err_t where "RT_EEMPTY \<equiv> 4"
abbreviation (input) RT_ENOMEM :: rt_err_t where "RT_ENOMEM \<equiv> 5"
abbreviation (input) RT_ENOSYS :: rt_err_t where "RT_ENOSYS \<equiv> 6"
abbreviation (input) RT_EBUSY :: rt_err_t where "RT_EBUSY \<equiv> 7"

abbreviation (input) RT_TICK_PER_SECOND :: nat where "RT_TICK_PER_SECOND \<equiv> 1000"
abbreviation (input) RT_TICK_MAX :: u32 where "RT_TICK_MAX \<equiv> 0xFFFFFFFF"

named_theorems api_defs \<open>defining equations of the operations of the component at hand\<close>
named_theorems wf_intros \<open>preservation of a component's well-formedness invariant\<close>
named_theorems wf_simps \<open>well-formedness invariants and their projections\<close>

section \<open>Words\<close>

lemma unat_ucast_u64 [simp]: "unat (ucast (x :: u32) :: u64) = unat x"
  by transfer simp

lemma ucast_of_nat_u32 [simp]: "(ucast (of_nat n :: u64) :: u32) = of_nat n"
  by transfer simp

lemma unat_u32_less: "unat (x :: u32) < 4294967296"
  using unsigned_less [of x] by simp

lemma of_nat_diff_word:
  "m \<le> n \<Longrightarrow> (of_nat n - of_nat m :: 'a::len word) = of_nat (n - m)"
  by (simp add: of_nat_diff)

lemma unat_of_nat_less: "n < 2 ^ LENGTH('a) \<Longrightarrow> unat (of_nat n :: 'a::len word) = n"
  by (simp add: unat_of_nat)

lemma ucast_up_of_nat: "n < 2 ^ 32 \<Longrightarrow> (ucast (of_nat n :: u32) :: u64) = of_nat n"
  by (simp add: word_unat_eq_iff unat_of_nat_less)

lemma ucast_u64_eq: "(ucast (x :: u32) :: u64) = of_nat (unat x)"
  by (simp add: word_unat_eq_iff unat_of_nat unat_u32_less)

lemma of_nat_div_word:
  assumes "n < 2 ^ LENGTH('a)" and "k < 2 ^ LENGTH('a)"
  shows "(of_nat n div of_nat k :: 'a::len word) = of_nat (n div k)"
  using assms by (simp add: word_arith_nat_div unat_of_nat_less)

lemma word_eq_of_nat_mod: "(of_nat m = (of_nat n :: 'a::len word)) \<longleftrightarrow> m mod 2 ^ LENGTH('a) = n mod 2 ^ LENGTH('a)"
  by (simp only: word_unat_eq_iff unat_of_nat)

lemma of_nat_add_word: "(of_nat m + of_nat n :: 'a::len word) = of_nat (m + n)"
  by simp

section \<open>C division and the \<open>int16_t\<close> loop\<close>

definition c_div :: "int \<Rightarrow> int \<Rightarrow> int" where
  "c_div a b = sgn a * sgn b * (\<bar>a\<bar> div \<bar>b\<bar>)"

definition c_mod :: "int \<Rightarrow> int \<Rightarrow> int" where
  "c_mod a b = a - b * c_div a b"

lemma c_div_nonneg: "0 \<le> a \<Longrightarrow> 0 < b \<Longrightarrow> c_div a b = a div b"
  by (cases "a = 0") (auto simp: c_div_def)

lemma c_mod_nonneg: "0 \<le> a \<Longrightarrow> 0 < b \<Longrightarrow> c_mod a b = a mod b"
  by (simp add: c_mod_def c_div_nonneg minus_mult_div_eq_mod)

definition to_i16 :: "int \<Rightarrow> int" where
  "to_i16 x = (x + 32768) mod 65536 - 32768"

lemma to_i16_id: "- 32768 \<le> x \<Longrightarrow> x < 32768 \<Longrightarrow> to_i16 x = x"
  by (simp add: to_i16_def)

text \<open>
  \<open>for (j = lo; j < hi; j++) body\<close> with an \<open>int16_t\<close> counter: the counter wraps, so with
  \<open>hi\<close> above \<open>32767\<close> the loop never ends, which is the value \<open>None\<close>.
\<close>

partial_function (option) for_i16 :: "int \<Rightarrow> int \<Rightarrow> (int \<Rightarrow> 's \<Rightarrow> 's option) \<Rightarrow> 's \<Rightarrow> 's option" where
  "for_i16 j hi body s =
     (if j < hi then Option.bind (body j s) (\<lambda>s'. for_i16 (to_i16 (j + 1)) hi body s')
      else Some s)"

lemma for_i16_done: "hi \<le> j \<Longrightarrow> for_i16 j hi body s = Some s"
  by (subst for_i16.simps) simp

text \<open>A loop whose body always returns and whose bound fits its counter is a fold.\<close>

lemma for_i16_fold:
  assumes "\<And>i s. lo \<le> i \<Longrightarrow> i < hi \<Longrightarrow> body i s = Some (f i s)"
    and "- 32768 \<le> lo" and "hi \<le> 32767"
  shows "for_i16 lo hi body s = Some (fold f [lo..hi - 1] s)"
  using assms
proof (induction "nat (hi - lo)" arbitrary: lo s)
  case 0
  then show ?case by (simp add: for_i16_done)
next
  case (Suc n)
  then have less: "lo < hi" by simp
  have step: "to_i16 (lo + 1) = lo + 1"
    using Suc.prems less by (simp add: to_i16_id)
  have "for_i16 lo hi body s = for_i16 (lo + 1) hi body (f lo s)"
    using less Suc.prems(1) [of lo] by (subst for_i16.simps) (simp add: step)
  also have "\<dots> = Some (fold f [lo + 1..hi - 1] (f lo s))"
    using Suc.prems Suc.hyps(2) by (intro Suc.hyps(1)) auto
  finally show ?case
    using less by (simp add: upto_rec1)
qed

lemma for_i16_inv:
  assumes "I lo s" "lo \<le> hi" "- 32768 \<le> lo" "hi \<le> 32767"
    and "\<And>i s. lo \<le> i \<Longrightarrow> i < hi \<Longrightarrow> I i s \<Longrightarrow> \<exists>s'. body i s = Some s' \<and> I (i + 1) s'"
  shows "\<exists>s'. for_i16 lo hi body s = Some s' \<and> I hi s'"
  using assms
proof (induction "nat (hi - lo)" arbitrary: lo s)
  case 0
  then show ?case by (simp add: for_i16_done)
next
  case (Suc n)
  then have less: "lo < hi" by simp
  have step: "to_i16 (lo + 1) = lo + 1"
    using Suc.prems less by (simp add: to_i16_id)
  obtain s' where s': "body lo s = Some s'" "I (lo + 1) s'"
    using Suc.prems less by blast
  have "\<exists>s''. for_i16 (lo + 1) hi body s' = Some s'' \<and> I hi s''"
    using Suc.prems Suc.hyps(2) less s'(2) by (intro Suc.hyps(1)) auto
  then show ?case
    using less s'(1) by (subst for_i16.simps) (simp add: step)
qed

text \<open>A loop over a list of indices whose body may fail.\<close>

primrec fold_opt :: "('a \<Rightarrow> 's \<Rightarrow> 's option) \<Rightarrow> 'a list \<Rightarrow> 's \<Rightarrow> 's option" where
  "fold_opt f [] s = Some s"
| "fold_opt f (x # xs) s = Option.bind (f x s) (fold_opt f xs)"

lemma fold_opt_append: "fold_opt f (xs @ ys) s = Option.bind (fold_opt f xs s) (fold_opt f ys)"
proof (induction xs arbitrary: s)
  case (Cons x xs)
  then show ?case by (cases "f x s") simp_all
qed simp

text \<open>The invariant rule: the body succeeds and keeps the invariant at every index in turn.\<close>

lemma fold_opt_upt_inv:
  assumes "I 0 s" and "\<And>k s. k < n \<Longrightarrow> I k s \<Longrightarrow> \<exists>s'. f k s = Some s' \<and> I (Suc k) s'"
  shows "\<exists>s'. fold_opt f [0..<n] s = Some s' \<and> I n s'"
  using assms(2)
proof (induction n)
  case 0
  then show ?case using assms(1) by simp
next
  case (Suc n)
  then obtain s' where "fold_opt f [0..<n] s = Some s'" "I n s'"
    by (metis less_SucI)
  then show ?case
    using Suc.prems [of n s'] by (auto simp: fold_opt_append)
qed

section \<open>Arrays\<close>

text \<open>\<open>memcpy (dst + off, src, n)\<close>: the first \<open>n\<close> cells of \<open>src\<close> land at \<open>off\<close>.\<close>

definition blit :: "'a list \<Rightarrow> nat \<Rightarrow> 'a list \<Rightarrow> nat \<Rightarrow> 'a list" where
  "blit dst off src n = take off dst @ take n src @ drop (off + n) dst"

lemma length_blit [simp]:
  "off + n \<le> length dst \<Longrightarrow> n \<le> length src \<Longrightarrow> length (blit dst off src n) = length dst"
  by (simp add: blit_def)

lemma nth_blit:
  assumes "off + n \<le> length dst" and "n \<le> length src" and "i < length dst"
  shows "blit dst off src n ! i = (if off \<le> i \<and> i < off + n then src ! (i - off) else dst ! i)"
  using assms by (auto simp: blit_def nth_append min_def)

lemma blit_0 [simp]: "blit dst off src 0 = dst"
  by (simp add: blit_def)

text \<open>The last \<open>k\<close> elements of a list: what a bounded history keeps.\<close>

definition last_n :: "nat \<Rightarrow> 'a list \<Rightarrow> 'a list" where
  "last_n k xs = drop (length xs - k) xs"

lemma length_last_n [simp]: "length (last_n k xs) = min k (length xs)"
  by (simp add: last_n_def)

lemma last_n_all: "length xs \<le> k \<Longrightarrow> last_n k xs = xs"
  by (simp add: last_n_def)

lemma last_n_snoc_lt: "length xs < k \<Longrightarrow> last_n k (xs @ [x]) = last_n k xs @ [x]"
  by (simp add: last_n_def)

lemma last_n_snoc_ge: "k \<le> length xs \<Longrightarrow> 0 < k \<Longrightarrow> last_n k (xs @ [x]) = tl (last_n k xs) @ [x]"
  by (simp add: last_n_def Suc_diff_le drop_Suc tl_drop)

lemma last_n_Nil [simp]: "last_n k [] = []"
  by (simp add: last_n_def)

lemma last_n_last_n_snoc: "0 < k \<Longrightarrow> last_n k (last_n k xs @ [x]) = last_n k (xs @ [x])"
  by (cases "length xs < k") (auto simp: last_n_def Suc_diff_le)

lemma map_last_n: "map f (last_n k xs) = last_n k (map f xs)"
  by (simp add: last_n_def drop_map)

subsection \<open>Bounded histories\<close>

text \<open>
  A store that keeps the newest \<open>cap\<close> entries: the interface that the lap records and the
  shell's command history promise to their readers.
\<close>

locale bounded_history =
  fixes push :: "'v \<Rightarrow> 'g \<Rightarrow> 'g"
    and contents :: "'g \<Rightarrow> 'v list"
    and inv :: "'g \<Rightarrow> bool"
    and cap :: nat
  assumes cap_pos: "0 < cap"
    and push_inv: "inv g \<Longrightarrow> inv (push v g)"
    and push_contents: "inv g \<Longrightarrow> contents (push v g) = last_n cap (contents g @ [v])"
begin

lemma fold_push_inv: "inv g \<Longrightarrow> inv (fold push vs g)"
  by (induction vs arbitrary: g) (simp_all add: push_inv)

lemma fold_push_contents:
  assumes "inv g" and "length (contents g) \<le> cap"
  shows "contents (fold push vs g) = last_n cap (contents g @ vs)"
proof (induction vs rule: rev_induct)
  case Nil
  show ?case using assms(2) by (simp add: last_n_all)
next
  case (snoc v vs)
  have "contents (fold push (vs @ [v]) g) = last_n cap (contents (fold push vs g) @ [v])"
    using fold_push_inv [OF assms(1)] by (simp add: push_contents)
  also have "\<dots> = last_n cap ((contents g @ vs) @ [v])"
    by (simp only: snoc.IH last_n_last_n_snoc [OF cap_pos])
  finally show ?case by simp
qed

lemma length_fold_push: "inv g \<Longrightarrow> length (contents g) \<le> cap \<Longrightarrow> length (contents (fold push vs g)) \<le> cap"
  by (simp add: fold_push_contents)

end

section \<open>Rings\<close>

text \<open>\<open>c\<close> cells of a ring of \<open>N\<close> from place \<open>g\<close> on.\<close>

definition ring :: "'a list \<Rightarrow> nat \<Rightarrow> nat \<Rightarrow> nat \<Rightarrow> 'a list" where
  "ring b g c N = map (\<lambda>i. b ! ((g + i) mod N)) [0..<c]"

lemma length_ring [simp]: "length (ring b g c N) = c"
  by (simp add: ring_def)

lemma ring_apart: "g < N \<Longrightarrow> i < c \<Longrightarrow> c < N \<Longrightarrow> (g + i) mod N \<noteq> (g + c) mod (N :: nat)"
  by (auto simp: mod_if)

lemma ring_put: "g < N \<Longrightarrow> c < N \<Longrightarrow> length b = N \<Longrightarrow> ring (b[(g + c) mod N := x]) g (Suc c) N = ring b g c N @ [x]"
  by (auto simp: ring_def ring_apart intro!: nth_list_update_neq) (metis ring_apart)

lemma ring_tl: "0 < N \<Longrightarrow> ring b ((g + 1) mod N) c N = tl (ring b g (Suc c) N)"
proof -
  have "map (\<lambda>i. b ! (((g + 1) mod N + i) mod N)) [0..<c] = map (\<lambda>i. b ! ((g + Suc i) mod N)) [0..<c]"
    by (auto simp: mod_add_left_eq)
  moreover have "[0..<Suc c] = 0 # map Suc [0..<c]"
    by (simp add: map_Suc_upt upt_conv_Cons)
  ultimately show ?thesis
    unfolding ring_def by (simp del: upt_Suc add: comp_def)
qed

lemma ring_count: "g < N \<Longrightarrow> c < N \<Longrightarrow> ((g + c) mod N + N - g) mod N = (c :: nat)"
  by (cases "g + c < N") (auto simp: mod_if)

lemma ring_end: "p < N \<Longrightarrow> g < N \<Longrightarrow> (g + (p + N - g) mod N) mod N = (p :: nat)"
  by (cases "g \<le> p") (auto simp: mod_if)

section \<open>A recursive lock\<close>

text \<open>What a client of a kernel mutex relies on while no other thread wants it: takes and releases by the
  same thread nest.\<close>

locale recursive_lock =
  fixes acquire :: "'s \<Rightarrow> 's"
    and release :: "'s \<Rightarrow> 's"
    and depth :: "'s \<Rightarrow> nat"
    and available :: "'s \<Rightarrow> bool"
    and limit :: nat
  assumes acquire_law: "available s \<Longrightarrow> depth s < limit \<Longrightarrow> available (acquire s) \<and> depth (acquire s) = depth s + 1"
    and release_law: "available s \<Longrightarrow> 0 < depth s \<Longrightarrow> available (release s) \<and> depth (release s) = depth s - 1"
begin

lemma acquire_many: "available s \<Longrightarrow> depth s + n \<le> limit \<Longrightarrow> available ((acquire ^^ n) s) \<and> depth ((acquire ^^ n) s) = depth s + n"
  by (induction n) (auto simp: acquire_law)

lemma release_many: "available s \<Longrightarrow> n \<le> depth s \<Longrightarrow> available ((release ^^ n) s) \<and> depth ((release ^^ n) s) = depth s - n"
  by (induction n) (auto simp: release_law)

lemma nested: "available s \<Longrightarrow> depth s + n \<le> limit \<Longrightarrow> depth ((release ^^ n) ((acquire ^^ n) s)) = depth s"
  using acquire_many [of s n] release_many [of "(acquire ^^ n) s" n] by simp

end

section \<open>Linked nodes\<close>

text \<open>\<open>chain f p xs\<close>: the pointer \<open>p\<close> leads through the nodes \<open>xs\<close>, each linked to the next by \<open>f\<close>, to a null
  pointer; \<open>follow\<close> reads at most \<open>k\<close> of them.\<close>

fun chain :: "(nat \<Rightarrow> nat option) \<Rightarrow> nat option \<Rightarrow> nat list \<Rightarrow> bool" where
  "chain f p [] \<longleftrightarrow> p = None"
| "chain f p (x # xs) \<longleftrightarrow> p = Some x \<and> chain f (f x) xs"

fun follow :: "nat \<Rightarrow> (nat \<Rightarrow> nat option) \<Rightarrow> nat option \<Rightarrow> nat list" where
  "follow 0 f p = []"
| "follow (Suc k) f p = (case p of None \<Rightarrow> [] | Some x \<Rightarrow> x # follow k f (f x))"

lemma follow_chain: "chain f p xs \<Longrightarrow> length xs \<le> k \<Longrightarrow> follow k f p = xs"
proof (induction xs arbitrary: p k)
  case Nil
  then show ?case
    by (cases k) auto
next
  case (Cons x xs)
  then show ?case
    by (cases k) auto
qed

lemma chain_upd [simp]: "a \<notin> set xs \<Longrightarrow> chain (f(a := y)) p xs = chain f p xs"
  by (induction xs arbitrary: p) auto

lemma chain_snoc: "chain f p xs \<Longrightarrow> xs \<noteq> [] \<Longrightarrow> distinct (xs @ [a]) \<Longrightarrow> f a = None \<Longrightarrow> chain (f(last xs := Some a)) p (xs @ [a])"
proof (induction xs arbitrary: p)
  case (Cons x xs)
  then show ?case
    by (cases "xs = []") (auto simp: last_in_set)
qed simp

end
