(* ===== verification/Timer.thy ===== *)
theory Timer
  imports Prelude "HOL-Library.Monad_Syntax"
begin

text \<open>
  \<^verbatim>\<open>rt-thread/src/timer.c\<close> and \<^verbatim>\<open>rt-thread/src/clock.c\<close>: the kernel's timers.  A timer is an
  address, its fields are in the store \<open>timers\<close>, and an \<open>rt_list_t\<close> is the list of the addresses
  linked on it (\<open>RT_TIMER_SKIP_LIST_LEVEL\<close> is 1, so there is one row).  \<open>hard_tmp\<close> and \<open>soft_tmp\<close> are
  the local lists of the two check functions.  A failing \<open>RT_ASSERT\<close> stops the system: \<open>None\<close>.
  The time-out functions are a parameter \<open>cb\<close> that maps the function and the state to the state
  after the call; \<open>fired\<close> records the timers whose function was called, in order.
\<close>

section \<open>State\<close>

abbreviation (input) RT_TIMER_FLAG_ACTIVATED :: u8 where "RT_TIMER_FLAG_ACTIVATED \<equiv> 1"
abbreviation (input) RT_TIMER_FLAG_PERIODIC :: u8 where "RT_TIMER_FLAG_PERIODIC \<equiv> 2"
abbreviation (input) RT_TIMER_FLAG_SOFT_TIMER :: u8 where "RT_TIMER_FLAG_SOFT_TIMER \<equiv> 4"

record rt_timer =
  flag :: u8
  systemobject :: bool
  timeout_func :: nat
  init_tick :: u32
  timeout_tick :: u32

record timer_sys =
  timers :: "nat \<rightharpoonup> rt_timer"
  rt_timer_list :: "nat list"
  rt_soft_timer_list :: "nat list"
  hard_tmp :: "nat list"
  soft_tmp :: "nat list"
  soft_timer_busy :: bool
  timer_thread_suspended :: bool
  tick_now :: u32
  fired :: "nat list"

type_synonym callback = "nat \<Rightarrow> timer_sys \<Rightarrow> timer_sys"

definition activated :: "rt_timer \<Rightarrow> bool" where
  "activated tm \<longleftrightarrow> flag tm AND RT_TIMER_FLAG_ACTIVATED \<noteq> 0"

definition periodic :: "rt_timer \<Rightarrow> bool" where
  "periodic tm \<longleftrightarrow> flag tm AND RT_TIMER_FLAG_PERIODIC \<noteq> 0"

definition soft :: "rt_timer \<Rightarrow> bool" where
  "soft tm \<longleftrightarrow> flag tm AND RT_TIMER_FLAG_SOFT_TIMER \<noteq> 0"

definition deactivate :: "rt_timer \<Rightarrow> rt_timer" where
  "deactivate tm = tm\<lparr>flag := flag tm AND NOT RT_TIMER_FLAG_ACTIVATED\<rparr>"

definition activate :: "rt_timer \<Rightarrow> rt_timer" where
  "activate tm = tm\<lparr>flag := flag tm OR RT_TIMER_FLAG_ACTIVATED\<rparr>"

definition set_oneshot :: "rt_timer \<Rightarrow> rt_timer" where
  "set_oneshot tm = tm\<lparr>flag := flag tm AND NOT RT_TIMER_FLAG_PERIODIC\<rparr>"

definition set_periodic :: "rt_timer \<Rightarrow> rt_timer" where
  "set_periodic tm = tm\<lparr>flag := flag tm OR RT_TIMER_FLAG_PERIODIC\<rparr>"

section \<open>Operations\<close>

definition rt_tick_get :: "timer_sys \<Rightarrow> u32" where
  "rt_tick_get s = tick_now s"

definition rt_tick_set :: "u32 \<Rightarrow> timer_sys \<Rightarrow> timer_sys" where
  "rt_tick_set tick s = s\<lparr>tick_now := tick\<rparr>"

definition timer_init_fields :: "bool \<Rightarrow> nat \<Rightarrow> u32 \<Rightarrow> u8 \<Rightarrow> rt_timer" where
  "timer_init_fields sys timeout time flg =
     \<lparr>flag = flg AND NOT RT_TIMER_FLAG_ACTIVATED, systemobject = sys, timeout_func = timeout,
      init_tick = time, timeout_tick = 0\<rparr>"

definition rt_timer_list_next_timeout :: "nat list \<Rightarrow> timer_sys \<Rightarrow> u32" where
  "rt_timer_list_next_timeout l s =
     (case l of [] \<Rightarrow> RT_TICK_MAX
      | t # _ \<Rightarrow> (case timers s t of None \<Rightarrow> RT_TICK_MAX | Some tm \<Rightarrow> timeout_tick tm))"

text \<open>\<open>rt_list_remove\<close> unlinks the timer from whatever list it is on.\<close>

definition timer_remove :: "nat \<Rightarrow> timer_sys \<Rightarrow> timer_sys" where
  "timer_remove t s = s\<lparr>rt_timer_list := removeAll t (rt_timer_list s),
     rt_soft_timer_list := removeAll t (rt_soft_timer_list s),
     hard_tmp := removeAll t (hard_tmp s), soft_tmp := removeAll t (soft_tmp s)\<rparr>"

definition rt_timer_init :: "nat \<Rightarrow> nat \<Rightarrow> u32 \<Rightarrow> u8 \<Rightarrow> timer_sys \<Rightarrow> timer_sys" where
  "rt_timer_init t timeout time flg s = s\<lparr>timers := (timers s)(t \<mapsto> timer_init_fields True timeout time flg)\<rparr>"

text \<open>\<open>alloc\<close> is the address \<open>rt_object_allocate\<close> returns, if it finds memory.\<close>

definition rt_timer_create :: "nat option \<Rightarrow> nat \<Rightarrow> u32 \<Rightarrow> u8 \<Rightarrow> timer_sys \<Rightarrow> nat option \<times> timer_sys" where
  "rt_timer_create alloc timeout time flg s =
     (case alloc of None \<Rightarrow> (None, s)
      | Some t \<Rightarrow> (Some t, s\<lparr>timers := (timers s)(t \<mapsto> timer_init_fields False timeout time flg)\<rparr>))"

definition rt_timer_detach :: "nat \<Rightarrow> timer_sys \<Rightarrow> (rt_err_t \<times> timer_sys) option" where
  "rt_timer_detach t s =
     (case timers s t of None \<Rightarrow> None
      | Some tm \<Rightarrow> if \<not> systemobject tm then None
                  else let s1 = timer_remove t s;
                           s2 = s1\<lparr>timers := (timers s1)(t \<mapsto> deactivate tm)\<rparr>
                       in Some (RT_EOK, s2\<lparr>timers := (timers s2)(t := None)\<rparr>))"

definition rt_timer_delete :: "nat \<Rightarrow> timer_sys \<Rightarrow> (rt_err_t \<times> timer_sys) option" where
  "rt_timer_delete t s =
     (case timers s t of None \<Rightarrow> None
      | Some tm \<Rightarrow> if systemobject tm then None
                  else let s1 = timer_remove t s;
                           s2 = s1\<lparr>timers := (timers s1)(t \<mapsto> deactivate tm)\<rparr>
                       in Some (RT_EOK, s2\<lparr>timers := (timers s2)(t := None)\<rparr>))"

text \<open>The insertion walk: after the last timer that does not time out later, by the wrapped difference.\<close>

definition timeout_of :: "timer_sys \<Rightarrow> nat \<Rightarrow> u32" where
  "timeout_of s t = (case timers s t of None \<Rightarrow> 0 | Some tm \<Rightarrow> timeout_tick tm)"

fun timer_insert :: "(nat \<Rightarrow> u32) \<Rightarrow> u32 \<Rightarrow> nat \<Rightarrow> nat list \<Rightarrow> nat list" where
  "timer_insert to timeout t [] = [t]"
| "timer_insert to timeout t (p # ps) =
     (if to p - timeout = 0 then p # timer_insert to timeout t ps
      else if to p - timeout < RT_TICK_MAX div 2 then t # p # ps
      else p # timer_insert to timeout t ps)"

definition rt_timer_start :: "nat \<Rightarrow> timer_sys \<Rightarrow> (rt_err_t \<times> timer_sys) option" where
  "rt_timer_start t s =
     (case timers s t of None \<Rightarrow> None
      | Some tm \<Rightarrow>
          let s1 = timer_remove t s;
              tm1 = deactivate tm
          in if \<not> init_tick tm1 < RT_TICK_MAX div 2 then None
             else let tm2 = tm1\<lparr>timeout_tick := rt_tick_get s1 + init_tick tm1\<rparr>;
                      ins = timer_insert (timeout_of s1) (timeout_tick tm2) t;
                      s2 = (if soft tm2 then s1\<lparr>rt_soft_timer_list := ins (rt_soft_timer_list s1)\<rparr>
                            else s1\<lparr>rt_timer_list := ins (rt_timer_list s1)\<rparr>);
                      tm3 = activate tm2;
                      s3 = s2\<lparr>timers := (timers s2)(t \<mapsto> tm3)\<rparr>;
                      s4 = (if soft tm3 \<and> \<not> soft_timer_busy s3 \<and> timer_thread_suspended s3
                            then s3\<lparr>timer_thread_suspended := False\<rparr> else s3)
                  in Some (RT_EOK, s4))"

definition rt_timer_stop :: "nat \<Rightarrow> timer_sys \<Rightarrow> (rt_err_t \<times> timer_sys) option" where
  "rt_timer_stop t s =
     (case timers s t of None \<Rightarrow> None
      | Some tm \<Rightarrow> if \<not> activated tm then Some (- RT_ERROR, s)
                  else let s1 = timer_remove t s
                       in Some (RT_EOK, s1\<lparr>timers := (timers s1)(t \<mapsto> deactivate tm)\<rparr>))"

datatype timer_ctrl =
    CTRL_GET_TIME | CTRL_SET_TIME u32 | CTRL_SET_ONESHOT | CTRL_SET_PERIODIC | CTRL_GET_STATE | CTRL_OTHER

text \<open>The second result is what is stored through \<open>arg\<close>, when anything is.\<close>

definition rt_timer_control :: "nat \<Rightarrow> timer_ctrl \<Rightarrow> timer_sys \<Rightarrow> (rt_err_t \<times> u32 option \<times> timer_sys) option" where
  "rt_timer_control t cmd s =
     (case timers s t of None \<Rightarrow> None
      | Some tm \<Rightarrow>
          let upd = (\<lambda>tm'. s\<lparr>timers := (timers s)(t \<mapsto> tm')\<rparr>) in
          Some (case cmd of
            CTRL_GET_TIME \<Rightarrow> (RT_EOK, Some (init_tick tm), s)
          | CTRL_SET_TIME a \<Rightarrow> (RT_EOK, None, upd (tm\<lparr>init_tick := a\<rparr>))
          | CTRL_SET_ONESHOT \<Rightarrow> (RT_EOK, None, upd (set_oneshot tm))
          | CTRL_SET_PERIODIC \<Rightarrow> (RT_EOK, None, upd (set_periodic tm))
          | CTRL_GET_STATE \<Rightarrow> (RT_EOK, Some (if activated tm then 1 else 0), s)
          | CTRL_OTHER \<Rightarrow> (RT_EOK, None, s)))"

text \<open>
  The body of the two check loops for the first timer \<open>t\<close> of the list.  Interrupts are off in
  \<open>rt_timer_check\<close>, so its \<open>current_tick\<close>, read at entry and after every callback, is the tick
  at the head of each round; \<open>rt_soft_timer_check\<close> reads it there.
\<close>

definition timer_fire :: "bool \<Rightarrow> callback \<Rightarrow> nat \<Rightarrow> rt_timer \<Rightarrow> timer_sys \<Rightarrow> timer_sys option" where
  "timer_fire is_soft cb t tm s =
     (let s1 = timer_remove t s;
          s2 = (if \<not> periodic tm then s1\<lparr>timers := (timers s1)(t \<mapsto> deactivate tm)\<rparr> else s1);
          s3 = (if is_soft then s2\<lparr>soft_tmp := t # soft_tmp s2, soft_timer_busy := True\<rparr>
                else s2\<lparr>hard_tmp := t # hard_tmp s2\<rparr>);
          s4 = cb (timeout_func tm) (s3\<lparr>fired := fired s3 @ [t]\<rparr>);
          s5 = (if is_soft then s4\<lparr>soft_timer_busy := False\<rparr> else s4);
          tmp = (if is_soft then soft_tmp s5 else hard_tmp s5)
      in if tmp = [] then Some s5
         else let s6 = timer_remove t s5 in
              case timers s6 t of None \<Rightarrow> None
              | Some tm' \<Rightarrow>
                  if periodic tm' \<and> activated tm'
                  then map_option snd (rt_timer_start t (s6\<lparr>timers := (timers s6)(t \<mapsto> deactivate tm')\<rparr>))
                  else Some s6)"

fun check_loop :: "nat \<Rightarrow> bool \<Rightarrow> callback \<Rightarrow> timer_sys \<Rightarrow> timer_sys option" where
  "check_loop 0 is_soft cb s = None"
| "check_loop (Suc fuel) is_soft cb s =
     (case (if is_soft then rt_soft_timer_list s else rt_timer_list s) of
        [] \<Rightarrow> Some s
      | t # _ \<Rightarrow>
          (case timers s t of None \<Rightarrow> None
           | Some tm \<Rightarrow>
               if rt_tick_get s - timeout_tick tm < RT_TICK_MAX div 2
               then Option.bind (timer_fire is_soft cb t tm s) (check_loop fuel is_soft cb)
               else Some s))"

definition rt_timer_check :: "nat \<Rightarrow> callback \<Rightarrow> timer_sys \<Rightarrow> timer_sys option" where
  "rt_timer_check fuel cb s = check_loop fuel False cb s"

definition rt_soft_timer_check :: "nat \<Rightarrow> callback \<Rightarrow> timer_sys \<Rightarrow> timer_sys option" where
  "rt_soft_timer_check fuel cb s = check_loop fuel True cb s"

definition rt_timer_next_timeout_tick :: "timer_sys \<Rightarrow> u32" where
  "rt_timer_next_timeout_tick s = rt_timer_list_next_timeout (rt_timer_list s) s"

text \<open>
  One round of the timer thread: it suspends itself, or sleeps for the returned number of ticks,
  or goes straight on to the check.
\<close>

datatype thread_wait = Suspend | Sleep u32 | Go_On

definition rt_thread_timer_wait :: "timer_sys \<Rightarrow> thread_wait \<times> timer_sys" where
  "rt_thread_timer_wait s =
     (let next_timeout = rt_timer_list_next_timeout (rt_soft_timer_list s) s in
      if next_timeout = RT_TICK_MAX then (Suspend, s\<lparr>timer_thread_suspended := True\<rparr>)
      else if next_timeout - rt_tick_get s < RT_TICK_MAX div 2 then (Sleep (next_timeout - rt_tick_get s), s)
      else (Go_On, s))"

definition rt_system_timer_init :: "timer_sys \<Rightarrow> timer_sys" where
  "rt_system_timer_init s = s\<lparr>rt_timer_list := []\<rparr>"

definition rt_system_timer_thread_init :: "timer_sys \<Rightarrow> timer_sys" where
  "rt_system_timer_thread_init s = s\<lparr>rt_soft_timer_list := [], timer_thread_suspended := False\<rparr>"

text \<open>The running thread's time slice: what \<open>rt_tick_increase\<close> does besides the timers.\<close>

record slice =
  remaining_tick :: u32
  slice_init_tick :: u32
  stat_yield :: bool
  schedules :: nat

definition rt_tick_increase :: "nat \<Rightarrow> callback \<Rightarrow> slice \<times> timer_sys \<Rightarrow> (slice \<times> timer_sys) option" where
  "rt_tick_increase fuel cb st =
     (let (th, s) = st;
          s1 = s\<lparr>tick_now := tick_now s + 1\<rparr>;
          th1 = th\<lparr>remaining_tick := remaining_tick th - 1\<rparr>;
          th2 = (if remaining_tick th1 = 0
                 then th1\<lparr>remaining_tick := slice_init_tick th1, stat_yield := True, schedules := schedules th1 + 1\<rparr>
                 else th1)
      in map_option (Pair th2) (rt_timer_check fuel cb s1))"

text \<open>\<open>RT_WAITING_FOREVER\<close> is -1, the largest tick.\<close>

definition rt_tick_from_millisecond :: "int \<Rightarrow> u32" where
  "rt_tick_from_millisecond ms =
     (if ms < 0 then RT_TICK_MAX
      else of_int (int RT_TICK_PER_SECOND * c_div ms 1000) +
           of_int (c_div (int RT_TICK_PER_SECOND * c_mod ms 1000 + 999) 1000))"

definition rt_tick_get_millisecond :: "timer_sys \<Rightarrow> u32" where
  "rt_tick_get_millisecond s = rt_tick_get s * (1000 div of_nat RT_TICK_PER_SECOND)"

section \<open>Flags and lists\<close>

lemma flag_bits:
  "flag tm AND RT_TIMER_FLAG_ACTIVATED \<noteq> 0 \<longleftrightarrow> bit (flag tm) 0"
  "flag tm AND RT_TIMER_FLAG_PERIODIC \<noteq> 0 \<longleftrightarrow> bit (flag tm) 1"
  "flag tm AND RT_TIMER_FLAG_SOFT_TIMER \<noteq> 0 \<longleftrightarrow> bit (flag tm) 2"
  by (simp_all add: bit_iff_and_push_bit_not_eq_0)

lemma flag_simps [simp]:
  "\<not> activated (deactivate tm)" "periodic (deactivate tm) = periodic tm" "soft (deactivate tm) = soft tm"
  "activated (activate tm)" "periodic (activate tm) = periodic tm" "soft (activate tm) = soft tm"
  "init_tick (deactivate tm) = init_tick tm" "timeout_tick (deactivate tm) = timeout_tick tm"
  "init_tick (activate tm) = init_tick tm" "timeout_tick (activate tm) = timeout_tick tm"
  "systemobject (deactivate tm) = systemobject tm" "systemobject (activate tm) = systemobject tm"
  "timeout_func (deactivate tm) = timeout_func tm" "timeout_func (activate tm) = timeout_func tm"
  "activated (tm\<lparr>timeout_tick := x\<rparr>) = activated tm" "periodic (tm\<lparr>timeout_tick := x\<rparr>) = periodic tm"
  "soft (tm\<lparr>timeout_tick := x\<rparr>) = soft tm" "activated (tm\<lparr>init_tick := x\<rparr>) = activated tm"
  "soft (tm\<lparr>init_tick := x\<rparr>) = soft tm"
  unfolding activated_def periodic_def soft_def deactivate_def activate_def flag_bits
  by (simp_all add: bit_and_iff bit_or_iff bit_not_iff bit_1_iff)

lemma control_flags [simp]:
  "activated (set_oneshot tm) = activated tm" "activated (set_periodic tm) = activated tm"
  "soft (set_oneshot tm) = soft tm" "soft (set_periodic tm) = soft tm"
proof -
  have "bit (2 :: u8) n \<longleftrightarrow> n = 1" for n
    using bit_exp_iff [of 1 n, where 'a = "8 word"] by auto
  then show "activated (set_oneshot tm) = activated tm" "activated (set_periodic tm) = activated tm"
    "soft (set_oneshot tm) = soft tm" "soft (set_periodic tm) = soft tm"
    unfolding activated_def soft_def set_oneshot_def set_periodic_def flag_bits
    by (simp_all add: bit_and_iff bit_or_iff bit_not_iff)
qed

lemma set_timer_insert [simp]: "set (timer_insert to timeout t l) = insert t (set l)"
  by (induction l) auto

lemma distinct_timer_insert: "t \<notin> set l \<Longrightarrow> distinct l \<Longrightarrow> distinct (timer_insert to timeout t l)"
  by (induction l) auto

lemma timer_insert_cong: "(\<And>p. p \<in> set l \<Longrightarrow> to p = to' p) \<Longrightarrow> timer_insert to x t l = timer_insert to' x t l"
  by (induction l) auto

lemma timer_remove_fields [simp]:
  "timers (timer_remove t s) = timers s" "rt_timer_list (timer_remove t s) = removeAll t (rt_timer_list s)"
  "rt_soft_timer_list (timer_remove t s) = removeAll t (rt_soft_timer_list s)"
  "hard_tmp (timer_remove t s) = removeAll t (hard_tmp s)" "soft_tmp (timer_remove t s) = removeAll t (soft_tmp s)"
  "tick_now (timer_remove t s) = tick_now s" "fired (timer_remove t s) = fired s"
  "soft_timer_busy (timer_remove t s) = soft_timer_busy s"
  "timer_thread_suspended (timer_remove t s) = timer_thread_suspended s"
  "rt_tick_get (timer_remove t s) = rt_tick_get s"
  by (simp_all add: timer_remove_def rt_tick_get_def)

section \<open>Well-formedness\<close>

text \<open>
  Between two calls a timer is linked exactly when it is activated, once, on the list of its
  kind, and the temporary lists are empty.
\<close>

definition timer_wf :: "timer_sys \<Rightarrow> bool" where
  "timer_wf s \<longleftrightarrow> distinct (rt_timer_list s @ rt_soft_timer_list s) \<and> hard_tmp s = [] \<and> soft_tmp s = [] \<and>
     set (rt_timer_list s) = {t. \<exists>tm. timers s t = Some tm \<and> activated tm \<and> \<not> soft tm} \<and>
     set (rt_soft_timer_list s) = {t. \<exists>tm. timers s t = Some tm \<and> activated tm \<and> soft tm}"

datatype timer_op =
    Init nat nat u32 u8 | Create "nat option" nat u32 u8 | Detach nat | Delete nat
  | TStart nat | TStop nat | Control nat timer_ctrl

fun timer_step :: "timer_op \<Rightarrow> timer_sys \<Rightarrow> timer_sys option" where
  "timer_step (Init t f n fl) s = Some (rt_timer_init t f n fl s)"
| "timer_step (Create a f n fl) s = Some (snd (rt_timer_create a f n fl s))"
| "timer_step (Detach t) s = map_option snd (rt_timer_detach t s)"
| "timer_step (Delete t) s = map_option snd (rt_timer_delete t s)"
| "timer_step (TStart t) s = map_option snd (rt_timer_start t s)"
| "timer_step (TStop t) s = map_option snd (rt_timer_stop t s)"
| "timer_step (Control t c) s = map_option (snd \<circ> snd) (rt_timer_control t c s)"

text \<open>Initialising or allocating a timer object uses memory that holds no live timer.\<close>

fun op_fresh :: "timer_op \<Rightarrow> timer_sys \<Rightarrow> bool" where
  "op_fresh (Init t f n fl) s = (timers s t = None)"
| "op_fresh (Create (Some t) f n fl) s = (timers s t = None)"
| "op_fresh _ s = True"

lemma init_fields_inactive [simp]: "\<not> activated (timer_init_fields sys f n fl)"
  unfolding activated_def flag_bits timer_init_fields_def by (simp add: bit_and_iff bit_not_iff bit_1_iff)

lemma wf_same_kind:
  "timer_wf s \<Longrightarrow> timers s t = Some tm \<Longrightarrow> activated tm' = activated tm \<Longrightarrow> soft tm' = soft tm \<Longrightarrow>
   timer_wf (s\<lparr>timers := (timers s)(t \<mapsto> tm')\<rparr>)"
  by (auto simp: timer_wf_def split: if_splits)

lemma start_wf:
  assumes "timer_wf s" "rt_timer_start t s = Some (r, s')"
  shows "timer_wf s'"
  using assms
  by (auto simp: rt_timer_start_def timer_wf_def Let_def distinct_timer_insert distinct_removeAll
      split: option.splits if_splits)

lemma timer_stop_wf:
  assumes "timer_wf s" "rt_timer_stop t s = Some (r, s')"
  shows "timer_wf s'"
  using assms by (auto simp: rt_timer_stop_def timer_wf_def Let_def distinct_removeAll split: option.splits if_splits)

text \<open>C9: every timer operation keeps the invariant that a timer is linked exactly when it is
  activated, once and on the list of its kind.\<close>

theorem timer_step_wf:
  assumes "timer_wf s" "op_fresh op s" "timer_step op s = Some s'"
  shows "timer_wf s'"
proof (cases op)
  case (TStart t)
  then show ?thesis
    using assms start_wf by auto
next
  case (Create a f n fl)
  then show ?thesis
    using assms by (cases a) (auto simp: rt_timer_create_def timer_wf_def split: if_splits)
next
  case (Control t c)
  then show ?thesis
    using assms by (cases c) (auto simp: rt_timer_control_def Let_def intro: wf_same_kind split: option.splits)
next
  case (Init t f n fl)
  then show ?thesis
    using assms by (auto simp: rt_timer_init_def timer_wf_def split: if_splits)
next
  case (Detach t)
  then show ?thesis
    using assms by (auto simp: rt_timer_detach_def timer_wf_def Let_def distinct_removeAll split: option.splits if_splits)
next
  case (Delete t)
  then show ?thesis
    using assms by (auto simp: rt_timer_delete_def timer_wf_def Let_def distinct_removeAll split: option.splits if_splits)
next
  case (TStop t)
  then show ?thesis
    using assms timer_stop_wf by auto
qed

definition demo_timers :: timer_sys where
  "demo_timers = \<lparr>timers = Map.empty, rt_timer_list = [], rt_soft_timer_list = [], hard_tmp = [], soft_tmp = [],
     soft_timer_busy = False, timer_thread_suspended = False, tick_now = 0xFFFFFFF0, fired = []\<rparr>"

definition demo_timer :: rt_timer where
  "demo_timer = \<lparr>flag = 0, systemobject = False, timeout_func = 7, init_tick = 30, timeout_tick = 0\<rparr>"

definition demo_armed :: timer_sys where
  "demo_armed = demo_timers\<lparr>timers := [1 \<mapsto> demo_timer]\<rparr>"

lemma demo_armed_wf: "timer_wf demo_armed"
  by (auto simp: timer_wf_def demo_armed_def demo_timers_def demo_timer_def activated_def split: if_splits)

theorem timer_step_wf_witness: "timer_wf (demo_armed\<lparr>timers := [1 \<mapsto> demo_timer, 2 \<mapsto> timer_init_fields True 3 5 0]\<rparr>)"
  by (rule timer_step_wf [OF demo_armed_wf, of "Init 2 3 5 0"])
    (simp_all add: rt_timer_init_def demo_armed_def)

section \<open>Order\<close>

text \<open>The time left until \<open>t\<close> times out, from the tick \<open>b\<close> on.\<close>

definition key :: "u32 \<Rightarrow> timer_sys \<Rightarrow> nat \<Rightarrow> nat" where
  "key b s t = unat (timeout_of s t - b)"

lemma wrapped_compare:
  fixes x y b :: u32
  assumes "unat (x - b) \<le> 0x7FFFFFFF" "unat (y - b) \<le> 0x7FFFFFFF" "unat (x - b) < unat (y - b) + 0x7FFFFFFF"
  shows "x - y \<noteq> 0 \<and> x - y < RT_TICK_MAX div 2 \<longleftrightarrow> unat (y - b) < unat (x - b)"
proof -
  define k where "k = x - b"
  define l where "l = y - b"
  have xy: "x - y = k - l"
    by (simp add: k_def l_def)
  have half: "unat (RT_TICK_MAX div 2 :: u32) = 0x7FFFFFFF"
    by simp
  show ?thesis
  proof (cases "unat l \<le> unat k")
    case True
    then have "unat (k - l) = unat k - unat l"
      by (simp add: unat_sub word_le_nat_alt)
    then show ?thesis
      using True assms unfolding xy k_def [symmetric] l_def [symmetric] word_less_nat_alt half
      by (auto simp: unat_eq_zero [symmetric] simp del: unat_eq_zero)
  next
    case False
    then have "unat (k - l) = 2 ^ 32 + unat k - unat l"
      by (simp add: unat_sub_if')
    then show ?thesis
      using False assms unfolding xy k_def [symmetric] l_def [symmetric] word_less_nat_alt half by auto
  qed
qed

lemma timer_insert_place:
  assumes "\<forall>p \<in> set l. unat (to p - b) \<le> 0x7FFFFFFF \<and> unat (to p - b) < unat (x - b) + 0x7FFFFFFF"
    and "unat (x - b) \<le> 0x7FFFFFFF"
  shows "timer_insert to x t l =
    takeWhile (\<lambda>p. unat (to p - b) \<le> unat (x - b)) l @ t # dropWhile (\<lambda>p. unat (to p - b) \<le> unat (x - b)) l"
  using assms(1)
proof (induction l)
  case (Cons p l)
  have "to p - x \<noteq> 0 \<and> to p - x < RT_TICK_MAX div 2 \<longleftrightarrow> unat (x - b) < unat (to p - b)"
    using Cons.prems assms(2) by (intro wrapped_compare) auto
  then show ?case
    using Cons by (cases "unat (to p - b) \<le> unat (x - b)") (auto simp: not_le)
qed simp

section \<open>Firing\<close>

text \<open>Time-out functions that do not touch the timers.\<close>

definition benign :: "callback \<Rightarrow> bool" where
  "benign cb \<longleftrightarrow> (\<forall>f s. cb f s = s)"

lemma activate_deactivate: "activated tm \<Longrightarrow> activate (deactivate tm) = tm"
proof -
  assume "activated tm"
  then have "(flag tm AND NOT RT_TIMER_FLAG_ACTIVATED) OR RT_TIMER_FLAG_ACTIVATED = flag tm"
    unfolding activated_def flag_bits by (intro bit_word_eqI) (auto simp: bit_and_iff bit_or_iff bit_not_iff bit_1_iff)
  then show ?thesis
    unfolding activate_def deactivate_def by simp
qed

lemma deactivate_idem [simp]: "deactivate (deactivate tm) = deactivate tm"
  unfolding deactivate_def by (simp add: and.assoc)

lemma timeout_of_upd [simp]:
  "timeout_of (s\<lparr>rt_timer_list := l\<rparr>) = timeout_of s" "timeout_of (s\<lparr>fired := f\<rparr>) = timeout_of s"
  "timeout_of (s\<lparr>tick_now := n\<rparr>) = timeout_of s" "timeout_of (timer_remove t s) = timeout_of s"
  "timeout_of (s\<lparr>hard_tmp := l\<rparr>) = timeout_of s"
  by (simp_all add: timeout_of_def fun_eq_iff)

lemma timeout_of_timers:
  "timeout_of (s\<lparr>timers := (timers s)(t \<mapsto> tm)\<rparr>) p = (if p = t then timeout_tick tm else timeout_of s p)"
  by (simp add: timeout_of_def)

lemma list_member:
  assumes "timer_wf s" "t \<in> set (rt_timer_list s)"
  obtains tm where "timers s t = Some tm" "activated tm" "\<not> soft tm"
  using assms by (auto simp: timer_wf_def)

lemma head_timer:
  assumes "timer_wf s" "rt_timer_list s = t # L" "timers s t = Some tm"
  shows "activated tm" "\<not> soft tm" "t \<notin> set L" "t \<notin> set (rt_soft_timer_list s)" "hard_tmp s = []" "soft_tmp s = []"
proof -
  have "t \<in> set (rt_timer_list s)"
    using assms(2) by simp
  then obtain tm' where "timers s t = Some tm'" "activated tm'" "\<not> soft tm'"
    by (rule list_member [OF assms(1)])
  then show "activated tm" "\<not> soft tm"
    using assms(3) by simp_all
  have "distinct (rt_timer_list s @ rt_soft_timer_list s)" and tmp: "hard_tmp s = []" "soft_tmp s = []"
    using assms(1) unfolding timer_wf_def by blast+
  then show "t \<notin> set L" "t \<notin> set (rt_soft_timer_list s)" "hard_tmp s = []" "soft_tmp s = []"
    using assms(2) by simp_all
qed

lemma start_hard:
  assumes "timers s t = Some tm" "\<not> soft tm" "init_tick tm < RT_TICK_MAX div 2"
  shows "rt_timer_start t s = Some (RT_EOK, (timer_remove t s)
    \<lparr>rt_timer_list := timer_insert (timeout_of s) (tick_now s + init_tick tm) t (removeAll t (rt_timer_list s)),
     timers := (timers s)(t \<mapsto> activate ((deactivate tm)\<lparr>timeout_tick := tick_now s + init_tick tm\<rparr>))\<rparr>)"
  using assms by (simp add: rt_timer_start_def Let_def rt_tick_get_def)

lemma fire_oneshot:
  assumes "timer_wf s" "rt_timer_list s = t # L" "timers s t = Some tm" "\<not> periodic tm" "benign cb"
  shows "timer_fire False cb t tm s =
    Some (s\<lparr>rt_timer_list := L, timers := (timers s)(t \<mapsto> deactivate tm), fired := fired s @ [t]\<rparr>)"
  using assms
  by (auto simp: timer_fire_def timer_wf_def benign_def Let_def timer_remove_def)

lemma fire_periodic:
  assumes "timer_wf s" "rt_timer_list s = t # L" "timers s t = Some tm" "periodic tm" "benign cb"
    and "init_tick tm < RT_TICK_MAX div 2"
  shows "timer_fire False cb t tm s =
    Some (s\<lparr>rt_timer_list := timer_insert (timeout_of s) (tick_now s + init_tick tm) t L,
            timers := (timers s)(t \<mapsto> tm\<lparr>timeout_tick := tick_now s + init_tick tm\<rparr>), fired := fired s @ [t]\<rparr>)"
proof -
  note tm = head_timer [OF assms(1-3)]
  have act: "activate ((deactivate tm)\<lparr>timeout_tick := x\<rparr>) = tm\<lparr>timeout_tick := x\<rparr>" for x
  proof -
    have "flag (activate (deactivate tm)) = flag tm"
      by (simp only: activate_deactivate [OF tm(1)])
    then show ?thesis
      by (simp add: activate_def deactivate_def)
  qed
  let ?s6 = "s\<lparr>rt_timer_list := L, fired := fired s @ [t]\<rparr>"
  let ?s7 = "?s6\<lparr>timers := (timers s)(t \<mapsto> deactivate tm)\<rparr>"
  have removed: "timer_remove t s = s\<lparr>rt_timer_list := L\<rparr>" "timer_remove t ?s7 = ?s7"
    "timer_remove t (s\<lparr>rt_timer_list := L, hard_tmp := [t], fired := f\<rparr>) = s\<lparr>rt_timer_list := L, fired := f\<rparr>" for f
    using tm(3-6) assms(2) by (simp_all add: timer_remove_def)
  have fire: "timer_fire False cb t tm s = map_option snd (rt_timer_start t ?s7)"
    using assms(3-5) tm(1,5) unfolding timer_fire_def Let_def benign_def removed by (simp add: removed)
  have to: "timer_insert (timeout_of ?s7) x t L = timer_insert (timeout_of s) x t L" for x
    using tm(3) by (intro timer_insert_cong) (auto simp: timeout_of_def)
  show ?thesis
    unfolding fire using start_hard [of ?s7 t "deactivate tm"] tm assms(6)
    by (simp add: removed to act)
qed

text \<open>
  The state inside \<open>rt_timer_check\<close>, seen from the tick \<open>b\<close> before: the hard list is sorted by the
  time left, which the half-range of the tick bounds, and periodic timers have a usable period.
\<close>

definition periods_ok :: "timer_sys \<Rightarrow> bool" where
  "periods_ok s \<longleftrightarrow> (\<forall>t \<in> set (rt_timer_list s). \<forall>tm. timers s t = Some tm \<longrightarrow> periodic tm \<longrightarrow>
     0 < unat (init_tick tm) \<and> unat (init_tick tm) < 0x7FFFFFFF)"

definition sorted_keys :: "u32 \<Rightarrow> nat \<Rightarrow> timer_sys \<Rightarrow> bool" where
  "sorted_keys b n s \<longleftrightarrow> sorted (map (key b s) (rt_timer_list s)) \<and> (\<forall>t \<in> set (rt_timer_list s). key b s t \<le> n)"

definition tick_inv :: "u32 \<Rightarrow> timer_sys \<Rightarrow> bool" where
  "tick_inv b s \<longleftrightarrow> timer_wf s \<and> tick_now s = b + 1 \<and> sorted_keys b 0x7FFFFFFF s \<and> periods_ok s"

lemma due_iff:
  assumes "key b s t \<le> 0x7FFFFFFF" "tick_now s = b + 1" "timers s t = Some tm"
  shows "rt_tick_get s - timeout_tick tm < RT_TICK_MAX div 2 \<longleftrightarrow> key b s t \<le> 1"
proof -
  define k where "k = timeout_tick tm - b"
  have k: "key b s t = unat k"
    using assms(3) by (simp add: key_def timeout_of_def k_def)
  have "rt_tick_get s - timeout_tick tm = 1 - k"
    using assms(2) by (simp add: rt_tick_get_def k_def)
  moreover have half: "unat (RT_TICK_MAX div 2 :: u32) = 0x7FFFFFFF"
    by simp
  moreover have "unat (1 - k) = (if unat k \<le> 1 then 1 - unat k else 2 ^ 32 + 1 - unat k)"
    by (auto simp: unat_sub_if' unat_sub word_le_nat_alt)
  ultimately show ?thesis
    using assms(1) unfolding k word_less_nat_alt by auto
qed

lemma key_upd:
  "key b (s\<lparr>rt_timer_list := l, timers := (timers s)(t \<mapsto> tm), fired := f\<rparr>) p =
     (if p = t then unat (timeout_tick tm - b) else key b s p)"
  by (simp add: key_def timeout_of_def)

lemma filter_place: "\<not> P t \<Longrightarrow> filter P (takeWhile Q l @ t # dropWhile Q l) = filter P l"
  by (induction l) auto

lemma sorted_place:
  "sorted (map f l) \<Longrightarrow> sorted (map f (takeWhile (\<lambda>p. f p \<le> f t) l @ t # dropWhile (\<lambda>p. f p \<le> f t) l))"
proof (induction l)
  case (Cons p l)
  have "\<forall>q \<in> set l. f p \<le> f q"
    using Cons.prems by simp
  then show ?case
    using Cons by (auto dest: set_takeWhileD set_dropWhileD)
qed simp

text \<open>One round of the loop on a due timer.\<close>

lemma fire_due:
  assumes inv: "tick_inv b s" and L: "rt_timer_list s = t # L" and tm: "timers s t = Some tm"
    and due: "key b s t \<le> 1" and cb: "benign cb"
  obtains s' where "timer_fire False cb t tm s = Some s'" "tick_inv b s'" "fired s' = fired s @ [t]"
    "filter (\<lambda>p. key b s' p \<le> 1) (rt_timer_list s') = filter (\<lambda>p. key b s p \<le> 1) L"
    "set (rt_timer_list s') = (if periodic tm then insert t (set L) else set L)"
    "\<And>p. p \<noteq> t \<Longrightarrow> timers s' p = timers s p"
    "timers s' t = Some (if periodic tm then tm\<lparr>timeout_tick := b + 1 + init_tick tm\<rparr> else deactivate tm)"
    "periodic tm \<Longrightarrow> key b s' t = unat (init_tick tm) + 1"
proof (cases "periodic tm")
  case False
  let ?s = "s\<lparr>rt_timer_list := L, timers := (timers s)(t \<mapsto> deactivate tm), fired := fired s @ [t]\<rparr>"
  have t: "t \<notin> set L" "activated tm" "\<not> soft tm"
    using head_timer [OF _ L tm] inv by (auto simp: tick_inv_def)
  have k: "key b ?s p = key b s p" if "p \<in> set L" for p
    using that t(1) by (auto simp: key_upd)
  then have keys: "map (key b ?s) L = map (key b s) L" "filter (\<lambda>p. key b ?s p \<le> 1) L = filter (\<lambda>p. key b s p \<le> 1) L"
    by (auto intro!: filter_cong simp del: key_upd)
  have "timer_wf ?s"
    using inv L tm t by (auto simp: tick_inv_def timer_wf_def split: if_splits)
  moreover have "sorted_keys b 0x7FFFFFFF ?s"
  proof -
    have "sorted (map (key b ?s) L)"
      unfolding keys(1) using inv L by (simp add: tick_inv_def sorted_keys_def)
    moreover have "key b ?s p \<le> 0x7FFFFFFF" if "p \<in> set L" for p
      unfolding k [OF that] using that inv L by (simp add: tick_inv_def sorted_keys_def)
    ultimately show ?thesis
      by (simp add: sorted_keys_def)
  qed
  moreover have "periods_ok ?s"
    using inv L t(1) by (auto simp: tick_inv_def periods_ok_def split: if_splits)
  ultimately have "tick_inv b ?s"
    using inv by (simp add: tick_inv_def)
  then show ?thesis
    using that [of ?s] fire_oneshot [OF _ L tm False cb] inv keys(2) False by (simp add: tick_inv_def)
next
  case True
  define x where "x = b + 1 + init_tick tm"
  define L' where "L' = timer_insert (timeout_of s) x t L"
  define s' where "s' = s\<lparr>rt_timer_list := L', timers := (timers s)(t \<mapsto> tm\<lparr>timeout_tick := x\<rparr>), fired := fired s @ [t]\<rparr>"
  have fields: "rt_timer_list s' = L'" "timers s' = (timers s)(t \<mapsto> tm\<lparr>timeout_tick := x\<rparr>)" "fired s' = fired s @ [t]"
    "tick_now s' = tick_now s" "rt_soft_timer_list s' = rt_soft_timer_list s" "hard_tmp s' = hard_tmp s" "soft_tmp s' = soft_tmp s"
    by (simp_all add: s'_def)
  have L': "set L' = insert t (set L)"
    by (simp add: L'_def)
  have t: "t \<notin> set L" "activated tm" "\<not> soft tm"
    using head_timer [OF _ L tm] inv by (auto simp: tick_inv_def)
  have i: "0 < unat (init_tick tm)" "unat (init_tick tm) < 0x7FFFFFFF"
    using inv L tm True by (auto simp: tick_inv_def periods_ok_def)
  have "x - b = init_tick tm + 1"
    by (simp add: x_def)
  then have x: "unat (x - b) = unat (init_tick tm) + 1"
    using i by (simp add: unat_word_ariths)
  have kt: "key b s' t = unat (init_tick tm) + 1"
    using x by (simp add: s'_def key_upd)
  have kL: "key b s' p = key b s p" if "p \<in> set L" for p
    using that t(1) by (auto simp: s'_def key_upd)
  have place: "L' = takeWhile (\<lambda>p. key b s' p \<le> key b s' t) L @ t # dropWhile (\<lambda>p. key b s' p \<le> key b s' t) L"
  proof -
    have "L' = takeWhile (\<lambda>p. key b s p \<le> unat (x - b)) L @ t # dropWhile (\<lambda>p. key b s p \<le> unat (x - b)) L"
      unfolding key_def L'_def using inv L x i
      by (intro timer_insert_place) (auto simp: tick_inv_def sorted_keys_def key_def)
    moreover have "takeWhile (\<lambda>p. key b s p \<le> unat (x - b)) L = takeWhile (\<lambda>p. key b s' p \<le> key b s' t) L"
      by (rule takeWhile_cong) (simp_all only: kL kt x)
    moreover have "dropWhile (\<lambda>p. key b s p \<le> unat (x - b)) L = dropWhile (\<lambda>p. key b s' p \<le> key b s' t) L"
      by (rule dropWhile_cong) (simp_all only: kL kt x)
    ultimately show ?thesis by simp
  qed
  have same: "map (key b s') L = map (key b s) L"
    by (rule map_cong [OF refl]) (rule kL)
  have "sorted (map (key b s') L)"
    unfolding same using inv L by (simp add: tick_inv_def sorted_keys_def)
  then have "sorted (map (key b s') (rt_timer_list s'))"
    unfolding fields place by (rule sorted_place)
  moreover have "\<forall>p \<in> set (rt_timer_list s'). key b s' p \<le> 0x7FFFFFFF"
    using inv L i kt kL by (auto simp: fields L' tick_inv_def sorted_keys_def)
  moreover have "timer_wf s'"
    using inv L tm t L'_def by (auto simp: fields L' tick_inv_def timer_wf_def distinct_timer_insert split: if_splits)
  moreover have "periods_ok s'"
    using inv L i by (auto simp: fields L' tick_inv_def periods_ok_def split: if_splits)
  ultimately have "tick_inv b s'"
    using inv by (simp add: tick_inv_def sorted_keys_def fields(4))
  moreover have "filter (\<lambda>p. key b s' p \<le> 1) L' = filter (\<lambda>p. key b s p \<le> 1) L"
  proof -
    have "filter (\<lambda>p. key b s' p \<le> 1) L' = filter (\<lambda>p. key b s' p \<le> 1) L"
      by (subst place) (rule filter_place, use kt i in simp)
    also have "\<dots> = filter (\<lambda>p. key b s p \<le> 1) L"
      by (rule filter_cong [OF refl]) (simp only: kL)
    finally show ?thesis .
  qed
  moreover have "timer_fire False cb t tm s = Some s'"
  proof -
    have "init_tick tm < RT_TICK_MAX div 2" "tick_now s = b + 1" "timer_wf s"
      using i inv by (simp_all add: word_less_nat_alt tick_inv_def)
    then show ?thesis
      using fire_periodic [OF _ L tm True cb] by (simp add: s'_def L'_def x_def)
  qed
  ultimately show ?thesis
    using that [of s'] True kt by (simp add: fields L' x_def)
qed

text \<open>What \<open>rt_timer_check\<close> does to the timer \<open>t\<close>: its time left from \<open>b\<close> on, when it stays linked.\<close>

definition after_check :: "u32 \<Rightarrow> timer_sys \<Rightarrow> nat \<Rightarrow> nat option" where
  "after_check b s t =
     (case timers s t of None \<Rightarrow> None
      | Some tm \<Rightarrow> if t \<notin> set (rt_timer_list s) then None
                  else if key b s t \<le> 1 then if periodic tm then Some (unat (init_tick tm) + 1) else None
                  else Some (key b s t))"

definition left :: "u32 \<Rightarrow> timer_sys \<Rightarrow> nat \<Rightarrow> nat option" where
  "left b s t = (if t \<in> set (rt_timer_list s) then Some (key b s t) else None)"

definition static :: "timer_sys \<Rightarrow> nat \<Rightarrow> (bool \<times> u32) option" where
  "static s t = map_option (\<lambda>tm. (periodic tm, init_tick tm)) (timers s t)"

lemma check_loop_due:
  assumes "tick_inv b s" "benign cb" "length (filter (\<lambda>p. key b s p \<le> 1) (rt_timer_list s)) < fuel"
  shows "\<exists>s'. check_loop fuel False cb s = Some s' \<and> tick_inv b s' \<and>
    (\<forall>t \<in> set (rt_timer_list s'). 2 \<le> key b s' t) \<and>
    fired s' = fired s @ filter (\<lambda>p. key b s p \<le> 1) (rt_timer_list s) \<and>
    left b s' = after_check b s \<and> static s' = static s"
  using assms(1,3)
proof (induction fuel arbitrary: s)
  case (Suc fuel)
  show ?case
  proof (cases "rt_timer_list s")
    case Nil
    then show ?thesis
      using Suc.prems by (auto simp: left_def after_check_def fun_eq_iff split: option.splits)
  next
    case (Cons t L)
    have wf: "timer_wf s" and now: "tick_now s = b + 1"
      using Suc.prems(1) by (simp_all add: tick_inv_def)
    obtain tm where tm: "timers s t = Some tm"
      using list_member [OF wf, of t] Cons by auto
    have small: "\<forall>p \<in> set (rt_timer_list s). key b s p \<le> 0x7FFFFFFF" and srt: "sorted (map (key b s) (rt_timer_list s))"
      using Suc.prems(1) by (simp_all add: tick_inv_def sorted_keys_def)
    have due: "rt_tick_get s - timeout_tick tm < RT_TICK_MAX div 2 \<longleftrightarrow> key b s t \<le> 1"
      using small Cons now tm by (intro due_iff) auto
    show ?thesis
    proof (cases "key b s t \<le> 1")
      case False
      have later: "2 \<le> key b s p" if "p \<in> set (rt_timer_list s)" for p
      proof -
        have "key b s t \<le> key b s p"
          using that srt Cons by auto
        then show ?thesis using False by simp
      qed
      have none: "filter (\<lambda>p. key b s p \<le> 1) (rt_timer_list s) = []"
        unfolding filter_empty_conv
      proof
        fix p
        assume "p \<in> set (rt_timer_list s)"
        from later [OF this] show "\<not> key b s p \<le> 1" by simp
      qed
      have lft: "left b s = after_check b s"
      proof (rule ext)
        fix p
        show "left b s p = after_check b s p"
        proof (cases "p \<in> set (rt_timer_list s)")
          case True
          moreover obtain tm' where "timers s p = Some tm'"
            using list_member [OF wf True] by metis
          moreover have "\<not> key b s p \<le> 1"
            using later [OF True] by simp
          ultimately show ?thesis
            by (simp add: left_def after_check_def)
        qed (simp add: left_def after_check_def split: option.splits)
      qed
      have "check_loop (Suc fuel) False cb s = Some s"
        unfolding check_loop.simps if_False Cons list.case tm option.case due using False by (simp only: if_False)
      then show ?thesis
        using Suc.prems(1) later lft unfolding none by (intro exI [of _ s]) simp
    next
      case True
      obtain s1 where s1: "timer_fire False cb t tm s = Some s1" "tick_inv b s1" "fired s1 = fired s @ [t]"
        "filter (\<lambda>p. key b s1 p \<le> 1) (rt_timer_list s1) = filter (\<lambda>p. key b s p \<le> 1) L"
        and set1: "set (rt_timer_list s1) = (if periodic tm then insert t (set L) else set L)"
        and other: "\<And>p. p \<noteq> t \<Longrightarrow> timers s1 p = timers s p"
        and new: "timers s1 t = Some (if periodic tm then tm\<lparr>timeout_tick := b + 1 + init_tick tm\<rparr> else deactivate tm)"
        and kt: "periodic tm \<Longrightarrow> key b s1 t = unat (init_tick tm) + 1"
        by (rule fire_due [OF Suc.prems(1) Cons tm True assms(2)]) (rule that)
      have ko: "key b s1 p = key b s p" if "p \<noteq> t" for p
        using other [OF that] by (simp add: key_def timeout_of_def)
      have i: "periodic tm \<Longrightarrow> 0 < unat (init_tick tm)" "t \<notin> set L"
        using Suc.prems(1) Cons tm head_timer(3) [OF wf Cons tm] by (auto simp: tick_inv_def periods_ok_def)
      have "after_check b s1 p = after_check b s p" for p
        using other [of p] new kt i ko [of p] set1 Cons tm True
        by (cases "p = t"; cases "timers s p") (auto simp: after_check_def)
      moreover have "static s1 = static s"
      proof
        fix p
        show "static s1 p = static s p"
          using other [of p] new tm by (cases "p = t") (auto simp: static_def)
      qed
      moreover have "length (filter (\<lambda>p. key b s1 p \<le> 1) (rt_timer_list s1)) < fuel"
        using Suc.prems(2) Cons True s1(4) by simp
      ultimately show ?thesis
        using Suc.IH [OF s1(2)] s1 Cons tm due True by (auto simp: fun_eq_iff)
    qed
  qed
qed simp

section \<open>What a tick does\<close>

text \<open>
  The abstract timers: the time left of every running one.  A tick counts each down; one that has
  no more than a tick left fires, and starts over if it is periodic.
\<close>

definition tick_ok :: "timer_sys \<Rightarrow> bool" where
  "tick_ok s \<longleftrightarrow> timer_wf s \<and> sorted_keys (tick_now s) 0x7FFFFFFE s \<and> periods_ok s"

definition time_left :: "timer_sys \<Rightarrow> nat \<Rightarrow> nat option" where
  "time_left s = left (tick_now s) s"

definition count_down :: "(bool \<times> u32) option \<Rightarrow> nat option \<Rightarrow> nat option" where
  "count_down st n =
     (case (st, n) of (Some (per, i), Some k) \<Rightarrow> if 1 < k then Some (k - 1) else if per then Some (unat i) else None
      | _ \<Rightarrow> None)"

definition due_now :: "timer_sys \<Rightarrow> nat list" where
  "due_now s = filter (\<lambda>t. time_left s t \<in> {Some 0, Some 1}) (rt_timer_list s)"

lemma key_tick: "1 \<le> key b s t \<Longrightarrow> key (b + 1) s t = key b s t - 1"
proof -
  assume "1 \<le> key b s t"
  then have "1 \<le> timeout_of s t - b"
    by (simp add: key_def word_le_nat_alt)
  then have "unat (timeout_of s t - b - 1) = unat (timeout_of s t - b) - 1"
    by (simp add: unat_sub)
  then show ?thesis
    by (simp add: key_def diff_diff_add)
qed

lemma due_now_key: "due_now s = filter (\<lambda>t. key (tick_now s) s t \<le> 1) (rt_timer_list s)"
  unfolding due_now_def by (rule filter_cong) (auto simp: time_left_def left_def)

lemma tick_time_left:
  assumes "tick_inv b s'" "\<forall>t \<in> set (rt_timer_list s'). 2 \<le> key b s' t" "left b s' = after_check b s0"
    and "timer_wf s0"
  shows "time_left s' t = count_down (static s0 t) (left b s0 t)" and "tick_ok s'"
proof -
  have now: "tick_now s' = b + 1"
    using assms(1) by (simp add: tick_inv_def)
  have k: "key (b + 1) s' p = key b s' p - 1" if "p \<in> set (rt_timer_list s')" for p
    using assms(2) that by (intro key_tick) force
  have "time_left s' t = map_option (\<lambda>n. n - 1) (left b s' t)"
    using k by (auto simp: time_left_def left_def now)
  also have "\<dots> = count_down (static s0 t) (left b s0 t)"
    unfolding assms(3) using assms(4)
    by (cases "timers s0 t") (auto simp: after_check_def count_down_def static_def left_def timer_wf_def)
  finally show "time_left s' t = count_down (static s0 t) (left b s0 t)" .
  have same: "map (key (b + 1) s') (rt_timer_list s') = map (\<lambda>n. n - 1) (map (key b s') (rt_timer_list s'))"
    using k by simp
  have "sorted (map (key b s') (rt_timer_list s'))" and le: "\<forall>p \<in> set (rt_timer_list s'). key b s' p \<le> 0x7FFFFFFF"
    using assms(1) by (simp_all add: tick_inv_def sorted_keys_def)
  then have "sorted (map (key (b + 1) s') (rt_timer_list s'))"
    unfolding same by (auto simp: sorted_wrt_map elim!: sorted_wrt_mono_rel [rotated])
  moreover have "\<forall>p \<in> set (rt_timer_list s'). key (b + 1) s' p \<le> 0x7FFFFFFE"
    using le k by fastforce
  ultimately show "tick_ok s'"
    using assms(1) unfolding tick_ok_def now sorted_keys_def tick_inv_def by blast
qed

lemma tick_upd: "timer_wf (s\<lparr>tick_now := n\<rparr>) = timer_wf s" "periods_ok (s\<lparr>tick_now := n\<rparr>) = periods_ok s"
  by (simp_all add: timer_wf_def periods_ok_def)

lemma tick_correct:
  assumes "tick_ok s" "benign cb" "length (rt_timer_list s) < fuel"
  shows "\<exists>th' s'. rt_tick_increase fuel cb (th, s) = Some (th', s') \<and> tick_ok s' \<and>
    tick_now s' = tick_now s + 1 \<and> fired s' = fired s @ due_now s \<and>
    time_left s' = (\<lambda>t. count_down (static s t) (time_left s t)) \<and> static s' = static s"
proof -
  let ?b = "tick_now s"
  let ?s = "s\<lparr>tick_now := ?b + 1\<rparr>"
  have same: "key b ?s = key b s" "left b ?s = left b s" "static ?s = static s" for b
    by (simp_all add: key_def left_def static_def timeout_of_def fun_eq_iff)
  have "timer_wf ?s" "periods_ok ?s"
    using assms(1) by (simp_all add: tick_ok_def tick_upd)
  moreover have "sorted_keys ?b 0x7FFFFFFF ?s"
    using assms(1) unfolding sorted_keys_def same tick_ok_def by auto
  ultimately have inv: "tick_inv ?b ?s"
    by (simp add: tick_inv_def)
  have "length (filter (\<lambda>p. key ?b ?s p \<le> 1) (rt_timer_list ?s)) < fuel"
    using assms(3) by (simp add: same) (meson le_less_trans length_filter_le)
  from check_loop_due [OF inv assms(2) this] obtain s' where s': "check_loop fuel False cb ?s = Some s'"
    "tick_inv ?b s'" "\<forall>t \<in> set (rt_timer_list s'). 2 \<le> key ?b s' t"
    "fired s' = fired ?s @ filter (\<lambda>p. key ?b ?s p \<le> 1) (rt_timer_list ?s)"
    "left ?b s' = after_check ?b ?s" "static s' = static ?s"
    by blast
  have "timer_wf ?s"
    using inv by (simp add: tick_inv_def)
  note t = tick_time_left [OF s'(2,3,5) this]
  have "time_left s' = (\<lambda>t. count_down (static s t) (time_left s t))"
    using t(1) by (simp add: fun_eq_iff same time_left_def)
  moreover have "fired s' = fired s @ due_now s"
    using s'(4) by (simp add: same due_now_key)
  moreover have "tick_now s' = ?b + 1"
    using s'(2) by (simp add: tick_inv_def)
  ultimately show ?thesis
    using s'(1,6) t(2) by (simp add: rt_tick_increase_def rt_timer_check_def Let_def same)
qed

text \<open>C7: a tick that finds the hard timers in order, none further than half the range of the tick away and no periodic one with
  a period of zero, and whose time-out functions leave the timers alone, returns, calls the functions of exactly the timers
  that have at most a tick left, in the order of the list, counts every other timer down by one,
  restarts the periodic ones with their period and stops the others.  One round of the loop per
  timer on the list is enough.  (With a period of zero the loop does not end: \<open>zero_period_hangs\<close>.)\<close>

theorem tick_refines:
  assumes "tick_ok s" "benign cb" "length (rt_timer_list s) < fuel"
  shows "\<exists>th' s'. rt_tick_increase fuel cb (th, s) = Some (th', s') \<and> tick_ok s' \<and>
    tick_now s' = tick_now s + 1 \<and> fired s' = fired s @ due_now s \<and>
    time_left s' = (\<lambda>t. count_down (static s t) (time_left s t)) \<and> static s' = static s"
  by (rule tick_correct [OF assms])

lemma start_correct:
  assumes "tick_ok s" "timers s t = Some tm" "\<not> soft tm" "unat (init_tick tm) < 0x7FFFFFFF"
    and "periodic tm \<Longrightarrow> init_tick tm \<noteq> 0"
  shows "\<exists>s'. rt_timer_start t s = Some (RT_EOK, s') \<and> tick_ok s' \<and> fired s' = fired s \<and>
    time_left s' = (time_left s)(t \<mapsto> unat (init_tick tm)) \<and> static s' = static s \<and>
    rt_timer_list s' = (let l = removeAll t (rt_timer_list s); k = \<lambda>p. the (time_left s p) \<le> unat (init_tick tm)
                        in takeWhile k l @ t # dropWhile k l)"
proof -
  let ?b = "tick_now s"
  define L where "L = removeAll t (rt_timer_list s)"
  define x where "x = ?b + init_tick tm"
  define s' where "s' = (timer_remove t s)\<lparr>rt_timer_list := timer_insert (timeout_of s) x t L,
     timers := (timers s)(t \<mapsto> activate ((deactivate tm)\<lparr>timeout_tick := x\<rparr>))\<rparr>"
  have half: "init_tick tm < RT_TICK_MAX div 2"
    using assms(4) by (simp add: word_less_nat_alt)
  have st: "rt_timer_start t s = Some (RT_EOK, s')"
    using start_hard [OF assms(2,3) half] by (simp add: s'_def x_def L_def)
  have f: "tick_now s' = ?b" "fired s' = fired s" "rt_timer_list s' = timer_insert (timeout_of s) x t L"
    by (simp_all add: s'_def)
  have x: "unat (x - ?b) = unat (init_tick tm)"
    by (simp add: x_def)
  have kt: "key ?b s' t = unat (init_tick tm)"
    using x by (simp add: s'_def key_def timeout_of_def)
  have ko: "key ?b s' p = key ?b s p" if "p \<noteq> t" for p
    using that by (simp add: s'_def key_def timeout_of_def)
  have le: "key ?b s p \<le> 0x7FFFFFFE" if "p \<in> set L" for p
    using that assms(1) by (auto simp: L_def tick_ok_def sorted_keys_def)
  have place: "rt_timer_list s' =
     takeWhile (\<lambda>p. key ?b s p \<le> unat (init_tick tm)) L @ t # dropWhile (\<lambda>p. key ?b s p \<le> unat (init_tick tm)) L"
  proof -
    have "\<forall>p \<in> set L. unat (timeout_of s p - ?b) \<le> 0x7FFFFFFF \<and>
        unat (timeout_of s p - ?b) < unat (x - ?b) + 0x7FFFFFFF"
      using le unfolding key_def by force
    from timer_insert_place [OF this] show ?thesis
      using x assms(4) by (simp add: f key_def)
  qed
  have place': "rt_timer_list s' = takeWhile (\<lambda>p. key ?b s' p \<le> key ?b s' t) L @ t # dropWhile (\<lambda>p. key ?b s' p \<le> key ?b s' t) L"
  proof -
    have "key ?b s' p \<le> key ?b s' t \<longleftrightarrow> key ?b s p \<le> unat (init_tick tm)" if "p \<in> set L" for p
      using that ko [of p] by (simp add: kt L_def)
    then show ?thesis
      unfolding place by (intro arg_cong2 [where f = append] arg_cong2 [where f = Cons] takeWhile_cong dropWhile_cong) simp_all
  qed
  have "sorted (map (key ?b s) L)"
    using assms(1) by (auto simp: L_def tick_ok_def sorted_keys_def removeAll_filter_not_eq intro: sorted_filter)
  moreover have "map (key ?b s') L = map (key ?b s) L"
    by (rule map_cong) (auto simp: L_def ko)
  ultimately have "sorted (map (key ?b s') (rt_timer_list s'))"
    unfolding place' by (intro sorted_place) (simp only:)
  moreover have "key ?b s' p \<le> 0x7FFFFFFE" if "p \<in> set (rt_timer_list s')" for p
    using that le [of p] kt ko [of p] assms(4) by (cases "p = t") (auto simp: f)
  moreover have "timer_wf s'"
    using start_wf [OF _ st] assms(1) by (simp add: tick_ok_def)
  moreover have "periods_ok s'"
    using assms unat_eq_zero [of "init_tick tm"] by (auto simp: periods_ok_def f tick_ok_def L_def s'_def)
  ultimately have "tick_ok s'"
    by (simp add: tick_ok_def sorted_keys_def f)
  moreover have "time_left s' p = ((time_left s)(t \<mapsto> unat (init_tick tm))) p" for p
    using kt ko [of p] by (auto simp: time_left_def left_def f L_def)
  moreover have "static s' p = static s p" for p
    using assms(2) by (auto simp: static_def s'_def)
  moreover have "key ?b s p = the (time_left s p)" if "p \<in> set L" for p
    using that by (simp add: L_def time_left_def left_def)
  then have "rt_timer_list s' =
     takeWhile (\<lambda>p. the (time_left s p) \<le> unat (init_tick tm)) L @ t # dropWhile (\<lambda>p. the (time_left s p) \<le> unat (init_tick tm)) L"
    unfolding place by (intro arg_cong2 [where f = append] arg_cong2 [where f = Cons] takeWhile_cong dropWhile_cong) simp_all
  ultimately show ?thesis
    using st f(2) by (intro exI [of _ s']) (simp add: fun_eq_iff L_def Let_def)
qed

text \<open>\<open>rt_timer_start\<close> on a hard timer arms it with its own time, whatever it was doing before,
  leaves every other timer's time left as it is, and links it behind the timers that time out
  before it or at the same tick and before the others.\<close>

theorem timer_start_arms:
  assumes "tick_ok s" "timers s t = Some tm" "\<not> soft tm" "unat (init_tick tm) < 0x7FFFFFFF"
    and "periodic tm \<Longrightarrow> init_tick tm \<noteq> 0"
  shows "\<exists>s'. rt_timer_start t s = Some (RT_EOK, s') \<and> tick_ok s' \<and> fired s' = fired s \<and>
    time_left s' = (time_left s)(t \<mapsto> unat (init_tick tm)) \<and> static s' = static s \<and>
    rt_timer_list s' = (let l = removeAll t (rt_timer_list s); k = \<lambda>p. the (time_left s p) \<le> unat (init_tick tm)
                        in takeWhile k l @ t # dropWhile k l)"
  by (rule start_correct [OF assms])

text \<open>\<open>n\<close> ticks in a row, each with the given number of rounds.\<close>

primrec ticks :: "nat \<Rightarrow> nat \<Rightarrow> callback \<Rightarrow> slice \<times> timer_sys \<Rightarrow> (slice \<times> timer_sys) option" where
  "ticks 0 fuel cb st = Some st"
| "ticks (Suc n) fuel cb st = Option.bind (ticks n fuel cb st) (rt_tick_increase fuel cb)"

text \<open>How often a timer that is started with the time \<open>d\<close> has fired after \<open>n\<close> ticks.\<close>

definition firings :: "bool \<Rightarrow> nat \<Rightarrow> nat \<Rightarrow> nat" where
  "firings per d n = (if per then n div d else if n < d then 0 else 1)"

definition left_after :: "bool \<Rightarrow> nat \<Rightarrow> nat \<Rightarrow> nat option" where
  "left_after per d n = (if per then Some (d - n mod d) else if n < d then Some (d - n) else None)"

lemma count_distinct: "distinct l \<Longrightarrow> count_list l t = (if t \<in> set l then 1 else 0)"
  by (induction l) auto

lemma count_due:
  "timer_wf s \<Longrightarrow> count_list (due_now s) t = (if time_left s t \<in> {Some 0, Some 1} then 1 else 0)"
proof -
  assume "timer_wf s"
  then have "distinct (rt_timer_list s)"
    by (simp add: timer_wf_def)
  then have "distinct (due_now s)"
    by (simp add: due_now_def)
  moreover have "t \<in> set (due_now s) \<longleftrightarrow> time_left s t \<in> {Some 0, Some 1}"
    by (auto simp: due_now_def time_left_def left_def split: if_splits)
  ultimately show ?thesis
    by (simp add: count_distinct)
qed

lemma left_after_step:
  assumes "0 < d" "d = unat i"
  shows "count_down (Some (per, i)) (left_after per d n) = left_after per d (Suc n)"
    and "(if left_after per d n \<in> {Some 0, Some 1} then 1 else 0) + firings per d n = firings per d (Suc n)"
proof -
  define r where "r = n mod d"
  have m: "r < d" using assms(1) by (simp add: r_def)
  have s: "n mod d = r" "Suc n mod d = (if Suc r = d then 0 else Suc r)"
    "Suc n div d = (if Suc r = d then Suc (n div d) else n div d)"
    using assms(1) by (simp_all add: mod_Suc div_Suc r_def)
  show "count_down (Some (per, i)) (left_after per d n) = left_after per d (Suc n)"
    unfolding count_down_def left_after_def s using m assms(1) by (cases per) (auto simp: assms(2) [symmetric])
  show "(if left_after per d n \<in> {Some 0, Some 1} then 1 else 0) + firings per d n = firings per d (Suc n)"
    using m assms(1) by (auto simp: left_after_def firings_def s)
qed

text \<open>The timers that are linked stay as many: a round per timer object is always enough.\<close>

lemma list_bound:
  assumes "timer_wf s" "finite (dom (timers s))"
  shows "length (rt_timer_list s) \<le> card (dom (timers s))"
proof -
  have "distinct (rt_timer_list s)"
    using assms(1) by (simp add: timer_wf_def)
  then have "length (rt_timer_list s) = card (set (rt_timer_list s))"
    by (simp add: distinct_card)
  also have "\<dots> \<le> card (dom (timers s))"
    using assms by (intro card_mono) (auto simp: timer_wf_def)
  finally show ?thesis .
qed

lemma dom_static: "dom (static s) = dom (timers s)"
  by (auto simp: static_def)

lemma run_on_time:
  assumes "tick_ok s" "benign cb" "finite (dom (timers s))" "card (dom (timers s)) < fuel"
    and "timers s t = Some tm" "time_left s t = Some (unat (init_tick tm))" "init_tick tm \<noteq> 0"
  shows "\<exists>th' s'. ticks n fuel cb (th, s) = Some (th', s') \<and> tick_ok s' \<and> static s' = static s \<and>
    tick_now s' = tick_now s + of_nat n \<and>
    time_left s' t = left_after (periodic tm) (unat (init_tick tm)) n \<and>
    count_list (fired s') t = count_list (fired s) t + firings (periodic tm) (unat (init_tick tm)) n"
proof (induction n)
  case 0
  have "0 < unat (init_tick tm)"
    using assms(7) by (simp add: unat_gt_0)
  then show ?case
    using assms by (auto simp: left_after_def firings_def)
next
  case (Suc n)
  then obtain th1 s1 where s1: "ticks n fuel cb (th, s) = Some (th1, s1)" "tick_ok s1" "static s1 = static s"
    "tick_now s1 = tick_now s + of_nat n"
    "time_left s1 t = left_after (periodic tm) (unat (init_tick tm)) n"
    "count_list (fired s1) t = count_list (fired s) t + firings (periodic tm) (unat (init_tick tm)) n"
    by blast
  have wf: "timer_wf s1" using s1(2) by (simp add: tick_ok_def)
  have "dom (timers s1) = dom (timers s)"
    using s1(3) dom_static by metis
  then have "length (rt_timer_list s1) < fuel"
    using list_bound [OF wf] assms(3,4) by simp
  from tick_correct [OF s1(2) assms(2) this] obtain th' s' where
    s': "rt_tick_increase fuel cb (th1, s1) = Some (th', s')" "tick_ok s'" "tick_now s' = tick_now s1 + 1"
      "fired s' = fired s1 @ due_now s1" "time_left s' = (\<lambda>t. count_down (static s1 t) (time_left s1 t))"
      "static s' = static s1"
    by blast
  have i: "0 < unat (init_tick tm)" and st: "static s t = Some (periodic tm, init_tick tm)"
    using assms(5,7) by (simp_all add: static_def unat_gt_0)
  note step = left_after_step [OF i refl, of "periodic tm" n]
  have "time_left s' t = left_after (periodic tm) (unat (init_tick tm)) (Suc n)"
    unfolding s'(5) s1(3,5) st by (rule step(1))
  moreover have "count_list (fired s') t = count_list (fired s) t + firings (periodic tm) (unat (init_tick tm)) (Suc n)"
    unfolding s'(4) count_list_append s1(6) count_due [OF wf] s1(5) step(2) [symmetric] by simp
  ultimately show ?case
    using s1 s' by (simp add: add.commute add.left_commute)
qed


lemma demo_armed_ok: "tick_ok demo_armed"
  using demo_armed_wf by (auto simp: tick_ok_def sorted_keys_def periods_ok_def demo_armed_def demo_timers_def)

lemma demo_armed_timer:
  "timers demo_armed 1 = Some demo_timer" "\<not> soft demo_timer" "\<not> periodic demo_timer" "init_tick demo_timer = 30"
  "dom (timers demo_armed) = {1}" "fired demo_armed = []" "rt_timer_list demo_armed = []"
  by (simp_all add: demo_armed_def demo_timer_def soft_def periodic_def demo_timers_def)

definition demo_slice :: slice where
  "demo_slice = \<lparr>remaining_tick = 5, slice_init_tick = 5, stat_yield = False, schedules = 0\<rparr>"

text \<open>The last tick before the counter wraps: two timers are due, a one-shot and a periodic one, and one has five ticks left.\<close>

definition demo_due :: timer_sys where
  "demo_due = demo_timers\<lparr>tick_now := 0xFFFFFFFF, rt_timer_list := [1, 2, 3],
     timers := [1 \<mapsto> \<lparr>flag = 1, systemobject = False, timeout_func = 7, init_tick = 30, timeout_tick = 0\<rparr>,
                2 \<mapsto> \<lparr>flag = 3, systemobject = False, timeout_func = 8, init_tick = 5, timeout_tick = 0\<rparr>,
                3 \<mapsto> \<lparr>flag = 1, systemobject = False, timeout_func = 9, init_tick = 30, timeout_tick = 4\<rparr>]\<rparr>"

lemma demo_due_ok: "tick_ok demo_due"
proof -
  have "timer_wf demo_due"
    by (auto simp: timer_wf_def demo_due_def demo_timers_def activated_def soft_def split: if_splits)
  then show ?thesis
    by (auto simp: tick_ok_def sorted_keys_def periods_ok_def key_def timeout_of_def demo_due_def demo_timers_def)
qed

lemma demo_due_left:
  "time_left demo_due (Suc 0) = Some (Suc 0)" "time_left demo_due 2 = Some (Suc 0)" "time_left demo_due 3 = Some 5"
  "static demo_due (Suc 0) = Some (False, 30)" "static demo_due 2 = Some (True, 5)" "static demo_due 3 = Some (False, 30)"
  by (simp_all add: time_left_def left_def key_def timeout_of_def static_def activated_def periodic_def soft_def demo_due_def demo_timers_def)

theorem tick_refines_witness:
  "\<exists>th' s'. rt_tick_increase 4 (\<lambda>_ s. s) (demo_slice, demo_due) = Some (th', s') \<and> tick_now s' = 0 \<and> fired s' = [1, 2] \<and>
     time_left s' 1 = None \<and> time_left s' 2 = Some 5 \<and> time_left s' 3 = Some 4"
proof -
  have "rt_timer_list demo_due = [1, 2, 3]" "tick_now demo_due = 0xFFFFFFFF" "fired demo_due = []"
    by (simp_all add: demo_due_def demo_timers_def)
  moreover obtain th' s' where "rt_tick_increase 4 (\<lambda>_ s. s) (demo_slice, demo_due) = Some (th', s')" "tick_now s' = tick_now demo_due + 1"
    "fired s' = fired demo_due @ due_now demo_due" "time_left s' = (\<lambda>t. count_down (static demo_due t) (time_left demo_due t))"
    using tick_refines [OF demo_due_ok, of "\<lambda>_ s. s" 4 demo_slice] calculation by (auto simp: benign_def)
  ultimately show ?thesis
    by (simp add: due_now_def count_down_def demo_due_left)
qed

theorem timer_start_arms_witness:
  "\<exists>s'. rt_timer_start 1 demo_armed = Some (RT_EOK, s') \<and> time_left s' 1 = Some 30"
  using timer_start_arms [OF demo_armed_ok demo_armed_timer(1,2)] by (auto simp: demo_armed_timer)


text \<open>
  A periodic timer with a period of 0 is never done: every round of \<open>rt_timer_check\<close> finds it due
  again, so that no number of rounds returns.
\<close>

lemma zero_period_hangs:
  assumes "timer_wf s" "rt_timer_list s = [t]" "timers s t = Some tm" "periodic tm" "init_tick tm = 0"
    and "timeout_tick tm = tick_now s" "benign cb"
  shows "rt_timer_check fuel cb s = None"
  using assms
proof (induction fuel arbitrary: s tm)
  case (Suc fuel)
  let ?s = "s\<lparr>rt_timer_list := [t], timers := (timers s)(t \<mapsto> tm\<lparr>timeout_tick := tick_now s\<rparr>), fired := fired s @ [t]\<rparr>"
  have "timer_fire False cb t tm s = Some ?s"
    using fire_periodic [of s t "[]" tm cb] Suc.prems by simp
  moreover have "timer_wf ?s"
    using Suc.prems by (auto simp: timer_wf_def split: if_splits)
  then have "rt_timer_check fuel cb ?s = None"
    using Suc.prems by (intro Suc.IH) auto
  ultimately show ?case
    using Suc.prems by (simp add: rt_timer_check_def rt_tick_get_def)
qed (simp add: rt_timer_check_def)

text \<open>The timer thread takes a soft timer that times out at \<open>RT_TICK_MAX\<close> for an empty list.\<close>

lemma sentinel_timeout_suspends:
  assumes "rt_soft_timer_list s = t # l" "timers s t = Some tm" "timeout_tick tm = RT_TICK_MAX"
  shows "fst (rt_thread_timer_wait s) = Suspend"
  using assms by (simp add: rt_thread_timer_wait_def rt_timer_list_next_timeout_def)

end
