(* ===== verification/Scheduler.thy ===== *)
theory Scheduler
  imports Timer
begin

text \<open>
  \<^verbatim>\<open>rt-thread/src/scheduler.c\<close> and \<^verbatim>\<open>rt-thread/src/thread.c\<close> on one processor with 32 priorities: the ready
  queues, the choice of the running thread, and what moves a thread between ready, running and
  suspended.  A thread is an address, \<open>threads\<close> is the memory of the thread structures, and the node
  \<open>tlist\<close> of a thread is its place on a ready queue or on the list \<open>waiting\<close> of an IPC object.  The
  timer of a thread has the thread's address in \<open>tmr\<close>.  \<open>None\<close> is a failed \<open>RT_ASSERT\<close> or a null
  pointer.  What a thread does after \<open>rt_schedule\<close> gave the processor away is a function of its own
  (\<open>rt_thread_sleep_resumed\<close>); stacks, clean-up functions, hooks and signals are left out.
\<close>

section \<open>State\<close>

abbreviation (input) RT_THREAD_PRIORITY_MAX :: nat where "RT_THREAD_PRIORITY_MAX \<equiv> 32"
abbreviation (input) RT_ETIMEOUT :: rt_err_t where "RT_ETIMEOUT \<equiv> 2"

datatype thread_stat = RT_THREAD_INIT | RT_THREAD_READY | RT_THREAD_SUSPEND | RT_THREAD_RUNNING | RT_THREAD_CLOSE

record rt_thread =
  stat :: thread_stat
  yield_flag :: bool
  current_priority :: u8
  init_priority :: u8
  number_mask :: u32
  thread_init_tick :: u32
  thread_remaining_tick :: u32
  error :: rt_err_t

record sched =
  threads :: "nat \<Rightarrow> rt_thread"
  rt_thread_priority_table :: "nat \<Rightarrow> nat list"
  rt_thread_ready_priority_group :: u32
  rt_current_thread :: "nat option"
  rt_current_priority :: u8
  rt_scheduler_lock_nest :: u16
  waiting :: "nat \<Rightarrow> nat list"
  tmr :: timer_sys

definition thread_upd :: "nat \<Rightarrow> (rt_thread \<Rightarrow> rt_thread) \<Rightarrow> sched \<Rightarrow> sched" where
  "thread_upd t f s = s\<lparr>threads := (threads s)(t := f (threads s t))\<rparr>"

abbreviation set_stat :: "thread_stat \<Rightarrow> nat \<Rightarrow> sched \<Rightarrow> sched" where
  "set_stat x t \<equiv> thread_upd t (\<lambda>th. th\<lparr>stat := x\<rparr>)"

abbreviation priority :: "sched \<Rightarrow> nat \<Rightarrow> nat" where
  "priority s t \<equiv> unat (current_priority (threads s t))"

text \<open>\<open>rt_list_remove\<close> of the thread's node, from the list it is on.\<close>

definition tlist_remove :: "nat \<Rightarrow> sched \<Rightarrow> sched" where
  "tlist_remove t s = s\<lparr>rt_thread_priority_table := (\<lambda>p. removeAll t (rt_thread_priority_table s p)),
     waiting := (\<lambda>i. removeAll t (waiting s i))\<rparr>"

section \<open>Ready queues\<close>

text \<open>The index of the lowest set bit, counted from 1.\<close>

definition rt_ffs :: "u32 \<Rightarrow> nat" where
  "rt_ffs v = (case List.find (bit v) [0..<32] of None \<Rightarrow> 0 | Some i \<Rightarrow> i + 1)"

definition get_highest_priority_thread :: "sched \<Rightarrow> (nat \<times> nat) option" where
  "get_highest_priority_thread s =
     (let highest_ready_priority = rt_ffs (rt_thread_ready_priority_group s) - 1 in
      case rt_thread_priority_table s highest_ready_priority of [] \<Rightarrow> None | t # _ \<Rightarrow> Some (t, highest_ready_priority))"

definition rt_schedule_insert_thread :: "nat \<Rightarrow> sched \<Rightarrow> sched" where
  "rt_schedule_insert_thread t s =
     (if rt_current_thread s = Some t then set_stat RT_THREAD_RUNNING t s
      else let s1 = set_stat RT_THREAD_READY t s; p = priority s1 t in
           s1\<lparr>rt_thread_priority_table := (rt_thread_priority_table s1)(p := rt_thread_priority_table s1 p @ [t]),
              rt_thread_ready_priority_group := rt_thread_ready_priority_group s1 OR number_mask (threads s1 t)\<rparr>)"

definition rt_schedule_remove_thread :: "nat \<Rightarrow> sched \<Rightarrow> sched" where
  "rt_schedule_remove_thread t s =
     (let s1 = tlist_remove t s in
      if rt_thread_priority_table s1 (priority s1 t) = []
      then s1\<lparr>rt_thread_ready_priority_group := rt_thread_ready_priority_group s1 AND NOT (number_mask (threads s1 t))\<rparr>
      else s1)"

definition rt_schedule :: "sched \<Rightarrow> sched option" where
  "rt_schedule s =
     (if rt_scheduler_lock_nest s \<noteq> 0 \<or> rt_thread_ready_priority_group s = 0 then Some s
      else do { (to, highest) \<leftarrow> get_highest_priority_thread s;
                cur \<leftarrow> rt_current_thread s;
                let running = (stat (threads s cur) = RT_THREAD_RUNNING);
                    stay = (running \<and> (priority s cur < highest \<or> priority s cur = highest \<and> \<not> yield_flag (threads s cur)));
                    s1 = (if running then thread_upd cur (\<lambda>th. th\<lparr>yield_flag := False\<rparr>) s else s)
                in Some (if \<not> stay \<and> to \<noteq> cur
                         then let s2 = s1\<lparr>rt_current_priority := of_nat highest, rt_current_thread := Some to\<rparr>;
                                  s3 = (if running then rt_schedule_insert_thread cur s2 else s2)
                              in set_stat RT_THREAD_RUNNING to (rt_schedule_remove_thread to s3)
                         else set_stat RT_THREAD_RUNNING cur (rt_schedule_remove_thread cur s1)) })"

definition rt_system_scheduler_start :: "sched \<Rightarrow> sched option" where
  "rt_system_scheduler_start s =
     do { (to, highest) \<leftarrow> get_highest_priority_thread s;
          let s1 = rt_schedule_remove_thread to (s\<lparr>rt_current_thread := Some to\<rparr>) in
          Some (thread_upd to (\<lambda>th. th\<lparr>stat := RT_THREAD_RUNNING, yield_flag := False\<rparr>) s1) }"

definition rt_system_scheduler_init :: "sched \<Rightarrow> sched" where
  "rt_system_scheduler_init s =
     s\<lparr>rt_scheduler_lock_nest := 0,
       rt_thread_priority_table := (\<lambda>p. if p < RT_THREAD_PRIORITY_MAX then [] else rt_thread_priority_table s p),
       rt_thread_ready_priority_group := 0\<rparr>"

definition rt_enter_critical :: "sched \<Rightarrow> sched" where
  "rt_enter_critical s = s\<lparr>rt_scheduler_lock_nest := rt_scheduler_lock_nest s + 1\<rparr>"

definition rt_exit_critical :: "sched \<Rightarrow> sched option" where
  "rt_exit_critical s =
     (let n = rt_scheduler_lock_nest s - 1 in
      if sint n \<le> 0
      then let s1 = s\<lparr>rt_scheduler_lock_nest := 0\<rparr> in (if rt_current_thread s1 \<noteq> None then rt_schedule s1 else Some s1)
      else Some (s\<lparr>rt_scheduler_lock_nest := n\<rparr>))"

definition rt_critical_level :: "sched \<Rightarrow> u16" where
  "rt_critical_level s = rt_scheduler_lock_nest s"

section \<open>Threads\<close>

definition thread_timer_stop :: "nat \<Rightarrow> sched \<Rightarrow> sched option" where
  "thread_timer_stop t s = map_option (\<lambda>(r, ts). s\<lparr>tmr := ts\<rparr>) (rt_timer_stop t (tmr s))"

text \<open>\<open>rt_timer_control\<close> with \<open>RT_TIMER_CTRL_SET_TIME\<close>, then \<open>rt_timer_start\<close>.\<close>

definition thread_timer_start :: "nat \<Rightarrow> u32 \<Rightarrow> sched \<Rightarrow> sched option" where
  "thread_timer_start t time s =
     do { (r, v, ts1) \<leftarrow> rt_timer_control t (CTRL_SET_TIME time) (tmr s);
          (r', ts2) \<leftarrow> rt_timer_start t ts1;
          Some (s\<lparr>tmr := ts2\<rparr>) }"

text \<open>\<open>timeout_func\<close> 0 stands for \<open>rt_thread_timeout\<close>.\<close>

definition rt_thread_init_fields :: "nat \<Rightarrow> u8 \<Rightarrow> u32 \<Rightarrow> sched \<Rightarrow> sched option" where
  "rt_thread_init_fields t prio tick s =
     (if \<not> unat prio < RT_THREAD_PRIORITY_MAX then None
      else Some (s\<lparr>threads := (threads s)(t := \<lparr>stat = RT_THREAD_INIT, yield_flag = False, current_priority = prio,
                    init_priority = prio, number_mask = 0, thread_init_tick = tick, thread_remaining_tick = tick, error = RT_EOK\<rparr>),
                  tmr := rt_timer_init t 0 0 0 (tmr s)\<rparr>))"

definition rt_thread_resume :: "nat \<Rightarrow> sched \<Rightarrow> (rt_err_t \<times> sched) option" where
  "rt_thread_resume t s =
     (if stat (threads s t) \<noteq> RT_THREAD_SUSPEND then Some (- RT_ERROR, s)
      else do { s1 \<leftarrow> thread_timer_stop t (tlist_remove t s);
                Some (RT_EOK, rt_schedule_insert_thread t s1) })"

definition rt_thread_suspend :: "nat \<Rightarrow> sched \<Rightarrow> (rt_err_t \<times> sched) option" where
  "rt_thread_suspend t s =
     (if stat (threads s t) \<noteq> RT_THREAD_READY \<and> stat (threads s t) \<noteq> RT_THREAD_RUNNING then Some (- RT_ERROR, s)
      else if stat (threads s t) = RT_THREAD_RUNNING \<and> rt_current_thread s \<noteq> Some t then None
      else do { s1 \<leftarrow> thread_timer_stop t (set_stat RT_THREAD_SUSPEND t (rt_schedule_remove_thread t s));
                Some (RT_EOK, s1) })"

definition rt_thread_timeout :: "nat \<Rightarrow> sched \<Rightarrow> sched option" where
  "rt_thread_timeout t s =
     (if stat (threads s t) \<noteq> RT_THREAD_SUSPEND then None
      else rt_schedule (rt_schedule_insert_thread t (tlist_remove t (thread_upd t (\<lambda>th. th\<lparr>error := - RT_ETIMEOUT\<rparr>) s))))"

definition rt_thread_startup :: "nat \<Rightarrow> sched \<Rightarrow> (rt_err_t \<times> sched) option" where
  "rt_thread_startup t s =
     (if stat (threads s t) \<noteq> RT_THREAD_INIT then None
      else let s1 = thread_upd t (\<lambda>th. th\<lparr>current_priority := init_priority th,
                      number_mask := push_bit (unat (init_priority th)) 1, stat := RT_THREAD_SUSPEND\<rparr>) s
           in do { (r, s2) \<leftarrow> rt_thread_resume t s1;
                   s3 \<leftarrow> (if rt_current_thread s2 \<noteq> None then rt_schedule s2 else Some s2);
                   Some (RT_EOK, s3) })"

definition rt_thread_yield :: "sched \<Rightarrow> sched option" where
  "rt_thread_yield s =
     do { t \<leftarrow> rt_current_thread s;
          rt_schedule (thread_upd t (\<lambda>th. th\<lparr>thread_remaining_tick := thread_init_tick th, yield_flag := True\<rparr>) s) }"

definition rt_thread_sleep :: "u32 \<Rightarrow> sched \<Rightarrow> sched option" where
  "rt_thread_sleep tick s =
     do { t \<leftarrow> rt_current_thread s;
          (r, s1) \<leftarrow> rt_thread_suspend t s;
          s2 \<leftarrow> thread_timer_start t tick s1;
          rt_schedule s2 }"

definition rt_thread_sleep_resumed :: "nat \<Rightarrow> sched \<Rightarrow> rt_err_t \<times> sched" where
  "rt_thread_sleep_resumed t s =
     (RT_EOK, if error (threads s t) = - RT_ETIMEOUT then thread_upd t (\<lambda>th. th\<lparr>error := RT_EOK\<rparr>) s else s)"

text \<open>\<open>rt_thread_control\<close> with \<open>RT_THREAD_CTRL_CHANGE_PRIORITY\<close>.\<close>

definition set_priority :: "u8 \<Rightarrow> rt_thread \<Rightarrow> rt_thread" where
  "set_priority p th = th\<lparr>current_priority := p, number_mask := push_bit (unat p) 1\<rparr>"

definition change_priority :: "nat \<Rightarrow> u8 \<Rightarrow> sched \<Rightarrow> sched" where
  "change_priority t p s =
     (if stat (threads s t) = RT_THREAD_READY
      then rt_schedule_insert_thread t (thread_upd t (set_priority p) (rt_schedule_remove_thread t s))
      else thread_upd t (set_priority p) s)"

text \<open>The time slice of the running thread at a tick.\<close>

definition tick_slice :: "sched \<Rightarrow> sched option" where
  "tick_slice s =
     do { t \<leftarrow> rt_current_thread s;
          let s1 = thread_upd t (\<lambda>th. th\<lparr>thread_remaining_tick := thread_remaining_tick th - 1\<rparr>) s in
          if thread_remaining_tick (threads s1 t) = 0
          then rt_schedule (thread_upd t (\<lambda>th. th\<lparr>thread_remaining_tick := thread_init_tick th, yield_flag := True\<rparr>) s1)
          else Some s1 }"

section \<open>Invariant\<close>

definition priority_ok :: "rt_thread \<Rightarrow> bool" where
  "priority_ok th \<longleftrightarrow> unat (current_priority th) < RT_THREAD_PRIORITY_MAX \<and> number_mask th = push_bit (unat (current_priority th)) 1"

text \<open>The queues hold exactly the ready threads by priority, the group has the bits of the queues that are
  not empty, and the waiting lists hold suspended threads, each on one list.  The threads of \<open>E\<close> are
  between two lists.\<close>

definition queues_ok :: "nat set \<Rightarrow> sched \<Rightarrow> bool" where
  "queues_ok E s \<longleftrightarrow>
     (\<forall>p t. t \<in> set (rt_thread_priority_table s p) \<longleftrightarrow> t \<notin> E \<and> stat (threads s t) = RT_THREAD_READY \<and> priority s t = p) \<and>
     (\<forall>p. distinct (rt_thread_priority_table s p)) \<and>
     (\<forall>p < RT_THREAD_PRIORITY_MAX. bit (rt_thread_ready_priority_group s) p \<longleftrightarrow> rt_thread_priority_table s p \<noteq> []) \<and>
     (\<forall>t. t \<notin> E \<and> stat (threads s t) \<notin> {RT_THREAD_INIT, RT_THREAD_CLOSE} \<longrightarrow> priority_ok (threads s t)) \<and>
     (\<forall>i t. t \<in> set (waiting s i) \<longrightarrow> t \<notin> E \<and> stat (threads s t) = RT_THREAD_SUSPEND) \<and>
     (\<forall>i. distinct (waiting s i)) \<and>
     (\<forall>i j t. t \<in> set (waiting s i) \<and> t \<in> set (waiting s j) \<longrightarrow> i = j)"

text \<open>Only the current thread runs, and it is on no queue.\<close>

definition current_ok :: "sched \<Rightarrow> bool" where
  "current_ok s \<longleftrightarrow>
     (\<forall>t. stat (threads s t) = RT_THREAD_RUNNING \<longrightarrow> rt_current_thread s = Some t) \<and>
     (\<forall>t. rt_current_thread s = Some t \<longrightarrow> stat (threads s t) \<notin> {RT_THREAD_READY, RT_THREAD_INIT})"

definition sched_wf :: "sched \<Rightarrow> bool" where
  "sched_wf s \<longleftrightarrow> queues_ok {} s \<and> current_ok s"

lemma queues_okD:
  assumes "queues_ok E s"
  shows "t \<in> set (rt_thread_priority_table s p) \<longleftrightarrow> t \<notin> E \<and> stat (threads s t) = RT_THREAD_READY \<and> priority s t = p"
    and "distinct (rt_thread_priority_table s p)"
    and "p < RT_THREAD_PRIORITY_MAX \<Longrightarrow> bit (rt_thread_ready_priority_group s) p \<longleftrightarrow> rt_thread_priority_table s p \<noteq> []"
    and "t \<notin> E \<Longrightarrow> stat (threads s t) \<notin> {RT_THREAD_INIT, RT_THREAD_CLOSE} \<Longrightarrow> priority_ok (threads s t)"
    and "t \<in> set (waiting s i) \<Longrightarrow> t \<notin> E \<and> stat (threads s t) = RT_THREAD_SUSPEND"
    and "distinct (waiting s i)"
    and "t \<in> set (waiting s i) \<Longrightarrow> t \<in> set (waiting s j) \<Longrightarrow> i = j"
  using assms unfolding queues_ok_def by blast+

lemma queues_okI:
  assumes "\<And>p t. t \<in> set (rt_thread_priority_table s p) \<longleftrightarrow> t \<notin> E \<and> stat (threads s t) = RT_THREAD_READY \<and> priority s t = p"
    and "\<And>p. distinct (rt_thread_priority_table s p)"
    and "\<And>p. p < RT_THREAD_PRIORITY_MAX \<Longrightarrow> bit (rt_thread_ready_priority_group s) p \<longleftrightarrow> rt_thread_priority_table s p \<noteq> []"
    and "\<And>t. t \<notin> E \<Longrightarrow> stat (threads s t) \<notin> {RT_THREAD_INIT, RT_THREAD_CLOSE} \<Longrightarrow> priority_ok (threads s t)"
    and "\<And>i t. t \<in> set (waiting s i) \<Longrightarrow> t \<notin> E \<and> stat (threads s t) = RT_THREAD_SUSPEND"
    and "\<And>i. distinct (waiting s i)"
    and "\<And>i j t. t \<in> set (waiting s i) \<Longrightarrow> t \<in> set (waiting s j) \<Longrightarrow> i = j"
  shows "queues_ok E s"
  unfolding queues_ok_def using assms by blast

lemma mask_bits:
  assumes "p < 32" "q < 32"
  shows "bit (g OR push_bit p 1 :: u32) q \<longleftrightarrow> bit g q \<or> p = q" "bit (g AND NOT (push_bit p 1) :: u32) q \<longleftrightarrow> bit g q \<and> p \<noteq> q"
  using assms by (auto simp: bit_or_iff bit_and_iff bit_not_iff bit_exp_iff)

lemma thread_upd_simps [simp]:
  "threads (thread_upd t f s) = (threads s)(t := f (threads s t))"
  "rt_thread_priority_table (thread_upd t f s) = rt_thread_priority_table s"
  "rt_thread_ready_priority_group (thread_upd t f s) = rt_thread_ready_priority_group s"
  "rt_current_thread (thread_upd t f s) = rt_current_thread s" "rt_current_priority (thread_upd t f s) = rt_current_priority s"
  "rt_scheduler_lock_nest (thread_upd t f s) = rt_scheduler_lock_nest s" "waiting (thread_upd t f s) = waiting s"
  "tmr (thread_upd t f s) = tmr s"
  by (simp_all add: thread_upd_def)

text \<open>A thread between two lists may change freely; a thread on no list may be taken as being between two.\<close>

lemma queues_upd: "queues_ok {t} s \<Longrightarrow> queues_ok {t} (thread_upd t f s)"
  by (rule queues_okI) (auto simp: queues_okD dest: queues_okD(5,7))

lemma queues_off:
  assumes "queues_ok {} s" "stat (threads s t) \<notin> {RT_THREAD_READY, RT_THREAD_SUSPEND}"
  shows "queues_ok {t} s"
  using assms by (intro queues_okI) (auto simp: queues_okD dest: queues_okD(5,7))

lemma queues_on:
  assumes "queues_ok {t} s" "stat (threads s t) \<noteq> RT_THREAD_READY" "stat (threads s t) \<notin> {RT_THREAD_INIT, RT_THREAD_CLOSE} \<Longrightarrow> priority_ok (threads s t)"
  shows "queues_ok {} s"
  using assms(1,2)
proof (intro queues_okI)
  show "priority_ok (threads s u)" if "stat (threads s u) \<notin> {RT_THREAD_INIT, RT_THREAD_CLOSE}" for u
    using that assms(3) queues_okD(4) [OF assms(1), of u] by (cases "u = t") simp_all
qed (auto simp: queues_okD dest: queues_okD(5,7))

lemma tlist_remove_simps [simp]:
  "threads (tlist_remove t s) = threads s" "rt_thread_priority_table (tlist_remove t s) p = removeAll t (rt_thread_priority_table s p)"
  "rt_thread_ready_priority_group (tlist_remove t s) = rt_thread_ready_priority_group s"
  "rt_current_thread (tlist_remove t s) = rt_current_thread s" "rt_current_priority (tlist_remove t s) = rt_current_priority s"
  "rt_scheduler_lock_nest (tlist_remove t s) = rt_scheduler_lock_nest s" "waiting (tlist_remove t s) i = removeAll t (waiting s i)"
  "tmr (tlist_remove t s) = tmr s"
  by (simp_all add: tlist_remove_def)

text \<open>Taking a suspended thread off its waiting list, and a ready or running one off its queue.\<close>

lemma tlist_remove_queues:
  assumes "queues_ok {} s" "stat (threads s t) \<noteq> RT_THREAD_READY"
  shows "queues_ok {t} (tlist_remove t s)"
proof -
  have "t \<notin> set (rt_thread_priority_table s p)" for p
    using assms queues_okD(1) [OF assms(1)] by simp
  then have "removeAll t (rt_thread_priority_table s p) = rt_thread_priority_table s p" for p
    by (rule removeAll_id)
  then show ?thesis
    using assms by (intro queues_okI) (auto simp: queues_okD distinct_removeAll dest: queues_okD(5,7))
qed

lemma remove_thread_simps [simp]:
  "threads (rt_schedule_remove_thread t s) = threads s" "rt_current_thread (rt_schedule_remove_thread t s) = rt_current_thread s"
  "rt_thread_priority_table (rt_schedule_remove_thread t s) p = removeAll t (rt_thread_priority_table s p)"
  "waiting (rt_schedule_remove_thread t s) i = removeAll t (waiting s i)"
  "rt_scheduler_lock_nest (rt_schedule_remove_thread t s) = rt_scheduler_lock_nest s"
  "tmr (rt_schedule_remove_thread t s) = tmr s"
  by (simp_all add: rt_schedule_remove_thread_def Let_def)

lemma remove_thread_queues:
  assumes "queues_ok {} s" "stat (threads s t) \<in> {RT_THREAD_READY, RT_THREAD_RUNNING}"
  shows "queues_ok {t} (rt_schedule_remove_thread t s)"
proof -
  have ok: "priority_ok (threads s t)"
    using assms by (intro queues_okD(4) [OF assms(1)]) auto
  then have mask: "number_mask (threads s t) = push_bit (priority s t) 1" "priority s t < 32"
    by (simp_all add: priority_ok_def)
  have other: "removeAll t (rt_thread_priority_table s p) = rt_thread_priority_table s p" if "p \<noteq> priority s t" for p
    using that queues_okD(1) [OF assms(1), of t p] by (intro removeAll_id) auto
  have "bit (rt_thread_ready_priority_group (rt_schedule_remove_thread t s)) p \<longleftrightarrow> removeAll t (rt_thread_priority_table s p) \<noteq> []"
    if "p < 32" for p
  proof (cases "p = priority s t")
    case True
    then show ?thesis
      using queues_okD(3) [OF assms(1) that] mask that
      by (auto simp: rt_schedule_remove_thread_def Let_def mask_bits simp del: push_bit_of_1 split: if_splits)
  next
    case False
    then show ?thesis
      using queues_okD(3) [OF assms(1) that] mask that
      by (auto simp: rt_schedule_remove_thread_def Let_def mask_bits other simp del: push_bit_of_1)
  qed
  then show ?thesis
    using assms(1) by (intro queues_okI) (auto simp: queues_okD distinct_removeAll dest: queues_okD(5,7))
qed

lemma insert_thread_queues:
  assumes "queues_ok {t} s" "priority_ok (threads s t)"
  shows "queues_ok {} (rt_schedule_insert_thread t s)"
proof (cases "rt_current_thread s = Some t")
  case True
  then show ?thesis
    using queues_on [OF queues_upd [OF assms(1)]] assms(2) by (simp add: rt_schedule_insert_thread_def priority_ok_def)
next
  case False
  have p: "priority s t < 32" "number_mask (threads s t) = push_bit (priority s t) 1"
    using assms(2) by (simp_all add: priority_ok_def)
  show ?thesis
    using assms(1) False
  proof (intro queues_okI)
    show "bit (rt_thread_ready_priority_group (rt_schedule_insert_thread t s)) q \<longleftrightarrow>
        rt_thread_priority_table (rt_schedule_insert_thread t s) q \<noteq> []" if "q < 32" for q
      using False queues_okD(3) [OF assms(1) that] p that
      by (auto simp: rt_schedule_insert_thread_def Let_def mask_bits simp del: push_bit_of_1)
    show "priority_ok (threads (rt_schedule_insert_thread t s) u)"
      if "stat (threads (rt_schedule_insert_thread t s) u) \<notin> {RT_THREAD_INIT, RT_THREAD_CLOSE}" for u
      using that False assms(2) queues_okD(4) [OF assms(1), of u]
      by (auto simp: rt_schedule_insert_thread_def Let_def priority_ok_def split: if_splits)
  qed (auto simp: rt_schedule_insert_thread_def Let_def queues_okD dest: queues_okD(5,7))
qed

lemma insert_thread_simps [simp]:
  "rt_current_thread (rt_schedule_insert_thread t s) = rt_current_thread s"
  "rt_scheduler_lock_nest (rt_schedule_insert_thread t s) = rt_scheduler_lock_nest s"
  "waiting (rt_schedule_insert_thread t s) = waiting s" "tmr (rt_schedule_insert_thread t s) = tmr s"
  "threads (rt_schedule_insert_thread t s) = (threads s)(t := (threads s t)\<lparr>stat := if rt_current_thread s = Some t then RT_THREAD_RUNNING else RT_THREAD_READY\<rparr>)"
  by (simp_all add: rt_schedule_insert_thread_def Let_def)

section \<open>The choice of the running thread\<close>

lemma find_upt: "List.find P [0..<b] = Some i \<longleftrightarrow> i < b \<and> P i \<and> (\<forall>j<i. \<not> P j)"
  by (auto simp: find_Some_iff)

lemma rt_ffs_lowest:
  assumes "v \<noteq> 0"
  obtains i where "rt_ffs v = i + 1" "i < 32" "bit v i" "\<And>j. j < i \<Longrightarrow> \<not> bit v j"
proof -
  have "v = 0" if "\<And>k. k < 32 \<Longrightarrow> \<not> bit v k"
    by (rule bit_word_eqI) (use that in simp)
  then obtain k where "bit v k" "k < 32"
    using assms by blast
  then have "List.find (bit v) [0..<32] \<noteq> None"
    by (auto simp: find_None_iff)
  then obtain i where f: "List.find (bit v) [0..<32] = Some i" by blast
  show ?thesis
    using that [of i] f by (simp add: rt_ffs_def find_upt)
qed

lemma highest_thread:
  assumes "queues_ok {} s" "rt_thread_ready_priority_group s \<noteq> 0"
  obtains t where "get_highest_priority_thread s = Some (t, priority s t)" "stat (threads s t) = RT_THREAD_READY"
    "hd (rt_thread_priority_table s (priority s t)) = t"
    "\<And>u. stat (threads s u) = RT_THREAD_READY \<Longrightarrow> priority s t \<le> priority s u"
proof -
  obtain i where i: "rt_ffs (rt_thread_ready_priority_group s) = i + 1" "i < 32" "bit (rt_thread_ready_priority_group s) i"
    "\<And>j. j < i \<Longrightarrow> \<not> bit (rt_thread_ready_priority_group s) j"
    using rt_ffs_lowest [OF assms(2)] by blast
  then obtain t ts where t: "rt_thread_priority_table s i = t # ts"
    using queues_okD(3) [OF assms(1) i(2)] by (cases "rt_thread_priority_table s i") auto
  then have r: "stat (threads s t) = RT_THREAD_READY" "priority s t = i"
    using queues_okD(1) [OF assms(1), of t i] by auto
  have "i \<le> priority s u" if "stat (threads s u) = RT_THREAD_READY" for u
  proof (rule ccontr)
    assume "\<not> i \<le> priority s u"
    then have u: "priority s u < i" by simp
    then have "\<not> bit (rt_thread_ready_priority_group s) (priority s u)"
      by (rule i(4))
    moreover have "u \<in> set (rt_thread_priority_table s (priority s u))"
      using that queues_okD(1) [OF assms(1)] by simp
    ultimately show False
      using queues_okD(3) [OF assms(1), of "priority s u"] u i(2) by auto
  qed
  then show ?thesis
    using that [of t] r t i(1) by (simp add: get_highest_priority_thread_def)
qed

lemma no_ready:
  assumes "queues_ok {} s" "rt_thread_ready_priority_group s = 0"
  shows "stat (threads s t) \<noteq> RT_THREAD_READY"
proof
  assume r: "stat (threads s t) = RT_THREAD_READY"
  then have "t \<in> set (rt_thread_priority_table s (priority s t))" "priority s t < 32"
    using queues_okD(1,4) [OF assms(1), of t] by (auto simp: priority_ok_def)
  then show False
    using queues_okD(3) [OF assms(1), of "priority s t"] assms(2) by auto
qed

lemma current_okI:
  "rt_current_thread s = Some c \<Longrightarrow> stat (threads s c) \<notin> {RT_THREAD_READY, RT_THREAD_INIT} \<Longrightarrow>
    (\<And>t. t \<noteq> c \<Longrightarrow> stat (threads s t) \<noteq> RT_THREAD_RUNNING) \<Longrightarrow> current_ok s"
  unfolding current_ok_def by (metis option.inject)

lemma current_okD:
  "current_ok s \<Longrightarrow> rt_current_thread s = Some c \<Longrightarrow> t \<noteq> c \<Longrightarrow> stat (threads s t) \<noteq> RT_THREAD_RUNNING"
  "current_ok s \<Longrightarrow> rt_current_thread s = Some c \<Longrightarrow> stat (threads s c) \<notin> {RT_THREAD_READY, RT_THREAD_INIT}"
  unfolding current_ok_def by auto

text \<open>What \<open>rt_schedule\<close> leaves alone.\<close>

definition switches :: "sched \<Rightarrow> sched \<Rightarrow> bool" where
  "switches s s' \<longleftrightarrow> tmr s' = tmr s \<and> rt_scheduler_lock_nest s' = rt_scheduler_lock_nest s \<and>
     (\<forall>t. current_priority (threads s' t) = current_priority (threads s t) \<and> error (threads s' t) = error (threads s t)) \<and>
     (\<forall>t. stat (threads s' t) \<in> {RT_THREAD_READY, RT_THREAD_RUNNING} \<longleftrightarrow> stat (threads s t) \<in> {RT_THREAD_READY, RT_THREAD_RUNNING})"

lemma schedule_stay:
  assumes "sched_wf s" "rt_current_thread s = Some c" "stat (threads s c) = RT_THREAD_RUNNING"
    and "s1 = thread_upd c (\<lambda>th. th\<lparr>yield_flag := False\<rparr>) s"
    and "s' = set_stat RT_THREAD_RUNNING c (rt_schedule_remove_thread c s1)"
  shows "sched_wf s'" "rt_current_thread s' = Some c" "switches s s'" "waiting s' = waiting s"
proof -
  have q: "queues_ok {} s" and cur: "current_ok s"
    using assms(1) by (simp_all add: sched_wf_def)
  have ok: "priority_ok (threads s c)"
    using assms(3) by (intro queues_okD(4) [OF q]) simp_all
  have "queues_ok {} s1"
    unfolding assms(4) by (rule queues_on [OF queues_upd [OF queues_off [OF q]]]) (use assms(3) ok in \<open>simp_all add: priority_ok_def\<close>)
  then have "queues_ok {c} (rt_schedule_remove_thread c s1)"
    by (rule remove_thread_queues) (simp add: assms(3,4))
  then have "queues_ok {} s'"
    unfolding assms(5) by (intro queues_on [OF queues_upd]) (use ok in \<open>simp_all add: assms(4) priority_ok_def\<close>)
  moreover have "current_ok s'"
    by (rule current_okI [of _ c]) (use assms(2) current_okD(1) [OF cur assms(2)] in \<open>simp_all add: assms(4,5)\<close>)
  ultimately show "sched_wf s'"
    by (simp add: sched_wf_def)
  have "c \<notin> set (waiting s i)" for i
    using queues_okD(5) [OF q, of c i] assms(3) by auto
  then have "removeAll c (waiting s i) = waiting s i" for i
    by (rule removeAll_id)
  then show "waiting s' = waiting s"
    by (simp add: fun_eq_iff assms(4,5))
  show "rt_current_thread s' = Some c" "switches s s'"
    using assms(2,3) by (simp_all add: assms(4,5) switches_def)
qed

lemma schedule_switch:
  assumes "sched_wf s" "rt_current_thread s = Some c" "to \<noteq> c" "stat (threads s to) = RT_THREAD_READY"
    and "s1 = (if stat (threads s c) = RT_THREAD_RUNNING then thread_upd c (\<lambda>th. th\<lparr>yield_flag := False\<rparr>) s else s)"
    and "s2 = s1\<lparr>rt_current_priority := p, rt_current_thread := Some to\<rparr>"
    and "s3 = (if stat (threads s c) = RT_THREAD_RUNNING then rt_schedule_insert_thread c s2 else s2)"
    and "s' = set_stat RT_THREAD_RUNNING to (rt_schedule_remove_thread to s3)"
  shows "sched_wf s'" "rt_current_thread s' = Some to" "switches s s'" "waiting s' = waiting s"
proof -
  have q: "queues_ok {} s" and cur: "current_ok s"
    using assms(1) by (simp_all add: sched_wf_def)
  have ok: "priority_ok (threads s to)"
    using assms(4) by (intro queues_okD(4) [OF q]) simp_all
  have q3: "queues_ok {} s3"
  proof (cases "stat (threads s c) = RT_THREAD_RUNNING")
    case True
    have okc: "priority_ok (threads s c)"
      using True by (intro queues_okD(4) [OF q]) simp_all
    have "queues_ok {c} s1"
      using queues_upd [OF queues_off [OF q]] True by (simp add: assms(5))
    then have "queues_ok {c} s2"
      by (simp add: assms(6) queues_ok_def)
    moreover have "priority_ok (threads s2 c)"
      using okc True by (simp add: assms(5,6) priority_ok_def)
    ultimately show ?thesis
      using insert_thread_queues True by (simp add: assms(7))
  next
    case False
    then show ?thesis
      using q by (simp add: assms(5-7) queues_ok_def)
  qed
  have to3: "threads s3 to = threads s to" "rt_current_thread s3 = Some to"
    using assms(3) by (simp_all add: assms(5-7))
  have c3: "stat (threads s3 c) \<noteq> RT_THREAD_RUNNING" "\<And>t. t \<noteq> c \<Longrightarrow> threads s3 t = threads s t" "waiting s3 = waiting s"
    using assms(3) by (auto simp: assms(5-7))
  have "queues_ok {to} (rt_schedule_remove_thread to s3)"
    by (rule remove_thread_queues [OF q3]) (simp add: to3 assms(4))
  then have "queues_ok {} s'"
    unfolding assms(8) by (intro queues_on [OF queues_upd]) (use ok to3 in \<open>simp_all add: priority_ok_def\<close>)
  moreover have "current_ok s'"
  proof (rule current_okI [of _ to])
    fix t assume "t \<noteq> to"
    then show "stat (threads s' t) \<noteq> RT_THREAD_RUNNING"
      using c3(1,2) current_okD(1) [OF cur assms(2), of t] by (cases "t = c") (simp_all add: assms(8))
  qed (simp_all add: assms(8) to3)
  ultimately show "sched_wf s'"
    by (simp add: sched_wf_def)
  have "to \<notin> set (waiting s i)" for i
    using queues_okD(5) [OF q, of to i] assms(4) by auto
  then have "removeAll to (waiting s i) = waiting s i" for i
    by (rule removeAll_id)
  then show "waiting s' = waiting s"
    by (simp add: fun_eq_iff assms(8) c3(3))
  show "rt_current_thread s' = Some to" "switches s s'"
    using assms(3,4) to3 c3 by (auto simp: assms(5-8) switches_def)
qed

text \<open>A thread that may keep the processor does so unless a ready one has a higher priority, or the same
  when it has yielded.\<close>

definition best :: "sched \<Rightarrow> nat \<Rightarrow> bool" where
  "best s c \<longleftrightarrow> stat (threads s c) = RT_THREAD_RUNNING \<and> rt_current_thread s = Some c \<and>
     (\<forall>u. stat (threads s u) = RT_THREAD_READY \<longrightarrow> priority s c \<le> priority s u)"

lemma best_after:
  assumes "switches s s'" "current_ok s" "rt_current_thread s = Some c" "stat (threads s' t) = RT_THREAD_RUNNING" "rt_current_thread s' = Some t"
    and "\<And>u. stat (threads s u) = RT_THREAD_READY \<Longrightarrow> priority s t \<le> priority s u"
    and "t \<noteq> c \<Longrightarrow> stat (threads s c) = RT_THREAD_RUNNING \<Longrightarrow> priority s t \<le> priority s c"
  shows "best s' t"
proof -
  have "priority s' t \<le> priority s' u" if u: "stat (threads s' u) = RT_THREAD_READY" for u
  proof -
    have "u \<noteq> t" "stat (threads s u) = RT_THREAD_READY \<or> u = c \<and> stat (threads s c) = RT_THREAD_RUNNING"
      using u assms(1,4) current_okD(1) [OF assms(2,3), of u] by (cases "u = c"; auto simp: switches_def)+
    then have "priority s t \<le> priority s u"
      using assms(6) [of u] assms(7) by blast
    then show ?thesis using assms(1) by (simp add: switches_def)
  qed
  then show ?thesis
    using assms(4,5) by (simp add: best_def)
qed

lemma schedule_best:
  assumes "sched_wf s" "rt_scheduler_lock_nest s = 0" "rt_current_thread s = Some c"
    and "stat (threads s c) = RT_THREAD_RUNNING \<or> rt_thread_ready_priority_group s \<noteq> 0"
  shows "\<exists>s' t. rt_schedule s = Some s' \<and> sched_wf s' \<and> switches s s' \<and> waiting s' = waiting s \<and> best s' t \<and>
    (t = c \<or> t = hd (rt_thread_priority_table s (priority s t)) \<and> (stat (threads s c) = RT_THREAD_RUNNING \<longrightarrow>
       priority s t < priority s c \<or> priority s t = priority s c \<and> yield_flag (threads s c)))"
proof (cases "rt_thread_ready_priority_group s = 0")
  case True
  have q: "queues_ok {} s"
    using assms(1) by (simp add: sched_wf_def)
  have "rt_schedule s = Some s" "best s c" "switches s s"
    using True assms no_ready [OF q True] by (simp_all add: rt_schedule_def best_def switches_def)
  then show ?thesis
    using assms(1) by blast
next
  case False
  have q: "queues_ok {} s" and cur: "current_ok s"
    using assms(1) by (simp_all add: sched_wf_def)
  obtain t where t: "get_highest_priority_thread s = Some (t, priority s t)" "stat (threads s t) = RT_THREAD_READY"
    "hd (rt_thread_priority_table s (priority s t)) = t" "\<And>u. stat (threads s u) = RT_THREAD_READY \<Longrightarrow> priority s t \<le> priority s u"
    using highest_thread [OF q False] by blast
  have tc: "t \<noteq> c"
    using t(2) current_okD(2) [OF cur assms(3)] by auto
  let ?run = "stat (threads s c) = RT_THREAD_RUNNING"
  let ?stay = "?run \<and> (priority s c < priority s t \<or> priority s c = priority s t \<and> \<not> yield_flag (threads s c))"
  show ?thesis
  proof (cases ?stay)
    case True
    define s' where "s' = set_stat RT_THREAD_RUNNING c (rt_schedule_remove_thread c (thread_upd c (\<lambda>th. th\<lparr>yield_flag := False\<rparr>) s))"
    note law = schedule_stay [OF assms(1,3) conjunct1 [OF True] refl s'_def]
    have "rt_schedule s = Some s'"
      using True False t(1) assms(2,3) by (auto simp: rt_schedule_def s'_def Let_def)
    moreover have "best s' c"
      by (rule best_after [OF law(3) cur assms(3) _ law(2)]) (use True in \<open>auto simp: s'_def dest: t(4)\<close>)
    ultimately show ?thesis
      using law by blast
  next
    case nostay: False
    define s1 where "s1 = (if ?run then thread_upd c (\<lambda>th. th\<lparr>yield_flag := False\<rparr>) s else s)"
    define s2 where "s2 = s1\<lparr>rt_current_priority := of_nat (priority s t), rt_current_thread := Some t\<rparr>"
    define s3 where "s3 = (if ?run then rt_schedule_insert_thread c s2 else s2)"
    define s' where "s' = set_stat RT_THREAD_RUNNING t (rt_schedule_remove_thread t s3)"
    note law = schedule_switch [OF assms(1,3) tc t(2) s1_def s2_def s3_def s'_def]
    have "rt_schedule s = Some s'"
      using nostay False t(1) assms(2,3) tc unfolding rt_schedule_def s'_def s3_def s2_def s1_def Let_def by simp
    moreover have "best s' t"
      by (rule best_after [OF law(3) cur assms(3) _ law(2) t(4)]) (use nostay in \<open>auto simp: s'_def\<close>)
    ultimately show ?thesis
      using law t(3) nostay by (intro exI [of _ s'] exI [of _ t]) auto
  qed
qed

lemma schedule_law:
  assumes "sched_wf s" "rt_schedule s = Some s'"
  shows "sched_wf s' \<and> switches s s' \<and> waiting s' = waiting s"
proof (cases "rt_scheduler_lock_nest s \<noteq> 0 \<or> rt_thread_ready_priority_group s = 0")
  case True
  then have "s' = s"
    using assms(2) by (auto simp: rt_schedule_def)
  then show ?thesis
    using assms(1) by (simp add: switches_def)
next
  case False
  then obtain c where "rt_current_thread s = Some c"
    using assms(2) by (cases "rt_current_thread s") (auto simp: rt_schedule_def split: Option.bind_splits)
  then show ?thesis
    using schedule_best [OF assms(1), of c] False assms(2) by auto
qed

section \<open>Every operation keeps the invariant\<close>

lemma timer_stop_simps:
  "thread_timer_stop t s = Some s' \<Longrightarrow> \<exists>ts. s' = s\<lparr>tmr := ts\<rparr>" "thread_timer_start t time s = Some s' \<Longrightarrow> \<exists>ts. s' = s\<lparr>tmr := ts\<rparr>"
  by (auto simp: thread_timer_stop_def thread_timer_start_def split: Option.bind_splits)

lemma wf_tmr [simp]: "sched_wf (s\<lparr>tmr := ts\<rparr>) = sched_wf s" "queues_ok E (s\<lparr>tmr := ts\<rparr>) = queues_ok E s" "current_ok (s\<lparr>tmr := ts\<rparr>) = current_ok s"
  by (simp_all add: sched_wf_def queues_ok_def current_ok_def)

text \<open>A suspended thread that becomes ready.\<close>

lemma wake_wf:
  assumes "queues_ok {t} s" "priority_ok (threads s t)" "current_ok s" "stat (threads s t) = RT_THREAD_SUSPEND"
  shows "sched_wf (rt_schedule_insert_thread t s)"
  using assms insert_thread_queues [OF assms(1,2)] by (auto simp: sched_wf_def current_ok_def)

lemma resume_wf:
  assumes "sched_wf s" "rt_thread_resume t s = Some (r, s')"
  shows "sched_wf s'"
proof (cases "stat (threads s t) = RT_THREAD_SUSPEND")
  case True
  have q: "queues_ok {} s" and cur: "current_ok s"
    using assms(1) by (simp_all add: sched_wf_def)
  obtain ts where s': "s' = rt_schedule_insert_thread t ((tlist_remove t s)\<lparr>tmr := ts\<rparr>)"
    using assms(2) True by (auto simp: rt_thread_resume_def split: Option.bind_splits dest!: timer_stop_simps)
  have "priority_ok (threads s t)"
    using queues_okD(4) [OF q, of t] True by simp
  then show ?thesis
    unfolding s' using tlist_remove_queues [OF q, of t] True cur by (intro wake_wf) (simp_all add: current_ok_def)
next
  case False
  then show ?thesis
    using assms by (simp add: rt_thread_resume_def)
qed

lemma suspend_wf:
  assumes "sched_wf s" "rt_thread_suspend t s = Some (r, s')"
  shows "sched_wf s'"
proof (cases "stat (threads s t) \<in> {RT_THREAD_READY, RT_THREAD_RUNNING}")
  case True
  have q: "queues_ok {} s" and cur: "current_ok s"
    using assms(1) by (simp_all add: sched_wf_def)
  obtain ts where s': "s' = (set_stat RT_THREAD_SUSPEND t (rt_schedule_remove_thread t s))\<lparr>tmr := ts\<rparr>"
    using assms(2) True by (auto simp: rt_thread_suspend_def split: if_splits Option.bind_splits dest!: timer_stop_simps)
  have ok: "priority_ok (threads s t)"
    using queues_okD(4) [OF q, of t] True by auto
  have "queues_ok {} (set_stat RT_THREAD_SUSPEND t (rt_schedule_remove_thread t s))"
    by (rule queues_on [OF queues_upd [OF remove_thread_queues [OF q True]]]) (use ok in \<open>simp_all add: priority_ok_def\<close>)
  then show ?thesis
    unfolding s' using cur by (auto simp: sched_wf_def current_ok_def)
next
  case False
  then show ?thesis
    using assms by (auto simp: rt_thread_suspend_def)
qed

text \<open>Fields of a thread that the queues do not look at.\<close>

lemma wf_other_fields:
  assumes "sched_wf s" "\<And>th. stat (f th) = stat th" "\<And>th. current_priority (f th) = current_priority th" "\<And>th. number_mask (f th) = number_mask th"
  shows "sched_wf (thread_upd t f s)"
  using assms(1) unfolding sched_wf_def queues_ok_def current_ok_def priority_ok_def by (simp add: assms(2-4))

lemma change_priority_wf:
  assumes "sched_wf s" "unat p < RT_THREAD_PRIORITY_MAX"
  shows "sched_wf (change_priority t p s)"
proof -
  have q: "queues_ok {} s" and cur: "current_ok s"
    using assms(1) by (simp_all add: sched_wf_def)
  show ?thesis
  proof (cases "stat (threads s t) = RT_THREAD_READY")
    case True
    then have "rt_current_thread s \<noteq> Some t"
      using cur by (auto simp: current_ok_def)
    moreover have "queues_ok {t} (thread_upd t (set_priority p) (rt_schedule_remove_thread t s))"
      using True by (intro queues_upd remove_thread_queues [OF q]) simp
    then have "queues_ok {} (change_priority t p s)"
      using insert_thread_queues assms(2) True by (simp add: change_priority_def priority_ok_def set_priority_def)
    ultimately show ?thesis
      using cur True by (auto simp: sched_wf_def change_priority_def current_ok_def set_priority_def)
  next
    case False
    have "queues_ok {} (thread_upd t (set_priority p) s)"
    proof (rule queues_okI)
      show "priority_ok (threads (thread_upd t (set_priority p) s) u)"
        if "stat (threads (thread_upd t (set_priority p) s) u) \<notin> {RT_THREAD_INIT, RT_THREAD_CLOSE}" for u
        using that assms(2) queues_okD(4) [OF q, of u] by (auto simp: priority_ok_def set_priority_def split: if_splits)
    qed (use q False in \<open>auto simp: queues_okD set_priority_def dest: queues_okD(5,7)\<close>)
    then show ?thesis
      using cur False by (auto simp: sched_wf_def change_priority_def current_ok_def set_priority_def)
  qed
qed

lemma timeout_wake_wf:
  assumes "sched_wf s" "stat (threads s t) = RT_THREAD_SUSPEND"
  shows "sched_wf (rt_schedule_insert_thread t (tlist_remove t (thread_upd t (\<lambda>th. th\<lparr>error := e\<rparr>) s)))"
proof -
  let ?s = "thread_upd t (\<lambda>th. th\<lparr>error := e\<rparr>) s"
  have "sched_wf ?s"
    using assms(1) by (rule wf_other_fields) simp_all
  then have q: "queues_ok {} ?s" and cur: "current_ok ?s"
    by (simp_all add: sched_wf_def)
  have "priority_ok (threads ?s t)"
    using queues_okD(4) [OF q, of t] assms(2) by simp
  then show ?thesis
    using tlist_remove_queues [OF q, of t] cur assms(2) by (intro wake_wf) (simp_all add: current_ok_def)
qed

lemma startup_resume_wf:
  assumes "sched_wf s" "stat (threads s t) = RT_THREAD_INIT" "unat (init_priority (threads s t)) < RT_THREAD_PRIORITY_MAX"
  shows "sched_wf (thread_upd t (\<lambda>th. th\<lparr>current_priority := init_priority th, number_mask := push_bit (unat (init_priority th)) 1, stat := RT_THREAD_SUSPEND\<rparr>) s)"
    (is "sched_wf (thread_upd t ?f s)")
proof -
  have q: "queues_ok {} s" and cur: "current_ok s"
    using assms(1) by (simp_all add: sched_wf_def)
  have "queues_ok {} (thread_upd t ?f s)"
    by (rule queues_on [OF queues_upd [OF queues_off [OF q]]]) (use assms(2,3) in \<open>simp_all add: priority_ok_def\<close>)
  then show ?thesis
    using cur by (auto simp: sched_wf_def current_ok_def)
qed

lemma startup_wf:
  assumes "sched_wf s" "unat (init_priority (threads s t)) < RT_THREAD_PRIORITY_MAX" "rt_thread_startup t s = Some (r, s')"
  shows "sched_wf s'"
proof -
  have i: "stat (threads s t) = RT_THREAD_INIT"
    using assms(3) unfolding rt_thread_startup_def by (metis option.distinct(1))
  define s1 where "s1 = thread_upd t (\<lambda>th. th\<lparr>current_priority := init_priority th, number_mask := push_bit (unat (init_priority th)) 1, stat := RT_THREAD_SUSPEND\<rparr>) s"
  have w1: "sched_wf s1"
    unfolding s1_def by (rule startup_resume_wf [OF assms(1) i assms(2)])
  obtain r2 s2 where s2: "rt_thread_resume t s1 = Some (r2, s2)" and "(if rt_current_thread s2 \<noteq> None then rt_schedule s2 else Some s2) = Some s'"
    using assms(3) i unfolding rt_thread_startup_def s1_def [symmetric] Let_def
    by (simp split: Option.bind_splits prod.splits)
  then show ?thesis
    using schedule_law [OF resume_wf [OF w1 s2]] resume_wf [OF w1 s2] by (auto split: if_splits)
qed

lemma timeout_wf:
  assumes "sched_wf s" "rt_thread_timeout t s = Some s'"
  shows "sched_wf s'"
  using assms timeout_wake_wf [OF assms(1)] schedule_law by (auto simp: rt_thread_timeout_def split: if_splits)

lemma yield_mark_wf: "sched_wf s \<Longrightarrow> sched_wf (thread_upd t (\<lambda>th. th\<lparr>thread_remaining_tick := thread_init_tick th, yield_flag := True\<rparr>) s)"
  by (rule wf_other_fields) simp_all

lemma yield_wf:
  assumes "sched_wf s" "rt_thread_yield s = Some s'"
  shows "sched_wf s'"
proof -
  obtain t where "rt_schedule (thread_upd t (\<lambda>th. th\<lparr>thread_remaining_tick := thread_init_tick th, yield_flag := True\<rparr>) s) = Some s'"
    using assms(2) by (auto simp: rt_thread_yield_def split: Option.bind_splits)
  then show ?thesis
    using schedule_law [OF yield_mark_wf [OF assms(1)]] by blast
qed

lemma sleep_wf:
  assumes "sched_wf s" "rt_thread_sleep tick s = Some s'"
  shows "sched_wf s'"
proof -
  obtain t r s1 s2 where "rt_thread_suspend t s = Some (r, s1)" "thread_timer_start t tick s1 = Some s2" and sch: "rt_schedule s2 = Some s'"
    using assms(2) by (auto simp: rt_thread_sleep_def split: Option.bind_splits)
  then obtain ts where "sched_wf s1" "s2 = s1\<lparr>tmr := ts\<rparr>"
    using suspend_wf [OF assms(1)] timer_stop_simps(2) by blast
  then show ?thesis
    using schedule_law [OF _ sch] by simp
qed

lemma slice_wf:
  assumes "sched_wf s" "tick_slice s = Some s'"
  shows "sched_wf s'"
proof -
  obtain t where t: "rt_current_thread s = Some t"
    using assms(2) by (auto simp: tick_slice_def split: Option.bind_splits)
  define s1 where "s1 = thread_upd t (\<lambda>th. th\<lparr>thread_remaining_tick := thread_remaining_tick th - 1\<rparr>) s"
  define s2 where "s2 = thread_upd t (\<lambda>th. th\<lparr>thread_remaining_tick := thread_init_tick th, yield_flag := True\<rparr>) s1"
  have w: "sched_wf s1"
    unfolding s1_def using assms(1) by (rule wf_other_fields) simp_all
  then have "sched_wf s2"
    unfolding s2_def by (rule yield_mark_wf)
  moreover have "(if thread_remaining_tick (threads s1 t) = 0 then rt_schedule s2 else Some s1) = Some s'"
    using assms(2) t unfolding s2_def s1_def by (simp only: tick_slice_def bind.simps Let_def)
  ultimately show ?thesis
    using w schedule_law [of s2 s'] by (cases "thread_remaining_tick (threads s1 t) = 0") simp_all
qed

lemma lock_wf: "sched_wf (s\<lparr>rt_scheduler_lock_nest := n\<rparr>) = sched_wf s"
  by (simp add: sched_wf_def queues_ok_def current_ok_def)

lemma critical_wf:
  "sched_wf s \<Longrightarrow> sched_wf (rt_enter_critical s)" "sched_wf s \<Longrightarrow> rt_exit_critical s = Some s' \<Longrightarrow> sched_wf s'"
  using schedule_law [of "s\<lparr>rt_scheduler_lock_nest := 0\<rparr>"]
  by (auto simp: rt_enter_critical_def rt_exit_critical_def lock_wf Let_def split: if_splits)

datatype kernel_op = Init nat u8 u32 | Startup nat | Resume nat | Suspend_Thread nat | Timeout nat | Yield | Sleep_For u32
  | Priority nat u8 | Slice | Enter | Exit | Schedule

fun kernel_step :: "kernel_op \<Rightarrow> sched \<Rightarrow> sched option" where
  "kernel_step (Init t p tick) s = rt_thread_init_fields t p tick s"
| "kernel_step (Startup t) s = map_option snd (rt_thread_startup t s)"
| "kernel_step (Resume t) s = map_option snd (rt_thread_resume t s)"
| "kernel_step (Suspend_Thread t) s = map_option snd (rt_thread_suspend t s)"
| "kernel_step (Timeout t) s = rt_thread_timeout t s"
| "kernel_step Yield s = rt_thread_yield s"
| "kernel_step (Sleep_For tick) s = rt_thread_sleep tick s"
| "kernel_step (Priority t p) s = Some (change_priority t p s)"
| "kernel_step Slice s = tick_slice s"
| "kernel_step Enter s = Some (rt_enter_critical s)"
| "kernel_step Exit s = rt_exit_critical s"
| "kernel_step Schedule s = rt_schedule s"

text \<open>A structure is initialised when no thread lives in it, a thread is started after that, and
  priorities are below 32.\<close>

fun op_ok :: "kernel_op \<Rightarrow> sched \<Rightarrow> bool" where
  "op_ok (Init t p tick) s = (stat (threads s t) \<in> {RT_THREAD_INIT, RT_THREAD_CLOSE} \<and> rt_current_thread s \<noteq> Some t)"
| "op_ok (Startup t) s = (unat (init_priority (threads s t)) < RT_THREAD_PRIORITY_MAX)"
| "op_ok (Priority t p) s = (unat p < RT_THREAD_PRIORITY_MAX)"
| "op_ok _ s = True"

lemma init_wf:
  assumes "sched_wf s" "op_ok (Init t p tick) s" "rt_thread_init_fields t p tick s = Some s'"
  shows "sched_wf s'"
proof -
  obtain th ts where s': "s' = (thread_upd t (\<lambda>_. th) s)\<lparr>tmr := ts\<rparr>" "stat th = RT_THREAD_INIT"
    using assms(3) by (auto simp: rt_thread_init_fields_def thread_upd_def split: if_splits)
  have q: "queues_ok {} s" and cur: "current_ok s"
    using assms(1) by (simp_all add: sched_wf_def)
  have "queues_ok {} (thread_upd t (\<lambda>_. th) s)"
    by (rule queues_on [OF queues_upd [OF queues_off [OF q]]]) (use assms(2) s'(2) in auto)
  then show ?thesis
    using cur assms(2) s'(2) by (auto simp: s'(1) sched_wf_def current_ok_def)
qed

text \<open>Every thread and scheduler operation that returns keeps the kernel consistent: the ready queues
  hold exactly the ready threads by priority, the priority group has exactly the bits of the queues
  that are not empty, at most one thread runs and it is the current one, and every thread waits on at
  most one object, suspended.\<close>

lemma kernel_step_wf:
  assumes "sched_wf s" "op_ok op s" "kernel_step op s = Some s'"
  shows "sched_wf s'"
proof (cases op)
  case (Init t p tick)
  then show ?thesis using assms init_wf by simp
next
  case (Startup t)
  then show ?thesis using assms startup_wf [OF assms(1)] by auto
next
  case (Timeout t)
  then show ?thesis using assms timeout_wf by simp
next
  case Yield
  then show ?thesis using assms yield_wf by simp
next
  case (Sleep_For tick)
  then show ?thesis using assms sleep_wf by simp
next
  case (Priority t p)
  then show ?thesis using assms change_priority_wf by auto
next
  case Slice
  then show ?thesis using assms slice_wf by simp
next
  case (Resume t)
  then show ?thesis using assms resume_wf by auto
next
  case (Suspend_Thread t)
  then show ?thesis using assms suspend_wf by auto
next
  case Enter
  then show ?thesis using assms critical_wf(1) by auto
next
  case Exit
  then show ?thesis using assms critical_wf(2) by simp
next
  case Schedule
  then show ?thesis using assms(3) schedule_law [OF assms(1)] by simp
qed

text \<open>A kernel with a running thread 1 of priority 10, an idle thread 0 of priority 31, and the timers of both.\<close>

definition demo_thread :: "thread_stat \<Rightarrow> u8 \<Rightarrow> rt_thread" where
  "demo_thread x p = \<lparr>stat = x, yield_flag = False, current_priority = p, init_priority = p, number_mask = push_bit (unat p) 1,
     thread_init_tick = 10, thread_remaining_tick = 10, error = RT_EOK\<rparr>"

definition demo_timers :: timer_sys where
  "demo_timers = \<lparr>timers = (\<lambda>t. Some (timer_init_fields True 0 0 0)), rt_timer_list = [], rt_soft_timer_list = [], hard_tmp = [],
     soft_tmp = [], soft_timer_busy = False, timer_thread_suspended = False, tick_now = 0, fired = []\<rparr>"

definition demo_sched :: sched where
  "demo_sched = \<lparr>threads = (\<lambda>t. demo_thread (if t = 0 then RT_THREAD_READY else if t = 1 then RT_THREAD_RUNNING else RT_THREAD_INIT)
       (if t = 0 then 31 else 10)),
     rt_thread_priority_table = (\<lambda>p. if p = 31 then [0] else []), rt_thread_ready_priority_group = push_bit 31 1,
     rt_current_thread = Some 1, rt_current_priority = 10, rt_scheduler_lock_nest = 0, waiting = (\<lambda>_. []), tmr = demo_timers\<rparr>"

lemma bit_31: "bit (2147483648 :: u32) p \<longleftrightarrow> p = 31"
proof -
  have "(2147483648 :: u32) = 2 ^ 31" by simp
  then show ?thesis unfolding \<open>2147483648 = 2 ^ 31\<close> bit_exp_iff by auto
qed

lemma ffs_31: "rt_ffs 2147483648 = 32"
proof -
  have "List.find (bit (2147483648 :: u32)) [0..<32] = Some 31"
    unfolding find_upt bit_31 by simp
  then show ?thesis by (simp add: rt_ffs_def)
qed

lemma demo_sched_wf: "sched_wf demo_sched"
  unfolding sched_wf_def queues_ok_def current_ok_def priority_ok_def
  by (auto simp: demo_sched_def demo_thread_def bit_31 simp del: bit_numeral_word_iff)

lemma demo_yield: "\<exists>s'. kernel_step Yield demo_sched = Some s'"
proof -
  have "get_highest_priority_thread s = Some (0, 31)"
    if "rt_thread_ready_priority_group s = 2147483648" "rt_thread_priority_table s 31 = [0]" for s
    using that by (simp add: get_highest_priority_thread_def ffs_31)
  then show ?thesis
    by (simp add: rt_thread_yield_def rt_schedule_def demo_sched_def Let_def)
qed

text \<open>The operations that end in \<open>rt_schedule\<close>.\<close>

fun preempts :: "kernel_op \<Rightarrow> bool" where
  "preempts (Startup t) = True" | "preempts (Timeout t) = True" | "preempts Yield = True"
| "preempts (Sleep_For n) = True" | "preempts Schedule = True" | "preempts _ = False"

definition runnable :: "sched \<Rightarrow> nat \<Rightarrow> bool" where
  "runnable s i \<longleftrightarrow> stat (threads s i) \<in> {RT_THREAD_READY, RT_THREAD_RUNNING}"

lemma schedule_runs_best:
  assumes "sched_wf s" "rt_scheduler_lock_nest s = 0" "rt_current_thread s = Some c" "runnable s i" "rt_schedule s = Some s'"
  shows "\<exists>t. best s' t"
proof -
  have q: "queues_ok {} s" and cur: "current_ok s"
    using assms(1) by (simp_all add: sched_wf_def)
  have "stat (threads s c) = RT_THREAD_RUNNING \<or> rt_thread_ready_priority_group s \<noteq> 0"
    using assms(4) current_okD(1) [OF cur assms(3), of i] no_ready [OF q, of i] by (auto simp: runnable_def)
  then show ?thesis
    using schedule_best [OF assms(1-3)] assms(5) by auto
qed

lemma before_schedule:
  assumes "sched_wf s" "op_ok op s" "rt_current_thread s = Some c" "runnable s i" "\<forall>n. op = Sleep_For n \<longrightarrow> i \<noteq> c"
    and "preempts op" "kernel_step op s = Some s'"
  obtains s1 where "sched_wf s1" "rt_scheduler_lock_nest s1 = rt_scheduler_lock_nest s" "rt_current_thread s1 = Some c" "runnable s1 i" "rt_schedule s1 = Some s'"
proof (cases op)
  case (Startup t)
  have st: "stat (threads s t) = RT_THREAD_INIT"
    using assms(7) by (cases "stat (threads s t) = RT_THREAD_INIT") (simp_all add: Startup rt_thread_startup_def)
  define s0 where "s0 = thread_upd t (\<lambda>th. th\<lparr>current_priority := init_priority th, number_mask := push_bit (unat (init_priority th)) 1, stat := RT_THREAD_SUSPEND\<rparr>) s"
  have w0: "sched_wf s0"
    using startup_resume_wf [OF assms(1) st] assms(2) Startup by (simp add: s0_def)
  obtain r s1 where s1: "rt_thread_resume t s0 = Some (r, s1)" and sch: "(if rt_current_thread s1 \<noteq> None then rt_schedule s1 else Some s1) = Some s'"
    using assms(7) st unfolding Startup kernel_step.simps rt_thread_startup_def s0_def [symmetric] Let_def
    by (simp split: Option.bind_splits prod.splits)
  obtain ts where "s1 = rt_schedule_insert_thread t ((tlist_remove t s0)\<lparr>tmr := ts\<rparr>)"
    using s1 by (auto simp: rt_thread_resume_def s0_def split: Option.bind_splits dest!: timer_stop_simps)
  then have "rt_scheduler_lock_nest s1 = rt_scheduler_lock_nest s" "rt_current_thread s1 = Some c" "runnable s1 i"
    using assms(3,4) st by (auto simp: s0_def runnable_def)
  then show ?thesis
    using that [OF resume_wf [OF w0 s1]] sch by simp
next
  case (Timeout t)
  define s1 where "s1 = rt_schedule_insert_thread t (tlist_remove t (thread_upd t (\<lambda>th. th\<lparr>error := - RT_ETIMEOUT\<rparr>) s))"
  have st: "stat (threads s t) = RT_THREAD_SUSPEND" and sch: "rt_schedule s1 = Some s'"
    using assms(7) by (auto simp: Timeout rt_thread_timeout_def s1_def split: if_splits)
  have "sched_wf s1"
    unfolding s1_def by (rule timeout_wake_wf [OF assms(1) st])
  then show ?thesis
    using that [OF _ _ _ _ sch] assms(3,4) st by (auto simp: s1_def runnable_def)
next
  case Yield
  define s1 where "s1 = thread_upd c (\<lambda>th. th\<lparr>thread_remaining_tick := thread_init_tick th, yield_flag := True\<rparr>) s"
  have "sched_wf s1" "rt_schedule s1 = Some s'"
    using yield_mark_wf [OF assms(1)] assms(3,7) by (simp_all add: Yield rt_thread_yield_def s1_def)
  moreover have "rt_scheduler_lock_nest s1 = rt_scheduler_lock_nest s" "rt_current_thread s1 = Some c" "runnable s1 i"
    using assms(3,4) by (auto simp: s1_def runnable_def)
  ultimately show ?thesis
    using that by blast
next
  case (Sleep_For m)
  obtain r s1 s2 where s1: "rt_thread_suspend c s = Some (r, s1)" "thread_timer_start c m s1 = Some s2" and sch: "rt_schedule s2 = Some s'"
    using assms(3,7) Sleep_For by (auto simp: rt_thread_sleep_def split: Option.bind_splits)
  obtain ts where s2: "s2 = s1\<lparr>tmr := ts\<rparr>"
    using timer_stop_simps(2) [OF s1(2)] by blast
  have "rt_scheduler_lock_nest s1 = rt_scheduler_lock_nest s \<and> rt_current_thread s1 = Some c \<and> runnable s1 i"
    using s1(1) assms(3-5) Sleep_For
    by (auto simp: rt_thread_suspend_def runnable_def split: if_splits Option.bind_splits dest!: timer_stop_simps(1))
  then show ?thesis
    using that [of s2] suspend_wf [OF assms(1) s1(1)] sch by (simp add: s2 runnable_def)
next
  case Schedule
  then show ?thesis using that [of s] assms by simp
qed (use assms(6) in simp_all)



end
