(* ===== verification/Ipc.thy ===== *)
theory Ipc
  imports Scheduler
begin

text \<open>
  \<^verbatim>\<open>rt-thread/src/ipc.c\<close>: semaphores and mutexes.  An object is an address; its list \<open>suspend_thread\<close> is
  \<open>waiting\<close> of the scheduler's state.  A call that gives the processor away has not returned: its
  result is \<open>Blocked\<close>, and \<open>take_resumed\<close> is what the caller does when it runs again.  \<open>None\<close> is a failed \<open>RT_ASSERT\<close> or a null pointer.
\<close>

section \<open>State\<close>

abbreviation (input) RT_EFULL :: rt_err_t where "RT_EFULL \<equiv> 3"
abbreviation (input) RT_SEM_VALUE_MAX :: u16 where "RT_SEM_VALUE_MAX \<equiv> 0xFFFF"
abbreviation (input) RT_MUTEX_VALUE_MAX :: u16 where "RT_MUTEX_VALUE_MAX \<equiv> 0xFFFF"
abbreviation (input) RT_MUTEX_HOLD_MAX :: u8 where "RT_MUTEX_HOLD_MAX \<equiv> 0xFF"

datatype ipc_flag = RT_IPC_FLAG_FIFO | RT_IPC_FLAG_PRIO

record rt_semaphore =
  sem_value :: u16
  sem_flag :: ipc_flag

record rt_mutex =
  mutex_value :: u16
  original_priority :: u8
  hold :: u8
  owner :: "nat option"
  mutex_flag :: ipc_flag

record ipc_sys =
  kern :: sched
  sems :: "nat \<rightharpoonup> rt_semaphore"
  mutexes :: "nat \<rightharpoonup> rt_mutex"

datatype outcome = Returned rt_err_t | Blocked

abbreviation set_error :: "nat \<Rightarrow> rt_err_t \<Rightarrow> sched \<Rightarrow> sched" where
  "set_error t e \<equiv> thread_upd t (\<lambda>th. th\<lparr>error := e\<rparr>)"

section \<open>Waiting lists\<close>

fun prio_insert :: "(nat \<Rightarrow> nat) \<Rightarrow> nat \<Rightarrow> nat list \<Rightarrow> nat list" where
  "prio_insert pr t [] = [t]"
| "prio_insert pr t (u # us) = (if pr t < pr u then t # u # us else u # prio_insert pr t us)"

definition rt_ipc_list_suspend :: "nat \<Rightarrow> nat \<Rightarrow> ipc_flag \<Rightarrow> sched \<Rightarrow> sched option" where
  "rt_ipc_list_suspend i t flg s =
     do { (r, s1) \<leftarrow> rt_thread_suspend t s;
          Some (case flg of
                  RT_IPC_FLAG_FIFO \<Rightarrow> s1\<lparr>waiting := (waiting s1)(i := waiting s1 i @ [t])\<rparr>
                | RT_IPC_FLAG_PRIO \<Rightarrow> s1\<lparr>waiting := (waiting s1)(i := prio_insert (priority s1) t (waiting s1 i))\<rparr>) }"

definition rt_ipc_list_resume :: "nat \<Rightarrow> sched \<Rightarrow> sched option" where
  "rt_ipc_list_resume i s = (case waiting s i of [] \<Rightarrow> None | t # _ \<Rightarrow> map_option snd (rt_thread_resume t s))"

text \<open>The loop runs as long as the list is not empty; the fuel is one more than its length.\<close>

fun resume_all_loop :: "nat \<Rightarrow> nat \<Rightarrow> sched \<Rightarrow> sched option" where
  "resume_all_loop 0 i s = None"
| "resume_all_loop (Suc fuel) i s =
     (case waiting s i of [] \<Rightarrow> Some s
      | t # _ \<Rightarrow> do { (r, s1) \<leftarrow> rt_thread_resume t (thread_upd t (\<lambda>th. th\<lparr>error := - RT_ERROR\<rparr>) s);
                      resume_all_loop fuel i s1 })"

definition rt_ipc_list_resume_all :: "nat \<Rightarrow> sched \<Rightarrow> sched option" where
  "rt_ipc_list_resume_all i s = resume_all_loop (length (waiting s i) + 1) i s"

section \<open>Semaphores\<close>

definition rt_sem_init :: "nat \<Rightarrow> u32 \<Rightarrow> ipc_flag \<Rightarrow> ipc_sys \<Rightarrow> ipc_sys option" where
  "rt_sem_init i v flg s =
     (if \<not> v < 0x10000 then None
      else Some (s\<lparr>kern := (kern s)\<lparr>waiting := (waiting (kern s))(i := [])\<rparr>,
                   sems := (sems s)(i \<mapsto> \<lparr>sem_value = ucast v, sem_flag = flg\<rparr>)\<rparr>))"

definition rt_sem_detach :: "nat \<Rightarrow> ipc_sys \<Rightarrow> ipc_sys option" where
  "rt_sem_detach i s =
     (case sems s i of None \<Rightarrow> None
      | Some sm \<Rightarrow> map_option (\<lambda>k. s\<lparr>kern := k, sems := (sems s)(i := None)\<rparr>) (rt_ipc_list_resume_all i (kern s)))"

text \<open>The rest of a take after \<open>rt_schedule\<close>.\<close>

definition take_resumed :: "nat \<Rightarrow> sched \<Rightarrow> rt_err_t" where
  "take_resumed t k = (if error (threads k t) \<noteq> RT_EOK then error (threads k t) else RT_EOK)"

text \<open>Suspend the caller on the object, start its timer unless it waits for ever, and schedule.  If the
  caller still is the current thread, it goes on at once.\<close>

definition block_on :: "nat \<Rightarrow> nat \<Rightarrow> ipc_flag \<Rightarrow> int \<Rightarrow> sched \<Rightarrow> (outcome \<times> sched) option" where
  "block_on i t flg time k =
     do { k1 \<leftarrow> rt_ipc_list_suspend i t flg k;
          k2 \<leftarrow> (if time > 0 then thread_timer_start t (of_int time) k1 else Some k1);
          k3 \<leftarrow> rt_schedule k2;
          Some (if rt_current_thread k3 = Some t then Returned (take_resumed t k3) else Blocked, k3) }"

definition rt_sem_take :: "nat \<Rightarrow> int \<Rightarrow> ipc_sys \<Rightarrow> (outcome \<times> ipc_sys) option" where
  "rt_sem_take i time s =
     (case sems s i of None \<Rightarrow> None
      | Some sm \<Rightarrow>
          if sem_value sm > 0
          then Some (Returned RT_EOK, s\<lparr>sems := (sems s)(i \<mapsto> sm\<lparr>sem_value := sem_value sm - 1\<rparr>)\<rparr>)
          else if time = 0 then Some (Returned (- RT_ETIMEOUT), s)
          else do { t \<leftarrow> rt_current_thread (kern s);
                    (r, k) \<leftarrow> block_on i t (sem_flag sm) time (thread_upd t (\<lambda>th. th\<lparr>error := RT_EOK\<rparr>) (kern s));
                    Some (r, s\<lparr>kern := k\<rparr>) })"

definition rt_sem_trytake :: "nat \<Rightarrow> ipc_sys \<Rightarrow> (outcome \<times> ipc_sys) option" where
  "rt_sem_trytake i s = rt_sem_take i 0 s"

definition rt_sem_release :: "nat \<Rightarrow> ipc_sys \<Rightarrow> (rt_err_t \<times> ipc_sys) option" where
  "rt_sem_release i s =
     (case sems s i of None \<Rightarrow> None
      | Some sm \<Rightarrow>
          if waiting (kern s) i \<noteq> []
          then do { k1 \<leftarrow> rt_ipc_list_resume i (kern s);
                    k2 \<leftarrow> rt_schedule k1;
                    Some (RT_EOK, s\<lparr>kern := k2\<rparr>) }
          else if sem_value sm < RT_SEM_VALUE_MAX
          then Some (RT_EOK, s\<lparr>sems := (sems s)(i \<mapsto> sm\<lparr>sem_value := sem_value sm + 1\<rparr>)\<rparr>)
          else Some (- RT_EFULL, s))"

text \<open>\<open>reset\<close> is the argument of \<open>RT_IPC_CMD_RESET\<close>; any other command is \<open>None\<close>.\<close>

definition rt_sem_control :: "nat \<Rightarrow> u32 option \<Rightarrow> ipc_sys \<Rightarrow> (rt_err_t \<times> ipc_sys) option" where
  "rt_sem_control i reset s =
     (case sems s i of None \<Rightarrow> None
      | Some sm \<Rightarrow>
          (case reset of None \<Rightarrow> Some (- RT_ERROR, s)
           | Some v \<Rightarrow>
               do { k1 \<leftarrow> rt_ipc_list_resume_all i (kern s);
                    k2 \<leftarrow> rt_schedule k1;
                    Some (RT_EOK, s\<lparr>kern := k2, sems := (sems s)(i \<mapsto> sm\<lparr>sem_value := ucast v\<rparr>)\<rparr>) }))"

section \<open>Mutexes\<close>

definition rt_mutex_init :: "nat \<Rightarrow> ipc_flag \<Rightarrow> ipc_sys \<Rightarrow> ipc_sys" where
  "rt_mutex_init i flg s =
     s\<lparr>kern := (kern s)\<lparr>waiting := (waiting (kern s))(i := [])\<rparr>,
       mutexes := (mutexes s)(i \<mapsto> \<lparr>mutex_value = 1, original_priority = 0xFF, hold = 0, owner = None, mutex_flag = flg\<rparr>)\<rparr>"

text \<open>\<open>alloc\<close> is the address \<open>rt_object_allocate\<close> returns, if it finds memory.\<close>

definition rt_mutex_create :: "nat option \<Rightarrow> ipc_flag \<Rightarrow> ipc_sys \<Rightarrow> nat option \<times> ipc_sys" where
  "rt_mutex_create alloc flg s = (case alloc of None \<Rightarrow> (None, s) | Some i \<Rightarrow> (Some i, rt_mutex_init i flg s))"

definition rt_mutex_detach :: "nat \<Rightarrow> ipc_sys \<Rightarrow> ipc_sys option" where
  "rt_mutex_detach i s =
     (case mutexes s i of None \<Rightarrow> None
      | Some m \<Rightarrow> map_option (\<lambda>k. s\<lparr>kern := k, mutexes := (mutexes s)(i := None)\<rparr>) (rt_ipc_list_resume_all i (kern s)))"

definition rt_mutex_take :: "nat \<Rightarrow> int \<Rightarrow> ipc_sys \<Rightarrow> (outcome \<times> ipc_sys) option" where
  "rt_mutex_take i time s =
     do { m \<leftarrow> mutexes s i;
          t \<leftarrow> rt_current_thread (kern s);
          let s1 = s\<lparr>kern := set_error t RT_EOK (kern s)\<rparr> in
          if owner m = Some t
          then if hold m < RT_MUTEX_HOLD_MAX
               then Some (Returned RT_EOK, s1\<lparr>mutexes := (mutexes s)(i \<mapsto> m\<lparr>hold := hold m + 1\<rparr>)\<rparr>)
               else Some (Returned (- RT_EFULL), s1)
          else if mutex_value m > 0
          then let m1 = m\<lparr>mutex_value := mutex_value m - 1, owner := Some t, original_priority := current_priority (threads (kern s) t)\<rparr> in
               if hold m < RT_MUTEX_HOLD_MAX
               then Some (Returned RT_EOK, s1\<lparr>mutexes := (mutexes s)(i \<mapsto> m1\<lparr>hold := hold m + 1\<rparr>)\<rparr>)
               else Some (Returned (- RT_EFULL), s1\<lparr>mutexes := (mutexes s)(i \<mapsto> m1)\<rparr>)
          else if time = 0 then Some (Returned (- RT_ETIMEOUT), s\<lparr>kern := set_error t (- RT_ETIMEOUT) (kern s)\<rparr>)
          else do { w \<leftarrow> owner m;
                    let k1 = (if current_priority (threads (kern s1) t) < current_priority (threads (kern s1) w)
                              then change_priority w (current_priority (threads (kern s1) t)) (kern s1) else kern s1) in
                    do { (r, k2) \<leftarrow> block_on i t (mutex_flag m) time k1;
                         Some (r, s\<lparr>kern := k2\<rparr>) } } }"

definition rt_mutex_release :: "nat \<Rightarrow> ipc_sys \<Rightarrow> (rt_err_t \<times> ipc_sys) option" where
  "rt_mutex_release i s =
     do { m \<leftarrow> mutexes s i;
          t \<leftarrow> rt_current_thread (kern s);
          if owner m \<noteq> Some t then Some (- RT_ERROR, s\<lparr>kern := set_error t (- RT_ERROR) (kern s)\<rparr>)
          else let m1 = m\<lparr>hold := hold m - 1\<rparr> in
               if hold m1 \<noteq> 0 then Some (RT_EOK, s\<lparr>mutexes := (mutexes s)(i \<mapsto> m1)\<rparr>)
               else let k1 = (if original_priority m1 \<noteq> current_priority (threads (kern s) t)
                              then change_priority t (original_priority m1) (kern s) else kern s) in
                    (case waiting k1 i of
                       u # us \<Rightarrow>
                         let m2 = m1\<lparr>owner := Some u, original_priority := current_priority (threads k1 u)\<rparr> in
                         if hold m2 < RT_MUTEX_HOLD_MAX
                         then do { k2 \<leftarrow> rt_ipc_list_resume i k1;
                                   k3 \<leftarrow> rt_schedule k2;
                                   Some (RT_EOK, s\<lparr>kern := k3, mutexes := (mutexes s)(i \<mapsto> m2\<lparr>hold := hold m2 + 1\<rparr>)\<rparr>) }
                         else Some (- RT_EFULL, s\<lparr>kern := k1, mutexes := (mutexes s)(i \<mapsto> m2)\<rparr>)
                     | [] \<Rightarrow>
                         if mutex_value m1 < RT_MUTEX_VALUE_MAX
                         then Some (RT_EOK, s\<lparr>kern := k1, mutexes := (mutexes s)(i \<mapsto>
                                m1\<lparr>mutex_value := mutex_value m1 + 1, owner := None, original_priority := 0xFF\<rparr>)\<rparr>)
                         else Some (- RT_EFULL, s\<lparr>kern := k1, mutexes := (mutexes s)(i \<mapsto> m1)\<rparr>)) }"

definition rt_mutex_control :: "nat \<Rightarrow> ipc_sys \<Rightarrow> rt_err_t \<times> ipc_sys" where
  "rt_mutex_control i s = (- RT_ERROR, s)"

section \<open>What the scheduler's operations do to the waiting lists\<close>

definition shrinks :: "sched \<Rightarrow> sched \<Rightarrow> bool" where
  "shrinks k k' \<longleftrightarrow> (\<forall>j. set (waiting k' j) \<subseteq> set (waiting k j))"

lemma resume_waiting:
  assumes "rt_thread_resume t k = Some (r, k')"
  shows "waiting k' j = (if stat (threads k t) = RT_THREAD_SUSPEND then removeAll t (waiting k j) else waiting k j)"
  using assms by (auto simp: rt_thread_resume_def split: if_splits Option.bind_splits dest!: timer_stop_simps)

lemma suspend_waiting:
  assumes "sched_wf k" "rt_thread_suspend t k = Some (r, k')"
  shows "waiting k' j = waiting k j"
proof -
  have "removeAll t (waiting k j) = waiting k j" if "stat (threads k t) \<in> {RT_THREAD_READY, RT_THREAD_RUNNING}"
    using that assms(1) queues_okD(5) [of "{}" k t j] by (intro removeAll_id) (auto simp: sched_wf_def)
  then show ?thesis
    using assms(2) by (auto simp: rt_thread_suspend_def split: if_splits Option.bind_splits dest!: timer_stop_simps)
qed

lemma change_priority_same:
  assumes "sched_wf k"
  shows "waiting (change_priority t p k) = waiting k" "rt_current_thread (change_priority t p k) = rt_current_thread k"
    "stat (threads (change_priority t p k) u) = stat (threads k u)" "error (threads (change_priority t p k) u) = error (threads k u)"
    "current_priority (threads (change_priority t p k) u) = (if u = t then p else current_priority (threads k u))"
    "rt_scheduler_lock_nest (change_priority t p k) = rt_scheduler_lock_nest k"
proof -
  have q: "queues_ok {} k" and cur: "current_ok k"
    using assms by (simp_all add: sched_wf_def)
  have "removeAll t (waiting k j) = waiting k j" if "stat (threads k t) = RT_THREAD_READY" for j
    using that queues_okD(5) [OF q, of t j] by (intro removeAll_id) auto
  moreover have "rt_current_thread k \<noteq> Some t" if "stat (threads k t) = RT_THREAD_READY"
    using that cur by (auto simp: current_ok_def)
  ultimately show "waiting (change_priority t p k) = waiting k" "rt_current_thread (change_priority t p k) = rt_current_thread k"
    "stat (threads (change_priority t p k) u) = stat (threads k u)" "error (threads (change_priority t p k) u) = error (threads k u)"
    "current_priority (threads (change_priority t p k) u) = (if u = t then p else current_priority (threads k u))"
    "rt_scheduler_lock_nest (change_priority t p k) = rt_scheduler_lock_nest k"
    by (auto simp: change_priority_def set_priority_def fun_eq_iff)
qed

lemma prio_insert_set: "set (prio_insert pr t ws) = insert t (set ws)"
  by (induction ws) auto

lemma prio_insert_distinct: "distinct ws \<Longrightarrow> t \<notin> set ws \<Longrightarrow> distinct (prio_insert pr t ws)"
  by (induction ws) (auto simp: prio_insert_set)

lemma wait_on_wf:
  assumes "sched_wf k" "stat (threads k t) = RT_THREAD_SUSPEND" "\<And>j. t \<notin> set (waiting k j)"
    and "set ws = insert t (set (waiting k i))" "distinct ws"
  shows "sched_wf (k\<lparr>waiting := (waiting k)(i := ws)\<rparr>)"
proof -
  have q: "queues_ok {} k" and cur: "current_ok k"
    using assms(1) by (simp_all add: sched_wf_def)
  have "queues_ok {} (k\<lparr>waiting := (waiting k)(i := ws)\<rparr>)"
    using q assms(2-5) by (intro queues_okI) (auto simp: queues_okD split: if_splits dest: queues_okD(5,7))
  then show ?thesis
    using cur by (simp add: sched_wf_def current_ok_def)
qed

lemma list_suspend_law:
  assumes "sched_wf k" "rt_current_thread k = Some t" "stat (threads k t) = RT_THREAD_RUNNING" "rt_ipc_list_suspend i t flg k = Some k'"
  shows "sched_wf k'" "set (waiting k' i) = insert t (set (waiting k i))" "\<And>j. j \<noteq> i \<Longrightarrow> waiting k' j = waiting k j"
    "rt_current_thread k' = Some t" "\<And>u. current_priority (threads k' u) = current_priority (threads k u)"
    "rt_scheduler_lock_nest k' = rt_scheduler_lock_nest k" "\<And>u. u \<noteq> t \<Longrightarrow> threads k' u = threads k u"
proof -
  obtain r k1 where k1: "rt_thread_suspend t k = Some (r, k1)" and k': "waiting k' = (waiting k1)(i := waiting k' i)" "k' = k1\<lparr>waiting := waiting k'\<rparr>"
    and ws: "waiting k' i = waiting k1 i @ [t] \<or> waiting k' i = prio_insert (priority k1) t (waiting k1 i)"
    using assms(4) by (auto simp: rt_ipc_list_suspend_def split: Option.bind_splits ipc_flag.splits)
  obtain ts where k1': "k1 = (set_stat RT_THREAD_SUSPEND t (rt_schedule_remove_thread t k))\<lparr>tmr := ts\<rparr>"
    using k1 assms(2,3) by (auto simp: rt_thread_suspend_def split: if_splits Option.bind_splits dest!: timer_stop_simps)
  have off: "t \<notin> set (waiting k1 j)" for j
    by (simp add: k1')
  have same: "waiting k1 j = waiting k j" for j
    by (rule suspend_waiting [OF assms(1) k1])
  have w1: "sched_wf k1"
    by (rule suspend_wf [OF assms(1) k1])
  then have "distinct (waiting k1 i)"
    using queues_okD(6) by (auto simp: sched_wf_def)
  then have d: "set (waiting k' i) = insert t (set (waiting k1 i))" "distinct (waiting k' i)"
    using ws off [of i] by (auto simp: prio_insert_set prio_insert_distinct)
  have "sched_wf (k1\<lparr>waiting := (waiting k1)(i := waiting k' i)\<rparr>)"
    by (rule wait_on_wf [OF w1 _ off d]) (simp add: k1')
  then show "sched_wf k'"
    using k' by metis
  show "set (waiting k' i) = insert t (set (waiting k i))"
    using d(1) same by simp
  show "waiting k' j = waiting k j" if "j \<noteq> i" for j
    using that k'(1) same by (metis fun_upd_apply)
  show "rt_current_thread k' = Some t" "\<And>u. current_priority (threads k' u) = current_priority (threads k u)"
    "rt_scheduler_lock_nest k' = rt_scheduler_lock_nest k" "\<And>u. u \<noteq> t \<Longrightarrow> threads k' u = threads k u"
    using assms(2) by (subst k'(2), simp add: k1')+
qed

lemma block_on_law:
  assumes "sched_wf k" "rt_current_thread k = Some t" "stat (threads k t) = RT_THREAD_RUNNING" "block_on i t flg time k = Some (r, k')"
  shows "sched_wf k'" "set (waiting k' i) = insert t (set (waiting k i))" "\<And>j. j \<noteq> i \<Longrightarrow> waiting k' j = waiting k j"
    "\<And>u. current_priority (threads k' u) = current_priority (threads k u)"
proof -
  obtain k1 k2 where k1: "rt_ipc_list_suspend i t flg k = Some k1"
    and k2: "(if time > 0 then thread_timer_start t (of_int time) k1 else Some k1) = Some k2" and k3: "rt_schedule k2 = Some k'"
    using assms(4) by (auto simp: block_on_def split: Option.bind_splits)
  obtain ts where t2: "k2 = k1\<lparr>tmr := ts\<rparr>"
  proof (cases "time > 0")
    case True
    then show ?thesis using that k2 timer_stop_simps(2) by force
  next
    case False
    then have "k2 = k1\<lparr>tmr := tmr k1\<rparr>" using k2 by simp
    then show ?thesis by (rule that)
  qed
  note law = list_suspend_law [OF assms(1-3) k1]
  have "sched_wf k2"
    using law(1) by (simp add: t2)
  then have sch: "sched_wf k'" "switches k2 k'" "waiting k' = waiting k2"
    using schedule_law k3 by blast+
  then show "sched_wf k'" "set (waiting k' i) = insert t (set (waiting k i))" "\<And>j. j \<noteq> i \<Longrightarrow> waiting k' j = waiting k j"
    "\<And>u. current_priority (threads k' u) = current_priority (threads k u)"
    using law by (simp_all add: t2 switches_def)
qed

text \<open>The loop of \<open>rt_ipc_list_resume_all\<close> takes one thread off the list in every round.\<close>

definition released :: "sched \<Rightarrow> nat \<Rightarrow> bool" where
  "released k t \<longleftrightarrow> stat (threads k t) \<in> {RT_THREAD_READY, RT_THREAD_RUNNING} \<and> error (threads k t) = - RT_ERROR"

lemma timer_stop_exists:
  assumes "timers ts t \<noteq> None"
  shows "\<exists>r ts'. rt_timer_stop t ts = Some (r, ts') \<and> (\<forall>u. timers ts u \<noteq> None \<longrightarrow> timers ts' u \<noteq> None)"
proof -
  obtain tm where tm: "timers ts t = Some tm" using assms by blast
  show ?thesis
    by (cases "activated tm") (simp_all add: rt_timer_stop_def timer_remove_def Let_def tm)
qed

lemma resume_first:
  assumes "sched_wf k" "waiting k i = t # ws" "timers (tmr k) t \<noteq> None"
  obtains k1 where "rt_thread_resume t (set_error t (- RT_ERROR) k) = Some (RT_EOK, k1)" "sched_wf k1" "waiting k1 i = ws"
    "\<And>j. j \<noteq> i \<Longrightarrow> waiting k1 j = waiting k j" "\<And>u. u \<noteq> t \<Longrightarrow> threads k1 u = threads k u" "released k1 t"
    "\<And>u. timers (tmr k) u \<noteq> None \<Longrightarrow> timers (tmr k1) u \<noteq> None"
proof -
  let ?k = "set_error t (- RT_ERROR) k"
  have q: "queues_ok {} k"
    using assms(1) by (simp add: sched_wf_def)
  have susp: "stat (threads k t) = RT_THREAD_SUSPEND"
    using queues_okD(5) [OF q, of t i] assms(2) by simp
  have w: "sched_wf ?k"
    using assms(1) by (rule wf_other_fields) simp_all
  obtain r ts where ts: "rt_timer_stop t (tmr k) = Some (r, ts)" "\<And>u. timers (tmr k) u \<noteq> None \<Longrightarrow> timers ts u \<noteq> None"
    using timer_stop_exists [OF assms(3)] by blast
  define k1 where "k1 = rt_schedule_insert_thread t ((tlist_remove t ?k)\<lparr>tmr := ts\<rparr>)"
  have res: "rt_thread_resume t ?k = Some (RT_EOK, k1)"
    using susp ts(1) by (simp add: rt_thread_resume_def thread_timer_stop_def k1_def)
  have "t \<notin> set (waiting k j)" if "j \<noteq> i" for j
    using that queues_okD(7) [OF q, of t i j] assms(2) by auto
  then have other: "waiting k1 j = waiting k j" if "j \<noteq> i" for j
    using that by (simp add: k1_def removeAll_id)
  have "distinct (t # ws)"
    using queues_okD(6) [OF q, of i] assms(2) by simp
  then have "waiting k1 i = ws"
    by (simp add: k1_def assms(2) removeAll_id)
  then show ?thesis
    using that [OF res resume_wf [OF w res]] other ts(2) by (auto simp: k1_def released_def)
qed

lemma resume_all_law:
  assumes "sched_wf k" "\<And>t. t \<in> set (waiting k i) \<Longrightarrow> timers (tmr k) t \<noteq> None" "length (waiting k i) < fuel"
  shows "\<exists>k'. resume_all_loop fuel i k = Some k' \<and> sched_wf k' \<and> waiting k' i = [] \<and> (\<forall>j. j \<noteq> i \<longrightarrow> waiting k' j = waiting k j) \<and>
    (\<forall>t. if t \<in> set (waiting k i) then released k' t else threads k' t = threads k t)"
  using assms
proof (induction fuel arbitrary: k)
  case 0
  then show ?case by simp
next
  case (Suc fuel)
  show ?case
  proof (cases "waiting k i")
    case Nil
    then show ?thesis using Suc.prems(1) by simp
  next
    case (Cons t ws)
    have "timers (tmr k) t \<noteq> None"
      using Suc.prems(2) Cons by simp
    then obtain k1 where k1: "rt_thread_resume t (set_error t (- RT_ERROR) k) = Some (RT_EOK, k1)" "sched_wf k1" "waiting k1 i = ws"
      "\<And>j. j \<noteq> i \<Longrightarrow> waiting k1 j = waiting k j" "\<And>u. u \<noteq> t \<Longrightarrow> threads k1 u = threads k u" "released k1 t"
      "\<And>u. timers (tmr k) u \<noteq> None \<Longrightarrow> timers (tmr k1) u \<noteq> None"
      using resume_first [OF Suc.prems(1) Cons] by blast
    have t: "t \<notin> set ws"
      using Suc.prems(1) queues_okD(6) [of "{}" k i] Cons by (simp add: sched_wf_def)
    obtain k' where k': "resume_all_loop fuel i k1 = Some k'" "sched_wf k'" "waiting k' i = []" "\<forall>j. j \<noteq> i \<longrightarrow> waiting k' j = waiting k1 j"
      "\<And>u. if u \<in> set ws then released k' u else threads k' u = threads k1 u"
      using Suc.IH [OF k1(2)] k1(3,7) Suc.prems(2,3) Cons by auto
    have "released k' t"
      using k'(5) [of t] t k1(6) by (simp add: released_def)
    moreover have "if u \<in> set ws then released k' u else threads k' u = threads k u" if "u \<noteq> t" for u
      using k'(5) [of u] k1(5) [OF that] by simp
    ultimately have "\<forall>u. if u \<in> set (waiting k i) then released k' u else threads k' u = threads k u"
      unfolding Cons by (metis set_ConsD list.set_intros)
    then show ?thesis
      using k' k1(1,4) Cons by simp
  qed
qed

text \<open>C16: deleting or resetting an object that threads wait for terminates: the loop that wakes them takes
  each off the list, leaves the list empty and every one of them able to run with the error
  -RT_ERROR, and touches no other thread or list.\<close>

theorem resume_all_returns:
  assumes "sched_wf k" "\<forall>t. t \<in> set (waiting k i) \<longrightarrow> timers (tmr k) t \<noteq> None"
  shows "\<exists>k'. rt_ipc_list_resume_all i k = Some k' \<and> sched_wf k' \<and> waiting k' i = [] \<and> (\<forall>j. j \<noteq> i \<longrightarrow> waiting k' j = waiting k j) \<and>
    (\<forall>t. if t \<in> set (waiting k i) then stat (threads k' t) \<in> {RT_THREAD_READY, RT_THREAD_RUNNING} \<and> error (threads k' t) = - RT_ERROR
         else threads k' t = threads k t)"
  using resume_all_law [OF assms(1), of i "length (waiting k i) + 1"] assms(2) unfolding rt_ipc_list_resume_all_def released_def by simp

definition demo_waiters :: sched where
  "demo_waiters = demo_sched\<lparr>threads := (threads demo_sched)(2 := demo_thread RT_THREAD_SUSPEND 8, 3 := demo_thread RT_THREAD_SUSPEND 12),
     waiting := (\<lambda>_. [])(7 := [2, 3])\<rparr>"

lemma demo_waiters_wf: "sched_wf demo_waiters"
  unfolding sched_wf_def queues_ok_def current_ok_def priority_ok_def
  by (auto simp: demo_waiters_def demo_sched_def demo_thread_def bit_31 simp del: bit_numeral_word_iff)

theorem resume_all_returns_witness:
  "\<exists>k'. rt_ipc_list_resume_all 7 demo_waiters = Some k' \<and> sched_wf k' \<and> waiting k' 7 = [] \<and>
    stat (threads k' 2) \<in> {RT_THREAD_READY, RT_THREAD_RUNNING} \<and> error (threads k' 3) = - RT_ERROR \<and> threads k' 1 = threads demo_waiters 1"
proof -
  have "\<forall>t. t \<in> set (waiting demo_waiters 7) \<longrightarrow> timers (tmr demo_waiters) t \<noteq> None" "set (waiting demo_waiters 7) = {2, 3}"
    by (auto simp: demo_waiters_def demo_sched_def demo_timers_def)
  then obtain k' where k: "rt_ipc_list_resume_all 7 demo_waiters = Some k'" "sched_wf k'" "waiting k' 7 = []"
    and "\<And>t. if t \<in> {2, 3} then stat (threads k' t) \<in> {RT_THREAD_READY, RT_THREAD_RUNNING} \<and> error (threads k' t) = - RT_ERROR
         else threads k' t = threads demo_waiters t"
    using resume_all_returns [OF demo_waiters_wf, of 7] by auto
  from this(4) [of 2] this(4) [of 3] this(4) [of 1] k show ?thesis
    by simp
qed

section \<open>Invariant\<close>

text \<open>A semaphore with a value has no waiters.  A mutex is free, or one thread holds it.\<close>

definition mutex_ok :: "nat list \<Rightarrow> rt_mutex \<Rightarrow> bool" where
  "mutex_ok ws m \<longleftrightarrow>
     (case owner m of
        None \<Rightarrow> mutex_value m = 1 \<and> hold m = 0 \<and> ws = []
      | Some t \<Rightarrow> mutex_value m = 0 \<and> hold m \<noteq> 0 \<and> t \<notin> set ws \<and> unat (original_priority m) < RT_THREAD_PRIORITY_MAX)"

definition ipc_wf :: "ipc_sys \<Rightarrow> bool" where
  "ipc_wf s \<longleftrightarrow> sched_wf (kern s) \<and> (\<forall>i. sems s i = None \<or> mutexes s i = None) \<and>
     (\<forall>i sm. sems s i = Some sm \<longrightarrow> sem_value sm > 0 \<longrightarrow> waiting (kern s) i = []) \<and>
     (\<forall>i m. mutexes s i = Some m \<longrightarrow> mutex_ok (waiting (kern s) i) m)"

lemma mutex_ok_shrinks: "mutex_ok ws m \<Longrightarrow> set ws' \<subseteq> set ws \<Longrightarrow> mutex_ok ws' m"
  by (auto simp: mutex_ok_def split: option.splits)

lemma ipc_wf_kern:
  assumes "ipc_wf s" "sched_wf k" "\<And>j. set (waiting k j) \<subseteq> set (waiting (kern s) j)"
  shows "ipc_wf (s\<lparr>kern := k\<rparr>)"
proof -
  have "waiting k i = []" if "waiting (kern s) i = []" for i
    using that assms(3) [of i] by simp
  then show ?thesis
    using assms mutex_ok_shrinks unfolding ipc_wf_def by simp blast
qed

lemma ipc_disjoint:
  assumes "ipc_wf s"
  shows "sems s i \<noteq> None \<Longrightarrow> mutexes s i = None" "mutexes s i \<noteq> None \<Longrightarrow> sems s i = None"
proof -
  have "sems s i = None \<or> mutexes s i = None"
    using assms by (simp add: ipc_wf_def)
  then show "sems s i \<noteq> None \<Longrightarrow> mutexes s i = None" "mutexes s i \<noteq> None \<Longrightarrow> sems s i = None"
    by auto
qed

lemma ipc_wf_sem:
  assumes "ipc_wf s" "mutexes s i = None" "waiting (kern s) i = []"
  shows "ipc_wf (s\<lparr>sems := (sems s)(i \<mapsto> sm)\<rparr>)"
  using assms unfolding ipc_wf_def by simp

lemma ipc_wf_mutex:
  assumes "ipc_wf s" "sems s i = None" "mutex_ok (waiting (kern s) i) m"
  shows "ipc_wf (s\<lparr>mutexes := (mutexes s)(i \<mapsto> m)\<rparr>)"
  using assms unfolding ipc_wf_def by simp

text \<open>A thread that waits for an object \<open>i\<close> that is taken.\<close>

lemma ipc_wf_block:
  assumes "ipc_wf s" "sched_wf k" "set (waiting k i) = insert t (set (waiting (kern s) i))" "\<And>j. j \<noteq> i \<Longrightarrow> waiting k j = waiting (kern s) j"
    and "\<And>sm. sems s i = Some sm \<Longrightarrow> sem_value sm = 0" "\<And>m. mutexes s i = Some m \<Longrightarrow> owner m \<noteq> None \<and> owner m \<noteq> Some t"
  shows "ipc_wf (s\<lparr>kern := k\<rparr>)"
proof -
  have "mutex_ok (waiting k j) m" if m: "mutexes s j = Some m" for j m
  proof (cases "j = i")
    case True
    then show ?thesis
      using assms(1,3,6) m by (auto simp: ipc_wf_def mutex_ok_def split: option.splits)
  next
    case False
    then show ?thesis
      using assms(1,4) m by (simp add: ipc_wf_def)
  qed
  moreover have "waiting k j = []" if "sems s j = Some sm" "sem_value sm > 0" for j sm
    using that assms(1,4,5) by (cases "j = i") (auto simp: ipc_wf_def)
  ultimately show ?thesis
    using assms(1,2) by (simp add: ipc_wf_def)
qed

section \<open>Every operation keeps the invariant\<close>

lemma schedule_shrinks: "rt_schedule k = Some k' \<Longrightarrow> set (waiting k' j) \<subseteq> set (waiting k j)"
  by (auto simp: rt_schedule_def Let_def split: if_splits Option.bind_splits)

lemma suspend_shrinks: "rt_thread_suspend t k = Some (r, k') \<Longrightarrow> set (waiting k' j) \<subseteq> set (waiting k j)"
  by (auto simp: rt_thread_suspend_def split: if_splits Option.bind_splits dest!: timer_stop_simps(1))

lemma startup_shrinks:
  assumes "rt_thread_startup t k = Some (r, k')"
  shows "set (waiting k' j) \<subseteq> set (waiting k j)"
proof -
  define k0 where "k0 = thread_upd t (\<lambda>th. th\<lparr>current_priority := init_priority th, number_mask := push_bit (unat (init_priority th)) 1, stat := RT_THREAD_SUSPEND\<rparr>) k"
  obtain r1 k1 where "rt_thread_resume t k0 = Some (r1, k1)" "(if rt_current_thread k1 \<noteq> None then rt_schedule k1 else Some k1) = Some k'"
    using assms unfolding rt_thread_startup_def k0_def [symmetric] Let_def by (simp split: if_splits Option.bind_splits prod.splits)
  then have "set (waiting k1 j) \<subseteq> set (waiting k0 j)" "set (waiting k' j) \<subseteq> set (waiting k1 j)"
    using resume_waiting [of t k0 r1 k1 j] schedule_shrinks [of k1 k' j] by (auto split: if_splits)
  then show ?thesis
    by (auto simp: k0_def)
qed

lemma kernel_shrinks:
  assumes "kernel_step op k = Some k'"
  shows "set (waiting k' j) \<subseteq> set (waiting k j)"
proof (cases op)
  case (Init t p tick)
  then show ?thesis using assms by (auto simp: rt_thread_init_fields_def split: if_splits)
next
  case (Startup t)
  then obtain r where "rt_thread_startup t k = Some (r, k')" using assms by auto
  then show ?thesis by (rule startup_shrinks)
next
  case (Resume t)
  then obtain r where "rt_thread_resume t k = Some (r, k')" using assms by auto
  then show ?thesis using resume_waiting [of t k r k' j] by (auto split: if_splits)
next
  case (Suspend_Thread t)
  then obtain r where "rt_thread_suspend t k = Some (r, k')" using assms by auto
  then show ?thesis by (rule suspend_shrinks)
next
  case (Timeout t)
  then show ?thesis using assms by (auto simp: rt_thread_timeout_def split: if_splits dest!: schedule_shrinks)
next
  case Yield
  then show ?thesis using assms by (auto simp: rt_thread_yield_def split: Option.bind_splits dest!: schedule_shrinks)
next
  case (Sleep_For n)
  then obtain t r k1 ts where k1: "rt_thread_suspend t k = Some (r, k1)" "rt_schedule (k1\<lparr>tmr := ts\<rparr>) = Some k'"
    using assms by (auto simp: rt_thread_sleep_def split: Option.bind_splits dest!: timer_stop_simps(2))
  show ?thesis
    using suspend_shrinks [OF k1(1), of j] schedule_shrinks [OF k1(2), of j] by simp
next
  case (Priority t p)
  then show ?thesis using assms by (auto simp: change_priority_def split: if_splits)
next
  case Slice
  then show ?thesis
    using assms by (auto simp: tick_slice_def Let_def split: if_splits Option.bind_splits dest!: schedule_shrinks)
next
  case Enter
  then show ?thesis using assms by (auto simp: rt_enter_critical_def)
next
  case Exit
  then show ?thesis using assms by (auto simp: rt_exit_critical_def Let_def split: if_splits dest!: schedule_shrinks)
next
  case Schedule
  then show ?thesis using assms schedule_shrinks by simp
qed

text \<open>The thread that makes a call is running.\<close>

definition caller :: "ipc_sys \<Rightarrow> nat \<Rightarrow> bool" where
  "caller s t \<longleftrightarrow> rt_current_thread (kern s) = Some t \<and> stat (threads (kern s) t) = RT_THREAD_RUNNING"

lemma error_wf: "sched_wf k \<Longrightarrow> sched_wf (set_error t e k)"
  by (rule wf_other_fields) simp_all

lemma ipc_wf_error: "ipc_wf s \<Longrightarrow> ipc_wf (s\<lparr>kern := set_error t e (kern s)\<rparr>)"
  by (rule ipc_wf_kern) (simp_all add: ipc_wf_def error_wf)

lemma sem_take_wf:
  assumes "ipc_wf s" "caller s t" "rt_sem_take i time s = Some (r, s')"
  shows "ipc_wf s'"
proof -
  obtain sm where sm: "sems s i = Some sm"
    using assms(3) by (auto simp: rt_sem_take_def split: option.splits)
  consider "sem_value sm > 0" | "sem_value sm = 0" "time = 0" | "sem_value sm = 0" "time \<noteq> 0"
    using word_neq_0_conv by blast
  then show ?thesis
  proof cases
    case 1
    then have "waiting (kern s) i = []"
      using assms(1) sm by (auto simp: ipc_wf_def)
    then show ?thesis
      using assms sm 1 ipc_disjoint(1) [OF assms(1), of i] by (auto simp: rt_sem_take_def intro!: ipc_wf_sem)
  next
    case 2
    then show ?thesis
      using assms sm by (auto simp: rt_sem_take_def)
  next
    case 3
    let ?k = "set_error t RT_EOK (kern s)"
    obtain k where b: "block_on i t (sem_flag sm) time ?k = Some (r, k)" "s' = s\<lparr>kern := k\<rparr>"
      using assms(2,3) sm 3 by (auto simp: rt_sem_take_def caller_def split: Option.bind_splits)
    have "sched_wf ?k" "rt_current_thread ?k = Some t" "stat (threads ?k t) = RT_THREAD_RUNNING"
      using assms(1,2) error_wf by (simp_all add: ipc_wf_def caller_def)
    note law = block_on_law [OF this b(1)]
    have "mutexes s i = None"
      using ipc_disjoint(1) [OF assms(1)] sm by simp
    then show ?thesis
      unfolding b(2) using law 3 sm by (intro ipc_wf_block [OF assms(1), of _ i t]) simp_all
  qed
qed

lemma list_resume_shrinks:
  assumes "sched_wf k" "rt_ipc_list_resume i k = Some k'"
  shows "sched_wf k'" "\<And>j. set (waiting k' j) \<subseteq> set (waiting k j)" "\<And>u. u = hd (waiting k i) \<Longrightarrow> u \<notin> set (waiting k' j)"
proof -
  obtain t ws r where t: "waiting k i = t # ws" "rt_thread_resume t k = Some (r, k')"
    using assms(2) by (auto simp: rt_ipc_list_resume_def split: list.splits)
  have "stat (threads k t) = RT_THREAD_SUSPEND"
    using assms(1) t(1) queues_okD(5) [of "{}" k t i] by (simp add: sched_wf_def)
  then show "sched_wf k'" "\<And>j. set (waiting k' j) \<subseteq> set (waiting k j)" "\<And>u. u = hd (waiting k i) \<Longrightarrow> u \<notin> set (waiting k' j)"
    using resume_wf [OF assms(1) t(2)] resume_waiting [OF t(2)] t(1) by auto
qed

lemma list_resume_first:
  assumes "sched_wf k" "rt_ipc_list_resume i k = Some k'" "waiting k i = u # us"
  shows "stat (threads k' u) \<in> {RT_THREAD_READY, RT_THREAD_RUNNING}" "current_priority (threads k' v) = current_priority (threads k v)"
proof -
  have "stat (threads k u) = RT_THREAD_SUSPEND"
    using assms(1,3) queues_okD(5) [of "{}" k u i] by (simp add: sched_wf_def)
  then show "stat (threads k' u) \<in> {RT_THREAD_READY, RT_THREAD_RUNNING}" "current_priority (threads k' v) = current_priority (threads k v)"
    using assms(2,3) by (auto simp: rt_ipc_list_resume_def rt_thread_resume_def split: Option.bind_splits dest!: timer_stop_simps)
qed

lemma sem_release_wf:
  assumes "ipc_wf s" "rt_sem_release i s = Some (r, s')"
  shows "ipc_wf s'"
proof -
  obtain sm where sm: "sems s i = Some sm"
    using assms(2) by (auto simp: rt_sem_release_def split: option.splits)
  show ?thesis
  proof (cases "waiting (kern s) i = []")
    case True
    then show ?thesis
      using assms sm ipc_disjoint(1) [OF assms(1), of i] by (auto simp: rt_sem_release_def intro!: ipc_wf_sem split: if_splits)
  next
    case False
    obtain k1 k2 where k: "rt_ipc_list_resume i (kern s) = Some k1" "rt_schedule k1 = Some k2" "s' = s\<lparr>kern := k2\<rparr>"
      using assms(2) sm False by (auto simp: rt_sem_release_def split: Option.bind_splits)
    have "sched_wf (kern s)" using assms(1) by (simp add: ipc_wf_def)
    note law = list_resume_shrinks [OF this k(1)] and sch = schedule_law [OF _ k(2)]
    show ?thesis
      unfolding k(3) by (rule ipc_wf_kern [OF assms(1)]) (use law sch in auto)
  qed
qed

lemma hold_up: "(h :: u8) < 0xFF \<Longrightarrow> h + 1 \<noteq> 0"
proof
  assume h: "h < 0xFF" "h + 1 = 0"
  then have "h = - 1"
    by (simp add: eq_neg_iff_add_eq_0)
  then show False
    using h(1) by simp
qed

lemma caller_priority:
  assumes "ipc_wf s" "caller s t"
  shows "priority (kern s) t < 32"
  using assms queues_okD(4) [of "{}" "kern s" t] by (simp add: ipc_wf_def sched_wf_def priority_ok_def caller_def)

text \<open>A thread that has to wait first raises the owner to its own priority.\<close>

lemma mutex_take_blocks:
  assumes "ipc_wf s" "caller s t" "mutexes s i = Some m" "owner m = Some w" "w \<noteq> t" "time \<noteq> 0" "rt_mutex_take i time s = Some (r, s')"
  obtains k1 k2 where "block_on i t (mutex_flag m) time k1 = Some (r, k2)" "s' = s\<lparr>kern := k2\<rparr>" "sched_wf k1" "waiting k1 = waiting (kern s)"
    "rt_current_thread k1 = Some t" "stat (threads k1 t) = RT_THREAD_RUNNING"
    "\<And>u. current_priority (threads k1 u) = (if u = w then min (current_priority (threads (kern s) t)) (current_priority (threads (kern s) w))
       else current_priority (threads (kern s) u))"
proof -
  have c: "rt_current_thread (kern s) = Some t" "stat (threads (kern s) t) = RT_THREAD_RUNNING" "priority (kern s) t < 32"
    using assms(2) caller_priority [OF assms(1,2)] by (simp_all add: caller_def)
  define k0 where "k0 = set_error t RT_EOK (kern s)"
  define k1 where "k1 = (if current_priority (threads k0 t) < current_priority (threads k0 w)
    then change_priority w (current_priority (threads k0 t)) k0 else k0)"
  have w0: "sched_wf k0"
    using assms(1) error_wf by (simp add: k0_def ipc_wf_def)
  have v: "mutex_value m = 0"
    using assms(1,3,4) unfolding ipc_wf_def mutex_ok_def by force
  obtain k2 where k2: "block_on i t (mutex_flag m) time k1 = Some (r, k2)" "s' = s\<lparr>kern := k2\<rparr>"
    using assms(3-7) c(1) v unfolding rt_mutex_take_def Let_def k1_def k0_def
    by (simp cong: if_cong split: Option.bind_splits prod.splits)
  have same: "waiting k0 = waiting (kern s)" "rt_current_thread k0 = Some t" "\<And>u. stat (threads k0 u) = stat (threads (kern s) u)"
    "\<And>u. current_priority (threads k0 u) = current_priority (threads (kern s) u)"
    using c(1) by (auto simp: k0_def)
  have "sched_wf k1" "waiting k1 = waiting (kern s)" "rt_current_thread k1 = Some t" "stat (threads k1 t) = RT_THREAD_RUNNING"
    using change_priority_wf [OF w0] change_priority_same [OF w0] c(2,3) w0 same by (auto simp: k1_def)
  moreover have "current_priority (threads k1 u) = (if u = w then min (current_priority (threads (kern s) t)) (current_priority (threads (kern s) w))
       else current_priority (threads (kern s) u))" for u
    using change_priority_same(5) [OF w0] same(4) by (auto simp: k1_def min_def)
  ultimately show ?thesis
    using that k2 by blast
qed

lemma mutex_take_free:
  assumes "ipc_wf s" "caller s t" "mutexes s i = Some m" "owner m = None \<or> owner m = Some t" "rt_mutex_take i time s = Some (r, s')"
  shows "\<exists>m'. s' = s\<lparr>kern := set_error t RT_EOK (kern s), mutexes := (mutexes s)(i \<mapsto> m')\<rparr> \<and> mutex_ok (waiting (kern s) i) m' \<and> owner m' = Some t"
proof -
  have ok: "mutex_ok (waiting (kern s) i) m"
    using assms(1,3) by (simp add: ipc_wf_def)
  have c: "rt_current_thread (kern s) = Some t"
    using assms(2) by (simp add: caller_def)
  from assms(4) show ?thesis
  proof
    assume None: "owner m = None"
    let ?m = "m\<lparr>mutex_value := 0, owner := Some t, original_priority := current_priority (threads (kern s) t), hold := 1\<rparr>"
    have free: "mutex_value m = 1" "hold m = 0" "waiting (kern s) i = []"
      using ok None by (simp_all add: mutex_ok_def)
    have "s' = s\<lparr>kern := set_error t RT_EOK (kern s), mutexes := (mutexes s)(i \<mapsto> ?m)\<rparr>"
      using assms(3,5) c None free by (auto simp: rt_mutex_take_def Let_def)
    moreover have "mutex_ok (waiting (kern s) i) ?m"
      using free caller_priority [OF assms(1,2)] by (simp add: mutex_ok_def)
    ultimately show ?thesis
      by (intro exI [of _ ?m]) simp
  next
    assume own: "owner m = Some t"
    let ?m = "if hold m < RT_MUTEX_HOLD_MAX then m\<lparr>hold := hold m + 1\<rparr> else m"
    have "s' = s\<lparr>kern := set_error t RT_EOK (kern s), mutexes := (mutexes s)(i \<mapsto> ?m)\<rparr>"
      using assms(3,5) c own by (auto simp: rt_mutex_take_def Let_def fun_upd_idem)
    moreover have "mutex_ok (waiting (kern s) i) ?m"
      using hold_up ok own by (simp add: mutex_ok_def)
    ultimately show ?thesis
      using own by (intro exI [of _ ?m]) simp
  qed
qed

lemma mutex_take_wf:
  assumes "ipc_wf s" "caller s t" "rt_mutex_take i time s = Some (r, s')"
  shows "ipc_wf s'"
proof -
  obtain m where m: "mutexes s i = Some m"
    using assms(3) by (auto simp: rt_mutex_take_def split: Option.bind_splits)
  have c: "rt_current_thread (kern s) = Some t"
    using assms(2) by (simp add: caller_def)
  consider (free) "owner m = None \<or> owner m = Some t" | (busy) w where "owner m = Some w" "w \<noteq> t"
    by (cases "owner m") auto
  then show ?thesis
  proof cases
    case free
    obtain m' where "s' = (s\<lparr>kern := set_error t RT_EOK (kern s)\<rparr>)\<lparr>mutexes := (mutexes s)(i \<mapsto> m')\<rparr>" "mutex_ok (waiting (kern s) i) m'"
      using mutex_take_free [OF assms(1,2) m free assms(3)] by auto
    then show ?thesis
      using ipc_wf_mutex [OF ipc_wf_error [OF assms(1), of t RT_EOK], of i m'] ipc_disjoint(2) [OF assms(1), of i] m by simp
  next
    case busy
    show ?thesis
    proof (cases "time = 0")
      case True
      have "mutex_value m = 0"
        using assms(1) m busy(1) unfolding ipc_wf_def mutex_ok_def by force
      then show ?thesis
        using assms(3) m c busy True ipc_wf_error [OF assms(1)] by (auto simp: rt_mutex_take_def Let_def)
    next
      case False
      obtain k1 k2 where k2: "block_on i t (mutex_flag m) time k1 = Some (r, k2)" "s' = s\<lparr>kern := k2\<rparr>"
        and k1: "sched_wf k1" "waiting k1 = waiting (kern s)" "rt_current_thread k1 = Some t" "stat (threads k1 t) = RT_THREAD_RUNNING"
        using mutex_take_blocks [OF assms(1,2) m busy False assms(3)] by metis
      note law = block_on_law [OF k1(1,3,4) k2(1)]
      show ?thesis
        unfolding k2(2) using law k1(2) ipc_disjoint(2) [OF assms(1), of i] m busy
        by (intro ipc_wf_block [OF assms(1), of _ i t]) simp_all
    qed
  qed
qed

text \<open>The last release gives the owner its priority back, and the mutex to the first waiter, if there is one.\<close>

lemma mutex_release_last:
  assumes "ipc_wf s" "mutexes s i = Some m" "rt_current_thread (kern s) = Some t" "owner m = Some t" "hold m = 1" "rt_mutex_release i s = Some (r, s')"
  obtains k1 where "sched_wf k1" "waiting k1 = waiting (kern s)" "rt_current_thread k1 = Some t"
    "\<And>u. current_priority (threads k1 u) = (if u = t then original_priority m else current_priority (threads (kern s) u))"
    "(case waiting k1 i of
        [] \<Rightarrow> s' = s\<lparr>kern := k1, mutexes := (mutexes s)(i \<mapsto> m\<lparr>hold := 0, mutex_value := 1, owner := None, original_priority := 0xFF\<rparr>)\<rparr>
      | u # us \<Rightarrow> \<exists>k2 k3. rt_ipc_list_resume i k1 = Some k2 \<and> rt_schedule k2 = Some k3 \<and>
          s' = s\<lparr>kern := k3, mutexes := (mutexes s)(i \<mapsto> m\<lparr>owner := Some u, original_priority := current_priority (threads (kern s) u), hold := 1\<rparr>)\<rparr>)"
    "r = RT_EOK"
proof -
  have w: "sched_wf (kern s)" and ok: "mutex_ok (waiting (kern s) i) m"
    using assms(1,2) by (simp_all add: ipc_wf_def)
  then have own: "mutex_value m = 0" "t \<notin> set (waiting (kern s) i)" "unat (original_priority m) < 32"
    using assms(4) by (simp_all add: mutex_ok_def)
  define k1 where "k1 = (if original_priority m = current_priority (threads (kern s) t)
    then kern s else change_priority t (original_priority m) (kern s))"
  have k1: "sched_wf k1" "waiting k1 = waiting (kern s)" "rt_current_thread k1 = Some t"
    "\<And>u. current_priority (threads k1 u) = (if u = t then original_priority m else current_priority (threads (kern s) u))"
    using change_priority_wf [OF w own(3)] change_priority_same [OF w] w assms(3) by (auto simp: k1_def)
  have fold: "(if original_priority (m\<lparr>hold := hold m - 1\<rparr>) \<noteq> current_priority (threads (kern s) t)
      then change_priority t (original_priority (m\<lparr>hold := hold m - 1\<rparr>)) (kern s) else kern s) = k1"
    by (simp add: k1_def)
  have first: "current_priority (threads k1 u) = current_priority (threads (kern s) u)" if "waiting k1 i = u # us" for u us
    using that k1(2,4) own(2) by auto
  have "r = RT_EOK \<and> (case waiting k1 i of
        [] \<Rightarrow> s' = s\<lparr>kern := k1, mutexes := (mutexes s)(i \<mapsto> m\<lparr>hold := 0, mutex_value := 1, owner := None, original_priority := 0xFF\<rparr>)\<rparr>
      | u # us \<Rightarrow> \<exists>k2 k3. rt_ipc_list_resume i k1 = Some k2 \<and> rt_schedule k2 = Some k3 \<and>
          s' = s\<lparr>kern := k3, mutexes := (mutexes s)(i \<mapsto> m\<lparr>owner := Some u, original_priority := current_priority (threads k1 u), hold := 1\<rparr>)\<rparr>)"
    using assms(6) assms(4,5) own(1) unfolding rt_mutex_release_def Let_def assms(2,3) bind.simps fold
    by (cases "waiting k1 i") (auto split: Option.bind_splits)
  then show ?thesis
    using that k1 first by (cases "waiting k1 i") simp_all
qed

lemma waiter_priority:
  assumes "ipc_wf s" "u \<in> set (waiting (kern s) i)"
  shows "priority (kern s) u < 32"
proof -
  have q: "queues_ok {} (kern s)"
    using assms(1) by (simp add: ipc_wf_def sched_wf_def)
  have "priority_ok (threads (kern s) u)"
    by (rule queues_okD(4) [OF q]) (use queues_okD(5) [OF q assms(2)] in simp_all)
  then show ?thesis by (simp add: priority_ok_def)
qed

lemma mutex_release_wf:
  assumes "ipc_wf s" "rt_mutex_release i s = Some (r, s')"
  shows "ipc_wf s'"
proof -
  obtain m t where m: "mutexes s i = Some m" and c: "rt_current_thread (kern s) = Some t"
    using assms(2) by (auto simp: rt_mutex_release_def split: Option.bind_splits)
  have ok: "mutex_ok (waiting (kern s) i) m" and no_sem: "sems s i = None"
    using assms(1) m ipc_disjoint(2) [OF assms(1), of i] by (simp_all add: ipc_wf_def)
  show ?thesis
  proof (cases "owner m = Some t \<and> hold m = 1")
    case False
    then have "s' = s\<lparr>kern := set_error t (- RT_ERROR) (kern s)\<rparr> \<or>
        s' = s\<lparr>mutexes := (mutexes s)(i \<mapsto> m\<lparr>hold := hold m - 1\<rparr>)\<rparr> \<and> owner m = Some t \<and> hold m - 1 \<noteq> 0"
      using assms(2) m c by (auto simp: rt_mutex_release_def Let_def split: if_splits)
    then show ?thesis
      using ipc_wf_error [OF assms(1)] ipc_wf_mutex [OF assms(1), of i "m\<lparr>hold := hold m - 1\<rparr>"] no_sem ok by (auto simp: mutex_ok_def)
  next
    case True
    obtain k1 where k1: "sched_wf k1" "waiting k1 = waiting (kern s)" and out: "(case waiting k1 i of
        [] \<Rightarrow> s' = s\<lparr>kern := k1, mutexes := (mutexes s)(i \<mapsto> m\<lparr>hold := 0, mutex_value := 1, owner := None, original_priority := 0xFF\<rparr>)\<rparr>
      | u # us \<Rightarrow> \<exists>k2 k3. rt_ipc_list_resume i k1 = Some k2 \<and> rt_schedule k2 = Some k3 \<and>
          s' = s\<lparr>kern := k3, mutexes := (mutexes s)(i \<mapsto> m\<lparr>owner := Some u, original_priority := current_priority (threads (kern s) u), hold := 1\<rparr>)\<rparr>)"
      by (rule mutex_release_last [OF assms(1) m c conjunct1 [OF True] conjunct2 [OF True] assms(2)])
    show ?thesis
    proof (cases "waiting k1 i")
      case Nil
      have "ipc_wf (s\<lparr>kern := k1\<rparr>)"
        using k1 by (intro ipc_wf_kern [OF assms(1)]) simp_all
      then show ?thesis
        using out Nil no_sem ipc_wf_mutex [of "s\<lparr>kern := k1\<rparr>" i] by (simp add: mutex_ok_def)
    next
      case (Cons u us)
      then obtain k2 k3 where k: "rt_ipc_list_resume i k1 = Some k2" "rt_schedule k2 = Some k3"
        and s': "s' = s\<lparr>kern := k3, mutexes := (mutexes s)(i \<mapsto> m\<lparr>owner := Some u, original_priority := current_priority (threads (kern s) u), hold := 1\<rparr>)\<rparr>"
        using out by auto
      note law = list_resume_shrinks [OF k1(1) k(1)]
      have k3: "sched_wf k3" "waiting k3 = waiting k2"
        using schedule_law [OF law(1) k(2)] by simp_all
      have "ipc_wf (s\<lparr>kern := k3\<rparr>)"
        by (rule ipc_wf_kern [OF assms(1)]) (use k3 law(2) k1(2) in auto)
      moreover have "priority (kern s) u < 32"
        using waiter_priority [OF assms(1), of u i] Cons k1(2) by simp
      moreover have "u \<notin> set (waiting k3 i)"
        using law(3) [of u i] Cons k3(2) by simp
      ultimately show ?thesis
        using no_sem ok True ipc_wf_mutex [of "s\<lparr>kern := k3\<rparr>" i] by (simp add: s' mutex_ok_def)
    qed
  qed
qed

lemma resume_all_keeps:
  assumes "sched_wf k" "resume_all_loop fuel i k = Some k'"
  shows "sched_wf k' \<and> waiting k' i = [] \<and> (\<forall>j. set (waiting k' j) \<subseteq> set (waiting k j))"
  using assms
proof (induction fuel arbitrary: k)
  case (Suc fuel)
  show ?case
  proof (cases "waiting k i")
    case Nil
    then show ?thesis using Suc.prems by simp
  next
    case (Cons t ws)
    then obtain r k1 where k1: "rt_thread_resume t (set_error t (- RT_ERROR) k) = Some (r, k1)" "resume_all_loop fuel i k1 = Some k'"
      using Suc.prems(2) by (auto split: Option.bind_splits)
    have "sched_wf k1"
      by (rule resume_wf [OF error_wf [OF Suc.prems(1)] k1(1)])
    moreover have "set (waiting k1 j) \<subseteq> set (waiting k j)" for j
      using resume_waiting [OF k1(1), of j] by (auto split: if_splits)
    ultimately show ?thesis
      using Suc.IH [OF _ k1(2)] by blast
  qed
qed simp

lemma resume_all_wf:
  assumes "ipc_wf s" "rt_ipc_list_resume_all i (kern s) = Some k"
  shows "ipc_wf (s\<lparr>kern := k\<rparr>)" "waiting k i = []" "sched_wf k"
proof -
  have "sched_wf (kern s)" using assms(1) by (simp add: ipc_wf_def)
  note law = resume_all_keeps [OF this assms(2) [unfolded rt_ipc_list_resume_all_def]]
  then show "waiting k i = []" "sched_wf k" by simp_all
  show "ipc_wf (s\<lparr>kern := k\<rparr>)"
    by (rule ipc_wf_kern [OF assms(1)]) (use law in auto)
qed

lemma sem_control_wf:
  assumes "ipc_wf s" "rt_sem_control i reset s = Some (r, s')"
  shows "ipc_wf s'"
proof (cases reset)
  case None
  then show ?thesis using assms by (auto simp: rt_sem_control_def split: option.splits)
next
  case (Some v)
  obtain sm k1 k2 where sm: "sems s i = Some sm" and k: "rt_ipc_list_resume_all i (kern s) = Some k1" "rt_schedule k1 = Some k2"
    and s': "s' = s\<lparr>kern := k2, sems := (sems s)(i \<mapsto> sm\<lparr>sem_value := ucast v\<rparr>)\<rparr>"
    using assms(2) Some by (auto simp: rt_sem_control_def split: option.splits Option.bind_splits)
  note law = resume_all_wf [OF assms(1) k(1)] and sch = schedule_law [OF _ k(2)]
  have "ipc_wf (s\<lparr>kern := k2\<rparr>)"
    using ipc_wf_kern [OF law(1), of k2] law(3) sch by simp
  then show ?thesis
    using ipc_wf_sem [of "s\<lparr>kern := k2\<rparr>" i] ipc_disjoint(1) [OF assms(1), of i] sm law sch by (simp add: s')
qed

datatype ipc_op = Sem_Init nat u32 ipc_flag | Sem_Take nat int | Sem_Release nat | Sem_Control nat "u32 option" | Sem_Detach nat
  | Mutex_Init nat ipc_flag | Mutex_Take nat int | Mutex_Release nat | Mutex_Detach nat | Kernel kernel_op

fun ipc_step :: "ipc_op \<Rightarrow> ipc_sys \<Rightarrow> ipc_sys option" where
  "ipc_step (Sem_Init i v flg) s = rt_sem_init i v flg s"
| "ipc_step (Sem_Take i time) s = map_option snd (rt_sem_take i time s)"
| "ipc_step (Sem_Release i) s = map_option snd (rt_sem_release i s)"
| "ipc_step (Sem_Control i reset) s = map_option snd (rt_sem_control i reset s)"
| "ipc_step (Sem_Detach i) s = rt_sem_detach i s"
| "ipc_step (Mutex_Init i flg) s = Some (rt_mutex_init i flg s)"
| "ipc_step (Mutex_Take i time) s = map_option snd (rt_mutex_take i time s)"
| "ipc_step (Mutex_Release i) s = map_option snd (rt_mutex_release i s)"
| "ipc_step (Mutex_Detach i) s = rt_mutex_detach i s"
| "ipc_step (Kernel op) s = map_option (\<lambda>k. s\<lparr>kern := k\<rparr>) (kernel_step op (kern s))"

text \<open>A take is called by a running thread, and an object is initialised where there is none.\<close>

definition caller_runs :: "ipc_sys \<Rightarrow> bool" where
  "caller_runs s \<longleftrightarrow> (case rt_current_thread (kern s) of None \<Rightarrow> False | Some t \<Rightarrow> stat (threads (kern s) t) = RT_THREAD_RUNNING)"

fun ipc_op_ok :: "ipc_op \<Rightarrow> ipc_sys \<Rightarrow> bool" where
  "ipc_op_ok (Sem_Init i v flg) s = (sems s i = None \<and> mutexes s i = None \<and> waiting (kern s) i = [])"
| "ipc_op_ok (Mutex_Init i flg) s = (sems s i = None \<and> mutexes s i = None \<and> waiting (kern s) i = [])"
| "ipc_op_ok (Sem_Take i time) s = caller_runs s"
| "ipc_op_ok (Mutex_Take i time) s = caller_runs s"
| "ipc_op_ok (Kernel op) s = op_ok op (kern s)"
| "ipc_op_ok _ s = True"

lemma ipc_init_wf:
  assumes "ipc_wf s" "sems s i = None" "mutexes s i = None" "waiting (kern s) i = []"
  shows "rt_sem_init i v flg s = Some s' \<Longrightarrow> ipc_wf s'" "ipc_wf (rt_mutex_init i flg s)"
proof -
  have w: "(waiting (kern s))(i := []) = waiting (kern s)"
    using assms(4) by (simp add: fun_upd_idem)
  show "rt_sem_init i v flg s = Some s' \<Longrightarrow> ipc_wf s'"
    using ipc_wf_sem [OF assms(1,3,4)] by (auto simp: rt_sem_init_def w split: if_splits)
  show "ipc_wf (rt_mutex_init i flg s)"
    using ipc_wf_mutex [OF assms(1,2)] assms(4) by (simp add: rt_mutex_init_def w mutex_ok_def)
qed

lemma ipc_detach_wf:
  assumes "ipc_wf s"
  shows "rt_sem_detach i s = Some s' \<Longrightarrow> ipc_wf s'" "rt_mutex_detach i s = Some s' \<Longrightarrow> ipc_wf s'"
proof -
  have drop: "ipc_wf (s\<lparr>kern := k, sems := (sems s)(i := None)\<rparr>)" "ipc_wf (s\<lparr>kern := k, mutexes := (mutexes s)(i := None)\<rparr>)"
    if "rt_ipc_list_resume_all i (kern s) = Some k" for k
    using resume_all_wf(1) [OF assms that] unfolding ipc_wf_def by simp_all
  show "rt_sem_detach i s = Some s' \<Longrightarrow> ipc_wf s'" "rt_mutex_detach i s = Some s' \<Longrightarrow> ipc_wf s'"
    using drop by (auto simp: rt_sem_detach_def rt_mutex_detach_def split: option.splits)
qed

text \<open>C12: the kernel with its semaphores and mutexes stays consistent under every operation that returns, in
  whatever order threads and interrupts issue them: the scheduler's invariant holds, a semaphore with
  a value has no waiters, and a mutex is either free, with value 1 and no waiters, or held by exactly
  one thread, which does not wait for it, with value 0 and its hold count.\<close>

theorem ipc_step_wf:
  assumes "ipc_wf s" "ipc_op_ok op s" "ipc_step op s = Some s'"
  shows "ipc_wf s'"
proof -
  have kern: "sched_wf (kern s)" using assms(1) by (simp add: ipc_wf_def)
  have c: "\<exists>t. caller s t" if "caller_runs s"
    using that by (auto simp: caller_runs_def caller_def split: option.splits)
  show ?thesis
  proof (cases op)
    case (Sem_Take i time)
    then show ?thesis using assms(2,3) c sem_take_wf [OF assms(1)] by auto
  next
    case (Mutex_Take i time)
    then show ?thesis using assms(2,3) c mutex_take_wf [OF assms(1)] by auto
  next
    case (Kernel kop)
    then obtain k where k: "kernel_step kop (kern s) = Some k" "s' = s\<lparr>kern := k\<rparr>" using assms(3) by auto
    then show ?thesis
      using assms(2) Kernel kernel_step_wf [OF kern _ k(1)] kernel_shrinks [OF k(1)] by (auto intro: ipc_wf_kern [OF assms(1)])
  next
    case (Sem_Release i)
    then show ?thesis using assms(3) sem_release_wf [OF assms(1)] by auto
  next
    case (Mutex_Release i)
    then show ?thesis using assms(3) mutex_release_wf [OF assms(1)] by auto
  next
    case (Sem_Control i reset)
    then show ?thesis using assms(3) sem_control_wf [OF assms(1)] by auto
  next
    case (Sem_Init i v flg)
    then show ?thesis using assms(2,3) ipc_init_wf(1) [OF assms(1), of i v flg s'] by simp
  next
    case (Mutex_Init i flg)
    then show ?thesis using assms(2,3) ipc_init_wf(2) [OF assms(1)] by auto
  next
    case (Sem_Detach i)
    then show ?thesis using assms(3) ipc_detach_wf(1) [OF assms(1)] by simp
  next
    case (Mutex_Detach i)
    then show ?thesis using assms(3) ipc_detach_wf(2) [OF assms(1)] by simp
  qed
qed

definition demo_ipc :: ipc_sys where
  "demo_ipc = \<lparr>kern = demo_waiters, sems = [8 \<mapsto> \<lparr>sem_value = 2, sem_flag = RT_IPC_FLAG_FIFO\<rparr>],
     mutexes = [7 \<mapsto> \<lparr>mutex_value = 0, original_priority = 10, hold = 1, owner = Some 1, mutex_flag = RT_IPC_FLAG_PRIO\<rparr>]\<rparr>"

lemma demo_ipc_wf: "ipc_wf demo_ipc"
  using demo_waiters_wf by (auto simp: ipc_wf_def demo_ipc_def demo_waiters_def mutex_ok_def split: if_splits)

theorem ipc_step_wf_witness: "\<exists>s'. ipc_step (Sem_Take 8 (- 1)) demo_ipc = Some s' \<and> ipc_wf s'"
proof -
  obtain s' where s': "ipc_step (Sem_Take 8 (- 1)) demo_ipc = Some s'"
    by (simp add: demo_ipc_def rt_sem_take_def)
  have "ipc_op_ok (Sem_Take 8 (- 1)) demo_ipc"
    by (simp add: caller_runs_def demo_ipc_def demo_waiters_def demo_sched_def demo_thread_def)
  from ipc_step_wf [OF demo_ipc_wf this s'] s' show ?thesis by blast
qed

section \<open>Priority inheritance\<close>

text \<open>C14: a thread that has to wait for a mutex joins its waiting list and raises the owner to its own
  priority if that is higher; every other priority and the mutex stay as they are.\<close>

theorem mutex_take_inherits:
  assumes "ipc_wf s" "rt_current_thread (kern s) = Some t" "stat (threads (kern s) t) = RT_THREAD_RUNNING"
    and "mutexes s i = Some m" "owner m = Some w" "w \<noteq> t" "time \<noteq> 0" "rt_mutex_take i time s = Some (r, s')"
  shows "t \<in> set (waiting (kern s') i) \<and> mutexes s' = mutexes s \<and>
    current_priority (threads (kern s') w) = min (current_priority (threads (kern s) t)) (current_priority (threads (kern s) w)) \<and>
    (\<forall>u. u \<noteq> w \<longrightarrow> current_priority (threads (kern s') u) = current_priority (threads (kern s) u))"
proof -
  have c: "caller s t"
    using assms(2,3) by (simp add: caller_def)
  obtain k1 k2 where k2: "block_on i t (mutex_flag m) time k1 = Some (r, k2)" "s' = s\<lparr>kern := k2\<rparr>"
    and k1: "sched_wf k1" "rt_current_thread k1 = Some t" "stat (threads k1 t) = RT_THREAD_RUNNING"
    and prio: "\<And>u. current_priority (threads k1 u) = (if u = w then min (current_priority (threads (kern s) t)) (current_priority (threads (kern s) w))
       else current_priority (threads (kern s) u))"
    using mutex_take_blocks [OF assms(1) c assms(4-8)] by metis
  show ?thesis
    using block_on_law(2,4) [OF k1 k2(1)] prio by (simp add: k2(2))
qed

text \<open>C15: the last release of a mutex by its owner returns 0, gives the owner back the priority it had when
  it took the mutex, and hands the mutex to the first waiter, which is able to run and no longer
  waits; without waiters the mutex is free again.\<close>

theorem mutex_release_hands_over:
  assumes "ipc_wf s" "rt_current_thread (kern s) = Some t" "mutexes s i = Some m" "owner m = Some t" "hold m = 1"
    and "rt_mutex_release i s = Some (r, s')"
  shows "r = RT_EOK \<and> current_priority (threads (kern s') t) = original_priority m \<and>
    (case waiting (kern s) i of
       [] \<Rightarrow> mutexes s' i = Some (m\<lparr>hold := 0, mutex_value := 1, owner := None, original_priority := 0xFF\<rparr>)
     | u # us \<Rightarrow> mutexes s' i = Some (m\<lparr>owner := Some u, original_priority := current_priority (threads (kern s) u), hold := 1\<rparr>) \<and>
         u \<notin> set (waiting (kern s') i) \<and> stat (threads (kern s') u) \<in> {RT_THREAD_READY, RT_THREAD_RUNNING})"
proof -
  obtain k1 where k1: "sched_wf k1" "waiting k1 = waiting (kern s)" "rt_current_thread k1 = Some t"
    and prio: "\<And>u. current_priority (threads k1 u) = (if u = t then original_priority m else current_priority (threads (kern s) u))"
    and out: "(case waiting k1 i of
        [] \<Rightarrow> s' = s\<lparr>kern := k1, mutexes := (mutexes s)(i \<mapsto> m\<lparr>hold := 0, mutex_value := 1, owner := None, original_priority := 0xFF\<rparr>)\<rparr>
      | u # us \<Rightarrow> \<exists>k2 k3. rt_ipc_list_resume i k1 = Some k2 \<and> rt_schedule k2 = Some k3 \<and>
          s' = s\<lparr>kern := k3, mutexes := (mutexes s)(i \<mapsto> m\<lparr>owner := Some u, original_priority := current_priority (threads (kern s) u), hold := 1\<rparr>)\<rparr>)"
    and r: "r = RT_EOK"
    by (rule mutex_release_last [OF assms(1,3,2,4-6)]) (rule that; assumption)
  show ?thesis
  proof (cases "waiting (kern s) i")
    case Nil
    then show ?thesis using out r prio [of t] k1(2) by simp
  next
    case (Cons u us)
    then obtain k2 k3 where k: "rt_ipc_list_resume i k1 = Some k2" "rt_schedule k2 = Some k3"
      and s': "s' = s\<lparr>kern := k3, mutexes := (mutexes s)(i \<mapsto> m\<lparr>owner := Some u, original_priority := current_priority (threads (kern s) u), hold := 1\<rparr>)\<rparr>"
      using out k1(2) by auto
    have u: "waiting k1 i = u # us" using Cons k1(2) by simp
    note law = list_resume_shrinks [OF k1(1) k(1)] and first = list_resume_first [OF k1(1) k(1) u]
    have "switches k2 k3" "waiting k3 = waiting k2"
      using schedule_law [OF law(1) k(2)] by simp_all
    then show ?thesis
      using first law(3) [of u i] prio [of t] u Cons r by (simp add: s' switches_def)
  qed
qed

text \<open>Neither call runs into an assertion: the threads' timers exist, and another thread can run.\<close>

lemma list_suspend_returns:
  assumes "rt_current_thread k = Some t" "stat (threads k t) = RT_THREAD_RUNNING" "timers (tmr k) t \<noteq> None"
  shows "\<exists>k'. rt_ipc_list_suspend i t flg k = Some k'"
  using assms timer_stop_exists [OF assms(3)] by (auto simp: rt_ipc_list_suspend_def rt_thread_suspend_def thread_timer_stop_def)

lemma block_on_returns:
  assumes "sched_wf k" "rt_current_thread k = Some t" "stat (threads k t) = RT_THREAD_RUNNING" "timers (tmr k) t \<noteq> None"
    and "rt_scheduler_lock_nest k = 0" "runnable k u" "u \<noteq> t" "time < 0"
  shows "\<exists>r k'. block_on i t flg time k = Some (r, k')"
proof -
  obtain k1 where k1: "rt_ipc_list_suspend i t flg k = Some k1"
    using list_suspend_returns [OF assms(2-4)] by blast
  note law = list_suspend_law [OF assms(1-3) k1]
  have "runnable k1 u"
    using assms(6,7) law(7) [of u] by (simp add: runnable_def)
  moreover have q: "queues_ok {} k1" "current_ok k1"
    using law(1) by (simp_all add: sched_wf_def)
  ultimately have "rt_thread_ready_priority_group k1 \<noteq> 0"
    using no_ready [OF q(1), of u] current_okD(1) [OF q(2) law(4), of u] assms(7) by (auto simp: runnable_def)
  then obtain k2 where "rt_schedule k1 = Some k2"
    using schedule_best [OF law(1) _ law(4)] law(6) assms(5) by auto
  then show ?thesis
    using k1 assms(8) by (auto simp: block_on_def)
qed

lemma list_resume_returns:
  assumes "sched_wf k" "waiting k i = u # us" "timers (tmr k) u \<noteq> None" "rt_current_thread k = Some t" "stat (threads k t) = RT_THREAD_RUNNING"
    and "rt_scheduler_lock_nest k = 0"
  shows "\<exists>k1 k2. rt_ipc_list_resume i k = Some k1 \<and> rt_schedule k1 = Some k2"
proof -
  have susp: "stat (threads k u) = RT_THREAD_SUSPEND"
    using assms(1,2) queues_okD(5) [of "{}" k u i] by (simp add: sched_wf_def)
  obtain r ts where ts: "rt_timer_stop u (tmr k) = Some (r, ts)"
    using timer_stop_exists [OF assms(3)] by blast
  define k1 where "k1 = rt_schedule_insert_thread u ((tlist_remove u k)\<lparr>tmr := ts\<rparr>)"
  have k1: "rt_ipc_list_resume i k = Some k1"
    using susp ts assms(2) by (simp add: rt_ipc_list_resume_def rt_thread_resume_def thread_timer_stop_def k1_def)
  have "rt_current_thread k1 = Some t" "stat (threads k1 t) = RT_THREAD_RUNNING" "rt_scheduler_lock_nest k1 = 0"
    using assms(4-6) susp by (auto simp: k1_def)
  then show ?thesis
    using schedule_best [OF list_resume_shrinks(1) [OF assms(1) k1]] k1 by blast
qed

lemma demo_release: "\<exists>r s'. rt_mutex_release 7 demo_ipc = Some (r, s')"
proof -
  have k: "sched_wf demo_waiters" "waiting demo_waiters 7 = 2 # [3]" "timers (tmr demo_waiters) 2 \<noteq> None" "rt_current_thread demo_waiters = Some 1"
    "stat (threads demo_waiters 1) = RT_THREAD_RUNNING" "rt_scheduler_lock_nest demo_waiters = 0" "current_priority (threads demo_waiters 1) = 10"
    using demo_waiters_wf by (simp_all add: demo_waiters_def demo_sched_def demo_timers_def demo_thread_def)
  then obtain k1 k2 where "rt_ipc_list_resume 7 demo_waiters = Some k1" "rt_schedule k1 = Some k2"
    using list_resume_returns by blast
  then show ?thesis
    using k(2,4,7) by (simp add: rt_mutex_release_def demo_ipc_def)
qed

theorem mutex_release_hands_over_witness:
  "\<exists>s'. rt_mutex_release 7 demo_ipc = Some (RT_EOK, s') \<and> current_priority (threads (kern s') 1) = 10 \<and>
     map_option owner (mutexes s' 7) = Some (Some 2) \<and> stat (threads (kern s') 2) \<in> {RT_THREAD_READY, RT_THREAD_RUNNING}"
proof -
  obtain r s' where s': "rt_mutex_release 7 demo_ipc = Some (r, s')"
    using demo_release by blast
  obtain m where m: "mutexes demo_ipc 7 = Some m" "owner m = Some 1" "hold m = 1" "original_priority m = 10"
    by (simp add: demo_ipc_def)
  have "rt_current_thread (kern demo_ipc) = Some 1" "waiting (kern demo_ipc) 7 = [2, 3]"
    by (simp_all add: demo_ipc_def demo_waiters_def demo_sched_def)
  then show ?thesis
    using mutex_release_hands_over [OF demo_ipc_wf _ m(1-3) s'] s' m(4) by auto
qed

lemma mutex_take_returns:
  assumes "ipc_wf s" "caller s t" "mutexes s i = Some m" "owner m = Some w" "w \<noteq> t" "time < 0"
    and "timers (tmr (kern s)) t \<noteq> None" "rt_scheduler_lock_nest (kern s) = 0" "runnable (kern s) u" "u \<noteq> t"
  shows "\<exists>r s'. rt_mutex_take i time s = Some (r, s')"
proof -
  have c: "rt_current_thread (kern s) = Some t" "stat (threads (kern s) t) = RT_THREAD_RUNNING" "priority (kern s) t < 32"
    using assms(2) caller_priority [OF assms(1,2)] by (simp_all add: caller_def)
  define k0 where "k0 = set_error t RT_EOK (kern s)"
  define k1 where "k1 = (if current_priority (threads k0 t) < current_priority (threads k0 w)
    then change_priority w (current_priority (threads k0 t)) k0 else k0)"
  have w0: "sched_wf k0"
    using assms(1) error_wf by (simp add: k0_def ipc_wf_def)
  have "tmr (change_priority x p k0) = tmr k0" for x p
    by (simp add: change_priority_def)
  then have k1: "sched_wf k1" "rt_current_thread k1 = Some t" "stat (threads k1 t) = RT_THREAD_RUNNING" "timers (tmr k1) t \<noteq> None"
    "rt_scheduler_lock_nest k1 = 0" "runnable k1 u"
    using change_priority_wf [OF w0] change_priority_same [OF w0] c w0 assms(7-9) by (auto simp: k1_def k0_def runnable_def)
  obtain r k2 where "block_on i t (mutex_flag m) time k1 = Some (r, k2)"
    using block_on_returns [OF k1 assms(10,6)] by blast
  moreover have "mutex_value m = 0" "owner m \<noteq> Some t" "time \<noteq> 0"
    using assms(1,3-6) unfolding ipc_wf_def mutex_ok_def by force+
  ultimately have "rt_mutex_take i time s = Some (r, s\<lparr>kern := k2\<rparr>)"
    using assms(3,4) c(1) unfolding rt_mutex_take_def Let_def k1_def k0_def by (simp cong: if_cong)
  then show ?thesis by blast
qed

text \<open>The idle thread holds the mutex that the running thread wants.\<close>

definition demo_held :: ipc_sys where
  "demo_held = \<lparr>kern = demo_sched, sems = Map.empty,
     mutexes = [7 \<mapsto> \<lparr>mutex_value = 0, original_priority = 31, hold = 1, owner = Some 0, mutex_flag = RT_IPC_FLAG_PRIO\<rparr>]\<rparr>"

theorem mutex_take_inherits_witness:
  "\<exists>r s'. rt_mutex_take 7 (- 1) demo_held = Some (r, s') \<and> 1 \<in> set (waiting (kern s') 7) \<and> current_priority (threads (kern s') 0) = 10"
proof -
  have wf: "ipc_wf demo_held"
    using demo_sched_wf by (auto simp: ipc_wf_def demo_held_def mutex_ok_def demo_sched_def split: if_splits)
  obtain m where m: "mutexes demo_held 7 = Some m" "owner m = Some 0"
    by (simp add: demo_held_def)
  have d: "rt_current_thread (kern demo_held) = Some 1" "stat (threads (kern demo_held) 1) = RT_THREAD_RUNNING"
    "timers (tmr (kern demo_held)) 1 \<noteq> None" "rt_scheduler_lock_nest (kern demo_held) = 0" "runnable (kern demo_held) 0"
    "current_priority (threads (kern demo_held) 1) = 10" "current_priority (threads (kern demo_held) 0) = 31"
    by (simp_all add: demo_held_def demo_sched_def demo_timers_def demo_thread_def runnable_def)
  then obtain r s' where "rt_mutex_take 7 (- 1) demo_held = Some (r, s')"
    using mutex_take_returns [OF wf _ m, of 1 "- 1" 0] by (auto simp: caller_def)
  then show ?thesis
    using mutex_take_inherits [OF wf d(1,2) m, of "- 1" r s'] d(6,7) by simp
qed

section \<open>The mutex of one thread\<close>

text \<open>Without contention a mutex is the hold count of the thread that uses it, which is how the stopwatch
  service sees its lock.\<close>

definition mutex_acquire :: "nat \<Rightarrow> ipc_sys \<Rightarrow> ipc_sys" where
  "mutex_acquire i s = snd (the (rt_mutex_take i (- 1) s))"

definition mutex_let_go :: "nat \<Rightarrow> ipc_sys \<Rightarrow> ipc_sys" where
  "mutex_let_go i s = snd (the (rt_mutex_release i s))"

definition mutex_depth :: "nat \<Rightarrow> nat \<Rightarrow> ipc_sys \<Rightarrow> nat" where
  "mutex_depth i t s = (case mutexes s i of None \<Rightarrow> 0 | Some m \<Rightarrow> if owner m = Some t then unat (hold m) else 0)"

definition uncontended :: "nat \<Rightarrow> nat \<Rightarrow> ipc_sys \<Rightarrow> bool" where
  "uncontended i t s \<longleftrightarrow> ipc_wf s \<and> caller s t \<and> waiting (kern s) i = [] \<and>
     (case mutexes s i of None \<Rightarrow> False | Some m \<Rightarrow> owner m = None \<or> owner m = Some t)"

lemma uncontended_acquire:
  assumes "uncontended i t s" "mutex_depth i t s < 255"
  shows "uncontended i t (mutex_acquire i s) \<and> mutex_depth i t (mutex_acquire i s) = mutex_depth i t s + 1"
proof -
  obtain m where m: "mutexes s i = Some m" "owner m = None \<or> owner m = Some t" and w: "ipc_wf s" "caller s t" "waiting (kern s) i = []"
    using assms(1) by (auto simp: uncontended_def split: option.splits)
  have c: "rt_current_thread (kern s) = Some t" "stat (threads (kern s) t) = RT_THREAD_RUNNING"
    using w(2) by (simp_all add: caller_def)
  have "mutex_ok (waiting (kern s) i) m"
    using w(1) m(1) by (simp add: ipc_wf_def)
  then have ok: "mutex_ok [] m"
    by (simp add: w(3))
  have small: "unat (hold m) < 255" if "owner m = Some t"
    using assms(2) m(1) that by (simp add: mutex_depth_def)
  define m' where "m' = (if owner m = Some t then m\<lparr>hold := hold m + 1\<rparr>
    else m\<lparr>mutex_value := 0, owner := Some t, original_priority := current_priority (threads (kern s) t), hold := 1\<rparr>)"
  define s' where "s' = s\<lparr>kern := set_error t RT_EOK (kern s), mutexes := (mutexes s)(i \<mapsto> m')\<rparr>"
  have take: "rt_mutex_take i (- 1) s = Some (Returned RT_EOK, s')"
    using m c ok small by (auto simp: rt_mutex_take_def Let_def s'_def m'_def mutex_ok_def word_less_nat_alt)
  have "unat (hold m + 1) = unat (hold m) + 1" if "owner m = Some t"
    using small [OF that] by (simp add: unat_word_ariths)
  then have "mutex_depth i t s' = mutex_depth i t s + 1"
    using m by (auto simp: mutex_depth_def s'_def m'_def)
  moreover have "uncontended i t s'"
    using mutex_take_wf [OF w(1,2) take] c w(3) by (auto simp: uncontended_def caller_def s'_def m'_def)
  ultimately show ?thesis
    by (simp add: mutex_acquire_def take)
qed

lemma uncontended_release:
  assumes "uncontended i t s" "0 < mutex_depth i t s"
  shows "uncontended i t (mutex_let_go i s) \<and> mutex_depth i t (mutex_let_go i s) = mutex_depth i t s - 1"
proof -
  obtain m where m: "mutexes s i = Some m" "owner m = Some t" and w: "ipc_wf s" "caller s t" "waiting (kern s) i = []"
    using assms by (auto simp: uncontended_def mutex_depth_def split: option.splits if_splits)
  have c: "rt_current_thread (kern s) = Some t" "stat (threads (kern s) t) = RT_THREAD_RUNNING"
    using w(2) by (simp_all add: caller_def)
  have "mutex_ok (waiting (kern s) i) m" and k: "sched_wf (kern s)"
    using w(1) m(1) by (simp_all add: ipc_wf_def)
  then have ok: "mutex_value m = 0" "hold m \<noteq> 0"
    using m(2) by (simp_all add: mutex_ok_def)
  define k1 where "k1 = (if original_priority m = current_priority (threads (kern s) t)
    then kern s else change_priority t (original_priority m) (kern s))"
  define s' where "s' = (if hold m = 1 then s\<lparr>kern := k1, mutexes := (mutexes s)(i \<mapsto> m\<lparr>hold := 0, mutex_value := 1, owner := None, original_priority := 0xFF\<rparr>)\<rparr>
    else s\<lparr>mutexes := (mutexes s)(i \<mapsto> m\<lparr>hold := hold m - 1\<rparr>)\<rparr>)"
  have k1: "waiting k1 = waiting (kern s)" "rt_current_thread k1 = Some t" "stat (threads k1 t) = RT_THREAD_RUNNING"
    using change_priority_same [OF k] c by (auto simp: k1_def)
  have rel: "rt_mutex_release i s = Some (RT_EOK, s')"
    using m c(1) ok w(3) change_priority_same(1) [OF k]
    by (cases "original_priority m = current_priority (threads (kern s) t)") (simp_all add: rt_mutex_release_def Let_def s'_def k1_def)
  have "unat (hold m - 1) = unat (hold m) - 1"
    using ok(2) by (simp add: unat_minus_one)
  then have "mutex_depth i t s' = mutex_depth i t s - 1"
    using m by (auto simp: mutex_depth_def s'_def)
  moreover have "uncontended i t s'"
    using mutex_release_wf [OF w(1) rel] c k1 w(3) m by (auto simp: uncontended_def caller_def s'_def)
  ultimately show ?thesis
    by (simp add: mutex_let_go_def rel)
qed

interpretation kernel_lock: recursive_lock "mutex_acquire i" "mutex_let_go i" "mutex_depth i t" "uncontended i t" 255
  for i t :: nat
  using uncontended_acquire uncontended_release by unfold_locales blast+

end
