(* ===== verification/Device.thy ===== *)
theory Device
  imports Ipc
begin

text \<open>
  \<^verbatim>\<open>rt-thread/src/device.c\<close>: opening, closing and calling a device, over the operations of its driver.  An operation works on the device structure and the state of
  the driver; \<open>None\<close> in place of an operation is a null pointer.
\<close>

unbundle bit_operations_syntax

abbreviation (input) RT_DEVICE_FLAG_STANDALONE :: u16 where "RT_DEVICE_FLAG_STANDALONE \<equiv> 0x008"
abbreviation (input) RT_DEVICE_FLAG_ACTIVATED :: u16 where "RT_DEVICE_FLAG_ACTIVATED \<equiv> 0x010"
abbreviation (input) RT_DEVICE_OFLAG_OPEN :: u16 where "RT_DEVICE_OFLAG_OPEN \<equiv> 0x008"
abbreviation (input) RT_DEVICE_OFLAG_MASK :: u16 where "RT_DEVICE_OFLAG_MASK \<equiv> 0xf0f"
abbreviation (input) RT_DEVICE_OFLAG_CLOSE :: u16 where "RT_DEVICE_OFLAG_CLOSE \<equiv> 0"

record rt_device =
  dev_flag :: u16
  open_flag :: u16
  ref_count :: u8
  rx_indicate :: "nat option"
  tx_complete :: "nat option"

record 's rt_device_ops =
  op_init :: "(rt_device \<times> 's \<Rightarrow> (rt_err_t \<times> rt_device \<times> 's) option) option"
  op_open :: "(u16 \<Rightarrow> rt_device \<times> 's \<Rightarrow> (rt_err_t \<times> rt_device \<times> 's) option) option"
  op_close :: "(rt_device \<times> 's \<Rightarrow> (rt_err_t \<times> rt_device \<times> 's) option) option"
  op_read :: "(nat \<Rightarrow> rt_device \<times> 's \<Rightarrow> (u8 list \<times> rt_device \<times> 's) option) option"
  op_write :: "(u8 list \<Rightarrow> rt_device \<times> 's \<Rightarrow> (nat \<times> rt_device \<times> 's) option) option"
  op_control :: "(int \<Rightarrow> nat \<Rightarrow> rt_device \<times> 's \<Rightarrow> (rt_err_t \<times> rt_device \<times> 's) option) option"

section \<open>Devices\<close>

text \<open>\<open>taken\<close> says whether a device of the name exists.\<close>

definition rt_device_register :: "bool \<Rightarrow> u16 \<Rightarrow> rt_device \<Rightarrow> rt_err_t \<times> rt_device" where
  "rt_device_register taken flags d =
     (if taken then (- RT_ERROR, d) else (RT_EOK, d\<lparr>dev_flag := flags, ref_count := 0, open_flag := 0\<rparr>))"

definition rt_device_init :: "'s rt_device_ops \<Rightarrow> rt_device \<times> 's \<Rightarrow> (rt_err_t \<times> rt_device \<times> 's) option" where
  "rt_device_init ops ds =
     (case op_init ops of None \<Rightarrow> Some (RT_EOK, ds)
      | Some f \<Rightarrow>
          if dev_flag (fst ds) AND RT_DEVICE_FLAG_ACTIVATED = 0
          then do { (r, d, x) \<leftarrow> f ds;
                    Some (r, if r \<noteq> RT_EOK then d else d\<lparr>dev_flag := dev_flag d OR RT_DEVICE_FLAG_ACTIVATED\<rparr>, x) }
          else Some (RT_EOK, ds))"

definition activate_first :: "'s rt_device_ops \<Rightarrow> rt_device \<times> 's \<Rightarrow> (rt_err_t \<times> rt_device \<times> 's) option" where
  "activate_first ops ds =
     (if dev_flag (fst ds) AND RT_DEVICE_FLAG_ACTIVATED \<noteq> 0 then Some (RT_EOK, ds)
      else do { (r, d, x) \<leftarrow> (case op_init ops of None \<Rightarrow> Some (RT_EOK, ds) | Some f \<Rightarrow> f ds);
                Some (r, if r \<noteq> RT_EOK then d else d\<lparr>dev_flag := dev_flag d OR RT_DEVICE_FLAG_ACTIVATED\<rparr>, x) })"

definition rt_device_open :: "'s rt_device_ops \<Rightarrow> u16 \<Rightarrow> rt_device \<times> 's \<Rightarrow> (rt_err_t \<times> rt_device \<times> 's) option" where
  "rt_device_open ops oflag ds =
     do { (r0, d0, x0) \<leftarrow> activate_first ops ds;
          if r0 \<noteq> RT_EOK then Some (r0, d0, x0)
          else if dev_flag d0 AND RT_DEVICE_FLAG_STANDALONE \<noteq> 0 \<and> open_flag d0 AND RT_DEVICE_OFLAG_OPEN \<noteq> 0
          then Some (- RT_EBUSY, d0, x0)
          else do { (r, d, x) \<leftarrow> (case op_open ops of
                                    None \<Rightarrow> Some (RT_EOK, d0\<lparr>open_flag := oflag AND RT_DEVICE_OFLAG_MASK\<rparr>, x0)
                                  | Some f \<Rightarrow> f oflag (d0, x0));
                    if r = RT_EOK \<or> r = - RT_ENOSYS
                    then let d1 = d\<lparr>open_flag := open_flag d OR RT_DEVICE_OFLAG_OPEN, ref_count := ref_count d + 1\<rparr>
                         in if ref_count d1 = 0 then None else Some (r, d1, x)
                    else Some (r, d, x) } }"

definition rt_device_close :: "'s rt_device_ops \<Rightarrow> rt_device \<times> 's \<Rightarrow> (rt_err_t \<times> rt_device \<times> 's) option" where
  "rt_device_close ops ds =
     (if ref_count (fst ds) = 0 then Some (- RT_ERROR, ds)
      else let d0 = (fst ds)\<lparr>ref_count := ref_count (fst ds) - 1\<rparr>
           in if ref_count d0 \<noteq> 0 then Some (RT_EOK, d0, snd ds)
              else do { (r, d, x) \<leftarrow> (case op_close ops of None \<Rightarrow> Some (RT_EOK, d0, snd ds) | Some f \<Rightarrow> f (d0, snd ds));
                        Some (r, if r = RT_EOK \<or> r = - RT_ENOSYS then d\<lparr>open_flag := RT_DEVICE_OFLAG_CLOSE\<rparr> else d, x) })"

text \<open>The second component is the error number that is set, if any.\<close>

definition rt_device_read :: "'s rt_device_ops \<Rightarrow> nat \<Rightarrow> rt_device \<times> 's \<Rightarrow> (u8 list \<times> rt_err_t option \<times> rt_device \<times> 's) option" where
  "rt_device_read ops n ds =
     (if ref_count (fst ds) = 0 then Some ([], Some (- RT_ERROR), ds)
      else case op_read ops of None \<Rightarrow> Some ([], Some (- RT_ENOSYS), ds)
           | Some f \<Rightarrow> do { (bs, ds') \<leftarrow> f n ds; Some (bs, None, ds') })"

definition rt_device_write :: "'s rt_device_ops \<Rightarrow> u8 list \<Rightarrow> rt_device \<times> 's \<Rightarrow> (nat \<times> rt_err_t option \<times> rt_device \<times> 's) option" where
  "rt_device_write ops bs ds =
     (if ref_count (fst ds) = 0 then Some (0, Some (- RT_ERROR), ds)
      else case op_write ops of None \<Rightarrow> Some (0, Some (- RT_ENOSYS), ds)
           | Some f \<Rightarrow> do { (n, ds') \<leftarrow> f bs ds; Some (n, None, ds') })"

definition rt_device_control :: "'s rt_device_ops \<Rightarrow> int \<Rightarrow> nat \<Rightarrow> rt_device \<times> 's \<Rightarrow> (rt_err_t \<times> rt_device \<times> 's) option" where
  "rt_device_control ops cmd arg ds = (case op_control ops of None \<Rightarrow> Some (- RT_ENOSYS, ds) | Some f \<Rightarrow> f cmd arg ds)"

definition rt_device_set_rx_indicate :: "nat option \<Rightarrow> rt_device \<Rightarrow> rt_device" where
  "rt_device_set_rx_indicate f d = d\<lparr>rx_indicate := f\<rparr>"

definition rt_device_set_tx_complete :: "nat option \<Rightarrow> rt_device \<Rightarrow> rt_device" where
  "rt_device_set_tx_complete f d = d\<lparr>tx_complete := f\<rparr>"

section \<open>Drivers\<close>

text \<open>What a driver owes the device layer.  \<open>good\<close> is the invariant of an activated device, \<open>idle\<close> that it holds no
  resources, and \<open>allowed\<close> that it may be opened (once more) with some flags.\<close>

definition dev_ok :: "(rt_device \<times> 's \<Rightarrow> bool) \<Rightarrow> ('s \<Rightarrow> bool) \<Rightarrow> rt_device \<times> 's \<Rightarrow> bool" where
  "dev_ok good idle ds \<longleftrightarrow> (if dev_flag (fst ds) AND RT_DEVICE_FLAG_ACTIVATED = 0 then ref_count (fst ds) = 0 \<and> open_flag (fst ds) = 0
     else good ds \<and> (ref_count (fst ds) = 0 \<longrightarrow> idle (snd ds)))"

lemma activated_set: "(f OR RT_DEVICE_FLAG_ACTIVATED) AND RT_DEVICE_FLAG_ACTIVATED \<noteq> 0"
  by (simp add: word_ao_absorbs)

locale device_driver =
  fixes ops :: "'s rt_device_ops"
    and init :: "rt_device \<times> 's \<Rightarrow> (rt_err_t \<times> rt_device \<times> 's) option"
    and opn :: "u16 \<Rightarrow> rt_device \<times> 's \<Rightarrow> (rt_err_t \<times> rt_device \<times> 's) option"
    and cls :: "rt_device \<times> 's \<Rightarrow> (rt_err_t \<times> rt_device \<times> 's) option"
    and good :: "rt_device \<times> 's \<Rightarrow> bool"
    and idle :: "'s \<Rightarrow> bool"
    and allowed :: "u16 \<Rightarrow> rt_device \<times> 's \<Rightarrow> bool"
  assumes ops_law: "op_init ops = Some init" "op_open ops = Some opn" "op_close ops = Some cls"
    and init_law: "\<exists>r d' x'. init (d, x) = Some (r, d', x') \<and> ref_count d' = ref_count d \<and> dev_flag d' = dev_flag d \<and>
      (r = RT_EOK \<longrightarrow> idle x' \<and> good (d'\<lparr>open_flag := 0\<rparr>, x')) \<and> open_flag d' = open_flag d"
    and open_law: "good (d, x) \<Longrightarrow> allowed oflag (d, x) \<Longrightarrow> \<exists>r d' x'. opn oflag (d, x) = Some (r, d', x') \<and> good (d', x') \<and>
      ref_count d' = ref_count d \<and> dev_flag d' = dev_flag d \<and> r \<noteq> - RT_ENOSYS \<and> (r \<noteq> RT_EOK \<longrightarrow> d' = d \<and> x' = x)"
    and close_law: "good (d, x) \<Longrightarrow> ref_count d = 0 \<Longrightarrow> \<exists>d' x'. cls (d, x) = Some (RT_EOK, d', x') \<and> idle x' \<and> good (d'\<lparr>open_flag := 0\<rparr>, x') \<and>
      ref_count d' = 0 \<and> dev_flag d' = dev_flag d"
    and fields_law: "good (d\<lparr>ref_count := n\<rparr>, x) = good (d, x)" "good (d\<lparr>dev_flag := m\<rparr>, x) = good (d, x)"
      "good (d\<lparr>open_flag := open_flag d OR RT_DEVICE_OFLAG_OPEN\<rparr>, x) = good (d, x)"
    and idle_law: "idle x \<Longrightarrow> allowed oflag (d, x)"
begin

lemma activate_ok:
  assumes "dev_ok good idle (d, x)"
  shows "\<exists>r d' x'. activate_first ops (d, x) = Some (r, d', x') \<and> dev_ok good idle (d', x') \<and> ref_count d' = ref_count d \<and>
    (r = RT_EOK \<longrightarrow> good (d', x') \<and> (ref_count d = 0 \<longrightarrow> idle x') \<and> dev_flag d' AND RT_DEVICE_FLAG_ACTIVATED \<noteq> 0) \<and>
    (dev_flag d AND RT_DEVICE_FLAG_ACTIVATED \<noteq> 0 \<longrightarrow> d' = d \<and> x' = x)"
proof (cases "dev_flag d AND RT_DEVICE_FLAG_ACTIVATED = 0")
  case True
  then have d: "ref_count d = 0" "open_flag d = 0"
    using assms by (simp_all add: dev_ok_def)
  obtain r d' x' where i: "init (d, x) = Some (r, d', x')" "ref_count d' = ref_count d" "dev_flag d' = dev_flag d" "open_flag d' = open_flag d"
    "r = RT_EOK \<Longrightarrow> idle x' \<and> good (d'\<lparr>open_flag := 0\<rparr>, x')"
    using init_law by blast
  have "d'\<lparr>open_flag := 0\<rparr> = d'"
    using i(4) d(2) by simp
  then have "r = RT_EOK \<Longrightarrow> good (d', x') \<and> idle x'"
    using i(5) by metis
  then show ?thesis
    using True i(1-4) d activated_set fields_law(2) by (auto simp: activate_first_def ops_law dev_ok_def)
next
  case False
  then show ?thesis
    using assms by (auto simp: activate_first_def dev_ok_def)
qed

lemma open_ok:
  assumes "dev_ok good idle (d, x)" "ref_count d < 255" "dev_flag d AND RT_DEVICE_FLAG_ACTIVATED \<noteq> 0 \<Longrightarrow> allowed oflag (d, x)"
  shows "\<exists>r d' x'. rt_device_open ops oflag (d, x) = Some (r, d', x') \<and> dev_ok good idle (d', x') \<and>
    ref_count d' = (if r = RT_EOK then ref_count d + 1 else ref_count d)"
proof -
  obtain r0 d0 x0 where a: "activate_first ops (d, x) = Some (r0, d0, x0)" "dev_ok good idle (d0, x0)" "ref_count d0 = ref_count d"
    "r0 = RT_EOK \<Longrightarrow> good (d0, x0) \<and> (ref_count d = 0 \<longrightarrow> idle x0) \<and> dev_flag d0 AND RT_DEVICE_FLAG_ACTIVATED \<noteq> 0"
    "dev_flag d AND RT_DEVICE_FLAG_ACTIVATED \<noteq> 0 \<Longrightarrow> d0 = d \<and> x0 = x"
    using activate_ok [OF assms(1)] by blast
  have ne: "ref_count d + 1 \<noteq> 0"
  proof -
    have "unat (ref_count d + 1) = unat (ref_count d) + 1"
      using assms(2) by (simp add: word_less_nat_alt unat_word_ariths)
    then show ?thesis
      by auto
  qed
  show ?thesis
  proof (cases "r0 \<noteq> RT_EOK \<or> dev_flag d0 AND RT_DEVICE_FLAG_STANDALONE \<noteq> 0 \<and> open_flag d0 AND RT_DEVICE_OFLAG_OPEN \<noteq> 0")
    case True
    then show ?thesis
      using a by (auto simp: rt_device_open_def)
  next
    case False
    have "allowed oflag (d0, x0)"
    proof (cases "dev_flag d AND RT_DEVICE_FLAG_ACTIVATED = 0")
      case True
      then have "ref_count d = 0"
        using assms(1) by (simp add: dev_ok_def)
      then show ?thesis
        using a(4) False idle_law by blast
    next
      case act: False
      then show ?thesis
        using assms(3) a(5) by simp
    qed
    then obtain r d1 x1 where o: "opn oflag (d0, x0) = Some (r, d1, x1)" "good (d1, x1)" "ref_count d1 = ref_count d0" "dev_flag d1 = dev_flag d0"
      "r \<noteq> - RT_ENOSYS" "r \<noteq> RT_EOK \<Longrightarrow> d1 = d0 \<and> x1 = x0"
      using open_law a(4) False by blast
    show ?thesis
    proof (cases "r = RT_EOK")
      case True
      let ?d = "d1\<lparr>open_flag := open_flag d1 OR RT_DEVICE_OFLAG_OPEN, ref_count := ref_count d1 + 1\<rparr>"
      have "good (?d, x1)"
        using o(2) fields_law(1) [where d = "d1\<lparr>open_flag := open_flag d1 OR RT_DEVICE_OFLAG_OPEN\<rparr>"] fields_law(3) by simp
      moreover have "rt_device_open ops oflag (d, x) = Some (r, ?d, x1)"
        using a(1,3) False o(1,3) True ne by (simp add: rt_device_open_def ops_law Let_def)
      ultimately show ?thesis
        using True a(3,4) False o(3,4) ne by (simp add: dev_ok_def)
    next
      case err: False
      then have "rt_device_open ops oflag (d, x) = Some (r, d0, x0)"
        using a(1) False o by (auto simp: rt_device_open_def ops_law Let_def)
      then show ?thesis
        using err a(2,3) by simp
    qed
  qed
qed

lemma close_ok:
  assumes "dev_ok good idle (d, x)"
  shows "\<exists>r d' x'. rt_device_close ops (d, x) = Some (r, d', x') \<and> dev_ok good idle (d', x') \<and>
    (if ref_count d = 0 then r = - RT_ERROR \<and> ref_count d' = 0 else r = RT_EOK \<and> ref_count d' = ref_count d - 1)"
proof (cases "ref_count d = 0")
  case True
  then show ?thesis
    using assms by (simp add: rt_device_close_def)
next
  case False
  let ?d = "d\<lparr>ref_count := ref_count d - 1\<rparr>"
  have act: "dev_flag d AND RT_DEVICE_FLAG_ACTIVATED \<noteq> 0" "good (?d, x)"
    using assms False fields_law(1) by (auto simp: dev_ok_def split: if_splits)
  show ?thesis
  proof (cases "ref_count d - 1 = 0")
    case True
    then obtain d' x' where c: "cls (?d, x) = Some (RT_EOK, d', x')" "idle x'" "good (d'\<lparr>open_flag := 0\<rparr>, x')" "ref_count d' = 0" "dev_flag d' = dev_flag d"
      using close_law [OF act(2)] by auto
    then have "rt_device_close ops (d, x) = Some (RT_EOK, d'\<lparr>open_flag := 0\<rparr>, x')"
      using False True by (simp add: rt_device_close_def ops_law Let_def)
    then show ?thesis
      using False True c act(1) by (auto simp: dev_ok_def)
  next
    case more: False
    then have "rt_device_close ops (d, x) = Some (RT_EOK, ?d, x)"
      using False by (simp add: rt_device_close_def)
    then show ?thesis
      using False more act by (simp add: dev_ok_def)
  qed
qed

end

end
