(* ===== verification/Serial.thy ===== *)
theory Serial
  imports Device
begin

text \<open>
  \<^verbatim>\<open>rt-thread/components/drivers/serial/serial.c\<close> without DMA and POSIX, as configured, over a UART: \<open>rx_line\<close> are
  the bytes that have arrived and were not read from the receive register, \<open>tx_line\<close> all bytes that were sent;
  \<open>stm32_getc\<close> and \<open>stm32_putc\<close> of \<^verbatim>\<open>drivers/drv_usart.c\<close> read and write these, and \<open>uart_calls\<close> are the calls of its
  \<open>stm32_configure\<close> and \<open>stm32_control\<close>; of the configuration only the size of the buffer matters here.
  The transmitter never waits, so its completion is not modelled, nor is the warning that is printed
  when the buffer first overflows (\<open>already_output\<close> says that it was).
\<close>

unbundle bit_operations_syntax

abbreviation (input) RT_DEVICE_FLAG_STREAM :: u16 where "RT_DEVICE_FLAG_STREAM \<equiv> 0x040"
abbreviation (input) RT_DEVICE_FLAG_SUSPENDED :: u16 where "RT_DEVICE_FLAG_SUSPENDED \<equiv> 0x020"
abbreviation (input) RT_DEVICE_FLAG_INT_RX :: u16 where "RT_DEVICE_FLAG_INT_RX \<equiv> 0x100"
abbreviation (input) RT_DEVICE_FLAG_DMA_RX :: u16 where "RT_DEVICE_FLAG_DMA_RX \<equiv> 0x200"
abbreviation (input) RT_DEVICE_FLAG_INT_TX :: u16 where "RT_DEVICE_FLAG_INT_TX \<equiv> 0x400"
abbreviation (input) RT_DEVICE_FLAG_DMA_TX :: u16 where "RT_DEVICE_FLAG_DMA_TX \<equiv> 0x800"
abbreviation (input) RT_EIO :: rt_err_t where "RT_EIO \<equiv> 8"

section \<open>State\<close>

record rt_serial_rx_fifo =
  rx_buffer :: "u8 list"
  put_index :: u16
  get_index :: u16
  is_full :: bool

datatype uart_call = Configure | Set_Int u16 | Clr_Int u16 | Control int nat

record rt_serial_device =
  bufsz :: u16
  serial_rx :: "rt_serial_rx_fifo option"
  serial_tx :: bool
  rx_line :: "u8 list"
  tx_line :: "u8 list"
  configure_result :: rt_err_t
  already_output :: bool
  uart_calls :: "uart_call list"

type_synonym serial = "rt_device \<times> rt_serial_device"

definition calls :: "uart_call list \<Rightarrow> rt_serial_device \<Rightarrow> rt_serial_device" where
  "calls cs x = x\<lparr>uart_calls := uart_calls x @ cs\<rparr>"

section \<open>The receive buffer\<close>

definition wrap_index :: "u16 \<Rightarrow> u16 \<Rightarrow> u16" where
  "wrap_index n i = (if i \<ge> n then 0 else i)"

text \<open>A byte received by interrupt; the second result says that the oldest byte was given up for it.\<close>

definition fifo_put :: "u16 \<Rightarrow> u8 \<Rightarrow> rt_serial_rx_fifo \<Rightarrow> rt_serial_rx_fifo \<times> bool" where
  "fifo_put n ch f =
     (let f1 = f\<lparr>rx_buffer := (rx_buffer f)[unat (put_index f) := ch], put_index := wrap_index n (put_index f + 1)\<rparr>
      in if put_index f1 = get_index f1
         then (f1\<lparr>get_index := wrap_index n (get_index f1 + 1), is_full := True\<rparr>, True)
         else (f1, False))"

fun fifo_read :: "u16 \<Rightarrow> nat \<Rightarrow> rt_serial_rx_fifo \<Rightarrow> u8 list \<times> rt_serial_rx_fifo" where
  "fifo_read n 0 f = ([], f)"
| "fifo_read n (Suc len) f =
     (if get_index f = put_index f \<and> \<not> is_full f then ([], f)
      else let ch = rx_buffer f ! unat (get_index f);
               (bs, f') = fifo_read n len (f\<lparr>get_index := wrap_index n (get_index f + 1), is_full := False\<rparr>)
           in (ch # bs, f'))"

definition fifo_length :: "u16 \<Rightarrow> rt_serial_rx_fifo \<Rightarrow> u16" where
  "fifo_length n f = (if put_index f \<ge> get_index f then put_index f - get_index f else n - (get_index f - put_index f))"

section \<open>Operations\<close>

fun serial_poll_rx :: "bool \<Rightarrow> nat \<Rightarrow> u8 list \<Rightarrow> u8 list \<times> u8 list" where
  "serial_poll_rx stream 0 l = ([], l)"
| "serial_poll_rx stream (Suc len) [] = ([], [])"
| "serial_poll_rx stream (Suc len) (ch # l) =
     (if stream \<and> ch = 10 then ([ch], l)
      else let (bs, l') = serial_poll_rx stream len l in (ch # bs, l'))"

text \<open>What is put on the line for the bytes of a write; \<open>stm32_putc\<close> always takes the byte, so polling and interrupt
  mode send the same.\<close>

fun line_text :: "bool \<Rightarrow> u8 list \<Rightarrow> u8 list" where
  "line_text stream [] = []"
| "line_text stream (b # bs) = (if b = 10 \<and> stream then 13 # b # line_text stream bs else b # line_text stream bs)"

definition rt_serial_init :: "serial \<Rightarrow> (rt_err_t \<times> serial) option" where
  "rt_serial_init s = Some (configure_result (snd s), fst s, calls [Configure] ((snd s)\<lparr>serial_rx := None, serial_tx := False\<rparr>))"

definition lacks :: "u16 \<Rightarrow> u16 \<Rightarrow> u16 \<Rightarrow> bool" where
  "lacks f oflag dflag \<longleftrightarrow> oflag AND f \<noteq> 0 \<and> dflag AND f = 0"

definition open_rx :: "u16 \<Rightarrow> serial \<Rightarrow> serial" where
  "open_rx oflag s =
     (let (d, x) = s in
      if oflag AND RT_DEVICE_FLAG_INT_RX = 0 then s
      else let d' = d\<lparr>open_flag := open_flag d OR RT_DEVICE_FLAG_INT_RX\<rparr> in
           if serial_rx x = None
           then (d', calls [Set_Int RT_DEVICE_FLAG_INT_RX]
                   (x\<lparr>serial_rx := Some \<lparr>rx_buffer = replicate (unat (bufsz x)) 0, put_index = 0, get_index = 0, is_full = False\<rparr>\<rparr>))
           else (d', x))"

definition open_tx :: "u16 \<Rightarrow> serial \<Rightarrow> serial" where
  "open_tx oflag s =
     (let (d, x) = s in
      if oflag AND RT_DEVICE_FLAG_INT_TX = 0 then s
      else let d' = d\<lparr>open_flag := open_flag d OR RT_DEVICE_FLAG_INT_TX\<rparr> in
           if \<not> serial_tx x then (d', calls [Set_Int RT_DEVICE_FLAG_INT_TX] (x\<lparr>serial_tx := True\<rparr>)) else (d', x))"

text \<open>The heap has memory for the buffers; otherwise an assertion fails.\<close>

definition rt_serial_open :: "u16 \<Rightarrow> serial \<Rightarrow> (rt_err_t \<times> serial) option" where
  "rt_serial_open oflag s =
     (let (d, x) = s in
      if lacks RT_DEVICE_FLAG_DMA_RX oflag (dev_flag d) \<or> lacks RT_DEVICE_FLAG_DMA_TX oflag (dev_flag d) \<or>
         lacks RT_DEVICE_FLAG_INT_RX oflag (dev_flag d) \<or> lacks RT_DEVICE_FLAG_INT_TX oflag (dev_flag d)
      then Some (- RT_EIO, s)
      else let stream_flag = (if oflag AND RT_DEVICE_FLAG_STREAM \<noteq> 0 \<or> open_flag d AND RT_DEVICE_FLAG_STREAM \<noteq> 0
                              then RT_DEVICE_FLAG_STREAM else 0);
               (d1, x1) = open_tx oflag (open_rx oflag (d\<lparr>open_flag := oflag AND 0xff\<rparr>, x))
           in Some (RT_EOK, d1\<lparr>open_flag := open_flag d1 OR stream_flag\<rparr>, x1))"

definition rt_serial_close :: "serial \<Rightarrow> (rt_err_t \<times> serial) option" where
  "rt_serial_close s =
     (let (d, x) = s in
      if ref_count d > 1 then Some (RT_EOK, s)
      else do { (d1, x1) \<leftarrow> (if open_flag d AND RT_DEVICE_FLAG_INT_RX \<noteq> 0
                             then if serial_rx x = None then None
                                  else Some (d\<lparr>open_flag := open_flag d AND NOT RT_DEVICE_FLAG_INT_RX\<rparr>,
                                             calls [Clr_Int RT_DEVICE_FLAG_INT_RX] (x\<lparr>serial_rx := None\<rparr>))
                             else Some (d, x));
                (d2, x2) \<leftarrow> (if open_flag d1 AND RT_DEVICE_FLAG_INT_TX \<noteq> 0
                             then if \<not> serial_tx x1 then None
                                  else Some (d1\<lparr>open_flag := open_flag d1 AND NOT RT_DEVICE_FLAG_INT_TX\<rparr>,
                                             calls [Clr_Int RT_DEVICE_FLAG_INT_TX] (x1\<lparr>serial_tx := False\<rparr>))
                             else Some (d1, x1));
                Some (RT_EOK, d2, x2) })"

definition rt_serial_read :: "nat \<Rightarrow> serial \<Rightarrow> (u8 list \<times> serial) option" where
  "rt_serial_read len s =
     (let (d, x) = s in
      if len = 0 then Some ([], s)
      else if open_flag d AND RT_DEVICE_FLAG_INT_RX \<noteq> 0
      then do { f \<leftarrow> serial_rx x;
                let (bs, f') = fifo_read (bufsz x) len f;
                Some (bs, d, x\<lparr>serial_rx := Some f'\<rparr>) }
      else let (bs, l) = serial_poll_rx (open_flag d AND RT_DEVICE_FLAG_STREAM \<noteq> 0) len (rx_line x)
           in Some (bs, d, x\<lparr>rx_line := l\<rparr>))"

definition rt_serial_write :: "u8 list \<Rightarrow> serial \<Rightarrow> (nat \<times> serial) option" where
  "rt_serial_write bs s =
     (let (d, x) = s in
      if bs = [] then Some (0, s)
      else if open_flag d AND RT_DEVICE_FLAG_INT_TX \<noteq> 0 \<and> \<not> serial_tx x then None
      else Some (length bs, d, x\<lparr>tx_line := tx_line x @ line_text (open_flag d AND RT_DEVICE_FLAG_STREAM \<noteq> 0) bs\<rparr>))"

text \<open>\<open>RT_DEVICE_CTRL_SUSPEND\<close> is 2, \<open>RESUME\<close> 1 and \<open>CONFIG\<close> 3; the argument of \<open>CONFIG\<close> is one more than the buffer
  size of the configuration, 0 when there is none.\<close>

definition rt_serial_control :: "int \<Rightarrow> nat \<Rightarrow> serial \<Rightarrow> (rt_err_t \<times> serial) option" where
  "rt_serial_control cmd arg s =
     (let (d, x) = s in
      if cmd = 2 then Some (RT_EOK, d\<lparr>dev_flag := dev_flag d OR RT_DEVICE_FLAG_SUSPENDED\<rparr>, x)
      else if cmd = 1 then Some (RT_EOK, d\<lparr>dev_flag := dev_flag d AND NOT RT_DEVICE_FLAG_SUSPENDED\<rparr>, x)
      else if cmd = 3
      then if arg = 0 then Some (RT_EOK, s)
           else if of_nat (arg - 1) \<noteq> bufsz x \<and> ref_count d \<noteq> 0 then Some (RT_EBUSY, s)
           else Some (RT_EOK, d, (if ref_count d \<noteq> 0 then calls [Configure] else id) (x\<lparr>bufsz := of_nat (arg - 1)\<rparr>))
      else Some (RT_EOK, d, calls [Control cmd arg] x))"

definition serial_ops :: "rt_serial_device rt_device_ops" where
  "serial_ops = \<lparr>op_init = Some rt_serial_init, op_open = Some rt_serial_open, op_close = Some rt_serial_close,
     op_read = Some rt_serial_read, op_write = Some rt_serial_write, op_control = Some rt_serial_control\<rparr>"

definition rt_hw_serial_register :: "bool \<Rightarrow> u16 \<Rightarrow> rt_device \<Rightarrow> rt_err_t \<times> rt_device" where
  "rt_hw_serial_register taken fl d = rt_device_register taken fl (d\<lparr>rx_indicate := None, tx_complete := None\<rparr>)"

text \<open>The receive interrupt: every byte that has arrived goes to the buffer.  The first result is the number of
  bytes given to \<open>rx_indicate\<close>, when it is called.\<close>

fun isr_loop :: "u16 \<Rightarrow> u8 list \<Rightarrow> rt_serial_rx_fifo \<times> bool \<Rightarrow> rt_serial_rx_fifo \<times> bool" where
  "isr_loop n [] fw = fw"
| "isr_loop n (ch # l) (f, w) = (let (f', drop) = fifo_put n ch f in isr_loop n l (f', w \<or> drop))"

definition rt_hw_serial_isr :: "serial \<Rightarrow> (u16 option \<times> serial) option" where
  "rt_hw_serial_isr s =
     (let (d, x) = s in
      do { f \<leftarrow> serial_rx x;
           let (f', w) = isr_loop (bufsz x) (rx_line x) (f, already_output x);
               n = fifo_length (bufsz x) f';
               ind = (if rx_indicate d \<noteq> None \<and> n \<noteq> 0 then Some n else None)
           in Some (ind, d, x\<lparr>serial_rx := Some f', rx_line := [], already_output := w\<rparr>) })"

section \<open>The buffer keeps the newest bytes\<close>

definition fifo_ok :: "u16 \<Rightarrow> rt_serial_rx_fifo \<Rightarrow> bool" where
  "fifo_ok n f \<longleftrightarrow> length (rx_buffer f) = unat n \<and> put_index f < n \<and> get_index f < n \<and> (is_full f \<longrightarrow> get_index f \<noteq> put_index f)"

definition fifo_count :: "u16 \<Rightarrow> rt_serial_rx_fifo \<Rightarrow> nat" where
  "fifo_count n f = (unat (put_index f) + unat n - unat (get_index f)) mod unat n"

definition fifo_bytes :: "u16 \<Rightarrow> rt_serial_rx_fifo \<Rightarrow> u8 list" where
  "fifo_bytes n f = map (\<lambda>i. rx_buffer f ! ((unat (get_index f) + i) mod unat n)) [0..<fifo_count n f]"

lemma wrap_index_mod: "i < n \<Longrightarrow> unat (wrap_index n (i + 1)) = (unat i + 1) mod unat n"
proof -
  assume i: "i < n"
  then have u: "unat (i + 1) = unat i + 1"
    using unsigned_less [of n, where ?'a = nat] by (simp add: unat_word_ariths word_less_nat_alt)
  show ?thesis
    using i u by (cases "unat i + 1 = unat n") (auto simp: wrap_index_def word_le_nat_alt word_less_nat_alt)
qed

lemma fifo_bytes_ring: "fifo_bytes n f = ring (rx_buffer f) (unat (get_index f)) (fifo_count n f) (unat n)"
  by (simp add: fifo_bytes_def ring_def)

lemma length_fifo_bytes [simp]: "length (fifo_bytes n f) = fifo_count n f"
  by (simp add: fifo_bytes_def)

lemma fifo_put_law:
  assumes "fifo_ok n f" "2 \<le> unat n"
  shows "fifo_ok n (fst (fifo_put n ch f))" "fifo_bytes n (fst (fifo_put n ch f)) = last_n (unat n - 1) (fifo_bytes n f @ [ch])"
    "snd (fifo_put n ch f) = (fifo_count n f = unat n - 1)" "fifo_count n (fst (fifo_put n ch f)) \<noteq> 0"
proof -
  let ?N = "unat n" and ?c = "fifo_count n f" and ?g = "unat (get_index f)"
  define f' where "f' = fst (fifo_put n ch f)"
  have f: "length (rx_buffer f) = ?N" "unat (put_index f) < ?N" "?g < ?N" "put_index f < n" "get_index f < n"
    using assms(1) by (auto simp: fifo_ok_def word_less_nat_alt)
  have c: "?c < ?N" "unat (put_index f) = (?g + ?c) mod ?N"
    using f(2,3) ring_end [of "unat (put_index f)" ?N ?g] by (auto simp: fifo_count_def)
  have p1: "unat (wrap_index n (put_index f + 1)) = (?g + Suc ?c) mod ?N"
    using wrap_index_mod [OF f(4)] c(2) by (simp add: mod_Suc_eq)
  have g1: "unat (wrap_index n (get_index f + 1)) = (?g + 1) mod ?N"
    by (rule wrap_index_mod [OF f(5)])
  have b: "ring ((rx_buffer f)[unat (put_index f) := ch]) ?g (Suc ?c) ?N = fifo_bytes n f @ [ch]"
    unfolding c(2) fifo_bytes_ring by (rule ring_put [OF f(3) c(1) f(1)])
  have "fifo_ok n f' \<and> fifo_bytes n f' = last_n (?N - 1) (fifo_bytes n f @ [ch]) \<and> snd (fifo_put n ch f) = (?c = ?N - 1) \<and> fifo_count n f' \<noteq> 0"
  proof (cases "?c = ?N - 1")
    case True
    then have e: "wrap_index n (put_index f + 1) = get_index f"
      using p1 f(3) assms(2) by (simp add: word_unat_eq_iff)
    then have f': "f' = f\<lparr>rx_buffer := (rx_buffer f)[unat (put_index f) := ch], put_index := get_index f,
        get_index := wrap_index n (get_index f + 1), is_full := True\<rparr>" and d: "snd (fifo_put n ch f)"
      by (simp_all add: f'_def fifo_put_def Let_def)
    have g2: "(?g + 1) mod ?N < ?N" "(?g + 1) mod ?N \<noteq> ?g"
      using f(3) assms(2) by (auto simp: mod_if)
    have "((?g + 1) mod ?N + (?N - 1)) mod ?N = (?g + 1 + (?N - 1)) mod ?N"
      by (rule mod_add_left_eq)
    then have g: "((?g + 1) mod ?N + (?N - 1)) mod ?N = ?g"
      using f(3) assms(2) by simp
    have "(((?g + 1) mod ?N + (?N - 1)) mod ?N + ?N - (?g + 1) mod ?N) mod ?N = ?N - 1"
      using assms(2) by (intro ring_count g2(1)) simp
    then have cnt: "fifo_count n f' = ?N - 1"
      unfolding g by (simp add: fifo_count_def f' g1)
    have "fifo_bytes n f' = tl (fifo_bytes n f @ [ch])"
      using ring_tl [of ?N "(rx_buffer f)[unat (put_index f) := ch]" ?g "?N - 1"] b True assms(2) by (simp add: fifo_bytes_ring cnt) (simp add: f' g1)
    moreover have "fifo_ok n f'"
      using f g2 by (auto simp: fifo_ok_def f' word_less_nat_alt g1 word_unat_eq_iff)
    moreover have "last_n (?N - 1) (fifo_bytes n f @ [ch]) = tl (fifo_bytes n f @ [ch])"
      using True assms(2) length_fifo_bytes [of n f] by (cases "fifo_bytes n f") (auto simp: last_n_def simp del: length_fifo_bytes)
    ultimately show ?thesis
      using True d cnt assms(2) by simp
  next
    case False
    then have lt: "Suc ?c < ?N"
      using c(1) by simp
    have e: "wrap_index n (put_index f + 1) \<noteq> get_index f"
      using p1 ring_apart [of ?g ?N 0 "Suc ?c"] f(3) lt by (auto simp: word_unat_eq_iff)
    then have f': "f' = f\<lparr>rx_buffer := (rx_buffer f)[unat (put_index f) := ch], put_index := wrap_index n (put_index f + 1)\<rparr>" and d: "\<not> snd (fifo_put n ch f)"
      by (simp_all add: f'_def fifo_put_def Let_def)
    have cnt: "fifo_count n f' = Suc ?c"
      using ring_count [OF f(3) lt] by (simp add: fifo_count_def f' p1)
    have "fifo_bytes n f' = fifo_bytes n f @ [ch]"
      using b by (simp add: fifo_bytes_ring cnt) (simp add: f')
    moreover have "fifo_ok n f'"
      using f e p1 by (auto simp: fifo_ok_def f' word_less_nat_alt)
    ultimately show ?thesis
      using False d cnt lt by (simp add: last_n_all)
  qed
  then show "fifo_ok n (fst (fifo_put n ch f))" "fifo_bytes n (fst (fifo_put n ch f)) = last_n (unat n - 1) (fifo_bytes n f @ [ch])"
    "snd (fifo_put n ch f) = (fifo_count n f = unat n - 1)" "fifo_count n (fst (fifo_put n ch f)) \<noteq> 0"
    by (simp_all add: f'_def)
qed

lemma fifo_empty: "fifo_ok n f \<Longrightarrow> (get_index f = put_index f \<and> \<not> is_full f) = (fifo_bytes n f = [])"
proof -
  assume f: "fifo_ok n f"
  then have "unat (put_index f) < unat n" "unat (get_index f) < unat n"
    by (auto simp: fifo_ok_def word_less_nat_alt)
  then have "(fifo_count n f = 0) = (get_index f = put_index f)"
    by (auto simp: fifo_count_def mod_if word_unat_eq_iff)
  then show ?thesis
    using f length_fifo_bytes [of n f] by (auto simp: fifo_ok_def simp del: length_fifo_bytes)
qed

lemma fifo_read_law:
  "fifo_ok n f \<Longrightarrow> fst (fifo_read n len f) = take len (fifo_bytes n f) \<and> fifo_ok n (snd (fifo_read n len f)) \<and>
   fifo_bytes n (snd (fifo_read n len f)) = drop len (fifo_bytes n f)"
proof (induction len arbitrary: f)
  case (Suc len)
  show ?case
  proof (cases "fifo_bytes n f = []")
    case True
    then show ?thesis
      using fifo_empty [OF Suc.prems] Suc.prems by simp
  next
    case False
    let ?N = "unat n" and ?g = "unat (get_index f)" and ?f = "f\<lparr>get_index := wrap_index n (get_index f + 1), is_full := False\<rparr>"
    have f: "unat (put_index f) < ?N" "?g < ?N" "get_index f < n"
      using Suc.prems by (auto simp: fifo_ok_def word_less_nat_alt)
    have g1: "unat (wrap_index n (get_index f + 1)) = (?g + 1) mod ?N"
      by (rule wrap_index_mod [OF f(3)])
    obtain c where c: "fifo_count n f = Suc c"
      using False by (cases "fifo_count n f") (auto simp: fifo_bytes_def)
    have "fifo_count n f < ?N"
      using f(2) by (simp add: fifo_count_def)
    then have c1: "Suc c < ?N"
      using c by simp
    have "unat (put_index f) = (?g + Suc c) mod ?N"
      using f ring_end [of "unat (put_index f)" ?N ?g] c by (auto simp: fifo_count_def)
    also have "\<dots> = ((?g + 1) mod ?N + c) mod ?N"
      by (simp add: mod_add_left_eq)
    finally have "fifo_count n ?f = c"
      using ring_count [of "(?g + 1) mod ?N" ?N c] f(2) c1 by (simp add: fifo_count_def g1)
    then have "fifo_bytes n ?f = tl (fifo_bytes n f)" "hd (fifo_bytes n f) = rx_buffer f ! ?g"
      using ring_tl [of ?N "rx_buffer f" ?g c] f(2) c by (auto simp: fifo_bytes_ring g1 ring_def upt_conv_Cons simp del: upt_Suc)
    moreover have "fifo_ok n ?f"
      using Suc.prems f(2) by (auto simp: fifo_ok_def word_less_nat_alt g1)
    moreover have "\<not> (get_index f = put_index f \<and> \<not> is_full f)"
      using fifo_empty [OF Suc.prems] False by simp
    ultimately show ?thesis
      using Suc.IH [of ?f] False by (cases "fifo_bytes n f") (auto simp: Let_def split: prod.splits)
  qed
qed simp


lemma fifo_count_length: "fifo_ok n f \<Longrightarrow> unat (fifo_length n f) = fifo_count n f"
proof -
  assume "fifo_ok n f"
  then have f: "unat (put_index f) < unat n" "unat (get_index f) < unat n"
    by (auto simp: fifo_ok_def word_less_nat_alt)
  show ?thesis
  proof (cases "get_index f \<le> put_index f")
    case True
    then have e: "unat (put_index f) + unat n - unat (get_index f) = unat (put_index f) - unat (get_index f) + unat n"
      by (simp add: word_le_nat_alt)
    have "fifo_count n f = unat (put_index f) - unat (get_index f)"
      unfolding fifo_count_def e mod_add_self2 using f by (intro mod_less) simp
    then show ?thesis
      using True by (simp add: fifo_length_def unat_sub)
  next
    case False
    then have lt: "unat (put_index f) < unat (get_index f)"
      by (simp add: word_le_nat_alt)
    then have s: "unat (get_index f - put_index f) = unat (get_index f) - unat (put_index f)"
      by (simp add: unat_sub word_le_nat_alt)
    then have "unat (n - (get_index f - put_index f)) = unat n - (unat (get_index f) - unat (put_index f))"
      using f by (subst unat_sub) (auto simp: word_le_nat_alt)
    then show ?thesis
      using False lt f by (simp add: fifo_length_def fifo_count_def)
  qed
qed

lemma fifo_history: "2 \<le> unat n \<Longrightarrow> bounded_history (\<lambda>ch f. fst (fifo_put n ch f)) (fifo_bytes n) (fifo_ok n) (unat n - 1)"
  by unfold_locales (simp, rule fifo_put_law(1), assumption+, rule fifo_put_law(2))

abbreviation (input) RT_SERIAL_RB_BUFSZ :: u16 where "RT_SERIAL_RB_BUFSZ \<equiv> 64"

interpretation console_fifo: bounded_history "\<lambda>ch f. fst (fifo_put RT_SERIAL_RB_BUFSZ ch f)" "fifo_bytes RT_SERIAL_RB_BUFSZ"
    "fifo_ok RT_SERIAL_RB_BUFSZ" 63
  using fifo_history [of RT_SERIAL_RB_BUFSZ] by simp

lemma isr_loop_fold: "fst (isr_loop n l (f, w)) = fold (\<lambda>ch f. fst (fifo_put n ch f)) l f"
  by (induction l arbitrary: f w) (auto simp: split_def Let_def)

lemma fifo_count_less: "fifo_ok n f \<Longrightarrow> fifo_count n f \<le> unat n - 1"
proof -
  assume "fifo_ok n f"
  then have "0 < unat n"
    by (auto simp: fifo_ok_def word_less_nat_alt)
  then have "fifo_count n f < unat n"
    by (simp add: fifo_count_def)
  then show ?thesis
    by simp
qed

lemma isr_loop_law:
  assumes "fifo_ok n f" "2 \<le> unat n"
  shows "fifo_ok n (fst (isr_loop n l (f, w)))" "fifo_bytes n (fst (isr_loop n l (f, w))) = last_n (unat n - 1) (fifo_bytes n f @ l)"
proof -
  have h: "bounded_history (\<lambda>ch f. fst (fifo_put n ch f)) (fifo_bytes n) (fifo_ok n) (unat n - 1)"
    by (rule fifo_history [OF assms(2)])
  show "fifo_ok n (fst (isr_loop n l (f, w)))"
    unfolding isr_loop_fold using bounded_history.fold_push_inv [OF h assms(1)] .
  show "fifo_bytes n (fst (isr_loop n l (f, w))) = last_n (unat n - 1) (fifo_bytes n f @ l)"
    unfolding isr_loop_fold using fifo_count_less [OF assms(1)] by (intro bounded_history.fold_push_contents [OF h assms(1)]) simp
qed

lemma isr_loop_lossless:
  "fifo_ok n f \<Longrightarrow> 2 \<le> unat n \<Longrightarrow> \<not> snd (isr_loop n l (f, w)) \<Longrightarrow> \<not> w \<and> fifo_bytes n (fst (isr_loop n l (f, w))) = fifo_bytes n f @ l"
proof (induction l arbitrary: f w)
  case (Cons ch l)
  obtain f' r where p: "fifo_put n ch f = (f', r)"
    by fastforce
  note law = fifo_put_law [OF Cons.prems(1,2), of ch, unfolded p fst_conv snd_conv]
  have "\<not> (w \<or> r) \<and> fifo_bytes n (fst (isr_loop n l (f', w \<or> r))) = fifo_bytes n f' @ l"
    by (rule Cons.IH [OF law(1) Cons.prems(2)]) (use Cons.prems(3) in \<open>simp add: p\<close>)
  then have IH: "\<not> w" "\<not> r" "fifo_bytes n (fst (isr_loop n l (f', False))) = fifo_bytes n f' @ l"
    by auto
  then have "fifo_count n f < unat n - 1"
    using law(3) fifo_count_less [OF Cons.prems(1)] by auto
  then have "fifo_bytes n f' = fifo_bytes n f @ [ch]"
    using law(2) by (simp add: last_n_all)
  then show ?case
    using IH by (simp add: p)
qed simp

section \<open>The serial driver as a device\<close>

text \<open>The flags of an open device say which buffers it has.\<close>

definition serial_good :: "serial \<Rightarrow> bool" where
  "serial_good s \<longleftrightarrow> (open_flag (fst s) AND RT_DEVICE_FLAG_INT_RX \<noteq> 0) = (serial_rx (snd s) \<noteq> None) \<and>
     (open_flag (fst s) AND RT_DEVICE_FLAG_INT_TX \<noteq> 0) = serial_tx (snd s) \<and>
     (case serial_rx (snd s) of None \<Rightarrow> True | Some f \<Rightarrow> 2 \<le> unat (bufsz (snd s)) \<longrightarrow> fifo_ok (bufsz (snd s)) f)"

lemma serial_good_iff:
  "serial_good (d, x) \<longleftrightarrow> (open_flag d AND RT_DEVICE_FLAG_INT_RX \<noteq> 0) = (serial_rx x \<noteq> None) \<and>
     (open_flag d AND RT_DEVICE_FLAG_INT_TX \<noteq> 0) = serial_tx x \<and>
     (\<forall>f. serial_rx x = Some f \<longrightarrow> 2 \<le> unat (bufsz x) \<longrightarrow> fifo_ok (bufsz x) f)"
  by (simp add: serial_good_def split: option.splits)

definition serial_idle :: "rt_serial_device \<Rightarrow> bool" where
  "serial_idle x \<longleftrightarrow> serial_rx x = None \<and> \<not> serial_tx x"

text \<open>Whoever opens the device again asks for the interrupts that are in use.\<close>

definition serial_allowed :: "u16 \<Rightarrow> serial \<Rightarrow> bool" where
  "serial_allowed oflag s \<longleftrightarrow> (serial_rx (snd s) \<noteq> None \<longrightarrow> oflag AND RT_DEVICE_FLAG_INT_RX \<noteq> 0) \<and>
     (serial_tx (snd s) \<longrightarrow> oflag AND RT_DEVICE_FLAG_INT_TX \<noteq> 0)"

lemma int_flag_bits:
  fixes a b :: u16
  shows "(a OR b) AND RT_DEVICE_FLAG_INT_RX = (a AND RT_DEVICE_FLAG_INT_RX) OR (b AND RT_DEVICE_FLAG_INT_RX)"
    "(a OR b) AND RT_DEVICE_FLAG_INT_TX = (a AND RT_DEVICE_FLAG_INT_TX) OR (b AND RT_DEVICE_FLAG_INT_TX)"
    "(a AND 0xff) AND RT_DEVICE_FLAG_INT_RX = 0" "(a AND 0xff) AND RT_DEVICE_FLAG_INT_TX = 0"
    "(a AND NOT RT_DEVICE_FLAG_INT_RX) AND RT_DEVICE_FLAG_INT_TX = a AND RT_DEVICE_FLAG_INT_TX"
    "(a AND - 257) AND RT_DEVICE_FLAG_INT_TX = a AND RT_DEVICE_FLAG_INT_TX"
  by (simp_all add: word_ao_dist and.assoc)

lemma new_fifo_ok: "2 \<le> unat n \<Longrightarrow> fifo_ok n \<lparr>rx_buffer = replicate (unat n) 0, put_index = 0, get_index = 0, is_full = False\<rparr>"
  by (simp add: fifo_ok_def word_less_nat_alt)

lemma open_rx_law:
  assumes "open_rx oflag (d, x) = (d', x')"
  shows "d' = d\<lparr>open_flag := (if oflag AND RT_DEVICE_FLAG_INT_RX = 0 then open_flag d else open_flag d OR RT_DEVICE_FLAG_INT_RX)\<rparr>"
    "serial_rx x' = (if oflag AND RT_DEVICE_FLAG_INT_RX = 0 \<or> serial_rx x \<noteq> None then serial_rx x
       else Some \<lparr>rx_buffer = replicate (unat (bufsz x)) 0, put_index = 0, get_index = 0, is_full = False\<rparr>)"
    "serial_tx x' = serial_tx x" "bufsz x' = bufsz x"
  using assms by (auto simp: open_rx_def Let_def calls_def split: if_splits)

lemma open_tx_law:
  assumes "open_tx oflag (d, x) = (d', x')"
  shows "d' = d\<lparr>open_flag := (if oflag AND RT_DEVICE_FLAG_INT_TX = 0 then open_flag d else open_flag d OR RT_DEVICE_FLAG_INT_TX)\<rparr>"
    "serial_rx x' = serial_rx x" "serial_tx x' = (serial_tx x \<or> oflag AND RT_DEVICE_FLAG_INT_TX \<noteq> 0)" "bufsz x' = bufsz x"
  using assms by (auto simp: open_tx_def Let_def calls_def split: if_splits)

lemma serial_open_law:
  assumes "serial_good (d, x)" "serial_allowed oflag (d, x)"
  shows "\<exists>r d' x'. rt_serial_open oflag (d, x) = Some (r, d', x') \<and> serial_good (d', x') \<and>
      ref_count d' = ref_count d \<and> dev_flag d' = dev_flag d \<and> r \<noteq> - RT_ENOSYS \<and> (r \<noteq> RT_EOK \<longrightarrow> d' = d \<and> x' = x)"
proof -
  obtain d1 x1 where rx: "open_rx oflag (d\<lparr>open_flag := oflag AND 0xff\<rparr>, x) = (d1, x1)"
    by fastforce
  obtain d2 x2 where tx: "open_tx oflag (d1, x1) = (d2, x2)"
    by fastforce
  note a = open_rx_law [OF rx] and b = open_tx_law [OF tx]
  have flags: "(open_flag d2 AND RT_DEVICE_FLAG_INT_RX \<noteq> 0) = (oflag AND RT_DEVICE_FLAG_INT_RX \<noteq> 0)"
    "(open_flag d2 AND RT_DEVICE_FLAG_INT_TX \<noteq> 0) = (oflag AND RT_DEVICE_FLAG_INT_TX \<noteq> 0)"
    unfolding a(1) b(1) by (auto simp: int_flag_bits)
  have "serial_good (d2\<lparr>open_flag := open_flag d2 OR m\<rparr>, x2)" if "m = 0 \<or> m = RT_DEVICE_FLAG_STREAM" for m
  proof -
    have m: "m AND RT_DEVICE_FLAG_INT_RX = 0" "m AND RT_DEVICE_FLAG_INT_TX = 0"
      using that by auto
    show ?thesis
      using assms flags new_fifo_ok [of "bufsz x"]
      by (auto simp: serial_good_iff serial_allowed_def int_flag_bits m a(2-4) b(2-4) split: option.splits if_splits)
  qed
  moreover have "ref_count d2 = ref_count d" "dev_flag d2 = dev_flag d"
    by (simp_all add: a(1) b(1))
  ultimately show ?thesis
    using assms(1) by (simp add: rt_serial_open_def rx tx Let_def)
qed

lemma serial_close_law:
  assumes "serial_good (d, x)" "ref_count d = 0"
  shows "\<exists>d' x'. rt_serial_close (d, x) = Some (RT_EOK, d', x') \<and> serial_idle x' \<and> serial_good (d'\<lparr>open_flag := 0\<rparr>, x') \<and>
      ref_count d' = 0 \<and> dev_flag d' = dev_flag d"
  using assms by (auto simp: rt_serial_close_def serial_good_iff serial_idle_def calls_def int_flag_bits)

interpretation serial_driver: device_driver serial_ops rt_serial_init rt_serial_open rt_serial_close serial_good serial_idle serial_allowed
proof
  show "op_init serial_ops = Some rt_serial_init" "op_open serial_ops = Some rt_serial_open" "op_close serial_ops = Some rt_serial_close"
    by (simp_all add: serial_ops_def)
  show "\<exists>r d' x'. rt_serial_init (d, x) = Some (r, d', x') \<and> ref_count d' = ref_count d \<and> dev_flag d' = dev_flag d \<and>
      (r = RT_EOK \<longrightarrow> serial_idle x' \<and> serial_good (d'\<lparr>open_flag := 0\<rparr>, x')) \<and> open_flag d' = open_flag d" for d x
    by (simp add: rt_serial_init_def serial_idle_def serial_good_iff calls_def)
  show "serial_good (d\<lparr>ref_count := n\<rparr>, x) = serial_good (d, x)" "serial_good (d\<lparr>dev_flag := m\<rparr>, x) = serial_good (d, x)"
    "serial_good (d\<lparr>open_flag := open_flag d OR RT_DEVICE_OFLAG_OPEN\<rparr>, x) = serial_good (d, x)" for d n m x
    by (simp_all add: serial_good_iff int_flag_bits)
  show "serial_idle x \<Longrightarrow> serial_allowed oflag (d, x)" for x oflag d
    by (simp add: serial_idle_def serial_allowed_def)
qed (fact serial_open_law serial_close_law)+


text \<open>What callers of the device layer and the hardware do.\<close>

datatype serial_op = Open u16 | Close | Read nat | Write "u8 list" | Ctrl int nat | Arrive "u8 list" | Isr

fun serial_step :: "serial_op \<Rightarrow> serial \<Rightarrow> serial option" where
  "serial_step (Open oflag) s = map_option snd (rt_device_open serial_ops oflag s)"
| "serial_step Close s = map_option snd (rt_device_close serial_ops s)"
| "serial_step (Read n) s = map_option (snd \<circ> snd) (rt_device_read serial_ops n s)"
| "serial_step (Write bs) s = map_option (snd \<circ> snd) (rt_device_write serial_ops bs s)"
| "serial_step (Ctrl cmd arg) s = map_option snd (rt_device_control serial_ops cmd arg s)"
| "serial_step (Arrive bs) s = Some (fst s, (snd s)\<lparr>rx_line := rx_line (snd s) @ bs\<rparr>)"
| "serial_step Isr s = map_option snd (rt_hw_serial_isr s)"

text \<open>The interrupt is enabled while there is a buffer.\<close>

fun serial_op_ok :: "serial_op \<Rightarrow> serial \<Rightarrow> bool" where
  "serial_op_ok (Open oflag) s = (ref_count (fst s) < 255 \<and> serial_allowed oflag s)"
| "serial_op_ok Isr s = (ref_count (fst s) \<noteq> 0 \<and> serial_rx (snd s) \<noteq> None)"
| "serial_op_ok op s = True"

fun serial_run :: "serial_op list \<Rightarrow> serial \<Rightarrow> serial option" where
  "serial_run [] s = Some s"
| "serial_run (op # ops) s = do { s' \<leftarrow> serial_step op s; serial_run ops s' }"

abbreviation serial_inv :: "serial \<Rightarrow> bool" where
  "serial_inv \<equiv> dev_ok serial_good serial_idle"

lemma read_ok:
  assumes "serial_inv s"
  shows "\<exists>s'. serial_step (Read n) s = Some s' \<and> serial_inv s' \<and> ref_count (fst s') = ref_count (fst s)"
proof (cases "ref_count (fst s) = 0")
  case True
  then show ?thesis
    using assms by (simp add: rt_device_read_def)
next
  case False
  obtain d x where s: "s = (d, x)"
    by fastforce
  have g: "serial_good (d, x)" "dev_flag d AND RT_DEVICE_FLAG_ACTIVATED \<noteq> 0"
    using assms False by (auto simp: dev_ok_def s split: if_splits)
  have "\<exists>bs x'. rt_serial_read n (d, x) = Some (bs, d, x') \<and> serial_good (d, x')"
  proof (cases "serial_rx x")
    case None
    then have "open_flag d AND RT_DEVICE_FLAG_INT_RX = 0"
      using g(1) by (simp add: serial_good_iff)
    then show ?thesis
      using g(1) by (simp add: rt_serial_read_def serial_good_iff split: prod.split)
  next
    case (Some f)
    then have "open_flag d AND RT_DEVICE_FLAG_INT_RX \<noteq> 0" "2 \<le> unat (bufsz x) \<Longrightarrow> fifo_ok (bufsz x) (snd (fifo_read (bufsz x) n f))"
      using g(1) fifo_read_law [of "bufsz x" f n] by (simp_all add: serial_good_iff)
    then show ?thesis
      using g(1) Some by (auto simp: rt_serial_read_def serial_good_iff Let_def split_def)
  qed
  then obtain bs x' where "rt_serial_read n (d, x) = Some (bs, d, x')" "serial_good (d, x')"
    by blast
  then show ?thesis
    using False g(2) by (simp add: s rt_device_read_def serial_ops_def dev_ok_def)
qed

lemma write_ok:
  assumes "serial_inv s"
  shows "\<exists>s'. serial_step (Write bs) s = Some s' \<and> serial_inv s' \<and> ref_count (fst s') = ref_count (fst s)"
  using assms by (cases s) (auto simp: rt_device_write_def serial_ops_def rt_serial_write_def dev_ok_def serial_good_iff split: if_splits)

lemma activated_suspend:
  fixes f :: u16
  shows "(f OR RT_DEVICE_FLAG_SUSPENDED) AND RT_DEVICE_FLAG_ACTIVATED = f AND RT_DEVICE_FLAG_ACTIVATED"
    "(f AND NOT RT_DEVICE_FLAG_SUSPENDED) AND RT_DEVICE_FLAG_ACTIVATED = f AND RT_DEVICE_FLAG_ACTIVATED"
    "(f AND - 33) AND RT_DEVICE_FLAG_ACTIVATED = f AND RT_DEVICE_FLAG_ACTIVATED"
  by (simp_all add: word_ao_dist and.assoc)

lemma serial_control_ok:
  assumes "serial_inv s"
  shows "\<exists>s'. serial_step (Ctrl cmd arg) s = Some s' \<and> serial_inv s' \<and> ref_count (fst s') = ref_count (fst s)"
  using assms
  by (cases s) (auto simp: rt_device_control_def serial_ops_def rt_serial_control_def dev_ok_def serial_good_iff serial_idle_def
      activated_suspend calls_def Let_def split: if_splits)

lemma isr_ok:
  assumes "serial_inv s" "ref_count (fst s) \<noteq> 0" "serial_rx (snd s) \<noteq> None"
  shows "\<exists>s'. serial_step Isr s = Some s' \<and> serial_inv s' \<and> ref_count (fst s') = ref_count (fst s)"
proof -
  obtain d x f where s: "s = (d, x)" "serial_rx x = Some f"
    using assms(3) by (cases s) auto
  then have "2 \<le> unat (bufsz x) \<Longrightarrow> fifo_ok (bufsz x) f"
    using assms(1,2) by (auto simp: dev_ok_def serial_good_iff split: if_splits)
  then show ?thesis
    using assms(1,2) s isr_loop_law(1) [of "bufsz x" f "rx_line x" "already_output x"]
    by (auto simp: rt_hw_serial_isr_def dev_ok_def serial_good_iff split_def Let_def split: if_splits)
qed

lemma serial_step_ok:
  assumes "serial_inv s" "serial_op_ok op s"
  shows "\<exists>s'. serial_step op s = Some s' \<and> serial_inv s'"
proof (cases op)
  case (Open oflag)
  then show ?thesis
    using serial_driver.open_ok [of "fst s" "snd s" oflag] assms by auto
next
  case Close
  then show ?thesis
    using serial_driver.close_ok [of "fst s" "snd s"] assms by auto
next
  case (Arrive bs)
  then show ?thesis
    using assms by (cases s) (auto simp: dev_ok_def serial_good_iff serial_idle_def)
next
  case (Read n)
  then show ?thesis using read_ok [OF assms(1)] by blast
next
  case (Write bs)
  then show ?thesis using write_ok [OF assms(1)] by blast
next
  case (Ctrl cmd arg)
  then show ?thesis using serial_control_ok [OF assms(1)] by blast
next
  case Isr
  then show ?thesis using isr_ok [OF assms(1)] assms(2) by auto
qed


fun serial_ops_ok :: "serial_op list \<Rightarrow> serial \<Rightarrow> bool" where
  "serial_ops_ok [] s = True"
| "serial_ops_ok (op # ops) s = (serial_op_ok op s \<and> (case serial_step op s of None \<Rightarrow> True | Some s' \<Rightarrow> serial_ops_ok ops s'))"

lemma serial_run_ok: "serial_inv s \<Longrightarrow> serial_ops_ok ops s \<Longrightarrow> \<exists>s'. serial_run ops s = Some s' \<and> serial_inv s'"
proof (induction ops arbitrary: s)
  case (Cons op ops)
  then obtain s' where "serial_step op s = Some s'" "serial_inv s'"
    using serial_step_ok [of s op] by auto
  then show ?case
    using Cons by auto
qed simp


definition uart1 :: rt_serial_device where
  "uart1 = \<lparr>bufsz = RT_SERIAL_RB_BUFSZ, serial_rx = None, serial_tx = False, rx_line = [], tx_line = [], configure_result = RT_EOK,
     already_output = False, uart_calls = []\<rparr>"

definition uart1_dev :: rt_device where
  "uart1_dev = \<lparr>dev_flag = 0x103, open_flag = 0, ref_count = 0, rx_indicate = None, tx_complete = None\<rparr>"


text \<open>Opened again without the receive interrupt, the device forgets that it has a buffer: the byte that was received
  stays in it, reads poll the register, and the buffer and the interrupt outlive the last close.\<close>

lemma reopen_forgets_buffer:
  "map_option (\<lambda>s. (ref_count (fst s), serial_rx (snd s) \<noteq> None, uart_calls (snd s)))
     (serial_run [Open 0x103, Arrive [104], Isr, Open 3, Read 1, Close, Close] (uart1_dev, uart1)) =
   Some (0, True, [Configure, Set_Int RT_DEVICE_FLAG_INT_RX])"
  by code_simp

end
