(* ===== verification/Console.thy ===== *)
theory Console
  imports Serial "HOL-Library.Sublist"
begin

text \<open>
  Console input: the interrupt of the UART (\<^verbatim>\<open>serial.c\<close>), the shell's semaphore (\<^verbatim>\<open>ipc.c\<close>) and the loop in which the shell
  thread waits for a character (\<open>finsh_getchar\<close>, \<open>finsh_rx_ind\<close> and \<open>finsh_set_device\<close> of
  \<^verbatim>\<open>rt-thread/components/finsh/shell.c\<close>), as interleaved steps.
\<close>

section \<open>State and operations\<close>

text \<open>Where the shell thread is in \<open>finsh_getchar\<close>: before \<open>rt_device_read\<close>, before \<open>rt_sem_take\<close>, or inside it.  \<open>got\<close> are
  the characters that were returned and \<open>arrived\<close> those that came in since the device was set; \<open>printed\<close> are the calls of
  \<open>rt_kprintf\<close> with a format and one string.  The line buffer of \<open>struct finsh_shell\<close> has \<open>FINSH_CMD_SIZE + 1\<close> = 81 bytes;
  it is here only for \<open>finsh_set_device\<close> to clear, which happens before the prompt, and its editing is in the theory \<open>Shell\<close>.\<close>

datatype getchar_pc = At_Read | At_Take | In_Take

record finsh_io =
  io_sys :: ipc_sys
  devices :: "string \<Rightarrow> serial option"
  shell_device :: "string option"
  printed :: "(string \<times> string) list"
  shell_line :: "u8 list"
  line_position :: u16
  line_curpos :: u16
  getchar_pc :: getchar_pc
  got :: "u8 list"
  arrived :: "u8 list"

definition put_device :: "string \<Rightarrow> serial \<Rightarrow> finsh_io \<Rightarrow> finsh_io" where
  "put_device v s c = c\<lparr>devices := (devices c)(v \<mapsto> s)\<rparr>"

text \<open>The callback \<open>finsh_rx_ind\<close> is number 1.\<close>

definition close_old :: "finsh_io \<Rightarrow> finsh_io option" where
  "close_old c =
     (case shell_device c of None \<Rightarrow> Some c
      | Some old \<Rightarrow> do { s \<leftarrow> devices c old;
                         (r, d, x) \<leftarrow> rt_device_close serial_ops s;
                         Some (put_device old (rt_device_set_rx_indicate None d, x) c) })"

definition finsh_set_device :: "string \<Rightarrow> finsh_io \<Rightarrow> finsh_io option" where
  "finsh_set_device v c =
     (case devices c v of None \<Rightarrow> Some (c\<lparr>printed := printed c @ [(''finsh: can not find device: %s\<newline>'', v)]\<rparr>)
      | Some s \<Rightarrow>
          if shell_device c = Some v then Some c
          else do { (r, s1) \<leftarrow> rt_device_open serial_ops 0x143 s;
                    let c1 = put_device v s1 c;
                    if r \<noteq> RT_EOK then Some c1
                    else do { c2 \<leftarrow> close_old c1;
                              (d, x) \<leftarrow> devices c2 v;
                              Some (put_device v (rt_device_set_rx_indicate (Some 1) d, x)
                                (c2\<lparr>shell_line := replicate 81 0, line_curpos := 0, line_position := 0, shell_device := Some v\<rparr>)) } })"

definition finsh_rx_ind :: "nat \<Rightarrow> finsh_io \<Rightarrow> finsh_io option" where
  "finsh_rx_ind rx_sem c = do { (r, s) \<leftarrow> rt_sem_release rx_sem (io_sys c); Some (c\<lparr>io_sys := s\<rparr>) }"

text \<open>Some bytes arrive and the UART interrupts.\<close>

definition uart_interrupt :: "nat \<Rightarrow> string \<Rightarrow> u8 list \<Rightarrow> finsh_io \<Rightarrow> finsh_io option" where
  "uart_interrupt rx_sem v bs c =
     do { (d, x) \<leftarrow> devices c v;
          (ind, s) \<leftarrow> rt_hw_serial_isr (d, x\<lparr>rx_line := rx_line x @ bs\<rparr>);
          let c1 = (put_device v s c)\<lparr>arrived := arrived c @ bs\<rparr>;
          if ind = None then Some c1 else finsh_rx_ind rx_sem c1 }"

text \<open>One step of the shell thread; after a character is returned the shell calls \<open>finsh_getchar\<close> again.\<close>

definition finsh_getchar :: "nat \<Rightarrow> finsh_io \<Rightarrow> finsh_io option" where
  "finsh_getchar rx_sem c =
     (case getchar_pc c of
        At_Read \<Rightarrow> do { v \<leftarrow> shell_device c;
                        s \<leftarrow> devices c v;
                        (bs, e, s1) \<leftarrow> rt_device_read serial_ops 1 s;
                        let c1 = put_device v s1 c;
                        Some (if length bs \<noteq> 1 then c1\<lparr>getchar_pc := At_Take\<rparr> else c1\<lparr>got := got c @ bs\<rparr>) }
      | At_Take \<Rightarrow> do { (r, s) \<leftarrow> rt_sem_take rx_sem (- 1) (io_sys c); Some (c\<lparr>io_sys := s, getchar_pc := In_Take\<rparr>) }
      | In_Take \<Rightarrow> Some (c\<lparr>getchar_pc := At_Read\<rparr>))"

text \<open>The shell thread \<open>t\<close> runs when it is the current thread.  The rest of the system does what it likes with the kernel
  but leaves the shell's semaphore alone.\<close>

definition leaves_alone :: "nat \<Rightarrow> ipc_sys \<Rightarrow> ipc_sys \<Rightarrow> bool" where
  "leaves_alone i s s' \<longleftrightarrow> ipc_wf s' \<and> sems s' i = sems s i \<and> set (waiting (kern s') i) \<subseteq> set (waiting (kern s) i)"

inductive console_step :: "nat \<Rightarrow> nat \<Rightarrow> finsh_io \<Rightarrow> finsh_io \<Rightarrow> bool" for t rx_sem where
  getchar: "caller (io_sys c) t \<Longrightarrow> finsh_getchar rx_sem c = Some c' \<Longrightarrow> console_step t rx_sem c c'"
| interrupt: "shell_device c = Some v \<Longrightarrow> uart_interrupt rx_sem v bs c = Some c' \<Longrightarrow> console_step t rx_sem c c'"
| others: "leaves_alone rx_sem (io_sys c) s \<Longrightarrow> console_step t rx_sem c (c\<lparr>io_sys := s\<rparr>)"

inductive_cases console_stepE: "console_step t rx_sem c c'"

lemma kernel_leaves_alone: "ipc_wf s \<Longrightarrow> op_ok op (kern s) \<Longrightarrow> kernel_step op (kern s) = Some k \<Longrightarrow> leaves_alone i s (s\<lparr>kern := k\<rparr>)"
  using kernel_step_wf [of "kern s" op k] kernel_shrinks [of op "kern s" k]
  by (auto simp: leaves_alone_def ipc_wf_def [of s] intro!: ipc_wf_kern [of s])

lemma sem_leaves_alone:
  assumes "ipc_wf s" "caller s t" "j \<noteq> i" "rt_sem_take j time s = Some (r, s')"
  shows "leaves_alone i s s'"
proof -
  have k: "sched_wf (set_error t RT_EOK (kern s))" "rt_current_thread (set_error t RT_EOK (kern s)) = Some t"
    "stat (threads (set_error t RT_EOK (kern s)) t) = RT_THREAD_RUNNING"
    using assms(1,2) error_wf by (simp_all add: ipc_wf_def caller_def)
  show ?thesis
    using assms(2-4) sem_take_wf [OF assms(1,2,4)] block_on_law(3) [OF k]
    by (auto simp: leaves_alone_def rt_sem_take_def caller_def split: option.splits if_splits Option.bind_splits)
qed

section \<open>Invariant\<close>

text \<open>The device \<open>(d, x)\<close> of the shell is open and has the buffer \<open>f\<close>; \<open>sm\<close> is the semaphore.\<close>

definition input_open :: "rt_device \<Rightarrow> rt_serial_device \<Rightarrow> rt_serial_rx_fifo \<Rightarrow> bool" where
  "input_open d x f \<longleftrightarrow> ref_count d \<noteq> 0 \<and> open_flag d AND RT_DEVICE_FLAG_INT_RX \<noteq> 0 \<and> rx_indicate d \<noteq> None \<and> serial_rx x = Some f \<and>
     2 \<le> unat (bufsz x) \<and> fifo_ok (bufsz x) f \<and> rx_line x = []"

definition no_sleep :: "nat \<Rightarrow> getchar_pc \<Rightarrow> nat list \<Rightarrow> u16 \<Rightarrow> u8 list \<Rightarrow> bool" where
  "no_sleep t pc ws v bs \<longleftrightarrow> set ws \<subseteq> {t} \<and> (pc \<noteq> In_Take \<longrightarrow> ws = []) \<and> (ws \<noteq> [] \<longrightarrow> bs = []) \<and> (pc = At_Take \<and> bs \<noteq> [] \<longrightarrow> v > 0)"

definition in_order :: "bool \<Rightarrow> u8 list \<Rightarrow> u8 list \<Rightarrow> bool" where
  "in_order lost out bs \<longleftrightarrow> subseq out bs \<and> (\<not> lost \<longrightarrow> out = bs)"

definition console_inv :: "nat \<Rightarrow> nat \<Rightarrow> finsh_io \<Rightarrow> bool" where
  "console_inv t rx_sem c \<longleftrightarrow> ipc_wf (io_sys c) \<and> (\<exists>v d x f sm. shell_device c = Some v \<and> devices c v = Some (d, x) \<and> input_open d x f \<and>
     sems (io_sys c) rx_sem = Some sm \<and>
     no_sleep t (getchar_pc c) (waiting (kern (io_sys c)) rx_sem) (sem_value sm) (fifo_bytes (bufsz x) f) \<and>
     in_order (already_output x) (got c @ fifo_bytes (bufsz x) f) (arrived c))"

lemma console_invI:
  assumes "ipc_wf (io_sys c)" "shell_device c = Some v" "devices c v = Some (d, x)" "input_open d x f" "sems (io_sys c) i = Some sm"
    and "no_sleep t (getchar_pc c) (waiting (kern (io_sys c)) i) (sem_value sm) (fifo_bytes (bufsz x) f)"
    and "in_order (already_output x) (got c @ fifo_bytes (bufsz x) f) (arrived c)"
  shows "console_inv t i c"
  using assms unfolding console_inv_def by blast

lemma not_waiting: "ipc_wf s \<Longrightarrow> caller s t \<Longrightarrow> t \<notin> set (waiting (kern s) i)"
  using queues_okD(5) [of "{}" "kern s" t i] by (auto simp: ipc_wf_def sched_wf_def caller_def)

lemma read_law:
  assumes "input_open d x f" "fifo_read (bufsz x) 1 f = (bs, f')"
  shows "rt_device_read serial_ops 1 (d, x) = Some (bs, None, d, x\<lparr>serial_rx := Some f'\<rparr>)" "input_open d (x\<lparr>serial_rx := Some f'\<rparr>) f'"
    "bs = take 1 (fifo_bytes (bufsz x) f)" "fifo_bytes (bufsz x) f' = drop 1 (fifo_bytes (bufsz x) f)"
  using assms fifo_read_law [of "bufsz x" f 1]
  by (auto simp: input_open_def rt_device_read_def serial_ops_def rt_serial_read_def simp del: fifo_read.simps One_nat_def)

lemma isr_law:
  assumes "input_open d x f" "isr_loop (bufsz x) bs (f, already_output x) = (f', w)"
  shows "rt_hw_serial_isr (d, x\<lparr>rx_line := rx_line x @ bs\<rparr>) =
      Some (if fifo_bytes (bufsz x) f' = [] then None else Some (fifo_length (bufsz x) f'), d, x\<lparr>serial_rx := Some f', rx_line := [], already_output := w\<rparr>)"
    "input_open d (x\<lparr>serial_rx := Some f', rx_line := [], already_output := w\<rparr>) f'"
    "fifo_bytes (bufsz x) f' = last_n (unat (bufsz x) - 1) (fifo_bytes (bufsz x) f @ bs)"
    "\<not> w \<Longrightarrow> \<not> already_output x \<and> fifo_bytes (bufsz x) f' = fifo_bytes (bufsz x) f @ bs"
proof -
  have f: "fifo_ok (bufsz x) f" "2 \<le> unat (bufsz x)"
    using assms(1) by (simp_all add: input_open_def)
  note law = isr_loop_law [OF f, of bs "already_output x", unfolded assms(2) fst_conv]
  show "input_open d (x\<lparr>serial_rx := Some f', rx_line := [], already_output := w\<rparr>) f'"
    using assms(1) law(1) by (simp add: input_open_def)
  show "fifo_bytes (bufsz x) f' = last_n (unat (bufsz x) - 1) (fifo_bytes (bufsz x) f @ bs)"
    by (rule law(2))
  show "\<not> w \<Longrightarrow> \<not> already_output x \<and> fifo_bytes (bufsz x) f' = fifo_bytes (bufsz x) f @ bs"
    using isr_loop_lossless [OF f, of bs "already_output x"] assms(2) by simp
  have "fifo_length (bufsz x) f' = 0 \<longleftrightarrow> fifo_bytes (bufsz x) f' = []"
    using fifo_count_length [OF law(1)] by (simp add: fifo_bytes_def flip: unat_eq_zero)
  then show "rt_hw_serial_isr (d, x\<lparr>rx_line := rx_line x @ bs\<rparr>) =
      Some (if fifo_bytes (bufsz x) f' = [] then None else Some (fifo_length (bufsz x) f'), d, x\<lparr>serial_rx := Some f', rx_line := [], already_output := w\<rparr>)"
    using assms by (auto simp: input_open_def rt_hw_serial_isr_def Let_def)
qed

lemma in_order_put:
  assumes "in_order l (g @ bs) a" "bs' = last_n k (bs @ new)" "\<not> l' \<Longrightarrow> \<not> l \<and> bs' = bs @ new"
  shows "in_order l' (g @ bs') (a @ new)"
proof -
  have "subseq (g @ bs @ new) (a @ new)"
    using assms(1) subseq_append_le_same_iff by (auto simp: in_order_def simp flip: append_assoc)
  moreover have "subseq (g @ bs') (g @ bs @ new)"
    unfolding assms(2) last_n_def subseq_append' by (intro suffix_imp_subseq suffix_drop)
  ultimately show ?thesis
    using assms(1,3) subseq_order.order_trans by (auto simp: in_order_def)
qed

lemma release_law:
  assumes "ipc_wf s" "sems s i = Some sm" "rt_sem_release i s = Some (r, s')" "set (waiting (kern s) i) \<subseteq> {t}"
  shows "ipc_wf s'" "\<exists>sm'. sems s' i = Some sm' \<and> (waiting (kern s) i = [] \<longrightarrow> sem_value sm' > 0)" "waiting (kern s') i = []"
proof -
  show "ipc_wf s'"
    by (rule sem_release_wf [OF assms(1,3)])
  have w: "sched_wf (kern s)" "distinct (waiting (kern s) i)"
    using assms(1) queues_okD(6) by (auto simp: ipc_wf_def sched_wf_def)
  have up: "v < 0xFFFF \<Longrightarrow> 0 < v + 1" "\<not> v < 0xFFFF \<Longrightarrow> 0 < v" for v :: u16
    by (simp_all add: word_less_nat_alt unat_word_ariths)
  show "\<exists>sm'. sems s' i = Some sm' \<and> (waiting (kern s) i = [] \<longrightarrow> sem_value sm' > 0)"
  proof (cases "waiting (kern s) i = []")
    case True
    then show ?thesis
      using assms(2,3) True up [of "sem_value sm"] by (auto simp: rt_sem_release_def split: if_splits)
  next
    case False
    then show ?thesis
      using assms(2,3) by (auto simp: rt_sem_release_def split: Option.bind_splits)
  qed
  show "waiting (kern s') i = []"
  proof (cases "waiting (kern s) i = []")
    case True
    then show ?thesis
      using assms(2,3) by (auto simp: rt_sem_release_def split: if_splits)
  next
    case False
    then have "waiting (kern s) i = [t]"
      using assms(4) w(2) by (cases "waiting (kern s) i"; cases "tl (waiting (kern s) i)") auto
    moreover obtain k1 k2 where k: "rt_ipc_list_resume i (kern s) = Some k1" "rt_schedule k1 = Some k2" "s' = s\<lparr>kern := k2\<rparr>"
      using assms(2,3) False by (auto simp: rt_sem_release_def split: Option.bind_splits)
    moreover have "t \<notin> set (waiting k1 i)" "set (waiting k1 i) \<subseteq> set (waiting (kern s) i)"
      using list_resume_shrinks(2,3) [OF w(1) k(1)] calculation(1) by (metis list.sel(1)) (rule list_resume_shrinks(2) [OF w(1) k(1)])
    ultimately have "waiting k1 i = []"
      by (cases "waiting k1 i") auto
    then show ?thesis
      using schedule_shrinks [OF k(2), of i] by (simp add: k(3))
  qed
qed

lemma interrupt_inv:
  assumes "console_inv t i c" "shell_device c = Some v" "uart_interrupt i v bs c = Some c'"
  shows "console_inv t i c'"
proof -
  obtain d x f sm where c: "devices c v = Some (d, x)" "input_open d x f" "sems (io_sys c) i = Some sm" "ipc_wf (io_sys c)"
    and n: "no_sleep t (getchar_pc c) (waiting (kern (io_sys c)) i) (sem_value sm) (fifo_bytes (bufsz x) f)"
    and o: "in_order (already_output x) (got c @ fifo_bytes (bufsz x) f) (arrived c)"
    using assms(1,2) by (auto simp: console_inv_def)
  obtain f' w where l: "isr_loop (bufsz x) bs (f, already_output x) = (f', w)"
    by fastforce
  note isr = isr_law [OF c(2) l]
  let ?x = "x\<lparr>serial_rx := Some f', rx_line := [], already_output := w\<rparr>"
  let ?c = "(put_device v (d, ?x) c)\<lparr>arrived := arrived c @ bs\<rparr>"
  have o': "in_order w (got c @ fifo_bytes (bufsz x) f') (arrived c @ bs)"
    by (rule in_order_put [OF o isr(3,4)])
  show ?thesis
  proof (cases "fifo_bytes (bufsz x) f' = []")
    case True
    then have "c' = ?c"
      using assms(3) by (simp add: uart_interrupt_def c(1) isr(1))
    then show ?thesis
      using c(3,4) n o' isr(2) assms(2) True by (intro console_invI [where f = f' and v = v]) (auto simp: put_device_def no_sleep_def)
  next
    case False
    then obtain r s where r: "rt_sem_release i (io_sys c) = Some (r, s)" "c' = ?c\<lparr>io_sys := s\<rparr>"
      using assms(3) by (auto simp: uart_interrupt_def c(1) isr(1) finsh_rx_ind_def put_device_def split: Option.bind_splits)
    have ws: "set (waiting (kern (io_sys c)) i) \<subseteq> {t}" "getchar_pc c \<noteq> In_Take \<Longrightarrow> waiting (kern (io_sys c)) i = []"
      using n by (auto simp: no_sleep_def)
    note rel = release_law [OF c(4,3) r(1) ws(1)]
    obtain sm' where sm': "sems s i = Some sm'" "waiting (kern (io_sys c)) i = [] \<Longrightarrow> sem_value sm' > 0"
      using rel(2) by blast
    show ?thesis
      unfolding r(2) using o' isr(2) assms(2) ws(2) rel(1,3) sm'
      by (intro console_invI [where f = f' and v = v and sm = sm']) (auto simp: put_device_def no_sleep_def)
  qed
qed

lemma take_law:
  assumes "ipc_wf s" "caller s t" "sems s i = Some sm" "rt_sem_take i (- 1) s = Some (r, s')" "waiting (kern s) i = []"
  shows "ipc_wf s'" "\<exists>sm'. sems s' i = Some sm'" "set (waiting (kern s') i) \<subseteq> {t}" "sem_value sm > 0 \<Longrightarrow> waiting (kern s') i = []"
proof -
  show "ipc_wf s'"
    by (rule sem_take_wf [OF assms(1,2,4)])
  have "(\<exists>sm'. sems s' i = Some sm') \<and> set (waiting (kern s') i) \<subseteq> {t} \<and> (sem_value sm > 0 \<longrightarrow> waiting (kern s') i = [])"
  proof (cases "sem_value sm > 0")
    case True
    then show ?thesis
      using assms(3-5) by (auto simp: rt_sem_take_def)
  next
    case False
    let ?k = "set_error t RT_EOK (kern s)"
    obtain k where b: "block_on i t (sem_flag sm) (- 1) ?k = Some (r, k)" "s' = s\<lparr>kern := k\<rparr>"
      using assms(2-4) False by (auto simp: rt_sem_take_def caller_def split: Option.bind_splits)
    have "sched_wf ?k" "rt_current_thread ?k = Some t" "stat (threads ?k t) = RT_THREAD_RUNNING"
      using assms(1,2) error_wf by (simp_all add: ipc_wf_def caller_def)
    note law = block_on_law [OF this b(1)]
    then show ?thesis
      using assms(3,5) False b(2) by simp
  qed
  then show "\<exists>sm'. sems s' i = Some sm'" "set (waiting (kern s') i) \<subseteq> {t}" "sem_value sm > 0 \<Longrightarrow> waiting (kern s') i = []"
    by auto
qed

lemma getchar_inv:
  assumes "console_inv t i c" "caller (io_sys c) t" "finsh_getchar i c = Some c'"
  shows "console_inv t i c'"
proof -
  obtain v d x f sm where c: "shell_device c = Some v" "devices c v = Some (d, x)" "input_open d x f" "sems (io_sys c) i = Some sm" "ipc_wf (io_sys c)"
    and n: "no_sleep t (getchar_pc c) (waiting (kern (io_sys c)) i) (sem_value sm) (fifo_bytes (bufsz x) f)"
    and o: "in_order (already_output x) (got c @ fifo_bytes (bufsz x) f) (arrived c)"
    using assms(1) by (auto simp: console_inv_def)
  have off: "waiting (kern (io_sys c)) i = []"
    using n not_waiting [OF c(5) assms(2)] by (auto simp: no_sleep_def subset_singleton_iff)
  show ?thesis
  proof (cases "getchar_pc c")
    case At_Read
    obtain bs f' where r: "fifo_read (bufsz x) 1 f = (bs, f')"
      by fastforce
    note law = read_law [OF c(3) r]
    have c': "c' = (if length bs \<noteq> 1 then (put_device v (d, x\<lparr>serial_rx := Some f'\<rparr>) c)\<lparr>getchar_pc := At_Take\<rparr>
      else (put_device v (d, x\<lparr>serial_rx := Some f'\<rparr>) c)\<lparr>got := got c @ bs\<rparr>)"
      using assms(3) At_Read c(1,2) law(1) by (auto simp: finsh_getchar_def Let_def simp del: One_nat_def)
    have "length bs \<noteq> 1 \<longleftrightarrow> fifo_bytes (bufsz x) f = []" "got c @ bs @ fifo_bytes (bufsz x) f' = got c @ fifo_bytes (bufsz x) f"
      using law(3,4) by (cases "fifo_bytes (bufsz x) f"; simp)+
    then show ?thesis
      unfolding c' using c(1,4,5) law(2-4) off o At_Read
      by (intro console_invI [where f = f' and v = v and sm = sm]) (auto simp: put_device_def no_sleep_def)
  next
    case At_Take
    then obtain r s where s: "rt_sem_take i (- 1) (io_sys c) = Some (r, s)" "c' = c\<lparr>io_sys := s, getchar_pc := In_Take\<rparr>"
      using assms(3) by (auto simp: finsh_getchar_def split: Option.bind_splits)
    note law = take_law [OF c(5) assms(2) c(4) s(1) off]
    obtain sm' where sm': "sems s i = Some sm'"
      using law(2) by blast
    show ?thesis
      unfolding s(2) using law(1,3,4) sm' c(1-3) o n At_Take by (intro console_invI [where f = f and v = v and sm = sm']) (auto simp: no_sleep_def)
  next
    case In_Take
    then show ?thesis
      using assms(3) c o off by (intro console_invI [where f = f and v = v and sm = sm]) (auto simp: finsh_getchar_def no_sleep_def)
  qed
qed

lemma console_step_inv: "console_step t i c c' \<Longrightarrow> console_inv t i c \<Longrightarrow> console_inv t i c'"
proof (induction rule: console_step.induct)
  case (others c s)
  then have "waiting (kern (io_sys c)) i = [] \<Longrightarrow> waiting (kern s) i = []"
    by (auto simp: leaves_alone_def)
  moreover obtain v d x f sm where "shell_device c = Some v" "devices c v = Some (d, x)" "input_open d x f" "sems (io_sys c) i = Some sm"
    "no_sleep t (getchar_pc c) (waiting (kern (io_sys c)) i) (sem_value sm) (fifo_bytes (bufsz x) f)"
    "in_order (already_output x) (got c @ fifo_bytes (bufsz x) f) (arrived c)"
    using others.prems by (auto simp: console_inv_def)
  ultimately show ?case
    using others.hyps by (intro console_invI [where f = f and v = v and sm = sm]) (auto simp: leaves_alone_def no_sleep_def)
qed (blast intro: getchar_inv interrupt_inv)+

lemma console_reach_inv: "(console_step t i)\<^sup>*\<^sup>* c c' \<Longrightarrow> console_inv t i c \<Longrightarrow> console_inv t i c'"
  by (induction rule: rtranclp_induct) (auto intro: console_step_inv)

section \<open>The shell gets its input\<close>

text \<open>Before the shell sets its device: the UART is registered and perhaps opened for output by the console, and nothing
  has arrived.\<close>

definition uart_ready :: "serial \<Rightarrow> bool" where
  "uart_ready s \<longleftrightarrow> ref_count (fst s) < 255 \<and> dev_flag (fst s) AND RT_DEVICE_FLAG_INT_RX \<noteq> 0 \<and>
     dev_flag (fst s) AND RT_DEVICE_FLAG_STANDALONE = 0 \<and>
     serial_rx (snd s) = None \<and> configure_result (snd s) = RT_EOK \<and> 2 \<le> unat (bufsz (snd s)) \<and> rx_line (snd s) = []"

definition input_ready :: "nat \<Rightarrow> string \<Rightarrow> finsh_io \<Rightarrow> bool" where
  "input_ready i v c \<longleftrightarrow> shell_device c = None \<and> sems (io_sys c) i \<noteq> None \<and> waiting (kern (io_sys c)) i = [] \<and>
     getchar_pc c = At_Read \<and> got c = [] \<and> arrived c = [] \<and> (case devices c v of None \<Rightarrow> False | Some s \<Rightarrow> uart_ready s)"

lemma activate_serial:
  assumes "uart_ready (d, x)"
  shows "\<exists>x'. activate_first serial_ops (d, x) = Some (RT_EOK, d\<lparr>dev_flag := dev_flag d OR RT_DEVICE_FLAG_ACTIVATED\<rparr>, x') \<and> serial_rx x' = None \<and>
    bufsz x' = bufsz x \<and> rx_line x' = [] \<and> already_output x' = already_output x \<or> activate_first serial_ops (d, x) = Some (RT_EOK, d, x)"
  using assms by (auto simp: activate_first_def serial_ops_def rt_serial_init_def uart_ready_def calls_def)

lemma open_input:
  assumes "uart_ready (d, x)"
  shows "\<exists>d' x'. rt_device_open serial_ops 0x143 (d, x) = Some (RT_EOK, d', x') \<and>
    input_open (d'\<lparr>rx_indicate := Some 1\<rparr>) x' \<lparr>rx_buffer = replicate (unat (bufsz x)) 0, put_index = 0, get_index = 0, is_full = False\<rparr> \<and>
    bufsz x' = bufsz x"
proof -
  obtain d0 x0 where a: "activate_first serial_ops (d, x) = Some (RT_EOK, d0, x0)" "ref_count d0 = ref_count d"
    "dev_flag d0 AND RT_DEVICE_FLAG_INT_RX \<noteq> 0" "dev_flag d0 AND RT_DEVICE_FLAG_STANDALONE = 0" "serial_rx x0 = None" "bufsz x0 = bufsz x" "rx_line x0 = []"
    using activate_serial [OF assms] assms by (fastforce simp: uart_ready_def word_ao_dist)
  have ne: "ref_count d + 1 \<noteq> 0"
    using assms by (auto simp: uart_ready_def word_less_nat_alt unat_word_ariths word_unat_eq_iff)
  have "lacks RT_DEVICE_FLAG_DMA_RX 0x143 f = False" "lacks RT_DEVICE_FLAG_DMA_TX 0x143 f = False" "lacks RT_DEVICE_FLAG_INT_TX 0x143 f = False"
    "lacks RT_DEVICE_FLAG_INT_RX 0x143 (dev_flag d0) = False" for f
    using a(3) by (simp_all add: lacks_def)
  then show ?thesis
    using a ne assms new_fifo_ok [of "bufsz x"]
    by (simp add: rt_device_open_def serial_ops_def rt_serial_open_def open_rx_def open_tx_def Let_def calls_def input_open_def uart_ready_def)
qed

lemma set_device_law:
  assumes "ipc_wf (io_sys c)" "input_ready i v c"
  shows "\<exists>c'. finsh_set_device v c = Some c' \<and> console_inv t i c'"
proof -
  obtain d x sm where c: "devices c v = Some (d, x)" "uart_ready (d, x)" "sems (io_sys c) i = Some sm"
    using assms(2) by (auto simp: input_ready_def split: option.splits)
  obtain d' x' where o: "rt_device_open serial_ops 0x143 (d, x) = Some (RT_EOK, d', x')"
    "input_open (d'\<lparr>rx_indicate := Some 1\<rparr>) x' \<lparr>rx_buffer = replicate (unat (bufsz x)) 0, put_index = 0, get_index = 0, is_full = False\<rparr>"
    "bufsz x' = bufsz x"
    using open_input [OF c(2)] by blast
  let ?c = "put_device v (d'\<lparr>rx_indicate := Some 1\<rparr>, x') ((put_device v (d', x') c)
    \<lparr>shell_line := replicate 81 0, line_curpos := 0, line_position := 0, shell_device := Some v\<rparr>)"
  have "finsh_set_device v c = Some ?c"
    using assms(2) c(1) o(1) by (simp add: finsh_set_device_def input_ready_def close_old_def put_device_def Let_def rt_device_set_rx_indicate_def)
  moreover have "console_inv t i ?c"
    by (rule console_invI [OF _ _ _ o(2), where v = v and sm = sm])
      (use assms c(3) in \<open>auto simp: input_ready_def put_device_def no_sleep_def in_order_def fifo_bytes_def fifo_count_def\<close>)
  ultimately show ?thesis
    by blast
qed

text \<open>What the buffer of the shell's device holds, and whether a byte was given up.\<close>

definition shell_input :: "finsh_io \<Rightarrow> u8 list" where
  "shell_input c = (case Option.bind (shell_device c) (devices c) of None \<Rightarrow> []
     | Some (d, x) \<Rightarrow> (case serial_rx x of None \<Rightarrow> [] | Some f \<Rightarrow> fifo_bytes (bufsz x) f))"

definition input_lost :: "finsh_io \<Rightarrow> bool" where
  "input_lost c = (case Option.bind (shell_device c) (devices c) of None \<Rightarrow> False | Some (d, x) \<Rightarrow> already_output x)"

lemma console_invD:
  assumes "console_inv t i c"
  shows "waiting (kern (io_sys c)) i \<noteq> [] \<Longrightarrow> shell_input c = []" "in_order (input_lost c) (got c @ shell_input c) (arrived c)"
proof -
  obtain v d x f and sm :: rt_semaphore where c: "shell_device c = Some v" "devices c v = Some (d, x)" "input_open d x f"
    "no_sleep t (getchar_pc c) (waiting (kern (io_sys c)) i) (sem_value sm) (fifo_bytes (bufsz x) f)"
    "in_order (already_output x) (got c @ fifo_bytes (bufsz x) f) (arrived c)"
    using assms unfolding console_inv_def by blast
  then have "shell_input c = fifo_bytes (bufsz x) f" "input_lost c = already_output x"
    by (simp_all add: shell_input_def input_lost_def input_open_def)
  then show "waiting (kern (io_sys c)) i \<noteq> [] \<Longrightarrow> shell_input c = []" "in_order (input_lost c) (got c @ shell_input c) (arrived c)"
    using c(4,5) by (auto simp: no_sleep_def)
qed

lemma reach_inv:
  assumes "ipc_wf (io_sys c0)" "input_ready i v c0" "finsh_set_device v c0 = Some c1" "(console_step t i)\<^sup>*\<^sup>* c1 c"
  shows "console_inv t i c"
  using set_device_law [OF assms(1,2), of t] assms(3) console_reach_inv [OF assms(4)] by simp

text \<open>C21: in whatever order interrupts, the shell thread and the rest of the system run, the shell never sleeps on input: when
  a thread waits for the shell's semaphore, the receive buffer is empty.  What the shell has read and what is in the buffer
  are characters that arrived, in their order, and while the buffer never overflowed they are all of them.\<close>

theorem shell_input_not_missed:
  assumes "ipc_wf (io_sys c0)" "input_ready i v c0" "finsh_set_device v c0 = Some c1" "(console_step t i)\<^sup>*\<^sup>* c1 c"
  shows "(waiting (kern (io_sys c)) i \<noteq> [] \<longrightarrow> shell_input c = []) \<and> subseq (got c @ shell_input c) (arrived c) \<and>
    (\<not> input_lost c \<longrightarrow> got c @ shell_input c = arrived c)"
  using console_invD [OF reach_inv [OF assms]] by (auto simp: in_order_def)

fun getchar_steps :: "nat \<Rightarrow> nat \<Rightarrow> finsh_io \<Rightarrow> finsh_io option" where
  "getchar_steps i 0 c = Some c"
| "getchar_steps i (Suc n) c = do { c' \<leftarrow> finsh_getchar i c; getchar_steps i n c' }"

lemma getchar_read:
  assumes "shell_device c = Some v" "devices c v = Some (d, x)" "input_open d x f" "fifo_bytes (bufsz x) f = b # bs" "getchar_pc c = At_Read"
  shows "\<exists>c'. finsh_getchar i c = Some c' \<and> got c' = got c @ [b] \<and> io_sys c' = io_sys c"
proof -
  obtain rs f' where r: "fifo_read (bufsz x) 1 f = (rs, f')"
    by fastforce
  show ?thesis
    using read_law [OF assms(3) r] assms by (simp add: finsh_getchar_def put_device_def del: One_nat_def) simp
qed

text \<open>C22: when the shell runs and its buffer is not empty, then wherever it is in its loop, the next character is returned
  after at most three of its own steps; it does not wait.\<close>

theorem getchar_returns:
  assumes "ipc_wf (io_sys c0)" "input_ready i v c0" "finsh_set_device v c0 = Some c1" "(console_step t i)\<^sup>*\<^sup>* c1 c" "shell_input c = b # bs"
  shows "\<exists>n c'. n \<le> 3 \<and> getchar_steps i n c = Some c' \<and> got c' = got c @ [b] \<and> kern (io_sys c') = kern (io_sys c)"
proof -
  obtain v d x f sm where c: "shell_device c = Some v" "devices c v = Some (d, x)" "input_open d x f" "sems (io_sys c) i = Some sm"
    "no_sleep t (getchar_pc c) (waiting (kern (io_sys c)) i) (sem_value sm) (fifo_bytes (bufsz x) f)"
    using reach_inv [OF assms(1-4)] unfolding console_inv_def by blast
  then have b: "fifo_bytes (bufsz x) f = b # bs"
    using assms(5) by (simp add: shell_input_def input_open_def)
  have In: "\<exists>c'. getchar_steps i 2 a = Some c' \<and> got c' = got c @ [b] \<and> io_sys c' = io_sys a"
    if "getchar_pc a = In_Take" "shell_device a = Some v" "devices a = devices c" "got a = got c" for a
    using getchar_read [of "a\<lparr>getchar_pc := At_Read\<rparr>" v d x f b bs i] that c(2,3) b by (auto simp: numeral_2_eq_2 finsh_getchar_def [of i a])
  show ?thesis
  proof (cases "getchar_pc c")
    case At_Read
    then obtain c' where "finsh_getchar i c = Some c'" "got c' = got c @ [b]" "io_sys c' = io_sys c"
      using getchar_read [OF c(1-3) b, of i] by blast
    then show ?thesis
      by (intro exI [of _ 1] exI [of _ c']) simp
  next
    case At_Take
    then have v: "sem_value sm > 0"
      using c(5) b by (simp add: no_sleep_def)
    let ?c = "c\<lparr>io_sys := (io_sys c)\<lparr>sems := (sems (io_sys c))(i \<mapsto> sm\<lparr>sem_value := sem_value sm - 1\<rparr>)\<rparr>, getchar_pc := In_Take\<rparr>"
    have "finsh_getchar i c = Some ?c"
      using At_Take v c(4) by (simp add: finsh_getchar_def rt_sem_take_def)
    moreover obtain c' where "getchar_steps i 2 ?c = Some c'" "got c' = got c @ [b]" "io_sys c' = io_sys ?c"
      using In [of ?c] c(1) by auto
    ultimately show ?thesis
      by (intro exI [of _ 3] exI [of _ c']) (simp add: numeral_3_eq_3 numeral_2_eq_2)
  next
    case In_Take
    then show ?thesis
      using In [of c] c(1) by (intro exI [of _ 2]) auto
  qed
qed

section \<open>A run\<close>

definition demo_io :: finsh_io where
  "demo_io = \<lparr>io_sys = demo_ipc, devices = [''uart1'' \<mapsto> (uart1_dev, uart1)], shell_device = None, printed = [], shell_line = [], line_position = 0,
     line_curpos = 0, getchar_pc = At_Read, got = [], arrived = []\<rparr>"

lemma demo_io_ready: "ipc_wf (io_sys demo_io)" "input_ready 8 ''uart1'' demo_io"
  using demo_ipc_wf by (simp add: demo_io_def) code_simp

definition demo_interrupted :: "finsh_io option" where
  "demo_interrupted = do { c \<leftarrow> finsh_set_device ''uart1'' demo_io; uart_interrupt 8 ''uart1'' [104, 105] c }"

lemma demo_run:
  obtains c1 c2 c3 where "finsh_set_device ''uart1'' demo_io = Some c1" "uart_interrupt 8 ''uart1'' [104, 105] c1 = Some c2"
    "finsh_getchar 8 c2 = Some c3" "(console_step 1 8)\<^sup>*\<^sup>* c1 c2" "(console_step 1 8)\<^sup>*\<^sup>* c1 c3" "shell_input c2 = [104, 105]"
    "got c3 = [104]" "arrived c3 = [104, 105]" "\<not> input_lost c3"
proof -
  have e: "map_option (\<lambda>(c2, c3). (shell_input c2, got c3, arrived c3, input_lost c3, rt_current_thread (kern (io_sys c2)), stat (threads (kern (io_sys c2)) 1)))
     (do { c2 \<leftarrow> demo_interrupted; c3 \<leftarrow> finsh_getchar 8 c2; Some (c2, c3) }) = Some ([104, 105], [104], [104, 105], False, Some 1, RT_THREAD_RUNNING)"
    by code_simp
  then obtain c1 c2 c3 where c: "finsh_set_device ''uart1'' demo_io = Some c1" "uart_interrupt 8 ''uart1'' [104, 105] c1 = Some c2"
    "finsh_getchar 8 c2 = Some c3"
    by (auto simp: demo_interrupted_def split: Option.bind_splits)
  have p: "shell_input c2 = [104, 105]" "got c3 = [104]" "arrived c3 = [104, 105]" "\<not> input_lost c3" "caller (io_sys c2) 1"
    using e c by (auto simp: demo_interrupted_def caller_def)
  have "map_option shell_device (finsh_set_device ''uart1'' demo_io) = Some (Some ''uart1'')"
    by code_simp
  then have "console_step 1 8 c1 c2"
    using c(1,2) by (auto intro: console_step.interrupt)
  moreover have "console_step 1 8 c2 c3"
    using c(3) p(5) by (rule console_step.getchar [rotated])
  ultimately have "(console_step 1 8)\<^sup>*\<^sup>* c1 c2" "(console_step 1 8)\<^sup>*\<^sup>* c1 c3"
    by (metis r_into_rtranclp, metis rtranclp.simps)
  then show ?thesis
    by (rule that [OF c _ _ p(1-4)])
qed

theorem shell_input_not_missed_witness:
  "\<exists>c1 c. finsh_set_device ''uart1'' demo_io = Some c1 \<and> (console_step 1 8)\<^sup>*\<^sup>* c1 c \<and> got c @ shell_input c = [104, 105] \<and> got c = [104]"
proof -
  obtain c1 c2 c3 where c: "finsh_set_device ''uart1'' demo_io = Some c1" "(console_step 1 8)\<^sup>*\<^sup>* c1 c3" "got c3 = [104]" "arrived c3 = [104, 105]" "\<not> input_lost c3"
    by (rule demo_run)
  then show ?thesis
    using shell_input_not_missed [OF demo_io_ready c(1,2)] by metis
qed

theorem getchar_returns_witness:
  "\<exists>c n c'. shell_input c = [104, 105] \<and> n \<le> 3 \<and> getchar_steps 8 n c = Some c' \<and> got c' = got c @ [104]"
proof -
  obtain c1 c2 c3 where c: "finsh_set_device ''uart1'' demo_io = Some c1" "(console_step 1 8)\<^sup>*\<^sup>* c1 c2" "shell_input c2 = [104, 105]"
    by (rule demo_run)
  then show ?thesis
    using getchar_returns [OF demo_io_ready c] by blast
qed

end
