(* ===== verification/Timebase.thy ===== *)
theory Timebase
  imports Prelude
begin

text \<open>
  \<^verbatim>\<open>applications/timebase.c\<close>: the microsecond time base on the Cortex-M3 cycle counter
  \<^verbatim>\<open>DWT->CYCCNT\<close>, with the kernel tick as fall-back.  The file-scope variables are the record
  \<open>timebase\<close>; the hardware the code reads and writes is the record \<open>hw\<close>.  The cycle counter is
  the low 32 bits of a cycle count that never wraps, \<open>cycles\<close>, so that the theorems can
  compare what the code computes with the cycles that really went by.
\<close>

section \<open>Hardware and variables\<close>

record hw =
  cycles :: nat
  rt_tick :: u32
  SystemCoreClock :: u32
  DEMCR :: u32
  CTRL :: u32
  cyccnt_present :: bool
  access_latency :: nat

text \<open>
  \<open>cyccnt_present\<close> says whether the part implements the counter (without it the enable bit
  reads back as zero); \<open>access_latency\<close> is the number of cycles between clearing the counter
  and reading it back in \<open>timebase_init\<close>.
\<close>

definition CYCCNT :: "hw \<Rightarrow> u32" where
  "CYCCNT h = of_nat (cycles h)"

record timebase =
  cpu_hz :: u32
  dwt_ok :: u8
  last_cyc :: u32
  total_cyc :: u64

definition timebase_reset_state :: timebase where
  "timebase_reset_state = \<lparr>cpu_hz = 72000000, dwt_ok = 0, last_cyc = 0, total_cyc = 0\<rparr>"

section \<open>Operations\<close>

definition dwt_init :: "hw \<Rightarrow> timebase \<Rightarrow> hw \<times> timebase" where
  "dwt_init h tb =
     (let h1 = h\<lparr>DEMCR := DEMCR h OR 0x01000000\<rparr>;
          h2 = h1\<lparr>cycles := 0\<rparr>;
          h3 = h2\<lparr>CTRL := (if cyccnt_present h2 then CTRL h2 OR 1 else CTRL h2 AND NOT 1)\<rparr>
      in (h3, tb\<lparr>dwt_ok := (if CTRL h3 AND 1 \<noteq> 0 then 1 else 0)\<rparr>))"

definition timebase_init :: "hw \<Rightarrow> timebase \<Rightarrow> rt_err_t \<times> hw \<times> timebase" where
  "timebase_init h tb =
     (let tb1 = (if SystemCoreClock h \<noteq> 0 then tb\<lparr>cpu_hz := SystemCoreClock h\<rparr> else tb);
          (h1, tb2) = dwt_init h tb1;
          h2 = h1\<lparr>cycles := cycles h1 + access_latency h1\<rparr>;
          tb3 = (if dwt_ok tb2 \<noteq> 0 then tb2\<lparr>last_cyc := CYCCNT h2, total_cyc := 0\<rparr> else tb2)
      in (RT_EOK, h2, tb3))"

definition timebase_get_us :: "hw \<Rightarrow> timebase \<Rightarrow> u64 \<times> timebase" where
  "timebase_get_us h tb =
     (if dwt_ok tb \<noteq> 0
      then let cur = CYCCNT h;
               delta = cur - last_cyc tb;
               tb1 = tb\<lparr>last_cyc := cur\<rparr>;
               tb2 = tb1\<lparr>total_cyc := total_cyc tb1 + ucast delta\<rparr>
           in ((total_cyc tb2 * 1000000) div ucast (cpu_hz tb2), tb2)
      else ((ucast (rt_tick h) * 1000000) div of_nat RT_TICK_PER_SECOND, tb))"

section \<open>The clock interface\<close>

text \<open>
  What the stopwatch relies on: a relation \<open>tracks h tb n\<close>, read as "the time base now stands at
  \<open>n\<close> microseconds", under which a reading returns \<open>n\<close> and keeps the relation.
\<close>

locale us_clock =
  fixes get_us :: "'h \<Rightarrow> 'tb \<Rightarrow> u64 \<times> 'tb"
    and tracks :: "'h \<Rightarrow> 'tb \<Rightarrow> nat \<Rightarrow> bool"
  assumes get_us_value: "tracks h tb n \<Longrightarrow> fst (get_us h tb) = of_nat n"
    and get_us_tracks: "tracks h tb n \<Longrightarrow> tracks h (snd (get_us h tb)) n"
    and tracks_bound: "tracks h tb n \<Longrightarrow> n < 2 ^ 64"
begin

text \<open>The difference of two readings, scaled to milliseconds, is the real difference.\<close>

lemma elapsed_ms:
  assumes "tracks h tb n" and "m \<le> n"
  shows "(ucast ((fst (get_us h tb) - of_nat m) div 1000) :: u32) = of_nat ((n - m) div 1000)"
proof -
  have lt: "n - m < 2 ^ LENGTH(64)"
    using tracks_bound [OF assms(1)] by simp
  have "fst (get_us h tb) - of_nat m = (of_nat (n - m) :: u64)"
    using assms by (simp add: get_us_value of_nat_diff)
  then have "(fst (get_us h tb) - of_nat m) div 1000 = (of_nat ((n - m) div 1000) :: u64)"
    using of_nat_div_word [where 'a = 64, OF lt, of 1000] by simp
  then show ?thesis by (simp only: ucast_of_nat_u32)
qed

lemma two_readings:
  assumes "tracks h tb n"
  shows "fst (get_us h (snd (get_us h tb))) = fst (get_us h tb)"
  using assms by (simp add: get_us_value get_us_tracks)

end

subsection \<open>The cycle counter provides it\<close>

text \<open>
  \<open>cyc_tracks h tb n\<close>: the counter is on, its last reading was taken at cycle \<open>c\<close>, fewer than
  \<open>2^32\<close> cycles ago, \<open>total_cyc\<close> is the number of cycles from the initial reading at cycle
  \<open>b\<close> to \<open>c\<close>, and scaling the cycles so far to microseconds does not leave 64 bits.
\<close>

definition cyc_tracks_at :: "nat \<Rightarrow> nat \<Rightarrow> hw \<Rightarrow> timebase \<Rightarrow> nat \<Rightarrow> bool" where
  "cyc_tracks_at b c h tb n \<longleftrightarrow>
     dwt_ok tb \<noteq> 0 \<and> cpu_hz tb \<noteq> 0 \<and> b \<le> c \<and> c \<le> cycles h \<and> cycles h - c < 2 ^ 32 \<and>
     last_cyc tb = of_nat c \<and> total_cyc tb = of_nat (c - b) \<and>
     (cycles h - b) * 1000000 < 2 ^ 64 \<and>
     n = (cycles h - b) * 1000000 div unat (cpu_hz tb)"

definition cyc_tracks :: "hw \<Rightarrow> timebase \<Rightarrow> nat \<Rightarrow> bool" where
  "cyc_tracks h tb n \<longleftrightarrow> (\<exists>b c. cyc_tracks_at b c h tb n)"

definition tick_tracks :: "hw \<Rightarrow> timebase \<Rightarrow> nat \<Rightarrow> bool" where
  "tick_tracks h tb n \<longleftrightarrow> dwt_ok tb = 0 \<and> n = unat (rt_tick h) * 1000"

lemma delta_is_elapsed:
  fixes c :: nat
  assumes "c \<le> cycles h" and "cycles h - c < 2 ^ 32"
  shows "(ucast (CYCCNT h - of_nat c) :: u64) = of_nat (cycles h - c)"
proof -
  have "CYCCNT h - of_nat c = (of_nat (cycles h - c) :: u32)"
    using assms(1) by (simp add: CYCCNT_def of_nat_diff)
  then show ?thesis using assms(2) by (simp only: ucast_up_of_nat)
qed

lemma total_cyc_after:
  assumes "cyc_tracks_at b c h tb n"
  shows "total_cyc (snd (timebase_get_us h tb)) = of_nat (cycles h - b)"
proof -
  have "total_cyc (snd (timebase_get_us h tb)) = of_nat (c - b) + of_nat (cycles h - c)"
    using assms by (simp add: timebase_get_us_def cyc_tracks_at_def Let_def delta_is_elapsed)
  also have "\<dots> = of_nat (cycles h - b)"
    using assms by (simp add: cyc_tracks_at_def flip: of_nat_add)
  finally show ?thesis .
qed

lemma get_us_cyc_value:
  assumes "cyc_tracks_at b c h tb n"
  shows "fst (timebase_get_us h tb) = of_nat n"
proof -
  let ?e = "cycles h - b"
  have "fst (timebase_get_us h tb) =
      (total_cyc (snd (timebase_get_us h tb)) * 1000000) div ucast (cpu_hz tb)"
    using assms by (simp add: timebase_get_us_def cyc_tracks_at_def Let_def)
  also have "\<dots> = of_nat (?e * 1000000) div of_nat (unat (cpu_hz tb))"
    by (simp only: total_cyc_after [OF assms] ucast_u64_eq of_nat_mult of_nat_numeral)
  also have "\<dots> = of_nat (?e * 1000000 div unat (cpu_hz tb))"
  proof (rule of_nat_div_word)
    show "?e * 1000000 < 2 ^ LENGTH(64)" using assms by (simp add: cyc_tracks_at_def)
    show "unat (cpu_hz tb) < 2 ^ LENGTH(64)"
      using unat_u32_less [of "cpu_hz tb"] by simp
  qed
  finally show ?thesis using assms by (simp add: cyc_tracks_at_def)
qed

lemma get_us_cyc_tracks:
  assumes "cyc_tracks_at b c h tb n"
  shows "cyc_tracks_at b (cycles h) h (snd (timebase_get_us h tb)) n"
  using assms total_cyc_after [OF assms]
  by (auto simp: cyc_tracks_at_def timebase_get_us_def Let_def CYCCNT_def)

lemma cyc_tracks_bound: "cyc_tracks_at b c h tb n \<Longrightarrow> n < 2 ^ 64"
  by (auto simp: cyc_tracks_at_def intro: le_less_trans [OF div_le_dividend])

interpretation dwt_clock: us_clock timebase_get_us cyc_tracks
  by unfold_locales
    (auto simp: cyc_tracks_def get_us_cyc_value intro: get_us_cyc_tracks dest: cyc_tracks_bound)

text \<open>The tick fall-back provides the same interface at millisecond resolution.\<close>

lemma get_us_tick_value:
  assumes "tick_tracks h tb n"
  shows "fst (timebase_get_us h tb) = of_nat n"
proof -
  have lt: "unat (rt_tick h) < 2 ^ 32" by (simp add: unat_u32_less)
  have "fst (timebase_get_us h tb) = of_nat (unat (rt_tick h) * 1000000) div of_nat 1000"
    using assms by (simp add: timebase_get_us_def tick_tracks_def)
  also have "\<dots> = of_nat (unat (rt_tick h) * 1000000 div 1000)"
    by (rule of_nat_div_word) (use lt in auto)
  finally show ?thesis using assms by (simp add: tick_tracks_def)
qed

interpretation tick_clock: us_clock timebase_get_us tick_tracks
proof unfold_locales
  fix h tb n assume t: "tick_tracks h tb n"
  show "fst (timebase_get_us h tb) = of_nat n" using t by (rule get_us_tick_value)
  show "tick_tracks h (snd (timebase_get_us h tb)) n"
    using t by (simp add: tick_tracks_def timebase_get_us_def)
  show "n < 2 ^ 64" using t unat_u32_less [of "rt_tick h"] by (simp add: tick_tracks_def)
qed

end
