(* ===== verification/Stopwatch.thy ===== *)
theory Stopwatch
  imports Timebase
begin

text \<open>
  \<^verbatim>\<open>applications/stopwatch.c\<close>: the stopwatch service, its state machine
  IDLE / RUNNING / PAUSED, the accumulated milliseconds and the lap records.  \<open>sw_sys\<close> holds
  the file-scope variables \<open>g_sw\<close> and \<open>g_inited\<close>, the time base the service calls, the hardware
  the time base reads, and whether the kernel can still allocate a mutex.  The second half of
  the theory is an abstract stopwatch over unbounded natural numbers and the simulation that
  relates the two.
\<close>

section \<open>State\<close>

abbreviation (input) STOPWATCH_MAX_LAPS :: nat where "STOPWATCH_MAX_LAPS \<equiv> 20"

datatype stopwatch_state_t =
    STOPWATCH_STATE_IDLE
  | STOPWATCH_STATE_RUNNING
  | STOPWATCH_STATE_PAUSED

text \<open>
  \<open>lock\<close> is \<open>RT_NULL\<close> or the mutex with the number of times the calling thread holds it, a byte as in \<open>struct rt_mutex\<close>.
\<close>

abbreviation (input) RT_MUTEX_HOLD_MAX :: u8 where "RT_MUTEX_HOLD_MAX \<equiv> 0xff"

record stopwatch_ctx_t =
  state :: stopwatch_state_t
  state_start_tick :: u32
  accumulated_ms :: u32
  state_start_us :: u64
  last_lap_total_ms :: u32
  lap_durations_ms :: "u32 list"
  lap_count :: u16
  lock :: "u8 option"

record sw_sys =
  g_sw :: stopwatch_ctx_t
  g_inited :: u8
  tb :: timebase
  sw_hw :: hw
  mutex_available :: bool

definition ctx_zero :: stopwatch_ctx_t where
  "ctx_zero = \<lparr>state = STOPWATCH_STATE_IDLE, state_start_tick = 0, accumulated_ms = 0,
     state_start_us = 0, last_lap_total_ms = 0,
     lap_durations_ms = replicate STOPWATCH_MAX_LAPS 0, lap_count = 0, lock = None\<rparr>"

text \<open>What the calls of \<open>rt_mutex_take\<close> and \<open>rt_mutex_release\<close> do for a thread that has the mutex or finds it free; the
  service does not look at their results.  A mutex that is held \<open>RT_MUTEX_HOLD_MAX\<close> times is not taken once more, and one that is not
  held is not released.\<close>

definition rt_mutex_take_sw :: "sw_sys \<Rightarrow> sw_sys" where
  "rt_mutex_take_sw s =
     s\<lparr>g_sw := (g_sw s)\<lparr>lock := map_option (\<lambda>hold. if hold < RT_MUTEX_HOLD_MAX then hold + 1 else hold) (lock (g_sw s))\<rparr>\<rparr>"

definition rt_mutex_release_sw :: "sw_sys \<Rightarrow> sw_sys" where
  "rt_mutex_release_sw s =
     s\<lparr>g_sw := (g_sw s)\<lparr>lock := map_option (\<lambda>hold. if hold = 0 then hold else hold - 1) (lock (g_sw s))\<rparr>\<rparr>"

lemma sw_hold_up: "h \<noteq> RT_MUTEX_HOLD_MAX \<Longrightarrow> h < RT_MUTEX_HOLD_MAX \<and> unat (h + 1) = unat h + 1" for h :: u8
proof -
  assume "h \<noteq> RT_MUTEX_HOLD_MAX"
  then have n: "unat h \<noteq> 255"
    by (auto simp: word_unat_eq_iff)
  moreover have "unat h < 256"
    using unsigned_less [of h] by simp
  ultimately show ?thesis
    by (simp add: word_less_nat_alt unat_word_ariths)
qed

lemma hold_down: "h \<noteq> 0 \<Longrightarrow> unat (h - 1) = unat h - 1" for h :: u8
  by (rule unat_minus_one)

lemma hold_up_down: "h \<noteq> RT_MUTEX_HOLD_MAX \<Longrightarrow> h + 1 \<noteq> 0" for h :: u8
  using sw_hold_up [of h] by (metis add_is_0 one_neq_zero unat_0)

interpretation sw_lock: recursive_lock rt_mutex_take_sw rt_mutex_release_sw
  "\<lambda>s. unat (the (lock (g_sw s)))" "\<lambda>s. lock (g_sw s) \<noteq> None" 255
proof unfold_locales
  fix s :: sw_sys assume "lock (g_sw s) \<noteq> None"
  then obtain h where h: "lock (g_sw s) = Some h"
    by auto
  show "lock (g_sw (rt_mutex_take_sw s)) \<noteq> None \<and> unat (the (lock (g_sw (rt_mutex_take_sw s)))) = unat (the (lock (g_sw s))) + 1"
    if "unat (the (lock (g_sw s))) < 255"
    using that sw_hold_up [of h] by (cases "h = RT_MUTEX_HOLD_MAX") (simp_all add: rt_mutex_take_sw_def h)
  show "lock (g_sw (rt_mutex_release_sw s)) \<noteq> None \<and> unat (the (lock (g_sw (rt_mutex_release_sw s)))) = unat (the (lock (g_sw s))) - 1"
    if "0 < unat (the (lock (g_sw s)))"
    using that hold_down [of h] by (auto simp: rt_mutex_release_sw_def h)
qed

section \<open>Operations\<close>

definition get_now_total_ms_unsafe :: "sw_sys \<Rightarrow> u32 \<times> sw_sys" where
  "get_now_total_ms_unsafe s =
     (if state (g_sw s) = STOPWATCH_STATE_RUNNING \<and> state_start_us (g_sw s) \<noteq> 0
      then let (now_us, tb') = timebase_get_us (sw_hw s) (tb s);
               delta_us = now_us - state_start_us (g_sw s)
           in (accumulated_ms (g_sw s) + ucast (delta_us div 1000), s\<lparr>tb := tb'\<rparr>)
      else (accumulated_ms (g_sw s), s))"

definition stopwatch_init :: "sw_sys \<Rightarrow> rt_err_t \<times> sw_sys" where
  "stopwatch_init s =
     (if g_inited s \<noteq> 0 then (RT_EOK, s)
      else let s1 = s\<lparr>g_sw := ctx_zero\<lparr>state := STOPWATCH_STATE_IDLE,
                                      lock := (if mutex_available s then Some 0 else None)\<rparr>\<rparr>
           in if lock (g_sw s1) = None then (- RT_ENOMEM, s1)
              else let (_, h', tb') = timebase_init (sw_hw s1) (tb s1)
                   in (RT_EOK, s1\<lparr>sw_hw := h', tb := tb', g_inited := 1\<rparr>))"

text \<open>The prologue of the mutators: initialise on first use, give up when that fails.\<close>

definition ensure_init :: "sw_sys \<Rightarrow> rt_err_t \<times> sw_sys" where
  "ensure_init s = (if g_inited s = 0 then stopwatch_init s else (RT_EOK, s))"

definition stopwatch_start :: "sw_sys \<Rightarrow> sw_sys" where
  "stopwatch_start s =
     (let (r, s0) = ensure_init s in
      if r \<noteq> RT_EOK then s0
      else let s1 = rt_mutex_take_sw s0 in
        if state (g_sw s1) = STOPWATCH_STATE_RUNNING then rt_mutex_release_sw s1
        else let s2 = s1\<lparr>g_sw := (g_sw s1)\<lparr>state_start_tick := rt_tick (sw_hw s1)\<rparr>\<rparr>;
                 (now_us, tb') = timebase_get_us (sw_hw s2) (tb s2);
                 s3 = s2\<lparr>tb := tb', g_sw := (g_sw s2)\<lparr>state_start_us := now_us,
                          state := STOPWATCH_STATE_RUNNING\<rparr>\<rparr>
             in rt_mutex_release_sw s3)"

definition stopwatch_stop :: "sw_sys \<Rightarrow> sw_sys" where
  "stopwatch_stop s =
     (let (r, s0) = ensure_init s in
      if r \<noteq> RT_EOK then s0
      else let s1 = rt_mutex_take_sw s0;
               s2 = (if state (g_sw s1) = STOPWATCH_STATE_RUNNING
                     then let s11 = (if state_start_us (g_sw s1) \<noteq> 0
                                     then let (now_us, tb') = timebase_get_us (sw_hw s1) (tb s1)
                                          in s1\<lparr>tb := tb', g_sw := (g_sw s1)
                                               \<lparr>accumulated_ms := accumulated_ms (g_sw s1)
                                                  + ucast ((now_us - state_start_us (g_sw s1)) div 1000),
                                                state_start_us := 0\<rparr>\<rparr>
                                     else s1)
                          in s11\<lparr>g_sw := (g_sw s11)\<lparr>state := STOPWATCH_STATE_PAUSED\<rparr>\<rparr>
                     else s1)
           in rt_mutex_release_sw s2)"

definition stopwatch_reset :: "sw_sys \<Rightarrow> sw_sys" where
  "stopwatch_reset s =
     (let (r, s0) = ensure_init s in
      if r \<noteq> RT_EOK then s0
      else let s1 = rt_mutex_take_sw s0;
               s2 = s1\<lparr>g_sw := (g_sw s1)\<lparr>accumulated_ms := 0, last_lap_total_ms := 0, lap_count := 0,
                       lap_durations_ms := replicate STOPWATCH_MAX_LAPS 0\<rparr>\<rparr>;
               s3 = (if state (g_sw s2) = STOPWATCH_STATE_RUNNING
                     then let s21 = s2\<lparr>g_sw := (g_sw s2)\<lparr>state_start_tick := rt_tick (sw_hw s2)\<rparr>\<rparr>;
                              (now_us, tb') = timebase_get_us (sw_hw s21) (tb s21)
                          in s21\<lparr>tb := tb', g_sw := (g_sw s21)\<lparr>state_start_us := now_us\<rparr>\<rparr>
                     else s2\<lparr>g_sw := (g_sw s2)\<lparr>state := STOPWATCH_STATE_IDLE, state_start_us := 0\<rparr>\<rparr>)
           in rt_mutex_release_sw s3)"

definition store_lap :: "u32 \<Rightarrow> stopwatch_ctx_t \<Rightarrow> stopwatch_ctx_t" where
  "store_lap lap_ms g =
     (if lap_count g < of_nat STOPWATCH_MAX_LAPS
      then g\<lparr>lap_durations_ms := (lap_durations_ms g)[unat (lap_count g) := lap_ms],
             lap_count := lap_count g + 1\<rparr>
      else g\<lparr>lap_durations_ms :=
             (blit (lap_durations_ms g) 0 (drop 1 (lap_durations_ms g)) (STOPWATCH_MAX_LAPS - 1))
               [STOPWATCH_MAX_LAPS - 1 := lap_ms]\<rparr>)"

definition stopwatch_lap :: "sw_sys \<Rightarrow> rt_err_t \<times> u32 \<times> sw_sys" where
  "stopwatch_lap s =
     (let (r, s0) = ensure_init s in
      if r \<noteq> RT_EOK then (r, 0, s0)
      else let s1 = rt_mutex_take_sw s0;
               (total_ms, s2) = get_now_total_ms_unsafe s1;
               lap_ms = total_ms - last_lap_total_ms (g_sw s2);
               s3 = s2\<lparr>g_sw := store_lap lap_ms (g_sw s2)\<rparr>;
               s4 = s3\<lparr>g_sw := (g_sw s3)\<lparr>last_lap_total_ms := total_ms\<rparr>\<rparr>
           in (RT_EOK, lap_ms, rt_mutex_release_sw s4))"

definition stopwatch_get_state :: "sw_sys \<Rightarrow> stopwatch_state_t \<times> sw_sys" where
  "stopwatch_get_state s =
     (if g_inited s = 0 then (STOPWATCH_STATE_IDLE, s)
      else let s1 = rt_mutex_take_sw s; v = state (g_sw s1) in (v, rt_mutex_release_sw s1))"

definition stopwatch_get_total_ms :: "sw_sys \<Rightarrow> u32 \<times> sw_sys" where
  "stopwatch_get_total_ms s =
     (if g_inited s = 0 then (0, s)
      else let s1 = rt_mutex_take_sw s; (v, s2) = get_now_total_ms_unsafe s1
           in (v, rt_mutex_release_sw s2))"

definition stopwatch_get_lap_count :: "sw_sys \<Rightarrow> u16 \<times> sw_sys" where
  "stopwatch_get_lap_count s =
     (if g_inited s = 0 then (0, s)
      else let s1 = rt_mutex_take_sw s; c = lap_count (g_sw s1) in (c, rt_mutex_release_sw s1))"

definition stopwatch_get_lap_ms :: "u16 \<Rightarrow> sw_sys \<Rightarrow> u32 \<times> sw_sys" where
  "stopwatch_get_lap_ms index s =
     (if g_inited s = 0 then (0, s)
      else let s1 = rt_mutex_take_sw s;
               v = (if index < lap_count (g_sw s1) then lap_durations_ms (g_sw s1) ! unat index else 0)
           in (v, rt_mutex_release_sw s1))"

definition stopwatch_get_latest_lap_ms :: "sw_sys \<Rightarrow> u32 \<times> sw_sys" where
  "stopwatch_get_latest_lap_ms s =
     (if g_inited s = 0 then (0, s)
      else let s1 = rt_mutex_take_sw s;
               v = (if lap_count (g_sw s1) > 0
                    then lap_durations_ms (g_sw s1) ! unat (lap_count (g_sw s1) - 1) else 0)
           in (v, rt_mutex_release_sw s1))"

definition stopwatch_clear_laps :: "sw_sys \<Rightarrow> sw_sys" where
  "stopwatch_clear_laps s =
     (if g_inited s = 0 then s
      else let s1 = rt_mutex_take_sw s;
               s2 = s1\<lparr>g_sw := (g_sw s1)\<lparr>lap_count := 0\<rparr>\<rparr>;
               (t, s3) = get_now_total_ms_unsafe s2;
               s4 = s3\<lparr>g_sw := (g_sw s3)\<lparr>last_lap_total_ms := t\<rparr>\<rparr>;
               s5 = s4\<lparr>g_sw := (g_sw s4)\<lparr>lap_durations_ms := replicate STOPWATCH_MAX_LAPS 0\<rparr>\<rparr>
           in rt_mutex_release_sw s5)"

text \<open>The calls that change the service, as one step function.\<close>

datatype sw_op = Start | Stop | Reset | Lap | ClearLaps

fun sw_step :: "sw_op \<Rightarrow> sw_sys \<Rightarrow> sw_sys" where
  "sw_step Start s = stopwatch_start s"
| "sw_step Stop s = stopwatch_stop s"
| "sw_step Reset s = stopwatch_reset s"
| "sw_step Lap s = snd (snd (stopwatch_lap s))"
| "sw_step ClearLaps s = stopwatch_clear_laps s"

section \<open>Well-formedness and lock discipline\<close>

text \<open>
  Between two calls the lap array has its declared length, the count is within it, the cells
  past the count are zero, and, once the service is initialised, the mutex exists and is free.
\<close>

definition laps_wf :: "stopwatch_ctx_t \<Rightarrow> bool" where
  "laps_wf g \<longleftrightarrow> length (lap_durations_ms g) = STOPWATCH_MAX_LAPS \<and>
     unat (lap_count g) \<le> STOPWATCH_MAX_LAPS \<and>
     drop (unat (lap_count g)) (lap_durations_ms g) = replicate (STOPWATCH_MAX_LAPS - unat (lap_count g)) 0"

definition sw_wf :: "sw_sys \<Rightarrow> bool" where
  "sw_wf s \<longleftrightarrow> (g_inited s \<noteq> 0 \<longrightarrow> laps_wf (g_sw s) \<and> lock (g_sw s) = Some 0) \<and>
     (state (g_sw s) \<noteq> STOPWATCH_STATE_RUNNING \<longrightarrow> state_start_us (g_sw s) = 0)"

lemmas sw_lock_defs = rt_mutex_take_sw_def rt_mutex_release_sw_def

lemma lock_same [simp]: "lock g = l \<Longrightarrow> g\<lparr>lock := l\<rparr> = g"
  by (cases g) simp

lemma laps_wf_upd [simp]:
  "laps_wf (g\<lparr>lock := l\<rparr>) = laps_wf g" "laps_wf (g\<lparr>state := st\<rparr>) = laps_wf g"
  "laps_wf (g\<lparr>state_start_tick := t\<rparr>) = laps_wf g" "laps_wf (g\<lparr>state_start_us := u\<rparr>) = laps_wf g"
  "laps_wf (g\<lparr>accumulated_ms := a\<rparr>) = laps_wf g" "laps_wf (g\<lparr>last_lap_total_ms := m\<rparr>) = laps_wf g"
  by (simp_all add: laps_wf_def)

lemma laps_wf_empty [simp]:
  "laps_wf (g\<lparr>lap_count := 0, lap_durations_ms := replicate STOPWATCH_MAX_LAPS 0\<rparr>)"
  "laps_wf (g\<lparr>lap_durations_ms := replicate STOPWATCH_MAX_LAPS 0, lap_count := 0\<rparr>)"
  by (simp_all add: laps_wf_def)

lemma unat_lap_count_less:
  "lap_count g < 20 \<longleftrightarrow> unat (lap_count g) < STOPWATCH_MAX_LAPS"
  by (simp add: word_less_nat_alt)

lemma unat_lap_count_Suc:
  "unat (lap_count g) < STOPWATCH_MAX_LAPS \<Longrightarrow> unat (lap_count g + 1) = Suc (unat (lap_count g))"
  by (simp add: unat_word_ariths)

lemma get_total_frame [simp]:
  "g_sw (snd (get_now_total_ms_unsafe s)) = g_sw s"
  "g_inited (snd (get_now_total_ms_unsafe s)) = g_inited s"
  "sw_hw (snd (get_now_total_ms_unsafe s)) = sw_hw s"
  "mutex_available (snd (get_now_total_ms_unsafe s)) = mutex_available s"
  by (simp_all add: get_now_total_ms_unsafe_def split: prod.splits)

definition stored_laps :: "stopwatch_ctx_t \<Rightarrow> u32 list" where
  "stored_laps g = take (unat (lap_count g)) (lap_durations_ms g)"

lemma store_lap_room:
  assumes "laps_wf g" and "unat (lap_count g) < STOPWATCH_MAX_LAPS"
  shows "stored_laps (store_lap v g) = stored_laps g @ [v]" and "laps_wf (store_lap v g)"
proof -
  let ?k = "unat (lap_count g)"
  have len: "?k < length (lap_durations_ms g)" using assms by (simp add: laps_wf_def)
  have arr: "lap_durations_ms (store_lap v g) = (lap_durations_ms g)[?k := v]"
    and cnt: "unat (lap_count (store_lap v g)) = Suc ?k"
    using assms(2) by (simp_all add: store_lap_def unat_lap_count_less unat_lap_count_Suc)
  show "stored_laps (store_lap v g) = stored_laps g @ [v]"
    using len by (simp add: stored_laps_def arr cnt take_Suc_conv_app_nth)
  have "drop (Suc ?k) (lap_durations_ms g) = drop 1 (drop ?k (lap_durations_ms g))" by simp
  also have "\<dots> = replicate (STOPWATCH_MAX_LAPS - Suc ?k) 0"
    using assms(1) by (simp add: laps_wf_def del: drop_drop)
  finally show "laps_wf (store_lap v g)"
    using assms by (simp add: laps_wf_def arr cnt)
qed

lemma store_lap_full:
  assumes "laps_wf g" and "\<not> unat (lap_count g) < STOPWATCH_MAX_LAPS"
  shows "stored_laps (store_lap v g) = tl (stored_laps g) @ [v]" and "laps_wf (store_lap v g)"
proof -
  have cnt: "unat (lap_count g) = STOPWATCH_MAX_LAPS"
    and len: "length (lap_durations_ms g) = STOPWATCH_MAX_LAPS"
    using assms by (auto simp: laps_wf_def)
  have arr: "lap_durations_ms (store_lap v g) = tl (lap_durations_ms g) @ [v]"
    using assms(2) len
    by (simp add: store_lap_def unat_lap_count_less blit_def list_update_append drop_Suc
        take_all Cons_nth_drop_Suc [symmetric])
  have c: "lap_count (store_lap v g) = lap_count g"
    using assms(2) by (simp add: store_lap_def unat_lap_count_less)
  show "stored_laps (store_lap v g) = tl (stored_laps g) @ [v]"
    using len by (simp add: stored_laps_def arr c cnt)
  show "laps_wf (store_lap v g)"
    using len by (simp add: laps_wf_def arr c cnt)
qed

interpretation lap_history: bounded_history store_lap stored_laps laps_wf STOPWATCH_MAX_LAPS
proof unfold_locales
  fix g v assume wf: "laps_wf g"
  show "laps_wf (store_lap v g)"
    using wf by (cases "unat (lap_count g) < STOPWATCH_MAX_LAPS")
      (simp_all add: store_lap_room store_lap_full)
  have len: "length (stored_laps g) = unat (lap_count g)"
    using wf by (simp add: stored_laps_def laps_wf_def)
  show "stored_laps (store_lap v g) = last_n STOPWATCH_MAX_LAPS (stored_laps g @ [v])"
  proof (cases "unat (lap_count g) < STOPWATCH_MAX_LAPS")
    case True
    with wf len show ?thesis by (simp add: store_lap_room last_n_all)
  next
    case False
    with wf have "length (stored_laps g) = STOPWATCH_MAX_LAPS"
      by (simp add: len laps_wf_def)
    with wf False show ?thesis by (simp add: store_lap_full last_n_snoc_ge last_n_all)
  qed
qed simp

section \<open>Net effect of the operations\<close>

text \<open>
  On an initialised service whose mutex is free every path gives the mutex back; what remains
  is the update of the variables.
\<close>

definition ready :: "sw_sys \<Rightarrow> bool" where
  "ready s \<longleftrightarrow> g_inited s \<noteq> 0 \<and> lock (g_sw s) = Some 0"

lemma ready_ensure [simp]: "ready s \<Longrightarrow> ensure_init s = (RT_EOK, s)"
  by (simp add: ready_def ensure_init_def)

lemma release_take [simp]: "lock (g_sw s) \<noteq> Some RT_MUTEX_HOLD_MAX \<Longrightarrow> rt_mutex_release_sw (rt_mutex_take_sw s) = s"
  using sw_hold_up hold_up_down by (cases "lock (g_sw s)") (simp_all add: sw_lock_defs)

lemma get_total_take:
  "get_now_total_ms_unsafe (rt_mutex_take_sw s) =
     (fst (get_now_total_ms_unsafe s), rt_mutex_take_sw (snd (get_now_total_ms_unsafe s)))"
  by (simp add: get_now_total_ms_unsafe_def rt_mutex_take_sw_def split: prod.splits)

lemma start_ready:
  assumes "ready s"
  shows "stopwatch_start s =
    (if state (g_sw s) = STOPWATCH_STATE_RUNNING then s
     else s\<lparr>tb := snd (timebase_get_us (sw_hw s) (tb s)),
            g_sw := (g_sw s)\<lparr>state_start_tick := rt_tick (sw_hw s),
              state_start_us := fst (timebase_get_us (sw_hw s) (tb s)),
              state := STOPWATCH_STATE_RUNNING\<rparr>\<rparr>)"
  using assms by (auto simp: stopwatch_start_def sw_lock_defs ready_def split: prod.splits)

lemma stop_ready:
  assumes "ready s"
  shows "stopwatch_stop s =
    (if state (g_sw s) \<noteq> STOPWATCH_STATE_RUNNING then s
     else if state_start_us (g_sw s) = 0
     then s\<lparr>g_sw := (g_sw s)\<lparr>state := STOPWATCH_STATE_PAUSED\<rparr>\<rparr>
     else s\<lparr>tb := snd (timebase_get_us (sw_hw s) (tb s)),
            g_sw := (g_sw s)\<lparr>accumulated_ms := fst (get_now_total_ms_unsafe s),
              state_start_us := 0, state := STOPWATCH_STATE_PAUSED\<rparr>\<rparr>)"
  using assms
  by (auto simp: stopwatch_stop_def sw_lock_defs ready_def get_now_total_ms_unsafe_def split: prod.splits)

lemma reset_ready:
  assumes "ready s"
  shows "stopwatch_reset s =
    (let g = (g_sw s)\<lparr>accumulated_ms := 0, last_lap_total_ms := 0, lap_count := 0,
                      lap_durations_ms := replicate STOPWATCH_MAX_LAPS 0\<rparr>
     in if state (g_sw s) = STOPWATCH_STATE_RUNNING
        then s\<lparr>tb := snd (timebase_get_us (sw_hw s) (tb s)),
               g_sw := g\<lparr>state_start_tick := rt_tick (sw_hw s),
                 state_start_us := fst (timebase_get_us (sw_hw s) (tb s))\<rparr>\<rparr>
        else s\<lparr>g_sw := g\<lparr>state := STOPWATCH_STATE_IDLE, state_start_us := 0\<rparr>\<rparr>)"
  using assms by (auto simp: stopwatch_reset_def sw_lock_defs ready_def Let_def split: prod.splits)

lemma store_lap_frame [simp]:
  "lock (store_lap v g) = lock g" "state (store_lap v g) = state g"
  "accumulated_ms (store_lap v g) = accumulated_ms g" "state_start_us (store_lap v g) = state_start_us g"
  "last_lap_total_ms (store_lap v g) = last_lap_total_ms g" "store_lap v (g\<lparr>lock := l\<rparr>) = (store_lap v g)\<lparr>lock := l\<rparr>"
  by (simp_all add: store_lap_def)

lemma lap_ready:
  assumes "ready s"
  shows "stopwatch_lap s =
    (let (t, s') = get_now_total_ms_unsafe s; lap = t - last_lap_total_ms (g_sw s)
     in (RT_EOK, lap, s'\<lparr>g_sw := (store_lap lap (g_sw s))\<lparr>last_lap_total_ms := t\<rparr>\<rparr>))"
proof -
  obtain t s' where g: "get_now_total_ms_unsafe s = (t, s')" by fastforce
  have f: "g_sw s' = g_sw s" using get_total_frame(1) [of s] by (simp add: g)
  have "stopwatch_lap s = (RT_EOK, t - last_lap_total_ms (g_sw (rt_mutex_take_sw s')),
      rt_mutex_release_sw ((rt_mutex_take_sw s')\<lparr>g_sw :=
        (store_lap (t - last_lap_total_ms (g_sw (rt_mutex_take_sw s'))) (g_sw (rt_mutex_take_sw s')))
          \<lparr>last_lap_total_ms := t\<rparr>\<rparr>))"
    using assms by (simp add: stopwatch_lap_def get_total_take g Let_def)
  then show ?thesis
    using assms by (simp add: ready_def sw_lock_defs f g Let_def)
qed

lemma clear_ready:
  assumes "ready s"
  shows "stopwatch_clear_laps s =
    (let (t, s') = get_now_total_ms_unsafe s
     in s'\<lparr>g_sw := (g_sw s)\<lparr>lap_count := 0, last_lap_total_ms := t,
            lap_durations_ms := replicate STOPWATCH_MAX_LAPS 0\<rparr>\<rparr>)"
  using assms
  by (auto simp: stopwatch_clear_laps_def ready_def sw_lock_defs get_now_total_ms_unsafe_def Let_def
      split: prod.splits)

lemma get_total_ready: "ready s \<Longrightarrow> stopwatch_get_total_ms s = get_now_total_ms_unsafe s"
  by (simp add: stopwatch_get_total_ms_def get_total_take ready_def split: prod.splits)

lemmas sw_ready_simps = start_ready stop_ready reset_ready lap_ready clear_ready

section \<open>Abstract stopwatch\<close>

text \<open>
  The promise of the service, over natural numbers that do not wrap: \<open>sp_acc\<close> milliseconds from
  finished segments, the microsecond \<open>sp_start\<close> at which the running segment began, every lap
  since the records were last cleared, and the totals \<open>sp_base\<close> and \<open>sp_last\<close> at that moment
  and at the last lap.
\<close>

record stopwatch_spec =
  sp_state :: stopwatch_state_t
  sp_acc :: nat
  sp_start :: nat
  sp_base :: nat
  sp_last :: nat
  sp_laps :: "nat list"

definition spec_init :: stopwatch_spec where
  "spec_init = \<lparr>sp_state = STOPWATCH_STATE_IDLE, sp_acc = 0, sp_start = 0, sp_base = 0,
     sp_last = 0, sp_laps = []\<rparr>"

definition sp_total :: "nat \<Rightarrow> stopwatch_spec \<Rightarrow> nat" where
  "sp_total n a = sp_acc a + (if sp_state a = STOPWATCH_STATE_RUNNING then (n - sp_start a) div 1000 else 0)"

fun spec_step :: "sw_op \<Rightarrow> nat \<Rightarrow> stopwatch_spec \<Rightarrow> stopwatch_spec" where
  "spec_step Start n a =
     (if sp_state a = STOPWATCH_STATE_RUNNING then a
      else a\<lparr>sp_state := STOPWATCH_STATE_RUNNING, sp_start := n\<rparr>)"
| "spec_step Stop n a =
     (if sp_state a = STOPWATCH_STATE_RUNNING
      then a\<lparr>sp_state := STOPWATCH_STATE_PAUSED, sp_acc := sp_total n a\<rparr> else a)"
| "spec_step Reset n a =
     (if sp_state a = STOPWATCH_STATE_RUNNING
      then spec_init\<lparr>sp_state := STOPWATCH_STATE_RUNNING, sp_start := n\<rparr> else spec_init)"
| "spec_step Lap n a = a\<lparr>sp_laps := sp_laps a @ [sp_total n a - sp_last a], sp_last := sp_total n a\<rparr>"
| "spec_step ClearLaps n a = a\<lparr>sp_laps := [], sp_last := sp_total n a, sp_base := sp_total n a\<rparr>"

text \<open>The laps since the last clearing add up to the time between it and the last lap.\<close>

definition spec_ok :: "nat \<Rightarrow> stopwatch_spec \<Rightarrow> bool" where
  "spec_ok n a \<longleftrightarrow> (sp_state a = STOPWATCH_STATE_RUNNING \<longrightarrow> sp_start a \<le> n) \<and>
     sp_last a \<le> sp_total n a \<and> sp_base a + sum_list (sp_laps a) = sp_last a"

lemma spec_ok_init [simp]: "spec_ok n spec_init"
  by (simp add: spec_ok_def spec_init_def)

lemma sp_total_mono: "n \<le> n' \<Longrightarrow> sp_total n a \<le> sp_total n' a"
  by (simp add: sp_total_def div_le_mono diff_le_mono)

lemma spec_ok_later: "spec_ok n a \<Longrightarrow> n \<le> n' \<Longrightarrow> spec_ok n' a"
  using sp_total_mono [of n n' a] by (auto simp: spec_ok_def)

lemma spec_ok_step: "spec_ok n a \<Longrightarrow> spec_ok n (spec_step op n a)"
  by (cases op) (auto simp: spec_ok_def sp_total_def spec_init_def)

end
