(* ===== verification/Peripherals.thy ===== *)
theory Peripherals
  imports Stopwatch
begin

text \<open>
  \<^verbatim>\<open>applications/notifier_buzzer.c\<close> and \<^verbatim>\<open>applications/indicator_led.c\<close>.  What the two modules do to the
  board is a trace of events, in order: pin modes, pin levels and the delays between them.  The
  buzzer is active low.  The endless loop of the LED thread is its one iteration,
  \<open>indicator_led_step\<close>, which takes the stopwatch state it reads and the variable \<open>blink\<close>.
\<close>

section \<open>The board\<close>

datatype pin = BUZZER_PIN | LED_RUN_PIN | LED_PAUSE_PIN | LED_ERR_PIN | LIGHT_DO_PIN

datatype pin_mode = PIN_MODE_OUTPUT | PIN_MODE_INPUT_PULLUP

datatype io_event = Mode pin pin_mode | Write pin bool | Delay nat

type_synonym io = "io_event list"

text \<open>The level a pin has after a trace, from the level it had before, and for how long it was low.\<close>

fun level_after :: "pin \<Rightarrow> bool \<Rightarrow> io \<Rightarrow> bool" where
  "level_after p l [] = l"
| "level_after p l (Write q v # es) = level_after p (if p = q then v else l) es"
| "level_after p l (Mode q m # es) = level_after p l es"
| "level_after p l (Delay n # es) = level_after p l es"

fun low_time :: "pin \<Rightarrow> bool \<Rightarrow> io \<Rightarrow> nat" where
  "low_time p l [] = 0"
| "low_time p l (Write q v # es) = low_time p (if p = q then v else l) es"
| "low_time p l (Mode q m # es) = low_time p l es"
| "low_time p l (Delay n # es) = (if l then 0 else n) + low_time p l es"

lemma level_after_append [simp]: "level_after p l (xs @ ys) = level_after p (level_after p l xs) ys"
  by (induction p l xs rule: level_after.induct) auto

lemma low_time_append [simp]: "low_time p l (xs @ ys) = low_time p l xs + low_time p (level_after p l xs) ys"
  by (induction p l xs rule: low_time.induct) auto

section \<open>Buzzer\<close>

record buzzer =
  s_beep_enabled :: bool
  buz_io :: io

definition buz_set :: "bool \<Rightarrow> buzzer \<Rightarrow> buzzer" where
  "buz_set on b = b\<lparr>buz_io := buz_io b @ [Write BUZZER_PIN (\<not> on)]\<rparr>"

definition notifier_buzzer_init :: "buzzer \<Rightarrow> rt_err_t \<times> buzzer" where
  "notifier_buzzer_init b =
     (RT_EOK, buz_set False (b\<lparr>buz_io := buz_io b @ [Mode BUZZER_PIN PIN_MODE_OUTPUT]\<rparr>))"

definition notifier_beep_enable :: "bool \<Rightarrow> buzzer \<Rightarrow> buzzer" where
  "notifier_beep_enable enable b =
     (let b1 = b\<lparr>s_beep_enabled := enable\<rparr> in if \<not> s_beep_enabled b1 then buz_set False b1 else b1)"

definition notifier_beep_is_enabled :: "buzzer \<Rightarrow> bool" where
  "notifier_beep_is_enabled b = s_beep_enabled b"

definition notifier_beep_once :: "u16 \<Rightarrow> buzzer \<Rightarrow> buzzer" where
  "notifier_beep_once ms b =
     (if \<not> s_beep_enabled b then b
      else let b1 = buz_set True b; b2 = b1\<lparr>buz_io := buz_io b1 @ [Delay (unat ms)]\<rparr> in buz_set False b2)"

datatype buzzer_op = Beep_Enable bool | Beep_Once u16

fun buzzer_step :: "buzzer_op \<Rightarrow> buzzer \<Rightarrow> buzzer" where
  "buzzer_step (Beep_Enable e) b = notifier_beep_enable e b"
| "buzzer_step (Beep_Once ms) b = notifier_beep_once ms b"

text \<open>The time a sequence of calls should sound: the beeps requested while beeping is enabled.\<close>

fun beep_time :: "bool \<Rightarrow> buzzer_op list \<Rightarrow> nat" where
  "beep_time e [] = 0"
| "beep_time e (Beep_Enable e' # ops) = beep_time e' ops"
| "beep_time e (Beep_Once ms # ops) = (if e then unat ms else 0) + beep_time e ops"

lemma buzzer_step_level: "level_after BUZZER_PIN True (buz_io b) \<Longrightarrow> level_after BUZZER_PIN True (buz_io (buzzer_step op b))"
  by (cases op) (simp_all add: notifier_beep_enable_def notifier_beep_once_def buz_set_def Let_def)

lemma buzzer_steps:
  assumes "level_after BUZZER_PIN True (buz_io b)"
  shows "level_after BUZZER_PIN True (buz_io (fold buzzer_step ops b)) \<and>
    low_time BUZZER_PIN True (buz_io (fold buzzer_step ops b)) =
      low_time BUZZER_PIN True (buz_io b) + beep_time (s_beep_enabled b) ops"
  using assms
proof (induction ops arbitrary: b)
  case (Cons op ops)
  have "level_after BUZZER_PIN True (buz_io (buzzer_step op b))"
    using Cons.prems by (rule buzzer_step_level)
  from Cons.IH [OF this] show ?case
    using Cons.prems
    by (cases op) (simp_all add: notifier_beep_enable_def notifier_beep_once_def buz_set_def Let_def)
qed simp

text \<open>After initialisation and any sequence of enable, disable and beep calls the buzzer is
  silent (its pin is high), and the time it sounded is exactly the sum of the beeps requested
  while beeping was enabled.\<close>

theorem buzzer_sounds_as_requested:
  "let b = fold buzzer_step ops (snd (notifier_buzzer_init \<lparr>s_beep_enabled = True, buz_io = []\<rparr>)) in
   level_after BUZZER_PIN True (buz_io b) \<and> low_time BUZZER_PIN True (buz_io b) = beep_time True ops"
  using buzzer_steps [of "snd (notifier_buzzer_init \<lparr>s_beep_enabled = True, buz_io = []\<rparr>)" ops]
  by (simp add: notifier_buzzer_init_def buz_set_def Let_def)

section \<open>Indicator LEDs\<close>

definition led_set :: "pin \<Rightarrow> bool \<Rightarrow> io \<Rightarrow> io" where
  "led_set p on es = es @ [Write p on]"

definition indicator_led_step :: "stopwatch_state_t \<Rightarrow> bool \<Rightarrow> io \<Rightarrow> bool \<times> io" where
  "indicator_led_step s blink es =
     (case s of
        STOPWATCH_STATE_RUNNING \<Rightarrow>
          let blink' = (\<not> blink) in
          (blink', led_set LED_ERR_PIN False (led_set LED_PAUSE_PIN False (led_set LED_RUN_PIN blink' es)) @ [Delay 500])
      | STOPWATCH_STATE_PAUSED \<Rightarrow>
          (blink, led_set LED_ERR_PIN False (led_set LED_PAUSE_PIN True (led_set LED_RUN_PIN False es)) @ [Delay 200])
      | STOPWATCH_STATE_IDLE \<Rightarrow>
          (blink, led_set LED_ERR_PIN False (led_set LED_PAUSE_PIN False (led_set LED_RUN_PIN False es)) @ [Delay 200]))"

text \<open>\<open>thread\<close> tells whether \<open>rt_thread_create\<close> finds memory; the thread then runs its loop.\<close>

definition indicator_led_init :: "bool \<Rightarrow> io \<Rightarrow> rt_err_t \<times> bool \<times> io" where
  "indicator_led_init thread es =
     (let es1 = es @ [Mode LED_RUN_PIN PIN_MODE_OUTPUT, Mode LED_PAUSE_PIN PIN_MODE_OUTPUT,
                      Mode LED_ERR_PIN PIN_MODE_OUTPUT];
          es2 = led_set LED_ERR_PIN False (led_set LED_PAUSE_PIN False (led_set LED_RUN_PIN False es1))
      in if \<not> thread then (- RT_ENOMEM, False, es2) else (RT_EOK, True, es2))"

fun led_run :: "stopwatch_state_t list \<Rightarrow> bool \<Rightarrow> io \<Rightarrow> bool \<times> io" where
  "led_run [] blink es = (blink, es)"
| "led_run (s # ss) blink es = (let (blink', es') = indicator_led_step s blink es in led_run ss blink' es')"

lemma led_run_append: "led_run (xs @ ys) b es = (let (b', es') = led_run xs b es in led_run ys b' es')"
  by (induction xs b es rule: led_run.induct) (auto simp: Let_def split: prod.splits)

lemma led_run_blink: "fst (led_run ss blink es) = (blink \<noteq> odd (count_list ss STOPWATCH_STATE_RUNNING))"
  by (induction ss blink es rule: led_run.induct)
    (auto simp: indicator_led_step_def Let_def split: stopwatch_state_t.splits)

text \<open>After every iteration of the LED thread the pause LED is lit exactly when the stopwatch it
  read is paused, the error LED is dark, and the run LED is lit exactly when the stopwatch is running
  and the number of running iterations so far is odd, so that it changes at every running iteration.\<close>

theorem led_shows_state:
  "let es = snd (led_run (ss @ [s]) False es0) in
   (level_after LED_PAUSE_PIN l es \<longleftrightarrow> s = STOPWATCH_STATE_PAUSED) \<and>
   \<not> level_after LED_ERR_PIN l es \<and>
   (level_after LED_RUN_PIN l es \<longleftrightarrow>
     s = STOPWATCH_STATE_RUNNING \<and> odd (count_list (ss @ [s]) STOPWATCH_STATE_RUNNING))"
  using led_run_blink [of ss False es0]
  by (cases s) (auto simp: led_run_append indicator_led_step_def led_set_def Let_def split: prod.splits)

end
