(* ===== verification/Oled_Bus.thy ===== *)
theory Oled_Bus
  imports Prelude
begin

text \<open>
  \<^verbatim>\<open>qu_dong/OLED/OLED.c\<close>, the software I2C bus: what the driver does to the two open-drain lines
  is a trace of line levels (the delays between them carry no information).  The second half is
  a reference listener of the I2C protocol, START, nine bits per byte sampled at the rising
  clock edge, STOP, and the proof that it hears exactly the frames the driver means to send.
\<close>

section \<open>The driver\<close>

datatype wire_event = SCL bool | SDA bool

type_synonym wire = "wire_event list"

definition OLED_W_SCL :: "bool \<Rightarrow> wire \<Rightarrow> wire" where
  "OLED_W_SCL v w = w @ [SCL v]"

definition OLED_W_SDA :: "bool \<Rightarrow> wire \<Rightarrow> wire" where
  "OLED_W_SDA v w = w @ [SDA v]"

text \<open>The wait loops and the GPIO set-up leave no trace but the two lines released.\<close>

definition OLED_GPIO_Init :: "wire \<Rightarrow> wire" where
  "OLED_GPIO_Init w = OLED_W_SDA True (OLED_W_SCL True w)"

definition OLED_I2C_Start :: "wire \<Rightarrow> wire" where
  "OLED_I2C_Start w = OLED_W_SCL False (OLED_W_SDA False (OLED_W_SCL True (OLED_W_SDA True w)))"

definition OLED_I2C_Stop :: "wire \<Rightarrow> wire" where
  "OLED_I2C_Stop w = OLED_W_SDA True (OLED_W_SCL True (OLED_W_SDA False w))"

definition send_bit :: "u8 \<Rightarrow> nat \<Rightarrow> wire \<Rightarrow> wire" where
  "send_bit Byte i w = OLED_W_SCL False (OLED_W_SCL True (OLED_W_SDA (Byte AND drop_bit i 0x80 \<noteq> 0) w))"

definition OLED_I2C_SendByte :: "u8 \<Rightarrow> wire \<Rightarrow> wire" where
  "OLED_I2C_SendByte Byte w =
     OLED_W_SCL False (OLED_W_SCL True (OLED_W_SDA True (fold (send_bit Byte) [0..<8] w)))"

definition OLED_WriteCommand :: "u8 \<Rightarrow> u8 \<Rightarrow> wire \<Rightarrow> wire" where
  "OLED_WriteCommand addr Command w =
     OLED_I2C_Stop (OLED_I2C_SendByte Command (OLED_I2C_SendByte 0x00 (OLED_I2C_SendByte addr
       (OLED_I2C_Start w))))"

text \<open>\<open>Data\<close> is the array the pointer points to, from the pointer on.\<close>

definition OLED_WriteData :: "u8 \<Rightarrow> u8 list \<Rightarrow> u8 \<Rightarrow> wire \<Rightarrow> wire" where
  "OLED_WriteData addr Data Count w =
     OLED_I2C_Stop (fold (\<lambda>i. OLED_I2C_SendByte (Data ! i)) [0..<unat Count]
       (OLED_I2C_SendByte 0x40 (OLED_I2C_SendByte addr (OLED_I2C_Start w))))"

definition OLED_SetCursor :: "u8 \<Rightarrow> u8 \<Rightarrow> u8 \<Rightarrow> wire \<Rightarrow> wire" where
  "OLED_SetCursor addr Page X w =
     OLED_WriteCommand addr (0x00 OR (X AND 0x0F))
       (OLED_WriteCommand addr (0x10 OR drop_bit 4 (X AND 0xF0))
         (OLED_WriteCommand addr (0xB0 OR Page) w))"

section \<open>A listener\<close>

record listener =
  l_scl :: bool
  l_sda :: bool
  l_bits :: "bool list"
  l_cur :: "u8 list option"
  l_frames :: "u8 list list"

definition byte_of_bits :: "bool list \<Rightarrow> u8" where
  "byte_of_bits bs = horner_sum of_bool 2 (rev bs)"

definition l_sample :: "listener \<Rightarrow> listener" where
  "l_sample l =
     (case l_cur l of None \<Rightarrow> l
      | Some c \<Rightarrow>
          let bs = l_bits l @ [l_sda l] in
          if length bs = 9 then l\<lparr>l_bits := [], l_cur := Some (c @ [byte_of_bits (take 8 bs)])\<rparr>
          else l\<lparr>l_bits := bs\<rparr>)"

fun hear :: "wire_event \<Rightarrow> listener \<Rightarrow> listener" where
  "hear (SCL v) l = (if v \<and> \<not> l_scl l then l_sample l else l)\<lparr>l_scl := v\<rparr>"
| "hear (SDA v) l =
     (if l_scl l \<and> l_sda l \<and> \<not> v then l\<lparr>l_sda := v, l_bits := [], l_cur := Some []\<rparr>
      else if l_scl l \<and> \<not> l_sda l \<and> v
      then (case l_cur l of None \<Rightarrow> l\<lparr>l_sda := v\<rparr>
            | Some c \<Rightarrow> l\<lparr>l_sda := v, l_bits := [], l_cur := None, l_frames := l_frames l @ [c]\<rparr>)
      else l\<lparr>l_sda := v\<rparr>)"

definition listen :: "listener \<Rightarrow> wire \<Rightarrow> listener" where
  "listen l w = fold hear w l"

text \<open>The listener of a wire from power-up, when the pull-ups hold both lines high.\<close>

definition silent :: listener where
  "silent = \<lparr>l_scl = True, l_sda = True, l_bits = [], l_cur = None, l_frames = []\<rparr>"

definition idle :: "u8 list list \<Rightarrow> wire \<Rightarrow> bool" where
  "idle fs w \<longleftrightarrow> listen silent w = silent\<lparr>l_frames := fs\<rparr>"

text \<open>Inside a frame: the clock is low, the bytes \<open>c\<close> have been received.\<close>

definition in_frame :: "u8 list list \<Rightarrow> u8 list \<Rightarrow> wire \<Rightarrow> bool" where
  "in_frame fs c w \<longleftrightarrow>
     (\<exists>d. listen silent w = \<lparr>l_scl = False, l_sda = d, l_bits = [], l_cur = Some c, l_frames = fs\<rparr>)"

lemma listen_append: "listen l (u @ w) = listen (listen l u) w"
  by (simp add: listen_def)

lemma bit_0x80: "i < 8 \<Longrightarrow> (Byte AND drop_bit i 0x80 \<noteq> 0) = bit (Byte :: u8) (7 - i)"
proof -
  assume "i < 8"
  then consider "i = 0" | "i = 1" | "i = 2" | "i = 3" | "i = 4" | "i = 5" | "i = 6" | "i = 7"
    by linarith
  then show ?thesis
    by cases (simp_all add: bit_iff_and_push_bit_not_eq_0)
qed

lemma byte_of_bits_bits:
  "byte_of_bits [bit b 7, bit b 6, bit b 5, bit b 4, bit b 3, bit b 2, bit b 1, bit b 0] = b"
proof -
  have "[bit b 0, bit b 1, bit b 2, bit b 3, bit b 4, bit b 5, bit b 6, bit b 7] = map (bit b) [0..<8]"
    by (simp add: upt_rec eval_nat_numeral)
  then show ?thesis
    using horner_sum_bit_eq_take_bit [of b 8] by (simp add: byte_of_bits_def take_bit_word_eq_self)
qed

lemma wire_send: "OLED_I2C_SendByte b w =
  w @ concat (map (\<lambda>i. [SDA (bit b (7 - i)), SCL True, SCL False]) [0..<8]) @ [SDA True, SCL True, SCL False]"
proof -
  have "fold (send_bit b) xs w = w @ concat (map (\<lambda>i. [SDA (bit b (7 - i)), SCL True, SCL False]) xs)"
    if "\<forall>i \<in> set xs. i < 8" for xs
    using that
    by (induction xs arbitrary: w) (simp_all add: send_bit_def OLED_W_SCL_def OLED_W_SDA_def bit_0x80)
  from this [of "[0..<8]"] show ?thesis
    by (simp add: OLED_I2C_SendByte_def OLED_W_SCL_def OLED_W_SDA_def del: upt_rec_numeral)
qed

lemma send_in_frame: "in_frame fs c w \<Longrightarrow> in_frame fs (c @ [b]) (OLED_I2C_SendByte b w)"
  unfolding in_frame_def
  by (auto simp: wire_send listen_append)
    (auto simp: listen_def l_sample_def upt_rec byte_of_bits_bits [unfolded One_nat_def])

lemma start_in_frame: "idle fs w \<Longrightarrow> in_frame fs [] (OLED_I2C_Start w)"
  by (simp add: idle_def in_frame_def OLED_I2C_Start_def OLED_W_SCL_def OLED_W_SDA_def listen_append)
    (auto simp: listen_def silent_def)

lemma stop_idle: "in_frame fs c w \<Longrightarrow> idle (fs @ [c]) (OLED_I2C_Stop w)"
  by (auto simp: idle_def in_frame_def OLED_I2C_Stop_def OLED_W_SCL_def OLED_W_SDA_def listen_append)
    (simp add: listen_def silent_def l_sample_def)

lemma send_all: "in_frame fs c w \<Longrightarrow> in_frame fs (c @ map f xs) (fold (\<lambda>i. OLED_I2C_SendByte (f i)) xs w)"
proof (induction xs arbitrary: c w)
  case (Cons x xs)
  from Cons.IH [OF send_in_frame [OF Cons.prems]] show ?case
    by simp
qed simp

lemma write_command_idle:
  "idle fs w \<Longrightarrow> idle (fs @ [[addr, 0x00, c]]) (OLED_WriteCommand addr c w)"
  unfolding OLED_WriteCommand_def
  using stop_idle [OF send_in_frame [OF send_in_frame [OF send_in_frame [OF start_in_frame]]]] by simp

lemma write_data_idle:
  assumes "idle fs w" and "unat n \<le> length d"
  shows "idle (fs @ [addr # 0x40 # take (unat n) d]) (OLED_WriteData addr d n w)"
proof -
  have "map ((!) d) [0..<unat n] = take (unat n) d"
    using assms(2) by (intro nth_equalityI) auto
  then show ?thesis
    unfolding OLED_WriteData_def
    using stop_idle [OF send_all [OF send_in_frame [OF send_in_frame [OF start_in_frame [OF assms(1)]]]],
        of addr "0x40" "(!) d" "[0..<unat n]"] by simp
qed

lemma set_cursor_idle:
  "idle fs w \<Longrightarrow>
   idle (fs @ [[addr, 0x00, 0xB0 OR Page], [addr, 0x00, 0x10 OR drop_bit 4 (X AND 0xF0)],
               [addr, 0x00, X AND 0x0F]]) (OLED_SetCursor addr Page X w)"
  unfolding OLED_SetCursor_def
  using write_command_idle [OF write_command_idle [OF write_command_idle]] by simp

lemma gpio_init_idle: "idle fs w \<Longrightarrow> idle fs (OLED_GPIO_Init w)"
  by (simp add: idle_def OLED_GPIO_Init_def OLED_W_SCL_def OLED_W_SDA_def listen_append)
    (simp add: listen_def silent_def)

text \<open>On a released bus a listener of the I2C protocol hears \<open>OLED_WriteCommand\<close> as exactly one
  frame, the address, the command prefix and the command, and \<open>OLED_WriteData\<close> as the address, the
  data prefix and the \<open>Count\<close> bytes in order; every call leaves the bus released.\<close>

theorem i2c_frames_heard:
  assumes "idle fs w" and "unat Count \<le> length Data"
  shows "idle (fs @ [[addr, 0x00, Command], addr # 0x40 # take (unat Count) Data])
    (OLED_WriteData addr Data Count (OLED_WriteCommand addr Command w))"
  using write_data_idle [OF write_command_idle [OF assms(1)] assms(2)] by simp

theorem i2c_frames_heard_witness:
  "idle [[0x78, 0x00, 0xAE], [0x78, 0x40, 1, 2]] (OLED_WriteData 0x78 [1, 2, 3] 2 (OLED_WriteCommand 0x78 0xAE []))"
  using i2c_frames_heard [of "[]" "[]" 2 "[1, 2, 3]" "0x78" "0xAE"] by (simp add: idle_def listen_def silent_def)

end
