(* ===== verification/Oled_Font.thy ===== *)
theory Oled_Font
  imports Prelude
begin

text \<open>
  \<^verbatim>\<open>qu_dong/OLED/OLED_Data.c\<close>: the 6x8 font, one row of six column bytes per character from the
  space on, bit 0 of a byte at the top.  The 8x16 table and the Chinese table are not compiled.
\<close>

definition OLED_F6x8 :: "u8 list list" where
  "OLED_F6x8 = [
     [0x00, 0x00, 0x00, 0x00, 0x00, 0x00],
     [0x00, 0x00, 0x00, 0x2F, 0x00, 0x00],
     [0x00, 0x00, 0x07, 0x00, 0x07, 0x00],
     [0x00, 0x14, 0x7F, 0x14, 0x7F, 0x14],
     [0x00, 0x24, 0x2A, 0x7F, 0x2A, 0x12],
     [0x00, 0x23, 0x13, 0x08, 0x64, 0x62],
     [0x00, 0x36, 0x49, 0x55, 0x22, 0x50],
     [0x00, 0x00, 0x00, 0x07, 0x00, 0x00],
     [0x00, 0x00, 0x1C, 0x22, 0x41, 0x00],
     [0x00, 0x00, 0x41, 0x22, 0x1C, 0x00],
     [0x00, 0x14, 0x08, 0x3E, 0x08, 0x14],
     [0x00, 0x08, 0x08, 0x3E, 0x08, 0x08],
     [0x00, 0x00, 0x00, 0xA0, 0x60, 0x00],
     [0x00, 0x08, 0x08, 0x08, 0x08, 0x08],
     [0x00, 0x00, 0x60, 0x60, 0x00, 0x00],
     [0x00, 0x20, 0x10, 0x08, 0x04, 0x02],
     [0x00, 0x3E, 0x51, 0x49, 0x45, 0x3E],
     [0x00, 0x00, 0x42, 0x7F, 0x40, 0x00],
     [0x00, 0x42, 0x61, 0x51, 0x49, 0x46],
     [0x00, 0x21, 0x41, 0x45, 0x4B, 0x31],
     [0x00, 0x18, 0x14, 0x12, 0x7F, 0x10],
     [0x00, 0x27, 0x45, 0x45, 0x45, 0x39],
     [0x00, 0x3C, 0x4A, 0x49, 0x49, 0x30],
     [0x00, 0x01, 0x71, 0x09, 0x05, 0x03],
     [0x00, 0x36, 0x49, 0x49, 0x49, 0x36],
     [0x00, 0x06, 0x49, 0x49, 0x29, 0x1E],
     [0x00, 0x00, 0x36, 0x36, 0x00, 0x00],
     [0x00, 0x00, 0x56, 0x36, 0x00, 0x00],
     [0x00, 0x08, 0x14, 0x22, 0x41, 0x00],
     [0x00, 0x14, 0x14, 0x14, 0x14, 0x14],
     [0x00, 0x00, 0x41, 0x22, 0x14, 0x08],
     [0x00, 0x02, 0x01, 0x51, 0x09, 0x06],
     [0x00, 0x3E, 0x49, 0x55, 0x59, 0x2E],
     [0x00, 0x7C, 0x12, 0x11, 0x12, 0x7C],
     [0x00, 0x7F, 0x49, 0x49, 0x49, 0x36],
     [0x00, 0x3E, 0x41, 0x41, 0x41, 0x22],
     [0x00, 0x7F, 0x41, 0x41, 0x22, 0x1C],
     [0x00, 0x7F, 0x49, 0x49, 0x49, 0x41],
     [0x00, 0x7F, 0x09, 0x09, 0x09, 0x01],
     [0x00, 0x3E, 0x41, 0x49, 0x49, 0x7A],
     [0x00, 0x7F, 0x08, 0x08, 0x08, 0x7F],
     [0x00, 0x00, 0x41, 0x7F, 0x41, 0x00],
     [0x00, 0x20, 0x40, 0x41, 0x3F, 0x01],
     [0x00, 0x7F, 0x08, 0x14, 0x22, 0x41],
     [0x00, 0x7F, 0x40, 0x40, 0x40, 0x40],
     [0x00, 0x7F, 0x02, 0x0C, 0x02, 0x7F],
     [0x00, 0x7F, 0x04, 0x08, 0x10, 0x7F],
     [0x00, 0x3E, 0x41, 0x41, 0x41, 0x3E],
     [0x00, 0x7F, 0x09, 0x09, 0x09, 0x06],
     [0x00, 0x3E, 0x41, 0x51, 0x21, 0x5E],
     [0x00, 0x7F, 0x09, 0x19, 0x29, 0x46],
     [0x00, 0x46, 0x49, 0x49, 0x49, 0x31],
     [0x00, 0x01, 0x01, 0x7F, 0x01, 0x01],
     [0x00, 0x3F, 0x40, 0x40, 0x40, 0x3F],
     [0x00, 0x1F, 0x20, 0x40, 0x20, 0x1F],
     [0x00, 0x3F, 0x40, 0x38, 0x40, 0x3F],
     [0x00, 0x63, 0x14, 0x08, 0x14, 0x63],
     [0x00, 0x07, 0x08, 0x70, 0x08, 0x07],
     [0x00, 0x61, 0x51, 0x49, 0x45, 0x43],
     [0x00, 0x00, 0x7F, 0x41, 0x41, 0x00],
     [0x00, 0x02, 0x04, 0x08, 0x10, 0x20],
     [0x00, 0x00, 0x41, 0x41, 0x7F, 0x00],
     [0x00, 0x04, 0x02, 0x01, 0x02, 0x04],
     [0x00, 0x40, 0x40, 0x40, 0x40, 0x40],
     [0x00, 0x00, 0x01, 0x02, 0x04, 0x00],
     [0x00, 0x20, 0x54, 0x54, 0x54, 0x78],
     [0x00, 0x7F, 0x48, 0x44, 0x44, 0x38],
     [0x00, 0x38, 0x44, 0x44, 0x44, 0x20],
     [0x00, 0x38, 0x44, 0x44, 0x48, 0x7F],
     [0x00, 0x38, 0x54, 0x54, 0x54, 0x18],
     [0x00, 0x08, 0x7E, 0x09, 0x01, 0x02],
     [0x00, 0x18, 0xA4, 0xA4, 0xA4, 0x7C],
     [0x00, 0x7F, 0x08, 0x04, 0x04, 0x78],
     [0x00, 0x00, 0x44, 0x7D, 0x40, 0x00],
     [0x00, 0x40, 0x80, 0x84, 0x7D, 0x00],
     [0x00, 0x7F, 0x10, 0x28, 0x44, 0x00],
     [0x00, 0x00, 0x41, 0x7F, 0x40, 0x00],
     [0x00, 0x7C, 0x04, 0x18, 0x04, 0x78],
     [0x00, 0x7C, 0x08, 0x04, 0x04, 0x78],
     [0x00, 0x38, 0x44, 0x44, 0x44, 0x38],
     [0x00, 0xFC, 0x24, 0x24, 0x24, 0x18],
     [0x00, 0x18, 0x24, 0x24, 0x18, 0xFC],
     [0x00, 0x7C, 0x08, 0x04, 0x04, 0x08],
     [0x00, 0x48, 0x54, 0x54, 0x54, 0x20],
     [0x00, 0x04, 0x3F, 0x44, 0x40, 0x20],
     [0x00, 0x3C, 0x40, 0x40, 0x20, 0x7C],
     [0x00, 0x1C, 0x20, 0x40, 0x20, 0x1C],
     [0x00, 0x3C, 0x40, 0x30, 0x40, 0x3C],
     [0x00, 0x44, 0x28, 0x10, 0x28, 0x44],
     [0x00, 0x1C, 0xA0, 0xA0, 0xA0, 0x7C],
     [0x00, 0x44, 0x64, 0x54, 0x4C, 0x44],
     [0x00, 0x00, 0x08, 0x7F, 0x41, 0x00],
     [0x00, 0x00, 0x00, 0x7F, 0x00, 0x00],
     [0x00, 0x00, 0x41, 0x7F, 0x08, 0x00],
     [0x00, 0x08, 0x04, 0x08, 0x10, 0x08]]"

lemma length_OLED_F6x8 [simp]: "length OLED_F6x8 = 95"
  by (simp add: OLED_F6x8_def)

lemma glyph_widths: "list_all (\<lambda>g. length g = 6) OLED_F6x8"
  by (simp add: OLED_F6x8_def)

lemma length_glyph [simp]: "k < 95 \<Longrightarrow> length (OLED_F6x8 ! k) = 6"
  using glyph_widths by (simp add: list_all_length)

lemma glyph_first_column: "list_all (\<lambda>g. hd g = 0) OLED_F6x8"
  by (simp add: OLED_F6x8_def)

text \<open>Each glyph as one number: what tells them apart.\<close>

definition glyph_code :: "u8 list \<Rightarrow> int" where
  "glyph_code g = foldr (\<lambda>b n. uint b + 256 * n) g 0"

lemma distinct_glyph_codes: "distinct (map glyph_code OLED_F6x8)"
  by (simp add: OLED_F6x8_def glyph_code_def)

text \<open>The font is a table of 95 glyphs of six columns, the first column of each blank so that
  neighbouring characters never touch, and no two characters have the same glyph, so that a text
  can be read back from its pixels.\<close>

theorem font_is_readable:
  "length OLED_F6x8 = 95 \<and> list_all (\<lambda>g. length g = 6 \<and> hd g = 0) OLED_F6x8 \<and> distinct OLED_F6x8"
  using distinct_glyph_codes glyph_widths glyph_first_column by (simp add: distinct_map list_all_iff)

end
