(* ===== verification/Oled.thy ===== *)
theory Oled
  imports Oled_Bus Oled_Font
begin

text \<open>
  \<^verbatim>\<open>qu_dong/OLED/OLED.c\<close>, the frame buffer and the drawing routines.  \<open>OLED_DisplayBuf[8][128]\<close> is
  the flat array of 1024 bytes it is in memory: byte \<open>128 * page + x\<close> holds the eight pixels
  \<open>(x, 8 * page) .. (x, 8 * page + 7)\<close>, lowest bit on top.  Coordinates are \<open>int16_t\<close>, sizes
  \<open>uint8_t\<close>.  A loop whose 16-bit counter cannot reach its bound never ends and a read outside an
  array is undefined; both are \<open>None\<close>.
\<close>

section \<open>The driver\<close>

abbreviation (input) OLED_8X16 :: u8 where "OLED_8X16 \<equiv> 8"
abbreviation (input) OLED_6X8 :: u8 where "OLED_6X8 \<equiv> 6"

record oled =
  OLED_DisplayBuf :: "u8 list"
  s_oled_addr :: u8
  wire_out :: wire

definition OLED_SetI2CAddress :: "u8 \<Rightarrow> oled \<Rightarrow> oled" where
  "OLED_SetI2CAddress addr ol = ol\<lparr>s_oled_addr := addr\<rparr>"

definition OLED_Clear :: "oled \<Rightarrow> oled" where
  "OLED_Clear ol = ol\<lparr>OLED_DisplayBuf :=
     fold (\<lambda>j. fold (\<lambda>i b. b[128 * j + i := 0x00]) [0..<128]) [0..<8] (OLED_DisplayBuf ol)\<rparr>"

definition update_page :: "nat \<Rightarrow> oled \<Rightarrow> oled" where
  "update_page j ol = ol\<lparr>wire_out :=
     OLED_WriteData (s_oled_addr ol) (drop (128 * j) (OLED_DisplayBuf ol)) 128
       (OLED_SetCursor (s_oled_addr ol) (of_nat j) 0 (wire_out ol))\<rparr>"

definition OLED_Update :: "oled \<Rightarrow> oled" where
  "OLED_Update ol = fold update_page [0..<8] ol"

definition init_commands :: "u8 list" where
  "init_commands = [0xAE, 0xD5, 0x80, 0xA8, 0x3F, 0xD3, 0x00, 0x40, 0xA1, 0xC8, 0xDA, 0x12, 0x81, 0xFF,
     0xD9, 0xF1, 0xDB, 0x30, 0xA4, 0xA6, 0x8D, 0x14, 0xAF]"

definition OLED_Init :: "oled \<Rightarrow> oled" where
  "OLED_Init ol =
     (let ol1 = ol\<lparr>wire_out := OLED_GPIO_Init (wire_out ol)\<rparr>;
          ol2 = fold (\<lambda>c o'. o'\<lparr>wire_out := OLED_WriteCommand (s_oled_addr o') c (wire_out o')\<rparr>) init_commands ol1
      in OLED_Update (OLED_Clear ol2))"

text \<open>\<open>OLED_WriteData\<close> reads \<open>Width\<close> bytes from \<open>&OLED_DisplayBuf[j][X]\<close>, which may reach into the next row.\<close>

definition OLED_UpdateArea :: "int \<Rightarrow> int \<Rightarrow> u8 \<Rightarrow> u8 \<Rightarrow> oled \<Rightarrow> oled option" where
  "OLED_UpdateArea X Y Width Height ol =
     (let Page0 = c_div Y 8; Page10 = to_i16 (c_div (Y + int (unat Height) - 1) 8 + 1);
          Page = (if Y < 0 then Page0 - 1 else Page0);
          Page1 = (if Y < 0 then Page10 - 1 else Page10)
      in for_i16 Page Page1 (\<lambda>j o'.
           if X \<ge> 0 \<and> X \<le> 127 \<and> j \<ge> 0 \<and> j \<le> 7
           then let k = 128 * nat j + nat X in
                if k + unat Width \<le> length (OLED_DisplayBuf o')
                then Some (o'\<lparr>wire_out := OLED_WriteData (s_oled_addr o') (drop k (OLED_DisplayBuf o')) Width
                       (OLED_SetCursor (s_oled_addr o') (of_int j) (of_int X) (wire_out o'))\<rparr>)
                else None
           else Some o') ol)"

definition clear_point :: "int \<Rightarrow> int \<Rightarrow> u8 list \<Rightarrow> u8 list" where
  "clear_point j i buf =
     (if i \<ge> 0 \<and> i \<le> 127 \<and> j \<ge> 0 \<and> j \<le> 63
      then let k = 128 * nat (c_div j 8) + nat i in
           buf[k := buf ! k AND NOT (push_bit (nat (c_mod j 8)) 1)]
      else buf)"

definition OLED_ClearArea :: "int \<Rightarrow> int \<Rightarrow> u8 \<Rightarrow> u8 \<Rightarrow> u8 list \<Rightarrow> u8 list option" where
  "OLED_ClearArea X Y Width Height buf =
     for_i16 Y (Y + int (unat Height)) (\<lambda>j.
       for_i16 X (X + int (unat Width)) (\<lambda>i b. Some (clear_point j i b))) buf"

definition or_byte :: "nat \<Rightarrow> u8 \<Rightarrow> u8 list \<Rightarrow> u8 list" where
  "or_byte k v buf = buf[k := buf ! k OR v]"

definition image_cell :: "int \<Rightarrow> int \<Rightarrow> nat \<Rightarrow> u8 list \<Rightarrow> nat \<Rightarrow> nat \<Rightarrow> u8 list \<Rightarrow> u8 list option" where
  "image_cell X Y Width Img j i buf =
     (if X + int i \<ge> 0 \<and> X + int i \<le> 127
      then let Page = (if Y < 0 then c_div Y 8 - 1 else c_div Y 8);
               Shift = nat (if Y < 0 then c_mod Y 8 + 8 else c_mod Y 8);
               k = j * Width + i;
               col = nat (X + int i);
               p = Page + int j
           in Option.bind
                (if p \<ge> 0 \<and> p \<le> 7
                 then if k < length Img
                      then Some (or_byte (128 * nat p + col) (push_bit Shift (Img ! k)) buf) else None
                 else Some buf)
                (\<lambda>b. if p + 1 \<ge> 0 \<and> p + 1 \<le> 7
                     then if k < length Img
                          then Some (or_byte (128 * nat (p + 1) + col) (drop_bit (8 - Shift) (Img ! k)) b)
                          else None
                     else Some b)
      else Some buf)"

definition OLED_ShowImage :: "int \<Rightarrow> int \<Rightarrow> u8 \<Rightarrow> u8 \<Rightarrow> u8 list \<Rightarrow> u8 list \<Rightarrow> u8 list option" where
  "OLED_ShowImage X Y Width Height Img buf =
     Option.bind (OLED_ClearArea X Y Width Height buf)
       (fold_opt (\<lambda>j. fold_opt (image_cell X Y (unat Width) Img j) [0..<unat Width])
         [0..<nat (c_div (int (unat Height) - 1) 8 + 1)])"

definition OLED_ShowChar :: "int \<Rightarrow> int \<Rightarrow> char \<Rightarrow> u8 \<Rightarrow> u8 list \<Rightarrow> u8 list option" where
  "OLED_ShowChar X Y Ch FontSize buf =
     (let k = int (of_char Ch) - 32;
          show = (if k \<ge> 0 \<and> nat k < length OLED_F6x8 then OLED_ShowImage X Y 6 8 (OLED_F6x8 ! nat k) buf else None)
      in if FontSize = OLED_8X16 then show else if FontSize = OLED_6X8 then show else Some buf)"

text \<open>\<open>XOffset\<close> is a \<open>uint16_t\<close>; \<open>X + XOffset\<close> is converted to \<open>int16_t\<close> for \<open>OLED_ShowChar\<close>.\<close>

fun show_string :: "int \<Rightarrow> int \<Rightarrow> u8 \<Rightarrow> u16 \<Rightarrow> string \<Rightarrow> u8 list \<Rightarrow> u8 list option" where
  "show_string X Y FontSize XOffset [] buf = Some buf"
| "show_string X Y FontSize XOffset (c # cs) buf =
     (if c = CHR 0x00 then Some buf
      else Option.bind (OLED_ShowChar (to_i16 (X + int (unat XOffset))) Y c FontSize buf)
             (show_string X Y FontSize (XOffset + ucast FontSize) cs))"

definition OLED_ShowString :: "int \<Rightarrow> int \<Rightarrow> string \<Rightarrow> u8 \<Rightarrow> oled \<Rightarrow> oled option" where
  "OLED_ShowString X Y String FontSize ol =
     map_option (\<lambda>b. ol\<lparr>OLED_DisplayBuf := b\<rparr>) (show_string X Y FontSize 0 String (OLED_DisplayBuf ol))"

definition OLED_DrawPoint :: "int \<Rightarrow> int \<Rightarrow> u8 list \<Rightarrow> u8 list" where
  "OLED_DrawPoint X Y buf =
     (if X \<ge> 0 \<and> X \<le> 127 \<and> Y \<ge> 0 \<and> Y \<le> 63
      then or_byte (128 * nat (c_div Y 8) + nat X) (push_bit (nat (c_mod Y 8)) 1) buf
      else buf)"

definition OLED_GetPoint :: "int \<Rightarrow> int \<Rightarrow> u8 list \<Rightarrow> u8" where
  "OLED_GetPoint X Y buf =
     (if X \<ge> 0 \<and> X \<le> 127 \<and> Y \<ge> 0 \<and> Y \<le> 63
      then if buf ! (128 * nat (c_div Y 8) + nat X) AND push_bit (nat (c_mod Y 8)) 1 \<noteq> 0 then 1 else 0
      else 0)"

section \<open>Pixels\<close>

definition pix :: "u8 list \<Rightarrow> nat \<Rightarrow> nat \<Rightarrow> bool" where
  "pix buf x y = bit (buf ! (128 * (y div 8) + x)) (y mod 8)"

lemma cell_index:
  assumes "x < 128" "c < 128"
  shows "128 * q + x = 128 * p + c \<longleftrightarrow> q = p \<and> x = (c :: nat)"
proof -
  have "(128 * q + x) div 128 = q" "(128 * q + x) mod 128 = x"
    "(128 * p + c) div 128 = p" "(128 * p + c) mod 128 = c"
    using assms by simp_all
  then show ?thesis by metis
qed

lemma cell_bound: "x < 128 \<Longrightarrow> y < 64 \<Longrightarrow> 128 * (y div 8) + x < (1024 :: nat)"
  using less_mult_imp_div_less [of y 8 8] by linarith

lemma pix_or_byte:
  assumes "length buf = 1024" "p < 8" "c < 128" "x < 128" "y < 64"
  shows "pix (or_byte (128 * p + c) v buf) x y \<longleftrightarrow> pix buf x y \<or> x = c \<and> y div 8 = p \<and> bit v (y mod 8)"
  using assms cell_bound [of x y]
  by (auto simp: pix_def or_byte_def nth_list_update bit_or_iff cell_index)

lemma length_or_byte [simp]: "length (or_byte k v buf) = length buf"
  by (simp add: or_byte_def)

lemma length_clear_point [simp]: "length (clear_point j i buf) = length buf"
  by (simp add: clear_point_def Let_def)

lemma c_div_8: "0 \<le> j \<Longrightarrow> nat (c_div j 8) = nat j div 8" "0 \<le> j \<Longrightarrow> nat (c_mod j 8) = nat j mod 8"
  by (simp_all add: c_div_nonneg c_mod_nonneg nat_div_distrib nat_mod_distrib)

lemma pix_clear_point:
  assumes "length buf = 1024" "x < 128" "y < 64"
  shows "pix (clear_point j i buf) x y \<longleftrightarrow> pix buf x y \<and> \<not> (int x = i \<and> int y = j)"
proof (cases "i \<ge> 0 \<and> i \<le> 127 \<and> j \<ge> 0 \<and> j \<le> 63")
  case True
  define a where "a = nat i"
  define b where "b = nat j"
  have ab: "i = int a" "j = int b" "a < 128" "b < 64"
    using True by (auto simp: a_def b_def)
  have "128 * (b div 8) + a < 1024"
    using ab(3,4) by (rule cell_bound)
  moreover have "y = b \<longleftrightarrow> y div 8 = b div 8 \<and> y mod 8 = b mod 8"
    by (metis mod_mult_div_eq)
  moreover have "bit (NOT (push_bit (b mod 8) (1 :: u8))) (y mod 8) \<longleftrightarrow> y mod 8 \<noteq> b mod 8"
    by (auto simp: bit_not_iff bit_exp_iff)
  ultimately show ?thesis
    using assms ab by (auto simp: clear_point_def Let_def c_div_8 pix_def nth_list_update bit_and_iff cell_index)
next
  case False
  then show ?thesis
    using assms by (auto simp: clear_point_def)
qed

lemma fold_clear_points:
  assumes "length buf = 1024" "x < 128" "y < 64"
  shows "pix (fold (clear_point j) is buf) x y \<longleftrightarrow> pix buf x y \<and> \<not> (int x \<in> set is \<and> int y = j)"
    and "length (fold (clear_point j) is buf) = 1024"
  using assms(1)
  by (induction "is" arbitrary: buf) (auto simp: pix_clear_point [OF _ assms(2,3)])

lemma fold_clear_rows:
  assumes "length buf = 1024" "x < 128" "y < 64"
  shows "pix (fold (\<lambda>j. fold (clear_point j) is) js buf) x y \<longleftrightarrow>
      pix buf x y \<and> \<not> (int x \<in> set is \<and> int y \<in> set js)"
    and "length (fold (\<lambda>j. fold (clear_point j) is) js buf) = 1024"
  using assms(1)
  by (induction js arbitrary: buf) (auto simp: fold_clear_points [OF _ assms(2,3)])

lemma clear_area:
  assumes "- 32768 \<le> X" "X + int (unat W) \<le> 32767" "- 32768 \<le> Y" "Y + int (unat H) \<le> 32767"
  shows "OLED_ClearArea X Y W H buf =
    Some (fold (\<lambda>j. fold (clear_point j) [X..X + int (unat W) - 1]) [Y..Y + int (unat H) - 1] buf)"
proof -
  have "for_i16 X (X + int (unat W)) (\<lambda>i b. Some (clear_point j i b)) b =
      Some (fold (clear_point j) [X..X + int (unat W) - 1] b)" for j b
    by (rule for_i16_fold) (use assms in auto)
  then show ?thesis
    unfolding OLED_ClearArea_def using assms by (intro for_i16_fold) auto
qed

lemma clear_area_pix:
  assumes "- 32768 \<le> X" "X + int (unat W) \<le> 32767" "- 32768 \<le> Y" "Y + int (unat H) \<le> 32767"
    and "length buf = 1024"
  obtains buf' where "OLED_ClearArea X Y W H buf = Some buf'" "length buf' = 1024"
    "\<And>x y. x < 128 \<Longrightarrow> y < 64 \<Longrightarrow> pix buf' x y \<longleftrightarrow>
      pix buf x y \<and> \<not> (X \<le> int x \<and> int x < X + int (unat W) \<and> Y \<le> int y \<and> int y < Y + int (unat H))"
proof (rule that)
  show "OLED_ClearArea X Y W H buf =
      Some (fold (\<lambda>j. fold (clear_point j) [X..X + int (unat W) - 1]) [Y..Y + int (unat H) - 1] buf)"
    by (rule clear_area [OF assms(1-4)])
  show "length (fold (\<lambda>j. fold (clear_point j) [X..X + int (unat W) - 1]) [Y..Y + int (unat H) - 1] buf) = 1024"
    using fold_clear_rows(2) [of buf 0 0] assms(5) by simp
qed (use fold_clear_rows(1) [OF assms(5)] in auto)

text \<open>The page and shift of a row, also above the screen: \<open>Y = 8 * Page + Shift\<close> with \<open>Shift \<le> 8\<close>.\<close>

lemma page_shift:
  fixes Y :: int
  defines "Page \<equiv> (if Y < 0 then c_div Y 8 - 1 else c_div Y 8)"
    and "Shift \<equiv> (if Y < 0 then c_mod Y 8 + 8 else c_mod Y 8)"
  shows "Y = 8 * Page + Shift" "0 \<le> Shift" "Shift \<le> 8"
proof -
  have "c_div Y 8 = - ((- Y) div 8)" if "Y < 0"
    using that by (simp add: c_div_def)
  moreover have "8 * ((- Y) div 8) + (- Y) mod 8 = - Y"
    by simp
  moreover have "0 \<le> (- Y) mod 8" "(- Y) mod 8 < 8"
    by simp_all
  ultimately have neg: "Y = 8 * c_div Y 8 + c_mod Y 8" "- 8 < c_mod Y 8" "c_mod Y 8 \<le> 0" if "Y < 0"
    using that by (auto simp: c_mod_def)
  show "Y = 8 * Page + Shift" "0 \<le> Shift" "Shift \<le> 8"
    using neg by (auto simp: Page_def Shift_def c_div_nonneg c_mod_nonneg pos_mod_bound less_imp_le)
qed

lemma shifted_byte:
  fixes v :: u8
  assumes "s \<le> 8" and "y = 8 * q + r" "r < 8"
  shows "int q = p \<and> bit (push_bit s v) r \<or> int q = p + 1 \<and> bit (drop_bit (8 - s) v) r \<longleftrightarrow>
    8 * p + int s \<le> int y \<and> bit v (nat (int y - (8 * p + int s)))"
proof (cases "int q = p \<or> int q = p + 1")
  case True
  then show ?thesis
  proof
    assume q: "int q = p"
    then have "nat (int y - (8 * p + int s)) = r - s" "8 * p + int s \<le> int y \<longleftrightarrow> s \<le> r"
      using assms by auto
    then show ?thesis
      using q assms by (auto simp: bit_push_bit_iff)
  next
    assume q: "int q = p + 1"
    then have "nat (int y - (8 * p + int s)) = 8 - s + r" "8 * p + int s \<le> int y"
      using assms by auto
    then show ?thesis
      using q by (simp add: bit_drop_bit_eq)
  qed
next
  case False
  have "\<not> bit v (nat (int y - (8 * p + int s)))" if "8 * p + int s \<le> int y"
  proof -
    have "int q \<ge> p + 2"
    proof (rule ccontr)
      assume "\<not> int q \<ge> p + 2"
      then have "int q \<le> p - 1"
        using False by linarith
      then show False
        using that assms by linarith
    qed
    then have "8 \<le> nat (int y - (8 * p + int s))"
      using assms by linarith
    then show ?thesis
      using bit_imp_le_length [of v] by fastforce
  qed
  then show ?thesis
    using False by auto
qed

lemma pix_or_page:
  assumes "length buf = 1024" "c < 128" "x < 128" "y < 64"
  shows "pix (if p \<ge> 0 \<and> p \<le> 7 then or_byte (128 * nat p + c) v buf else buf) x y \<longleftrightarrow>
    pix buf x y \<or> x = c \<and> int (y div 8) = p \<and> bit v (y mod 8)"
proof (cases "p \<ge> 0 \<and> p \<le> 7")
  case True
  then have "nat p < 8" "y div 8 = nat p \<longleftrightarrow> int (y div 8) = p"
    by auto
  then show ?thesis
    using True pix_or_byte [OF assms(1) _ assms(2-4), of "nat p" v] by simp
next
  case False
  then show ?thesis
    using less_mult_imp_div_less [of y 8 8] assms(4) by auto
qed

text \<open>One byte of an image ORs its eight pixels into the column below \<open>(X + i, Y + 8 * j)\<close>.\<close>

lemma image_cell_pix:
  assumes "length buf = 1024" and "j * W + i < length Img"
  obtains buf' where "image_cell X Y W Img j i buf = Some buf'" "length buf' = 1024"
    "\<And>x y. x < 128 \<Longrightarrow> y < 64 \<Longrightarrow> pix buf' x y \<longleftrightarrow>
      pix buf x y \<or> int x = X + int i \<and> Y + 8 * int j \<le> int y \<and>
        bit (Img ! (j * W + i)) (nat (int y - (Y + 8 * int j)))"
proof -
  let ?v = "Img ! (j * W + i)"
  define P where "P = (if Y < 0 then c_div Y 8 - 1 else c_div Y 8)"
  define S where "S = nat (if Y < 0 then c_mod Y 8 + 8 else c_mod Y 8)"
  have Y: "Y = 8 * P + int S" "S \<le> 8"
    using page_shift [of Y] by (auto simp: P_def S_def)
  show ?thesis
  proof (cases "X + int i \<ge> 0 \<and> X + int i \<le> 127")
    case False
    then show ?thesis
      by (intro that [of buf]) (auto simp: image_cell_def assms(1))
  next
    case True
    define c where "c = nat (X + int i)"
    have c: "c < 128" "int c = X + int i"
      using True by (auto simp: c_def)
    let ?p = "P + int j"
    let ?b1 = "if ?p \<ge> 0 \<and> ?p \<le> 7 then or_byte (128 * nat ?p + c) (push_bit S ?v) buf else buf"
    let ?b2 = "if ?p + 1 \<ge> 0 \<and> ?p + 1 \<le> 7 then or_byte (128 * nat (?p + 1) + c) (drop_bit (8 - S) ?v) ?b1 else ?b1"
    have cell: "image_cell X Y W Img j i buf = Some ?b2"
      using True assms(2) unfolding image_cell_def P_def [symmetric] S_def [symmetric] c_def [symmetric] Let_def
      by simp
    have "pix ?b2 x y \<longleftrightarrow> pix buf x y \<or> int x = X + int i \<and> Y + 8 * int j \<le> int y \<and>
        bit ?v (nat (int y - (Y + 8 * int j)))" if xy: "x < 128" "y < 64" for x y
    proof -
      have b1: "pix ?b1 x y \<longleftrightarrow> pix buf x y \<or> x = c \<and> int (y div 8) = ?p \<and> bit (push_bit S ?v) (y mod 8)"
        using assms(1) c(1) xy by (rule pix_or_page)
      have len1: "length ?b1 = 1024"
        using assms(1) by simp
      have b2: "pix ?b2 x y \<longleftrightarrow> pix ?b1 x y \<or> x = c \<and> int (y div 8) = ?p + 1 \<and> bit (drop_bit (8 - S) ?v) (y mod 8)"
        using len1 c(1) xy by (rule pix_or_page)
      have Yj: "8 * ?p + int S = Y + 8 * int j"
        using Y by simp
      have xc: "x = c \<longleftrightarrow> int x = X + int i"
        using c(2) by linarith
      have "int (y div 8) = ?p \<and> bit (push_bit S ?v) (y mod 8) \<or>
          int (y div 8) = ?p + 1 \<and> bit (drop_bit (8 - S) ?v) (y mod 8) \<longleftrightarrow>
          Y + 8 * int j \<le> int y \<and> bit ?v (nat (int y - (Y + 8 * int j)))"
        using shifted_byte [of S y "y div 8" "y mod 8" ?p ?v] Y(2) unfolding Yj by simp
      then show ?thesis
        unfolding b2 b1 xc by blast
    qed
    then show ?thesis
      using cell assms(1) by (intro that [of ?b2]) auto
  qed
qed

lemma image_row_pix:
  assumes "length buf = 1024" and "(j + 1) * W \<le> length Img"
  shows "\<exists>buf'. fold_opt (image_cell X Y W Img j) [0..<W] buf = Some buf' \<and> length buf' = 1024 \<and>
    (\<forall>x y. x < 128 \<longrightarrow> y < 64 \<longrightarrow> (pix buf' x y \<longleftrightarrow>
      pix buf x y \<or> (\<exists>i < W. int x = X + int i \<and> Y + 8 * int j \<le> int y \<and>
        bit (Img ! (j * W + i)) (nat (int y - (Y + 8 * int j))))))"
proof -
  define Q where "Q i x y \<longleftrightarrow> int x = X + int i \<and> Y + 8 * int j \<le> int y \<and>
      bit (Img ! (j * W + i)) (nat (int y - (Y + 8 * int j)))" for i x y
  define I where "I k b \<longleftrightarrow> length b = 1024 \<and> (\<forall>x y. x < 128 \<longrightarrow> y < 64 \<longrightarrow>
      (pix b x y \<longleftrightarrow> pix buf x y \<or> (\<exists>i < k. Q i x y)))" for k b
  have "\<exists>buf'. fold_opt (image_cell X Y W Img j) [0..<W] buf = Some buf' \<and> I W buf'"
  proof (rule fold_opt_upt_inv [where I = I])
    fix k b
    assume k: "k < W" and b: "I k b"
    have "j * W + k < length Img"
      using k assms(2) by simp
    moreover have "length b = 1024"
      using b by (simp add: I_def)
    ultimately obtain b' where "image_cell X Y W Img j k b = Some b'" "length b' = 1024"
      "\<And>x y. x < 128 \<Longrightarrow> y < 64 \<Longrightarrow> pix b' x y \<longleftrightarrow> pix b x y \<or> Q k x y"
      using image_cell_pix [of b j W k Img X Y, folded Q_def] by blast
    then show "\<exists>b'. image_cell X Y W Img j k b = Some b' \<and> I (Suc k) b'"
      using b by (auto simp: I_def less_Suc_eq)
  qed (use assms in \<open>simp add: I_def\<close>)
  then show ?thesis
    by (simp only: I_def Q_def)
qed

lemma image_rows_pix:
  assumes "length buf = 1024" and "n * W \<le> length Img"
  shows "\<exists>buf'. fold_opt (\<lambda>j. fold_opt (image_cell X Y W Img j) [0..<W]) [0..<n] buf = Some buf' \<and>
    length buf' = 1024 \<and>
    (\<forall>x y. x < 128 \<longrightarrow> y < 64 \<longrightarrow> (pix buf' x y \<longleftrightarrow>
      pix buf x y \<or> (\<exists>j < n. \<exists>i < W. int x = X + int i \<and> Y + 8 * int j \<le> int y \<and>
        bit (Img ! (j * W + i)) (nat (int y - (Y + 8 * int j))))))"
proof -
  define Q where "Q j x y \<longleftrightarrow> (\<exists>i < W. int x = X + int i \<and> Y + 8 * int j \<le> int y \<and>
      bit (Img ! (j * W + i)) (nat (int y - (Y + 8 * int j))))" for j x y
  define I where "I k b \<longleftrightarrow> length b = 1024 \<and> (\<forall>x y. x < 128 \<longrightarrow> y < 64 \<longrightarrow>
      (pix b x y \<longleftrightarrow> pix buf x y \<or> (\<exists>j < k. Q j x y)))" for k b
  have "\<exists>buf'. fold_opt (\<lambda>j. fold_opt (image_cell X Y W Img j) [0..<W]) [0..<n] buf = Some buf' \<and> I n buf'"
  proof (rule fold_opt_upt_inv [where I = I])
    fix k b
    assume k: "k < n" and b: "I k b"
    have "(k + 1) * W \<le> length Img"
      using mult_le_mono1 [of "k + 1" n W] k assms(2) by linarith
    from image_row_pix [OF _ this, of b X Y] b
    obtain b' where "fold_opt (image_cell X Y W Img k) [0..<W] b = Some b'" "length b' = 1024"
      "\<forall>x y. x < 128 \<longrightarrow> y < 64 \<longrightarrow> (pix b' x y \<longleftrightarrow> pix b x y \<or> Q k x y)"
      unfolding I_def Q_def by blast
    then show "\<exists>b'. fold_opt (image_cell X Y W Img k) [0..<W] b = Some b' \<and> I (Suc k) b'"
      using b by (auto simp: I_def less_Suc_eq)
  qed (use assms in \<open>simp add: I_def\<close>)
  then show ?thesis
    by (simp only: I_def Q_def)
qed

text \<open>The pixel at column \<open>i\<close> and row \<open>k\<close> of an image stored in pages of \<open>W\<close> bytes.\<close>

definition image_pix :: "u8 list \<Rightarrow> nat \<Rightarrow> nat \<Rightarrow> nat \<Rightarrow> bool" where
  "image_pix Img W i k = bit (Img ! (k div 8 * W + i)) (k mod 8)"

lemma image_pix_found:
  "(\<exists>j < n. \<exists>i < W. int x = X + int i \<and> Y + 8 * int j \<le> int y \<and>
      bit (Img ! (j * W + i)) (nat (int y - (Y + 8 * int j)))) \<longleftrightarrow>
   X \<le> int x \<and> int x < X + int W \<and> Y \<le> int y \<and> int y < Y + 8 * int n \<and>
     image_pix Img W (nat (int x - X)) (nat (int y - Y))"  (is "?L \<longleftrightarrow> ?R")
proof
  assume ?L
  then obtain j i where ji: "j < n" "i < W" "int x = X + int i" "Y + 8 * int j \<le> int y"
    and b: "bit (Img ! (j * W + i)) (nat (int y - (Y + 8 * int j)))" by blast
  have "nat (int y - (Y + 8 * int j)) < 8"
    using bit_imp_le_length [OF b] by simp
  moreover have "nat (int y - Y) = 8 * j + nat (int y - (Y + 8 * int j))"
    using ji by linarith
  ultimately have "nat (int y - Y) div 8 = j" "nat (int y - Y) mod 8 = nat (int y - (Y + 8 * int j))"
    by simp_all
  then show ?R
    using ji b \<open>nat (int y - (Y + 8 * int j)) < 8\<close> by (auto simp: image_pix_def)
next
  assume R: ?R
  define t where "t = nat (int y - Y)"
  have "int t = int y - Y"
    using R by (simp add: t_def)
  moreover have "8 * int (t div 8) + int (t mod 8) = int t"
    by (metis mult_div_mod_eq of_nat_add of_nat_mult of_nat_numeral)
  ultimately have eq: "int t = int y - Y" "8 * int (t div 8) + int (t mod 8) = int t"
    by simp_all
  have "t div 8 < n" "Y + 8 * int (t div 8) \<le> int y"
    using R eq by (linarith+)
  moreover have "nat (int y - (Y + 8 * int (t div 8))) = t mod 8"
    using eq by linarith
  moreover have "bit (Img ! (t div 8 * W + nat (int x - X))) (t mod 8)"
    using R by (simp add: image_pix_def t_def)
  moreover have "nat (int x - X) < W" "int x = X + int (nat (int x - X))"
    using R by auto
  ultimately show ?L
    by metis
qed

text \<open>The pages \<open>OLED_ShowImage\<close> draws, \<open>(Height - 1) / 8 + 1\<close>: one also for the height 0, since the division
  rounds towards zero.\<close>

definition image_pages :: "nat \<Rightarrow> nat" where
  "image_pages H = (if H = 0 then 1 else (H + 7) div 8)"

lemma image_pages_loop: "nat (c_div (int H - 1) 8 + 1) = image_pages H"
proof (cases H)
  case 0
  then show ?thesis by (simp add: c_div_def image_pages_def)
next
  case (Suc k)
  have "c_div (int k) 8 = int (k div 8)"
    by (simp add: c_div_nonneg zdiv_int)
  moreover have "(Suc k + 7) div 8 = k div 8 + 1"
    by simp
  ultimately show ?thesis
    by (simp add: Suc image_pages_def)
qed

lemma show_image_pages:
  assumes "length buf = 1024" and "image_pages (unat H) * unat W \<le> length Img"
    and "- 32768 \<le> X" "X + int (unat W) \<le> 32767" "- 32768 \<le> Y" "Y + int (unat H) \<le> 32767"
  shows "\<exists>buf'. OLED_ShowImage X Y W H Img buf = Some buf' \<and> length buf' = 1024 \<and>
    (\<forall>x y. x < 128 \<longrightarrow> y < 64 \<longrightarrow> (pix buf' x y \<longleftrightarrow>
      (if X \<le> int x \<and> int x < X + int (unat W) \<and> Y \<le> int y \<and> int y < Y + 8 * int (image_pages (unat H))
       then image_pix Img (unat W) (nat (int x - X)) (nat (int y - Y)) \<or> Y + int (unat H) \<le> int y \<and> pix buf x y
       else pix buf x y)))"
proof -
  obtain b1 where clear: "OLED_ClearArea X Y W H buf = Some b1" "length b1 = 1024"
    "\<And>x y. x < 128 \<Longrightarrow> y < 64 \<Longrightarrow> pix b1 x y \<longleftrightarrow>
      pix buf x y \<and> \<not> (X \<le> int x \<and> int x < X + int (unat W) \<and> Y \<le> int y \<and> int y < Y + int (unat H))"
    using clear_area_pix [OF assms(3-6,1)] by blast
  have "unat H \<le> 8 * image_pages (unat H)"
    by (auto simp: image_pages_def)
  then have H: "int (unat H) \<le> 8 * int (image_pages (unat H))"
    by linarith
  from image_rows_pix [OF clear(2) assms(2), of X Y] obtain b2 where
    "fold_opt (\<lambda>j. fold_opt (image_cell X Y (unat W) Img j) [0..<unat W]) [0..<image_pages (unat H)] b1 = Some b2"
    "length b2 = 1024"
    "\<forall>x y. x < 128 \<longrightarrow> y < 64 \<longrightarrow> (pix b2 x y \<longleftrightarrow> pix b1 x y \<or>
       X \<le> int x \<and> int x < X + int (unat W) \<and> Y \<le> int y \<and> int y < Y + 8 * int (image_pages (unat H)) \<and>
       image_pix Img (unat W) (nat (int x - X)) (nat (int y - Y)))"
    unfolding image_pix_found by blast
  then show ?thesis
    unfolding OLED_ShowImage_def image_pages_loop clear(1) using clear(3) H by auto
qed

lemma show_image_pix:
  assumes "length buf = 1024" and "unat H = 8 * n" and "0 < n" and "length Img = n * unat W"
    and "- 32768 \<le> X" "X + int (unat W) \<le> 32767" "- 32768 \<le> Y" "Y + int (unat H) \<le> 32767"
  shows "\<exists>buf'. OLED_ShowImage X Y W H Img buf = Some buf' \<and> length buf' = 1024 \<and>
    (\<forall>x y. x < 128 \<longrightarrow> y < 64 \<longrightarrow> (pix buf' x y \<longleftrightarrow>
      (if X \<le> int x \<and> int x < X + int (unat W) \<and> Y \<le> int y \<and> int y < Y + int (unat H)
       then image_pix Img (unat W) (nat (int x - X)) (nat (int y - Y)) else pix buf x y)))"
proof -
  have n: "image_pages (unat H) = n"
    using assms(2,3) by (simp add: image_pages_def)
  then have h: "int (unat H) = 8 * int n" and len: "image_pages (unat H) * unat W \<le> length Img"
    using assms(2,4) by simp_all
  show ?thesis
    using show_image_pages [OF assms(1) len assms(5-8)] unfolding n h by (auto simp: not_le)
qed

text \<open>C36: \<open>OLED_ShowImage\<close> on an image that holds all the pages it reads.  The rows drawn are the whole
  pages \<open>8 * image_pages Height\<close>.  Of these, the rows of the rectangle, \<open>Height\<close> of them, become the image; the rows
  below the rectangle, which there are when the height is no multiple of eight, get the image's bits in addition to what they
  showed; no other pixel changes.  This holds at any position, also partly or wholly off the screen and at any
  alignment of \<open>Y\<close> to the pages, whose far corner fits the 16-bit loop counters.\<close>

theorem show_image_correct:
  assumes "length buf = 1024" and "image_pages (unat H) * unat W \<le> length Img"
    and "- 32768 \<le> X" "X + int (unat W) \<le> 32767" "- 32768 \<le> Y" "Y + int (unat H) \<le> 32767"
  shows "\<exists>buf'. OLED_ShowImage X Y W H Img buf = Some buf' \<and> length buf' = 1024 \<and>
    (\<forall>x y. x < 128 \<longrightarrow> y < 64 \<longrightarrow> (pix buf' x y \<longleftrightarrow>
      (if X \<le> int x \<and> int x < X + int (unat W) \<and> Y \<le> int y \<and> int y < Y + 8 * int (image_pages (unat H))
       then image_pix Img (unat W) (nat (int x - X)) (nat (int y - Y)) \<or> Y + int (unat H) \<le> int y \<and> pix buf x y
       else pix buf x y)))"
  by (rule show_image_pages [OF assms])

theorem show_image_correct_witness:
  "\<exists>buf'. OLED_ShowImage (- 1) 50 2 9 [0xFF, 0xFF, 0xFF, 0x02] (replicate 1024 0) = Some buf' \<and> length buf' = 1024 \<and>
    pix buf' 0 57 \<and> \<not> pix buf' 0 58 \<and> pix buf' 0 59"
proof -
  let ?img = "[0xFF, 0xFF, 0xFF, 0x02] :: u8 list"
  have n: "image_pages (unat (9 :: u8)) = 2"
    by (simp add: image_pages_def)
  obtain b where b: "OLED_ShowImage (- 1) 50 2 9 ?img (replicate 1024 0) = Some b" "length b = 1024"
    and p: "\<forall>x y. x < 128 \<longrightarrow> y < 64 \<longrightarrow> (pix b x y \<longleftrightarrow>
      (if - 1 \<le> int x \<and> int x < - 1 + int (unat (2 :: u8)) \<and> 50 \<le> int y \<and> int y < 50 + 8 * int 2
       then image_pix ?img (unat (2 :: u8)) (nat (int x - - 1)) (nat (int y - 50)) \<or> 50 + int (unat (9 :: u8)) \<le> int y \<and> pix (replicate 1024 0) x y
       else pix (replicate 1024 0) x y))"
    using show_image_correct [of "replicate 1024 0" 9 2 ?img "- 1" 50] unfolding n by auto
  have "pix b 0 57" "\<not> pix b 0 58" "pix b 0 59"
    using p [rule_format, of 0 57] p [rule_format, of 0 58] p [rule_format, of 0 59] by (simp_all add: image_pix_def)
  then show ?thesis using b by blast
qed

section \<open>Text\<close>

definition printable :: "char \<Rightarrow> bool" where
  "printable c \<longleftrightarrow> 32 \<le> (of_char c :: nat) \<and> (of_char c :: nat) < 127"

definition glyph :: "char \<Rightarrow> u8 list" where
  "glyph c = OLED_F6x8 ! (of_char c - 32)"

lemma show_char_pix:
  assumes "length buf = 1024" "printable c" "F = OLED_8X16 \<or> F = OLED_6X8"
    and "- 32768 \<le> X" "X \<le> 32761" "- 32768 \<le> Y" "Y \<le> 32759"
  shows "\<exists>buf'. OLED_ShowChar X Y c F buf = Some buf' \<and> length buf' = 1024 \<and>
    (\<forall>x y. x < 128 \<longrightarrow> y < 64 \<longrightarrow> (pix buf' x y \<longleftrightarrow>
      (if X \<le> int x \<and> int x < X + 6 \<and> Y \<le> int y \<and> int y < Y + 8
       then image_pix (glyph c) 6 (nat (int x - X)) (nat (int y - Y)) else pix buf x y)))"
proof -
  have k: "nat (int (of_char c) - 32) = of_char c - 32" "of_char c - 32 < (95 :: nat)" "0 \<le> int (of_char c) - 32"
    using assms(2) by (auto simp: printable_def)
  have img: "OLED_ShowChar X Y c F buf = OLED_ShowImage X Y 6 8 (glyph c) buf"
    unfolding OLED_ShowChar_def Let_def k(1) glyph_def using k assms(3) by auto
  have "length (glyph c) = 1 * unat (6 :: u8)"
    using k(2) by (simp add: glyph_def)
  moreover have u: "unat (6 :: u8) = 6" "unat (8 :: u8) = 8"
    by simp_all
  ultimately show ?thesis
    using show_image_pix [OF assms(1), of 8 1 "glyph c" 6 X Y] assms(4-7) unfolding img u by simp
qed

text \<open>The pixel \<open>(i, k)\<close> of a text whose characters start every \<open>F\<close> columns.\<close>

definition text_pix :: "string \<Rightarrow> nat \<Rightarrow> nat \<Rightarrow> nat \<Rightarrow> bool" where
  "text_pix cs F i k = image_pix (glyph (cs ! (i div F))) 6 (i mod F) k"

definition in_text :: "string \<Rightarrow> nat \<Rightarrow> int \<Rightarrow> int \<Rightarrow> nat \<Rightarrow> nat \<Rightarrow> bool" where
  "in_text cs F X Y x y \<longleftrightarrow> X \<le> int x \<and> int x < X + int (F * length cs) \<and>
     nat (int x - X) mod F < 6 \<and> Y \<le> int y \<and> int y < Y + 8"

lemma in_text_Cons:
  assumes "6 \<le> F"
  shows "in_text (c # cs) F X Y x y \<longleftrightarrow>
    (X \<le> int x \<and> int x < X + 6 \<and> Y \<le> int y \<and> int y < Y + 8) \<or> in_text cs F (X + int F) Y x y" (is ?A)
    and "in_text cs F (X + int F) Y x y \<Longrightarrow>
      text_pix (c # cs) F (nat (int x - X)) k = text_pix cs F (nat (int x - (X + int F))) k" (is "_ \<Longrightarrow> ?B")
    and "X \<le> int x \<Longrightarrow> int x < X + 6 \<Longrightarrow>
      text_pix (c # cs) F (nat (int x - X)) k = image_pix (glyph c) 6 (nat (int x - X)) k"
proof -
  define t where "t = nat (int x - X)"
  have first: "t div F = 0" "t mod F = t" if "int x < X + 6" "X \<le> int x"
    using that assms by (auto simp: t_def)
  have later: "t = nat (int x - (X + int F)) + F" if "X + int F \<le> int x"
    using that by (auto simp: t_def)
  show ?A
  proof (cases "X + int F \<le> int x")
    case True
    then show ?thesis
      using later [OF True] assms by (auto simp: in_text_def t_def [symmetric] algebra_simps)
  next
    case False
    then have "nat (int x - X) mod F = nat (int x - X)" if "X \<le> int x"
      using that by auto
    moreover obtain n where "int F * int (length cs) = int n"
      by (metis of_nat_mult)
    ultimately show ?thesis
      using False by (auto simp: in_text_def algebra_simps)
  qed
  show ?B if "in_text cs F (X + int F) Y x y"
  proof -
    have "X + int F \<le> int x"
      using that by (simp add: in_text_def)
    from later [OF this] show ?thesis
      using assms div_add_self2 [of F "nat (int x - (X + int F))"] by (simp add: text_pix_def t_def [symmetric])
  qed
  show "X \<le> int x \<Longrightarrow> int x < X + 6 \<Longrightarrow>
      text_pix (c # cs) F (nat (int x - X)) k = image_pix (glyph c) 6 (nat (int x - X)) k"
    using first by (simp add: text_pix_def t_def [symmetric])
qed

lemma printable_not_nul: "printable c \<Longrightarrow> c \<noteq> CHR 0x00"
  by (auto simp: printable_def)

lemma show_string_pix:
  assumes "length buf = 1024" "list_all printable cs" "F = OLED_8X16 \<or> F = OLED_6X8"
    and "- 32768 \<le> X" "- 32768 \<le> Y" "Y \<le> 32759"
    and "unat off + unat F * length cs < 65536" "X + int (unat off + unat F * length cs) \<le> 32761"
  shows "\<exists>buf'. show_string X Y F off cs buf = Some buf' \<and> length buf' = 1024 \<and>
    (\<forall>x y. x < 128 \<longrightarrow> y < 64 \<longrightarrow> (pix buf' x y \<longleftrightarrow>
      (if in_text cs (unat F) (X + int (unat off)) Y x y
       then text_pix cs (unat F) (nat (int x - (X + int (unat off)))) (nat (int y - Y)) else pix buf x y)))"
  using assms(1,2,7,8)
proof (induction cs arbitrary: off buf)
  case Nil
  then show ?case by (auto simp: in_text_def)
next
  case (Cons c cs)
  let ?F = "unat F" and ?X = "X + int (unat off)"
  have F: "6 \<le> ?F" "?F \<le> 8"
    using assms(3) by auto
  have off: "unat (off + ucast F) = unat off + ?F"
    using Cons.prems(3) F by (simp add: unat_word_ariths unsigned_ucast_eq take_bit_nat_eq_self)
  have X: "to_i16 ?X = ?X" "- 32768 \<le> ?X" "?X \<le> 32761"
  proof -
    have "int (unat off) \<le> int (unat off + ?F * length (c # cs))"
      by simp
    then show "- 32768 \<le> ?X" "?X \<le> 32761"
      using assms(4) Cons.prems(4) by linarith+
    then show "to_i16 ?X = ?X"
      by (intro to_i16_id) auto
  qed
  obtain b1 where b1: "OLED_ShowChar ?X Y c F buf = Some b1" "length b1 = 1024"
    and p1: "\<forall>x y. x < 128 \<longrightarrow> y < 64 \<longrightarrow> (pix b1 x y \<longleftrightarrow>
      (if ?X \<le> int x \<and> int x < ?X + 6 \<and> Y \<le> int y \<and> int y < Y + 8
       then image_pix (glyph c) 6 (nat (int x - ?X)) (nat (int y - Y)) else pix buf x y))"
    using show_char_pix [OF Cons.prems(1) _ assms(3) X(2,3) assms(5,6), of c] Cons.prems(2) by auto
  obtain b2 where b2: "show_string X Y F (off + ucast F) cs b1 = Some b2" "length b2 = 1024"
    and p2: "\<forall>x y. x < 128 \<longrightarrow> y < 64 \<longrightarrow> (pix b2 x y \<longleftrightarrow>
      (if in_text cs ?F (?X + int ?F) Y x y
       then text_pix cs ?F (nat (int x - (?X + int ?F))) (nat (int y - Y)) else pix b1 x y))"
    using Cons.IH [of b1 "off + ucast F"] Cons.prems b1(2) by (auto simp: off algebra_simps)
  have "pix b2 x y \<longleftrightarrow> (if in_text (c # cs) ?F ?X Y x y
       then text_pix (c # cs) ?F (nat (int x - ?X)) (nat (int y - Y)) else pix buf x y)"
    if "x < 128" "y < 64" for x y
    using p1 p2 that in_text_Cons(1) [OF F(1), where c = c and cs = cs and X = ?X and Y = Y and x = x and y = y]
      in_text_Cons(2) [OF F(1), where c = c and cs = cs and X = ?X and Y = Y and x = x and y = y]
      in_text_Cons(3) [OF F(1), where c = c and cs = cs and X = ?X and x = x]
    by (cases "in_text cs ?F (?X + int ?F) Y x y") auto
  moreover have "show_string X Y F off (c # cs) buf = Some b2"
    using b1 b2 X(1) Cons.prems(2) printable_not_nul [of c] by simp
  ultimately show ?case
    using b2(2) by blast
qed

text \<open>C35: \<open>OLED_ShowString\<close> draws a printable text as the glyphs of its characters, one every
  \<open>FontSize\<close> columns, eight rows high, and changes no pixel outside the glyph cells; with the font
  size 8X16 the glyphs are the same and only the pitch is eight.\<close>

theorem show_string_correct:
  assumes "length (OLED_DisplayBuf ol) = 1024" "list_all printable cs" "F = OLED_8X16 \<or> F = OLED_6X8"
    and "- 32768 \<le> X" "- 32768 \<le> Y" "Y \<le> 32759"
    and "unat F * length cs < 65536" "X + int (unat F * length cs) \<le> 32761"
  shows "\<exists>buf'. OLED_ShowString X Y cs F ol = Some (ol\<lparr>OLED_DisplayBuf := buf'\<rparr>) \<and> length buf' = 1024 \<and>
    (\<forall>x y. x < 128 \<longrightarrow> y < 64 \<longrightarrow> (pix buf' x y \<longleftrightarrow>
      (if in_text cs (unat F) X Y x y then text_pix cs (unat F) (nat (int x - X)) (nat (int y - Y))
       else pix (OLED_DisplayBuf ol) x y)))"
  using show_string_pix [OF assms(1-6), of 0] assms(7,8) by (auto simp: OLED_ShowString_def)

theorem show_string_correct_witness:
  "\<exists>buf'. OLED_ShowString 30 36 ''1'' OLED_6X8 \<lparr>OLED_DisplayBuf = replicate 1024 0, s_oled_addr = 0x78, wire_out = []\<rparr> =
      Some \<lparr>OLED_DisplayBuf = buf', s_oled_addr = 0x78, wire_out = []\<rparr> \<and> pix buf' 33 40 \<and> \<not> pix buf' 30 40"
proof -
  let ?o = "\<lparr>OLED_DisplayBuf = replicate 1024 0, s_oled_addr = 0x78, wire_out = []\<rparr>"
  obtain b where b: "OLED_ShowString 30 36 ''1'' OLED_6X8 ?o = Some (?o\<lparr>OLED_DisplayBuf := b\<rparr>)"
    and p: "\<forall>x y. x < 128 \<longrightarrow> y < 64 \<longrightarrow> (pix b x y \<longleftrightarrow>
      (if in_text ''1'' (unat OLED_6X8) 30 36 x y then text_pix ''1'' (unat OLED_6X8) (nat (int x - 30)) (nat (int y - 36))
       else pix (OLED_DisplayBuf ?o) x y))"
    using show_string_correct [of ?o "''1''" OLED_6X8 30 36] by (auto simp: printable_def)
  have u: "unat (6 :: u8) = 6"
    by simp
  have "pix b 33 40" "\<not> pix b 30 40"
    using p [rule_format, of 33 40] p [rule_format, of 30 40]
    by (simp_all only: u) (simp_all add: in_text_def text_pix_def image_pix_def glyph_def OLED_F6x8_def)
  then show ?thesis using b by auto
qed

text \<open>A point drawn with \<open>OLED_DrawPoint\<close> is the only one that changes, and \<open>OLED_GetPoint\<close>
  reads the pixels: 1 for a lit pixel on the screen, 0 for a dark one and off the screen.\<close>

theorem draw_get_point:
  assumes "length buf = 1024"
  shows "OLED_GetPoint X' Y' (OLED_DrawPoint X Y buf) =
    (if X' = X \<and> Y' = Y \<and> 0 \<le> X \<and> X \<le> 127 \<and> 0 \<le> Y \<and> Y \<le> 63 then 1 else OLED_GetPoint X' Y' buf)"
proof -
  have get: "OLED_GetPoint X' Y' b =
      (if 0 \<le> X' \<and> X' \<le> 127 \<and> 0 \<le> Y' \<and> Y' \<le> 63 \<and> pix b (nat X') (nat Y') then 1 else 0)" for b
    by (auto simp: OLED_GetPoint_def pix_def c_div_8 bit_iff_and_push_bit_not_eq_0)
  show ?thesis
  proof (cases "0 \<le> X \<and> X \<le> 127 \<and> 0 \<le> Y \<and> Y \<le> 63")
    case True
    have same: "nat Y' div 8 = nat Y div 8 \<and> nat Y' mod 8 = nat Y mod 8 \<longleftrightarrow> Y' = Y" if "0 \<le> Y'"
      using that True by (metis div_mult_mod_eq eq_nat_nat_iff)
    have "pix (OLED_DrawPoint X Y buf) (nat X') (nat Y') \<longleftrightarrow> pix buf (nat X') (nat Y') \<or> X' = X \<and> Y' = Y"
      if "0 \<le> X' \<and> X' \<le> 127 \<and> 0 \<le> Y' \<and> Y' \<le> 63"
      using True that assms same less_mult_imp_div_less [of "nat Y" 8 8]
      by (auto simp: OLED_DrawPoint_def c_div_8 pix_or_byte bit_exp_iff)
    then show ?thesis
      unfolding get using True by auto
  next
    case False
    then show ?thesis by (auto simp: OLED_DrawPoint_def)
  qed
qed

theorem draw_get_point_witness:
  "OLED_GetPoint 5 9 (OLED_DrawPoint 5 9 (replicate 1024 0)) = 1 \<and>
   OLED_GetPoint 5 10 (OLED_DrawPoint 5 9 (replicate 1024 0)) = 0"
  using draw_get_point [of "replicate 1024 0" 5 9 5 9] draw_get_point [of "replicate 1024 0" 5 10 5 9]
  by (simp add: OLED_GetPoint_def c_div_8)

section \<open>What the panel hears\<close>

definition page_frames :: "u8 \<Rightarrow> nat \<Rightarrow> nat \<Rightarrow> u8 list \<Rightarrow> u8 list list" where
  "page_frames addr page x data =
     [[addr, 0x00, 0xB0 OR of_nat page], [addr, 0x00, 0x10 OR drop_bit 4 (of_nat x AND 0xF0)],
      [addr, 0x00, of_nat x AND 0x0F], addr # 0x40 # data]"

definition area :: "u8 list \<Rightarrow> nat \<Rightarrow> nat \<Rightarrow> nat \<Rightarrow> u8 list" where
  "area buf page x n = take n (drop (128 * page + x) buf)"

lemma send_page:
  assumes "idle fs w" "length buf = 1024" "128 * page + x + unat n \<le> 1024"
  shows "idle (fs @ page_frames addr page x (area buf page x (unat n)))
    (OLED_WriteData addr (drop (128 * page + x) buf) n (OLED_SetCursor addr (of_nat page) (of_nat x) w))"
  using write_data_idle [OF set_cursor_idle [OF assms(1), of addr "of_nat page" "of_nat x"], of n "drop (128 * page + x) buf" addr]
    assms(2,3) by (simp add: page_frames_def area_def)

lemma update_pages:
  assumes "idle fs (wire_out ol)" "length (OLED_DisplayBuf ol) = 1024" "n \<le> 8"
  shows "idle (fs @ concat (map (\<lambda>j. page_frames (s_oled_addr ol) j 0 (area (OLED_DisplayBuf ol) j 0 128)) [0..<n]))
      (wire_out (fold update_page [0..<n] ol)) \<and>
    OLED_DisplayBuf (fold update_page [0..<n] ol) = OLED_DisplayBuf ol \<and>
    s_oled_addr (fold update_page [0..<n] ol) = s_oled_addr ol"
  using assms(3)
proof (induction n)
  case (Suc n)
  have "idle ((fs @ concat (map (\<lambda>j. page_frames (s_oled_addr ol) j 0 (area (OLED_DisplayBuf ol) j 0 128)) [0..<n])) @
      page_frames (s_oled_addr ol) n 0 (area (OLED_DisplayBuf ol) n 0 (unat (128 :: u8))))
    (OLED_WriteData (s_oled_addr ol) (drop (128 * n + 0) (OLED_DisplayBuf ol)) 128
      (OLED_SetCursor (s_oled_addr ol) (of_nat n) (of_nat 0) (wire_out (fold update_page [0..<n] ol))))"
    using Suc assms(2) by (intro send_page) auto
  moreover have "unat (128 :: u8) = 128"
    by simp
  ultimately show ?case
    using Suc by (simp add: update_page_def [of n])
qed (use assms in simp)

lemma update_area_frames:
  assumes "idle fs (wire_out ol)" "length (OLED_DisplayBuf ol) = 1024"
    and "0 \<le> X" "X + int (unat W) \<le> 128" "0 < unat W" "0 \<le> Y" "Y + int (unat H) \<le> 64" "0 < unat H"
  shows "\<exists>w. OLED_UpdateArea X Y W H ol = Some (ol\<lparr>wire_out := w\<rparr>) \<and>
      idle (fs @ concat (map (\<lambda>j. page_frames (s_oled_addr ol) j (nat X) (area (OLED_DisplayBuf ol) j (nat X) (unat W)))
        [nat Y div 8..<(nat Y + unat H - 1) div 8 + 1])) w"
proof -
  define lo hi where "lo = nat Y div 8" and "hi = (nat Y + unat H - 1) div 8 + 1"
  define I where "I j o' \<longleftrightarrow> (\<exists>w. o' = ol\<lparr>wire_out := w\<rparr> \<and>
      idle (fs @ concat (map (\<lambda>j. page_frames (s_oled_addr ol) j (nat X) (area (OLED_DisplayBuf ol) j (nat X) (unat W)))
        [lo..<nat j])) w)" for j o'
  have hi: "hi \<le> 8" "lo \<le> hi"
  proof -
    have "nat Y + unat H - 1 < 64"
      using assms(6-8) by linarith
    then show "hi \<le> 8"
      using less_mult_imp_div_less [of "nat Y + unat H - 1" 8 8] by (simp add: hi_def)
    have "nat Y \<le> nat Y + unat H - 1"
      using assms(8) by linarith
    then show "lo \<le> hi"
      using div_le_mono [of "nat Y" "nat Y + unat H - 1" 8] by (simp add: lo_def hi_def)
  qed
  have Page: "c_div Y 8 = int lo" "to_i16 (c_div (Y + int (unat H) - 1) 8 + 1) = int hi"
  proof -
    obtain y where y: "Y = int y"
      using assms(6) by (metis nonneg_int_cases)
    have sum: "Y + int (unat H) - 1 = int (y + unat H - 1)"
      using assms(8) y by simp
    have "c_div (int a) 8 = int (a div 8)" for a
      by (simp add: c_div_nonneg zdiv_int)
    then show "c_div Y 8 = int lo" "to_i16 (c_div (Y + int (unat H) - 1) 8 + 1) = int hi"
      using hi y unfolding sum by (simp_all add: lo_def hi_def to_i16_id)
  qed
  have "\<exists>o'. OLED_UpdateArea X Y W H ol = Some o' \<and> I (int hi) o'"
    unfolding OLED_UpdateArea_def Page Let_def
  proof (simp only: not_less [THEN iffD2, OF assms(6)] if_False, rule for_i16_inv [where I = I])
    show "I (int lo) ol"
      using assms(1) by (auto simp: I_def intro!: exI [of _ "wire_out ol"])
  next
    fix j o'
    assume j: "int lo \<le> j" "j < int hi" and I: "I j o'"
    obtain p where p: "j = int p" "lo \<le> p" "p < 8"
      using j hi by (metis le_less_trans nat_int nat_le_iff of_nat_le_iff of_nat_less_iff order_less_le_trans zero_le_imp_eq_int of_nat_0_le_iff order_trans)
    obtain w where w: "o' = ol\<lparr>wire_out := w\<rparr>"
      "idle (fs @ concat (map (\<lambda>j. page_frames (s_oled_addr ol) j (nat X) (area (OLED_DisplayBuf ol) j (nat X) (unat W)))
        [lo..<p])) w"
      using I p by (auto simp: I_def)
    have fits: "128 * p + nat X + unat W \<le> 1024"
      using p assms(3-5) by linarith
    have X: "(of_int X :: u8) = of_nat (nat X)"
      using assms(3) by (metis int_nat_eq of_int_of_nat_eq)
    have X127: "X \<le> 127"
      using assms(4,5) by linarith
    have c: "(0 \<le> X \<and> X \<le> 127 \<and> 0 \<le> j \<and> j \<le> 7) = True"
      "(128 * nat j + nat X + unat W \<le> length (OLED_DisplayBuf o')) = True"
      by (use X127 assms(3) p in simp) (use w(1) p(1) fits assms(2) in simp)
    have nx: "nat (j + 1) = Suc p" "nat j = p" "(of_int j :: u8) = of_nat p"
      using p by auto
    have "I (j + 1) (o'\<lparr>wire_out := OLED_WriteData (s_oled_addr o') (drop (128 * nat j + nat X) (OLED_DisplayBuf o')) W
                       (OLED_SetCursor (s_oled_addr o') (of_int j) (of_int X) (wire_out o'))\<rparr>)"
      using send_page [OF w(2) assms(2) fits, of "s_oled_addr ol"] p(2)
      unfolding I_def nx X w(1) by (auto intro!: exI)
    then show "\<exists>s'. (if 0 \<le> X \<and> X \<le> 127 \<and> 0 \<le> j \<and> j \<le> 7
           then if 128 * nat j + nat X + unat W \<le> length (OLED_DisplayBuf o')
                then Some (o'\<lparr>wire_out := OLED_WriteData (s_oled_addr o') (drop (128 * nat j + nat X) (OLED_DisplayBuf o')) W
                       (OLED_SetCursor (s_oled_addr o') (of_int j) (of_int X) (wire_out o'))\<rparr>)
                else None
           else Some o') = Some s' \<and> I (j + 1) s'"
      unfolding c if_True by blast
  qed (use hi in auto)
  then show ?thesis
    unfolding I_def lo_def [symmetric] hi_def [symmetric] by auto
qed

lemma update_frames:
  assumes "idle fs (wire_out ol)" "length (OLED_DisplayBuf ol) = 1024"
  shows "\<exists>w. OLED_Update ol = ol\<lparr>wire_out := w\<rparr> \<and>
      idle (fs @ concat (map (\<lambda>j. page_frames (s_oled_addr ol) j 0 (area (OLED_DisplayBuf ol) j 0 128)) [0..<8])) w"
proof -
  have "OLED_Update ol = ol\<lparr>wire_out := wire_out (OLED_Update ol)\<rparr>"
    using update_pages [OF assms, of 8] by (cases ol) (auto simp: OLED_Update_def intro!: oled.equality)
  then show ?thesis
    using update_pages [OF assms, of 8]
    by (intro exI [of _ "wire_out (OLED_Update ol)"]) (auto simp: OLED_Update_def)
qed

text \<open>C37: over the bus \<open>OLED_Update\<close> sends, page by page, the cursor commands for column 0 of the page
  and the 128 bytes of its row of the buffer, nothing else, and leaves the buffer as it is;
  \<open>OLED_UpdateArea\<close> inside the screen sends the same for the pages the rectangle touches, from its
  left column on.\<close>

theorem update_sends_buffer:
  assumes "idle fs (wire_out ol)" "length (OLED_DisplayBuf ol) = 1024"
    and "0 \<le> X" "X + int (unat W) \<le> 128" "0 < unat W" "0 \<le> Y" "Y + int (unat H) \<le> 64" "0 < unat H"
  shows "(\<exists>w. OLED_Update ol = ol\<lparr>wire_out := w\<rparr> \<and>
      idle (fs @ concat (map (\<lambda>j. page_frames (s_oled_addr ol) j 0 (area (OLED_DisplayBuf ol) j 0 128)) [0..<8])) w) \<and>
    (\<exists>w. OLED_UpdateArea X Y W H ol = Some (ol\<lparr>wire_out := w\<rparr>) \<and>
      idle (fs @ concat (map (\<lambda>j. page_frames (s_oled_addr ol) j (nat X) (area (OLED_DisplayBuf ol) j (nat X) (unat W)))
        [nat Y div 8..<(nat Y + unat H - 1) div 8 + 1])) w)"
  using update_frames [OF assms(1,2)] update_area_frames [OF assms] by blast

theorem update_sends_buffer_witness:
  "\<exists>w. OLED_UpdateArea 30 36 98 8 \<lparr>OLED_DisplayBuf = replicate 1024 0, s_oled_addr = 0x78, wire_out = []\<rparr> =
     Some \<lparr>OLED_DisplayBuf = replicate 1024 0, s_oled_addr = 0x78, wire_out = w\<rparr> \<and>
     idle (concat (map (\<lambda>j. page_frames 0x78 j 30 (replicate 98 0)) [4, 5])) w"
proof -
  have u: "unat (98 :: u8) = 98" "unat (8 :: u8) = 8" "[4..<6] = [4, 5]"
    by (simp_all add: upt_rec)
  show ?thesis
    using update_sends_buffer [of "[]" "\<lparr>OLED_DisplayBuf = replicate 1024 0, s_oled_addr = 0x78, wire_out = []\<rparr>" 30 98 36 8]
    by (simp add: idle_def [of "[]"] listen_def silent_def area_def u del: upt_rec_numeral)
qed

end
