(* ===== verification/Kstring.thy ===== *)
theory Kstring
  imports Prelude
begin

text \<open>
  \<^verbatim>\<open>rt-thread/src/kservice.c\<close>, the memory and string services.  The memory routines work on a
  byte-addressed memory \<open>nat \<Rightarrow> u8\<close> shared by source and destination, so that overlap is
  visible; their word-at-a-time loops are kept as the build compiles them
  (\<open>RT_USING_TINY_SIZE\<close> off, \<open>sizeof (long) = 4\<close>, little endian).  The string routines read
  a NUL-terminated string as the list of the characters before the terminator.
\<close>

type_synonym memory = "nat \<Rightarrow> u8"

section \<open>Memory routines\<close>

definition store32 :: "memory \<Rightarrow> nat \<Rightarrow> u32 \<Rightarrow> memory" where
  "store32 m a w = m(a := ucast w, a + 1 := ucast (drop_bit 8 w),
     a + 2 := ucast (drop_bit 16 w), a + 3 := ucast (drop_bit 24 w))"

definition load32 :: "memory \<Rightarrow> nat \<Rightarrow> u32" where
  "load32 m a = ucast (m a) OR push_bit 8 (ucast (m (a + 1))) OR
     push_bit 16 (ucast (m (a + 2))) OR push_bit 24 (ucast (m (a + 3)))"

text \<open>The three loops of \<open>rt_memset\<close>; each returns the memory, the address and the count left.\<close>

fun memset_blocks :: "u32 \<Rightarrow> memory \<Rightarrow> nat \<Rightarrow> nat \<Rightarrow> memory \<times> nat \<times> nat" where
  "memset_blocks buffer m a count =
     (if count \<ge> 16
      then memset_blocks buffer
             (store32 (store32 (store32 (store32 m a buffer) (a + 4) buffer) (a + 8) buffer) (a + 12) buffer)
             (a + 16) (count - 16)
      else (m, a, count))"

fun memset_words :: "u32 \<Rightarrow> memory \<Rightarrow> nat \<Rightarrow> nat \<Rightarrow> memory \<times> nat \<times> nat" where
  "memset_words buffer m a count =
     (if count \<ge> 4 then memset_words buffer (store32 m a buffer) (a + 4) (count - 4) else (m, a, count))"

fun memset_bytes :: "u8 \<Rightarrow> memory \<Rightarrow> nat \<Rightarrow> nat \<Rightarrow> memory" where
  "memset_bytes d m a 0 = m"
| "memset_bytes d m a (Suc count) = memset_bytes d (m(a := d)) (a + 1) count"

definition rt_memset :: "memory \<Rightarrow> nat \<Rightarrow> u32 \<Rightarrow> nat \<Rightarrow> memory" where
  "rt_memset m s c count =
     (let d = c AND 0xff in
      if \<not> count < 4 \<and> s mod 4 = 0
      then let b1 = push_bit 8 d OR d;
               buffer = b1 OR push_bit 16 b1;
               (m1, a1, n1) = memset_blocks buffer m s count;
               (m2, a2, n2) = memset_words buffer m1 a1 n1
           in memset_bytes (ucast d) m2 a2 n2
      else memset_bytes (ucast d) m s count)"

fun memcpy_blocks :: "memory \<Rightarrow> nat \<Rightarrow> nat \<Rightarrow> nat \<Rightarrow> memory \<times> nat \<times> nat \<times> nat" where
  "memcpy_blocks m d s len =
     (if len \<ge> 16
      then let m1 = store32 m d (load32 m s);
               m2 = store32 m1 (d + 4) (load32 m1 (s + 4));
               m3 = store32 m2 (d + 8) (load32 m2 (s + 8));
               m4 = store32 m3 (d + 12) (load32 m3 (s + 12))
           in memcpy_blocks m4 (d + 16) (s + 16) (len - 16)
      else (m, d, s, len))"

fun memcpy_words :: "memory \<Rightarrow> nat \<Rightarrow> nat \<Rightarrow> nat \<Rightarrow> memory \<times> nat \<times> nat \<times> nat" where
  "memcpy_words m d s len =
     (if len \<ge> 4 then memcpy_words (store32 m d (load32 m s)) (d + 4) (s + 4) (len - 4)
      else (m, d, s, len))"

fun memcpy_bytes :: "memory \<Rightarrow> nat \<Rightarrow> nat \<Rightarrow> nat \<Rightarrow> memory" where
  "memcpy_bytes m d s 0 = m"
| "memcpy_bytes m d s (Suc len) = memcpy_bytes (m(d := m s)) (d + 1) (s + 1) len"

definition rt_memcpy :: "memory \<Rightarrow> nat \<Rightarrow> nat \<Rightarrow> nat \<Rightarrow> memory" where
  "rt_memcpy m dst src count =
     (if \<not> count < 16 \<and> src mod 4 = 0 \<and> dst mod 4 = 0
      then let (m1, d1, s1, n1) = memcpy_blocks m dst src count;
               (m2, d2, s2, n2) = memcpy_words m1 d1 s1 n1
           in memcpy_bytes m2 d2 s2 n2
      else memcpy_bytes m dst src count)"

fun memmove_down :: "memory \<Rightarrow> nat \<Rightarrow> nat \<Rightarrow> nat \<Rightarrow> memory" where
  "memmove_down m tmp s 0 = m"
| "memmove_down m tmp s (Suc n) = memmove_down (m(tmp - 1 := m (s - 1))) (tmp - 1) (s - 1) n"

definition rt_memmove :: "memory \<Rightarrow> nat \<Rightarrow> nat \<Rightarrow> nat \<Rightarrow> memory" where
  "rt_memmove m dest src n =
     (if src < dest \<and> dest < src + n then memmove_down m (dest + n) (src + n) n
      else memcpy_bytes m dest src n)"

fun rt_memcmp :: "memory \<Rightarrow> nat \<Rightarrow> nat \<Rightarrow> nat \<Rightarrow> int" where
  "rt_memcmp m su1 su2 0 = 0"
| "rt_memcmp m su1 su2 (Suc count) =
     (let res = uint (m su1) - uint (m su2) in
      if res \<noteq> 0 then res else rt_memcmp m (su1 + 1) (su2 + 1) count)"

section \<open>String routines\<close>

text \<open>\<open>*s\<close> as an \<open>int\<close>: plain \<open>char\<close> is unsigned on this target, the terminator is 0.\<close>

definition chr_at :: "string \<Rightarrow> int" where
  "chr_at s = (case s of [] \<Rightarrow> 0 | c # _ \<Rightarrow> of_char c)"

lemma chr_at_tl [termination_simp]: "chr_at s \<noteq> 0 \<Longrightarrow> length s - Suc 0 < length s"
  by (cases s) (auto simp: chr_at_def)

fun rt_strlen :: "string \<Rightarrow> nat" where
  "rt_strlen s = (if chr_at s \<noteq> 0 then 1 + rt_strlen (tl s) else 0)"

fun rt_strnlen :: "string \<Rightarrow> nat \<Rightarrow> nat" where
  "rt_strnlen s maxlen = (if chr_at s \<noteq> 0 \<and> 0 < maxlen then 1 + rt_strnlen (tl s) (maxlen - 1) else 0)"

fun rt_strcmp :: "string \<Rightarrow> string \<Rightarrow> int" where
  "rt_strcmp cs ct =
     (if chr_at cs \<noteq> 0 \<and> chr_at cs = chr_at ct then rt_strcmp (tl cs) (tl ct)
      else chr_at cs - chr_at ct)"

text \<open>\<open>__res\<close> is a \<open>signed char\<close>: the difference is cut to eight bits.\<close>

definition to_i8 :: "int \<Rightarrow> int" where
  "to_i8 x = (x + 128) mod 256 - 128"

fun rt_strncmp :: "string \<Rightarrow> string \<Rightarrow> nat \<Rightarrow> int" where
  "rt_strncmp cs ct 0 = 0"
| "rt_strncmp cs ct (Suc count) =
     (let res = to_i8 (chr_at cs - chr_at ct) in
      if res \<noteq> 0 \<or> chr_at cs = 0 then res else rt_strncmp (tl cs) (tl ct) count)"

definition fold_case :: "int \<Rightarrow> int" where
  "fold_case c = (if c \<ge> 65 \<and> c \<le> 90 then c + 32 else c)"

lemma fold_case_tl [termination_simp]: "fold_case (chr_at s) \<noteq> 0 \<Longrightarrow> length s - Suc 0 < length s"
  by (cases s) (auto simp: chr_at_def fold_case_def)

fun rt_strcasecmp :: "string \<Rightarrow> string \<Rightarrow> int" where
  "rt_strcasecmp a b =
     (let ca = fold_case (chr_at a); cb = fold_case (chr_at b) in
      if ca = cb \<and> ca \<noteq> 0 then rt_strcasecmp (tl a) (tl b) else ca - cb)"

text \<open>\<open>rt_strncpy\<close> returns the \<open>n\<close> characters it writes at \<open>dst\<close>.\<close>

fun rt_strncpy :: "string \<Rightarrow> nat \<Rightarrow> string" where
  "rt_strncpy src 0 = []"
| "rt_strncpy src (Suc n) =
     (case src of [] \<Rightarrow> CHR 0x00 # replicate n (CHR 0x00)
      | c # cs \<Rightarrow> if c = CHR 0x00 then CHR 0x00 # replicate n (CHR 0x00) else c # rt_strncpy cs n)"

text \<open>
  \<open>rt_strstr\<close> returns the offset of the match, or \<open>None\<close> for \<open>RT_NULL\<close>.  Its loop runs only
  for a non-empty pattern, so it ends at the latest with \<open>l1 = 0\<close>.
\<close>

fun strstr_loop :: "string \<Rightarrow> string \<Rightarrow> nat \<Rightarrow> nat \<Rightarrow> nat \<Rightarrow> nat option" where
  "strstr_loop s1 s2 l2 0 pos = None"
| "strstr_loop s1 s2 l2 (Suc l1) pos =
     (if Suc l1 \<ge> l2
      then if take l2 s1 = take l2 s2 then Some pos else strstr_loop (tl s1) s2 l2 l1 (pos + 1)
      else None)"

definition rt_strstr :: "string \<Rightarrow> string \<Rightarrow> nat option" where
  "rt_strstr s1 s2 =
     (let l2 = rt_strlen s2 in
      if l2 = 0 then Some 0 else strstr_loop s1 s2 l2 (rt_strlen s1) 0)"

declare memset_blocks.simps [simp del] memset_words.simps [simp del] memcpy_blocks.simps [simp del]
  memcpy_words.simps [simp del] rt_strlen.simps [simp del] rt_strnlen.simps [simp del]
  rt_strcmp.simps [simp del] rt_strcasecmp.simps [simp del]

section \<open>The memory routines against their reference\<close>

text \<open>What a fill and a copy mean, byte by byte and all at once.\<close>

definition filled :: "memory \<Rightarrow> nat \<Rightarrow> u8 \<Rightarrow> nat \<Rightarrow> memory" where
  "filled m s d n = (\<lambda>a. if s \<le> a \<and> a < s + n then d else m a)"

definition copied :: "memory \<Rightarrow> nat \<Rightarrow> nat \<Rightarrow> nat \<Rightarrow> memory" where
  "copied m d s n = (\<lambda>a. if d \<le> a \<and> a < d + n then m (s + (a - d)) else m a)"

lemma filled_0 [simp]: "filled m s d 0 = m"
  by (rule ext) (auto simp: filled_def)

lemma copied_0 [simp]: "copied m d s 0 = m"
  by (rule ext) (auto simp: copied_def)

lemma filled_filled: "filled (filled m s d n) (s + n) d k = filled m s d (n + k)"
  by (auto simp: filled_def)

lemma copied_copied:
  "d \<le> s \<or> s + (n + k) \<le> d \<Longrightarrow> copied (copied m d s n) (d + n) (s + n) k = copied m d s (n + k)"
  by (rule ext) (auto simp: copied_def)

definition join4 :: "u8 \<Rightarrow> u8 \<Rightarrow> u8 \<Rightarrow> u8 \<Rightarrow> u32" where
  "join4 b0 b1 b2 b3 = ucast b0 OR push_bit 8 (ucast b1) OR push_bit 16 (ucast b2) OR push_bit 24 (ucast b3)"

lemma byte_join4 [simp]:
  "(ucast (join4 b0 b1 b2 b3) :: u8) = b0"
  "(ucast (drop_bit 8 (join4 b0 b1 b2 b3)) :: u8) = b1"
  "(ucast (drop_bit 16 (join4 b0 b1 b2 b3)) :: u8) = b2"
  "(ucast (drop_bit 24 (join4 b0 b1 b2 b3)) :: u8) = b3"
  unfolding join4_def by (intro bit_word_eqI, auto simp: bit_simps dest: bit_imp_le_length)+

lemma load32_join4: "load32 m a = join4 (m a) (m (a + 1)) (m (a + 2)) (m (a + 3))"
  by (simp add: load32_def join4_def)

lemma upto4: "a \<le> x \<and> x < a + 4 \<longleftrightarrow> x = a \<or> x = a + 1 \<or> x = a + 2 \<or> x = a + (3 :: nat)"
  by linarith

lemma store32_load32: "store32 m d (load32 m s) = copied m d s 4"
  by (rule ext) (auto simp: store32_def load32_join4 copied_def upto4)

lemma spread_byte:
  fixes d :: u32
  shows "(push_bit 8 (d AND 0xff) OR (d AND 0xff)) OR push_bit 16 (push_bit 8 (d AND 0xff) OR (d AND 0xff)) =
    join4 (ucast d) (ucast d) (ucast d) (ucast d)"
proof -
  have "(0xff :: u32) = mask 8"
    by (simp add: mask_eq_exp_minus_1)
  then have "d AND 0xff = ucast (ucast d :: u8)"
    by (simp only: take_bit_eq_mask [symmetric]) (intro bit_word_eqI, auto simp: bit_simps)
  then show ?thesis
    by (simp add: join4_def push_bit_or push_bit_push_bit ac_simps)
qed

lemma store32_join4: "store32 m a (join4 d d d d) = filled m a d 4"
  by (rule ext) (auto simp: store32_def filled_def upto4)

lemma memset_bytes_filled: "memset_bytes d m a n = filled m a d n"
proof (induction n arbitrary: m a)
  case (Suc n)
  have "m(a := d) = filled m a d 1"
    by (rule ext) (auto simp: filled_def)
  then show ?case
    using Suc filled_filled [of m a d 1 n] by simp
qed simp

lemma memset_words_filled:
  "memset_words (join4 d d d d) m a n = (m', a', n') \<Longrightarrow>
   n' \<le> n \<and> a' = a + (n - n') \<and> m' = filled m a d (n - n')"
proof (induction n arbitrary: m a rule: less_induct)
  case (less n)
  show ?case
  proof (cases "4 \<le> n")
    case True
    then have "memset_words (join4 d d d d) (filled m a d 4) (a + 4) (n - 4) = (m', a', n')"
      using less.prems by (subst (asm) memset_words.simps) (simp add: store32_join4)
    from less.IH [OF _ this] True have "n' \<le> n - 4" "a' = a + 4 + (n - 4 - n')"
      "m' = filled m a d (4 + (n - 4 - n'))"
      by (simp_all add: filled_filled)
    moreover have "4 + (n - 4 - n') = n - n'"
      using True calculation(1) by linarith
    ultimately show ?thesis
      using True by auto
  qed (use less.prems in \<open>simp add: memset_words.simps\<close>)
qed

lemma memset_blocks_filled:
  "memset_blocks (join4 d d d d) m a n = (m', a', n') \<Longrightarrow>
   n' \<le> n \<and> a' = a + (n - n') \<and> m' = filled m a d (n - n')"
proof (induction n arbitrary: m a rule: less_induct)
  case (less n)
  have block: "filled (filled (filled (filled m a d 4) (a + 4) d 4) (a + 8) d 4) (a + 12) d 4 = filled m a d 16"
    by (rule ext) (auto simp: filled_def)
  show ?case
  proof (cases "16 \<le> n")
    case True
    then have "memset_blocks (join4 d d d d) (filled m a d 16) (a + 16) (n - 16) = (m', a', n')"
      using less.prems by (subst (asm) memset_blocks.simps) (simp add: store32_join4 block)
    from less.IH [OF _ this] True have "n' \<le> n - 16" "a' = a + 16 + (n - 16 - n')"
      "m' = filled m a d (16 + (n - 16 - n'))"
      by (simp_all add: filled_filled)
    moreover have "16 + (n - 16 - n') = n - n'"
      using True calculation(1) by linarith
    ultimately show ?thesis
      using True by auto
  qed (use less.prems in \<open>simp add: memset_blocks.simps\<close>)
qed

lemma memcpy_bytes_copied:
  "d \<le> s \<or> s + n \<le> d \<Longrightarrow> memcpy_bytes m d s n = copied m d s n"
proof (induction n arbitrary: m d s)
  case (Suc n)
  have "m(d := m s) = copied m d s 1"
    by (rule ext) (auto simp: copied_def)
  then show ?case
    using Suc copied_copied [of d s 1 n m] by auto
qed simp

lemma memcpy_words_copied:
  "d \<le> s \<or> s + n \<le> d \<Longrightarrow> memcpy_words m d s n = (m', d', s', n') \<Longrightarrow>
   n' \<le> n \<and> d' = d + (n - n') \<and> s' = s + (n - n') \<and> m' = copied m d s (n - n')"
proof (induction n arbitrary: m d s rule: less_induct)
  case (less n)
  show ?case
  proof (cases "4 \<le> n")
    case True
    then have "memcpy_words (copied m d s 4) (d + 4) (s + 4) (n - 4) = (m', d', s', n')"
      using less.prems(2) by (subst (asm) memcpy_words.simps) (simp add: store32_load32)
    from less.IH [OF _ _ this] less.prems(1) True
    have IH: "n' \<le> n - 4" "d' = d + 4 + (n - 4 - n')" "s' = s + 4 + (n - 4 - n')"
      "m' = copied (copied m d s 4) (d + 4) (s + 4) (n - 4 - n')"
      by auto
    moreover have sum: "4 + (n - 4 - n') = n - n'"
      using True IH(1) by linarith
    moreover have "m' = copied m d s (4 + (n - 4 - n'))"
      unfolding IH(4) using less.prems(1) True sum by (intro copied_copied) auto
    ultimately show ?thesis
      using True by auto
  qed (use less.prems in \<open>simp add: memcpy_words.simps\<close>)
qed

lemma memcpy_blocks_copied:
  "d \<le> s \<or> s + n \<le> d \<Longrightarrow> memcpy_blocks m d s n = (m', d', s', n') \<Longrightarrow>
   n' \<le> n \<and> d' = d + (n - n') \<and> s' = s + (n - n') \<and> m' = copied m d s (n - n')"
proof (induction n arbitrary: m d s rule: less_induct)
  case (less n)
  show ?case
  proof (cases "16 \<le> n")
    case True
    have block: "copied (copied (copied (copied m d s 4) (d + 4) (s + 4) 4) (d + 8) (s + 8) 4)
        (d + 12) (s + 12) 4 = copied m d s 16"
      using less.prems(1) True copied_copied [of d s 4 4 m] copied_copied [of d s 8 4 m]
        copied_copied [of d s 12 4 m] by auto
    have "memcpy_blocks (copied m d s 16) (d + 16) (s + 16) (n - 16) = (m', d', s', n')"
      using less.prems(2) True by (subst (asm) memcpy_blocks.simps) (simp add: store32_load32 Let_def block)
    from less.IH [OF _ _ this] less.prems(1) True
    have IH: "n' \<le> n - 16" "d' = d + 16 + (n - 16 - n')" "s' = s + 16 + (n - 16 - n')"
      "m' = copied (copied m d s 16) (d + 16) (s + 16) (n - 16 - n')"
      by auto
    moreover have sum: "16 + (n - 16 - n') = n - n'"
      using True IH(1) by linarith
    moreover have "m' = copied m d s (16 + (n - 16 - n'))"
      unfolding IH(4) using less.prems(1) True sum by (intro copied_copied) auto
    ultimately show ?thesis
      using True by auto
  qed (use less.prems in \<open>simp add: memcpy_blocks.simps\<close>)
qed

lemma memmove_down_copied: "s < d \<Longrightarrow> memmove_down m (d + n) (s + n) n = copied m d s n"
proof (induction n arbitrary: m)
  case (Suc n)
  have "copied (m(d + n := m (s + n))) d s n = copied m d s (Suc n)"
    using Suc.prems by (intro ext) (auto simp: copied_def)
  then show ?case
    using Suc by simp
qed simp

lemma rt_memcpy_copied:
  assumes apart: "d \<le> s \<or> s + n \<le> d"
  shows "rt_memcpy m d s n = copied m d s n"
proof -
  obtain m1 d1 s1 n1 where b: "memcpy_blocks m d s n = (m1, d1, s1, n1)"
    by (metis prod_cases4)
  obtain m2 d2 s2 n2 where w: "memcpy_words m1 d1 s1 n1 = (m2, d2, s2, n2)"
    by (metis prod_cases4)
  note B = memcpy_blocks_copied [OF apart b]
  have W: "n2 \<le> n1 \<and> d2 = d1 + (n1 - n2) \<and> s2 = s1 + (n1 - n2) \<and> m2 = copied m1 d1 s1 (n1 - n2)"
    by (rule memcpy_words_copied [OF _ w]) (use B apart in auto)
  have "n - n1 + (n1 - n2) = n - n2" "d \<le> s \<or> s + (n - n1 + (n1 - n2)) \<le> d"
    using B W apart by auto
  then have m2: "m2 = copied m d s (n - n2)"
    using B W copied_copied [of d s "n - n1" "n1 - n2" m] by simp
  have "memcpy_bytes m2 d2 s2 n2 = copied m2 d2 s2 n2"
    using B W apart by (intro memcpy_bytes_copied) auto
  also have "\<dots> = copied m d s n"
    unfolding m2 using B W apart copied_copied [of d s "n - n2" n2 m] by auto
  finally show ?thesis
    using apart by (simp add: rt_memcpy_def b w memcpy_bytes_copied)
qed

text \<open>\<open>rt_memset\<close>, with its word-at-a-time loops, sets exactly the \<open>count\<close> bytes from \<open>s\<close> to
  the low byte of \<open>c\<close>, whatever the alignment and the length.\<close>

theorem rt_memset_fills:
  "rt_memset m s c count = (\<lambda>a. if s \<le> a \<and> a < s + count then ucast c else m a)"
proof -
  let ?d = "ucast c :: u8"
  have byte: "ucast (c AND 0xff) = ?d"
    by (intro bit_word_eqI) (auto simp: bit_simps numeral_eq_Suc less_Suc_eq)
  obtain m1 a1 n1 where b: "memset_blocks (join4 ?d ?d ?d ?d) m s count = (m1, a1, n1)"
    by (metis prod_cases3)
  obtain m2 a2 n2 where w: "memset_words (join4 ?d ?d ?d ?d) m1 a1 n1 = (m2, a2, n2)"
    by (metis prod_cases3)
  have "memset_bytes ?d m2 a2 n2 = filled m s ?d count"
    using memset_blocks_filled [OF b] memset_words_filled [OF w]
      filled_filled [of m s ?d "count - n1" "n1 - n2"] filled_filled [of m s ?d "count - n2" n2]
    by (auto simp: memset_bytes_filled)
  then have "rt_memset m s c count = filled m s ?d count"
    unfolding rt_memset_def Let_def byte spread_byte by (simp add: b w memset_bytes_filled)
  then show ?thesis
    by (simp add: filled_def)
qed

text \<open>C40: \<open>rt_memmove\<close> moves the bytes as they were before the call, whatever the overlap of
  source and destination; \<open>rt_memcpy\<close>, with its word loops, does the same whenever the
  destination does not start inside the source.\<close>

theorem rt_memmove_rt_memcpy_copy:
  "rt_memmove m dest src n = (\<lambda>a. if dest \<le> a \<and> a < dest + n then m (src + (a - dest)) else m a) \<and>
   (dest \<le> src \<or> src + n \<le> dest \<longrightarrow>
    rt_memcpy m dest src n = (\<lambda>a. if dest \<le> a \<and> a < dest + n then m (src + (a - dest)) else m a))"
proof (intro conjI impI)
  show "rt_memmove m dest src n = (\<lambda>a. if dest \<le> a \<and> a < dest + n then m (src + (a - dest)) else m a)"
    by (simp add: rt_memmove_def memmove_down_copied memcpy_bytes_copied not_less copied_def [symmetric])
next
  assume "dest \<le> src \<or> src + n \<le> dest"
  then show "rt_memcpy m dest src n = (\<lambda>a. if dest \<le> a \<and> a < dest + n then m (src + (a - dest)) else m a)"
    by (simp add: rt_memcpy_copied copied_def [symmetric])
qed

theorem rt_memmove_rt_memcpy_copy_witness:
  "rt_memcpy (\<lambda>a. of_nat a) 0 32 20 = (\<lambda>a. if a < 20 then of_nat (32 + a) else of_nat a) \<and>
   rt_memcpy (\<lambda>a. of_nat a) 0 32 20 17 = 49"
  using rt_memmove_rt_memcpy_copy [of "\<lambda>a. of_nat a" 0 32 20] by (simp only: diff_zero) simp

section \<open>The string routines against their reference\<close>

text \<open>The C string in a list: what stands before the first NUL.\<close>

definition c_str :: "string \<Rightarrow> string" where
  "c_str s = takeWhile (\<lambda>c. c \<noteq> CHR 0x00) s"

lemma of_char_0_iff [simp]: "(of_char c = (0 :: int)) \<longleftrightarrow> c = CHR 0x00"
  using of_char_eq_iff [where 'a = int, of c "CHR 0x00"] by (simp del: of_char_eq_iff)

lemma of_char_range: "0 \<le> (of_char c :: int)" "(of_char c :: int) < 256"
  using of_char_mod_256 [where 'a = int, of c]
    pos_mod_sign [of 256 "of_char c :: int"] pos_mod_bound [of 256 "of_char c :: int"]
  by simp_all

lemma chr_at_range: "0 \<le> chr_at s" "chr_at s < 256"
  by (cases s; simp add: chr_at_def of_char_range)+

lemma c_str_unfold: "c_str s = (if chr_at s = 0 then [] else hd s # c_str (tl s))"
  by (cases s) (auto simp: c_str_def chr_at_def)

lemma chr_at_eq_iff: "chr_at a \<noteq> 0 \<Longrightarrow> chr_at a = chr_at b \<longleftrightarrow> chr_at b \<noteq> 0 \<and> hd a = hd b"
  by (cases a; cases b) (auto simp: chr_at_def)

lemma rt_strlen_c_str: "rt_strlen s = length (c_str s)"
  by (induction s rule: rt_strlen.induct) (subst rt_strlen.simps, subst c_str_unfold, simp)

lemma rt_strnlen_c_str: "rt_strnlen s n = min n (length (c_str s))"
  by (induction s n rule: rt_strnlen.induct) (subst rt_strnlen.simps, subst c_str_unfold, auto)

lemma c_str_0: "chr_at s = 0 \<Longrightarrow> c_str s = []"
  and c_str_Cons: "chr_at s \<noteq> 0 \<Longrightarrow> c_str s = hd s # c_str (tl s)"
  by (subst c_str_unfold, simp)+

lemma rt_strcmp_0: "rt_strcmp a b = 0 \<longleftrightarrow> c_str a = c_str b"
proof (induction a b rule: rt_strcmp.induct)
  case (1 a b)
  show ?case
  proof (cases "chr_at a \<noteq> 0 \<and> chr_at a = chr_at b")
    case True
    then show ?thesis
      using 1 chr_at_eq_iff [of a b] by (simp add: rt_strcmp.simps [of a b] c_str_Cons)
  next
    case False
    then have diff: "rt_strcmp a b = chr_at a - chr_at b"
      by (subst rt_strcmp.simps) (simp only: if_False)
    have "c_str a = c_str b \<longleftrightarrow> chr_at a = chr_at b"
    proof (cases "chr_at a = 0")
      case True
      then show ?thesis
        by (cases "chr_at b = 0") (simp_all add: c_str_0 c_str_Cons [of b])
    next
      case nz: False
      then have "chr_at b = 0 \<or> hd a \<noteq> hd b"
        using False chr_at_eq_iff [OF nz] by blast
      then show ?thesis
        using False nz by (cases "chr_at b = 0") (auto simp: c_str_0 c_str_Cons [OF nz] c_str_Cons [of b])
    qed
    then show ?thesis
      unfolding diff by simp
  qed
qed

lemma to_i8_0: "- 256 < x \<Longrightarrow> x < 256 \<Longrightarrow> to_i8 x = 0 \<longleftrightarrow> x = 0"
proof -
  assume x: "- 256 < x" "x < 256"
  have "to_i8 x = 0 \<longleftrightarrow> (x + 128) mod 256 = (0 + 128) mod 256"
    by (simp add: to_i8_def)
  also have "\<dots> \<longleftrightarrow> 256 dvd x"
    by (simp only: mod_eq_dvd_iff) simp
  also have "\<dots> \<longleftrightarrow> x = 0"
    using x by (auto simp: zdvd_not_zless dvd_def)
  finally show ?thesis .
qed

lemma to_i8_diff_0: "to_i8 (chr_at a - chr_at b) = 0 \<longleftrightarrow> chr_at a = chr_at b"
  using chr_at_range [of a] chr_at_range [of b] by (subst to_i8_0) auto

lemma rt_strncmp_0: "rt_strncmp a b n = 0 \<longleftrightarrow> take n (c_str a) = take n (c_str b)"
proof (induction a b n rule: rt_strncmp.induct)
  case (2 a b n)
  then show ?case
    using chr_at_eq_iff [of a b]
    by (subst (1 2) c_str_unfold) (auto simp: Let_def to_i8_diff_0)
qed simp

lemma rt_strncpy_c_str:
  "rt_strncpy s n = take n (c_str s) @ replicate (n - length (c_str s)) (CHR 0x00)"
  by (induction s n rule: rt_strncpy.induct)
    (auto simp: c_str_def split: list.splits)

lemma find_map_conv: "List.find P (map f xs) = map_option f (List.find (P \<circ> f) xs)"
  by (induction xs) auto

lemma strstr_loop_find:
  assumes "l2 = length t" "0 < l2" "l1 = length s" "take l2 s2 = t"
  shows "strstr_loop (s @ r) s2 l2 l1 pos = 
    map_option (\<lambda>p. pos + p) (List.find (\<lambda>p. take l2 (drop p s) = t) [0..<l1 + 1])"
  using assms
proof (induction l1 arbitrary: s pos)
  case 0
  then show ?case by auto
next
  case (Suc n)
  obtain c s' where s: "s = c # s'" "length s' = n"
    using Suc.prems by (cases s) auto
  have up: "[0..<Suc n + 1] = 0 # map Suc [0..<n + 1]"
    by (simp add: map_Suc_upt upt_conv_Cons del: upt_Suc)
  have short: "take l2 (drop p s) \<noteq> t" if "length s < l2" for p
    using that Suc.prems(1) by (metis length_take length_drop min.cobounded1 diff_le_self leD le_trans nat_less_le min_less_iff_conj)
  have rest: "List.find (\<lambda>p. take l2 (drop p s) = t) [0..<Suc n + 1] =
      (if take l2 s = t then Some 0
       else map_option Suc (List.find (\<lambda>p. take l2 (drop p s') = t) [0..<n + 1]))"
    unfolding up by (simp add: find_map_conv comp_def s(1) del: upt_Suc)
  show ?case
  proof (cases "length s < l2")
    case True
    then have "List.find (\<lambda>p. take l2 (drop p s) = t) [0..<Suc n + 1] = None"
      using short by (auto simp: find_None_iff)
    moreover have "strstr_loop (s @ r) s2 l2 (Suc n) pos = None"
      using True unfolding Suc.prems(3) [symmetric] by simp
    ultimately show ?thesis
      by (simp only: option.map)
  next
    case False
    then have "take l2 (s @ r) = take l2 s"
      by simp
    then have "strstr_loop (s @ r) s2 l2 (Suc n) pos =
        (if take l2 s = t then Some pos else strstr_loop (s' @ r) s2 l2 n (pos + 1))"
      using False Suc.prems(4) s by simp
    then show ?thesis
      unfolding rest using Suc.IH [of s' "pos + 1"] Suc.prems(1,2,4) s(2)
      by (simp add: option.map_comp comp_def del: upt_Suc)
  qed
qed

text \<open>\<open>rt_strcmp\<close> and \<open>rt_strncmp\<close> return 0 exactly for equal strings (equal prefixes of at most
  \<open>count\<close> characters), although \<open>rt_strncmp\<close> keeps the difference in a signed byte; and
  \<open>rt_strstr\<close> returns the offset of the first occurrence, or nothing when there is none.\<close>

theorem string_comparison_correct:
  "(rt_strcmp s1 s2 = 0 \<longleftrightarrow> c_str s1 = c_str s2) \<and>
   (rt_strncmp s1 s2 n = 0 \<longleftrightarrow> take n (c_str s1) = take n (c_str s2)) \<and>
   rt_strstr s1 s2 = List.find (\<lambda>p. take (length (c_str s2)) (drop p (c_str s1)) = c_str s2)
     [0..<length (c_str s1) + 1]"
proof -
  have s1: "s1 = c_str s1 @ drop (length (c_str s1)) s1" and s2: "take (length (c_str s2)) s2 = c_str s2"
    by (metis append_take_drop_id takeWhile_eq_take c_str_def)+
  have "rt_strstr s1 s2 = List.find (\<lambda>p. take (length (c_str s2)) (drop p (c_str s1)) = c_str s2)
     [0..<length (c_str s1) + 1]"
  proof (cases "c_str s2 = []")
    case True
    then show ?thesis
      by (simp add: rt_strstr_def rt_strlen_c_str upt_conv_Cons del: upt_Suc)
  next
    case False
    then show ?thesis
      using strstr_loop_find [of _ "c_str s2" _ "c_str s1" s2 "drop (length (c_str s1)) s1" 0] s2
      by (simp only: rt_strstr_def rt_strlen_c_str s1 [symmetric] Let_def) (simp add: option.map_ident del: upt_Suc)
  qed
  then show ?thesis
    by (simp only: rt_strcmp_0 rt_strncmp_0)
qed

declare rt_strncmp.simps [simp del] strstr_loop.simps [simp del]

end
