(* ===== verification/Kprintf.thy ===== *)
theory Kprintf
  imports Kstring
begin

text \<open>
  \<^verbatim>\<open>rt-thread/src/kservice.c\<close>, the formatted output: \<open>divide\<close>, \<open>skip_atoi\<close>, \<open>print_number\<close>,
  \<open>rt_vsnprintf\<close> and its callers, as the build configures them (\<open>RT_PRINTF_PRECISION\<close> on,
  \<open>RT_PRINTF_SPECIAL\<close> and \<open>RT_PRINTF_LONGLONG\<close> off).  A writer is the buffer, a function from
  offsets to characters, with the offset \<open>str - buf\<close>; every store is guarded by \<open>str < end\<close>.
  Every routine is proved to emit a reference text, so that the buffer holds that text cut to
  its size with a terminator and the return value is the text's full length.
\<close>

section \<open>Writers\<close>

type_synonym writer = "(nat \<Rightarrow> char) \<times> nat"

text \<open>\<open>if (str < end) *str = c; ++str;\<close>\<close>

definition put :: "nat \<Rightarrow> char \<Rightarrow> writer \<Rightarrow> writer" where
  "put lim c w = (if snd w < lim then (fst w)(snd w := c) else fst w, snd w + 1)"

text \<open>The padding loops \<open>while (size-- > 0)\<close>, \<open>while (--field_width > 0)\<close> and
  \<open>while (len < field_width--)\<close>; they return the counter as the loop leaves it.\<close>

function pad_while :: "nat \<Rightarrow> char \<Rightarrow> int \<Rightarrow> writer \<Rightarrow> int \<times> writer" where
  "pad_while lim c sz w = (if sz > 0 then pad_while lim c (sz - 1) (put lim c w) else (sz - 1, w))"
  by pat_completeness auto
termination by (relation "measure (\<lambda>(lim, c, sz, w). nat sz)") auto

function pad_pre :: "nat \<Rightarrow> char \<Rightarrow> int \<Rightarrow> writer \<Rightarrow> int \<times> writer" where
  "pad_pre lim c fw w = (if fw - 1 > 0 then pad_pre lim c (fw - 1) (put lim c w) else (fw - 1, w))"
  by pat_completeness auto
termination by (relation "measure (\<lambda>(lim, c, fw, w). nat fw)") auto

function pad_len :: "nat \<Rightarrow> char \<Rightarrow> int \<Rightarrow> int \<Rightarrow> writer \<Rightarrow> int \<times> writer" where
  "pad_len lim c len fw w = (if len < fw then pad_len lim c len (fw - 1) (put lim c w) else (fw - 1, w))"
  by pat_completeness auto
termination by (relation "measure (\<lambda>(lim, c, len, fw, w). nat (fw - len))") auto

declare pad_while.simps [simp del] pad_pre.simps [simp del] pad_len.simps [simp del]

section \<open>Numbers\<close>

definition ZEROPAD :: u8 where "ZEROPAD = 1"
definition SIGN :: u8 where "SIGN = 2"
definition PLUS :: u8 where "PLUS = 4"
definition SPACE :: u8 where "SPACE = 8"
definition LEFT :: u8 where "LEFT = 16"
definition SPECIAL :: u8 where "SPECIAL = 32"
definition LARGE :: u8 where "LARGE = 64"

lemmas flag_defs = ZEROPAD_def SIGN_def PLUS_def SPACE_def LEFT_def SPECIAL_def LARGE_def

definition is_digit :: "char \<Rightarrow> bool" where
  "is_digit c \<longleftrightarrow> 48 \<le> (of_char c :: nat) \<and> (of_char c :: nat) < 58"

text \<open>\<open>divide\<close> returns the digit and the quotient left in \<open>*n\<close>; any base but 10 divides by 16.\<close>

definition divide :: "u32 \<Rightarrow> nat \<Rightarrow> nat \<times> u32" where
  "divide n base = (if base = 10 then (unat (n mod 10), n div 10) else (unat (n mod 16), n div 16))"

text \<open>A 32-bit \<open>int\<close> after an overflow.  \<open>skip_atoi\<close> adds up the digits; reducing the sum once, at the end, is the same as reducing
  it after every digit.\<close>

definition wrap_int :: "int \<Rightarrow> int" where
  "wrap_int n = (n + 2 ^ 31) mod 2 ^ 32 - 2 ^ 31"

fun skip_atoi_loop :: "int \<Rightarrow> string \<Rightarrow> int \<times> string" where
  "skip_atoi_loop i [] = (i, [])"
| "skip_atoi_loop i (c # s) = (if is_digit c then skip_atoi_loop (i * 10 + of_char c - 48) s else (i, c # s))"

definition skip_atoi :: "string \<Rightarrow> int \<times> string" where
  "skip_atoi s = (let (i, rest) = skip_atoi_loop 0 s in (wrap_int i, rest))"

text \<open>\<open>while (num != 0) tmp[i++] = digits[divide (&num, base)];\<close> fills \<open>tmp\<close>, lowest digit first.\<close>

lemma divide_less: "n \<noteq> 0 \<Longrightarrow> unat (snd (divide n base)) < unat n"
  by (simp add: divide_def unat_div word_neq_0_conv [symmetric] unat_gt_0)

function digit_loop :: "string \<Rightarrow> u32 \<Rightarrow> nat \<Rightarrow> string \<Rightarrow> string" where
  "digit_loop digits num base tmp =
     (if num \<noteq> 0
      then digit_loop digits (snd (divide num base)) base (tmp @ [digits ! fst (divide num base)])
      else tmp)"
  by pat_completeness auto
termination by (relation "measure (\<lambda>(digits, num, base, tmp). unat num)") (auto intro: divide_less)

declare digit_loop.simps [simp del]

text \<open>\<open>while (i-- > 0 && precision_bak != 0)\<close> copies \<open>tmp\<close> out, highest digit first.\<close>

fun put_digits :: "nat \<Rightarrow> string \<Rightarrow> nat \<Rightarrow> int \<Rightarrow> writer \<Rightarrow> writer" where
  "put_digits lim tmp 0 precision_bak w = w"
| "put_digits lim tmp (Suc i) precision_bak w =
     (if precision_bak \<noteq> 0 then put_digits lim tmp i precision_bak (put lim (tmp ! i) w) else w)"

text \<open>The second half of \<open>print_number\<close>: the field with the digits collected in \<open>tmp\<close>.\<close>

definition print_field :: "nat \<Rightarrow> bool \<Rightarrow> bool \<Rightarrow> char option \<Rightarrow> string \<Rightarrow> int \<Rightarrow> int \<Rightarrow> writer \<Rightarrow> writer" where
  "print_field lim left zeropad sign tmp s precision w =
     (let c = (if zeropad then CHR ''0'' else CHR '' '');
          i = int (length tmp);
          prec = (if i > precision then i else precision);
          size1 = s - prec;
          (size2, w1) =
            (if \<not> (zeropad \<or> left)
             then pad_while lim (CHR '' '') (if sign \<noteq> None \<and> size1 > 0 then size1 - 1 else size1) w
             else (size1, w));
          (size3, w2) = (case sign of None \<Rightarrow> (size2, w1) | Some sg \<Rightarrow> (size2 - 1, put lim sg w1));
          (size4, w3) = (if \<not> left then pad_while lim c size3 w2 else (size3, w2));
          (_, w4) = pad_len lim (CHR ''0'') i prec w3;
          w5 = put_digits lim tmp (length tmp) precision w4
      in snd (pad_while lim (CHR '' '') size4 w5))"

definition print_number :: "nat \<Rightarrow> u32 \<Rightarrow> nat \<Rightarrow> int \<Rightarrow> int \<Rightarrow> u8 \<Rightarrow> writer \<Rightarrow> writer" where
  "print_number lim num base s precision ty w =
     (let digits = (if ty AND LARGE \<noteq> 0 then ''0123456789ABCDEF'' else ''0123456789abcdef'');
          ty1 = (if ty AND LEFT \<noteq> 0 then ty AND NOT ZEROPAD else ty);
          (sign, num1) =
            (if ty1 AND SIGN \<noteq> 0
             then if sint num < 0 then (Some (CHR ''-''), - num)
                  else if ty1 AND PLUS \<noteq> 0 then (Some (CHR ''+''), num)
                  else if ty1 AND SPACE \<noteq> 0 then (Some (CHR '' ''), num) else (None, num)
             else (None, num));
          tmp = (if num1 = 0 then ''0'' else digit_loop digits num1 base [])
      in print_field lim (ty1 AND LEFT \<noteq> 0) (ty1 AND ZEROPAD \<noteq> 0) sign tmp s precision w)"

section \<open>Formats\<close>

text \<open>
  The variable arguments: a 32-bit integer or pointer, or a \<open>char *\<close> (\<open>None\<close> for \<open>RT_NULL\<close>).  A
  missing argument or one of the wrong kind is undefined behaviour, the value \<open>None\<close>.
\<close>

datatype va_arg = Int_Arg u32 | Str_Arg "string option"

fun take_int :: "va_arg list \<Rightarrow> (u32 \<times> va_arg list) option" where
  "take_int (Int_Arg n # args) = Some (n, args)"
| "take_int _ = None"

fun take_str :: "va_arg list \<Rightarrow> (string option \<times> va_arg list) option" where
  "take_str (Str_Arg s # args) = Some (s, args)"
| "take_str _ = None"

fun parse_flags :: "u8 \<Rightarrow> string \<Rightarrow> u8 \<times> string" where
  "parse_flags flags [] = (flags, [])"
| "parse_flags flags (c # fmt) =
     (if c = CHR ''-'' then parse_flags (flags OR LEFT) fmt
      else if c = CHR ''+'' then parse_flags (flags OR PLUS) fmt
      else if c = CHR '' '' then parse_flags (flags OR SPACE) fmt
      else if c = CHR ''#'' then parse_flags (flags OR SPECIAL) fmt
      else if c = CHR ''0'' then parse_flags (flags OR ZEROPAD) fmt
      else (flags, c # fmt))"

definition next_is :: "(char \<Rightarrow> bool) \<Rightarrow> string \<Rightarrow> bool" where
  "next_is P fmt \<longleftrightarrow> (case fmt of [] \<Rightarrow> False | c # _ \<Rightarrow> P c)"

definition parse_width :: "u8 \<Rightarrow> string \<Rightarrow> va_arg list \<Rightarrow> (int \<times> u8 \<times> string \<times> va_arg list) option" where
  "parse_width flags fmt args =
     (if next_is is_digit fmt then let (n, fmt') = skip_atoi fmt in Some (n, flags, fmt', args)
      else if next_is (\<lambda>c. c = CHR ''*'') fmt
      then map_option (\<lambda>(n, args').
             if sint n < 0 then (- sint n, flags OR LEFT, tl fmt, args') else (sint n, flags, tl fmt, args'))
             (take_int args)
      else Some (- 1, flags, fmt, args))"

definition parse_precision :: "string \<Rightarrow> va_arg list \<Rightarrow> (int \<times> string \<times> va_arg list) option" where
  "parse_precision fmt args =
     (if next_is (\<lambda>c. c = CHR ''.'') fmt
      then let fmt1 = tl fmt in
           map_option (\<lambda>(p, fmt', args'). (if p < 0 then 0 else p, fmt', args'))
             (if next_is is_digit fmt1 then let (n, fmt') = skip_atoi fmt1 in Some (n, fmt', args)
              else if next_is (\<lambda>c. c = CHR ''*'') fmt1
              then map_option (\<lambda>(n, args'). (sint n, tl fmt1, args')) (take_int args)
              else Some (- 1, fmt1, args))
      else Some (- 1, fmt, args))"

text \<open>What stands between \<open>'%'\<close> and the conversion character.\<close>

record conv_spec =
  cs_flags :: u8
  cs_width :: int
  cs_prec :: int
  cs_qual :: char
  cs_rest :: string
  cs_args :: "va_arg list"

definition parse_spec :: "string \<Rightarrow> va_arg list \<Rightarrow> conv_spec option" where
  "parse_spec fmt args =
     (let (flags, fmt1) = parse_flags 0 fmt in
      Option.bind (parse_width flags fmt1 args) (\<lambda>(fw, flags2, fmt2, args2).
      Option.bind (parse_precision fmt2 args2) (\<lambda>(prec, fmt3, args3).
      let q = next_is (\<lambda>c. c = CHR ''h'' \<or> c = CHR ''l'') fmt3 in
      Some \<lparr>cs_flags = flags2, cs_width = fw, cs_prec = prec,
            cs_qual = (if q then hd fmt3 else CHR 0x00), cs_rest = (if q then tl fmt3 else fmt3),
            cs_args = args3\<rparr>)))"

text \<open>The value an integer conversion prints, after the qualifier's narrowing.\<close>

definition int_value :: "char \<Rightarrow> bool \<Rightarrow> u32 \<Rightarrow> u32" where
  "int_value qualifier sgn_flag n =
     (if qualifier = CHR ''h''
      then if sgn_flag then scast (ucast n :: u16) else ucast (ucast n :: u16)
      else n)"

definition print_char :: "nat \<Rightarrow> u8 \<Rightarrow> int \<Rightarrow> u32 \<Rightarrow> writer \<Rightarrow> writer" where
  "print_char lim flags fw n w =
     (let (fw1, w1) = (if flags AND LEFT = 0 then pad_pre lim (CHR '' '') fw w else (fw, w));
          w2 = put lim (char_of (unat n)) w1
      in snd (pad_pre lim (CHR '' '') fw1 w2))"

fun put_string :: "nat \<Rightarrow> string \<Rightarrow> nat \<Rightarrow> writer \<Rightarrow> writer" where
  "put_string lim s 0 w = w"
| "put_string lim s (Suc len) w = put_string lim (tl s) len (put lim (hd s) w)"

definition print_string :: "nat \<Rightarrow> u8 \<Rightarrow> int \<Rightarrow> int \<Rightarrow> string option \<Rightarrow> writer \<Rightarrow> writer" where
  "print_string lim flags fw precision arg w =
     (let s = (case arg of None \<Rightarrow> ''(NULL)'' | Some s \<Rightarrow> s);
          len0 = int (rt_strlen s);
          len = (if precision > 0 \<and> len0 > precision then precision else len0);
          (fw1, w1) = (if flags AND LEFT = 0 then pad_len lim (CHR '' '') len fw w else (fw, w));
          w2 = put_string lim s (nat len) w1
      in snd (pad_len lim (CHR '' '') len fw1 w2))"

text \<open>The integer conversions set the base and the flags and break out of the \<open>switch\<close>.\<close>

definition int_conversion :: "char \<Rightarrow> u8 \<Rightarrow> (nat \<times> u8) option" where
  "int_conversion c flags =
     (if c = CHR ''o'' then Some (8, flags)
      else if c = CHR ''X'' then Some (16, flags OR LARGE)
      else if c = CHR ''x'' then Some (16, flags)
      else if c = CHR ''d'' \<or> c = CHR ''i'' then Some (10, flags OR SIGN)
      else if c = CHR ''u'' then Some (10, flags)
      else None)"

text \<open>The \<open>switch (*fmt)\<close>; the result is the format and the arguments left, and the writer.\<close>

definition convert :: "nat \<Rightarrow> conv_spec \<Rightarrow> writer \<Rightarrow> (string \<times> va_arg list \<times> writer) option" where
  "convert lim cs w =
     (let flags = cs_flags cs; fw = cs_width cs; prec = cs_prec cs; args = cs_args cs in
      case cs_rest cs of
        [] \<Rightarrow> Some ([], args, put lim (CHR ''%'') w)
      | c # rest \<Rightarrow>
          if c = CHR ''c''
          then map_option (\<lambda>(n, args'). (rest, args', print_char lim flags fw n w)) (take_int args)
          else if c = CHR ''s''
          then map_option (\<lambda>(s, args'). (rest, args', print_string lim flags fw prec s w)) (take_str args)
          else if c = CHR ''p''
          then map_option (\<lambda>(n, args'). (rest, args',
                 if fw = - 1 then print_number lim n 16 8 prec (flags OR ZEROPAD) w
                 else print_number lim n 16 fw prec flags w)) (take_int args)
          else if c = CHR ''%'' then Some (rest, args, put lim (CHR ''%'') w)
          else case int_conversion c flags of
                 Some (base, flags') \<Rightarrow> map_option (\<lambda>(n, args'). (rest, args',
                   print_number lim (int_value (cs_qual cs) (flags' AND SIGN \<noteq> 0) n) base fw prec flags' w))
                   (take_int args)
               | None \<Rightarrow> Some (rest, args, put lim c (put lim (CHR ''%'') w)))"

lemma wrap_int_id: "- (2 ^ 31) \<le> n \<Longrightarrow> n < 2 ^ 31 \<Longrightarrow> wrap_int n = n"
  by (simp add: wrap_int_def)

lemma wrap_int_step: "wrap_int (wrap_int i * 10 + d) = wrap_int (i * 10 + d)"
proof -
  have "wrap_int i = i - 2 ^ 32 * ((i + 2 ^ 31) div 2 ^ 32)"
    using minus_mult_div_eq_mod [of "i + 2 ^ 31" "2 ^ 32"] by (simp add: wrap_int_def)
  then have "wrap_int i * 10 + d + 2 ^ 31 = i * 10 + d + 2 ^ 31 + 2 ^ 32 * (- 10 * ((i + 2 ^ 31) div 2 ^ 32))"
    by (simp add: algebra_simps)
  then show ?thesis
    unfolding wrap_int_def [of "_ * 10 + d"] by (simp only: mod_mult_self2)
qed

text \<open>Parsing never lengthens the format, so the format loop ends.\<close>

lemma length_parse_flags: "parse_flags f fmt = (f', fmt') \<Longrightarrow> length fmt' \<le> length fmt"
  by (induction f fmt rule: parse_flags.induct) (auto split: if_splits)

lemma length_skip_atoi: "skip_atoi_loop i fmt = (n, fmt') \<Longrightarrow> length fmt' \<le> length fmt"
  by (induction i fmt rule: skip_atoi_loop.induct) (auto split: if_splits)

lemma length_parse_width: "parse_width f fmt args = Some (n, f', fmt', args') \<Longrightarrow> length fmt' \<le> length fmt"
  by (auto simp: parse_width_def skip_atoi_def length_skip_atoi split: if_splits prod.splits)

lemma length_parse_precision: "parse_precision fmt args = Some (n, fmt', args') \<Longrightarrow> length fmt' \<le> length fmt"
  using length_skip_atoi
  by (fastforce simp: parse_precision_def skip_atoi_def Let_def split: if_splits prod.splits)

lemma length_parse_spec:
  assumes "parse_spec fmt args = Some cs"
  shows "length (cs_rest cs) \<le> length fmt"
proof -
  obtain f1 fmt1 where 1: "parse_flags 0 fmt = (f1, fmt1)"
    by (metis surj_pair)
  obtain fw f2 fmt2 args2 p fmt3 args3 where
    2: "parse_width f1 fmt1 args = Some (fw, f2, fmt2, args2)" and
    3: "parse_precision fmt2 args2 = Some (p, fmt3, args3)" and
    4: "cs_rest cs = fmt3 \<or> cs_rest cs = tl fmt3"
    using assms 1 by (auto simp: parse_spec_def Let_def bind_eq_Some_conv)
  have "length (cs_rest cs) \<le> length fmt3"
    using 4 by auto
  then show ?thesis
    using length_parse_flags [OF 1] length_parse_width [OF 2] length_parse_precision [OF 3] by linarith
qed

lemma length_convert: "convert lim cs w = Some (rest, args, w') \<Longrightarrow> length rest \<le> length (cs_rest cs)"
  by (auto simp: convert_def Let_def split: list.splits if_splits option.splits)

section \<open>\<open>rt_vsnprintf\<close> and its callers\<close>

function vsn_loop :: "nat \<Rightarrow> string \<Rightarrow> va_arg list \<Rightarrow> writer \<Rightarrow> writer option" where
  "vsn_loop lim [] args w = Some w"
| "vsn_loop lim (c # fmt) args w =
     (if c \<noteq> CHR ''%'' then vsn_loop lim fmt args (put lim c w)
      else case parse_spec fmt args of None \<Rightarrow> None
           | Some cs \<Rightarrow> (case convert lim cs w of None \<Rightarrow> None
                       | Some (rest, args', w') \<Rightarrow> vsn_loop lim rest args' w'))"
  by pat_completeness auto
termination
  by (relation "measure (\<lambda>(lim, fmt, args, w). length fmt)")
    (auto dest!: length_parse_spec length_convert)

declare vsn_loop.simps(2) [simp del]

text \<open>
  \<open>addr\<close> is the numeric value of \<open>buf\<close>: when \<open>buf + size\<close> wraps, the limit becomes the last
  address.  The results are the buffer and \<open>str - buf\<close>.
\<close>

definition rt_vsnprintf ::
  "nat \<Rightarrow> (nat \<Rightarrow> char) \<Rightarrow> nat \<Rightarrow> string \<Rightarrow> va_arg list \<Rightarrow> ((nat \<Rightarrow> char) \<times> nat) option" where
  "rt_vsnprintf addr buf sz fmt args =
     (let lim = (if addr + sz \<ge> 2 ^ 32 then 2 ^ 32 - 1 - addr else sz) in
      map_option (\<lambda>(b, p).
        (if lim > 0 then if p < lim then b(p := CHR 0x00) else b(lim - 1 := CHR 0x00) else b, p))
        (vsn_loop lim fmt args (buf, 0)))"

definition rt_snprintf ::
  "nat \<Rightarrow> (nat \<Rightarrow> char) \<Rightarrow> nat \<Rightarrow> string \<Rightarrow> va_arg list \<Rightarrow> ((nat \<Rightarrow> char) \<times> nat) option" where
  "rt_snprintf addr buf sz fmt args = rt_vsnprintf addr buf sz fmt args"

definition rt_vsprintf ::
  "nat \<Rightarrow> (nat \<Rightarrow> char) \<Rightarrow> string \<Rightarrow> va_arg list \<Rightarrow> ((nat \<Rightarrow> char) \<times> nat) option" where
  "rt_vsprintf addr buf format args = rt_vsnprintf addr buf (2 ^ 32 - 1) format args"

definition rt_sprintf ::
  "nat \<Rightarrow> (nat \<Rightarrow> char) \<Rightarrow> string \<Rightarrow> va_arg list \<Rightarrow> ((nat \<Rightarrow> char) \<times> nat) option" where
  "rt_sprintf addr buf format args = rt_vsprintf addr buf format args"

text \<open>
  The console: without a device the buffer goes to \<open>rt_hw_console_output\<close> as a C string, with
  one \<open>length\<close> bytes of it go to \<open>rt_device_write\<close>.  The output is the bytes handed over.
\<close>

definition console_write :: "bool \<Rightarrow> (nat \<Rightarrow> char) \<Rightarrow> nat \<Rightarrow> string" where
  "console_write has_device b len =
     (if has_device then map b [0..<len] else takeWhile (\<lambda>c. c \<noteq> CHR 0x00) (map b [0..<256]))"

definition rt_kputs :: "bool \<Rightarrow> string option \<Rightarrow> string" where
  "rt_kputs has_device str = (case str of None \<Rightarrow> [] | Some s \<Rightarrow> take (rt_strlen s) s)"

definition rt_kprintf ::
  "nat \<Rightarrow> bool \<Rightarrow> (nat \<Rightarrow> char) \<Rightarrow> string \<Rightarrow> va_arg list \<Rightarrow> ((nat \<Rightarrow> char) \<times> string) option" where
  "rt_kprintf addr has_device rt_log_buf fmt args =
     map_option (\<lambda>(b, n). let len = (if n > 256 - 1 then 256 - 1 else n) in (b, console_write has_device b len))
       (rt_vsnprintf addr rt_log_buf (256 - 1) fmt args)"

section \<open>Every routine emits a reference text\<close>

definition emit :: "nat \<Rightarrow> string \<Rightarrow> writer \<Rightarrow> writer" where
  "emit lim t w = fold (put lim) t w"

named_theorems emits \<open>each output routine as one emission of its text\<close>

lemma emit_Nil [simp]: "emit lim [] w = w"
  by (simp add: emit_def)

lemma put_emit [emits]: "put lim c w = emit lim [c] w"
  by (simp add: emit_def)

lemma emit_emit [simp]: "emit lim t (emit lim u w) = emit lim (u @ t) w"
  by (simp add: emit_def)

lemma pad_while_emit [emits]:
  "pad_while lim c n w = (min n 0 - 1, emit lim (replicate (nat n) c) w)"
proof (induction lim c n w rule: pad_while.induct)
  case (1 lim c n w)
  show ?case
  proof (cases "n > 0")
    case True
    then have "replicate (nat n) c = c # replicate (nat (n - 1)) c"
      by (cases "nat n") (auto simp: nat_diff_distrib)
    then show ?thesis
      using 1 [OF True] True by (subst pad_while.simps) (simp add: put_emit)
  qed (subst pad_while.simps, simp)
qed

lemma pad_pre_emit [emits]:
  "pad_pre lim c n w = (min n 1 - 1, emit lim (replicate (nat (n - 1)) c) w)"
proof (induction lim c n w rule: pad_pre.induct)
  case (1 lim c n w)
  show ?case
  proof (cases "n - 1 > 0")
    case True
    then have "replicate (nat (n - 1)) c = c # replicate (nat (n - 1 - 1)) c"
      by (cases "nat (n - 1)") (auto simp: nat_diff_distrib)
    then show ?thesis
      using 1 [OF True] True by (subst pad_pre.simps) (simp add: put_emit)
  qed (subst pad_pre.simps, simp)
qed

lemma pad_len_emit [emits]:
  "pad_len lim c len n w = (min n len - 1, emit lim (replicate (nat (n - len)) c) w)"
proof (induction lim c len n w rule: pad_len.induct)
  case (1 lim c len n w)
  show ?case
  proof (cases "len < n")
    case True
    then have "replicate (nat (n - len)) c = c # replicate (nat (n - 1 - len)) c"
      by (cases "nat (n - len)") (auto simp: nat_diff_distrib algebra_simps)
    then show ?thesis
      using 1 [OF True] True by (subst pad_len.simps) (simp add: put_emit)
  qed (subst pad_len.simps, simp)
qed

lemma put_digits_emit [emits]:
  "i \<le> length tmp \<Longrightarrow>
   put_digits lim tmp i prec w = emit lim (if prec = 0 then [] else rev (take i tmp)) w"
  by (induction lim tmp i prec w rule: put_digits.induct) (auto simp: put_emit take_Suc_conv_app_nth)

lemma put_string_emit [emits]:
  "n \<le> length s \<Longrightarrow> put_string lim s n w = emit lim (take n s) w"
proof (induction lim s n w rule: put_string.induct)
  case (2 lim s n w)
  then show ?case by (cases s) (auto simp: put_emit)
qed simp

text \<open>
  The text of a number: sign, zeros up to the precision, digits, and the field filled with
  spaces on the right (\<open>LEFT\<close>), zeros after the sign (\<open>ZEROPAD\<close>) or spaces on the left.
\<close>

definition number_digits :: "bool \<Rightarrow> nat \<Rightarrow> u32 \<Rightarrow> string" where
  "number_digits large base n =
     (if n = 0 then ''0''
      else rev (digit_loop (if large then ''0123456789ABCDEF'' else ''0123456789abcdef'') n base []))"

definition number_sign :: "u8 \<Rightarrow> u32 \<Rightarrow> string" where
  "number_sign flags n =
     (if flags AND SIGN = 0 then []
      else if sint n < 0 then ''-''
      else if flags AND PLUS \<noteq> 0 then ''+'' else if flags AND SPACE \<noteq> 0 then '' '' else [])"

definition field_text :: "bool \<Rightarrow> bool \<Rightarrow> string \<Rightarrow> string \<Rightarrow> int \<Rightarrow> int \<Rightarrow> string" where
  "field_text left zeropad sg ds width prec =
     (let n = max (int (length ds)) prec;
          body = replicate (nat (n - int (length ds))) (CHR ''0'') @ (if prec = 0 then [] else ds);
          room = nat (width - n - int (length sg))
      in if left then sg @ body @ replicate room (CHR '' '')
         else if zeropad then sg @ replicate room (CHR ''0'') @ body
         else replicate room (CHR '' '') @ sg @ body)"

definition number_text :: "u32 \<Rightarrow> nat \<Rightarrow> int \<Rightarrow> int \<Rightarrow> u8 \<Rightarrow> string" where
  "number_text num base width prec flags =
     field_text (flags AND LEFT \<noteq> 0) (flags AND ZEROPAD \<noteq> 0) (number_sign flags num)
       (number_digits (flags AND LARGE \<noteq> 0) base (if flags AND SIGN \<noteq> 0 \<and> sint num < 0 then - num else num))
       width prec"

lemma digit_loop_acc: "digit_loop ds n base acc = acc @ digit_loop ds n base []"
proof (induction "unat n" arbitrary: n acc rule: less_induct)
  case less
  show ?case
  proof (cases "n = 0")
    case False
    let ?d = "ds ! fst (divide n base)" and ?n = "snd (divide n base)"
    have "digit_loop ds n base acc = digit_loop ds ?n base (acc @ [?d])"
      using False by (subst digit_loop.simps) simp
    also have "\<dots> = acc @ [?d] @ digit_loop ds ?n base []"
      using less.hyps [OF divide_less [OF False], where acc = "acc @ [?d]"] by simp
    also have "[?d] @ digit_loop ds ?n base [] = digit_loop ds ?n base [?d]"
      using less.hyps [OF divide_less [OF False], where acc = "[?d]"] by simp
    also have "\<dots> = digit_loop ds n base []"
      using False by (subst (2) digit_loop.simps) simp
    finally show ?thesis .
  qed (subst (1 2) digit_loop.simps, simp)
qed

lemma flag_clear:
  "(ty AND NOT ZEROPAD) AND ZEROPAD = 0"
  "(ty AND NOT ZEROPAD) AND LEFT = ty AND LEFT"
  "(ty AND NOT ZEROPAD) AND SIGN = ty AND SIGN"
  "(ty AND NOT ZEROPAD) AND PLUS = ty AND PLUS"
  "(ty AND NOT ZEROPAD) AND SPACE = ty AND SPACE"
  by (simp_all add: flag_defs and.assoc)

lemma print_field_emit [emits]:
  "print_field lim left zeropad sign tmp s prec w =
   emit lim (field_text left zeropad (case sign of None \<Rightarrow> [] | Some sg \<Rightarrow> [sg]) (rev tmp) s prec) w"
proof -
  define M where "M = max (int (length tmp)) prec"
  have max: "(if int (length tmp) > prec then int (length tmp) else prec) = M"
    by (simp add: M_def)
  show ?thesis
    unfolding print_field_def field_text_def Let_def max length_rev M_def [symmetric]
    by (cases left; cases zeropad; cases sign; cases "s > M") (simp_all add: emits algebra_simps)
qed

lemma print_number_emit [emits]:
  "print_number lim num base s prec ty w = emit lim (number_text num base s prec ty) w"
proof -
  define ty1 where "ty1 = (if ty AND LEFT \<noteq> 0 then ty AND NOT ZEROPAD else ty)"
  define sign where "sign = (if ty AND SIGN \<noteq> 0
             then if sint num < 0 then Some (CHR ''-'')
                  else if ty AND PLUS \<noteq> 0 then Some (CHR ''+'')
                  else if ty AND SPACE \<noteq> 0 then Some (CHR '' '') else None
             else None)"
  define num1 where "num1 = (if ty AND SIGN \<noteq> 0 \<and> sint num < 0 then - num else num)"
  have ty1: "ty1 AND SIGN = ty AND SIGN" "ty1 AND PLUS = ty AND PLUS" "ty1 AND SPACE = ty AND SPACE"
    "ty1 AND LEFT = ty AND LEFT"
    by (simp_all add: ty1_def flag_clear)
  have zero: "ty AND LEFT \<noteq> 0 \<Longrightarrow> ty1 AND ZEROPAD = 0" "ty AND LEFT = 0 \<Longrightarrow> ty1 = ty"
    by (simp_all add: ty1_def flag_clear)
  have pair: "(if ty AND SIGN \<noteq> 0
             then if sint num < 0 then (Some (CHR ''-''), - num)
                  else if ty AND PLUS \<noteq> 0 then (Some (CHR ''+''), num)
                  else if ty AND SPACE \<noteq> 0 then (Some (CHR '' ''), num) else (None, num)
             else (None, num)) = (sign, num1)"
    by (simp add: sign_def num1_def)
  have sg: "number_sign ty num = (case sign of None \<Rightarrow> [] | Some sg \<Rightarrow> [sg])"
    by (simp add: number_sign_def sign_def)
  have tmp: "(if num1 = 0 then ''0'' else digit_loop (if ty AND LARGE \<noteq> 0 then ''0123456789ABCDEF''
      else ''0123456789abcdef'') num1 base []) = rev (number_digits (ty AND LARGE \<noteq> 0) base num1)"
    by (simp add: number_digits_def)
  have left: "field_text True True sg ds s prec = field_text True False sg ds s prec" for sg ds
    by (simp add: field_text_def)
  have "print_number lim num base s prec ty w =
      print_field lim (ty AND LEFT \<noteq> 0) (ty1 AND ZEROPAD \<noteq> 0) sign
        (rev (number_digits (ty AND LARGE \<noteq> 0) base num1)) s prec w"
    unfolding print_number_def Let_def ty1_def [symmetric] ty1 pair prod.case tmp ..
  then show ?thesis
    using left zero
    by (cases "ty AND LEFT = 0"; cases "ty AND ZEROPAD = 0") (simp_all add: number_text_def print_field_emit sg num1_def)
qed

lemma digit_loop_0 [simp]: "digit_loop ds 0 base acc = acc"
  by (subst digit_loop.simps) simp

text \<open>The texts of a character and of a string.\<close>

definition char_text :: "u8 \<Rightarrow> int \<Rightarrow> u32 \<Rightarrow> string" where
  "char_text flags width n =
     (let pad = replicate (nat (width - 1)) (CHR '' '')
      in if flags AND LEFT \<noteq> 0 then char_of (unat n) # pad else pad @ [char_of (unat n)])"

definition string_text :: "u8 \<Rightarrow> int \<Rightarrow> int \<Rightarrow> string option \<Rightarrow> string" where
  "string_text flags width prec arg =
     (let s = c_str (case arg of None \<Rightarrow> ''(NULL)'' | Some s \<Rightarrow> s);
          t = (if prec > 0 then take (nat prec) s else s);
          pad = replicate (nat (width - int (length t))) (CHR '' '')
      in if flags AND LEFT \<noteq> 0 then t @ pad else pad @ t)"

lemma print_char_emit [emits]: "print_char lim flags fw n w = emit lim (char_text flags fw n) w"
  by (simp add: print_char_def char_text_def emits Let_def)

lemma print_string_emit [emits]:
  "print_string lim flags fw prec arg w = emit lim (string_text flags fw prec arg) w"
proof -
  define s where "s = (case arg of None \<Rightarrow> ''(NULL)'' | Some s \<Rightarrow> s)"
  define t where "t = (if prec > 0 then take (nat prec) (c_str s) else c_str s)"
  have le: "length t \<le> length s"
    using length_takeWhile_le [of "\<lambda>c. c \<noteq> CHR 0x00" s] by (auto simp: t_def c_str_def min_def)
  have "c_str s = take (length (c_str s)) s"
    by (metis takeWhile_eq_take c_str_def)
  then obtain m where "t = take m s"
    unfolding t_def by (metis take_take)
  then have take: "take (length t) s = t"
    by (cases "m \<le> length s") simp_all
  have len: "(if prec > 0 \<and> int (rt_strlen s) > prec then prec else int (rt_strlen s)) = int (length t)"
    by (auto simp: t_def rt_strlen_c_str)
  have "print_string lim flags fw prec arg w =
      (let (fw1, w1) = (if flags AND LEFT = 0 then pad_len lim (CHR '' '') (int (length t)) fw w else (fw, w))
       in snd (pad_len lim (CHR '' '') (int (length t)) fw1 (put_string lim s (length t) w1)))"
    unfolding print_string_def Let_def s_def [symmetric] len nat_int ..
  then show ?thesis
    by (cases "flags AND LEFT = 0") (simp_all add: string_text_def Let_def s_def [symmetric] t_def [symmetric] emits le take)
qed

text \<open>The reference for a whole format: the same parse, with texts instead of stores.\<close>

definition convert_text :: "conv_spec \<Rightarrow> (string \<times> va_arg list \<times> string) option" where
  "convert_text cs =
     (let flags = cs_flags cs; fw = cs_width cs; prec = cs_prec cs; args = cs_args cs in
      case cs_rest cs of
        [] \<Rightarrow> Some ([], args, ''%'')
      | c # rest \<Rightarrow>
          if c = CHR ''c''
          then map_option (\<lambda>(n, args'). (rest, args', char_text flags fw n)) (take_int args)
          else if c = CHR ''s''
          then map_option (\<lambda>(s, args'). (rest, args', string_text flags fw prec s)) (take_str args)
          else if c = CHR ''p''
          then map_option (\<lambda>(n, args'). (rest, args',
                 if fw = - 1 then number_text n 16 8 prec (flags OR ZEROPAD)
                 else number_text n 16 fw prec flags)) (take_int args)
          else if c = CHR ''%'' then Some (rest, args, ''%'')
          else case int_conversion c flags of
                 Some (base, flags') \<Rightarrow> map_option (\<lambda>(n, args'). (rest, args',
                   number_text (int_value (cs_qual cs) (flags' AND SIGN \<noteq> 0) n) base fw prec flags'))
                   (take_int args)
               | None \<Rightarrow> Some (rest, args, [CHR ''%'', c]))"

lemma convert_emit:
  "convert lim cs w = map_option (\<lambda>(rest, args, t). (rest, args, emit lim t w)) (convert_text cs)"
proof (cases "cs_rest cs")
  case Nil
  then show ?thesis by (simp add: convert_def convert_text_def put_emit)
next
  case (Cons c rest)
  show ?thesis
    unfolding convert_def convert_text_def Let_def Cons list.case
    by (cases "take_int (cs_args cs)"; cases "take_str (cs_args cs)"; cases "int_conversion c (cs_flags cs)")
      (simp_all add: emits split_beta)
qed

lemma length_convert_text: "convert_text cs = Some (rest, args, t) \<Longrightarrow> length rest \<le> length (cs_rest cs)"
  using length_convert [of 0 cs "(\<lambda>_. CHR 0x00, 0)" rest args] by (simp add: convert_emit)

function format_text :: "string \<Rightarrow> va_arg list \<Rightarrow> string option" where
  "format_text [] args = Some []"
| "format_text (c # fmt) args =
     (if c \<noteq> CHR ''%'' then map_option ((#) c) (format_text fmt args)
      else case parse_spec fmt args of None \<Rightarrow> None
           | Some cs \<Rightarrow> (case convert_text cs of None \<Rightarrow> None
                       | Some (rest, args', t) \<Rightarrow> map_option ((@) t) (format_text rest args')))"
  by pat_completeness auto
termination
  by (relation "measure (\<lambda>(fmt, args). length fmt)") (auto dest!: length_parse_spec length_convert_text)

declare format_text.simps(2) [simp del]

lemma vsn_loop_emit: "vsn_loop lim fmt args w = map_option (\<lambda>t. emit lim t w) (format_text fmt args)"
proof (induction lim fmt args w rule: vsn_loop.induct)
  case (2 lim c fmt args w)
  show ?case
  proof (cases "c = CHR ''%''")
    case False
    then show ?thesis
      using 2(1) by (simp add: vsn_loop.simps(2) format_text.simps(2) option.map_comp comp_def put_emit)
  next
    case True
    show ?thesis
    proof (cases "parse_spec fmt args")
      case None
      then show ?thesis using True by (simp add: vsn_loop.simps(2) format_text.simps(2))
    next
      case cs: (Some cs)
      show ?thesis
      proof (cases "convert_text cs")
        case None
        then show ?thesis
          using True cs by (simp add: vsn_loop.simps(2) format_text.simps(2) convert_emit)
      next
        case (Some r)
        obtain rest args' t where r: "r = (rest, args', t)"
          by (cases r)
        have "vsn_loop lim rest args' (emit lim t w) =
            map_option (\<lambda>u. emit lim u (emit lim t w)) (format_text rest args')"
          using 2(2) [of cs "(rest, args', emit lim t w)" rest "(args', emit lim t w)" args' "emit lim t w"]
            True cs Some r by (simp add: convert_emit)
        then show ?thesis
          using True cs Some r
          by (simp add: vsn_loop.simps(2) format_text.simps(2) convert_emit option.map_comp comp_def)
      qed
    qed
  qed
qed simp

section \<open>What the buffer holds\<close>

lemma emit_state: "emit lim t (m, p) = (\<lambda>i. if p \<le> i \<and> i < p + length t \<and> i < lim then t ! (i - p) else m i, p + length t)"
proof (induction t arbitrary: m p)
  case Nil
  show ?case by (auto simp: fun_eq_iff)
next
  case (Cons c t)
  have "emit lim (c # t) (m, p) = emit lim t (put lim c (m, p))"
    by (simp add: emit_def)
  also have "\<dots> = emit lim t (if p < lim then m(p := c) else m, p + 1)"
    by (simp add: put_def)
  finally show ?case
    unfolding Cons.IH by (auto simp: fun_eq_iff nth_Cons')
qed

text \<open>A text cut to a buffer of \<open>sz\<close> bytes, the terminator included.\<close>

definition cut_text :: "nat \<Rightarrow> string \<Rightarrow> (nat \<Rightarrow> char) \<Rightarrow> nat \<Rightarrow> char" where
  "cut_text sz t m = (\<lambda>i. if i < min (length t) (sz - 1) then t ! i
     else if i = min (length t) (sz - 1) \<and> 0 < sz then CHR 0x00 else m i)"

lemma rt_vsnprintf_text:
  assumes "addr + sz < 2 ^ 32"
  shows "rt_vsnprintf addr buf sz fmt args = map_option (\<lambda>t. (cut_text sz t buf, length t)) (format_text fmt args)"
proof -
  have "(case emit sz t (buf, 0) of (b, p) \<Rightarrow>
      (if sz > 0 then if p < sz then b(p := CHR 0x00) else b(sz - 1 := CHR 0x00) else b, p)) =
      (cut_text sz t buf, length t)" for t
    unfolding emit_state prod.case by (auto simp: fun_eq_iff cut_text_def)
  then show ?thesis
    using assms by (simp add: rt_vsnprintf_def Let_def vsn_loop_emit option.map_comp comp_def)
qed



text \<open>A console line of at most 254 characters is written to the console device exactly as
  formatted; a longer one is cut to its first 254 characters and one NUL byte is written after
  them, because \<open>rt_kprintf\<close> gives \<open>rt_vsnprintf\<close> one byte less than it then hands to the device.\<close>

theorem rt_kprintf_output:
  assumes "addr + 255 < 2 ^ 32" and "format_text fmt args = Some t"
  shows "\<exists>b. rt_kprintf addr True log_buf fmt args =
           Some (b, if length t \<le> 254 then t else take 254 t @ [CHR 0x00])"
proof -
  have short: "map (cut_text 255 t log_buf) [0..<length t] = t" if "length t \<le> 254"
    using that by (intro nth_equalityI) (auto simp: cut_text_def)
  have long: "map (cut_text 255 t log_buf) [0..<if length t > 255 then 255 else length t] = take 254 t @ [CHR 0x00]"
    if "\<not> length t \<le> 254"
  proof -
    have "(if length t > 255 then 255 else length t) = 255"
      using that by simp
    then show ?thesis
      using that by (intro nth_equalityI) (auto simp: cut_text_def nth_append min_def not_less)
  qed
  show ?thesis
    using assms short long
    by (cases "length t \<le> 254"; cases "255 < length t")
      (simp_all add: rt_kprintf_def rt_vsnprintf_text console_write_def Let_def del: upt_Suc upt_rec_numeral)
qed

theorem rt_kprintf_output_witness:
  "\<exists>b. rt_kprintf 0x20000000 True (\<lambda>_. CHR 0x00) ''ok'' [] = Some (b, ''ok'')"
  using rt_kprintf_output [where addr = "0x20000000" and fmt = "''ok''" and args = "[]" and t = "''ok''" and log_buf = "\<lambda>_. CHR 0x00"]
  by (simp add: format_text.simps(2))

section \<open>Numbers read back\<close>

lemma digit_char:
  assumes "k < 10"
  shows "is_digit (''0123456789abcdef'' ! k)" "(of_char (''0123456789abcdef'' ! k) :: int) = 48 + int k"
proof -
  have "\<forall>k \<in> set [0..<10]. is_digit (''0123456789abcdef'' ! k) \<and> (of_char (''0123456789abcdef'' ! k) :: int) = 48 + int k"
    by (simp add: upt_rec is_digit_def)
  then show "is_digit (''0123456789abcdef'' ! k)" "(of_char (''0123456789abcdef'' ! k) :: int) = 48 + int k"
    using assms by auto
qed

lemma digit_loop_step:
  "n \<noteq> 0 \<Longrightarrow> digit_loop ds n base [] = ds ! fst (divide n base) # digit_loop ds (snd (divide n base)) base []"
  using digit_loop_acc [of ds "snd (divide n base)" base "[ds ! fst (divide n base)]"]
  by (subst digit_loop.simps) simp

lemma skip_atoi_digits:
  "skip_atoi_loop 0 (rev (digit_loop ''0123456789abcdef'' n 10 []) @ rest) = skip_atoi_loop (int (unat n)) rest"
proof (induction "unat n" arbitrary: n rest rule: less_induct)
  case less
  show ?case
  proof (cases "n = 0")
    case False
    let ?d = "unat (n mod 10)"
    have d: "?d < 10" and sum: "10 * uint (n div 10) + uint (n mod 10) = uint n"
      by (simp_all add: unat_mod uint_div uint_mod)
    have "unat (snd (divide n 10)) < unat n"
      by (rule divide_less [OF False])
    from less.hyps [OF this] show ?thesis
      using False digit_char [OF d] sum
      by (simp add: digit_loop_step) (simp add: divide_def algebra_simps)
  qed simp
qed

lemma length_digit_loop: "unat n < 10 ^ k \<Longrightarrow> length (digit_loop ds n 10 []) \<le> k"
proof (induction k arbitrary: n)
  case 0
  then have "n = 0"
    by (simp add: unat_eq_zero)
  then show ?case by simp
next
  case (Suc k)
  show ?case
  proof (cases "n = 0")
    case False
    have "unat (n div 10) < 10 ^ k"
      using Suc.prems by (simp add: unat_div less_mult_imp_div_less mult.commute)
    then show ?thesis
      using False Suc.IH by (simp add: digit_loop_step) (simp add: divide_def)
  qed simp
qed

lemma decimal_text:
  "skip_atoi_loop 0 (number_digits False 10 n) = (int (unat n), [])" "length (number_digits False 10 n) \<le> 10"
proof -
  show "skip_atoi_loop 0 (number_digits False 10 n) = (int (unat n), [])"
    using skip_atoi_digits [of n "[]"] by (simp add: number_digits_def is_digit_def)
  show "length (number_digits False 10 n) \<le> 10"
    using length_digit_loop [of n 10] unat_u32_less [of n] by (simp add: number_digits_def)
qed

lemma unat_uminus_neg: "sint (n :: u32) < 0 \<Longrightarrow> int (unat (- n)) = - sint n"
  and unat_nonneg: "\<not> sint (n :: u32) < 0 \<Longrightarrow> int (unat n) = sint n"
proof -
  have n: "uint n < 2 ^ 32" "0 \<le> uint n"
    using uint_lt2p [of n] by simp_all
  have s: "sint n = uint n - (if bit n 31 then 2 ^ 32 else 0)"
    using n by (simp add: sint_uint signed_take_bit_eq_take_bit_minus take_bit_int_eq_self bit_uint_iff)
  have neg: "uint (- n) = (- uint n) mod 2 ^ 32"
    by (simp add: uint_word_ariths)
  show "sint n < 0 \<Longrightarrow> int (unat (- n)) = - sint n"
    using s neg n by (auto simp: zmod_zminus1_eq_if unsigned_eq_0_iff split: if_splits)
  show "\<not> sint n < 0 \<Longrightarrow> int (unat n) = sint n"
    using s n by (auto split: if_splits)
qed

text \<open>What \<open>print_number\<close> emits for \<open>%d\<close> reads back, by the loop of the formatter's own \<open>skip_atoi\<close>, as
  the argument: the digits of the value after a minus sign when it is negative, with no other
  character, for all \<open>2 ^ 32\<close> arguments; at most ten digits are collected, which \<open>tmp[16]\<close> holds.\<close>

theorem decimal_reads_back:
  "\<exists>t. print_number lim n 10 (- 1) (- 1) SIGN w = emit lim t w \<and>
     (if sint n < 0
      then \<exists>u. t = CHR ''-'' # u \<and> length u \<le> 10 \<and> skip_atoi_loop 0 u = (- sint n, [])
      else length t \<le> 10 \<and> skip_atoi_loop 0 t = (sint n, []))"
proof -
  let ?ds = "number_digits False 10 (if sint n < 0 then - n else n)"
  have sign: "number_sign SIGN n = (if sint n < 0 then ''-'' else [])"
    by (simp add: number_sign_def flag_defs)
  have "number_text n 10 (- 1) (- 1) SIGN = (if sint n < 0 then ''-'' else []) @ ?ds"
    by (simp add: number_text_def field_text_def Let_def sign) (simp add: flag_defs)
  then show ?thesis
    unfolding print_number_emit
    using decimal_text unat_uminus_neg [of n] unat_nonneg [of n] by (cases "sint n < 0") auto
qed

text \<open>Two conversions that do not print what the C library prints.\<close>

lemma octal_prints_hex: "number_text 8 8 (- 1) (- 1) 0 = ''8''"
  by (simp add: number_text_def field_text_def Let_def number_sign_def number_digits_def flag_defs
      digit_loop.simps divide_def)

lemma precision_zero_drops_digits: "number_text 5 10 (- 1) 0 0 = []"
  by (simp add: number_text_def field_text_def Let_def number_sign_def number_digits_def flag_defs
      digit_loop.simps divide_def)

end
