(* ===== verification/Time_Text.thy ===== *)
theory Time_Text
  imports Kprintf
begin

text \<open>
  The formatted texts the applications print: what the conversions they use produce, that the
  texts contain only printable characters, and that the numbers in them read back.  Shared by
  the display and the command line.
\<close>

section \<open>Buffers of formatted text\<close>

text \<open>
  \<open>char buf[sz]; rt_snprintf (buf, sz, fmt, ...)\<close>: the C string the buffer then holds.  The
  buffer is a local array, so its bytes beyond the terminator do not matter.
\<close>

definition snprintf_str :: "nat \<Rightarrow> string \<Rightarrow> va_arg list \<Rightarrow> string option" where
  "snprintf_str sz fmt args =
     map_option (\<lambda>(b, n). c_str (map b [0..<sz])) (rt_snprintf 0x20000000 (\<lambda>_. CHR 0x00) sz fmt args)"

lemma c_str_id: "CHR 0x00 \<notin> set t \<Longrightarrow> c_str t = t"
  by (auto simp: c_str_def takeWhile_eq_all_conv)

lemma c_str_stop: "CHR 0x00 \<notin> set t \<Longrightarrow> c_str (t @ CHR 0x00 # u) = t"
  unfolding c_str_def by (subst takeWhile_append2) auto

lemma snprintf_str_text:
  assumes "format_text fmt args = Some t" "CHR 0x00 \<notin> set t" "0 < sz" "sz < 1000"
  shows "snprintf_str sz fmt args = Some (take (sz - 1) t)"
proof -
  let ?m = "min (length t) (sz - 1)" and ?b = "cut_text sz t (\<lambda>_. CHR 0x00)"
  have m: "?m < sz"
    using assms(3) by linarith
  have "map ?b [0..<sz] = map ?b [0..<?m] @ map ?b [?m..<sz]"
    using m upt_add_eq_append [of 0 ?m "sz - ?m"] by (simp flip: map_append)
  also have "map ?b [0..<?m] = take (sz - 1) t"
    by (intro nth_equalityI) (auto simp: cut_text_def)
  also have "map ?b [?m..<sz] = CHR 0x00 # map ?b [Suc ?m..<sz]"
  proof -
    have "?b ?m = CHR 0x00"
      using assms(3) by (auto simp: cut_text_def)
    then show ?thesis
      using m by (simp add: upt_conv_Cons)
  qed
  finally have "c_str (map ?b [0..<sz]) = take (sz - 1) t"
    using assms(2) by (metis c_str_stop in_set_takeD)
  then show ?thesis
    using assms(1,4) by (simp add: snprintf_str_def rt_snprintf_def rt_vsnprintf_text)
qed

section \<open>Conversions\<close>

definition dec :: "u32 \<Rightarrow> string" where
  "dec n = number_digits False 10 n"

definition dec_pad :: "nat \<Rightarrow> u32 \<Rightarrow> string" where
  "dec_pad w n = replicate (w - length (dec n)) (CHR ''0'') @ dec n"

lemma format_plain:
  "c \<noteq> CHR ''%'' \<Longrightarrow> format_text (c # fmt) args = map_option ((#) c) (format_text fmt args)"
  by (simp add: format_text.simps(2))

lemma format_u:
  "format_text (CHR ''%'' # CHR ''u'' # fmt) (Int_Arg n # args) = map_option ((@) (dec n)) (format_text fmt args)"
proof -
  have spec: "parse_spec (CHR ''u'' # fmt) (Int_Arg n # args) = Some \<lparr>cs_flags = 0, cs_width = - 1, cs_prec = - 1,
      cs_qual = CHR 0x00, cs_rest = CHR ''u'' # fmt, cs_args = Int_Arg n # args\<rparr>"
    by (simp add: parse_spec_def parse_width_def parse_precision_def next_is_def is_digit_def)
  have "number_text n 10 (- 1) (- 1) 0 = dec n"
    by (simp add: number_text_def field_text_def number_sign_def Let_def dec_def)
  then show ?thesis
    by (simp add: format_text.simps(2) spec convert_text_def int_conversion_def int_value_def)
qed

lemma format_0wu:
  assumes "is_digit d" "d \<noteq> CHR ''0''"
  shows "format_text (CHR ''%'' # CHR ''0'' # d # CHR ''u'' # fmt) (Int_Arg n # args) =
    map_option ((@) (dec_pad (of_char d - 48) n)) (format_text fmt args)"
proof -
  have d: "d \<noteq> CHR ''-''" "d \<noteq> CHR ''+''" "d \<noteq> CHR '' ''" "d \<noteq> CHR ''#''"
    using assms(1) by (auto simp: is_digit_def)
  have w: "int (of_char d) - 48 = int (of_char d - 48)"
    using assms(1) by (auto simp: is_digit_def of_nat_diff)
  have "int (of_char d) - 48 < 10" "0 \<le> int (of_char d) - 48"
    using assms(1) unfolding is_digit_def by linarith+
  then have small: "wrap_int (of_char d - 48) = of_char d - 48"
    by (intro wrap_int_id) (simp_all add: of_nat_of_char)
  have spec: "parse_spec (CHR ''0'' # d # CHR ''u'' # fmt) (Int_Arg n # args) =
      Some \<lparr>cs_flags = ZEROPAD, cs_width = int (of_char d - 48), cs_prec = - 1,
        cs_qual = CHR 0x00, cs_rest = CHR ''u'' # fmt, cs_args = Int_Arg n # args\<rparr>"
    using assms d
    by (simp add: parse_spec_def parse_width_def parse_precision_def next_is_def skip_atoi_def w [symmetric] Let_def)
      (simp add: is_digit_def of_nat_of_char small)
  have "number_text n 10 (int (of_char d - 48)) (- 1) ZEROPAD = dec_pad (of_char d - 48) n"
    by (simp add: number_text_def field_text_def number_sign_def Let_def dec_def dec_pad_def flag_defs nat_diff_distrib)
  then show ?thesis
    by (simp add: format_text.simps(2) spec convert_text_def int_conversion_def int_value_def)
qed

lemma format_s:
  "format_text (CHR ''%'' # CHR ''s'' # fmt) (Str_Arg (Some t) # args) = map_option ((@) (c_str t)) (format_text fmt args)"
proof -
  have spec: "parse_spec (CHR ''s'' # fmt) (Str_Arg (Some t) # args) = Some \<lparr>cs_flags = 0, cs_width = - 1, cs_prec = - 1,
      cs_qual = CHR 0x00, cs_rest = CHR ''s'' # fmt, cs_args = Str_Arg (Some t) # args\<rparr>"
    by (simp add: parse_spec_def parse_width_def parse_precision_def next_is_def is_digit_def)
  then show ?thesis
    by (simp add: format_text.simps(2) spec convert_text_def string_text_def Let_def)
qed

lemma is_digit_2_3: "is_digit (CHR ''2'')" "is_digit (CHR ''3'')"
  by (simp_all add: is_digit_def)

lemmas format_simps = format_plain format_u format_s
  format_0wu [OF is_digit_2_3(1), simplified] format_0wu [OF is_digit_2_3(2), simplified]

section \<open>Printable and readable\<close>

lemma digit_loop_digits: "list_all is_digit (digit_loop ''0123456789abcdef'' n 10 [])"
proof (induction "unat n" arbitrary: n rule: less_induct)
  case less
  show ?case
  proof (cases "n = 0")
    case False
    have "unat (n mod 10) < 10"
      by (simp add: unat_mod)
    then show ?thesis
      using less.hyps [OF divide_less [OF False, of 10]] digit_char(1) False
      by (simp add: digit_loop_step) (simp add: divide_def)
  qed simp
qed

lemma dec_digits: "list_all is_digit (dec n)"
  using digit_loop_digits [of n] by (simp add: dec_def number_digits_def is_digit_def list_all_iff)

lemma dec_pad_digits: "list_all is_digit (dec_pad w n)"
  using dec_digits [of n] by (auto simp: dec_pad_def list_all_iff is_digit_def)

lemma length_dec: "length (dec n) \<le> 10"
  using decimal_text(2) by (simp add: dec_def)

lemma length_dec_small: "unat n < 10 ^ k \<Longrightarrow> 0 < k \<Longrightarrow> length (dec n) \<le> k"
  using length_digit_loop [of n k] by (auto simp: dec_def number_digits_def)

lemma skip_digits:
  assumes "\<not> next_is is_digit rest" "unat n < 2 ^ 31"
  shows "skip_atoi (dec_pad w n @ rest) = (int (unat n), rest)"
proof -
  have zeros: "skip_atoi_loop 0 (replicate k (CHR ''0'') @ u) = skip_atoi_loop 0 u" for k u
    by (induction k) (simp_all add: is_digit_def)
  have rest: "skip_atoi_loop i rest = (i, rest)" for i
    using assms(1) by (cases rest) (auto simp: next_is_def)
  have "skip_atoi_loop 0 (dec n @ rest) = (int (unat n), rest)"
    using skip_atoi_digits [of n rest] rest by (simp add: dec_def number_digits_def is_digit_def)
  moreover have "int (unat n) < 2 ^ 31"
    using assms(2) by (simp only: of_nat_less_numeral_power_cancel_iff)
  then have "wrap_int (int (unat n)) = int (unat n)"
    by (intro wrap_int_id order_trans [OF _ of_nat_0_le_iff]) simp_all
  ultimately show ?thesis
    by (simp add: skip_atoi_def dec_pad_def zeros)
qed

end
