(* ===== verification/Ui.thy ===== *)
theory Ui
  imports Stopwatch Oled Time_Text "HOL-Library.Monad_Syntax"
begin

text \<open>
  \<^verbatim>\<open>applications/ui_oled.c\<close>: the two pages of the display and the settings other modules change.
  \<open>ui\<close> holds the file-scope variables; \<open>ui_sys\<close> adds the stopwatch service the pages query and
  the display driver they draw with.  The endless loop of the UI thread is its one iteration,
  \<open>ui_step\<close>.  \<open>None\<close> would be a draw call that reads outside the font or does not return.
\<close>

section \<open>State and pages\<close>

record ui =
  s_oled_enabled :: bool
  s_refresh_ms :: u16
  s_page_drawn :: bool
  s_laps_offset :: u16
  s_page :: u8

record ui_sys =
  u_sw :: sw_sys
  u_ol :: oled
  u_ui :: ui

definition format_time_ms :: "u32 \<Rightarrow> nat \<Rightarrow> string option" where
  "format_time_ms total_ms buf_len =
     (let cs = (total_ms div 10) mod 100; sec = (total_ms div 1000) mod 60; mn = total_ms div 60000
      in snprintf_str buf_len ''%02u:%02u.%02u'' [Int_Arg mn, Int_Arg sec, Int_Arg cs])"

definition format_time_sscc :: "u32 \<Rightarrow> nat \<Rightarrow> string option" where
  "format_time_sscc total_ms buf_len =
     (let cs = (total_ms div 10) mod 100; sec = (total_ms div 1000) mod 60
      in snprintf_str buf_len ''%02u.%02u'' [Int_Arg sec, Int_Arg cs])"

definition clear_area_ol :: "int \<Rightarrow> int \<Rightarrow> u8 \<Rightarrow> u8 \<Rightarrow> oled \<Rightarrow> oled option" where
  "clear_area_ol X Y W H d = map_option (\<lambda>b. d\<lparr>OLED_DisplayBuf := b\<rparr>) (OLED_ClearArea X Y W H (OLED_DisplayBuf d))"

text \<open>The frame of the main page, drawn once after every page change.\<close>

definition draw_main_frame :: "oled \<Rightarrow> ui \<Rightarrow> (oled \<times> ui) option" where
  "draw_main_frame d u =
     (if \<not> s_page_drawn u
      then do { d1 \<leftarrow> OLED_ShowString 0 0 ''Stopwatch'' OLED_6X8 (OLED_Clear d);
                d2 \<leftarrow> OLED_ShowString 0 36 ''Lap:'' OLED_6X8 d1;
                Some (OLED_Update d2, u\<lparr>s_page_drawn := True\<rparr>) }
      else Some (d, u))"

definition draw_lap_field :: "sw_sys \<Rightarrow> oled \<Rightarrow> (sw_sys \<times> oled) option" where
  "draw_lap_field s d =
     (let (cnt, s2) = stopwatch_get_lap_count s in
      do { d1 \<leftarrow> clear_area_ol 30 36 98 8 d;
           (d2, s3) \<leftarrow> (if cnt > 0
              then let (last, s3) = stopwatch_get_latest_lap_ms s2 in
                   do { b \<leftarrow> format_time_ms last 24;
                        d2 \<leftarrow> OLED_ShowString 30 36 b OLED_6X8 d1;
                        Some (d2, s3) }
              else Some (d1, s2));
           d3 \<leftarrow> OLED_UpdateArea 30 36 98 8 d2;
           Some (s3, d3) })"

definition draw_main_page :: "ui_sys \<Rightarrow> ui_sys option" where
  "draw_main_page u =
     (let (total, s1) = stopwatch_get_total_ms (u_sw u) in
      do { buf \<leftarrow> format_time_ms total 24;
           (d1, ui1) \<leftarrow> draw_main_frame (u_ol u) (u_ui u);
           d2 \<leftarrow> clear_area_ol 0 16 128 16 d1;
           d3 \<leftarrow> OLED_ShowString 0 16 buf OLED_8X16 d2;
           d4 \<leftarrow> OLED_UpdateArea 0 16 128 16 d3;
           (s3, d7) \<leftarrow> draw_lap_field s1 d4;
           Some \<lparr>u_sw = s3, u_ol = d7, u_ui = ui1\<rparr> })"

text \<open>The six lines of the laps page; the loop breaks at the first index past the last lap.\<close>

fun draw_lap_lines :: "nat list \<Rightarrow> u16 \<Rightarrow> u16 \<Rightarrow> sw_sys \<Rightarrow> oled \<Rightarrow> (sw_sys \<times> oled) option" where
  "draw_lap_lines [] offset cnt s d = Some (s, d)"
| "draw_lap_lines (i # is) offset cnt s d =
     (let idx = offset + of_nat i in
      if idx \<ge> cnt then Some (s, d)
      else let (v, s1) = stopwatch_get_lap_ms idx s in
           do { tbuf \<leftarrow> format_time_ms v 16;
                line \<leftarrow> snprintf_str 24 ''#%u %s'' [Int_Arg (ucast idx + 1), Str_Arg (Some tbuf)];
                d1 \<leftarrow> OLED_ShowString 0 (8 * (int i + 1)) line OLED_6X8 d;
                draw_lap_lines is offset cnt s1 d1 })"

text \<open>The loop over all laps for minimum, maximum and sum, which the shell command repeats.\<close>

definition lap_stats :: "u16 \<Rightarrow> sw_sys \<Rightarrow> u32 \<times> u32 \<times> u32 \<times> sw_sys" where
  "lap_stats cnt s =
     fold (\<lambda>i (min_ms, max_ms, sum_ms, s).
             let (v, s1) = stopwatch_get_lap_ms (of_nat i) s in
             (if v < min_ms then v else min_ms, if v > max_ms then v else max_ms, sum_ms + v, s1))
       [0..<unat cnt] (0xFFFFFFFF, 0, 0, s)"

definition draw_laps_page :: "ui_sys \<Rightarrow> ui_sys option" where
  "draw_laps_page u =
     do { d1 \<leftarrow> OLED_ShowString 0 0 ''Laps'' OLED_6X8 (OLED_Clear (u_ol u));
          let (cnt, s1) = stopwatch_get_lap_count (u_sw u);
              ui1 = (if s_laps_offset (u_ui u) \<ge> cnt then (u_ui u)\<lparr>s_laps_offset := 0\<rparr> else u_ui u)
          in do { (s2, d2) \<leftarrow> draw_lap_lines [0..<6] (s_laps_offset ui1) cnt s1 d1;
                  (s3, d3) \<leftarrow> (if cnt > 0
                     then let (min_ms, max_ms, sum_ms, s3) = lap_stats cnt s2; avg_ms = sum_ms div ucast cnt in
                          do { st \<leftarrow> snprintf_str 24 ''m%u M%u a%u'' [Int_Arg min_ms, Int_Arg max_ms, Int_Arg avg_ms];
                               d3 \<leftarrow> OLED_ShowString 0 56 st OLED_6X8 d2;
                               Some (s3, d3) }
                     else Some (s2, d2));
                  Some \<lparr>u_sw = s3, u_ol = OLED_Update d3, u_ui = ui1\<rparr> } }"

text \<open>One iteration of \<open>ui_entry\<close>: the new state and the milliseconds it then sleeps.\<close>

definition ui_step :: "ui_sys \<Rightarrow> (ui_sys \<times> u16) option" where
  "ui_step u =
     map_option (\<lambda>u'. (u', s_refresh_ms (u_ui u')))
       (if s_oled_enabled (u_ui u) then if s_page (u_ui u) = 0 then draw_main_page u else draw_laps_page u
        else Some u)"

definition ui_oled_init :: "bool \<Rightarrow> ui_sys \<Rightarrow> (rt_err_t \<times> ui_sys) option" where
  "ui_oled_init thread u =
     (let d1 = OLED_Clear (OLED_Init (OLED_SetI2CAddress 0x78 (u_ol u))) in
      do { d2 \<leftarrow> OLED_ShowString 0 0 ''RT-Thread'' OLED_6X8 d1;
           d3 \<leftarrow> OLED_ShowString 0 16 ''Stopwatch'' OLED_8X16 d2;
           Some (if \<not> thread then - RT_ENOMEM else RT_EOK, u\<lparr>u_ol := OLED_Update d3\<rparr>) })"

section \<open>Settings\<close>

definition ui_oled_set_refresh_ms :: "u16 \<Rightarrow> ui \<Rightarrow> ui" where
  "ui_oled_set_refresh_ms ms u = u\<lparr>s_refresh_ms := (if ms < 10 then 10 else ms)\<rparr>"

definition ui_oled_set_enabled :: "bool \<Rightarrow> ui \<Rightarrow> ui" where
  "ui_oled_set_enabled enabled u = u\<lparr>s_oled_enabled := enabled\<rparr>"

definition ui_oled_set_page :: "u8 \<Rightarrow> ui \<Rightarrow> ui" where
  "ui_oled_set_page page u = u\<lparr>s_page := (if page \<noteq> 0 then 1 else 0), s_page_drawn := False\<rparr>"

definition ui_oled_laps_prev :: "ui \<Rightarrow> ui" where
  "ui_oled_laps_prev u =
     u\<lparr>s_laps_offset := (if s_laps_offset u \<ge> 6 then s_laps_offset u - 6 else 0)\<rparr>"

text \<open>The comparison is done in \<open>int\<close>, so the sum does not wrap.\<close>

definition ui_oled_laps_next :: "ui_sys \<Rightarrow> ui_sys" where
  "ui_oled_laps_next u =
     (let (cnt, s1) = stopwatch_get_lap_count (u_sw u); off = s_laps_offset (u_ui u) in
      u\<lparr>u_sw := s1, u_ui := (if unat off + 6 < unat cnt then (u_ui u)\<lparr>s_laps_offset := off + 6\<rparr> else u_ui u)\<rparr>)"

definition ui_oled_laps_reset :: "ui \<Rightarrow> ui" where
  "ui_oled_laps_reset u = u\<lparr>s_laps_offset := 0\<rparr>"

section \<open>Queries leave the service as it was\<close>

definition sw_laps :: "sw_sys \<Rightarrow> u32 list" where
  "sw_laps s = (if g_inited s = 0 then [] else stored_laps (g_sw s))"

lemma query_frames [simp]:
  "sw_wf s \<Longrightarrow> snd (stopwatch_get_lap_count s) = s" "sw_wf s \<Longrightarrow> snd (stopwatch_get_lap_ms i s) = s"
  "sw_wf s \<Longrightarrow> snd (stopwatch_get_latest_lap_ms s) = s" "sw_wf s \<Longrightarrow> snd (stopwatch_get_state s) = s"
  by (auto simp: stopwatch_get_lap_count_def stopwatch_get_lap_ms_def stopwatch_get_latest_lap_ms_def
      stopwatch_get_state_def sw_wf_def Let_def)

lemma take_frame [simp]:
  "lap_count (g_sw (rt_mutex_take_sw s)) = lap_count (g_sw s)"
  "lap_durations_ms (g_sw (rt_mutex_take_sw s)) = lap_durations_ms (g_sw s)"
  "state (g_sw (rt_mutex_take_sw s)) = state (g_sw s)"
  by (simp_all add: rt_mutex_take_sw_def)

lemma length_sw_laps: "sw_wf s \<Longrightarrow> length (sw_laps s) \<le> STOPWATCH_MAX_LAPS"
  by (auto simp: sw_laps_def sw_wf_def stored_laps_def laps_wf_def)

lemma lap_count_value: "sw_wf s \<Longrightarrow> stopwatch_get_lap_count s = (of_nat (length (sw_laps s)), s)"
  by (simp add: stopwatch_get_lap_count_def sw_laps_def sw_wf_def stored_laps_def laps_wf_def)

lemma lap_ms_value:
  "sw_wf s \<Longrightarrow> i < length (sw_laps s) \<Longrightarrow> stopwatch_get_lap_ms (of_nat i) s = (sw_laps s ! i, s)"
  using length_sw_laps [of s]
  by (auto simp: stopwatch_get_lap_ms_def sw_laps_def sw_wf_def stored_laps_def laps_wf_def word_less_nat_alt
      unat_of_nat_less split: if_splits)

lemma latest_lap_value:
  "sw_wf s \<Longrightarrow> sw_laps s \<noteq> [] \<Longrightarrow> stopwatch_get_latest_lap_ms s = (last (sw_laps s), s)"
  by (auto simp: stopwatch_get_latest_lap_ms_def sw_laps_def sw_wf_def stored_laps_def laps_wf_def
      word_greater_zero_iff unat_minus_one last_conv_nth Let_def split: if_splits)

lemma total_frame:
  "sw_wf s \<Longrightarrow> g_sw (snd (stopwatch_get_total_ms s)) = g_sw s" "sw_wf s \<Longrightarrow> g_inited (snd (stopwatch_get_total_ms s)) = g_inited s"
  by (auto simp: stopwatch_get_total_ms_def get_total_take sw_wf_def Let_def split_beta)

section \<open>Times on the display\<close>

lemma printable_digit: "is_digit c \<Longrightarrow> printable c"
  by (simp add: is_digit_def printable_def)

lemma printable_dec: "list_all printable (dec n)" "list_all printable (dec_pad w n)"
  using dec_digits [of n] dec_pad_digits [of w n] printable_digit by (auto simp: list_all_iff)

lemma printable_no_nul: "list_all printable t \<Longrightarrow> CHR 0x00 \<notin> set t"
  by (auto simp: list_all_iff printable_def)

lemma length_dec_pad: "unat n < 10 ^ k \<Longrightarrow> 0 < k \<Longrightarrow> w \<le> k \<Longrightarrow> length (dec_pad w n) \<le> k"
  using length_dec_small [of n k] by (simp add: dec_pad_def)

definition time_text :: "u32 \<Rightarrow> string" where
  "time_text t = dec_pad 2 (t div 60000) @ '':'' @ dec_pad 2 ((t div 1000) mod 60) @ ''.'' @ dec_pad 2 ((t div 10) mod 100)"

lemma printable_time: "list_all printable (time_text t)"
  by (simp add: time_text_def printable_dec) (simp add: printable_def)

lemma length_time: "length (time_text t) \<le> 11"
proof -
  have "unat (t div 60000) < 10 ^ 5" "unat ((t div 1000) mod 60) < 10 ^ 2" "unat ((t div 10) mod 100) < 10 ^ 2"
    using unat_u32_less [of t] by (simp_all add: unat_div unat_mod less_mult_imp_div_less less_le_trans [OF mod_less_divisor])
  from length_dec_pad [OF this(1), of 2] length_dec_pad [OF this(2), of 2] length_dec_pad [OF this(3), of 2]
  show ?thesis by (simp add: time_text_def)
qed

lemma format_time_ms_text: "format_time_ms t sz = Some (time_text t)" if "12 \<le> sz" "sz < 1000"
proof -
  have "format_text ''%02u:%02u.%02u'' [Int_Arg (t div 60000), Int_Arg ((t div 1000) mod 60), Int_Arg ((t div 10) mod 100)] =
      Some (time_text t)"
    by (simp add: format_simps time_text_def)
  from snprintf_str_text [OF this, of sz] show ?thesis
    using that printable_no_nul [OF printable_time [of t]] length_time [of t] by (simp add: format_time_ms_def Let_def)
qed

text \<open>C34: the time on the display is the stopwatch total in centiseconds, rounded down: the text of
  \<open>format_time_ms\<close> fits its buffer, and its three fields read back as minutes, seconds below
  sixty and centiseconds below one hundred that make up the total, for every 32-bit total.\<close>

theorem display_time_reads_back:
  "\<exists>txt m r1 s r2 c. format_time_ms t 24 = Some txt \<and> length txt \<le> 11 \<and>
     skip_atoi txt = (m, CHR '':'' # r1) \<and> skip_atoi r1 = (s, CHR ''.'' # r2) \<and> skip_atoi r2 = (c, []) \<and>
     s < 60 \<and> c < 100 \<and> m * 6000 + s * 100 + c = int (unat t div 10)"
proof -
  let ?r2 = "dec_pad 2 ((t div 10) mod 100)"
  let ?r1 = "dec_pad 2 ((t div 1000) mod 60) @ CHR ''.'' # ?r2"
  have nd: "\<not> next_is is_digit (CHR '':'' # u)" "\<not> next_is is_digit (CHR ''.'' # u)" "\<not> next_is is_digit []" for u
    by (simp_all add: next_is_def is_digit_def)
  have small: "unat (t div 60000) < 2 ^ 31" "unat ((t div 1000) mod 60) < 2 ^ 31" "unat ((t div 10) mod 100) < 2 ^ 31"
    using unat_u32_less [of t] by (simp_all add: unat_div unat_mod less_mult_imp_div_less less_le_trans [OF mod_less_divisor])
  have "skip_atoi (time_text t) = (int (unat (t div 60000)), CHR '':'' # ?r1)"
    using skip_digits [OF nd(1) small(1), of 2 ?r1] by (simp add: time_text_def)
  moreover have "skip_atoi ?r1 = (int (unat ((t div 1000) mod 60)), CHR ''.'' # ?r2)"
    using skip_digits [OF nd(2) small(2), of 2 ?r2] by simp
  moreover have "skip_atoi ?r2 = (int (unat ((t div 10) mod 100)), [])"
    using skip_digits [OF nd(3) small(3), of 2] by simp
  moreover have "unat ((t div 1000) mod 60) < 60" "unat ((t div 10) mod 100) < 100"
    by (simp_all add: unat_mod)
  then have "int (unat ((t div 1000) mod 60)) < 60" "int (unat ((t div 10) mod 100)) < 100"
    by linarith+
  moreover have "int (unat (t div 60000)) * 6000 + int (unat ((t div 1000) mod 60)) * 100 + int (unat ((t div 10) mod 100)) =
      int (unat t div 10)"
  proof -
    define n where "n = unat t div 10"
    have parts: "unat (t div 60000) = n div 6000" "unat ((t div 1000) mod 60) = n div 100 mod 60"
      "unat ((t div 10) mod 100) = n mod 100"
      by (simp_all add: n_def unat_div unat_mod div_mult2_eq [symmetric])
    have "n div 6000 = n div 100 div 60"
      by (simp add: div_mult2_eq [symmetric])
    moreover have "n div 100 mod 60 + 60 * (n div 100 div 60) = n div 100" "n mod 100 + 100 * (n div 100) = n"
      by (simp_all only: mod_mult_div_eq)
    ultimately have "n div 6000 * 6000 + n div 100 mod 60 * 100 + n mod 100 = n"
      by linarith
    then show ?thesis
      unfolding parts n_def [symmetric] by linarith
  qed
  ultimately show ?thesis
    using format_time_ms_text [of 24 t, simplified] length_time [of t] by blast
qed

section \<open>Drawing\<close>

definition disp_ok :: "oled \<Rightarrow> bool" where
  "disp_ok d \<longleftrightarrow> length (OLED_DisplayBuf d) = 1024 \<and> (\<exists>fs. idle fs (wire_out d))"

lemma update_ok: "disp_ok d \<Longrightarrow> disp_ok (OLED_Update d) \<and> OLED_DisplayBuf (OLED_Update d) = OLED_DisplayBuf d"
proof -
  assume "disp_ok d"
  then obtain fs where "idle fs (wire_out d)" "length (OLED_DisplayBuf d) = 1024"
    by (auto simp: disp_ok_def)
  from update_frames [OF this] this(2) show ?thesis
    by (auto simp: disp_ok_def)
qed

lemma update_area_ok:
  assumes "disp_ok d" "0 \<le> X" "X + int (unat W) \<le> 128" "0 < unat W" "0 \<le> Y" "Y + int (unat H) \<le> 64" "0 < unat H"
  obtains d' where "OLED_UpdateArea X Y W H d = Some d'" "disp_ok d'" "OLED_DisplayBuf d' = OLED_DisplayBuf d"
  using assms update_area_frames [of _ d X W Y H] by (fastforce simp: disp_ok_def)

lemma length_clear_buf:
  "length (fold (\<lambda>j. fold (\<lambda>i b. b[128 * j + i := (v :: u8)]) is) js buf) = length buf"
proof -
  have "length (fold (\<lambda>i b. b[128 * j + i := v]) is buf) = length buf" for j buf
    by (induction "is" arbitrary: buf) auto
  then show ?thesis
    by (induction js arbitrary: buf) auto
qed

lemma clear_ok: "disp_ok d \<Longrightarrow> disp_ok (OLED_Clear d)"
  by (simp add: disp_ok_def OLED_Clear_def length_clear_buf del: upt_rec_numeral)

lemma show_ok:
  assumes "disp_ok d" "list_all printable cs" "F = OLED_8X16 \<or> F = OLED_6X8" "length cs \<le> 30"
    and "0 \<le> X" "X \<le> 127" "0 \<le> Y" "Y \<le> 63"
  obtains d' where "OLED_ShowString X Y cs F d = Some d'" "disp_ok d'"
    "\<And>x y. x < 128 \<Longrightarrow> y < 64 \<Longrightarrow> pix (OLED_DisplayBuf d') x y \<longleftrightarrow>
      (if in_text cs (unat F) X Y x y then text_pix cs (unat F) (nat (int x - X)) (nat (int y - Y))
       else pix (OLED_DisplayBuf d) x y)"
proof -
  have "unat F \<le> 8"
    using assms(3) by auto
  then have "unat F * length cs \<le> 8 * 30"
    using assms(4) by (intro mult_le_mono)
  then have "\<exists>b. show_string X Y F 0 cs (OLED_DisplayBuf d) = Some b \<and> length b = 1024 \<and>
    (\<forall>x y. x < 128 \<longrightarrow> y < 64 \<longrightarrow> (pix b x y \<longleftrightarrow>
      (if in_text cs (unat F) X Y x y then text_pix cs (unat F) (nat (int x - X)) (nat (int y - Y))
       else pix (OLED_DisplayBuf d) x y)))"
    using show_string_pix [of "OLED_DisplayBuf d" cs F X Y 0] assms by (auto simp: disp_ok_def)
  then obtain b where "show_string X Y F 0 cs (OLED_DisplayBuf d) = Some b" "length b = 1024"
    "\<And>x y. x < 128 \<Longrightarrow> y < 64 \<Longrightarrow> (pix b x y \<longleftrightarrow>
      (if in_text cs (unat F) X Y x y then text_pix cs (unat F) (nat (int x - X)) (nat (int y - Y))
       else pix (OLED_DisplayBuf d) x y))"
    by blast
  then show ?thesis
    using assms(1) by (intro that [of "d\<lparr>OLED_DisplayBuf := b\<rparr>"]) (simp_all add: OLED_ShowString_def disp_ok_def)
qed

lemma show_some:
  assumes "disp_ok d" "list_all printable cs" "F = OLED_8X16 \<or> F = OLED_6X8" "length cs \<le> 30"
    and "0 \<le> X" "X \<le> 127" "0 \<le> Y" "Y \<le> 63"
  obtains d' where "OLED_ShowString X Y cs F d = Some d'" "disp_ok d'"
  using show_ok [OF assms] by metis

lemma clear_area_ok:
  assumes "disp_ok d" "0 \<le> X" "X \<le> 127" "0 \<le> Y" "Y \<le> 63"
  obtains d' where "clear_area_ol X Y W H d = Some d'" "disp_ok d'"
    "\<And>x y. x < 128 \<Longrightarrow> y < 64 \<Longrightarrow> pix (OLED_DisplayBuf d') x y \<longleftrightarrow> pix (OLED_DisplayBuf d) x y \<and>
      \<not> (X \<le> int x \<and> int x < X + int (unat W) \<and> Y \<le> int y \<and> int y < Y + int (unat H))"
proof -
  have "unat W < 256" "unat H < 256"
    using unsigned_less [of W] unsigned_less [of H] by simp_all
  then have "- 32768 \<le> X" "X + int (unat W) \<le> 32767" "- 32768 \<le> Y" "Y + int (unat H) \<le> 32767"
    using assms by linarith+
  from clear_area_pix [OF this, of "OLED_DisplayBuf d"] obtain b where
    "OLED_ClearArea X Y W H (OLED_DisplayBuf d) = Some b" "length b = 1024"
    "\<And>x y. x < 128 \<Longrightarrow> y < 64 \<Longrightarrow> pix b x y \<longleftrightarrow> pix (OLED_DisplayBuf d) x y \<and>
      \<not> (X \<le> int x \<and> int x < X + int (unat W) \<and> Y \<le> int y \<and> int y < Y + int (unat H))"
    using assms(1) by (auto simp: disp_ok_def)
  then show ?thesis
    using assms(1) by (intro that [of "d\<lparr>OLED_DisplayBuf := b\<rparr>"]) (simp_all add: clear_area_ol_def disp_ok_def)
qed

lemma main_frame_ok:
  assumes "disp_ok d"
  obtains d' where "draw_main_frame d u = Some (d', u\<lparr>s_page_drawn := True\<rparr>)" "disp_ok d'"
proof (cases "s_page_drawn u")
  case True
  then show ?thesis
    using assms that [of d] by (simp add: draw_main_frame_def)
next
  case False
  obtain d1 where d1: "OLED_ShowString 0 0 ''Stopwatch'' OLED_6X8 (OLED_Clear d) = Some d1" "disp_ok d1"
    using show_some [OF clear_ok [OF assms], of "''Stopwatch''" OLED_6X8 0 0] by (auto simp: printable_def)
  obtain d2 where d2: "OLED_ShowString 0 36 ''Lap:'' OLED_6X8 d1 = Some d2" "disp_ok d2"
    using show_some [OF d1(2), of "''Lap:''" OLED_6X8 0 36] by (auto simp: printable_def)
  show ?thesis
    using that [of "OLED_Update d2"] False d1 d2 update_ok [OF d2(2)] by (simp add: draw_main_frame_def)
qed

text \<open>A field of the display after it was cleared and a text drawn into it.\<close>

definition field_shows :: "u8 list \<Rightarrow> string \<Rightarrow> nat \<Rightarrow> int \<Rightarrow> int \<Rightarrow> nat \<Rightarrow> nat \<Rightarrow> bool" where
  "field_shows buf cs F X Y W H \<longleftrightarrow> (\<forall>x y. x < 128 \<longrightarrow> y < 64 \<longrightarrow> X \<le> int x \<longrightarrow> int x < X + int W \<longrightarrow>
     Y \<le> int y \<longrightarrow> int y < Y + int H \<longrightarrow>
     (pix buf x y \<longleftrightarrow> in_text cs F X Y x y \<and> text_pix cs F (nat (int x - X)) (nat (int y - Y))))"

lemma clear_and_show:
  assumes "disp_ok d" "list_all printable cs" "F = OLED_8X16 \<or> F = OLED_6X8" "length cs \<le> 11"
    and "0 \<le> X" "X + int (unat W) \<le> 128" "0 < unat W" "0 \<le> Y" "Y + int (unat H) \<le> 64" "8 \<le> unat H"
    and "unat F * length cs \<le> unat W"
  obtains d1 d2 where "clear_area_ol X Y W H d = Some d1" "disp_ok d1"
    "OLED_ShowString X Y cs F d1 = Some d2" "disp_ok d2"
    "field_shows (OLED_DisplayBuf d1) [] (unat F) X Y (unat W) (unat H)"
    "field_shows (OLED_DisplayBuf d2) cs (unat F) X Y (unat W) (unat H)"
    "\<And>x y. x < 128 \<Longrightarrow> y < 64 \<Longrightarrow> \<not> (X \<le> int x \<and> int x < X + int (unat W) \<and> Y \<le> int y \<and> int y < Y + int (unat H)) \<Longrightarrow>
       pix (OLED_DisplayBuf d1) x y = pix (OLED_DisplayBuf d) x y \<and> pix (OLED_DisplayBuf d2) x y = pix (OLED_DisplayBuf d) x y"
proof -
  have XY: "X \<le> 127" "Y \<le> 63"
    using assms(6,7,9,10) by linarith+
  obtain d1 where d1: "clear_area_ol X Y W H d = Some d1" "disp_ok d1"
    and p1: "\<And>x y. x < 128 \<Longrightarrow> y < 64 \<Longrightarrow> pix (OLED_DisplayBuf d1) x y \<longleftrightarrow> pix (OLED_DisplayBuf d) x y \<and>
      \<not> (X \<le> int x \<and> int x < X + int (unat W) \<and> Y \<le> int y \<and> int y < Y + int (unat H))"
    using clear_area_ok [OF assms(1,5) XY(1) assms(8) XY(2)] by metis
  obtain d2 where d2: "OLED_ShowString X Y cs F d1 = Some d2" "disp_ok d2"
    and p2: "\<And>x y. x < 128 \<Longrightarrow> y < 64 \<Longrightarrow> pix (OLED_DisplayBuf d2) x y \<longleftrightarrow>
      (if in_text cs (unat F) X Y x y then text_pix cs (unat F) (nat (int x - X)) (nat (int y - Y))
       else pix (OLED_DisplayBuf d1) x y)"
  proof -
    have "length cs \<le> 30"
      using assms(4) by simp
    from show_ok [OF d1(2) assms(2,3) this assms(5) XY(1) assms(8) XY(2)] that show thesis
      by metis
  qed
  have inside: "X \<le> int x \<and> int x < X + int (unat W) \<and> Y \<le> int y \<and> int y < Y + int (unat H)"
    if "in_text cs (unat F) X Y x y" for x y
    using that assms(10,11) unfolding in_text_def by (metis add_left_mono of_nat_le_iff of_nat_numeral order_less_le_trans)
  show ?thesis
  proof (rule that [OF d1 d2])
    show "field_shows (OLED_DisplayBuf d1) [] (unat F) X Y (unat W) (unat H)"
      using p1 by (auto simp: field_shows_def in_text_def)
    show "field_shows (OLED_DisplayBuf d2) cs (unat F) X Y (unat W) (unat H)"
      using p1 p2 by (auto simp: field_shows_def)
  qed (use p1 p2 inside in auto)
qed

lemma sw_wf_total: "sw_wf s \<Longrightarrow> sw_wf (snd (stopwatch_get_total_ms s))"
  by (simp add: sw_wf_def total_frame)

lemma sw_laps_total: "sw_wf s \<Longrightarrow> sw_laps (snd (stopwatch_get_total_ms s)) = sw_laps s"
  by (simp add: sw_laps_def total_frame)

text \<open>The lap field of the main page, after its clearing.\<close>

lemma lap_field_ok:
  assumes "sw_wf s" "disp_ok d"
  obtains d' where "draw_lap_field s d = Some (s, d')" "disp_ok d'"
    "field_shows (OLED_DisplayBuf d') (if sw_laps s = [] then [] else time_text (last (sw_laps s))) 6 30 36 98 8"
    "\<And>x y. x < 128 \<Longrightarrow> y < 64 \<Longrightarrow> y < 36 \<Longrightarrow> pix (OLED_DisplayBuf d') x y = pix (OLED_DisplayBuf d) x y"
proof -
  let ?t = "time_text (last (sw_laps s))"
  have u: "unat (6 :: u8) = 6" "unat (98 :: u8) = 98" "unat (8 :: u8) = 8"
    by simp_all
  have len: "6 * length ?t \<le> 98"
    using length_time [of "last (sw_laps s)"] by linarith
  obtain d1 d2 where d: "clear_area_ol 30 36 98 8 d = Some d1" "disp_ok d1"
    "OLED_ShowString 30 36 ?t OLED_6X8 d1 = Some d2" "disp_ok d2"
    "field_shows (OLED_DisplayBuf d1) [] 6 30 36 98 8" "field_shows (OLED_DisplayBuf d2) ?t 6 30 36 98 8"
    "\<And>x y. x < 128 \<Longrightarrow> y < 64 \<Longrightarrow> y < 36 \<Longrightarrow>
       pix (OLED_DisplayBuf d1) x y = pix (OLED_DisplayBuf d) x y \<and> pix (OLED_DisplayBuf d2) x y = pix (OLED_DisplayBuf d) x y"
    by (rule clear_and_show [OF assms(2) printable_time [of "last (sw_laps s)"] _ length_time, of OLED_6X8 30 98 36 8])
      (use len in \<open>simp_all add: u\<close>)
  have pos: "(of_nat (length (sw_laps s)) :: u16) > 0 \<longleftrightarrow> sw_laps s \<noteq> []"
    using length_sw_laps [OF assms(1)] by (auto simp: word_greater_zero_iff word_eq_of_nat_mod [of _ 0, simplified])
  let ?d = "if sw_laps s = [] then d1 else d2"
  have "disp_ok ?d"
    using d(2,4) by simp
  then obtain d3 where d3: "OLED_UpdateArea 30 36 98 8 ?d = Some d3" "disp_ok d3"
    "OLED_DisplayBuf d3 = OLED_DisplayBuf ?d"
    by (rule update_area_ok [of _ 30 98 36 8]) (simp_all add: u)
  have "draw_lap_field s d = Some (s, d3)"
  proof (cases "sw_laps s = []")
    case True
    then show ?thesis
      using d3(1) pos unfolding draw_lap_field_def lap_count_value [OF assms(1)] by (simp add: d(1))
  next
    case False
    then show ?thesis
      using d3(1) pos unfolding draw_lap_field_def lap_count_value [OF assms(1)]
      by (simp add: d(1,3) latest_lap_value [OF assms(1) False] format_time_ms_text)
  qed
  then show ?thesis
    using d3 d(5-7) by (intro that [of d3]) (auto split: if_splits)
qed

text \<open>C33: drawing the main page always succeeds: the time field shows exactly the text of the total
  the stopwatch returns and the lap field the text of the newest lap, or nothing when there is
  none; the bus is left released, the page is marked drawn, and the stopwatch is only queried.\<close>

theorem main_page_shows_time:
  assumes "sw_wf (u_sw u)" "disp_ok (u_ol u)"
  shows "\<exists>u'. draw_main_page u = Some u' \<and> disp_ok (u_ol u') \<and>
    u_sw u' = snd (stopwatch_get_total_ms (u_sw u)) \<and> u_ui u' = (u_ui u)\<lparr>s_page_drawn := True\<rparr> \<and>
    field_shows (OLED_DisplayBuf (u_ol u')) (time_text (fst (stopwatch_get_total_ms (u_sw u)))) 8 0 16 128 16 \<and>
    field_shows (OLED_DisplayBuf (u_ol u'))
      (if sw_laps (u_sw u) = [] then [] else time_text (last (sw_laps (u_sw u)))) 6 30 36 98 8"
proof -
  let ?t = "fst (stopwatch_get_total_ms (u_sw u))" and ?s = "snd (stopwatch_get_total_ms (u_sw u))"
  have w: "unat (8 :: u8) = 8" "unat (128 :: u8) = 128" "unat (16 :: u8) = 16" "unat (98 :: u8) = 98"
    by simp_all
  obtain d1 where d1: "draw_main_frame (u_ol u) (u_ui u) = Some (d1, (u_ui u)\<lparr>s_page_drawn := True\<rparr>)" "disp_ok d1"
    using main_frame_ok [OF assms(2)] by metis
  have len: "8 * length (time_text ?t) \<le> 128"
    using length_time [of ?t] by linarith
  obtain d2 d3 where d3: "clear_area_ol 0 16 128 16 d1 = Some d2" "OLED_ShowString 0 16 (time_text ?t) OLED_8X16 d2 = Some d3"
    "disp_ok d3" "field_shows (OLED_DisplayBuf d3) (time_text ?t) 8 0 16 128 16"
    by (rule clear_and_show [OF d1(2) printable_time [of ?t] _ length_time, of OLED_8X16 0 128 16 16])
      (use len in \<open>simp_all add: w\<close>)
  obtain d4 where d4: "OLED_UpdateArea 0 16 128 16 d3 = Some d4" "disp_ok d4" "OLED_DisplayBuf d4 = OLED_DisplayBuf d3"
    by (rule update_area_ok [OF d3(3), of 0 128 16 16]) (simp_all add: w)
  obtain d7 where d7: "draw_lap_field ?s d4 = Some (?s, d7)" "disp_ok d7"
    "field_shows (OLED_DisplayBuf d7) (if sw_laps ?s = [] then [] else time_text (last (sw_laps ?s))) 6 30 36 98 8"
    "\<And>x y. x < 128 \<Longrightarrow> y < 64 \<Longrightarrow> y < 36 \<Longrightarrow> pix (OLED_DisplayBuf d7) x y = pix (OLED_DisplayBuf d4) x y"
    using lap_field_ok [OF sw_wf_total [OF assms(1)] d4(2)] by metis
  have "draw_main_page u = Some \<lparr>u_sw = ?s, u_ol = d7, u_ui = (u_ui u)\<lparr>s_page_drawn := True\<rparr>\<rparr>"
    unfolding draw_main_page_def Let_def split_beta
    by (simp add: d1(1) d3(1,2) d4(1) d7(1) format_time_ms_text)
  moreover have "field_shows (OLED_DisplayBuf d7) (time_text ?t) 8 0 16 128 16"
    using d3(4) d4(3) d7(4) unfolding field_shows_def by simp
  ultimately show ?thesis
    using d7(2,3) unfolding sw_laps_total [OF assms(1)] by simp
qed

lemma lap_line_text:
  assumes "sz = 24"
  shows "\<exists>line. snprintf_str sz ''#%u %s'' [Int_Arg n, Str_Arg (Some (time_text v))] = Some line \<and>
    list_all printable line \<and> length line \<le> 30"
proof -
  let ?t = "CHR ''#'' # dec n @ CHR '' '' # time_text v"
  have "format_text ''#%u %s'' [Int_Arg n, Str_Arg (Some (time_text v))] = Some ?t"
    using printable_no_nul [OF printable_time [of v]] by (simp add: format_simps c_str_id)
  moreover have "list_all printable ?t"
    using printable_dec(1) [of n] printable_time [of v] by (simp add: printable_def)
  ultimately show ?thesis
    using snprintf_str_text [of "''#%u %s''" _ ?t sz] printable_no_nul [of ?t] assms
    by (auto simp del: take_append take_Cons_numeral simp: list_all_iff dest!: in_set_takeD)
qed

lemma draw_lap_lines_ok:
  assumes "\<forall>i \<in> set is. i < 6" "disp_ok d" "sw_wf s"
  obtains d' where "draw_lap_lines is offset cnt s d = Some (s, d')" "disp_ok d'"
  using assms
proof (induction "is" arbitrary: d thesis)
  case Nil
  then show ?case by simp
next
  case (Cons i "is")
  show ?case
  proof (cases "offset + of_nat i \<ge> cnt")
    case True
    then show ?thesis
      using Cons.prems(1) [of d] Cons.prems(3) by (simp add: Let_def)
  next
    case False
    let ?v = "fst (stopwatch_get_lap_ms (offset + of_nat i) s)"
    obtain line where line: "snprintf_str 24 ''#%u %s'' [Int_Arg (ucast (offset + of_nat i) + 1), Str_Arg (Some (time_text ?v))] = Some line"
      "list_all printable line" "length line \<le> 30"
      using lap_line_text [of 24] by blast
    obtain d1 where d1: "OLED_ShowString 0 (8 * (int i + 1)) line OLED_6X8 d = Some d1" "disp_ok d1"
      using show_some [OF Cons.prems(3) line(2) _ line(3), of OLED_6X8 0 "8 * (int i + 1)"] Cons.prems(2) by auto
    obtain d' where "draw_lap_lines is offset cnt s d1 = Some (s, d')" "disp_ok d'"
      using Cons.IH [of d1] Cons.prems(2) d1(2) assms(3) by auto
    then show ?thesis
      using Cons.prems(1) [of d'] False line(1) d1(1) format_time_ms_text [of 16 ?v]
      by (simp add: Let_def split_beta assms(3))
  qed
qed

lemma lap_stats_frame:
  "sw_wf s \<Longrightarrow> snd (snd (snd (lap_stats cnt s))) = s"
proof -
  assume wf: "sw_wf s"
  have "snd (snd (snd (fold (\<lambda>i (min_ms, max_ms, sum_ms, s).
             let (v, s1) = stopwatch_get_lap_ms (of_nat i) s in
             (if v < min_ms then v else min_ms, if v > max_ms then v else max_ms, sum_ms + v, s1)) is (a, b, c, s)))) = s"
    for "is" a b c
    by (induction "is" arbitrary: a b c) (simp_all add: Let_def split_beta wf)
  then show ?thesis
    by (simp add: lap_stats_def)
qed

lemma stat_text:
  "\<exists>st. snprintf_str 24 ''m%u M%u a%u'' [Int_Arg a, Int_Arg b, Int_Arg c] = Some st \<and>
    list_all printable st \<and> length st \<le> 30"
proof -
  let ?t = "CHR ''m'' # dec a @ '' M'' @ dec b @ '' a'' @ dec c"
  have "format_text ''m%u M%u a%u'' [Int_Arg a, Int_Arg b, Int_Arg c] = Some ?t"
    by (simp add: format_simps)
  moreover have "list_all printable ?t"
    using printable_dec(1) by (simp add: printable_def)
  ultimately show ?thesis
    using snprintf_str_text [of "''m%u M%u a%u''" _ ?t 24] printable_no_nul [of ?t]
    by (auto simp del: take_append take_Cons_numeral simp: list_all_iff dest!: in_set_takeD)
qed

text \<open>Drawing the laps page succeeds in every well-formed state of the stopwatch, whatever the offset, and
  queries only the lap records: the state of the service, its time base included, is unchanged.
  So while this page is shown nothing reads the time base.\<close>

theorem laps_page_reads_no_time:
  assumes "sw_wf (u_sw u)" "disp_ok (u_ol u)"
  shows "\<exists>u'. draw_laps_page u = Some u' \<and> disp_ok (u_ol u') \<and> u_sw u' = u_sw u \<and>
    (s_laps_offset (u_ui u') = 0 \<or> s_laps_offset (u_ui u') < fst (stopwatch_get_lap_count (u_sw u)))"
proof -
  let ?cnt = "fst (stopwatch_get_lap_count (u_sw u))"
  let ?ui = "if s_laps_offset (u_ui u) \<ge> ?cnt then (u_ui u)\<lparr>s_laps_offset := 0\<rparr> else u_ui u"
  obtain d1 where d1: "OLED_ShowString 0 0 ''Laps'' OLED_6X8 (OLED_Clear (u_ol u)) = Some d1" "disp_ok d1"
    using show_some [OF clear_ok [OF assms(2)], of "''Laps''" OLED_6X8 0 0] by (auto simp: printable_def)
  obtain d2 where d2: "draw_lap_lines [0..<6] (s_laps_offset ?ui) ?cnt (u_sw u) d1 = Some (u_sw u, d2)" "disp_ok d2"
    using draw_lap_lines_ok [of "[0..<6]" d1 "u_sw u" "s_laps_offset ?ui" ?cnt] d1(2) assms(1) by auto
  obtain mn mx sm where st: "lap_stats ?cnt (u_sw u) = (mn, mx, sm, u_sw u)"
    using lap_stats_frame [OF assms(1), of ?cnt] by (metis prod.collapse)
  obtain line where line: "snprintf_str 24 ''m%u M%u a%u'' [Int_Arg mn, Int_Arg mx, Int_Arg (sm div ucast ?cnt)] = Some line"
    "list_all printable line" "length line \<le> 30"
    using stat_text by blast
  obtain d3 where d3: "OLED_ShowString 0 56 line OLED_6X8 d2 = Some d3" "disp_ok d3"
    using show_some [OF d2(2) line(2) _ line(3), of OLED_6X8 0 56] by auto
  let ?d = "if ?cnt > 0 then d3 else d2"
  have "draw_laps_page u = Some \<lparr>u_sw = u_sw u, u_ol = OLED_Update ?d, u_ui = ?ui\<rparr>"
    unfolding draw_laps_page_def d1(1) bind.bind_lunit Let_def split_beta
    using d2(1) by (simp add: assms(1) st line(1) d3(1) del: upt_rec_numeral)
  moreover have "disp_ok (OLED_Update ?d)"
    using update_ok d2(2) d3(2) by simp
  ultimately show ?thesis
    by (auto simp: not_le)
qed

section \<open>Paging\<close>

lemma next_offset:
  assumes "sw_wf (u_sw v)" "unat (s_laps_offset (u_ui v)) < 20"
  shows "u_sw (ui_oled_laps_next v) = u_sw v"
    and "unat (s_laps_offset (u_ui (ui_oled_laps_next v))) =
      (let off = unat (s_laps_offset (u_ui v)) in if off + 6 < length (sw_laps (u_sw v)) then off + 6 else off)"
proof -
  have L: "unat (of_nat (length (sw_laps (u_sw v))) :: u16) = length (sw_laps (u_sw v))"
    using length_sw_laps [OF assms(1)] by (simp add: unat_of_nat_less)
  show "u_sw (ui_oled_laps_next v) = u_sw v"
    by (simp add: ui_oled_laps_next_def lap_count_value [OF assms(1)] Let_def)
  show "unat (s_laps_offset (u_ui (ui_oled_laps_next v))) =
      (let off = unat (s_laps_offset (u_ui v)) in if off + 6 < length (sw_laps (u_sw v)) then off + 6 else off)"
    using assms(2) by (simp add: ui_oled_laps_next_def lap_count_value [OF assms(1)] Let_def L unat_word_ariths)
qed

lemma nexts_offset:
  assumes "sw_wf (u_sw u)" "sw_laps (u_sw u) \<noteq> []" "s_laps_offset (u_ui u) = 0"
  shows "u_sw ((ui_oled_laps_next ^^ n) u) = u_sw u \<and>
      unat (s_laps_offset (u_ui ((ui_oled_laps_next ^^ n) u))) = 6 * min n ((length (sw_laps (u_sw u)) - 1) div 6)"
proof (induction n)
  case (Suc n)
  let ?v = "(ui_oled_laps_next ^^ n) u" and ?L = "length (sw_laps (u_sw u))"
  define k where "k = min n ((?L - 1) div 6)"
  have L: "?L \<le> 20" "0 < ?L"
    using length_sw_laps [OF assms(1)] assms(2) by auto
  have k: "u_sw ?v = u_sw u" "unat (s_laps_offset (u_ui ?v)) = 6 * k" "k \<le> (?L - 1) div 6"
    using Suc by (auto simp: k_def)
  then have "6 * k < 20"
    using L by (auto simp: less_eq_div_iff_mult_less_eq)
  moreover have "6 * k + 6 < ?L \<longleftrightarrow> k + 1 \<le> (?L - 1) div 6"
    using L by (auto simp: less_eq_div_iff_mult_less_eq)
  moreover have "min (Suc n) ((?L - 1) div 6) = (if k + 1 \<le> (?L - 1) div 6 then k + 1 else k)"
    by (auto simp: k_def min_def)
  ultimately show ?case
    using next_offset [of ?v] k assms(1) by (simp add: Let_def)
qed (use assms in simp)

lemma prev_offset: "unat (s_laps_offset (ui_oled_laps_prev v)) = unat (s_laps_offset v) - 6"
  by (auto simp: ui_oled_laps_prev_def unat_sub word_le_nat_alt)

lemma prevs_offset: "unat (s_laps_offset ((ui_oled_laps_prev ^^ m) v)) = unat (s_laps_offset v) - 6 * m"
  by (induction m) (simp_all add: prev_offset)

text \<open>Paging through the laps: from the first page, \<open>n\<close> steps forward show the lap with index
  \<open>6 * n\<close> on top but never go past the last page, and as many steps back return to the first page;
  every page offset is a multiple of six below the number of laps.\<close>

theorem laps_paging:
  assumes "sw_wf (u_sw u)" "sw_laps (u_sw u) \<noteq> []" "s_laps_offset (u_ui u) = 0"
  shows "let off = 6 * min n ((length (sw_laps (u_sw u)) - 1) div 6) in
    unat (s_laps_offset (u_ui ((ui_oled_laps_next ^^ n) u))) = off \<and> off < length (sw_laps (u_sw u)) \<and>
    s_laps_offset ((ui_oled_laps_prev ^^ n) (u_ui ((ui_oled_laps_next ^^ n) u))) = 0"
proof -
  let ?v = "u_ui ((ui_oled_laps_next ^^ n) u)" and ?L = "length (sw_laps (u_sw u))"
  have off: "unat (s_laps_offset ?v) = 6 * min n ((?L - 1) div 6)"
    using nexts_offset [OF assms] by simp
  moreover have "6 * min n ((?L - 1) div 6) < ?L"
  proof -
    have "6 * min n ((?L - 1) div 6) \<le> 6 * ((?L - 1) div 6)"
      by simp
    also have "\<dots> \<le> ?L - 1"
      by (simp only: times_div_less_eq_dividend)
    also have "\<dots> < ?L"
      using assms(2) by simp
    finally show ?thesis .
  qed
  moreover have "unat (s_laps_offset ((ui_oled_laps_prev ^^ n) ?v)) = 0"
    using off by (simp add: prevs_offset)
  then have "s_laps_offset ((ui_oled_laps_prev ^^ n) ?v) = 0"
    by (simp add: unat_eq_zero)
  ultimately show ?thesis
    by (simp add: Let_def)
qed

section \<open>A display at work\<close>

text \<open>A paused stopwatch at 65.43 s with two laps, and a display with nothing drawn yet.\<close>

definition demo_ctx :: stopwatch_ctx_t where
  "demo_ctx = ctx_zero\<lparr>state := STOPWATCH_STATE_PAUSED, accumulated_ms := 65430, lap_count := 2,
     lap_durations_ms := [30000, 31000] @ replicate 18 0, lock := Some 0\<rparr>"

definition demo_ui :: "hw \<Rightarrow> timebase \<Rightarrow> ui_sys" where
  "demo_ui h t = \<lparr>u_sw = \<lparr>g_sw = demo_ctx, g_inited = 1, tb = t, sw_hw = h, mutex_available = True\<rparr>,
     u_ol = \<lparr>OLED_DisplayBuf = replicate 1024 0, s_oled_addr = 0x78, wire_out = []\<rparr>,
     u_ui = \<lparr>s_oled_enabled = True, s_refresh_ms = 10, s_page_drawn = False, s_laps_offset = 0, s_page = 0\<rparr>\<rparr>"

lemma demo_ui_ok: "sw_wf (u_sw (demo_ui h t))" "disp_ok (u_ol (demo_ui h t))"
  by (simp_all add: demo_ui_def demo_ctx_def ctx_zero_def sw_wf_def laps_wf_def disp_ok_def idle_def listen_def silent_def)

theorem main_page_shows_time_witness:
  "\<forall>h t. \<exists>u'. draw_main_page (demo_ui h t) = Some u' \<and>
     field_shows (OLED_DisplayBuf (u_ol u')) (time_text 65430) 8 0 16 128 16"
proof (intro allI)
  fix h t
  have "fst (stopwatch_get_total_ms (u_sw (demo_ui h t))) = 65430"
    by (simp add: stopwatch_get_total_ms_def get_now_total_ms_unsafe_def demo_ui_def demo_ctx_def ctx_zero_def sw_lock_defs)
  then show "\<exists>u'. draw_main_page (demo_ui h t) = Some u' \<and>
     field_shows (OLED_DisplayBuf (u_ol u')) (time_text 65430) 8 0 16 128 16"
    using main_page_shows_time [OF demo_ui_ok, of h t] by auto
qed

theorem laps_page_reads_no_time_witness:
  "\<forall>h t. \<exists>u'. draw_laps_page (demo_ui h t) = Some u' \<and> u_sw u' = u_sw (demo_ui h t)"
  using laps_page_reads_no_time [OF demo_ui_ok] by metis

theorem laps_paging_witness:
  "\<forall>h t. s_laps_offset (u_ui ((ui_oled_laps_next ^^ 3) (demo_ui h t))) = 0"
proof (intro allI)
  fix h t
  have "sw_laps (u_sw (demo_ui h t)) = [30000, 31000]" "s_laps_offset (u_ui (demo_ui h t)) = 0"
    by (simp_all add: sw_laps_def stored_laps_def demo_ui_def demo_ctx_def)
  then show "s_laps_offset (u_ui ((ui_oled_laps_next ^^ 3) (demo_ui h t))) = 0"
    using laps_paging [OF demo_ui_ok(1), of h t 3] by (simp add: Let_def unat_eq_zero)
qed

end
