(* ===== verification/Sensor.thy ===== *)
theory Sensor
  imports Peripherals Ui
begin

text \<open>
  \<^verbatim>\<open>applications/sensor_light.c\<close>: the light sensor with its three-sample hysteresis, which switches
  the buzzer and the refresh period of the display.  \<open>light\<close> holds the file-scope variables; the
  endless loop of the thread is its one iteration \<open>light_step\<close>, whose argument is the level of the
  sensor pin and whose counters are the thread's 8-bit locals.
\<close>

section \<open>State and operations\<close>

record light =
  s_enabled :: bool
  s_dark :: bool
  s_invert :: bool

record light_sys =
  l_light :: light
  l_buz :: buzzer
  l_ui :: ui

definition read_do :: "bool \<Rightarrow> light \<Rightarrow> bool" where
  "read_do level l = (let dark = (if level then False else True) in if s_invert l then \<not> dark else dark)"

definition apply_state :: "bool \<Rightarrow> light_sys \<Rightarrow> light_sys" where
  "apply_state dark s =
     (let s1 = s\<lparr>l_light := (l_light s)\<lparr>s_dark := dark\<rparr>\<rparr> in
      if s_dark (l_light s1)
      then s1\<lparr>l_buz := notifier_beep_enable False (l_buz s1), l_ui := ui_oled_set_refresh_ms 300 (l_ui s1)\<rparr>
      else s1\<lparr>l_buz := notifier_beep_enable True (l_buz s1), l_ui := ui_oled_set_refresh_ms 10 (l_ui s1)\<rparr>)"

definition light_step :: "bool \<Rightarrow> light_sys \<times> u8 \<times> u8 \<Rightarrow> light_sys \<times> u8 \<times> u8" where
  "light_step level st =
     (let (s, dark_cnt, light_cnt) = st in
      if s_enabled (l_light s)
      then let dark_now = read_do level (l_light s);
               (dark_cnt1, light_cnt1) = (if dark_now then (dark_cnt + 1, 0) else (0, light_cnt + 1));
               s1 = (if \<not> s_dark (l_light s) \<and> dark_cnt1 \<ge> 3 then apply_state True s
                     else if s_dark (l_light s) \<and> light_cnt1 \<ge> 3 then apply_state False s
                     else s)
           in (s1, dark_cnt1, light_cnt1)
      else (s, dark_cnt, light_cnt))"

text \<open>The pin is an input with a pull-up; \<open>thread\<close> tells whether \<open>rt_thread_create\<close> succeeds.\<close>

definition sensor_light_init :: "bool \<Rightarrow> bool \<Rightarrow> light_sys \<Rightarrow> rt_err_t \<times> light_sys" where
  "sensor_light_init thread level s =
     (let s0 = s\<lparr>l_buz := (l_buz s)\<lparr>buz_io := buz_io (l_buz s) @ [Mode LIGHT_DO_PIN PIN_MODE_INPUT_PULLUP]\<rparr>\<rparr>;
          s1 = apply_state (read_do level (l_light s0)) s0
      in (if \<not> thread then - RT_ENOMEM else RT_EOK, s1))"

definition sensor_light_enable :: "bool \<Rightarrow> light \<Rightarrow> light" where
  "sensor_light_enable enable l = l\<lparr>s_enabled := enable\<rparr>"

definition sensor_light_is_enabled :: "light \<Rightarrow> bool" where
  "sensor_light_is_enabled l = s_enabled l"

definition sensor_light_set_invert :: "bool \<Rightarrow> light \<Rightarrow> light" where
  "sensor_light_set_invert invert l = l\<lparr>s_invert := invert\<rparr>"

definition sensor_light_get_invert :: "light \<Rightarrow> bool" where
  "sensor_light_get_invert l = s_invert l"

section \<open>Hysteresis\<close>

text \<open>What can happen while the thread runs: a period passes, or a command changes a setting.  \<open>sw_light\<close> and \<open>sw_light_invert\<close> change
  those of the sensor, \<open>sw_beep\<close> and \<open>sw_oled_rate\<close> those that the sensor changes as well.\<close>

datatype light_ev = Period bool | Enable bool | Invert bool | Beep bool | Oled_Rate u16

fun light_event :: "light_ev \<Rightarrow> light_sys \<times> u8 \<times> u8 \<Rightarrow> light_sys \<times> u8 \<times> u8" where
  "light_event (Period level) st = light_step level st"
| "light_event (Enable e) (s, c) = (s\<lparr>l_light := sensor_light_enable e (l_light s)\<rparr>, c)"
| "light_event (Invert i) (s, c) = (s\<lparr>l_light := sensor_light_set_invert i (l_light s)\<rparr>, c)"
| "light_event (Beep on) (s, c) = (s\<lparr>l_buz := notifier_beep_enable on (l_buz s)\<rparr>, c)"
| "light_event (Oled_Rate ms) (s, c) = (s\<lparr>l_ui := ui_oled_set_refresh_ms ms (l_ui s)\<rparr>, c)"

text \<open>The reference: the readings taken, newest first, of which the newest three equal ones in a row count, and what was last made of
  the buzzer and the refresh period.\<close>

fun settled :: "bool \<Rightarrow> bool list \<Rightarrow> bool" where
  "settled d (a # b # c # xs) = (if a = b \<and> b = c then a else settled d (b # c # xs))"
| "settled d _ = d"

record light_ref =
  r_enabled :: bool
  r_invert :: bool
  r_hist :: "bool list"
  r_beep :: bool
  r_rate :: u16

definition taken :: "bool \<Rightarrow> bool \<Rightarrow> light_ref \<Rightarrow> light_ref" where
  "taken d reading r =
     (let dark = settled d (reading # r_hist r); r1 = r\<lparr>r_hist := reading # r_hist r\<rparr> in
      if dark = settled d (r_hist r) then r1 else r1\<lparr>r_beep := \<not> dark, r_rate := (if dark then 300 else 10)\<rparr>)"

fun ref_event :: "bool \<Rightarrow> light_ev \<Rightarrow> light_ref \<Rightarrow> light_ref" where
  "ref_event d (Period level) r = (if r_enabled r then taken d (if r_invert r then level else \<not> level) r else r)"
| "ref_event d (Enable e) r = r\<lparr>r_enabled := e\<rparr>"
| "ref_event d (Invert i) r = r\<lparr>r_invert := i\<rparr>"
| "ref_event d (Beep on) r = r\<lparr>r_beep := on\<rparr>"
| "ref_event d (Oled_Rate ms) r = r\<lparr>r_rate := max 10 ms\<rparr>"

fun sensor_only :: "light_ev \<Rightarrow> bool" where
  "sensor_only (Beep on) = False"
| "sensor_only (Oled_Rate ms) = False"
| "sensor_only _ = True"

definition run_len :: "bool \<Rightarrow> bool list \<Rightarrow> nat" where
  "run_len x xs = length (takeWhile ((=) x) xs)"

lemma run_len_Cons [simp]: "run_len x (y # xs) = (if x = y then Suc (run_len x xs) else 0)"
  by (simp add: run_len_def)

lemma run_len_Nil [simp]: "run_len x [] = 0"
  by (simp add: run_len_def)

lemma settled_Cons: "settled d (x # xs) = (if 3 \<le> run_len x (x # xs) then x else settled d xs)"
  by (cases xs; cases "tl xs") (auto split: list.splits)

lemma settled_run: "3 \<le> run_len x xs \<Longrightarrow> settled d xs = x"
  by (cases xs) (auto simp: settled_Cons split: if_splits)

definition light_inv :: "bool \<Rightarrow> light_ref \<Rightarrow> light_sys \<times> u8 \<times> u8 \<Rightarrow> bool" where
  "light_inv d r st \<longleftrightarrow> (case st of (s, dark_cnt, light_cnt) \<Rightarrow>
     dark_cnt = of_nat (run_len True (r_hist r)) \<and> light_cnt = of_nat (run_len False (r_hist r)) \<and>
     s_enabled (l_light s) = r_enabled r \<and> s_invert (l_light s) = r_invert r \<and>
     s_dark (l_light s) = settled d (r_hist r) \<and> s_beep_enabled (l_buz s) = r_beep r \<and> s_refresh_ms (l_ui s) = r_rate r)"

lemma apply_state_fields:
  "l_light (apply_state dark s) = (l_light s)\<lparr>s_dark := dark\<rparr>"
  "s_beep_enabled (l_buz (apply_state dark s)) = (\<not> dark)"
  "s_refresh_ms (l_ui (apply_state dark s)) = (if dark then 300 else 10)"
  by (simp_all add: apply_state_def notifier_beep_enable_def buz_set_def ui_oled_set_refresh_ms_def Let_def)

text \<open>While the state differs from a run, the run is shorter than three, so its counter has not wrapped.\<close>

lemma count_3:
  assumes "run_len x hist < 3"
  shows "(of_nat (run_len x hist) + 1 :: u8) \<ge> 3 \<longleftrightarrow> 3 \<le> Suc (run_len x hist)"
proof -
  have "unat (of_nat (run_len x hist) + 1 :: u8) = Suc (run_len x hist)"
    using assms unat_of_nat_less [of "Suc (run_len x hist)", where 'a = 8] by (simp add: add.commute)
  then show ?thesis
    by (simp add: word_le_nat_alt)
qed

lemma light_step_inv:
  assumes "light_inv d r (s, dc, lc)"
  shows "light_inv d (ref_event d (Period level) r) (light_step level (s, dc, lc))"
proof -
  have short: "s_dark (l_light s) \<noteq> x \<Longrightarrow> run_len x (r_hist r) < 3" for x
    using assms settled_run [of x "r_hist r" d] by (auto simp: light_inv_def not_less [symmetric])
  have zero: "\<not> (3 :: u8) \<le> 0"
    by (simp add: word_le_nat_alt)
  have reading: "read_do level (l_light s) = (if r_invert r then level else \<not> level)"
    using assms by (auto simp: light_inv_def read_do_def Let_def)
  show ?thesis
    using zero assms count_3 [OF short [of True]] count_3 [OF short [of False]]
    by (cases "read_do level (l_light s)"; cases "s_dark (l_light s)")
      (auto simp: light_inv_def light_step_def apply_state_fields settled_Cons taken_def reading [symmetric] Let_def add.commute)
qed

lemma light_event_inv:
  assumes "light_inv d r st"
  shows "light_inv d (ref_event d ev r) (light_event ev st)"
proof (cases ev)
  case (Period level)
  then show ?thesis
    using light_step_inv [of d r "fst st" "fst (snd st)" "snd (snd st)" level] assms by simp
qed (use assms in \<open>auto simp: light_inv_def sensor_light_enable_def sensor_light_set_invert_def notifier_beep_enable_def buz_set_def
    ui_oled_set_refresh_ms_def max_def Let_def split: prod.splits\<close>)

lemma light_events_inv: "light_inv d r st \<Longrightarrow> light_inv d (fold (ref_event d) evs r) (fold light_event evs st)"
  by (induction evs arbitrary: r st) (simp_all add: light_event_inv)

text \<open>Without the two commands the settings follow the state.\<close>

definition follows :: "bool \<Rightarrow> light_ref \<Rightarrow> bool" where
  "follows d r \<longleftrightarrow> r_beep r = (\<not> settled d (r_hist r)) \<and> r_rate r = (if settled d (r_hist r) then 300 else 10)"

lemma follows_events: "follows d r \<Longrightarrow> list_all sensor_only evs \<Longrightarrow> follows d (fold (ref_event d) evs r)"
proof (induction evs arbitrary: r)
  case (Cons ev evs)
  have "follows d (ref_event d ev r)"
    using Cons.prems by (cases ev) (auto simp: follows_def taken_def Let_def)
  then show ?case
    using Cons by simp
qed simp



end
