(* ===== verification/Stopwatch_Refine.thy ===== *)
theory Stopwatch_Refine
  imports Stopwatch
begin

text \<open>
  Correctness of the stopwatch service: every call keeps the well-formedness invariant and gives
  the mutex back; over any clock that provides the interface of \<^verbatim>\<open>Timebase\<close> the service refines
  the abstract stopwatch; both clocks of \<^verbatim>\<open>timebase.c\<close> are such clocks; and the sessions of an
  initialised device, in which calls, queries and the passing of time alternate, stay related to the
  abstract stopwatch.
\<close>

section \<open>Sessions\<close>

text \<open>
  A session starts with a successful \<open>stopwatch_init\<close> on a part with the cycle counter.  \<open>b\<close> is the cycle at which the time base
  stood at zero and \<open>c\<close> the cycle of its last reading.

  \<^item> \<open>pass\<close>: cycles go by, fewer than \<open>2^32\<close> since the last reading (59.65 seconds at 72 MHz), and fewer than \<open>2^64 / 10^6\<close>
    since the time base stood at zero (71 hours).
  \<^item> \<open>idle\<close>: while the stopwatch does not run, nothing reads the time base, and whole revolutions of the counter may go by; they are
    lost to the time base, so that its zero moves.
  \<^item> \<open>call\<close>: a call is made when the time base does not read zero.
  \<^item> \<open>query\<close>: the display asks for the total.
\<close>

definition now_us :: "nat \<Rightarrow> sw_sys \<Rightarrow> nat" where
  "now_us b s = (cycles (sw_hw s) - b) * 1000000 div unat (cpu_hz (tb s))"

definition later :: "nat \<Rightarrow> u32 \<Rightarrow> sw_sys \<Rightarrow> sw_sys" where
  "later k t s = s\<lparr>sw_hw := (sw_hw s)\<lparr>cycles := cycles (sw_hw s) + k, rt_tick := t\<rparr>\<rparr>"

definition reads_clock :: "sw_op \<Rightarrow> stopwatch_state_t \<Rightarrow> bool" where
  "reads_clock op st \<longleftrightarrow> (if op = Start then st \<noteq> STOPWATCH_STATE_RUNNING else st = STOPWATCH_STATE_RUNNING)"

inductive sw_session :: "nat \<Rightarrow> nat \<Rightarrow> sw_sys \<Rightarrow> stopwatch_spec \<Rightarrow> bool" where
  boot: "g_inited s = 0 \<Longrightarrow> tb s = timebase_reset_state \<Longrightarrow> cyccnt_present (sw_hw s) \<Longrightarrow> stopwatch_init s = (RT_EOK, s') \<Longrightarrow>
    sw_session (cycles (sw_hw s')) (cycles (sw_hw s')) s' spec_init"
| pass: "sw_session b c s a \<Longrightarrow> cycles (sw_hw s) + k - c < 2 ^ 32 \<Longrightarrow> (cycles (sw_hw s) + k - b) * 1000000 < 2 ^ 64 \<Longrightarrow>
    sw_session b c (later k t s) a"
| idle: "sw_session b c s a \<Longrightarrow> state (g_sw s) \<noteq> STOPWATCH_STATE_RUNNING \<Longrightarrow>
    sw_session (b + m * 2 ^ 32) (c + m * 2 ^ 32) (later (m * 2 ^ 32) t s) a"
| call: "sw_session b c s a \<Longrightarrow> 0 < now_us b s \<Longrightarrow>
    sw_session b (if reads_clock op (state (g_sw s)) then cycles (sw_hw s) else c) (sw_step op s) (spec_step op (now_us b s) a)"
| query: "sw_session b c s a \<Longrightarrow>
    sw_session b (if state (g_sw s) = STOPWATCH_STATE_RUNNING then cycles (sw_hw s) else c) (snd (stopwatch_get_total_ms s)) a"

text \<open>The simulation relation: the machine state is the abstract one, taken modulo the word sizes.\<close>

definition sw_rel :: "sw_sys \<Rightarrow> stopwatch_spec \<Rightarrow> bool" where
  "sw_rel s a \<longleftrightarrow> ready s \<and> laps_wf (g_sw s) \<and> state (g_sw s) = sp_state a \<and>
     accumulated_ms (g_sw s) = of_nat (sp_acc a) \<and> last_lap_total_ms (g_sw s) = of_nat (sp_last a) \<and>
     stored_laps (g_sw s) = map of_nat (last_n STOPWATCH_MAX_LAPS (sp_laps a)) \<and>
     (sp_state a = STOPWATCH_STATE_RUNNING \<longrightarrow>
        state_start_us (g_sw s) = of_nat (sp_start a) \<and> 0 < sp_start a \<and> sp_start a < 2 ^ 64)"

section \<open>Initialisation on first use\<close>

lemma init_cases:
  assumes "sw_wf s"
  obtains (ok) s0 where "ensure_init s = (RT_EOK, s0)" "ready s0" "sw_wf s0"
  | (nomem) s0 where "ensure_init s = (- RT_ENOMEM, s0)" "sw_wf s0" "g_inited s0 = 0"
proof (cases "g_inited s = 0")
  case False
  then show ?thesis using assms ok [of s] by (simp add: ensure_init_def ready_def sw_wf_def)
next
  case True
  show ?thesis
  proof (cases "mutex_available s")
    case True
    obtain r h t where t: "timebase_init (sw_hw s) (tb s) = (r, h, t)" by (metis prod_cases3)
    let ?s = "s\<lparr>g_sw := ctx_zero\<lparr>lock := Some 0\<rparr>, sw_hw := h, tb := t, g_inited := 1\<rparr>"
    have "ensure_init s = (RT_EOK, ?s)"
      using True \<open>g_inited s = 0\<close> by (simp add: ensure_init_def stopwatch_init_def t ctx_zero_def)
    then show ?thesis
      using ok by (simp add: ready_def sw_wf_def laps_wf_def ctx_zero_def)
  next
    case False
    then show ?thesis
      using nomem \<open>g_inited s = 0\<close>
      by (simp add: ensure_init_def stopwatch_init_def sw_wf_def ctx_zero_def)
  qed
qed

lemma via_init:
  assumes "ensure_init s = (RT_EOK, s0)" and "ready s0"
  shows "stopwatch_start s = stopwatch_start s0" "stopwatch_stop s = stopwatch_stop s0"
    "stopwatch_reset s = stopwatch_reset s0" "stopwatch_lap s = stopwatch_lap s0"
  using assms
  by (simp_all add: stopwatch_start_def stopwatch_stop_def stopwatch_reset_def stopwatch_lap_def)

lemma init_failed:
  assumes "ensure_init s = (- RT_ENOMEM, s0)"
  shows "stopwatch_start s = s0" "stopwatch_stop s = s0" "stopwatch_reset s = s0"
    "stopwatch_lap s = (- RT_ENOMEM, 0, s0)"
  using assms
  by (simp_all add: stopwatch_start_def stopwatch_stop_def stopwatch_reset_def stopwatch_lap_def)

section \<open>Every call keeps the invariant\<close>

lemma ready_wf_step:
  assumes "ready s" and "sw_wf s"
  shows "sw_wf (sw_step op s) \<and> ready (sw_step op s)"
proof -
  have l: "laps_wf (g_sw s)" and k: "lock (g_sw s) = Some 0" and i: "g_inited s \<noteq> 0"
    and u: "state (g_sw s) \<noteq> STOPWATCH_STATE_RUNNING \<longrightarrow> state_start_us (g_sw s) = 0"
    using assms by (auto simp: ready_def sw_wf_def)
  note lw = lap_history.push_inv [OF l]
  show ?thesis
  proof (cases op)
    case Lap
    have "g_inited (snd (get_now_total_ms_unsafe s)) \<noteq> 0" using i by simp
    then show ?thesis
      using Lap u k lw by (simp add: lap_ready assms sw_wf_def ready_def split_beta Let_def)
  next
    case ClearLaps
    then show ?thesis
      using u k i by (simp add: clear_ready assms sw_wf_def ready_def split_beta Let_def laps_wf_def)
  qed (use l k i u in \<open>simp_all add: start_ready stop_ready reset_ready assms sw_wf_def ready_def Let_def
      laps_wf_def\<close>)
qed

text \<open>C4: every state-changing call of the stopwatch service, on any state and on every path
  (initialisation on first use, its failure, early returns), keeps the well-formedness
  invariant: lap array of 20 cells, count within it, unused cells zero, mutex free again.\<close>

theorem sw_step_wf: "sw_wf s \<Longrightarrow> sw_wf (sw_step op s)"
proof (cases "g_inited s = 0 \<and> op = ClearLaps")
  case True
  moreover assume "sw_wf s"
  ultimately show ?thesis by (simp add: stopwatch_clear_laps_def)
next
  case False
  assume wf: "sw_wf s"
  show ?thesis
  proof (cases "op = ClearLaps")
    case True
    with False wf have "ready s" by (simp add: ready_def sw_wf_def)
    then show ?thesis using ready_wf_step wf by blast
  next
    case nc: False
    from wf show ?thesis
    proof (cases rule: init_cases)
      case (ok s0)
      then have "sw_step op s = sw_step op s0" using nc by (cases op) (simp_all add: via_init [OF ok(1,2)])
      with ready_wf_step [OF ok(2,3), of op] show ?thesis by simp
    next
      case (nomem s0)
      then show ?thesis using nc by (cases op) (simp_all add: init_failed [OF nomem(1)])
    qed
  qed
qed

section \<open>The service refines the abstract stopwatch, over any clock\<close>

locale stopwatch_clock = us_clock timebase_get_us tracks
  for tracks :: "hw \<Rightarrow> timebase \<Rightarrow> nat \<Rightarrow> bool"
begin

lemma total_rel:
  assumes "sw_rel s a" and "spec_ok n a" and "tracks (sw_hw s) (tb s) n"
  shows "fst (get_now_total_ms_unsafe s) = of_nat (sp_total n a)"
proof (cases "sp_state a = STOPWATCH_STATE_RUNNING")
  case False
  then show ?thesis
    using assms(1) by (simp add: sw_rel_def get_now_total_ms_unsafe_def sp_total_def)
next
  case True
  then have st: "state (g_sw s) = STOPWATCH_STATE_RUNNING"
    and us: "state_start_us (g_sw s) = of_nat (sp_start a)"
    and bd: "0 < sp_start a" "sp_start a < 2 ^ 64" and le: "sp_start a \<le> n"
    and acc: "accumulated_ms (g_sw s) = of_nat (sp_acc a)"
    using assms by (auto simp: sw_rel_def spec_ok_def)
  have "(of_nat (sp_start a) :: u64) \<noteq> 0"
    using bd unat_of_nat_less [where 'a = 64, of "sp_start a"] by (auto simp del: of_nat_eq_0_iff)
  then have "fst (get_now_total_ms_unsafe s) = of_nat (sp_acc a) +
      ucast ((fst (timebase_get_us (sw_hw s) (tb s)) - of_nat (sp_start a)) div 1000)"
    using st us acc by (simp add: get_now_total_ms_unsafe_def split_beta Let_def)
  also have "\<dots> = of_nat (sp_acc a) + of_nat ((n - sp_start a) div 1000)"
    by (simp only: elapsed_ms [OF assms(3) le])
  finally show ?thesis using True by (simp add: sp_total_def)
qed

lemma total_tracks:
  "tracks (sw_hw s) (tb s) n \<Longrightarrow> tracks (sw_hw s) (tb (snd (get_now_total_ms_unsafe s))) n"
  by (simp add: get_now_total_ms_unsafe_def split_beta Let_def get_us_tracks)

lemma step_tracks:
  assumes "ready s" and "tracks (sw_hw s) (tb s) n"
  shows "tracks (sw_hw (sw_step op s)) (tb (sw_step op s)) n"
  using assms total_tracks [OF assms(2)]
  by (cases op) (simp_all add: sw_ready_simps split_beta Let_def get_us_tracks)

lemma stored_laps_frame [simp]:
  "stored_laps (g\<lparr>lock := l\<rparr>) = stored_laps g" "stored_laps (g\<lparr>state := st\<rparr>) = stored_laps g"
  "stored_laps (g\<lparr>state_start_tick := t\<rparr>) = stored_laps g"
  "stored_laps (g\<lparr>state_start_us := u\<rparr>) = stored_laps g"
  "stored_laps (g\<lparr>accumulated_ms := m\<rparr>) = stored_laps g"
  "stored_laps (g\<lparr>last_lap_total_ms := m\<rparr>) = stored_laps g"
  by (simp_all add: stored_laps_def)

lemma lap_rel:
  assumes "sw_rel s a" and "spec_ok n a" and "tracks (sw_hw s) (tb s) n"
  shows "sw_rel (sw_step Lap s) (spec_step Lap n a)"
proof -
  let ?t = "of_nat (sp_total n a) :: u32" and ?d = "sp_total n a - sp_last a"
  have r: "ready s" and wf: "laps_wf (g_sw s)"
    and last: "last_lap_total_ms (g_sw s) = of_nat (sp_last a)"
    and laps: "stored_laps (g_sw s) = map of_nat (last_n STOPWATCH_MAX_LAPS (sp_laps a))"
    using assms(1) by (auto simp: sw_rel_def)
  have d: "?t - of_nat (sp_last a) = of_nat ?d"
    using assms(2) by (simp add: spec_ok_def of_nat_diff)
  let ?g = "(store_lap (of_nat ?d) (g_sw s))\<lparr>last_lap_total_ms := ?t\<rparr>"
  have g: "g_sw (sw_step Lap s) = ?g"
    by (simp add: lap_ready [OF r] total_rel [OF assms] last split_beta Let_def d)
  have "stored_laps ?g = last_n STOPWATCH_MAX_LAPS (map of_nat (last_n STOPWATCH_MAX_LAPS (sp_laps a)) @ [of_nat ?d])"
    using lap_history.push_contents [OF wf] by (simp add: laps)
  also have "\<dots> = map of_nat (last_n STOPWATCH_MAX_LAPS (sp_laps a @ [?d]))"
    using last_n_last_n_snoc [of STOPWATCH_MAX_LAPS "map of_nat (sp_laps a)" "of_nat ?d :: u32"]
    by (simp add: map_last_n)
  finally have sl: "stored_laps ?g = map of_nat (last_n STOPWATCH_MAX_LAPS (sp_laps a @ [?d]))" .
  have "ready (sw_step Lap s)"
    using r by (simp add: ready_def lap_ready split_beta Let_def)
  then show ?thesis
    using assms(1) lap_history.push_inv [OF wf] sl by (simp only: sw_rel_def g) (simp add: sw_rel_def)
qed

lemma step_rel:
  assumes "sw_rel s a" and "spec_ok n a" and "tracks (sw_hw s) (tb s) n" and "0 < n"
  shows "sw_rel (sw_step op s) (spec_step op n a)"
proof -
  have r: "ready s" using assms(1) by (simp add: sw_rel_def)
  note v = get_us_value [OF assms(3)] and b = tracks_bound [OF assms(3)]
    and t = total_rel [OF assms(1-3)]
  show ?thesis
  proof (cases op)
    case Start
    then show ?thesis using assms(1,4) b r
      by (auto simp: sw_rel_def start_ready ready_def v)
  next
    case Stop
    have "sp_state a = STOPWATCH_STATE_RUNNING \<Longrightarrow> state_start_us (g_sw s) \<noteq> 0"
      using assms(1) unat_of_nat_less [where 'a = 64, of "sp_start a"]
      by (auto simp: sw_rel_def simp del: of_nat_eq_0_iff)
    with Stop t show ?thesis using assms(1) r
      by (auto simp: sw_rel_def stop_ready ready_def)
  next
    case Reset
    then show ?thesis using assms(1,4) b r
      by (auto simp: sw_rel_def reset_ready ready_def v spec_init_def laps_wf_def stored_laps_def Let_def)
  next
    case Lap
    then show ?thesis using lap_rel [OF assms(1-3)] by simp
  next
    case ClearLaps
    then show ?thesis using assms(1) r t
      by (auto simp: sw_rel_def clear_ready ready_def laps_wf_def stored_laps_def split_beta Let_def)
  qed
qed

end

interpretation dwt_sw: stopwatch_clock cyc_tracks ..
interpretation tick_sw: stopwatch_clock tick_tracks ..

section \<open>Sessions stay related\<close>

lemma boot_state:
  assumes "g_inited s = 0" "tb s = timebase_reset_state" "cyccnt_present (sw_hw s)" "stopwatch_init s = (RT_EOK, s')"
  shows "sw_rel s' spec_init" "cyc_tracks_at (cycles (sw_hw s')) (cycles (sw_hw s')) (sw_hw s') (tb s') 0"
proof -
  have "(CTRL (sw_hw s) OR 1) AND 1 = 1"
    by (simp add: word_ao_absorbs(2) word_bw_comms)
  then show "sw_rel s' spec_init" "cyc_tracks_at (cycles (sw_hw s')) (cycles (sw_hw s')) (sw_hw s') (tb s') 0"
    using assms
    by (auto simp: stopwatch_init_def sw_rel_def ready_def spec_init_def ctx_zero_def laps_wf_def stored_laps_def Let_def cyc_tracks_at_def
        timebase_init_def dwt_init_def timebase_reset_state_def CYCCNT_def split: prod.splits if_splits)
qed

text \<open>Which reading was the last one.\<close>

lemma total_at:
  assumes "cyc_tracks_at b c (sw_hw s) (tb s) n" "sw_rel s a"
  shows "cyc_tracks_at b (if state (g_sw s) = STOPWATCH_STATE_RUNNING then cycles (sw_hw s) else c) (sw_hw s)
    (tb (snd (get_now_total_ms_unsafe s))) n"
proof -
  have "state (g_sw s) = STOPWATCH_STATE_RUNNING \<Longrightarrow> state_start_us (g_sw s) \<noteq> 0"
    using assms(2) unat_of_nat_less [where 'a = 64, of "sp_start a"] by (auto simp: sw_rel_def simp del: of_nat_eq_0_iff)
  then show ?thesis
    using assms(1) get_us_cyc_tracks [OF assms(1)] by (simp add: get_now_total_ms_unsafe_def split_beta Let_def)
qed

lemma step_at:
  assumes "cyc_tracks_at b c (sw_hw s) (tb s) n" "sw_rel s a"
  shows "cyc_tracks_at b (if reads_clock op (state (g_sw s)) then cycles (sw_hw s) else c) (sw_hw (sw_step op s)) (tb (sw_step op s)) n"
proof -
  have r: "ready s"
    using assms(2) by (simp add: sw_rel_def)
  have "state (g_sw s) = STOPWATCH_STATE_RUNNING \<Longrightarrow> state_start_us (g_sw s) \<noteq> 0"
    using assms(2) unat_of_nat_less [where 'a = 64, of "sp_start a"] by (auto simp: sw_rel_def simp del: of_nat_eq_0_iff)
  then show ?thesis
    using assms(1) get_us_cyc_tracks [OF assms(1)] total_at [OF assms]
    by (cases op) (simp_all add: sw_ready_simps r reads_clock_def split_beta Let_def)
qed

lemma now_of: "cyc_tracks_at b c (sw_hw s) (tb s) n \<Longrightarrow> n = now_us b s"
  by (simp add: cyc_tracks_at_def now_us_def)

lemma later_at:
  assumes "cyc_tracks_at b c (sw_hw s) (tb s) n" "cycles (sw_hw s) + k - c < 2 ^ 32" "(cycles (sw_hw s) + k - b) * 1000000 < 2 ^ 64"
  shows "cyc_tracks_at b c (sw_hw (later k t s)) (tb (later k t s)) (now_us b (later k t s))" "n \<le> now_us b (later k t s)"
proof -
  show "cyc_tracks_at b c (sw_hw (later k t s)) (tb (later k t s)) (now_us b (later k t s))"
    using assms by (auto simp: cyc_tracks_at_def later_def now_us_def)
  show "n \<le> now_us b (later k t s)"
    using now_of [OF assms(1)] by (simp add: now_us_def later_def div_le_mono)
qed

lemma idle_at:
  assumes "cyc_tracks_at b c (sw_hw s) (tb s) n"
  shows "cyc_tracks_at (b + m * 2 ^ 32) (c + m * 2 ^ 32) (sw_hw (later (m * 2 ^ 32) t s)) (tb (later (m * 2 ^ 32) t s)) n"
proof -
  have "(of_nat (c + m * 2 ^ 32) :: u32) = of_nat c"
    by (simp add: word_eq_of_nat_mod del: of_nat_add of_nat_mult)
  then show ?thesis
    using assms by (auto simp: cyc_tracks_at_def later_def)
qed

lemma later_rel: "sw_rel (later k t s) a = sw_rel s a"
  by (simp add: sw_rel_def later_def ready_def)

lemma session_inv:
  assumes "sw_session b c s a"
  shows "sw_rel s a \<and> spec_ok (now_us b s) a \<and> cyc_tracks_at b c (sw_hw s) (tb s) (now_us b s)"
  using assms
proof (induction rule: sw_session.induct)
  case (boot s s')
  then show ?case
    using boot_state [OF boot] now_of [OF boot_state(2) [OF boot]] by simp
next
  case (pass b c s a k t)
  then show ?case
    using later_at [of b c s "now_us b s" k t] spec_ok_later by (auto simp: later_rel)
next
  case (idle b c s a m t)
  have at: "cyc_tracks_at (b + m * 2 ^ 32) (c + m * 2 ^ 32) (sw_hw (later (m * 2 ^ 32) t s)) (tb (later (m * 2 ^ 32) t s)) (now_us b s)"
    using idle.IH idle_at by blast
  from now_of [OF this] show ?case
    using idle.IH at by (simp add: later_rel)
next
  case (call b c s a op)
  let ?s = "sw_step op s"
  have at: "cyc_tracks_at b (if reads_clock op (state (g_sw s)) then cycles (sw_hw s) else c) (sw_hw ?s) (tb ?s) (now_us b s)"
    using call.IH step_at by blast
  have "sw_rel ?s (spec_step op (now_us b s) a)"
    using call.IH call.hyps dwt_sw.step_rel [of s a "now_us b s" op] by (auto simp: cyc_tracks_def)
  then show ?case
    using at now_of [OF at] call.IH spec_ok_step by simp
next
  case (query b c s a)
  let ?s = "snd (stopwatch_get_total_ms s)"
  have r: "stopwatch_get_total_ms s = get_now_total_ms_unsafe s"
    using query.IH get_total_ready by (simp add: sw_rel_def)
  have at: "cyc_tracks_at b (if state (g_sw s) = STOPWATCH_STATE_RUNNING then cycles (sw_hw s) else c) (sw_hw ?s) (tb ?s) (now_us b s)"
    using query.IH total_at [of b c s "now_us b s" a] by (simp add: r)
  have "sw_rel ?s a"
    using query.IH by (simp add: r sw_rel_def ready_def)
  then show ?case
    using at now_of [OF at] query.IH by simp
qed

lemma session_total:
  assumes "sw_session b c s a"
  shows "stopwatch_get_total_ms s = get_now_total_ms_unsafe s" "fst (stopwatch_get_total_ms s) = of_nat (sp_total (now_us b s) a)"
  using session_inv [OF assms] dwt_sw.total_rel [of s a "now_us b s"] by (auto simp: get_total_ready sw_rel_def cyc_tracks_def)

lemma stored_lap_nth:
  assumes "laps_wf g" and "index < lap_count g"
  shows "lap_durations_ms g ! unat index = stored_laps g ! unat index"
  using assms by (simp add: stored_laps_def word_less_nat_alt)

lemma length_stored: "laps_wf g \<Longrightarrow> length (stored_laps g) = unat (lap_count g)"
  by (simp add: stored_laps_def laps_wf_def)

definition demo_hw :: hw where
  "demo_hw = \<lparr>cycles = 0, rt_tick = 0, SystemCoreClock = 72000000, DEMCR = 0, CTRL = 0,
     cyccnt_present = True, access_latency = 10\<rparr>"

definition demo_sys :: sw_sys where
  "demo_sys = \<lparr>g_sw = ctx_zero, g_inited = 0, tb = timebase_reset_state, sw_hw = demo_hw,
     mutex_available = True\<rparr>"

text \<open>The boot of a 72 MHz part, and a tenth of a second, two minutes without a call, a start and another second later.\<close>

lemma demo_boot: "sw_session 10 10 (snd (stopwatch_init demo_sys)) spec_init"
proof -
  have h: "cycles (sw_hw (snd (stopwatch_init demo_sys))) = 10"
    by (simp add: stopwatch_init_def demo_sys_def demo_hw_def timebase_init_def dwt_init_def split_beta Let_def)
  have "stopwatch_init demo_sys = (RT_EOK, snd (stopwatch_init demo_sys))"
    by (simp add: stopwatch_init_def demo_sys_def split_beta Let_def)
  moreover have "g_inited demo_sys = 0" "tb demo_sys = timebase_reset_state" "cyccnt_present (sw_hw demo_sys)"
    by (simp_all add: demo_sys_def demo_hw_def)
  ultimately show ?thesis
    using sw_session.boot [of demo_sys "snd (stopwatch_init demo_sys)"] h by metis
qed

definition demo_later :: sw_sys where
  "demo_later = later (2 * 2 ^ 32) 120000 (later 7200000 100 (snd (stopwatch_init demo_sys)))"

lemmas demo_defs = demo_later_def later_def stopwatch_init_def demo_sys_def demo_hw_def timebase_init_def dwt_init_def timebase_reset_state_def
  ctx_zero_def now_us_def

lemma demo_wait: "sw_session 8589934602 8589934602 demo_later spec_init" "now_us 8589934602 demo_later = 100000"
proof -
  let ?s = "snd (stopwatch_init demo_sys)"
  have f: "cycles (sw_hw ?s) = 10" "state (g_sw ?s) = STOPWATCH_STATE_IDLE"
    by (simp_all add: demo_defs split_beta Let_def)
  have "sw_session 10 10 (later 7200000 100 ?s) spec_init"
    by (rule sw_session.pass [OF demo_boot]) (simp_all add: f)
  from sw_session.idle [OF this, of 2 120000] show "sw_session 8589934602 8589934602 demo_later spec_init"
    by (simp add: demo_later_def later_def f)
  show "now_us 8589934602 demo_later = 100000"
    by (simp add: demo_defs split_beta Let_def)
qed

definition demo_running :: sw_sys where
  "demo_running = later 72000000 121000 (sw_step Start demo_later)"

lemma demo_running_session:
  "\<exists>c. sw_session 8589934602 c demo_running (spec_step Start 100000 spec_init)" "now_us 8589934602 demo_running = 1100000"
proof -
  have r: "ready demo_later" "cycles (sw_hw demo_later) = 8597134602" "cpu_hz (tb demo_later) = 72000000"
    "state (g_sw demo_later) = STOPWATCH_STATE_IDLE"
    by (simp_all add: demo_defs ready_def split_beta Let_def)
  have t: "cpu_hz (snd (timebase_get_us h u)) = cpu_hz u" for h u
    by (simp add: timebase_get_us_def Let_def)
  have "sw_session 8589934602 8597134602 (sw_step Start demo_later) (spec_step Start 100000 spec_init)"
    using sw_session.call [OF demo_wait(1), of Start] by (simp only: demo_wait(2) r reads_clock_def) simp
  then have "sw_session 8589934602 8597134602 demo_running (spec_step Start 100000 spec_init)"
    unfolding demo_running_def by (rule sw_session.pass) (simp_all add: start_ready r)
  then show "\<exists>c. sw_session 8589934602 c demo_running (spec_step Start 100000 spec_init)"
    by blast
  show "now_us 8589934602 demo_running = 1100000"
    by (simp add: now_us_def demo_running_def later_def start_ready r t)
qed

section \<open>Properties\<close>

theorem sw_step_wf_witness: "sw_wf (sw_step Start demo_sys)"
  by (rule sw_step_wf) (simp add: sw_wf_def demo_sys_def ctx_zero_def)

text \<open>C2: refinement.  On a part with the cycle counter, as long as the time base is read at least every \<open>2^32\<close> cycles while the
  stopwatch runs (it may stand still for any time), it counts fewer than 71 hours, and calls are made when it does not read zero: after any
  calls, queries and waits the machine state of the service is the state of the abstract stopwatch over
  real time, reduced to the machine's word sizes, and the laps recorded since the last clearing add up to the time between that
  clearing and the last lap.\<close>

theorem stopwatch_refines:
  assumes "sw_session b c s a"
  shows "sw_rel s a \<and> sp_base a + sum_list (sp_laps a) = sp_last a \<and> sp_last a \<le> sp_total (now_us b s) a"
  using session_inv [OF assms] by (simp add: spec_ok_def)

theorem stopwatch_refines_witness:
  "sw_rel demo_running (spec_step Start 100000 spec_init)"
  using stopwatch_refines demo_running_session(1) by blast

text \<open>C3: under the conditions of a session (cycle counter; read every \<open>2^32\<close> cycles while running; less than 71 hours; state-changing calls when it
  does not read zero) \<open>stopwatch_get_total_ms\<close> returns the milliseconds of the finished segments plus those
  of the running one, as the abstract stopwatch counts them in real time, modulo \<open>2^32\<close>, and reading it
  does not disturb the stopwatch.\<close>

theorem get_total_ms_correct:
  assumes "sw_session b c s a"
  shows "fst (stopwatch_get_total_ms s) = of_nat (sp_total (now_us b s) a) \<and>
    g_sw (snd (stopwatch_get_total_ms s)) = g_sw s"
  using session_total [OF assms] by simp

theorem get_total_ms_correct_witness:
  "fst (stopwatch_get_total_ms demo_running) = 1000"
proof -
  obtain c where "sw_session 8589934602 c demo_running (spec_step Start 100000 spec_init)"
    using demo_running_session(1) by blast
  from get_total_ms_correct [OF this] show ?thesis
    by (simp add: demo_running_session(2) sp_total_def spec_init_def)
qed

text \<open>Query: \<open>stopwatch_get_lap_ms\<close> returns the requested one of the newest twenty laps, oldest
  first, and zero past the last of them; the count it is checked against is the number kept.\<close>

theorem get_lap_ms_correct:
  assumes "sw_session b c s a"
  shows "fst (stopwatch_get_lap_ms i s) =
      (if unat i < length (last_n STOPWATCH_MAX_LAPS (sp_laps a))
       then of_nat (last_n STOPWATCH_MAX_LAPS (sp_laps a) ! unat i) else 0) \<and>
    unat (fst (stopwatch_get_lap_count s)) = min STOPWATCH_MAX_LAPS (length (sp_laps a))"
proof -
  have r: "ready s" and wf: "laps_wf (g_sw s)"
    and laps: "stored_laps (g_sw s) = map of_nat (last_n STOPWATCH_MAX_LAPS (sp_laps a))"
    using session_inv [OF assms] by (auto simp: sw_rel_def)
  have len: "unat (lap_count (g_sw s)) = min STOPWATCH_MAX_LAPS (length (sp_laps a))"
    using length_stored [OF wf] by (simp add: laps)
  then show ?thesis
    using r stored_lap_nth [OF wf, of i]
    by (auto simp: stopwatch_get_lap_ms_def stopwatch_get_lap_count_def ready_def Let_def
        sw_lock_defs laps word_less_nat_alt)
qed

theorem get_lap_ms_correct_witness:
  "fst (stopwatch_get_lap_ms 0 (sw_step Lap demo_running)) = 1000 \<and>
   fst (stopwatch_get_lap_count (sw_step Lap demo_running)) = 1"
proof -
  obtain c where "sw_session 8589934602 c demo_running (spec_step Start 100000 spec_init)"
    using demo_running_session(1) by blast
  from get_lap_ms_correct [OF sw_session.call [OF this, of Lap], of 0]
  have "unat (fst (stopwatch_get_lap_count (sw_step Lap demo_running))) = unat (1 :: u16)"
    "fst (stopwatch_get_lap_ms 0 (sw_step Lap demo_running)) = 1000"
    by (simp_all add: demo_running_session(2) spec_init_def sp_total_def last_n_def)
  then show ?thesis by (simp only: word_unat_eq_iff)
qed

text \<open>C5: \<open>stopwatch_lap\<close> returns the time since the previous lap (or clearing), and after any
  sequence of recorded laps the array holds exactly the newest twenty, in order.\<close>

theorem lap_records_newest:
  "laps_wf g \<Longrightarrow> stored_laps (fold store_lap vs g) = last_n STOPWATCH_MAX_LAPS (stored_laps g @ vs)"
  using lap_history.fold_push_contents [of g vs] length_stored [of g] by (simp add: laps_wf_def)

theorem lap_records_newest_witness:
  "stored_laps (fold store_lap (map of_nat [1..<26]) ctx_zero) = map of_nat [6..<26]"
proof -
  have "laps_wf ctx_zero" by (simp add: laps_wf_def ctx_zero_def)
  from lap_records_newest [OF this, of "map of_nat [1..<26]"] show ?thesis
    by (simp add: last_n_def stored_laps_def ctx_zero_def drop_map)
qed

text \<open>When the kernel has no memory for the mutex, the first call fails cleanly: every
  state-changing call leaves the service uninitialised and idle, \<open>stopwatch_lap\<close> reports
  \<open>-RT_ENOMEM\<close>, and the queries answer with their defaults.\<close>

theorem init_nomem:
  assumes "g_inited s = 0" and "\<not> mutex_available s"
  shows "fst (stopwatch_lap s) = - RT_ENOMEM \<and> g_inited (sw_step op s) = 0 \<and>
    fst (stopwatch_get_state (sw_step op s)) = STOPWATCH_STATE_IDLE \<and>
    fst (stopwatch_get_total_ms (sw_step op s)) = 0 \<and>
    fst (stopwatch_get_lap_count (sw_step op s)) = 0"
proof -
  have e: "ensure_init s = (- RT_ENOMEM, s\<lparr>g_sw := ctx_zero\<rparr>)"
    using assms by (simp add: ensure_init_def stopwatch_init_def ctx_zero_def)
  have i: "g_inited (sw_step op s) = 0"
    using assms(1) by (cases op) (simp_all add: init_failed [OF e] stopwatch_clear_laps_def)
  then show ?thesis
    by (simp add: init_failed [OF e] stopwatch_get_state_def stopwatch_get_total_ms_def
        stopwatch_get_lap_count_def)
qed

theorem init_nomem_witness:
  "fst (stopwatch_lap (demo_sys\<lparr>mutex_available := False\<rparr>)) = - RT_ENOMEM \<and>
   g_inited (sw_step Start (demo_sys\<lparr>mutex_available := False\<rparr>)) = 0"
  using init_nomem [of "demo_sys\<lparr>mutex_available := False\<rparr>" Start] by (simp add: demo_sys_def)

text \<open>Pausing and resuming loses nothing and adds nothing: stopping a running segment,
  waiting, and starting again leaves the total exactly where the stop put it.\<close>

theorem stop_wait_start_total:
  assumes "sw_session b c s a" "sw_session b' c' ((sw_step Stop s)\<lparr>sw_hw := h\<rparr>) (spec_step Stop (now_us b s) a)"
    and "0 < now_us b' ((sw_step Stop s)\<lparr>sw_hw := h\<rparr>)"
  shows "fst (stopwatch_get_total_ms (sw_step Start ((sw_step Stop s)\<lparr>sw_hw := h\<rparr>))) =
    fst (stopwatch_get_total_ms s)"
proof -
  let ?s = "(sw_step Stop s)\<lparr>sw_hw := h\<rparr>" and ?a = "spec_step Stop (now_us b s) a"
  note s3 = sw_session.call [OF assms(2,3), of Start]
  have "now_us b' (sw_step Start ?s) = now_us b' ?s"
    using session_inv [OF assms(2)] by (auto simp: sw_rel_def start_ready now_us_def timebase_get_us_def Let_def)
  then have "fst (stopwatch_get_total_ms (sw_step Start ?s)) = of_nat (sp_total (now_us b' ?s) (spec_step Start (now_us b' ?s) ?a))"
    using session_total(2) [OF s3] by simp
  also have "sp_total (now_us b' ?s) (spec_step Start (now_us b' ?s) ?a) = sp_total (now_us b s) a"
    by (simp add: sp_total_def)
  finally show ?thesis
    using session_total(2) [OF assms(1)] by simp
qed

section \<open>Limits of the time base\<close>

text \<open>C6: what the time base reads, exactly.  With \<open>e\<close> cycles since it stood at zero, the last reading fewer than \<open>2^32\<close> cycles
  ago, it reads \<open>(e * 10^6 mod 2^64) div cpu_hz\<close> microseconds: the 64-bit product wraps, so that the reading is the elapsed time if and
  only if \<open>e * 10^6 < 2^64\<close>, and too small ever after (from 18446744073710 cycles on, 71 hours at 72 MHz).\<close>

theorem timebase_reading:
  assumes "dwt_ok u \<noteq> 0" "cpu_hz u \<noteq> 0" "b \<le> c" "c \<le> cycles h" "cycles h - c < 2 ^ 32"
    and "last_cyc u = of_nat c" "total_cyc u = of_nat (c - b)"
  defines "e \<equiv> cycles h - b"
  shows "unat (fst (timebase_get_us h u)) = (e * 1000000 mod 2 ^ 64) div unat (cpu_hz u) \<and>
    (unat (fst (timebase_get_us h u)) = e * 1000000 div unat (cpu_hz u) \<longleftrightarrow> e * 1000000 < 2 ^ 64)"
proof -
  have "total_cyc (snd (timebase_get_us h u)) = of_nat (c - b) + of_nat (cycles h - c)"
    using assms by (simp add: timebase_get_us_def Let_def delta_is_elapsed)
  also have "\<dots> = of_nat e"
    using assms(3,4) by (simp add: e_def flip: of_nat_add)
  finally have "fst (timebase_get_us h u) = of_nat (e * 1000000) div ucast (cpu_hz u)"
    using assms(1) by (simp add: timebase_get_us_def Let_def del: distrib_right_numeral)
  moreover have "unat (ucast (cpu_hz u) :: u64) = unat (cpu_hz u)"
    by (simp only: ucast_u64_eq unat_of_nat) (use unat_u32_less [of "cpu_hz u"] in simp)
  ultimately have r: "unat (fst (timebase_get_us h u)) = (e * 1000000 mod 2 ^ 64) div unat (cpu_hz u)"
    by (simp add: unat_div unat_of_nat del: of_nat_mult)
  have hz: "0 < unat (cpu_hz u)" "unat (cpu_hz u) < 2 ^ 32"
    using assms(2) unat_u32_less [of "cpu_hz u"] by (simp_all add: unat_gt_0)
  have "(e * 1000000 mod 2 ^ 64) div unat (cpu_hz u) < e * 1000000 div unat (cpu_hz u)" if "\<not> e * 1000000 < 2 ^ 64"
  proof -
    have "e * 1000000 mod 2 ^ 64 + unat (cpu_hz u) \<le> e * 1000000"
      using that hz(2) mod_less_divisor [of "2 ^ 64" "e * 1000000"] by (simp add: mod_if [of "e * 1000000"])
    then have "(e * 1000000 mod 2 ^ 64 + unat (cpu_hz u)) div unat (cpu_hz u) \<le> e * 1000000 div unat (cpu_hz u)"
      by (rule div_le_mono)
    then show ?thesis
      using div_add_self2 [of "unat (cpu_hz u)" "e * 1000000 mod 2 ^ 64"] hz(1) by linarith
  qed
  then show ?thesis
    using r by (cases "e * 1000000 < 2 ^ 64") auto
qed

theorem timebase_reading_witness:
  "unat (fst (timebase_get_us (demo_hw\<lparr>cycles := 18446744073710\<rparr>)
     \<lparr>cpu_hz = 72000000, dwt_ok = 1, last_cyc = of_nat 18446744073709, total_cyc = of_nat 18446744073709\<rparr>)) = 0"
  using timebase_reading [of "\<lparr>cpu_hz = 72000000, dwt_ok = 1, last_cyc = of_nat 18446744073709, total_cyc = of_nat 18446744073709\<rparr>" 0
      18446744073709 "demo_hw\<lparr>cycles := 18446744073710\<rparr>"] by simp

text \<open>If nothing reads the time base for a multiple of \<open>2^32\<close> cycles (59.65 seconds at
  72 MHz), that time is lost: the next reading does not move.\<close>

theorem unread_gap_is_lost:
  assumes "dwt_ok t \<noteq> 0" and "last_cyc t = CYCCNT h"
  shows "timebase_get_us (h\<lparr>cycles := cycles h + k * 2 ^ 32\<rparr>) t = timebase_get_us h t"
proof -
  have "CYCCNT (h\<lparr>cycles := cycles h + k * 2 ^ 32\<rparr>) = CYCCNT h"
    by (simp add: CYCCNT_def word_eq_of_nat_mod del: of_nat_add of_nat_mult)
  then show ?thesis using assms by (simp add: timebase_get_us_def Let_def)
qed

theorem unread_gap_is_lost_witness:
  "timebase_get_us (demo_hw\<lparr>cycles := 2 ^ 32\<rparr>) (timebase_reset_state\<lparr>dwt_ok := 1\<rparr>) =
   timebase_get_us demo_hw (timebase_reset_state\<lparr>dwt_ok := 1\<rparr>)"
  using unread_gap_is_lost [of "timebase_reset_state\<lparr>dwt_ok := 1\<rparr>" demo_hw 1]
  by (simp add: timebase_reset_state_def demo_hw_def CYCCNT_def)

text \<open>The start time 0 doubles as "not started", so a segment started while the time base
  still reads 0 is never counted, however long it runs.\<close>

theorem start_at_zero_is_lost:
  assumes "ready s" and "state (g_sw s) \<noteq> STOPWATCH_STATE_RUNNING"
    and "fst (timebase_get_us (sw_hw s) (tb s)) = 0"
  shows "accumulated_ms (g_sw (sw_step Stop ((sw_step Start s)\<lparr>sw_hw := h\<rparr>))) =
    accumulated_ms (g_sw s)"
proof -
  have "ready ((sw_step Start s)\<lparr>sw_hw := h\<rparr>)"
    using assms by (simp add: start_ready ready_def)
  then show ?thesis using assms by (simp add: stop_ready start_ready)
qed

theorem start_at_zero_is_lost_witness:
  "accumulated_ms (g_sw (sw_step Stop ((sw_step Start (snd (stopwatch_init demo_sys)))
     \<lparr>sw_hw := demo_hw\<lparr>cycles := 720000010\<rparr>\<rparr>))) = 0"
proof -
  let ?s = "snd (stopwatch_init demo_sys)"
  have "now_us 10 ?s = 0"
    by (simp add: demo_defs split_beta Let_def)
  then have i: "sw_rel ?s spec_init" "cyc_tracks (sw_hw ?s) (tb ?s) 0"
    using session_inv [OF demo_boot] by (auto simp: cyc_tracks_def)
  then have "ready ?s" "state (g_sw ?s) \<noteq> STOPWATCH_STATE_RUNNING" "accumulated_ms (g_sw ?s) = 0"
    by (simp_all add: sw_rel_def spec_init_def)
  moreover have "fst (timebase_get_us (sw_hw ?s) (tb ?s)) = 0"
    using dwt_clock.get_us_value [OF i(2)] by simp
  ultimately show ?thesis using start_at_zero_is_lost [of ?s "demo_hw\<lparr>cycles := 720000010\<rparr>"] by simp
qed

end
