(* ===== verification/Cli.thy ===== *)
theory Cli
  imports Sensor Timer Stopwatch_Refine
begin

text \<open>
  \<^verbatim>\<open>applications/stopwatch_cli.c\<close> and \<^verbatim>\<open>applications/main.c\<close>: the shell commands of the stopwatch, the
  periodic CSV output, and the start-up.  \<open>app\<close> collects the state of every module the commands
  reach.  A command takes its arguments \<open>argv\<close> (\<open>argc\<close> is its length) and returns the
  command's result and the new state; \<open>None\<close> is a failing assertion of the kernel's timers or a
  format that does not fit its arguments.
\<close>

section \<open>State\<close>

record app =
  a_ui :: ui_sys
  a_light :: light
  a_buz :: buzzer
  a_leds :: io
  a_tm :: timer_sys
  csv_timer :: "nat option"
  csv_period_ms :: u32
  csv_header :: bool
  csv_human :: bool
  rt_log_buf :: "nat \<Rightarrow> char"
  console :: string
  timer_memory :: "nat option"

text \<open>The console has a device; what \<open>rt_kprintf\<close> hands to it is appended to \<open>console\<close>.\<close>

definition kprintf :: "string \<Rightarrow> va_arg list \<Rightarrow> app \<Rightarrow> app option" where
  "kprintf fmt args a =
     map_option (\<lambda>(b, out). a\<lparr>rt_log_buf := b, console := console a @ out\<rparr>)
       (rt_kprintf 0x20000400 True (rt_log_buf a) fmt args)"

text \<open>\<open>kprintf\<close> as the last call before \<open>return r\<close>.\<close>

definition kprintf_ret :: "string \<Rightarrow> int \<Rightarrow> app \<Rightarrow> (int \<times> app) option" where
  "kprintf_ret fmt r a = map_option (Pair r) (kprintf fmt [] a)"

definition on_sw :: "(sw_sys \<Rightarrow> sw_sys) \<Rightarrow> app \<Rightarrow> app" where
  "on_sw f a = a\<lparr>a_ui := (a_ui a)\<lparr>u_sw := f (u_sw (a_ui a))\<rparr>\<rparr>"

definition on_ui :: "(ui \<Rightarrow> ui) \<Rightarrow> app \<Rightarrow> app" where
  "on_ui f a = a\<lparr>a_ui := (a_ui a)\<lparr>u_ui := f (u_ui (a_ui a))\<rparr>\<rparr>"

definition beep :: "u16 \<Rightarrow> app \<Rightarrow> app" where
  "beep ms a = a\<lparr>a_buz := notifier_beep_once ms (a_buz a)\<rparr>"

definition query :: "(sw_sys \<Rightarrow> 'v \<times> sw_sys) \<Rightarrow> app \<Rightarrow> 'v \<times> app" where
  "query f a = (let (v, s) = f (u_sw (a_ui a)) in (v, on_sw (\<lambda>_. s) a))"

section \<open>Stopwatch commands\<close>

definition format_time :: "u32 \<Rightarrow> nat \<Rightarrow> string option" where
  "format_time total_ms buf_len =
     (let ms = total_ms mod 1000; sec = (total_ms div 1000) mod 60; mn = (total_ms div 60000) mod 60;
          hr = total_ms div 3600000
      in if hr > 0 then snprintf_str buf_len ''%02u:%02u:%02u.%03u'' [Int_Arg hr, Int_Arg mn, Int_Arg sec, Int_Arg ms]
         else snprintf_str buf_len ''%02u:%02u.%03u'' [Int_Arg mn, Int_Arg sec, Int_Arg ms])"

definition cmd_sw_start :: "string list \<Rightarrow> app \<Rightarrow> (int \<times> app) option" where
  "cmd_sw_start argv a = map_option (\<lambda>a. (0, beep 50 a)) (kprintf ''sw: start\<newline>'' [] (on_sw stopwatch_start a))"

definition cmd_sw_stop :: "string list \<Rightarrow> app \<Rightarrow> (int \<times> app) option" where
  "cmd_sw_stop argv a = map_option (\<lambda>a. (0, beep 100 a)) (kprintf ''sw: stop\<newline>'' [] (on_sw stopwatch_stop a))"

definition cmd_sw_reset :: "string list \<Rightarrow> app \<Rightarrow> (int \<times> app) option" where
  "cmd_sw_reset argv a = map_option (\<lambda>a. (0, beep 30 a)) (kprintf ''sw: reset\<newline>'' [] (on_sw stopwatch_reset a))"

definition cmd_sw_lap :: "string list \<Rightarrow> app \<Rightarrow> (int \<times> app) option" where
  "cmd_sw_lap argv a =
     (let (r, lap_ms, s) = stopwatch_lap (u_sw (a_ui a)); a1 = on_sw (\<lambda>_. s) a in
      if r = RT_EOK
      then let cs = (lap_ms div 10) mod 100; ss = (lap_ms div 1000) mod 60; mm = (lap_ms div 60000) mod 100 in
           map_option (\<lambda>a. (0, beep 40 a)) (kprintf ''sw: lap=%02u:%02u.%02u\<newline>'' [Int_Arg mm, Int_Arg ss, Int_Arg cs] a1)
      else kprintf_ret ''sw: lap failed\<newline>'' 0 a1)"

definition state_word :: "stopwatch_state_t \<Rightarrow> string" where
  "state_word s = (if s = STOPWATCH_STATE_RUNNING then ''RUNNING''
                   else if s = STOPWATCH_STATE_PAUSED then ''PAUSED'' else ''IDLE'')"

definition print_ms_line :: "string \<Rightarrow> u32 \<Rightarrow> string \<Rightarrow> app \<Rightarrow> app option" where
  "print_ms_line fmt ms buf a = kprintf fmt [Int_Arg ms, Str_Arg (Some buf)] a"

definition cmd_sw_status :: "string list \<Rightarrow> app \<Rightarrow> (int \<times> app) option" where
  "cmd_sw_status argv a =
     (let (s, a1) = query stopwatch_get_state a;
          (total, a2) = query stopwatch_get_total_ms a1;
          (cnt, a3) = query stopwatch_get_lap_count a2;
          (min_ms, max_ms, sum_ms, s4) = lap_stats cnt (u_sw (a_ui a3));
          a4 = on_sw (\<lambda>_. s4) a3
      in do { totalbuf \<leftarrow> format_time total 24;
              a5 \<leftarrow> kprintf ''state: %s\<newline>'' [Str_Arg (Some (state_word s))] a4;
              a6 \<leftarrow> print_ms_line ''total: %u ms (%s)\<newline>'' total totalbuf a5;
              a7 \<leftarrow> kprintf ''laps:  %u\<newline>'' [Int_Arg (ucast cnt)] a6;
              if cnt > 0
              then do { minbuf \<leftarrow> format_time min_ms 24;
                        maxbuf \<leftarrow> format_time max_ms 24;
                        avgbuf \<leftarrow> format_time (sum_ms div ucast cnt) 24;
                        a8 \<leftarrow> print_ms_line ''min:   %u ms (%s)\<newline>'' min_ms minbuf a7;
                        a9 \<leftarrow> print_ms_line ''max:   %u ms (%s)\<newline>'' max_ms maxbuf a8;
                        a10 \<leftarrow> print_ms_line ''avg:   %u ms (%s)\<newline>'' (sum_ms div ucast cnt) avgbuf a9;
                        Some (0, a10) }
              else Some (0, a7) })"

definition cmd_sw_clear_laps :: "string list \<Rightarrow> app \<Rightarrow> (int \<times> app) option" where
  "cmd_sw_clear_laps argv a = kprintf_ret ''sw: clear laps\<newline>'' 0 (on_sw stopwatch_clear_laps a)"

section \<open>CSV output\<close>

definition csv_timer_cb :: "app \<Rightarrow> app option" where
  "csv_timer_cb a =
     (let (t, a1) = query stopwatch_get_total_ms a;
          (n, a2) = query stopwatch_get_lap_count a1;
          (lap, a3) = (if n > 0 then query stopwatch_get_latest_lap_ms a2 else (0, a2))
      in do { a4 \<leftarrow> (if csv_header a3
                     then map_option (\<lambda>a. a\<lparr>csv_header := False\<rparr>) (kprintf ''t,lap_idx,lap_ms,total\<newline>'' [] a3)
                     else Some a3);
              if \<not> csv_human a4
              then kprintf ''%u,%u,%u,%u\<newline>'' [Int_Arg t, Int_Arg (ucast n), Int_Arg lap, Int_Arg t] a4
              else do { tb \<leftarrow> format_time t 24;
                        lb \<leftarrow> format_time lap 24;
                        kprintf ''%s,%u,%s,%s\<newline>'' [Str_Arg (Some tb), Int_Arg (ucast n), Str_Arg (Some lb), Str_Arg (Some tb)] a4 } })"

definition ms_to_ticks :: "u32 \<Rightarrow> u32" where
  "ms_to_ticks ms =
     (let ticks = (ucast ms * of_nat RT_TICK_PER_SECOND + 999 :: u64) div 1000;
          ticks' = (if ticks = 0 then 1 else ticks)
      in ucast ticks')"

text \<open>
  The C library's \<open>atoi\<close> on a 32-bit \<open>int\<close>: white space, a sign, digits; out of range the value
  is the nearest \<open>int\<close>, as \<open>strtol\<close> returns it.
\<close>

definition is_space :: "char \<Rightarrow> bool" where
  "is_space c \<longleftrightarrow> c = CHR '' '' \<or> (of_char c :: nat) \<in> {9..13}"

definition atoi :: "string \<Rightarrow> int" where
  "atoi s =
     (let s1 = dropWhile is_space s;
          (neg, s2) = (case s1 of c # r \<Rightarrow> if c = CHR ''-'' then (True, r) else if c = CHR ''+'' then (False, r) else (False, s1)
                       | [] \<Rightarrow> (False, s1));
          v = fst (skip_atoi_loop 0 s2)
      in max (- (2 ^ 31)) (min (2 ^ 31 - 1) (if neg then - v else v)))"

abbreviation (input) CSV_TIMER_CB :: nat where "CSV_TIMER_CB \<equiv> 1"

abbreviation (input) csv_usage :: string where "csv_usage \<equiv> ''usage: sw.csv on [period_ms]|off\<newline>''"

definition csv_set_period :: "string list \<Rightarrow> app \<Rightarrow> app" where
  "csv_set_period argv a =
     (if length argv \<ge> 3
      then let p = of_int (atoi (argv ! 2)) in a\<lparr>csv_period_ms := (if p < 10 then 10 else p)\<rparr>
      else a)"

definition csv_start :: "nat \<Rightarrow> app \<Rightarrow> (int \<times> app) option" where
  "csv_start t a =
     do { (r, tm) \<leftarrow> rt_timer_start t (a_tm a);
          map_option (Pair 0) (kprintf ''sw.csv: on, %u ms\<newline>'' [Int_Arg (csv_period_ms a)] (a\<lparr>a_tm := tm\<rparr>)) }"

definition csv_on :: "string list \<Rightarrow> app \<Rightarrow> (int \<times> app) option" where
  "csv_on argv a =
     (let a1 = csv_set_period argv a
      in case csv_timer a1 of
           None \<Rightarrow>
             let (t, tm) = rt_timer_create (timer_memory a1) CSV_TIMER_CB (ms_to_ticks (csv_period_ms a1))
                             (RT_TIMER_FLAG_PERIODIC OR RT_TIMER_FLAG_SOFT_TIMER) (a_tm a1);
                 a2 = a1\<lparr>a_tm := tm, csv_timer := t\<rparr>
             in (case t of None \<Rightarrow> kprintf_ret ''sw.csv: create timer failed\<newline>'' (- RT_ENOMEM) a2
                 | Some t \<Rightarrow> csv_start t a2)
         | Some t \<Rightarrow>
             do { (r, v, tm) \<leftarrow> rt_timer_control t (CTRL_SET_TIME (ms_to_ticks (csv_period_ms a1))) (a_tm a1);
                  csv_start t (a1\<lparr>a_tm := tm\<rparr>) })"

definition cmd_sw_csv :: "string list \<Rightarrow> app \<Rightarrow> (int \<times> app) option" where
  "cmd_sw_csv argv a =
     (if length argv < 2 then kprintf_ret csv_usage (- RT_ERROR) a
      else if argv ! 1 = ''on'' then csv_on argv a
      else if argv ! 1 = ''off''
      then do { a1 \<leftarrow> (case csv_timer a of None \<Rightarrow> Some a
                       | Some t \<Rightarrow> map_option (\<lambda>(r, tm). a\<lparr>a_tm := tm\<rparr>) (rt_timer_stop t (a_tm a)));
                kprintf_ret ''sw.csv: off\<newline>'' 0 a1 }
      else kprintf_ret csv_usage (- RT_ERROR) a)"

section \<open>Switches\<close>

text \<open>
  The commands of the form \<open>name word1|word2\<close>: without an argument or with another word the
  usage is printed, else the word's action is done and then its message is printed.
\<close>

fun choose_word :: "string \<Rightarrow> (string \<times> (app \<Rightarrow> app) \<times> string) list \<Rightarrow> string \<Rightarrow> app \<Rightarrow> (int \<times> app) option" where
  "choose_word usage [] w a = kprintf_ret usage (- RT_ERROR) a"
| "choose_word usage ((v, act, msg) # cs) w a = (if w = v then kprintf_ret msg 0 (act a) else choose_word usage cs w a)"

definition switch_cmd :: "string \<Rightarrow> (string \<times> (app \<Rightarrow> app) \<times> string) list \<Rightarrow> string list \<Rightarrow> app \<Rightarrow> (int \<times> app) option" where
  "switch_cmd usage cs argv a =
     (if length argv < 2 then kprintf_ret usage (- RT_ERROR) a else choose_word usage cs (argv ! 1) a)"

definition cmd_sw_csv_header :: "string list \<Rightarrow> app \<Rightarrow> (int \<times> app) option" where
  "cmd_sw_csv_header = switch_cmd ''usage: sw_csv_header on|off\<newline>''
     [(''on'', \<lambda>a. a\<lparr>csv_header := True\<rparr>, ''sw_csv_header: on\<newline>''),
      (''off'', \<lambda>a. a\<lparr>csv_header := False\<rparr>, ''sw_csv_header: off\<newline>'')]"

definition cmd_sw_timefmt :: "string list \<Rightarrow> app \<Rightarrow> (int \<times> app) option" where
  "cmd_sw_timefmt = switch_cmd ''usage: sw_timefmt human|ms\<newline>''
     [(''human'', \<lambda>a. a\<lparr>csv_human := True\<rparr>, ''sw_timefmt: human\<newline>''),
      (''ms'', \<lambda>a. a\<lparr>csv_human := False\<rparr>, ''sw_timefmt: ms\<newline>'')]"

definition cmd_sw_beep :: "string list \<Rightarrow> app \<Rightarrow> (int \<times> app) option" where
  "cmd_sw_beep = switch_cmd ''usage: sw_beep on|off\<newline>''
     [(''on'', \<lambda>a. a\<lparr>a_buz := notifier_beep_enable True (a_buz a)\<rparr>, ''sw_beep: on\<newline>''),
      (''off'', \<lambda>a. a\<lparr>a_buz := notifier_beep_enable False (a_buz a)\<rparr>, ''sw_beep: off\<newline>'')]"

definition cmd_sw_light :: "string list \<Rightarrow> app \<Rightarrow> (int \<times> app) option" where
  "cmd_sw_light = switch_cmd ''usage: sw_light on|off\<newline>''
     [(''on'', \<lambda>a. a\<lparr>a_light := sensor_light_enable True (a_light a)\<rparr>, ''sw_light: on\<newline>''),
      (''off'', \<lambda>a. a\<lparr>a_light := sensor_light_enable False (a_light a)\<rparr>, ''sw_light: off\<newline>'')]"

definition cmd_sw_light_invert :: "string list \<Rightarrow> app \<Rightarrow> (int \<times> app) option" where
  "cmd_sw_light_invert = switch_cmd ''usage: sw_light_invert on|off\<newline>''
     [(''on'', \<lambda>a. a\<lparr>a_light := sensor_light_set_invert True (a_light a)\<rparr>, ''sw_light_invert: on\<newline>''),
      (''off'', \<lambda>a. a\<lparr>a_light := sensor_light_set_invert False (a_light a)\<rparr>, ''sw_light_invert: off\<newline>'')]"

definition cmd_sw_oled_rate :: "string list \<Rightarrow> app \<Rightarrow> (int \<times> app) option" where
  "cmd_sw_oled_rate argv a =
     (if length argv < 2 then kprintf_ret ''usage: sw_oled_rate <ms>\<newline>'' (- RT_ERROR) a
      else let ms0 = atoi (argv ! 1); ms = (if ms0 < 10 then 10 else ms0) in
           map_option (Pair 0) (kprintf ''sw_oled_rate: %d ms\<newline>'' [Int_Arg (of_int ms)]
             (on_ui (ui_oled_set_refresh_ms (of_int ms)) a)))"

definition cmd_sw_page :: "string list \<Rightarrow> app \<Rightarrow> (int \<times> app) option" where
  "cmd_sw_page = switch_cmd ''usage: sw_page main|laps\<newline>''
     [(''main'', on_ui (ui_oled_set_page 0), ''sw_page: main\<newline>''),
      (''laps'', on_ui (ui_oled_set_page 1), ''sw_page: laps\<newline>'')]"

definition cmd_sw_laps_prev :: "string list \<Rightarrow> app \<Rightarrow> (int \<times> app) option" where
  "cmd_sw_laps_prev argv a = kprintf_ret ''sw_laps_prev\<newline>'' 0 (on_ui ui_oled_laps_prev a)"

definition cmd_sw_laps_next :: "string list \<Rightarrow> app \<Rightarrow> (int \<times> app) option" where
  "cmd_sw_laps_next argv a =
     kprintf_ret ''sw_laps_next\<newline>'' 0 (a\<lparr>a_ui := ui_oled_laps_next (a_ui a)\<rparr>)"

section \<open>Start-up\<close>

text \<open>
  \<open>main\<close> up to its endless loop, which only sleeps.  The results of the calls are ignored;
  \<open>mem\<close> tells for each of the three threads whether it can be created, \<open>level\<close> is the level of
  the light sensor's pin.
\<close>

definition main_init :: "bool \<times> bool \<times> bool \<Rightarrow> bool \<Rightarrow> app \<Rightarrow> app option" where
  "main_init mem level a =
     (let (led_mem, ui_mem, light_mem) = mem;
          a1 = on_sw (snd \<circ> stopwatch_init) a;
          a2 = a1\<lparr>a_leds := snd (snd (indicator_led_init led_mem (a_leds a1)))\<rparr>;
          a3 = a2\<lparr>a_buz := snd (notifier_buzzer_init (a_buz a2))\<rparr>
      in do { (r, u) \<leftarrow> ui_oled_init ui_mem (a_ui a3);
              let l = snd (sensor_light_init light_mem level \<lparr>l_light = a_light a3, l_buz = a_buz a3, l_ui = u_ui u\<rparr>)
              in Some (a3\<lparr>a_ui := u\<lparr>u_ui := l_ui l\<rparr>, a_light := l_light l, a_buz := l_buz l\<rparr>) })"

section \<open>What the commands print\<close>

lemma kprintf_text:
  assumes "format_text fmt args = Some t" "length t \<le> 254"
  shows "\<exists>b. kprintf fmt args a = Some (a\<lparr>rt_log_buf := b, console := console a @ t\<rparr>)"
proof -
  have "map (cut_text 255 t (rt_log_buf a)) [0..<length t] = t"
    using assms(2) by (intro nth_equalityI) (auto simp: cut_text_def)
  then show ?thesis
    using assms by (auto simp: kprintf_def rt_kprintf_def rt_vsnprintf_text console_write_def)
qed

lemma kprintf_do:
  assumes "format_text fmt args = Some t" "length t \<le> 254"
  obtains b where "kprintf fmt args a = Some (a\<lparr>rt_log_buf := b, console := console a @ t\<rparr>)"
  using kprintf_text [OF assms] by blast

lemma format_literal: "CHR ''%'' \<notin> set t \<Longrightarrow> format_text t [] = Some t"
  by (induction t) (auto simp: format_plain format_text.simps(1))

lemma kprintf_literal:
  "CHR ''%'' \<notin> set t \<Longrightarrow> length t \<le> 254 \<Longrightarrow>
   \<exists>b. kprintf_ret t r a = Some (r, a\<lparr>rt_log_buf := b, console := console a @ t\<rparr>)"
  using kprintf_text [OF format_literal, of t a] by (auto simp: kprintf_ret_def)

text \<open>The time with hours, minutes, seconds and milliseconds.\<close>

definition human :: "u32 \<Rightarrow> string" where
  "human t = (if t div 3600000 > 0 then dec_pad 2 (t div 3600000) @ '':'' else []) @
     dec_pad 2 ((t div 60000) mod 60) @ '':'' @ dec_pad 2 ((t div 1000) mod 60) @ ''.'' @ dec_pad 3 (t mod 1000)"

lemma printable_human: "list_all printable (human t)"
  using printable_dec by (simp add: human_def) (simp add: printable_def)

lemma length_human: "length (human t) \<le> 14"
proof -
  have "unat (t div 3600000) < 10 ^ 4" "unat ((t div 60000) mod 60) < 10 ^ 2" "unat ((t div 1000) mod 60) < 10 ^ 2"
    "unat (t mod 1000) < 10 ^ 3"
    using unat_u32_less [of t] by (simp_all add: unat_div unat_mod less_mult_imp_div_less less_le_trans [OF mod_less_divisor])
  from length_dec_pad [OF this(1), of 2] length_dec_pad [OF this(2), of 2] length_dec_pad [OF this(3), of 2]
    length_dec_pad [OF this(4), of 3]
  show ?thesis by (simp add: human_def)
qed

lemma format_time_text: "format_time t 24 = Some (human t)"
proof -
  have "format_text ''%02u:%02u:%02u.%03u'' [Int_Arg (t div 3600000), Int_Arg ((t div 60000) mod 60),
      Int_Arg ((t div 1000) mod 60), Int_Arg (t mod 1000)] = Some (human t)" if "t div 3600000 > 0"
    using that by (simp add: format_simps human_def)
  moreover have "format_text ''%02u:%02u.%03u'' [Int_Arg ((t div 60000) mod 60),
      Int_Arg ((t div 1000) mod 60), Int_Arg (t mod 1000)] = Some (human t)" if "\<not> t div 3600000 > 0"
    using that by (simp add: format_simps human_def)
  ultimately show ?thesis
    using snprintf_str_text [of _ _ "human t" 24] printable_no_nul [OF printable_human [of t]] length_human [of t]
    by (simp add: format_time_def Let_def)
qed

text \<open>The time the shell prints is exact: \<open>format_time\<close> fits its 24 bytes, and its fields read back
  as hours (printed only when there are any), minutes and seconds below sixty and milliseconds
  below one thousand that make up the total, for every 32-bit total.\<close>

theorem shell_time_reads_back:
  "\<exists>txt h rest m r1 s r2 ms. format_time t 24 = Some txt \<and> length txt \<le> 14 \<and>
     (if h = 0 then rest = txt else skip_atoi txt = (h, CHR '':'' # rest)) \<and>
     skip_atoi rest = (m, CHR '':'' # r1) \<and> skip_atoi r1 = (s, CHR ''.'' # r2) \<and> skip_atoi r2 = (ms, []) \<and>
     0 \<le> h \<and> 0 \<le> m \<and> m < 60 \<and> 0 \<le> s \<and> s < 60 \<and> 0 \<le> ms \<and> ms < 1000 \<and>
     int (unat t) = ((h * 60 + m) * 60 + s) * 1000 + ms"
proof -
  let ?h = "t div 3600000" and ?m = "(t div 60000) mod 60" and ?s = "(t div 1000) mod 60" and ?ms = "t mod 1000"
  define r2 where "r2 = dec_pad 3 ?ms"
  define r1 where "r1 = dec_pad 2 ?s @ CHR ''.'' # r2"
  define rest where "rest = dec_pad 2 ?m @ CHR '':'' # r1"
  have sep: "\<not> next_is is_digit (CHR '':'' # x)" "\<not> next_is is_digit (CHR ''.'' # x)" "\<not> next_is is_digit []" for x
    by (simp_all add: next_is_def is_digit_def)
  have small: "unat ?h < 2 ^ 31" "unat ?m < 2 ^ 31" "unat ?s < 2 ^ 31" "unat ?ms < 2 ^ 31"
    using unat_u32_less [of t] by (simp_all add: unat_div unat_mod less_mult_imp_div_less less_le_trans [OF mod_less_divisor])
  have human: "human t = (if ?h = 0 then [] else dec_pad 2 ?h @ '':'') @ rest"
    by (simp add: human_def rest_def r1_def r2_def word_greater_zero_iff)
  have h: "if int (unat ?h) = 0 then rest = human t else skip_atoi (human t) = (int (unat ?h), CHR '':'' # rest)"
    using skip_digits [OF sep(1) small(1), of 2] by (auto simp: human unat_eq_zero unsigned_eq_0_iff)
  have fields: "skip_atoi rest = (int (unat ?m), CHR '':'' # r1)" "skip_atoi r1 = (int (unat ?s), CHR ''.'' # r2)"
    "skip_atoi r2 = (int (unat ?ms), [])"
    unfolding rest_def r1_def using skip_digits [OF sep(1) small(2)] skip_digits [OF sep(2) small(3)] skip_digits [OF sep(3) small(4), of 3]
    by (simp_all add: r2_def)
  have sum: "int (unat t) = ((int (unat ?h) * 60 + int (unat ?m)) * 60 + int (unat ?s)) * 1000 + int (unat ?ms)"
  proof -
    define n where "n = unat t"
    define a where "a = n div 1000"
    define b where "b = a div 60"
    have d: "n div 60000 = b" "n div 3600000 = b div 60"
      by (simp_all add: a_def b_def flip: div_mult2_eq)
    have "((b div 60 * 60 + b mod 60) * 60 + a mod 60) * 1000 + n mod 1000 = n"
      unfolding div_mult_mod_eq b_def unfolding div_mult_mod_eq a_def unfolding div_mult_mod_eq by (rule refl)
    then have "n = ((n div 3600000 * 60 + n div 60000 mod 60) * 60 + n div 1000 mod 60) * 1000 + n mod 1000" (is "n = ?r")
      unfolding d a_def [symmetric] by (rule sym)
    then have "int n = int ?r"
      by (rule arg_cong)
    also have "\<dots> = ((int (unat ?h) * 60 + int (unat ?m)) * 60 + int (unat ?s)) * 1000 + int (unat ?ms)"
      by (simp add: n_def unat_div unat_mod)
    finally show ?thesis
      by (simp only: n_def)
  qed
  have bounds: "int (unat ?m) < 60" "int (unat ?s) < 60" "int (unat ?ms) < 1000"
    by (simp_all add: uint_mod)
  show ?thesis
    unfolding format_time_text option.inject
    by (rule exI [of _ "human t"], rule exI [of _ "int (unat ?h)"], rule exI [of _ rest], rule exI [of _ "int (unat ?m)"],
        rule exI [of _ r1], rule exI [of _ "int (unat ?s)"], rule exI [of _ r2], rule exI [of _ "int (unat ?ms)"])
      (use h fields sum bounds length_human [of t] in simp)
qed

section \<open>Status\<close>

lemma lap_stats_value:
  assumes "sw_wf s"
  shows "lap_stats (of_nat (length (sw_laps s))) s = (fold min (sw_laps s) 0xFFFFFFFF, fold max (sw_laps s) 0, sum_list (sw_laps s), s)"
proof -
  let ?f = "\<lambda>i (min_ms, max_ms, sum_ms, s).
             let (v, s1) = stopwatch_get_lap_ms (of_nat i) s in
             (if v < min_ms then v else min_ms, if v > max_ms then v else max_ms, sum_ms + v, s1)"
  have loop: "fold ?f [0..<n] (0xFFFFFFFF, 0, 0, s) =
      (fold min (take n (sw_laps s)) 0xFFFFFFFF, fold max (take n (sw_laps s)) 0, sum_list (take n (sw_laps s)), s)"
    if "n \<le> length (sw_laps s)" for n
    using that
  proof (induction n)
    case (Suc n)
    then have "take (Suc n) (sw_laps s) = take n (sw_laps s) @ [sw_laps s ! n]"
      by (simp add: take_Suc_conv_app_nth)
    then show ?case
      using Suc lap_ms_value [OF assms, of n] by (simp add: min_def max_def not_le [symmetric]) auto
  qed simp
  have "unat (of_nat (length (sw_laps s)) :: u16) = length (sw_laps s)"
    using length_sw_laps [OF assms] by (simp add: unat_of_nat_less)
  then show ?thesis
    unfolding lap_stats_def using loop [of "length (sw_laps s)"] by simp
qed

lemma fold_min_max:
  fixes xs :: "u32 list"
  assumes "xs \<noteq> []"
  shows "fold min xs 0xFFFFFFFF = Min (set xs)" "fold max xs 0 = Max (set xs)"
proof -
  have le: "x \<le> 0xFFFFFFFF" for x :: u32
    using unat_u32_less [of x] by (simp add: word_le_nat_alt)
  have "fold min xs 0xFFFFFFFF = Min (insert 0xFFFFFFFF (set xs))"
    using Min.set_eq_fold [of "0xFFFFFFFF" xs] by simp
  also have "\<dots> = min 0xFFFFFFFF (Min (set xs))"
    using assms by simp
  also have "\<dots> = Min (set xs)"
    using le [of "Min (set xs)"] by (simp add: min_def)
  finally show "fold min xs 0xFFFFFFFF = Min (set xs)" .
  have "fold max xs 0 = Max (insert 0 (set xs))"
    using Max.set_eq_fold [of 0 xs] by simp
  also have "\<dots> = max 0 (Max (set xs))"
    using assms by simp
  finally show "fold max xs 0 = Max (set xs)"
    by (simp add: max_def)
qed

definition ms_line :: "string \<Rightarrow> u32 \<Rightarrow> string" where
  "ms_line label t = label @ dec t @ '' ms ('' @ human t @ '')\<newline>''"

text \<open>What the status command should print.\<close>

definition status_text :: "stopwatch_state_t \<Rightarrow> u32 \<Rightarrow> u32 list \<Rightarrow> string" where
  "status_text st t laps =
     ''state: '' @ state_word st @ ''\<newline>'' @ ms_line ''total: '' t @
     ''laps:  '' @ dec (of_nat (length laps)) @ ''\<newline>'' @
     (if laps = [] then []
      else ms_line ''min:   '' (Min (set laps)) @ ms_line ''max:   '' (Max (set laps)) @
           ms_line ''avg:   '' (sum_list laps div of_nat (length laps)))"

lemma print_ms_line_text:
  assumes "CHR ''%'' \<notin> set label" "length label \<le> 10" "fmt = label @ ''%u ms (%s)\<newline>''"
  obtains b where "print_ms_line fmt t (human t) a = Some (a\<lparr>rt_log_buf := b, console := console a @ ms_line label t\<rparr>)"
proof -
  have "format_text (label @ ''%u ms (%s)\<newline>'') [Int_Arg t, Str_Arg (Some (human t))] = Some (ms_line label t)"
    using assms(1)
    by (induction label)
      (auto simp: format_simps ms_line_def format_text.simps(1) c_str_id [OF printable_no_nul [OF printable_human]])
  moreover have "length (ms_line label t) \<le> 254"
    using assms(2) length_dec [of t] length_human [of t] by (simp add: ms_line_def)
  ultimately show ?thesis
    using kprintf_text that unfolding print_ms_line_def assms(3) by blast
qed

lemma query_sw:
  "query f a = (fst (f (u_sw (a_ui a))), on_sw (\<lambda>_. snd (f (u_sw (a_ui a)))) a)"
  by (simp add: query_def split_beta Let_def)

lemma on_sw_simps [simp]:
  "u_sw (a_ui (on_sw f a)) = f (u_sw (a_ui a))" "on_sw (\<lambda>_. x) (on_sw f a) = on_sw (\<lambda>_. x) a"
  "console (on_sw f a) = console a" "on_sw f (a\<lparr>rt_log_buf := b, console := c\<rparr>) = (on_sw f a)\<lparr>rt_log_buf := b, console := c\<rparr>"
  "csv_header (on_sw f a) = csv_header a" "csv_human (on_sw f a) = csv_human a" "rt_log_buf (on_sw f a) = rt_log_buf a"
  by (simp_all add: on_sw_def)

lemma on_sw_same [simp]: "on_sw (\<lambda>_. u_sw (a_ui a)) a = a"
  by (simp add: on_sw_def)

lemma total_wf: "sw_wf s \<Longrightarrow> sw_wf (snd (stopwatch_get_total_ms s)) \<and> sw_laps (snd (stopwatch_get_total_ms s)) = sw_laps s"
  by (simp add: sw_wf_def sw_laps_def total_frame)

lemma of_nat_small:
  assumes "n \<le> 20"
  shows "(ucast (of_nat n :: u16) :: u32) = of_nat n" "(of_nat n :: u16) > 0 \<longleftrightarrow> 0 < n"
proof -
  have "take_bit 16 n = n"
    using assms by (simp add: take_bit_nat_eq_self)
  then show "(ucast (of_nat n :: u16) :: u32) = of_nat n"
    by (simp add: unsigned_of_nat)
  have "unat (of_nat n :: u16) = n"
    using assms by (simp add: unat_of_nat_less)
  then show "(of_nat n :: u16) > 0 \<longleftrightarrow> 0 < n"
    by (simp add: word_less_nat_alt)
qed

lemma three_lines:
  obtains b where "do { a8 \<leftarrow> print_ms_line ''min:   %u ms (%s)\<newline>'' x (human x) a;
      a9 \<leftarrow> print_ms_line ''max:   %u ms (%s)\<newline>'' y (human y) a8;
      a10 \<leftarrow> print_ms_line ''avg:   %u ms (%s)\<newline>'' z (human z) a9;
      Some (0 :: int, a10) } =
    Some (0, a\<lparr>rt_log_buf := b, console := console a @ ms_line ''min:   '' x @ ms_line ''max:   '' y @ ms_line ''avg:   '' z\<rparr>)"
proof -
  obtain b4 where b4: "print_ms_line ''min:   %u ms (%s)\<newline>'' x (human x) a =
      Some (a\<lparr>rt_log_buf := b4, console := console a @ ms_line ''min:   '' x\<rparr>)" (is "_ = Some ?a4")
    by (rule print_ms_line_text [of "''min:   ''" _ x a]) simp_all
  obtain b5 where b5: "print_ms_line ''max:   %u ms (%s)\<newline>'' y (human y) ?a4 =
      Some (?a4\<lparr>rt_log_buf := b5, console := console ?a4 @ ms_line ''max:   '' y\<rparr>)" (is "_ = Some ?a5")
    by (rule print_ms_line_text [of "''max:   ''" _ y ?a4]) simp_all
  obtain b6 where b6: "print_ms_line ''avg:   %u ms (%s)\<newline>'' z (human z) ?a5 =
      Some (?a5\<lparr>rt_log_buf := b6, console := console ?a5 @ ms_line ''avg:   '' z\<rparr>)" (is "_ = Some ?a6")
    by (rule print_ms_line_text [of "''avg:   ''" _ z ?a5]) simp_all
  show ?thesis
    using that [of b6] b4 b5 b6 by simp
qed

text \<open>\<open>sw_status\<close> prints the state, the total, the number of laps and, if there are any, the
  shortest, the longest and the average lap (the sum wraps at 32 bits), each in milliseconds and
  as a time, and leaves the stopwatch as reading the total leaves it.\<close>

theorem status_reports:
  assumes "sw_wf (u_sw (a_ui a))"
  shows "let s = u_sw (a_ui a); total = stopwatch_get_total_ms s in
    \<exists>b. cmd_sw_status argv a = Some (0, (on_sw (\<lambda>_. snd total) a)
      \<lparr>rt_log_buf := b, console := console a @ status_text (fst (stopwatch_get_state s)) (fst total) (sw_laps s)\<rparr>)"
proof -
  let ?s = "u_sw (a_ui a)"
  let ?t = "fst (stopwatch_get_total_ms ?s)" and ?s' = "snd (stopwatch_get_total_ms ?s)"
  let ?st = "fst (stopwatch_get_state ?s)" and ?l = "sw_laps ?s"
  let ?n = "of_nat (length ?l) :: u16"
  let ?a0 = "on_sw (\<lambda>_. ?s') a"
  have wf': "sw_wf ?s'" "sw_laps ?s' = ?l"
    using total_wf [OF assms] by simp_all
  have n: "(ucast ?n :: u32) = of_nat (length ?l)" and n0: "?n > 0 \<longleftrightarrow> ?l \<noteq> []"
    using length_sw_laps [OF assms] by (simp_all add: of_nat_small)
  have stats: "lap_stats ?n ?s' = (fold min ?l 0xFFFFFFFF, fold max ?l 0, sum_list ?l, ?s')"
    using lap_stats_value [OF wf'(1)] by (simp add: wf'(2))
  have "CHR 0x00 \<notin> set (state_word ?st)" "length (state_word ?st) \<le> 7"
    by (auto simp: state_word_def)
  then have f1: "format_text ''state: %s\<newline>'' [Str_Arg (Some (state_word ?st))] = Some (''state: '' @ state_word ?st @ ''\<newline>'')"
    "length (''state: '' @ state_word ?st @ ''\<newline>'') \<le> 254"
    by (simp_all add: format_simps c_str_id format_text.simps(1))
  obtain b1 where b1: "kprintf ''state: %s\<newline>'' [Str_Arg (Some (state_word ?st))] ?a0 =
      Some (?a0\<lparr>rt_log_buf := b1, console := console a @ ''state: '' @ state_word ?st @ ''\<newline>''\<rparr>)" (is "_ = Some ?a1")
    by (rule kprintf_do [OF f1, of ?a0]) simp
  obtain b2 where b2: "print_ms_line ''total: %u ms (%s)\<newline>'' ?t (human ?t) ?a1 =
      Some (?a1\<lparr>rt_log_buf := b2, console := console ?a1 @ ms_line ''total: '' ?t\<rparr>)" (is "_ = Some ?a2")
    by (rule print_ms_line_text [of "''total: ''" _ ?t ?a1]) simp_all
  have f3: "format_text ''laps:  %u\<newline>'' [Int_Arg (of_nat (length ?l))] = Some (''laps:  '' @ dec (of_nat (length ?l)) @ ''\<newline>'')"
    "length (''laps:  '' @ dec (of_nat (length ?l)) @ ''\<newline>'') \<le> 254"
    using length_dec [of "of_nat (length ?l)"] by (simp_all add: format_simps format_text.simps(1))
  obtain b3 where b3: "kprintf ''laps:  %u\<newline>'' [Int_Arg (of_nat (length ?l))] ?a2 =
      Some (?a2\<lparr>rt_log_buf := b3, console := console ?a2 @ ''laps:  '' @ dec (of_nat (length ?l)) @ ''\<newline>''\<rparr>)" (is "_ = Some ?a3")
    by (rule kprintf_do [OF f3])
  have head: "cmd_sw_status argv a =
      (if ?l \<noteq> [] then do { a8 \<leftarrow> print_ms_line ''min:   %u ms (%s)\<newline>'' (fold min ?l 0xFFFFFFFF) (human (fold min ?l 0xFFFFFFFF)) ?a3;
           a9 \<leftarrow> print_ms_line ''max:   %u ms (%s)\<newline>'' (fold max ?l 0) (human (fold max ?l 0)) a8;
           a10 \<leftarrow> print_ms_line ''avg:   %u ms (%s)\<newline>'' (sum_list ?l div of_nat (length ?l)) (human (sum_list ?l div of_nat (length ?l))) a9;
           Some (0, a10) }
       else Some (0, ?a3))"
    by (simp only: cmd_sw_status_def query_sw on_sw_simps query_frames [OF assms] lap_count_value [OF wf'(1)] wf'(2) fst_conv snd_conv
        Let_def prod.case stats on_sw_same format_time_text bind.bind_lunit b1 b2 b3 n0 n)
  show ?thesis
  proof (cases "?l = []")
    case True
    then have "cmd_sw_status argv a = Some (0, ?a3)"
      unfolding head by simp
    then show ?thesis
      using True by (auto simp: status_text_def Let_def)
  next
    case False
    let ?avg = "sum_list ?l div of_nat (length ?l)"
    obtain b where b: "do { a8 \<leftarrow> print_ms_line ''min:   %u ms (%s)\<newline>'' (Min (set ?l)) (human (Min (set ?l))) ?a3;
      a9 \<leftarrow> print_ms_line ''max:   %u ms (%s)\<newline>'' (Max (set ?l)) (human (Max (set ?l))) a8;
      a10 \<leftarrow> print_ms_line ''avg:   %u ms (%s)\<newline>'' ?avg (human ?avg) a9;
      Some (0 :: int, a10) } =
      Some (0, ?a3\<lparr>rt_log_buf := b, console := console ?a3 @ ms_line ''min:   '' (Min (set ?l)) @ ms_line ''max:   '' (Max (set ?l)) @
        ms_line ''avg:   '' ?avg\<rparr>)" (is "_ = Some (0, ?a6)")
      by (rule three_lines)
    have "cmd_sw_status argv a = Some (0, ?a6)"
      using b False unfolding head fold_min_max [OF False] by (simp only: if_True not_False_eq_True)
    then show ?thesis
      using False by (auto simp: status_text_def Let_def)
  qed
qed

definition demo_app :: app where
  "demo_app = \<lparr>a_ui = demo_ui demo_hw timebase_reset_state, a_light = \<lparr>s_enabled = True, s_dark = False, s_invert = False\<rparr>,
     a_buz = \<lparr>s_beep_enabled = True, buz_io = []\<rparr>, a_leds = [], a_tm = demo_timers, csv_timer = None,
     csv_period_ms = 200, csv_header = True, csv_human = False, rt_log_buf = (\<lambda>_. CHR 0x00), console = [],
     timer_memory = Some 5\<rparr>"

lemma demo_app_ok: "sw_wf (u_sw (a_ui demo_app))" "sw_laps (u_sw (a_ui demo_app)) = [30000, 31000]"
  "fst (stopwatch_get_total_ms (u_sw (a_ui demo_app))) = 65430" "csv_header demo_app" "\<not> csv_human demo_app"
  "console demo_app = []"
  using demo_ui_ok(1) [of demo_hw timebase_reset_state]
  by (simp_all add: demo_app_def sw_laps_def stored_laps_def demo_ui_def demo_ctx_def ctx_zero_def
      stopwatch_get_total_ms_def get_now_total_ms_unsafe_def sw_lock_defs)

theorem status_reports_witness:
  "\<exists>a'. cmd_sw_status [''sw_status''] demo_app = Some (0, a') \<and>
     (\<exists>st. console a' = status_text st 65430 [30000, 31000])"
  using status_reports [OF demo_app_ok(1), of "[''sw_status'']"] by (auto simp: Let_def demo_app_ok)

section \<open>CSV\<close>

definition csv_fields :: "u32 \<Rightarrow> nat \<Rightarrow> u32 \<Rightarrow> string" where
  "csv_fields t n lap = dec t @ '','' @ dec (of_nat n) @ '','' @ dec lap @ '','' @ dec t @ ''\<newline>''"

definition csv_fields_human :: "u32 \<Rightarrow> nat \<Rightarrow> u32 \<Rightarrow> string" where
  "csv_fields_human t n lap = human t @ '','' @ dec (of_nat n) @ '','' @ human lap @ '','' @ human t @ ''\<newline>''"

definition csv_title :: string where
  "csv_title = ''t,lap_idx,lap_ms,total\<newline>''"

lemma csv_line_ms:
  obtains b where "kprintf ''%u,%u,%u,%u\<newline>'' [Int_Arg t, Int_Arg (of_nat n), Int_Arg lap, Int_Arg t] a =
    Some (a\<lparr>rt_log_buf := b, console := console a @ csv_fields t n lap\<rparr>)"
proof -
  have "format_text ''%u,%u,%u,%u\<newline>'' [Int_Arg t, Int_Arg (of_nat n), Int_Arg lap, Int_Arg t] = Some (csv_fields t n lap)"
    by (simp add: format_simps csv_fields_def format_text.simps(1))
  moreover have "length (csv_fields t n lap) \<le> 254"
    using length_dec [of t] length_dec [of lap] length_dec [of "of_nat n"] by (simp add: csv_fields_def)
  ultimately show ?thesis
    using kprintf_text that by blast
qed

lemma csv_line_human:
  obtains b where "kprintf ''%s,%u,%s,%s\<newline>'' [Str_Arg (Some (human t)), Int_Arg (of_nat n), Str_Arg (Some (human lap)), Str_Arg (Some (human t))] a =
    Some (a\<lparr>rt_log_buf := b, console := console a @ csv_fields_human t n lap\<rparr>)"
proof -
  have "format_text ''%s,%u,%s,%s\<newline>'' [Str_Arg (Some (human t)), Int_Arg (of_nat n), Str_Arg (Some (human lap)), Str_Arg (Some (human t))]
      = Some (csv_fields_human t n lap)"
    by (simp add: format_simps csv_fields_human_def format_text.simps(1) c_str_id [OF printable_no_nul [OF printable_human]])
  moreover have "length (csv_fields_human t n lap) \<le> 254"
    using length_human [of t] length_human [of lap] length_dec [of "of_nat n"] by (simp add: csv_fields_human_def)
  ultimately show ?thesis
    using kprintf_text that by blast
qed

lemma csv_title_line:
  obtains b where "kprintf ''t,lap_idx,lap_ms,total\<newline>'' [] a = Some (a\<lparr>rt_log_buf := b, console := console a @ csv_title\<rparr>)"
  using kprintf_text [OF format_literal, of csv_title a] by (auto simp: csv_title_def)

lemma app_same: "\<not> csv_header a \<Longrightarrow> a\<lparr>csv_header := False, rt_log_buf := rt_log_buf a, console := console a\<rparr> = a"
  by (cases a) simp

text \<open>The CSV timer's function appends one line with the total, the number of laps, the latest lap
  (0 if there is none) and the total again, as milliseconds or as times; the title line comes
  before it once, when it was asked for; the stopwatch is left as
  reading the total leaves it.\<close>

theorem csv_line:
  assumes "sw_wf (u_sw (a_ui a))"
  shows "let s = u_sw (a_ui a); t = fst (stopwatch_get_total_ms s); laps = sw_laps s;
             lap = (if laps = [] then 0 else last laps) in
    \<exists>b. csv_timer_cb a = Some ((on_sw (\<lambda>_. snd (stopwatch_get_total_ms s)) a)
      \<lparr>csv_header := False, rt_log_buf := b, console := console a @ (if csv_header a then csv_title else []) @
         (if csv_human a then csv_fields_human t (length laps) lap else csv_fields t (length laps) lap)\<rparr>)"
proof -
  let ?s = "u_sw (a_ui a)"
  let ?t = "fst (stopwatch_get_total_ms ?s)" and ?s' = "snd (stopwatch_get_total_ms ?s)" and ?l = "sw_laps ?s"
  let ?lap = "if ?l = [] then 0 else last ?l"
  let ?a0 = "on_sw (\<lambda>_. ?s') a"
  have wf': "sw_wf ?s'" "sw_laps ?s' = ?l"
    using total_wf [OF assms] by simp_all
  have n: "(ucast (of_nat (length ?l) :: u16) :: u32) = of_nat (length ?l)" "(of_nat (length ?l) :: u16) > 0 \<longleftrightarrow> ?l \<noteq> []"
    using length_sw_laps [OF assms] by (simp_all add: of_nat_small)
  obtain b1 where b1: "kprintf ''t,lap_idx,lap_ms,total\<newline>'' [] ?a0 = Some (?a0\<lparr>rt_log_buf := b1, console := console ?a0 @ csv_title\<rparr>)"
    by (rule csv_title_line)
  define a1 where "a1 = ?a0\<lparr>csv_header := False, rt_log_buf := (if csv_header a then b1 else rt_log_buf a),
    console := console a @ (if csv_header a then csv_title else [])\<rparr>"
  have lap: "(if ?l \<noteq> [] then query stopwatch_get_latest_lap_ms ?a0 else (0, ?a0)) = (?lap, ?a0)"
    using latest_lap_value [OF wf'(1)] wf'(2) by (simp add: query_sw)
  have head: "csv_timer_cb a =
      (if \<not> csv_human a1
       then kprintf ''%u,%u,%u,%u\<newline>'' [Int_Arg ?t, Int_Arg (of_nat (length ?l)), Int_Arg ?lap, Int_Arg ?t] a1
       else kprintf ''%s,%u,%s,%s\<newline>'' [Str_Arg (Some (human ?t)), Int_Arg (of_nat (length ?l)), Str_Arg (Some (human ?lap)), Str_Arg (Some (human ?t))] a1)"
  proof -
    have "(if csv_header ?a0 then map_option (\<lambda>a. a\<lparr>csv_header := False\<rparr>) (kprintf ''t,lap_idx,lap_ms,total\<newline>'' [] ?a0) else Some ?a0) = Some a1"
      unfolding b1 using app_same [of ?a0] by (simp add: a1_def)
    moreover have "query stopwatch_get_total_ms a = (?t, ?a0)" "query stopwatch_get_lap_count ?a0 = (of_nat (length ?l), ?a0)"
      using lap_count_value [OF wf'(1)] wf'(2) by (simp_all add: query_sw)
    ultimately show ?thesis
      by (simp only: csv_timer_cb_def Let_def prod.case lap n bind.bind_lunit format_time_text)
  qed
  obtain b2 where "kprintf ''%u,%u,%u,%u\<newline>'' [Int_Arg ?t, Int_Arg (of_nat (length ?l)), Int_Arg ?lap, Int_Arg ?t] a1 =
      Some (a1\<lparr>rt_log_buf := b2, console := console a1 @ csv_fields ?t (length ?l) ?lap\<rparr>)"
    by (rule csv_line_ms)
  moreover obtain b3 where "kprintf ''%s,%u,%s,%s\<newline>'' [Str_Arg (Some (human ?t)), Int_Arg (of_nat (length ?l)),
        Str_Arg (Some (human ?lap)), Str_Arg (Some (human ?t))] a1 =
      Some (a1\<lparr>rt_log_buf := b3, console := console a1 @ csv_fields_human ?t (length ?l) ?lap\<rparr>)"
    by (rule csv_line_human)
  ultimately show ?thesis
    unfolding Let_def head by (cases "csv_human a") (auto simp: a1_def)
qed

theorem csv_line_witness:
  "\<exists>a'. csv_timer_cb demo_app = Some a' \<and> console a' = csv_title @ csv_fields 65430 2 31000 \<and> \<not> csv_header a'"
  using csv_line [OF demo_app_ok(1)] by (auto simp: Let_def demo_app_ok numeral_2_eq_2)

section \<open>The CSV timer\<close>

lemma ms_to_ticks_value: "ms_to_ticks ms = (if ms = 0 then 1 else ms)"
proof -
  have "unat (ucast ms * 1000 + 999 :: u64) = unat ms * 1000 + 999"
    using unat_u32_less [of ms] by (simp add: unat_word_ariths)
  then have "unat ((ucast ms * 1000 + 999 :: u64) div 1000) = unat (ucast ms :: u64)"
    by (simp add: unat_div)
  then have q: "(ucast ms * 1000 + 999 :: u64) div 1000 = ucast ms"
    by (rule word_unat_eq_iff [THEN iffD2])
  have "(ucast ms :: u64) = 0 \<longleftrightarrow> ms = 0"
    by (metis unat_0 unat_eq_zero unat_ucast_u64)
  moreover have "(ucast (ucast ms :: u64) :: u32) = ms"
    unfolding ucast_u64_eq ucast_of_nat_u32 by simp
  ultimately show ?thesis
    unfolding ms_to_ticks_def Let_def of_nat_numeral q by simp
qed

definition csv_kind :: "rt_timer \<Rightarrow> bool" where
  "csv_kind tm \<longleftrightarrow> periodic tm \<and> soft tm \<and> timeout_func tm = CSV_TIMER_CB"

text \<open>The timers are well formed, and the CSV timer exists or there is memory for it.\<close>

definition csv_ok :: "app \<Rightarrow> bool" where
  "csv_ok a \<longleftrightarrow> timer_wf (a_tm a) \<and>
     (case csv_timer a of None \<Rightarrow> \<exists>t. timer_memory a = Some t \<and> timers (a_tm a) t = None
      | Some t \<Rightarrow> \<exists>tm. timers (a_tm a) t = Some tm \<and> csv_kind tm)"

lemma start_fields:
  assumes "timers s t = Some tm" "init_tick tm < RT_TICK_MAX div 2"
  shows "\<exists>s'. rt_timer_start t s = Some (RT_EOK, s') \<and> (timer_wf s \<longrightarrow> timer_wf s') \<and> tick_now s' = tick_now s \<and>
    timers s' = (timers s)(t \<mapsto> activate ((deactivate tm)\<lparr>timeout_tick := tick_now s + init_tick tm\<rparr>))"
proof -
  obtain s' where s': "rt_timer_start t s = Some (RT_EOK, s')"
    using assms by (simp add: rt_timer_start_def Let_def)
  then have "timers s' = (timers s)(t \<mapsto> activate ((deactivate tm)\<lparr>timeout_tick := tick_now s + init_tick tm\<rparr>)) \<and> tick_now s' = tick_now s"
    using assms by (auto simp: rt_timer_start_def Let_def rt_tick_get_def split: if_splits)
  then show ?thesis
    using s' start_wf [OF _ s'] by blast
qed

lemma csv_start_runs:
  assumes "timer_wf (a_tm a)" "timers (a_tm a) t = Some tm" "csv_kind tm" "init_tick tm = csv_period_ms a"
    and "csv_period_ms a < RT_TICK_MAX div 2"
  shows "\<exists>b s tm'. csv_start t a = Some (0, a\<lparr>a_tm := s, rt_log_buf := b,
      console := console a @ ''sw.csv: on, '' @ dec (csv_period_ms a) @ '' ms\<newline>''\<rparr>) \<and> timer_wf s \<and>
    timers s t = Some tm' \<and> csv_kind tm' \<and> activated tm' \<and> init_tick tm' = csv_period_ms a \<and>
    timeout_tick tm' = tick_now (a_tm a) + csv_period_ms a"
proof -
  let ?tm = "activate ((deactivate tm)\<lparr>timeout_tick := tick_now (a_tm a) + init_tick tm\<rparr>)"
  obtain s where s: "rt_timer_start t (a_tm a) = Some (RT_EOK, s)" "timer_wf s" "timers s = (timers (a_tm a))(t \<mapsto> ?tm)"
    using start_fields [OF assms(2)] assms(1,4,5) by auto
  have "format_text ''sw.csv: on, %u ms\<newline>'' [Int_Arg (csv_period_ms a)] = Some (''sw.csv: on, '' @ dec (csv_period_ms a) @ '' ms\<newline>'')"
    "length (''sw.csv: on, '' @ dec (csv_period_ms a) @ '' ms\<newline>'') \<le> 254"
    using length_dec [of "csv_period_ms a"] by (simp_all add: format_simps format_text.simps(1))
  from kprintf_text [OF this, of "a\<lparr>a_tm := s\<rparr>"] obtain b where
    "kprintf ''sw.csv: on, %u ms\<newline>'' [Int_Arg (csv_period_ms a)] (a\<lparr>a_tm := s\<rparr>) =
      Some (a\<lparr>a_tm := s, rt_log_buf := b, console := console a @ ''sw.csv: on, '' @ dec (csv_period_ms a) @ '' ms\<newline>''\<rparr>)"
    by auto
  then have "csv_start t a = Some (0, a\<lparr>a_tm := s, rt_log_buf := b,
      console := console a @ ''sw.csv: on, '' @ dec (csv_period_ms a) @ '' ms\<newline>''\<rparr>)"
    using s(1) by (simp add: csv_start_def)
  moreover have "csv_kind ?tm" "activated ?tm" "init_tick ?tm = csv_period_ms a"
      "timeout_tick ?tm = tick_now (a_tm a) + csv_period_ms a"
    using assms(3,4) by (simp_all add: csv_kind_def)
  ultimately show ?thesis
    using s(2,3) by (intro exI [of _ b] exI [of _ s] exI [of _ ?tm]) simp
qed

lemma csv_on_starts:
  assumes "csv_ok a" "a1 = csv_set_period argv a" "0 < csv_period_ms a1" "csv_period_ms a1 < RT_TICK_MAX div 2"
  shows "\<exists>b t tm s. csv_on argv a = Some (0, a1\<lparr>a_tm := s, csv_timer := Some t, rt_log_buf := b,
      console := console a @ ''sw.csv: on, '' @ dec (csv_period_ms a1) @ '' ms\<newline>''\<rparr>) \<and> timer_wf s \<and>
    timers s t = Some tm \<and> csv_kind tm \<and> activated tm \<and> init_tick tm = csv_period_ms a1 \<and>
    timeout_tick tm = tick_now (a_tm a) + csv_period_ms a1"
proof -
  let ?p = "csv_period_ms a1"
  have same: "a_tm a1 = a_tm a" "csv_timer a1 = csv_timer a" "timer_memory a1 = timer_memory a" "console a1 = console a"
    by (simp_all add: assms(2) csv_set_period_def Let_def)
  have tk: "ms_to_ticks ?p = ?p"
    using assms(3) by (simp add: ms_to_ticks_value)
  show ?thesis
  proof (cases "csv_timer a")
    case None
    then obtain t where t: "timer_memory a = Some t" "timers (a_tm a) t = None" and wf: "timer_wf (a_tm a)"
      using assms(1) by (auto simp: csv_ok_def)
    let ?tm = "timer_init_fields False CSV_TIMER_CB ?p (RT_TIMER_FLAG_PERIODIC OR RT_TIMER_FLAG_SOFT_TIMER)"
    let ?s = "(a_tm a)\<lparr>timers := (timers (a_tm a))(t \<mapsto> ?tm)\<rparr>"
    let ?a2 = "a1\<lparr>a_tm := ?s, csv_timer := Some t\<rparr>"
    have on: "csv_on argv a = csv_start t ?a2"
      using None t by (simp add: csv_on_def Let_def assms(2) [symmetric] same rt_timer_create_def tk)
    have "timer_wf ?s"
      using wf t(2) by (auto simp: timer_wf_def split: if_splits)
    moreover have "csv_kind ?tm" "init_tick ?tm = ?p"
      by (simp_all add: csv_kind_def timer_init_fields_def periodic_def soft_def)
    ultimately obtain b s tm where "csv_start t ?a2 = Some (0, ?a2\<lparr>a_tm := s, rt_log_buf := b,
        console := console ?a2 @ ''sw.csv: on, '' @ dec (csv_period_ms ?a2) @ '' ms\<newline>''\<rparr>)" "timer_wf s" "timers s t = Some tm"
      "csv_kind tm" "activated tm" "init_tick tm = csv_period_ms ?a2" "timeout_tick tm = tick_now (a_tm ?a2) + csv_period_ms ?a2"
      using csv_start_runs [of ?a2 t ?tm] assms(4) by auto
    then show ?thesis
      unfolding on by (intro exI [of _ b] exI [of _ t] exI [of _ tm] exI [of _ s]) (simp add: same)
  next
    case (Some t)
    then obtain tm where tm: "timers (a_tm a) t = Some tm" "csv_kind tm" and wf: "timer_wf (a_tm a)"
      using assms(1) by (auto simp: csv_ok_def)
    let ?s = "(a_tm a)\<lparr>timers := (timers (a_tm a))(t \<mapsto> tm\<lparr>init_tick := ?p\<rparr>)\<rparr>"
    let ?a2 = "a1\<lparr>a_tm := ?s\<rparr>"
    have on: "csv_on argv a = csv_start t ?a2"
      using Some tm by (simp add: csv_on_def Let_def assms(2) [symmetric] same rt_timer_control_def tk)
    have "timer_wf ?s"
      using wf_same_kind [OF wf tm(1)] by simp
    moreover have "csv_kind (tm\<lparr>init_tick := ?p\<rparr>)"
      using tm(2) by (simp add: csv_kind_def periodic_def soft_def)
    moreover have rec: "?a2\<lparr>a_tm := x, rt_log_buf := y, console := z\<rparr> = a1\<lparr>a_tm := x, csv_timer := Some t, rt_log_buf := y, console := z\<rparr>" for x y z
      using Some same(2) by (cases a1) simp
    ultimately obtain b s tm' where "csv_start t ?a2 = Some (0, ?a2\<lparr>a_tm := s, rt_log_buf := b,
        console := console ?a2 @ ''sw.csv: on, '' @ dec (csv_period_ms ?a2) @ '' ms\<newline>''\<rparr>)" "timer_wf s" "timers s t = Some tm'"
      "csv_kind tm'" "activated tm'" "init_tick tm' = csv_period_ms ?a2" "timeout_tick tm' = tick_now (a_tm ?a2) + csv_period_ms ?a2"
      using csv_start_runs [of ?a2 t "tm\<lparr>init_tick := ?p\<rparr>"] assms(4) by auto
    then show ?thesis
      unfolding on rec by (intro exI [of _ b] exI [of _ t] exI [of _ tm'] exI [of _ s]) (simp add: same)
  qed
qed

text \<open>Command: \<open>sw_csv on p\<close> with a period below half the tick range starts, or restarts, the soft periodic
  timer of the CSV output with \<open>p\<close> ticks (of a millisecond each) but at least ten, and
  \<open>sw_csv off\<close> then stops it; both keep the timers well formed, and the second leaves the timer
  for the next \<open>on\<close>.\<close>

theorem csv_on_off:
  assumes "csv_ok a" "0 \<le> atoi p" "atoi p < 0x7FFFFFFF"
  shows "\<exists>a1 t tm a2 tm2. cmd_sw_csv [c, ''on'', p] a = Some (0, a1) \<and> csv_ok a1 \<and> csv_timer a1 = Some t \<and>
    timers (a_tm a1) t = Some tm \<and> csv_kind tm \<and> activated tm \<and> unat (init_tick tm) = max 10 (nat (atoi p)) \<and>
    t \<in> set (rt_soft_timer_list (a_tm a1)) \<and> timeout_tick tm = tick_now (a_tm a) + init_tick tm \<and>
    cmd_sw_csv [c, ''off''] a1 = Some (0, a2) \<and> csv_ok a2 \<and> csv_timer a2 = Some t \<and>
    timers (a_tm a2) t = Some tm2 \<and> \<not> activated tm2 \<and> t \<notin> set (rt_soft_timer_list (a_tm a2))"
proof -
  define a0 where "a0 = csv_set_period [c, ''on'', p] a"
  have up: "unat (of_int (atoi p) :: u32) = nat (atoi p)"
    using assms(2,3) by (simp add: unat_eq_nat_uint uint_word_of_int)
  have per: "unat (csv_period_ms a0) = max 10 (nat (atoi p))"
    using up by (simp add: a0_def csv_set_period_def Let_def word_less_nat_alt)
  then have "0 < csv_period_ms a0" "csv_period_ms a0 < RT_TICK_MAX div 2"
    using assms(3) by (simp_all add: word_less_nat_alt)
  from csv_on_starts [OF assms(1) a0_def this] obtain b t tm s where
    on: "csv_on [c, ''on'', p] a = Some (0, a0\<lparr>a_tm := s, csv_timer := Some t, rt_log_buf := b,
      console := console a @ ''sw.csv: on, '' @ dec (csv_period_ms a0) @ '' ms\<newline>''\<rparr>)" (is "_ = Some (0, ?a1)")
    and s: "timer_wf s" "timers s t = Some tm" "csv_kind tm" "activated tm" "init_tick tm = csv_period_ms a0"
      "timeout_tick tm = tick_now (a_tm a) + csv_period_ms a0"
    by blast
  have mem: "t \<in> set (rt_soft_timer_list s)"
    using s(1-4) by (auto simp: timer_wf_def csv_kind_def)
  let ?s2 = "(timer_remove t s)\<lparr>timers := (timers s)(t \<mapsto> deactivate tm)\<rparr>"
  have stop: "rt_timer_stop t s = Some (RT_EOK, ?s2)"
    using s(2,4) by (simp add: rt_timer_stop_def Let_def)
  have wf2: "timer_wf ?s2"
    using timer_stop_wf [OF s(1) stop] .
  obtain b2 where off: "cmd_sw_csv [c, ''off''] ?a1 =
      Some (0, ?a1\<lparr>a_tm := ?s2, rt_log_buf := b2, console := console ?a1 @ ''sw.csv: off\<newline>''\<rparr>)"
    using kprintf_literal [of "''sw.csv: off\<newline>''" 0 "?a1\<lparr>a_tm := ?s2\<rparr>"] stop by (auto simp: cmd_sw_csv_def)
  have "cmd_sw_csv [c, ''on'', p] a = Some (0, ?a1)"
    using on by (simp add: cmd_sw_csv_def)
  then show ?thesis
    using off s mem wf2 per
    by (intro exI [of _ ?a1] exI [of _ t] exI [of _ tm] exI [of _ "deactivate tm"]
        exI [of _ "?a1\<lparr>a_tm := ?s2, rt_log_buf := b2, console := console ?a1 @ ''sw.csv: off\<newline>''\<rparr>"])
      (simp add: csv_ok_def csv_kind_def)
qed

theorem csv_on_off_witness:
  "\<exists>a1. cmd_sw_csv [''sw_csv'', ''on'', ''250''] demo_app = Some (0, a1) \<and> csv_timer a1 \<noteq> None"
proof -
  have "timer_wf demo_timers"
    by (simp add: timer_wf_def demo_timers_def)
  then have "csv_ok demo_app"
    by (simp add: csv_ok_def demo_app_def) (simp add: demo_timers_def)
  moreover have "atoi ''250'' = 250"
    by (simp add: atoi_def is_space_def is_digit_def)
  ultimately show ?thesis
    using csv_on_off [of demo_app "''250''" "''sw_csv''"] by auto
qed

text \<open>With -1 the period is the largest tick, and \<open>rt_timer_start\<close> stops the system.\<close>

lemma csv_on_minus_one_asserts:
  assumes "csv_ok a"
  shows "cmd_sw_csv [c, ''on'', ''-1''] a = None"
proof -
  have "atoi ''-1'' = - 1"
    by (simp add: atoi_def is_space_def is_digit_def)
  then have "csv_set_period [c, ''on'', ''-1''] a = a\<lparr>csv_period_ms := 0xFFFFFFFF\<rparr>"
    by (simp add: csv_set_period_def Let_def)
  then show ?thesis
    using assms
    by (auto simp: cmd_sw_csv_def csv_on_def csv_start_def csv_ok_def rt_timer_create_def rt_timer_start_def rt_timer_control_def
        timer_init_fields_def ms_to_ticks_value Let_def split: option.splits)
qed

section \<open>Wrong arguments\<close>

text \<open>The commands that take a word, with the words they accept.\<close>

definition word_commands :: "((string list \<Rightarrow> app \<Rightarrow> (int \<times> app) option) \<times> string list) list" where
  "word_commands = [(cmd_sw_csv, [''on'', ''off'']), (cmd_sw_csv_header, [''on'', ''off'']),
     (cmd_sw_timefmt, [''human'', ''ms'']), (cmd_sw_beep, [''on'', ''off'']), (cmd_sw_light, [''on'', ''off'']),
     (cmd_sw_light_invert, [''on'', ''off'']), (cmd_sw_page, [''main'', ''laps''])]"

definition only_prints :: "(int \<times> app) option \<Rightarrow> int \<Rightarrow> string \<Rightarrow> app \<Rightarrow> bool" where
  "only_prints x r t a \<longleftrightarrow> (\<exists>b. x = Some (r, a\<lparr>rt_log_buf := b, console := console a @ t\<rparr>))"

lemma literal_only_prints: "CHR ''%'' \<notin> set t \<Longrightarrow> length t \<le> 254 \<Longrightarrow> only_prints (kprintf_ret t r a) r t a"
  using kprintf_literal by (simp add: only_prints_def)

text \<open>C32: every command that takes a word and gets none, or a word it does not know, returns
  \<open>-RT_ERROR\<close>, prints one line that starts with \<open>usage: sw\<close>, and changes nothing else.\<close>

theorem wrong_word_rejected:
  assumes "(cmd, words) \<in> set word_commands" "length argv < 2 \<or> argv ! 1 \<notin> set words"
  shows "\<exists>t. only_prints (cmd argv a) (- RT_ERROR) (''usage: sw'' @ t @ ''\<newline>'') a"
proof -
  have p: "only_prints (kprintf_ret (''usage: sw'' @ t @ ''\<newline>'') (- RT_ERROR) a) (- RT_ERROR) (''usage: sw'' @ t @ ''\<newline>'') a"
    if "CHR ''%'' \<notin> set t" "length t \<le> 100" for t
    using that by (intro literal_only_prints) auto
  have "\<exists>t. only_prints (kprintf_ret u (- RT_ERROR) a) (- RT_ERROR) (''usage: sw'' @ t @ ''\<newline>'') a"
    if "u = ''usage: sw'' @ t @ ''\<newline>''" "CHR ''%'' \<notin> set t" "length t \<le> 100" for u t
    using p [of t] that by blast
  note u = this [OF _ _ _]
  show ?thesis
    using assms(2) u [of _ "''.csv on [period_ms]|off''"] u [of _ "''_csv_header on|off''"] u [of _ "''_timefmt human|ms''"]
      u [of _ "''_beep on|off''"] u [of _ "''_light on|off''"] u [of _ "''_light_invert on|off''"] u [of _ "''_page main|laps''"]
      assms(1) unfolding word_commands_def
    by (auto simp: cmd_sw_csv_def cmd_sw_csv_header_def cmd_sw_timefmt_def cmd_sw_beep_def cmd_sw_light_def
        cmd_sw_light_invert_def cmd_sw_page_def switch_cmd_def)
qed

theorem wrong_word_rejected_witness:
  "\<exists>t. only_prints (cmd_sw_page [''sw_page'', ''lap''] demo_app) (- RT_ERROR) (''usage: sw'' @ t @ ''\<newline>'') demo_app"
  using wrong_word_rejected [of cmd_sw_page "[''main'', ''laps'']" "[''sw_page'', ''lap'']" demo_app]
  by (simp add: word_commands_def)

section \<open>Start-up\<close>

text \<open>The state before \<open>main\<close>: the initial values of the file-scope variables.\<close>

definition boot_app :: "hw \<Rightarrow> timer_sys \<Rightarrow> oled \<Rightarrow> app" where
  "boot_app h tm d = \<lparr>a_ui = \<lparr>u_sw = \<lparr>g_sw = ctx_zero, g_inited = 0, tb = timebase_reset_state, sw_hw = h, mutex_available = True\<rparr>,
       u_ol = d, u_ui = \<lparr>s_oled_enabled = True, s_refresh_ms = 10, s_page_drawn = False, s_laps_offset = 0, s_page = 0\<rparr>\<rparr>,
     a_light = \<lparr>s_enabled = True, s_dark = False, s_invert = True\<rparr>, a_buz = \<lparr>s_beep_enabled = True, buz_io = []\<rparr>,
     a_leds = [], a_tm = tm, csv_timer = None, csv_period_ms = 200, csv_header = False, csv_human = False,
     rt_log_buf = (\<lambda>_. CHR 0x00), console = [], timer_memory = None\<rparr>"

lemma oled_init_ok: "disp_ok d \<Longrightarrow> disp_ok (OLED_Init (OLED_SetI2CAddress addr d))"
proof -
  have cmds: "disp_ok (fold (\<lambda>c o'. o'\<lparr>wire_out := OLED_WriteCommand (s_oled_addr o') c (wire_out o')\<rparr>) cs d)"
    if "disp_ok d" for cs d
    using that
  proof (induction cs arbitrary: d)
    case (Cons c cs)
    have "disp_ok (d\<lparr>wire_out := OLED_WriteCommand (s_oled_addr d) c (wire_out d)\<rparr>)"
      using Cons.prems by (auto simp: disp_ok_def) (blast intro: write_command_idle)
    from Cons.IH [OF this] show ?case by simp
  qed simp
  assume "disp_ok d"
  then have "disp_ok ((OLED_SetI2CAddress addr d)\<lparr>wire_out := OLED_GPIO_Init (wire_out (OLED_SetI2CAddress addr d))\<rparr>)"
    using gpio_init_idle by (auto simp: disp_ok_def OLED_SetI2CAddress_def)
  then show ?thesis
    unfolding OLED_Init_def Let_def using update_ok clear_ok cmds by blast
qed

lemma ui_init_ok:
  assumes "disp_ok (u_ol u)"
  obtains d where "ui_oled_init thread u = Some (if \<not> thread then - RT_ENOMEM else RT_EOK, u\<lparr>u_ol := d\<rparr>)" "disp_ok d"
proof -
  let ?d = "OLED_Clear (OLED_Init (OLED_SetI2CAddress 0x78 (u_ol u)))"
  obtain d2 where d2: "OLED_ShowString 0 0 ''RT-Thread'' OLED_6X8 ?d = Some d2" "disp_ok d2"
    using show_some [OF clear_ok [OF oled_init_ok [OF assms]], of "''RT-Thread''" OLED_6X8 0 0] by (auto simp: printable_def)
  obtain d3 where d3: "OLED_ShowString 0 16 ''Stopwatch'' OLED_8X16 d2 = Some d3" "disp_ok d3"
    using show_some [OF d2(2), of "''Stopwatch''" OLED_8X16 0 16] by (auto simp: printable_def)
  show ?thesis
    using that [of "OLED_Update d3"] d2(1) d3 update_ok by (simp add: ui_oled_init_def Let_def)
qed

text \<open>After \<open>main\<close>'s initialisation, whether or not the threads could be created, the stopwatch is
  idle at zero with no laps and well formed, the three LEDs are dark, the buzzer is silent, and the
  beeper and the refresh period of the display follow the level of the light sensor.\<close>

theorem main_boots:
  assumes "disp_ok d"
  shows "\<exists>a. main_init mem level (boot_app h tm d) = Some a \<and> disp_ok (u_ol (a_ui a)) \<and>
    (let s = u_sw (a_ui a) in sw_wf s \<and> g_inited s = 1 \<and> fst (stopwatch_get_state s) = STOPWATCH_STATE_IDLE \<and>
       fst (stopwatch_get_total_ms s) = 0 \<and> sw_laps s = []) \<and>
    (\<forall>p \<in> {LED_RUN_PIN, LED_PAUSE_PIN, LED_ERR_PIN}. \<not> level_after p l (a_leds a)) \<and>
    level_after BUZZER_PIN l (buz_io (a_buz a)) \<and> low_time BUZZER_PIN True (buz_io (a_buz a)) = 0 \<and>
    s_dark (a_light a) = level \<and> s_beep_enabled (a_buz a) = (\<not> level) \<and>
    s_refresh_ms (u_ui (a_ui a)) = (if level then 300 else 10)"
proof -
  let ?a = "on_sw (snd \<circ> stopwatch_init) (boot_app h tm d)"
  obtain m1 m2 m3 where mem: "mem = (m1, m2, m3)"
    by (rule prod_cases3)
  have "disp_ok (u_ol (a_ui ?a))"
    using assms by (simp add: on_sw_def boot_app_def)
  then obtain d' where d': "ui_oled_init m2 (a_ui ?a) = Some (if \<not> m2 then - RT_ENOMEM else RT_EOK, (a_ui ?a)\<lparr>u_ol := d'\<rparr>)" "disp_ok d'"
    by (rule ui_init_ok)
  define s where "s = snd (stopwatch_init (u_sw (a_ui (boot_app h tm d))))"
  have s: "sw_wf s" "g_inited s = 1" "state (g_sw s) = STOPWATCH_STATE_IDLE" "accumulated_ms (g_sw s) = 0" "sw_laps s = []"
    by (auto simp: s_def boot_app_def stopwatch_init_def split_beta Let_def ctx_zero_def sw_wf_def laps_wf_def sw_laps_def stored_laps_def)
  then have t: "fst (stopwatch_get_state s) = STOPWATCH_STATE_IDLE" "fst (stopwatch_get_total_ms s) = 0"
    by (simp_all add: stopwatch_get_state_def stopwatch_get_total_ms_def get_now_total_ms_unsafe_def sw_lock_defs Let_def)
  have u: "snd (stopwatch_init \<lparr>g_sw = ctx_zero, g_inited = 0, tb = timebase_reset_state, sw_hw = h, mutex_available = True\<rparr>) = s"
    by (simp add: s_def boot_app_def)
  show ?thesis
    using d' s(1,2,5) t unfolding mem main_init_def Let_def
    by (auto simp: u on_sw_def boot_app_def indicator_led_init_def led_set_def notifier_buzzer_init_def buz_set_def
        sensor_light_init_def apply_state_def read_do_def notifier_beep_enable_def ui_oled_set_refresh_ms_def Let_def)
qed

theorem main_boots_witness:
  "\<exists>a. main_init (True, False, True) True (boot_app demo_hw demo_timers (u_ol (demo_ui demo_hw timebase_reset_state))) = Some a \<and>
     \<not> s_beep_enabled (a_buz a)"
  using main_boots [OF demo_ui_ok(2), of "(True, False, True)" True demo_hw demo_timers demo_hw timebase_reset_state] by auto

end
