(* ===== verification/Msh.thy ===== *)
theory Msh
  imports Cli
begin

text \<open>
  \<^verbatim>\<open>rt-thread/components/finsh/msh.c\<close>: the command interpreter of the shell (\<open>FINSH_USING_MSH_ONLY\<close>, no
  file system).  A command line is the buffer from \<open>cmd\<close> on; a pointer into it is an index, and
  the characters past the end of the list read as NUL.  The table of exported commands, a section
  the linker collects, is a parameter: the symbols' names with their functions.
\<close>

section \<open>Splitting\<close>

abbreviation (input) FINSH_ARG_MAX :: nat where "FINSH_ARG_MAX \<equiv> 10"

definition at :: "string \<Rightarrow> nat \<Rightarrow> char" where
  "at b i = (if i < length b then b ! i else CHR 0x00)"

definition blank :: "char \<Rightarrow> bool" where
  "blank c \<longleftrightarrow> c = CHR '' '' \<or> c = CHR 0x09"

function strip_blanks :: "nat \<Rightarrow> string \<Rightarrow> nat \<Rightarrow> string \<times> nat" where
  "strip_blanks len b p =
     (if blank (at b p) \<and> p < len then strip_blanks len (b[p := CHR 0x00]) (p + 1) else (b, p))"
  by pat_completeness auto
termination by (relation "measure (\<lambda>(len, b, p). len - p)") auto

function skip_quoted :: "nat \<Rightarrow> string \<Rightarrow> nat \<Rightarrow> nat" where
  "skip_quoted len b p =
     (if at b p \<noteq> CHR 0x22 \<and> p < len
      then skip_quoted len b (if at b p = CHR 0x5C \<and> at b (p + 1) = CHR 0x22 then p + 2 else p + 1)
      else p)"
  by pat_completeness auto
termination by (relation "measure (\<lambda>(len, b, p). len - p)") auto

function skip_word :: "nat \<Rightarrow> string \<Rightarrow> nat \<Rightarrow> nat" where
  "skip_word len b p = (if \<not> blank (at b p) \<and> p < len then skip_word len b (p + 1) else p)"
  by pat_completeness auto
termination by (relation "measure (\<lambda>(len, b, p). len - p)") auto

declare strip_blanks.simps [simp del] skip_quoted.simps [simp del] skip_word.simps [simp del]

lemma strip_blanks_le: "p \<le> snd (strip_blanks len b p)"
  by (induction len b p rule: strip_blanks.induct) (subst strip_blanks.simps, auto)

lemma skip_quoted_le: "p \<le> skip_quoted len b p"
  by (induction len b p rule: skip_quoted.induct) (subst skip_quoted.simps, auto split: if_splits)

lemma skip_word_le: "p \<le> skip_word len b p"
  by (induction len b p rule: skip_word.induct) (subst skip_word.simps, auto)

lemma strip_not_blank:
  "strip_blanks len b p = (b1, p1) \<Longrightarrow> p1 < len \<Longrightarrow> \<not> blank (at b1 p1)"
proof (induction len b p rule: strip_blanks.induct)
  case (1 len b p)
  show ?case
  proof (cases "blank (at b p) \<and> p < len")
    case True
    then show ?thesis
      using 1 by (metis strip_blanks.simps)
  next
    case False
    then have "strip_blanks len b p = (b, p)"
      by (subst strip_blanks.simps) auto
    then show ?thesis
      using False 1(2,3) by auto
  qed
qed

lemma skip_word_less: "\<not> blank (at b p) \<Longrightarrow> p < len \<Longrightarrow> p < skip_word len b p"
  using skip_word_le [of "p + 1" len b] by (subst skip_word.simps) simp

text \<open>The main loop: the buffer, the positions of the arguments, and whether there are too many.\<close>

function split_loop :: "nat \<Rightarrow> string \<Rightarrow> nat \<Rightarrow> nat list \<Rightarrow> string \<times> nat list \<times> bool" where
  "split_loop len b p argv =
     (if p < len
      then let (b1, p1) = strip_blanks len b p in
           if length argv \<ge> FINSH_ARG_MAX then (b1, argv, True)
           else if p1 \<ge> len then (b1, argv, False)
           else if at b1 p1 = CHR 0x22
           then let p2 = skip_quoted len b1 (p1 + 1) in
                if p2 \<ge> len then (b1, argv @ [p1 + 1], False)
                else split_loop len (b1[p2 := CHR 0x00]) (p2 + 1) (argv @ [p1 + 1])
           else let p2 = skip_word len b1 p1 in
                if p2 \<ge> len then (b1, argv @ [p1], False) else split_loop len b1 p2 (argv @ [p1])
      else (b, argv, False))"
  by pat_completeness auto
termination
proof (relation "measure (\<lambda>(len, b, p, argv). len - p)", goal_cases)
  case (2 len b p argv x b1 p1 p2)
  have "p \<le> p1"
    using strip_blanks_le [of p len b] 2(2,3) by (metis snd_conv)
  then show ?case
    using 2 skip_quoted_le [of "p1 + 1" len b1] by (simp add: not_le)
next
  case (3 len b p argv x b1 p1 p2)
  have "p \<le> p1"
    using strip_blanks_le [of p len b] 3(2,3) by (metis snd_conv)
  moreover have "p1 < p2"
    using strip_not_blank [of len b p b1 p1] skip_word_less [of b1 p1 len] 3 by (simp add: not_le)
  ultimately show ?case
    using 3 by (simp add: not_le)
qed simp

declare split_loop.simps [simp del]

definition arg_at :: "string \<Rightarrow> nat \<Rightarrow> string" where
  "arg_at b i = c_str (drop i b)"

definition msh_split :: "string \<Rightarrow> nat \<Rightarrow> app \<Rightarrow> (string \<times> string list \<times> app) option" where
  "msh_split cmd len a =
     (let (b, pos, too_many) = split_loop len cmd 0 [];
          argv = map (arg_at b) pos
      in if too_many
         then do { a1 \<leftarrow> kprintf ''Too many args ! We only Use:\<newline>'' [] a;
                   a2 \<leftarrow> fold_opt (\<lambda>s. kprintf ''%s '' [Str_Arg (Some s)]) argv a1;
                   a3 \<leftarrow> kprintf ''\<newline>'' [] a2;
                   Some (b, argv, a3) }
         else Some (b, argv, a))"

section \<open>Running a command\<close>

type_synonym cmd_function_t = "string list \<Rightarrow> app \<Rightarrow> (int \<times> app) option"

text \<open>The C library's \<open>strncmp (s, t, n) == 0\<close>.\<close>

definition strncmp_eq :: "string \<Rightarrow> string \<Rightarrow> nat \<Rightarrow> bool" where
  "strncmp_eq s t n \<longleftrightarrow> take n (c_str s) = take n (c_str t)"

fun msh_get_cmd :: "(string \<times> cmd_function_t) list \<Rightarrow> string \<Rightarrow> nat \<Rightarrow> cmd_function_t option" where
  "msh_get_cmd [] cmd sz = None"
| "msh_get_cmd ((name, func) # tab) cmd sz =
     (if \<not> strncmp_eq name ''__cmd_'' 6 then msh_get_cmd tab cmd sz
      else if strncmp_eq (drop 6 name) cmd sz \<and> at name (6 + sz) = CHR 0x00 then Some func
      else msh_get_cmd tab cmd sz)"

text \<open>The first result is \<open>None\<close> for \<open>-RT_ERROR\<close> and otherwise what is stored in \<open>*retp\<close>.\<close>

definition msh_exec_cmd ::
  "(string \<times> cmd_function_t) list \<Rightarrow> string \<Rightarrow> nat \<Rightarrow> app \<Rightarrow> (int option \<times> string \<times> app) option" where
  "msh_exec_cmd tab cmd len a =
     (let cmd0_size = skip_word len cmd 0 in
      if cmd0_size = 0 then Some (None, cmd, a)
      else case msh_get_cmd tab cmd cmd0_size of
             None \<Rightarrow> Some (None, cmd, a)
           | Some cmd_func \<Rightarrow>
               do { (b, argv, a1) \<leftarrow> msh_split cmd len a;
                    if argv = [] then Some (None, b, a1)
                    else do { (r, a2) \<leftarrow> cmd_func argv a1; Some (Some r, b, a2) } })"

fun msh_trim :: "string \<Rightarrow> nat \<Rightarrow> string \<times> nat" where
  "msh_trim [] len = ([], len)"
| "msh_trim (c # cmd) len = (if blank c then msh_trim cmd ((len + (2 ^ 32 - 1)) mod 2 ^ 32) else (c # cmd, len))"

definition msh_exec :: "(string \<times> cmd_function_t) list \<Rightarrow> string \<Rightarrow> nat \<Rightarrow> app \<Rightarrow> (int \<times> app) option" where
  "msh_exec tab cmd0 len0 a =
     (let (cmd, len) = msh_trim cmd0 len0 in
      if len = 0 then Some (0, a)
      else do { (r, b, a1) \<leftarrow> msh_exec_cmd tab cmd len a;
                (case r of Some cmd_ret \<Rightarrow> Some (cmd_ret, a1)
                 | None \<Rightarrow>
                     map_option (Pair (- 1))
                       (kprintf ''%s: command not found.\<newline>'' [Str_Arg (Some (takeWhile (\<lambda>c. c \<noteq> CHR '' '') (c_str b)))] a1)) })"

section \<open>Completion\<close>

fun str_common :: "string \<Rightarrow> string \<Rightarrow> nat" where
  "str_common (c # s) (d # t) = (if c \<noteq> CHR 0x00 \<and> d \<noteq> CHR 0x00 \<and> c = d then 1 + str_common s t else 0)"
| "str_common _ _ = 0"

fun print_help :: "(string \<times> string \<times> cmd_function_t) list \<Rightarrow> app \<Rightarrow> app option" where
  "print_help [] a = Some a"
| "print_help ((name, desc, f) # tab) a =
     (if \<not> strncmp_eq name ''__cmd_'' 6 then print_help tab a
      else Option.bind (kprintf ''%-16s - %s\<newline>'' [Str_Arg (Some (drop 6 name)), Str_Arg (Some desc)] a) (print_help tab))"

definition msh_help :: "(string \<times> string \<times> cmd_function_t) list \<Rightarrow> app \<Rightarrow> (int \<times> app) option" where
  "msh_help tab a =
     do { a1 \<leftarrow> kprintf ''RT-Thread shell commands:\<newline>'' [] a;
          a2 \<leftarrow> print_help tab a1;
          kprintf_ret ''\<newline>'' 0 a2 }"

text \<open>The loop over the table: \<open>name_ptr\<close> and \<open>min_length\<close>.\<close>

fun complete_loop ::
  "(string \<times> string \<times> cmd_function_t) list \<Rightarrow> string \<Rightarrow> string option \<Rightarrow> nat \<Rightarrow> app \<Rightarrow> (string option \<times> nat \<times> app) option" where
  "complete_loop [] prefix name_ptr min_length a = Some (name_ptr, min_length, a)"
| "complete_loop ((name, desc, f) # tab) prefix name_ptr min_length a =
     (if \<not> strncmp_eq name ''__cmd_'' 6 then complete_loop tab prefix name_ptr min_length a
      else let cmd_name = drop 6 name in
           if strncmp_eq prefix cmd_name (length (c_str prefix))
           then let (ptr, m) = (if min_length = 0 then (cmd_name, length (c_str cmd_name))
                                else (case name_ptr of None \<Rightarrow> ([], min_length) | Some s \<Rightarrow> (s, min_length)));
                    l = str_common ptr cmd_name;
                    m' = (if l < m then l else m)
                in Option.bind (kprintf ''%s\<newline>'' [Str_Arg (Some cmd_name)] a) (complete_loop tab prefix (Some ptr) m')
           else complete_loop tab prefix name_ptr min_length a)"

definition msh_auto_complete :: "(string \<times> string \<times> cmd_function_t) list \<Rightarrow> string \<Rightarrow> app \<Rightarrow> (string \<times> app) option" where
  "msh_auto_complete tab prefix a =
     (if at prefix 0 = CHR 0x00 then map_option (\<lambda>(r, a1). (prefix, a1)) (msh_help tab a)
      else do { (name_ptr, min_length, a1) \<leftarrow> complete_loop tab prefix None 0 a;
                Some (case name_ptr of None \<Rightarrow> prefix
                      | Some s \<Rightarrow> blit prefix 0 (rt_strncpy s min_length) min_length, a1) })"

section \<open>Words\<close>

text \<open>The reference: the maximal runs of characters that are not blank.\<close>

lemma length_dropWhile_less [termination_simp]: "length (dropWhile P cs) < Suc (length cs)"
  by (simp add: length_dropWhile_le le_imp_less_Suc)

fun words :: "string \<Rightarrow> string list" where
  "words [] = []"
| "words (c # cs) =
     (if blank c then words cs
      else (c # takeWhile (\<lambda>c. \<not> blank c) cs) # words (dropWhile (\<lambda>c. \<not> blank c) cs))"

definition plain :: "char \<Rightarrow> bool" where
  "plain c \<longleftrightarrow> c \<noteq> CHR 0x00 \<and> c \<noteq> CHR 0x22"

lemma blank_nul [simp]: "\<not> blank (CHR 0x00)" "\<not> blank (CHR 0x22)"
  by (simp_all add: blank_def)

lemma at_append [simp]: "length pre = p \<Longrightarrow> at (pre @ c # rest) p = c"
  by (simp add: at_def nth_append)

lemma strip_text:
  assumes "length pre = p" "len = p + length t"
  shows "strip_blanks len (pre @ t @ CHR 0x00 # rest) p =
    (pre @ replicate (length (takeWhile blank t)) (CHR 0x00) @ dropWhile blank t @ CHR 0x00 # rest,
     p + length (takeWhile blank t))"
  using assms
proof (induction t arbitrary: pre p)
  case Nil
  then show ?case by (subst strip_blanks.simps) simp
next
  case (Cons c t)
  show ?case
  proof (cases "blank c")
    case True
    have "strip_blanks len (pre @ (c # t) @ CHR 0x00 # rest) p = strip_blanks len ((pre @ [CHR 0x00]) @ t @ CHR 0x00 # rest) (p + 1)"
      using Cons.prems True by (subst strip_blanks.simps) (simp add: list_update_append)
    then show ?thesis
      using Cons.IH [of "pre @ [CHR 0x00]" "p + 1"] Cons.prems True by simp
  next
    case False
    then show ?thesis
      using Cons.prems by (subst strip_blanks.simps) simp
  qed
qed

lemma skip_word_text:
  assumes "length pre = p" "len = p + length t"
  shows "skip_word len (pre @ t @ CHR 0x00 # rest) p = p + length (takeWhile (\<lambda>c. \<not> blank c) t)"
  using assms
proof (induction t arbitrary: pre p)
  case Nil
  then show ?case by (subst skip_word.simps) simp
next
  case (Cons c t)
  show ?case
  proof (cases "blank c")
    case False
    have "skip_word len (pre @ (c # t) @ CHR 0x00 # rest) p = skip_word len ((pre @ [c]) @ t @ CHR 0x00 # rest) (p + 1)"
      using Cons.prems False by (subst skip_word.simps) simp
    then show ?thesis
      using Cons.IH [of "pre @ [c]" "p + 1"] Cons.prems False by simp
  next
    case True
    then show ?thesis
      using Cons.prems by (subst skip_word.simps) simp
  qed
qed

lemma words_drop_blanks: "words t = words (dropWhile blank t)"
  by (induction t) auto

lemma words_blank: "list_all blank t \<Longrightarrow> words t = []"
  by (induction t) auto

text \<open>The first word of a text and the text behind it, and the round of the main loop that finds it.\<close>

lemma words_first:
  assumes "dropWhile blank t = c # cs" "list_all plain t"
    and "w = c # takeWhile (\<lambda>c. \<not> blank c) cs" "r = dropWhile (\<lambda>c. \<not> blank c) cs"
  shows "c # cs = w @ r" "words t = w # words r" "CHR 0x00 \<notin> set w" "list_all plain r" "c \<noteq> CHR 0x22" "\<not> blank c"
    "r \<noteq> [] \<Longrightarrow> blank (hd r)" "length (takeWhile blank t) + (length w + length r) = length t"
proof -
  have c: "\<not> blank c"
    using assms(1) by (metis dropWhile_eq_Cons_conv)
  have pl: "list_all plain (c # cs)"
    using assms(1,2) by (metis list_all_append takeWhile_dropWhile_id)
  show wr: "c # cs = w @ r"
    by (simp add: assms(3,4))
  show "words t = w # words r"
    using c by (subst words_drop_blanks) (simp add: assms)
  show "CHR 0x00 \<notin> set w"
    using pl by (auto simp: assms(3) list_all_iff plain_def dest: set_takeWhileD)
  show "list_all plain r"
    using pl by (auto simp: assms(4) list_all_iff dest: set_dropWhileD)
  show "c \<noteq> CHR 0x22" "\<not> blank c"
    using pl c by (simp_all add: plain_def)
  show "r \<noteq> [] \<Longrightarrow> blank (hd r)"
    by (metis assms(4) hd_dropWhile)
  have "length (takeWhile blank t) + length (dropWhile blank t) = length t"
    by (metis length_append takeWhile_dropWhile_id)
  then show "length (takeWhile blank t) + (length w + length r) = length t"
    unfolding assms(1) wr by simp
qed

lemma split_round:
  assumes "length pre = p" "len = p + length t" "length argv < FINSH_ARG_MAX"
    and "dropWhile blank t = c # cs" "list_all plain t"
    and "w = c # takeWhile (\<lambda>c. \<not> blank c) cs" "r = dropWhile (\<lambda>c. \<not> blank c) cs"
    and "pre1 = pre @ replicate (length (takeWhile blank t)) (CHR 0x00)" "p1 = length pre1"
  shows "split_loop len (pre @ t @ CHR 0x00 # rest) p argv =
    (if r = [] then (pre1 @ w @ CHR 0x00 # rest, argv @ [p1], False)
     else split_loop len ((pre1 @ w) @ r @ CHR 0x00 # rest) (p1 + length w) (argv @ [p1]))"
proof -
  note f = words_first [OF assms(4-7)]
  have p1: "p1 = p + length (takeWhile blank t)"
    by (simp add: assms(1,8,9))
  have strip: "strip_blanks len (pre @ t @ CHR 0x00 # rest) p = (pre1 @ (c # cs) @ CHR 0x00 # rest, p1)"
    using strip_text [OF assms(1,2)] by (simp add: assms(4,8) p1)
  have len: "len = p1 + length (c # cs)" "len = p1 + length w + length r" "0 < length w"
    using f(8) by (simp_all add: assms(2) p1 f(1) assms(6))
  have at1: "at (pre1 @ (c # cs) @ CHR 0x00 # rest) p1 = c"
    by (simp add: assms(9))
  have word: "skip_word len (pre1 @ (c # cs) @ CHR 0x00 # rest) p1 = p1 + length w"
    using skip_word_text [OF assms(9) [symmetric] len(1)] f(6) by (simp add: assms(6))
  have c: "p < len" "\<not> length argv \<ge> FINSH_ARG_MAX" "\<not> p1 \<ge> len" "p1 + length w \<ge> len \<longleftrightarrow> r = []"
    using len assms(3) p1 by auto
  show ?thesis
    unfolding split_loop.simps [of len "pre @ t @ CHR 0x00 # rest"] strip Let_def prod.case at1 word
    using c f(5) by (simp add: f(1) flip: append_assoc)
qed

text \<open>The invariant of the main loop, for the rest \<open>t\<close> of the text behind the part \<open>pre\<close> already done.\<close>

lemma split_loop_text:
  assumes "length pre = p" "len = p + length t" "list_all plain t"
    and "split_loop len (pre @ t @ CHR 0x00 # rest) p argv = (b, pos, too_many)"
  shows "\<exists>post av. b = pre @ post @ CHR 0x00 # rest \<and> length post = length t \<and> pos = argv @ av \<and>
    (t \<noteq> [] \<longrightarrow> blank (hd t) \<longrightarrow> hd post = CHR 0x00) \<and>
    map (arg_at b) av = take (FINSH_ARG_MAX - length argv) (words t) \<and>
    (length argv + length (words t) < FINSH_ARG_MAX \<longrightarrow> \<not> too_many)"
  using assms
proof (induction "length t" arbitrary: t pre p argv b pos too_many rule: less_induct)
  case less
  let ?z = "replicate (length (takeWhile blank t)) (CHR 0x00)"
  have hdz: "hd (?z @ x) = CHR 0x00" if "t \<noteq> []" "blank (hd t)" for x
    using that by (cases t) auto
  show ?case
  proof (cases "t = [] \<or> length argv \<ge> FINSH_ARG_MAX \<or> dropWhile blank t = []")
    case True
    let ?post = "if t = [] then [] else ?z @ dropWhile blank t"
    have "split_loop len (pre @ t @ CHR 0x00 # rest) p argv =
        (pre @ ?post @ CHR 0x00 # rest, argv, t \<noteq> [] \<and> length argv \<ge> FINSH_ARG_MAX)"
      using True less.prems(2) strip_text [OF less.prems(1,2), of rest]
      by (subst split_loop.simps) (auto simp: Let_def dropWhile_eq_Nil_conv takeWhile_eq_all_conv [THEN iffD2])
    moreover have "words t = [] \<or> length argv \<ge> FINSH_ARG_MAX"
      using True words_drop_blanks [of t] words.simps(1) by metis
    moreover have "length ?post = length t"
      by (auto simp: length_replicate simp flip: length_append [of "takeWhile blank t"])
    ultimately show ?thesis
      using less.prems(4) hdz by (intro exI [of _ ?post] exI [of _ "[]"]) auto
  next
    case False
    then obtain c cs where t1: "dropWhile blank t = c # cs"
      by (cases "dropWhile blank t") auto
    define w where "w = c # takeWhile (\<lambda>c. \<not> blank c) cs"
    define r where "r = dropWhile (\<lambda>c. \<not> blank c) cs"
    define p1 where "p1 = length (pre @ ?z)"
    note f = words_first [OF t1 less.prems(3) w_def r_def]
    have len: "length r < length t" "length ((pre @ ?z) @ w) = p1 + length w" "len = p1 + length w + length r"
      using f(8) less.prems(1,2) by (auto simp: p1_def w_def)
    note go = split_round [OF less.prems(1,2) _ t1 less.prems(3) w_def r_def refl p1_def, of argv rest]
    show ?thesis
    proof (cases "r = []")
      case True
      have "arg_at (pre @ ?z @ w @ CHR 0x00 # rest) p1 = w"
        using f(3) by (simp add: arg_at_def c_str_stop p1_def)
      then show ?thesis
        using go less.prems(4) True False hdz f(2,8)
        by (intro exI [of _ "?z @ w"] exI [of _ "[p1]"]) (auto simp: Suc_diff_le not_le)
    next
      case rest: False
      have "split_loop len (((pre @ ?z) @ w) @ r @ CHR 0x00 # rest) (p1 + length w) (argv @ [p1]) = (b, pos, too_many)"
        using go less.prems(4) False rest by (simp add: not_le)
      from less.hyps [OF len f(4) this] rest f(7) obtain post av where
        post: "b = ((pre @ ?z) @ w) @ post @ CHR 0x00 # rest" "length post = length r" "pos = (argv @ [p1]) @ av" "hd post = CHR 0x00"
          "map (arg_at b) av = take (FINSH_ARG_MAX - length (argv @ [p1])) (words r)"
          "length (argv @ [p1]) + length (words r) < FINSH_ARG_MAX \<longrightarrow> \<not> too_many"
        by blast
      obtain q where q: "post = CHR 0x00 # q"
        using post(2,4) rest by (cases post) auto
      have "arg_at b p1 = w"
        unfolding post(1) q using f(3) by (simp add: arg_at_def c_str_stop p1_def)
      then show ?thesis
        using post False f(2,8) hdz
        by (intro exI [of _ "?z @ w @ post"] exI [of _ "p1 # av"]) (auto simp: Suc_diff_le not_le take_Cons')
    qed
  qed
qed

definition prints :: "app option \<Rightarrow> app \<Rightarrow> bool" where
  "prints x a \<longleftrightarrow> (\<exists>b out. x = Some (a\<lparr>rt_log_buf := b, console := console a @ out\<rparr>))"

lemma kprintf_prints: "format_text fmt args = Some t \<Longrightarrow> prints (kprintf fmt args a) a"
  by (auto simp: prints_def kprintf_def rt_kprintf_def rt_vsnprintf_text)

lemma prints_bind: "prints x a \<Longrightarrow> (\<And>a'. prints (f a') a') \<Longrightarrow> prints (Option.bind x f) a"
proof -
  assume x: "prints x a" and f: "\<And>a'. prints (f a') a'"
  obtain b out where "x = Some (a\<lparr>rt_log_buf := b, console := console a @ out\<rparr>)" (is "_ = Some ?a")
    using x by (auto simp: prints_def)
  then show ?thesis
    using f [of ?a] by (auto simp: prints_def)
qed

lemma print_args_prints: "prints (fold_opt (\<lambda>s. kprintf ''%s '' [Str_Arg (Some s)]) argv a) a"
proof (induction argv arbitrary: a)
  case Nil
  have "a = a\<lparr>rt_log_buf := rt_log_buf a, console := console a @ []\<rparr>"
    by simp
  then show ?case
    unfolding prints_def fold_opt.simps by blast
next
  case (Cons s argv)
  have "prints (kprintf ''%s '' [Str_Arg (Some s)] a) a" for a
    by (rule kprintf_prints [of _ _ "c_str s @ '' ''"]) (simp add: format_simps format_text.simps(1))
  then show ?case
    using Cons.IH by (simp add: prints_bind)
qed

lemma too_many_prints:
  "prints (do { a1 \<leftarrow> kprintf ''Too many args ! We only Use:\<newline>'' [] a;
      a2 \<leftarrow> fold_opt (\<lambda>s. kprintf ''%s '' [Str_Arg (Some s)]) argv a1;
      kprintf ''\<newline>'' [] a2 }) a"
  by (intro prints_bind print_args_prints kprintf_prints [OF format_literal]) auto

lemma split_text:
  assumes "list_all plain t"
  shows "\<exists>b a'. msh_split (t @ CHR 0x00 # rest) (length t) a = Some (b, take FINSH_ARG_MAX (words t), a') \<and>
    prints (Some a') a \<and> (length (words t) < FINSH_ARG_MAX \<longrightarrow> a' = a)"
proof -
  obtain b pos too_many where e: "split_loop (length t) (t @ CHR 0x00 # rest) 0 [] = (b, pos, too_many)"
    by (metis prod_cases3)
  then have s: "map (arg_at b) pos = take FINSH_ARG_MAX (words t)" "length (words t) < FINSH_ARG_MAX \<longrightarrow> \<not> too_many"
    using split_loop_text [of "[]" 0 "length t" t rest "[]" b pos too_many] assms by auto
  have same: "prints (Some a) a"
    using print_args_prints [of "[]" a] by simp
  show ?thesis
  proof (cases too_many)
    case True
    obtain a' where a': "do { a1 \<leftarrow> kprintf ''Too many args ! We only Use:\<newline>'' [] a;
        a2 \<leftarrow> fold_opt (\<lambda>s. kprintf ''%s '' [Str_Arg (Some s)]) (map (arg_at b) pos) a1;
        kprintf ''\<newline>'' [] a2 } = Some a'" "prints (Some a') a"
      using too_many_prints [of a "map (arg_at b) pos"] unfolding prints_def by blast
    then have "msh_split (t @ CHR 0x00 # rest) (length t) a = Some (b, map (arg_at b) pos, a')"
      using True by (auto simp: msh_split_def e split: Option.bind_splits)
    then show ?thesis
      using s True a'(2) by auto
  qed (use e s same in \<open>simp add: msh_split_def\<close>)
qed

text \<open>\<open>msh_split\<close> finds the words: for a line with no quotation mark it returns the first ten of
  the maximal runs of characters other than blank and tab, as strings of their own, whatever
  stands in the buffer behind the line; it prints nothing when there are fewer than ten.\<close>

theorem msh_split_words:
  assumes "list_all plain t"
  shows "\<exists>b a'. msh_split (t @ CHR 0x00 # rest) (length t) a = Some (b, take FINSH_ARG_MAX (words t), a') \<and>
    prints (Some a') a \<and> (length (words t) < FINSH_ARG_MAX \<longrightarrow> a' = a)"
  by (rule split_text [OF assms])

theorem msh_split_words_witness:
  "\<exists>b. msh_split (''sw_csv  on 50 '' @ CHR 0x00 # ''old'') 14 demo_app = Some (b, [''sw_csv'', ''on'', ''50''], demo_app)"
  using msh_split_words [of "''sw_csv  on 50 ''" "''old''" demo_app]
  by (auto simp: plain_def blank_def eval_nat_numeral)

section \<open>Dispatch\<close>

text \<open>The reference: the function of the first symbol \<open>__cmd_\<open>name\<close>\<close>.\<close>

fun command_of :: "(string \<times> cmd_function_t) list \<Rightarrow> string \<Rightarrow> cmd_function_t option" where
  "command_of [] w = None"
| "command_of ((name, func) # tab) w = (if c_str name = ''__cmd_'' @ w then Some func else command_of tab w)"

lemma get_cmd_command:
  assumes "CHR 0x00 \<notin> set w" "w \<noteq> []"
  shows "msh_get_cmd tab (w @ rest) (length w) = command_of tab w"
proof (induction tab)
  case (Cons e tab)
  obtain name func where e: "e = (name, func)" by (cases e)
  have w: "c_str (w @ rest) = w @ c_str rest"
    unfolding c_str_def using assms(1) by (intro takeWhile_append2) auto
  have six: "strncmp_eq name ''__cmd_'' 6 \<longleftrightarrow> take 6 (c_str name) = ''__cmd_''"
    by (simp add: strncmp_eq_def c_str_def)
  have "strncmp_eq (drop 6 name) (w @ rest) (length w) \<and> at name (6 + length w) = CHR 0x00 \<longleftrightarrow> c_str name = ''__cmd_'' @ w"
    if "take 6 (c_str name) = ''__cmd_''"
  proof -
    define m where "m = drop 6 (c_str name)"
    define x where "x = dropWhile (\<lambda>c. c \<noteq> CHR 0x00) name"
    have m: "c_str name = ''__cmd_'' @ m" "CHR 0x00 \<notin> set m"
      using that append_take_drop_id [of 6 "c_str name"] by (auto simp: m_def c_str_def dest!: in_set_dropD set_takeWhileD)
    have "c_str name @ x = name"
      by (simp add: x_def c_str_def)
    then have name: "name = ''__cmd_'' @ m @ x"
      unfolding m(1) by simp
    have x: "x = [] \<or> hd x = CHR 0x00"
      using hd_dropWhile [of "\<lambda>c. c \<noteq> CHR 0x00" name] by (auto simp: x_def)
    have "c_str (drop 6 name) = m"
    proof (cases x)
      case (Cons c u)
      then show ?thesis
        using x m(2) by (simp add: name c_str_stop)
    qed (use m(2) in \<open>simp add: name c_str_id\<close>)
    moreover have "at name (6 + length w) = (if length w < length m then m ! length w else CHR 0x00)" if "length w \<le> length m"
      using that x by (cases x) (auto simp: name at_def nth_append)
    moreover have "length w < length m \<Longrightarrow> m ! length w \<noteq> CHR 0x00"
      using m(2) by (metis nth_mem)
    ultimately show ?thesis
      by (auto simp: strncmp_eq_def w m(1) split: if_splits dest: sym) (metis append_eq_conv_conj append_take_drop_id length_take min.absorb_iff2 nat_le_linear not_less take_all)
  qed
  then show ?case
    using Cons six by (auto simp: e)
qed simp

lemma trim_text:
  assumes "length t < 2 ^ 32"
  shows "msh_trim (t @ CHR 0x00 # rest) (length t) = (dropWhile blank t @ CHR 0x00 # rest, length (dropWhile blank t))"
  using assms
proof (induction t)
  case (Cons c t)
  have "length (c # t) + (2 ^ 32 - 1) = length t + 2 ^ 32" "length t < 2 ^ 32"
    using Cons.prems by simp_all
  then have "(length (c # t) + (2 ^ 32 - 1)) mod 2 ^ 32 = length t"
    by (simp only: mod_add_self2 mod_less)
  then show ?case
    using Cons by (cases "blank c") simp_all
qed simp

text \<open>What a command line is meant to do.  A blank line does nothing and returns 0; a line whose first
  word is the name of an exported command calls that command's function with the words of the line
  and returns its result; any other line prints the line up to its first space and
  \<open>command not found\<close>, returns -1, and changes nothing else.\<close>

definition run_words :: "(string \<times> cmd_function_t) list \<Rightarrow> string \<Rightarrow> app \<Rightarrow> (int \<times> app) option" where
  "run_words tab t a =
     (case words t of [] \<Rightarrow> Some (0, a)
      | w # ws \<Rightarrow>
          (case command_of tab w of Some f \<Rightarrow> f (w # ws) a
           | None \<Rightarrow> map_option (Pair (- 1))
               (kprintf ''%s: command not found.\<newline>'' [Str_Arg (Some (takeWhile (\<lambda>c. c \<noteq> CHR '' '') (dropWhile blank t)))] a)))"

theorem msh_exec_runs:
  assumes "list_all plain t" "length t < 2 ^ 32" "length (words t) < FINSH_ARG_MAX"
  shows "msh_exec tab (t @ CHR 0x00 # rest) (length t) a = run_words tab t a"
proof (cases "dropWhile blank t")
  case Nil
  then have "words t = []"
    using words_drop_blanks [of t] by (metis words.simps(1))
  then show ?thesis
    using Nil unfolding msh_exec_def trim_text [OF assms(2)] run_words_def by simp
next
  case (Cons c cs)
  define w where "w = c # takeWhile (\<lambda>c. \<not> blank c) cs"
  define r where "r = dropWhile (\<lambda>c. \<not> blank c) cs"
  note f = words_first [OF Cons assms(1) w_def r_def]
  let ?t = "dropWhile blank t"
  have pl: "list_all plain ?t"
    using assms(1) by (auto simp: list_all_iff dest: set_dropWhileD)
  have ws: "words ?t = words t"
    using words_drop_blanks [of t] by simp
  have len: "skip_word (length ?t) (?t @ CHR 0x00 # rest) 0 = length w"
    using skip_word_text [of "[]" 0 "length ?t" ?t rest] f(6) Cons by (simp add: w_def)
  have cmd: "msh_get_cmd tab (?t @ CHR 0x00 # rest) (length w) = command_of tab w"
    unfolding Cons f(1) using get_cmd_command [OF f(3), of tab "r @ CHR 0x00 # rest"] by (simp add: w_def)
  obtain b where split: "msh_split (?t @ CHR 0x00 # rest) (length ?t) a = Some (b, words t, a)"
    using split_text [OF pl, of rest a] assms(3) ws by auto
  have "w \<noteq> []" "?t \<noteq> []"
    using Cons by (simp_all add: w_def)
  moreover have "c_str (?t @ CHR 0x00 # rest) = ?t"
    using pl by (intro c_str_stop) (auto simp: list_all_iff plain_def)
  ultimately show ?thesis
    unfolding msh_exec_def trim_text [OF assms(2)] prod.case Let_def msh_exec_cmd_def len cmd run_words_def
    using split f(2) by (cases "command_of tab w"; cases "the (command_of tab w) (words t) a") auto
qed

text \<open>The commands of \<^verbatim>\<open>stopwatch_cli.c\<close> as the export macro names them.\<close>

definition stopwatch_commands :: "(string \<times> cmd_function_t) list" where
  "stopwatch_commands =
     [(''__cmd_sw_start'', cmd_sw_start), (''__cmd_sw_stop'', cmd_sw_stop), (''__cmd_sw_reset'', cmd_sw_reset),
      (''__cmd_sw_lap'', cmd_sw_lap), (''__cmd_sw_status'', cmd_sw_status), (''__cmd_sw_clear_laps'', cmd_sw_clear_laps),
      (''__cmd_sw_csv'', cmd_sw_csv), (''__cmd_sw_csv_header'', cmd_sw_csv_header), (''__cmd_sw_timefmt'', cmd_sw_timefmt),
      (''__cmd_sw_beep'', cmd_sw_beep), (''__cmd_sw_light'', cmd_sw_light), (''__cmd_sw_light_invert'', cmd_sw_light_invert),
      (''__cmd_sw_oled_rate'', cmd_sw_oled_rate), (''__cmd_sw_page'', cmd_sw_page),
      (''__cmd_sw_laps_prev'', cmd_sw_laps_prev), (''__cmd_sw_laps_next'', cmd_sw_laps_next)]"

lemma sw_lap_line:
  "msh_exec stopwatch_commands (''  sw_lap '' @ CHR 0x00 # ''x'') 9 a = cmd_sw_lap [''sw_lap''] a"
proof -
  have "length ''  sw_lap '' = 9" "words ''  sw_lap '' = [''sw_lap'']" "list_all plain ''  sw_lap ''"
    by (simp_all add: plain_def blank_def)
  moreover have "command_of stopwatch_commands ''sw_lap'' = Some cmd_sw_lap"
    by (simp add: stopwatch_commands_def c_str_def)
  moreover have "length [''sw_lap''] < FINSH_ARG_MAX"
    by simp
  ultimately show ?thesis
    using msh_exec_runs [of "''  sw_lap ''" stopwatch_commands "''x''" a]
    by (simp add: run_words_def del: words.simps list.size)
qed

end
