(* ===== verification/Shell.thy ===== *)
theory Shell
  imports Msh
begin

text \<open>
  \<^verbatim>\<open>rt-thread/components/finsh/shell.c\<close>: the line editor of the shell, its history, and the step from a
  typed line to the command interpreter.  \<open>shell\<close> is \<open>struct finsh_shell\<close> with the prompt; the
  endless loop of the thread is its iteration \<open>finsh_step\<close> on one received character, and what it
  writes goes to the console of \<open>app\<close>.  The command table is a parameter.  \<open>None\<close> is also a
  \<open>rt_memmove\<close> that leaves the line buffer.
\<close>

section \<open>State\<close>

abbreviation (input) FINSH_CMD_SIZE :: nat where "FINSH_CMD_SIZE \<equiv> 80"
abbreviation (input) FINSH_HISTORY_LINES :: nat where "FINSH_HISTORY_LINES \<equiv> 5"

datatype input_stat = WAIT_NORMAL | WAIT_SPEC_KEY | WAIT_FUNC_KEY

record shell =
  stat :: input_stat
  echo_mode :: bool
  prompt_mode :: bool
  current_history :: u16
  history_count :: u16
  cmd_history :: "string list"
  line :: string
  line_position :: u16
  line_curpos :: u16
  finsh_prompt_custom :: "string option"

type_synonym syscall_table = "(string \<times> string \<times> cmd_function_t) list"

definition finsh_get_prompt :: "shell \<Rightarrow> string" where
  "finsh_get_prompt sh =
     (if \<not> prompt_mode sh then []
      else case finsh_prompt_custom sh of Some p \<Rightarrow> take 256 (c_str p) | None \<Rightarrow> ''msh >'')"

text \<open>The two modes are bit fields of one bit: a setter keeps the lowest bit of its argument, so that
  an even one clears the mode.\<close>

definition finsh_set_prompt_mode :: "u32 \<Rightarrow> shell \<Rightarrow> shell" where
  "finsh_set_prompt_mode m sh = sh\<lparr>prompt_mode := odd m\<rparr>"

definition finsh_get_prompt_mode :: "shell \<Rightarrow> u32" where
  "finsh_get_prompt_mode sh = of_bool (prompt_mode sh)"

definition finsh_set_echo :: "u32 \<Rightarrow> shell \<Rightarrow> shell" where
  "finsh_set_echo e sh = sh\<lparr>echo_mode := odd e\<rparr>"

definition finsh_get_echo :: "shell \<Rightarrow> u32" where
  "finsh_get_echo sh = of_bool (echo_mode sh)"

section \<open>History\<close>

definition pad :: "string \<Rightarrow> string" where
  "pad t = t @ replicate (FINSH_CMD_SIZE - length t) (CHR 0x00)"

text \<open>A new row at the end, the oldest row dropped when the history is full.\<close>

definition history_add :: "string \<Rightarrow> string list \<times> u16 \<Rightarrow> string list \<times> u16" where
  "history_add row hn =
     (let (h, n) = hn in
      if n \<ge> of_nat FINSH_HISTORY_LINES
      then ((blit h 0 (drop 1 h) (FINSH_HISTORY_LINES - 1))[FINSH_HISTORY_LINES - 1 := row], of_nat FINSH_HISTORY_LINES)
      else (h[unat n := row], n + 1))"

definition shell_push_history :: "shell \<Rightarrow> shell" where
  "shell_push_history sh =
     (let n = history_count sh;
          row = pad (take (unat (line_position sh)) (line sh));
          same = (\<lambda>i. cmd_history sh ! i = take FINSH_CMD_SIZE (line sh));
          add = (let (h, m) = history_add row (cmd_history sh, n) in sh\<lparr>cmd_history := h, history_count := m\<rparr>);
          sh1 = (if line_position sh \<noteq> 0
                 then if n \<ge> of_nat FINSH_HISTORY_LINES
                      then if same (FINSH_HISTORY_LINES - 1) then sh else add
                      else if n = 0 \<or> \<not> same (unat (n - 1)) then add else sh
                 else sh)
      in sh1\<lparr>current_history := history_count sh1\<rparr>)"

definition shell_handle_history :: "shell \<Rightarrow> app \<Rightarrow> app option" where
  "shell_handle_history sh a =
     do { a1 \<leftarrow> kprintf (CHR 0x1B # ''[2K'' @ [CHR 0x0D]) [] a;
          kprintf ''%s%s'' [Str_Arg (Some (finsh_get_prompt sh)), Str_Arg (Some (line sh))] a1 }"

text \<open>The row \<open>i\<close> of the history becomes the line, and the cursor stands at its end.\<close>

definition recall :: "u16 \<Rightarrow> shell \<Rightarrow> shell" where
  "recall i sh =
     (let l = blit (line sh) 0 (cmd_history sh ! unat i) FINSH_CMD_SIZE; n = of_nat (length (c_str l)) in
      sh\<lparr>current_history := i, line := l, line_curpos := n, line_position := n\<rparr>)"

definition up_key :: "shell \<Rightarrow> app \<Rightarrow> (shell \<times> app) option" where
  "up_key sh a =
     (if current_history sh > 0
      then let sh1 = recall (current_history sh - 1) sh in map_option (Pair sh1) (shell_handle_history sh1 a)
      else Some (sh\<lparr>current_history := 0\<rparr>, a))"

text \<open>The comparison is done in \<open>int\<close>, so that an empty history compares with -1.\<close>

definition down_key :: "shell \<Rightarrow> app \<Rightarrow> (shell \<times> app) option" where
  "down_key sh a =
     (if int (unat (current_history sh)) < int (unat (history_count sh)) - 1
      then let sh1 = recall (current_history sh + 1) sh in map_option (Pair sh1) (shell_handle_history sh1 a)
      else if history_count sh \<noteq> 0
      then let sh1 = recall (history_count sh - 1) sh in map_option (Pair sh1) (shell_handle_history sh1 a)
      else Some (sh, a))"

section \<open>Editing\<close>

definition backspaces :: "nat \<Rightarrow> app \<Rightarrow> app option" where
  "backspaces n = fold_opt (\<lambda>_. kprintf [CHR 0x08] []) [0..<n]"

definition left_key :: "shell \<Rightarrow> app \<Rightarrow> (shell \<times> app) option" where
  "left_key sh a =
     (if line_curpos sh \<noteq> 0
      then map_option (Pair (sh\<lparr>line_curpos := line_curpos sh - 1\<rparr>)) (kprintf [CHR 0x08] [] a)
      else Some (sh, a))"

definition right_key :: "shell \<Rightarrow> app \<Rightarrow> (shell \<times> app) option" where
  "right_key sh a =
     (if line_curpos sh < line_position sh
      then map_option (Pair (sh\<lparr>line_curpos := line_curpos sh + 1\<rparr>))
             (kprintf ''%c'' [Int_Arg (of_char (line sh ! unat (line_curpos sh)))] a)
      else Some (sh, a))"

definition shell_auto_complete :: "syscall_table \<Rightarrow> shell \<Rightarrow> app \<Rightarrow> (shell \<times> app) option" where
  "shell_auto_complete tab sh a =
     do { a1 \<leftarrow> kprintf ''\<newline>'' [] a;
          (l, a2) \<leftarrow> msh_auto_complete tab (line sh) a1;
          a3 \<leftarrow> kprintf ''%s%s'' [Str_Arg (Some (finsh_get_prompt sh)), Str_Arg (Some l)] a2;
          Some (sh\<lparr>line := l\<rparr>, a3) }"

definition tab_key :: "syscall_table \<Rightarrow> shell \<Rightarrow> app \<Rightarrow> (shell \<times> app) option" where
  "tab_key tab sh a =
     do { a1 \<leftarrow> backspaces (unat (line_curpos sh)) a;
          (sh1, a2) \<leftarrow> shell_auto_complete tab sh a1;
          let n = of_nat (length (c_str (line sh1))) in Some (sh1\<lparr>line_curpos := n, line_position := n\<rparr>, a2) }"

definition backspace_key :: "shell \<Rightarrow> app \<Rightarrow> (shell \<times> app) option" where
  "backspace_key sh a =
     (if line_curpos sh = 0 then Some (sh, a)
      else let pos = line_position sh - 1; cur = line_curpos sh - 1; p = unat pos; c = unat cur in
           if pos > cur
           then if p + 1 > length (line sh) then None
                else let l = (blit (line sh) c (drop (c + 1) (line sh)) (p - c))[p := CHR 0x00] in
                do { a1 \<leftarrow> kprintf (CHR 0x08 # ''%s  '' @ [CHR 0x08]) [Str_Arg (Some (drop c l))] a;
                     a2 \<leftarrow> backspaces (p + 1 - c) a1;
                     Some (sh\<lparr>line := l, line_position := pos, line_curpos := cur\<rparr>, a2) }
           else map_option (Pair (sh\<lparr>line := (line sh)[p := CHR 0x00], line_position := pos, line_curpos := cur\<rparr>))
                  (kprintf [CHR 0x08, CHR '' '', CHR 0x08] [] a))"

definition enter_key :: "syscall_table \<Rightarrow> shell \<Rightarrow> app \<Rightarrow> (shell \<times> app) option" where
  "enter_key tab sh a =
     (let sh1 = shell_push_history sh in
      do { a1 \<leftarrow> (if echo_mode sh1 then kprintf ''\<newline>'' [] a else Some a);
           (r, a2) \<leftarrow> msh_exec (map (\<lambda>(name, desc, f). (name, f)) tab) (line sh1) (unat (line_position sh1)) a1;
           a3 \<leftarrow> kprintf (finsh_get_prompt sh1) [] a2;
           Some (sh1\<lparr>line := replicate (FINSH_CMD_SIZE + 1) (CHR 0x00), line_curpos := 0, line_position := 0\<rparr>, a3) })"

definition char_key :: "char \<Rightarrow> shell \<Rightarrow> app \<Rightarrow> (shell \<times> app) option" where
  "char_key ch sh0 a =
     (let sh = (if line_position sh0 \<ge> of_nat FINSH_CMD_SIZE then sh0\<lparr>line_position := 0\<rparr> else sh0);
          p = unat (line_position sh); c = unat (line_curpos sh)
      in do { (l, a1) \<leftarrow>
                (if line_curpos sh < line_position sh
                 then let l = (blit (line sh) (c + 1) (drop c (line sh)) (p - c))[c := ch] in
                      do { a1 \<leftarrow> (if echo_mode sh then kprintf ''%s'' [Str_Arg (Some (drop c l))] a else Some a);
                           a2 \<leftarrow> backspaces (p - c) a1;
                           Some (l, a2) }
                 else do { a1 \<leftarrow> (if echo_mode sh then kprintf ''%c'' [Int_Arg (of_char ch)] a else Some a);
                           Some ((line sh)[p := ch], a1) });
              let sh1 = sh\<lparr>line := l, line_position := line_position sh + 1, line_curpos := line_curpos sh + 1\<rparr> in
              Some (if line_position sh1 \<ge> of_nat FINSH_CMD_SIZE
                    then sh1\<lparr>line_position := 0, line_curpos := 0\<rparr> else sh1, a1) })"

definition plain_key :: "syscall_table \<Rightarrow> char \<Rightarrow> shell \<Rightarrow> app \<Rightarrow> (shell \<times> app) option" where
  "plain_key tab ch sh a =
     (if ch = CHR 0x00 \<or> ch = CHR 0xFF then Some (sh, a)
      else if ch = CHR 0x09 then tab_key tab sh a
      else if ch = CHR 0x7F \<or> ch = CHR 0x08 then backspace_key sh a
      else if ch = CHR 0x0D \<or> ch = CHR 0x0A then enter_key tab sh a
      else char_key ch sh a)"

definition finsh_step :: "syscall_table \<Rightarrow> char \<Rightarrow> shell \<times> app \<Rightarrow> (shell \<times> app) option" where
  "finsh_step tab ch st =
     (let (sh, a) = st in
      if ch = CHR 0x1B then Some (sh\<lparr>stat := WAIT_SPEC_KEY\<rparr>, a)
      else case stat sh of
             WAIT_SPEC_KEY \<Rightarrow>
               if ch = CHR 0x5B then Some (sh\<lparr>stat := WAIT_FUNC_KEY\<rparr>, a)
               else plain_key tab ch (sh\<lparr>stat := WAIT_NORMAL\<rparr>) a
           | WAIT_FUNC_KEY \<Rightarrow>
               let sh1 = sh\<lparr>stat := WAIT_NORMAL\<rparr> in
               if ch = CHR 0x41 then up_key sh1 a
               else if ch = CHR 0x42 then down_key sh1 a
               else if ch = CHR 0x44 then left_key sh1 a
               else if ch = CHR 0x43 then right_key sh1 a
               else plain_key tab ch sh1 a
           | WAIT_NORMAL \<Rightarrow> plain_key tab ch sh a)"

section \<open>The edited line\<close>

text \<open>The buffer holds the text \<open>l @ r\<close> and zeros, the cursor stands between \<open>l\<close> and \<open>r\<close>.\<close>

definition edits :: "shell \<Rightarrow> string \<Rightarrow> string \<Rightarrow> bool" where
  "edits sh l r \<longleftrightarrow> length l + length r < FINSH_CMD_SIZE \<and> CHR 0x00 \<notin> set l \<union> set r \<and>
     line sh = l @ r @ replicate (FINSH_CMD_SIZE + 1 - (length l + length r)) (CHR 0x00) \<and>
     unat (line_curpos sh) = length l \<and> unat (line_position sh) = length l + length r"

lemma unat_up: "unat (x :: u16) < 100 \<Longrightarrow> unat (x + 1) = unat x + 1"
  by (simp add: unat_word_ariths)

lemma unat_down: "x \<noteq> (0 :: u16) \<Longrightarrow> unat (x - 1) = unat x - 1"
  by (simp add: unat_minus_one)

lemma unat_minus_one_u16: "unat (- 1 :: u16) = 65535"
proof -
  have "- 1 = (65535 :: u16)" by simp
  then show ?thesis unfolding \<open>- 1 = 65535\<close> unat_numeral by simp
qed

lemma editsD:
  assumes "edits sh l r"
  shows "unat (line_curpos sh) = length l" "unat (line_position sh) = length l + length r"
    "line_curpos sh < line_position sh \<longleftrightarrow> r \<noteq> []" "line_curpos sh = 0 \<longleftrightarrow> l = []" "line_position sh = 0 \<longleftrightarrow> l = [] \<and> r = []"
    "length (line sh) = FINSH_CMD_SIZE + 1" "length l + length r < FINSH_CMD_SIZE"
proof -
  show u: "unat (line_curpos sh) = length l" "unat (line_position sh) = length l + length r"
    and "length l + length r < FINSH_CMD_SIZE"
    using assms by (simp_all add: edits_def)
  then show "line_curpos sh < line_position sh \<longleftrightarrow> r \<noteq> []" "length (line sh) = FINSH_CMD_SIZE + 1"
    using assms by (simp_all add: word_less_nat_alt edits_def)
  show "line_curpos sh = 0 \<longleftrightarrow> l = []" "line_position sh = 0 \<longleftrightarrow> l = [] \<and> r = []"
    using u by (metis unat_eq_zero length_0_conv, metis unat_eq_zero add_is_0 length_0_conv)
qed

lemma edits_stat [simp]: "edits (sh\<lparr>stat := s\<rparr>) l r = edits sh l r"
  by (simp add: edits_def)

text \<open>What the keys print changes only the console.\<close>

lemma prints_refl: "prints (Some a) a"
proof -
  have "a = a\<lparr>rt_log_buf := rt_log_buf a, console := console a @ []\<rparr>"
    by simp
  then show ?thesis
    unfolding prints_def by blast
qed

lemma prints_obtain:
  assumes "prints x a"
  obtains a' where "x = Some a'" "prints (Some a') a"
  using assms by (auto simp: prints_def)

lemma prints_trans: "prints (Some a1) a \<Longrightarrow> prints x a1 \<Longrightarrow> prints x a"
  by (auto simp: prints_def) blast

lemma prints_fold: "(\<And>x a. prints (f x a) a) \<Longrightarrow> prints (fold_opt f xs a) a"
proof (induction xs arbitrary: a)
  case Nil
  then show ?case by (simp add: prints_refl)
next
  case (Cons x xs)
  then show ?case by (simp add: prints_bind)
qed

lemma prints_literal: "CHR ''%'' \<notin> set t \<Longrightarrow> prints (kprintf t [] a) a"
  by (rule kprintf_prints [OF format_literal])

lemma prints_string: "prints (kprintf ''%s'' [Str_Arg (Some t)] a) a"
  by (rule kprintf_prints [of _ _ "c_str t"]) (simp add: format_simps format_text.simps(1))

lemma prints_two: "prints (kprintf ''%s%s'' [Str_Arg (Some t), Str_Arg (Some u)] a) a"
  by (rule kprintf_prints [of _ _ "c_str t @ c_str u"]) (simp add: format_simps format_text.simps(1))

lemma prints_char: "prints (kprintf ''%c'' [Int_Arg n] a) a"
proof -
  have "parse_spec ''c'' [Int_Arg n] = Some \<lparr>cs_flags = 0, cs_width = - 1, cs_prec = - 1,
      cs_qual = CHR 0x00, cs_rest = ''c'', cs_args = [Int_Arg n]\<rparr>"
    by (simp add: parse_spec_def parse_width_def parse_precision_def next_is_def is_digit_def)
  then have "format_text ''%c'' [Int_Arg n] = Some (char_text 0 (- 1) n)"
    by (simp add: format_text.simps convert_text_def)
  then show ?thesis by (rule kprintf_prints)
qed

lemma prints_backspace: "prints (kprintf (CHR 0x08 # ''%s  '' @ [CHR 0x08]) [Str_Arg (Some t)] a) a"
  by (rule kprintf_prints [of _ _ "CHR 0x08 # c_str t @ ''  '' @ [CHR 0x08]"]) (simp add: format_simps format_text.simps(1))

lemma prints_backspaces: "prints (backspaces n a) a"
  unfolding backspaces_def by (intro prints_fold prints_literal) simp

lemmas prints_rules = prints_refl prints_literal prints_string prints_two prints_char prints_backspace prints_backspaces
  prints_bind

text \<open>A key that does nothing but edit: it returns, prints, and moves to the given line and cursor.\<close>

definition edit_to :: "(shell \<times> app) option \<Rightarrow> shell \<Rightarrow> app \<Rightarrow> string \<Rightarrow> string \<Rightarrow> bool" where
  "edit_to x sh a l r \<longleftrightarrow> (\<exists>l' p c a'. x = Some (sh\<lparr>line := l', line_position := p, line_curpos := c\<rparr>, a') \<and>
     edits (sh\<lparr>line := l', line_position := p, line_curpos := c\<rparr>) l r \<and> prints (Some a') a)"

lemma insert_line:
  fixes l r z :: string
  assumes "z \<noteq> []"
  shows "(blit (l @ r @ z) (length l + 1) (drop (length l) (l @ r @ z)) (length r))[length l := ch] = l @ ch # r @ tl z"
proof -
  obtain x xs where "r @ z = x # xs" using assms by (cases "r @ z") auto
  then show ?thesis
    using assms by (cases z; cases r) (auto simp: blit_def list_update_append)
qed

lemma char_key_edits:
  assumes "edits sh l r" "length l + length r < 79" "ch \<noteq> CHR 0x00"
  shows "edit_to (char_key ch sh a) sh a (l @ [ch]) r"
proof -
  note d = editsD [OF assms(1)]
  let ?z = "replicate (FINSH_CMD_SIZE + 1 - (length l + length r)) (CHR 0x00)"
  define l' where "l' = l @ ch # r @ tl ?z"
  have line: "line sh = l @ r @ ?z"
    using assms(1) by (simp add: edits_def)
  have z: "?z \<noteq> []" "tl ?z = replicate (FINSH_CMD_SIZE + 1 - (length (l @ [ch]) + length r)) (CHR 0x00)"
    using assms(2) by simp_all
  have mid: "(blit (line sh) (length l + 1) (drop (length l) (line sh)) (length r))[length l := ch] = l'"
    unfolding line l'_def using insert_line [OF z(1)] .
  have last: "(line sh)[length l + length r := ch] = l'" if "r = []"
    using that z(1) by (cases ?z) (auto simp: line l'_def list_update_append)
  have small: "\<not> line_position sh \<ge> 80" "\<not> line_position sh + 1 \<ge> (80 :: u16)"
    using assms(2) d unat_up [of "line_position sh"] by (simp_all add: word_le_nat_alt)
  let ?sh = "sh\<lparr>line := l', line_position := line_position sh + 1, line_curpos := line_curpos sh + 1\<rparr>"
  have e: "edits ?sh (l @ [ch]) r"
    using assms unfolding edits_def by (simp add: l'_def z(2) unat_up)
  obtain a1 where a1: "(if echo_mode sh then kprintf ''%s'' [Str_Arg (Some (drop (length l) l'))] a else Some a) = Some a1"
      "prints (Some a1) a"
    by (rule prints_obtain [of "if echo_mode sh then kprintf ''%s'' [Str_Arg (Some (drop (length l) l'))] a else Some a" a])
      (simp_all add: prints_rules)
  obtain a2 where a2: "backspaces (length r) a1 = Some a2" "prints (Some a2) a1"
    by (rule prints_obtain [OF prints_backspaces])
  obtain a3 where a3: "(if echo_mode sh then kprintf ''%c'' [Int_Arg (of_char ch)] a else Some a) = Some a3" "prints (Some a3) a"
    by (rule prints_obtain [of "if echo_mode sh then kprintf ''%c'' [Int_Arg (of_char ch)] a else Some a" a])
      (simp_all add: prints_rules)
  have p2: "prints (Some a2) a"
    by (rule prints_trans [OF a1(2) a2(2)])
  show ?thesis
  proof (cases "r = []")
    case True
    then have "char_key ch sh a = Some (?sh, a3)"
      using a3(1) d small last by (cases "echo_mode sh") (simp_all add: char_key_def Let_def)
    then show ?thesis
      using e a3(2) unfolding edit_to_def by blast
  next
    case False
    then have "char_key ch sh a = Some (?sh, a2)"
      using a1(1) a2(1) d small mid by (cases "echo_mode sh") (simp_all add: char_key_def Let_def)
    then show ?thesis
      using e p2 unfolding edit_to_def by blast
  qed
qed

lemma delete_line:
  fixes l r z :: string
  assumes "r \<noteq> []"
  shows "(blit (l @ x # r @ z) (length l) (drop (length l + 1) (l @ x # r @ z)) (length r))[length l + length r := CHR 0x00] =
    l @ r @ CHR 0x00 # z"
proof -
  obtain u y where "r = u @ [y]"
    using assms by (cases r rule: rev_cases) auto
  then show ?thesis
    by (simp add: blit_def list_update_append)
qed

lemma edit_to_same: "edits sh l r \<Longrightarrow> edit_to (Some (sh, a)) sh a l r"
proof -
  assume e: "edits sh l r"
  have "sh = sh\<lparr>line := line sh, line_position := line_position sh, line_curpos := line_curpos sh\<rparr>"
    by simp
  then show ?thesis
    using e prints_refl [of a] unfolding edit_to_def by metis
qed

lemma edit_to_cursor:
  assumes "edits (sh\<lparr>line_curpos := c\<rparr>) l r" "prints (Some a') a"
  shows "edit_to (Some (sh\<lparr>line_curpos := c\<rparr>, a')) sh a l r"
proof -
  have "sh\<lparr>line_curpos := c\<rparr> = sh\<lparr>line := line sh, line_position := line_position sh, line_curpos := c\<rparr>"
    by simp
  then show ?thesis
    using assms unfolding edit_to_def by metis
qed

lemma backspace_key_edits:
  assumes "edits sh l r"
  shows "edit_to (backspace_key sh a) sh a (butlast l) r"
proof (cases "l = []")
  case True
  then show ?thesis
    using editsD(4) [OF assms] edit_to_same [OF assms] by (simp add: backspace_key_def)
next
  case False
  then obtain k x where l: "l = k @ [x]"
    by (metis append_butlast_last_id)
  note d = editsD [OF assms]
  let ?z = "replicate (FINSH_CMD_SIZE + 1 - (length l + length r)) (CHR 0x00)"
  have line: "line sh = k @ x # r @ ?z"
    using assms by (simp add: edits_def l)
  have nz: "line_curpos sh \<noteq> 0" "line_position sh \<noteq> 0"
    using d False by auto
  have u: "unat (line_curpos sh - 1) = length k" "unat (line_position sh - 1) = length k + length r"
    using unat_down [OF nz(1)] unat_down [OF nz(2)] d by (simp_all add: l)
  have cmp: "line_position sh - 1 > line_curpos sh - 1 \<longleftrightarrow> r \<noteq> []"
    by (simp add: word_less_nat_alt u)
  define l' where "l' = k @ r @ CHR 0x00 # ?z"
  let ?sh = "sh\<lparr>line := l', line_position := line_position sh - 1, line_curpos := line_curpos sh - 1\<rparr>"
  have "CHR 0x00 # ?z = replicate (FINSH_CMD_SIZE + 1 - (length k + length r)) (CHR 0x00)"
    using d(7) by (simp add: l Suc_diff_le flip: replicate_Suc)
  then have e: "edits ?sh (butlast l) r"
    using assms u by (simp add: edits_def l l'_def)
  have mid: "(blit (line sh) (length k) (drop (length k + 1) (line sh)) (length r))[length k + length r := CHR 0x00] = l'" if "r \<noteq> []"
    unfolding line l'_def using delete_line [OF that] .
  have last: "(line sh)[length k + length r := CHR 0x00] = l'" if "r = []"
    using that by (simp add: line l'_def list_update_append)
  obtain a1 where a1: "kprintf (CHR 0x08 # ''%s  '' @ [CHR 0x08]) [Str_Arg (Some (drop (length k) l'))] a = Some a1" "prints (Some a1) a"
    by (rule prints_obtain [OF prints_backspace])
  obtain a2 where a2: "backspaces (length k + length r + 1 - length k) a1 = Some a2" "prints (Some a2) a1"
    by (rule prints_obtain [OF prints_backspaces])
  obtain a3 where a3: "kprintf [CHR 0x08, CHR '' '', CHR 0x08] [] a = Some a3" "prints (Some a3) a"
    by (rule prints_obtain [OF prints_literal, of "[CHR 0x08, CHR '' '', CHR 0x08]" a]) simp_all
  show ?thesis
  proof (cases "r = []")
    case True
    then have "backspace_key sh a = Some (?sh, a3)"
      using a3(1) nz u cmp last by (simp add: backspace_key_def Let_def)
    then show ?thesis
      using e a3(2) unfolding edit_to_def by blast
  next
    case rr: False
    have "\<not> length k + length r + 1 > length (line sh)"
      using d(6,7) by (simp add: l)
    then have "backspace_key sh a = Some (?sh, a2)"
      using a1(1) a2(1) nz u cmp mid [OF rr] rr by (simp add: backspace_key_def Let_def)
    then show ?thesis
      using e prints_trans [OF a1(2) a2(2)] unfolding edit_to_def by blast
  qed
qed

lemma left_key_edits:
  assumes "edits sh l r"
  shows "edit_to (left_key sh a) sh a (butlast l) (if l = [] then r else last l # r)"
proof (cases "l = []")
  case True
  then show ?thesis
    using editsD(4) [OF assms] edit_to_same [OF assms] by (simp add: left_key_def)
next
  case False
  then obtain k x where l: "l = k @ [x]"
    by (metis append_butlast_last_id)
  have nz: "line_curpos sh \<noteq> 0"
    using editsD(4) [OF assms] False by simp
  obtain a1 where a1: "kprintf [CHR 0x08] [] a = Some a1" "prints (Some a1) a"
    by (rule prints_obtain [OF prints_literal, of "[CHR 0x08]" a]) simp_all
  have "edits (sh\<lparr>line_curpos := line_curpos sh - 1\<rparr>) k (x # r)"
    using assms unat_down [OF nz] by (simp add: edits_def l)
  then show ?thesis
    using a1 nz by (simp add: left_key_def l edit_to_cursor)
qed

lemma right_key_edits:
  assumes "edits sh l r"
  shows "edit_to (right_key sh a) sh a (l @ take 1 r) (tl r)"
proof (cases r)
  case Nil
  then show ?thesis
    using editsD(3) [OF assms] edit_to_same [OF assms] by (simp add: right_key_def)
next
  case (Cons x k)
  have less: "line_curpos sh < line_position sh"
    using editsD(3) [OF assms] Cons by simp
  obtain a1 where a1: "kprintf ''%c'' [Int_Arg (of_char (line sh ! unat (line_curpos sh)))] a = Some a1" "prints (Some a1) a"
    by (rule prints_obtain [OF prints_char])
  have "edits (sh\<lparr>line_curpos := line_curpos sh + 1\<rparr>) (l @ [x]) k"
    using assms Cons unat_up [of "line_curpos sh"] by (simp add: edits_def)
  then show ?thesis
    using a1 less by (simp add: right_key_def Cons edit_to_cursor)
qed

section \<open>An abstract line editor\<close>

datatype edit_key = KChar char | KBack | KBack_8 | KLeft | KRight

text \<open>The characters before and behind the cursor.\<close>

fun ed_step :: "edit_key \<Rightarrow> string \<times> string \<Rightarrow> string \<times> string" where
  "ed_step (KChar c) (l, r) = (l @ [c], r)"
| "ed_step KBack (l, r) = (butlast l, r)"
| "ed_step KBack_8 (l, r) = (butlast l, r)"
| "ed_step KLeft (l, r) = (butlast l, if l = [] then r else last l # r)"
| "ed_step KRight (l, r) = (l @ take 1 r, tl r)"

text \<open>What the terminal sends for the key.\<close>

fun key_bytes :: "edit_key \<Rightarrow> string" where
  "key_bytes (KChar c) = [c]"
| "key_bytes KBack = [CHR 0x7F]"
| "key_bytes KBack_8 = [CHR 0x08]"
| "key_bytes KLeft = [CHR 0x1B, CHR 0x5B, CHR 0x44]"
| "key_bytes KRight = [CHR 0x1B, CHR 0x5B, CHR 0x43]"

definition ordinary :: "char \<Rightarrow> bool" where
  "ordinary c \<longleftrightarrow> c \<notin> {CHR 0x00, CHR 0xFF, CHR 0x09, CHR 0x08, CHR 0x7F, CHR 0x0D, CHR 0x0A, CHR 0x1B}"

fun key_ok :: "edit_key \<Rightarrow> bool" where
  "key_ok (KChar c) = ordinary c"
| "key_ok _ = True"

definition finsh_run :: "syscall_table \<Rightarrow> string \<Rightarrow> shell \<times> app \<Rightarrow> (shell \<times> app) option" where
  "finsh_run tab = fold_opt (finsh_step tab)"

lemma finsh_run_append: "finsh_run tab (xs @ ys) st = Option.bind (finsh_run tab xs st) (finsh_run tab ys)"
  by (simp add: finsh_run_def fold_opt_append)

lemma stat_same: "stat sh = WAIT_NORMAL \<Longrightarrow> sh\<lparr>stat := WAIT_NORMAL\<rparr> = sh"
  by (cases sh) simp

lemma stat_updates: "sh\<lparr>stat := s, stat := t\<rparr> = sh\<lparr>stat := t\<rparr>"
  by (cases sh) simp

lemma fold_opt_nil: "Option.bind x (fold_opt f []) = x"
  by (cases x) simp_all

lemma key_run:
  assumes "edits sh l r" "stat sh = WAIT_NORMAL" "key_ok k" "\<And>c. k = KChar c \<Longrightarrow> length l + length r < 79"
  shows "edit_to (finsh_run tab (key_bytes k) (sh, a)) sh a (fst (ed_step k (l, r))) (snd (ed_step k (l, r)))"
proof (cases k)
  case (KChar c)
  then have "finsh_run tab (key_bytes k) (sh, a) = char_key c sh a"
    using assms(2,3) by (cases "char_key c sh a") (simp_all add: finsh_run_def finsh_step_def plain_key_def ordinary_def)
  then show ?thesis
    using char_key_edits [OF assms(1)] assms(3,4) KChar by (simp add: ordinary_def)
next
  case KBack
  then have "finsh_run tab (key_bytes k) (sh, a) = backspace_key sh a"
    using assms(2) by (cases "backspace_key sh a") (simp_all add: finsh_run_def finsh_step_def plain_key_def)
  then show ?thesis
    using backspace_key_edits [OF assms(1)] KBack by simp
next
  case KBack_8
  then have "finsh_run tab (key_bytes k) (sh, a) = backspace_key sh a"
    using assms(2) by (cases "backspace_key sh a") (simp_all add: finsh_run_def finsh_step_def plain_key_def)
  then show ?thesis
    using backspace_key_edits [OF assms(1)] KBack_8 by simp
next
  case KLeft
  then have "finsh_run tab (key_bytes k) (sh, a) = left_key sh a"
    using assms(2) by (simp add: finsh_run_def finsh_step_def fold_opt_nil stat_updates stat_same)
  then show ?thesis
    using left_key_edits [OF assms(1)] KLeft by simp
next
  case KRight
  then have "finsh_run tab (key_bytes k) (sh, a) = right_key sh a"
    using assms(2) by (simp add: finsh_run_def finsh_step_def fold_opt_nil stat_updates stat_same)
  then show ?thesis
    using right_key_edits [OF assms(1)] KRight by simp
qed

lemma ed_step_length:
  "length (fst (ed_step k (l, r))) + length (snd (ed_step k (l, r))) \<le> length l + length r + (case k of KChar c \<Rightarrow> 1 | _ \<Rightarrow> 0)"
  by (cases k; cases r) auto

definition typed :: "edit_key list \<Rightarrow> nat" where
  "typed ks = length (filter (\<lambda>k. case k of KChar c \<Rightarrow> True | _ \<Rightarrow> False) ks)"

lemma edit_to_trans:
  assumes "edit_to x sh a l1 r1" "\<And>sh1 a1. x = Some (sh1, a1) \<Longrightarrow> edits sh1 l1 r1 \<Longrightarrow> stat sh1 = stat sh \<Longrightarrow> edit_to (f (sh1, a1)) sh1 a1 l2 r2"
  shows "edit_to (Option.bind x f) sh a l2 r2"
proof -
  obtain l' p c a' where x: "x = Some (sh\<lparr>line := l', line_position := p, line_curpos := c\<rparr>, a')"
    "edits (sh\<lparr>line := l', line_position := p, line_curpos := c\<rparr>) l1 r1" "prints (Some a') a"
    using assms(1) unfolding edit_to_def by blast
  let ?sh = "sh\<lparr>line := l', line_position := p, line_curpos := c\<rparr>"
  have "edit_to (f (?sh, a')) ?sh a' l2 r2"
    by (rule assms(2) [OF x(1,2)]) simp
  then obtain l2' p2 c2 a2 where
    f: "f (?sh, a') = Some (?sh\<lparr>line := l2', line_position := p2, line_curpos := c2\<rparr>, a2)"
    "edits (?sh\<lparr>line := l2', line_position := p2, line_curpos := c2\<rparr>) l2 r2" "prints (Some a2) a'"
    unfolding edit_to_def by blast
  have "?sh\<lparr>line := l2', line_position := p2, line_curpos := c2\<rparr> = sh\<lparr>line := l2', line_position := p2, line_curpos := c2\<rparr>"
    by simp
  then show ?thesis
    using x(1) f(1,2) prints_trans [OF x(3) f(3)] unfolding edit_to_def by auto
qed

lemma keys_run:
  assumes "edits sh l r" "stat sh = WAIT_NORMAL" "list_all key_ok ks" "length l + length r + typed ks < FINSH_CMD_SIZE"
  shows "edit_to (finsh_run tab (concat (map key_bytes ks)) (sh, a)) sh a (fst (fold ed_step ks (l, r))) (snd (fold ed_step ks (l, r)))"
  using assms
proof (induction ks arbitrary: sh a l r)
  case Nil
  then show ?case by (simp add: finsh_run_def edit_to_same)
next
  case (Cons k ks)
  obtain l1 r1 where e: "ed_step k (l, r) = (l1, r1)" by (metis prod.exhaust)
  have len: "length l1 + length r1 + typed ks < FINSH_CMD_SIZE"
    using ed_step_length [of k l r] Cons.prems(4) unfolding e typed_def by (simp split: edit_key.splits)
  have one: "edit_to (finsh_run tab (key_bytes k) (sh, a)) sh a l1 r1"
    using key_run [OF Cons.prems(1,2), of k tab a] Cons.prems(3,4) unfolding e typed_def by (cases k) auto
  show ?case
    unfolding list.map concat.simps finsh_run_append fold_simps e
    using Cons.prems(2,3) len by (intro edit_to_trans [OF one] Cons.IH) auto
qed

definition demo_shell :: shell where
  "demo_shell = \<lparr>stat = WAIT_NORMAL, echo_mode = True, prompt_mode = True, current_history = 0, history_count = 0,
     cmd_history = replicate FINSH_HISTORY_LINES (pad []), line = replicate (FINSH_CMD_SIZE + 1) (CHR 0x00),
     line_position = 0, line_curpos = 0, finsh_prompt_custom = None\<rparr>"

text \<open>C10: the line editor.  The line in the buffer and the characters typed are together fewer than
  \<open>FINSH_CMD_SIZE\<close> = 80, and the keys are the left and right arrow, backspace as 0x7F or 0x08, and
  characters other than the control characters the shell acts on (0x00, 0x08, Tab, the two line ends, Escape,
  0x7F, 0xFF).  Then after every such sequence of keys the shell holds the line and the cursor of the
  abstract editor, never leaves its buffer, keeps its history, and changes nothing of the application but
  the console.  A line of eighty characters is outside: \<open>long_line_stays\<close>.\<close>

theorem editor_refines:
  assumes "edits sh l r" "stat sh = WAIT_NORMAL" "list_all key_ok ks" "length l + length r + typed ks < FINSH_CMD_SIZE"
  shows "\<exists>sh' a'. finsh_run tab (concat (map key_bytes ks)) (sh, a) = Some (sh', a') \<and>
    edits sh' (fst (fold ed_step ks (l, r))) (snd (fold ed_step ks (l, r))) \<and> prints (Some a') a \<and>
    stat sh' = WAIT_NORMAL \<and> cmd_history sh' = cmd_history sh \<and> history_count sh' = history_count sh"
proof -
  obtain l' p c a' where "finsh_run tab (concat (map key_bytes ks)) (sh, a) = Some (sh\<lparr>line := l', line_position := p, line_curpos := c\<rparr>, a')"
    "edits (sh\<lparr>line := l', line_position := p, line_curpos := c\<rparr>) (fst (fold ed_step ks (l, r))) (snd (fold ed_step ks (l, r)))"
    "prints (Some a') a"
    using keys_run [OF assms, of tab a] unfolding edit_to_def by blast
  then show ?thesis
    using assms(2) by (intro exI conjI) (assumption | simp)+
qed

theorem editor_refines_witness:
  "\<exists>sh' a'. finsh_run [] (concat (map key_bytes [KChar CHR ''b'', KLeft, KChar CHR ''a'', KRight, KChar CHR ''c'', KBack, KBack_8, KChar CHR ''b''])) (demo_shell, demo_app) =
     Some (sh', a') \<and> edits sh' ''ab'' [] \<and> prints (Some a') demo_app \<and>
     stat sh' = WAIT_NORMAL \<and> cmd_history sh' = cmd_history demo_shell \<and> history_count sh' = history_count demo_shell"
  using editor_refines [of demo_shell "[]" "[]" "[KChar CHR ''b'', KLeft, KChar CHR ''a'', KRight, KChar CHR ''c'', KBack, KBack_8, KChar CHR ''b'']" "[]" demo_app]
  by (simp add: typed_def ordinary_def edits_def demo_shell_def)

section \<open>The history of a session\<close>

definition history_ok :: "string list \<times> u16 \<Rightarrow> bool" where
  "history_ok hn \<longleftrightarrow> length (fst hn) = FINSH_HISTORY_LINES \<and> unat (snd hn) \<le> FINSH_HISTORY_LINES"

definition history_rows :: "string list \<times> u16 \<Rightarrow> string list" where
  "history_rows hn = take (unat (snd hn)) (fst hn)"

lemma history_add_full:
  assumes "length h = FINSH_HISTORY_LINES"
  shows "(blit h 0 (tl h) 4)[4 := row] = tl h @ [row]"
  using assms by (auto simp: length_Suc_conv numeral_eq_Suc blit_def)

lemma history_add_laws:
  assumes "history_ok hn"
  shows "history_ok (history_add row hn)"
    and "history_rows (history_add row hn) = last_n FINSH_HISTORY_LINES (history_rows hn @ [row])"
proof -
  obtain h n where hn: "hn = (h, n)" by (cases hn)
  have h: "length h = FINSH_HISTORY_LINES" "unat n \<le> FINSH_HISTORY_LINES"
    using assms by (simp_all add: history_ok_def hn)
  show "history_ok (history_add row hn)"
  proof (cases "n \<ge> 5")
    case True
    then show ?thesis using h by (simp add: hn history_add_def history_ok_def history_add_full [OF h(1)] drop_Suc)
  next
    case False
    then have "unat n < 5" by (simp add: word_le_nat_alt)
    then show ?thesis using h False unat_up [of n] by (simp add: hn history_add_def history_ok_def)
  qed
  show "history_rows (history_add row hn) = last_n FINSH_HISTORY_LINES (history_rows hn @ [row])"
  proof (cases "n \<ge> 5")
    case True
    then have "unat n = 5" using h by (simp add: word_le_nat_alt)
    then show ?thesis
      using h True by (simp add: hn history_add_def history_rows_def history_add_full [OF h(1)] last_n_def drop_Suc)
  next
    case False
    then have n: "unat n < 5" by (simp add: word_le_nat_alt)
    then have "take (Suc (unat n)) (h[unat n := row]) = take (unat n) h @ [row]"
      using h by (simp add: take_Suc_conv_app_nth)
    then show ?thesis
      using h n False unat_up [of n] by (simp add: hn history_add_def history_rows_def last_n_all)
  qed
qed

interpretation cmd_history: bounded_history history_add history_rows history_ok FINSH_HISTORY_LINES
  using history_add_laws by unfold_locales simp_all

text \<open>The lines the history holds, oldest first.\<close>

definition keeps :: "shell \<Rightarrow> string list \<Rightarrow> bool" where
  "keeps sh h \<longleftrightarrow> history_ok (cmd_history sh, history_count sh) \<and>
     history_rows (cmd_history sh, history_count sh) = map pad h \<and>
     list_all (\<lambda>t. length t < FINSH_CMD_SIZE \<and> CHR 0x00 \<notin> set t) h"

text \<open>What a line typed at the prompt does to them: empty lines and repetitions are left out.\<close>

definition remember :: "string \<Rightarrow> string list \<Rightarrow> string list" where
  "remember t h = (if t = [] \<or> h \<noteq> [] \<and> last h = t then h else last_n FINSH_HISTORY_LINES (h @ [t]))"

lemma c_str_pad: "length t < FINSH_CMD_SIZE \<Longrightarrow> CHR 0x00 \<notin> set t \<Longrightarrow> c_str (pad t) = t"
  unfolding pad_def by (cases "FINSH_CMD_SIZE - length t") (auto intro!: c_str_stop)

lemma keepsD:
  assumes "keeps sh h"
  shows "length (cmd_history sh) = FINSH_HISTORY_LINES" "length h \<le> FINSH_HISTORY_LINES" "unat (history_count sh) = length h"
    "\<And>i. i < length h \<Longrightarrow> cmd_history sh ! i = pad (h ! i)"
    "\<And>t. t \<in> set h \<Longrightarrow> length t < FINSH_CMD_SIZE \<and> CHR 0x00 \<notin> set t"
proof -
  have k: "length (cmd_history sh) = FINSH_HISTORY_LINES" "unat (history_count sh) \<le> FINSH_HISTORY_LINES"
    "take (unat (history_count sh)) (cmd_history sh) = map pad h"
    using assms by (simp_all add: keeps_def history_ok_def history_rows_def)
  then show "length (cmd_history sh) = FINSH_HISTORY_LINES" by simp
  have "length (take (unat (history_count sh)) (cmd_history sh)) = length h"
    by (simp only: k(3) length_map)
  then show c: "unat (history_count sh) = length h"
    using k(1,2) by simp
  then show "length h \<le> FINSH_HISTORY_LINES"
    using k by simp
  show "cmd_history sh ! i = pad (h ! i)" if "i < length h" for i
    using that k c by (metis nth_map nth_take)
  show "length t < FINSH_CMD_SIZE \<and> CHR 0x00 \<notin> set t" if "t \<in> set h" for t
    using that assms by (simp add: keeps_def list_all_iff)
qed

lemma edits_row:
  assumes "edits sh l r"
  shows "take FINSH_CMD_SIZE (line sh) = pad (l @ r)" "take (unat (line_position sh)) (line sh) = l @ r"
    "line sh = (l @ r) @ CHR 0x00 # replicate (FINSH_CMD_SIZE - length (l @ r)) (CHR 0x00)"
proof -
  have "FINSH_CMD_SIZE + 1 - length (l @ r) = Suc (FINSH_CMD_SIZE - length (l @ r))"
    using editsD(7) [OF assms] unfolding length_append by arith
  then have "line sh = (l @ r) @ replicate (Suc (FINSH_CMD_SIZE - length (l @ r))) (CHR 0x00)"
    using assms unfolding edits_def length_append by (metis append.assoc)
  then show l: "line sh = (l @ r) @ CHR 0x00 # replicate (FINSH_CMD_SIZE - length (l @ r)) (CHR 0x00)"
    by simp
  show "take (unat (line_position sh)) (line sh) = l @ r"
    using assms unfolding l by (simp add: edits_def)
  show "take FINSH_CMD_SIZE (line sh) = pad (l @ r)"
    using assms by (simp add: edits_def pad_def) arith
qed

text \<open>The duplicate test reads the last row in both of its branches.\<close>

lemma shell_push_history_keeps:
  assumes "edits sh l r" "keeps sh h"
  shows "keeps (shell_push_history sh) (remember (l @ r) h)"
    "shell_push_history sh = sh\<lparr>cmd_history := cmd_history (shell_push_history sh), history_count := history_count (shell_push_history sh),
       current_history := history_count (shell_push_history sh)\<rparr>"
proof -
  let ?t = "l @ r"
  note k = keepsD [OF assms(2)] and e = edits_row [OF assms(1)]
  have t: "length ?t < FINSH_CMD_SIZE" "CHR 0x00 \<notin> set ?t"
    using assms(1) by (simp_all add: edits_def)
  have pos: "line_position sh = 0 \<longleftrightarrow> ?t = []"
    using editsD(5) [OF assms(1)] by simp
  have same: "cmd_history sh ! i = take FINSH_CMD_SIZE (line sh) \<longleftrightarrow> h ! i = ?t" if "i < length h" for i
    using that t k(4,5) e(1) c_str_pad [of ?t] c_str_pad [of "h ! i"] by (metis nth_mem)
  let ?add = "let (g, m) = history_add (pad ?t) (cmd_history sh, history_count sh) in sh\<lparr>cmd_history := g, history_count := m\<rparr>"
  have skip: "(if history_count sh \<ge> of_nat FINSH_HISTORY_LINES then cmd_history sh ! (FINSH_HISTORY_LINES - 1) = take FINSH_CMD_SIZE (line sh)
      else \<not> (history_count sh = 0 \<or> cmd_history sh ! unat (history_count sh - 1) \<noteq> take FINSH_CMD_SIZE (line sh))) \<longleftrightarrow>
    h \<noteq> [] \<and> last h = ?t"
  proof (cases "h = []")
    case True
    then have "history_count sh = 0" using k(3) by (simp add: unat_eq_zero)
    then show ?thesis using True by simp
  next
    case False
    then have nz: "history_count sh \<noteq> 0" using k(3) by auto
    then have "unat (history_count sh - 1) = length h - 1" using unat_down k(3) by metis
    moreover have "history_count sh \<ge> 5 \<Longrightarrow> length h = 5" using k(2,3) by (simp add: word_le_nat_alt)
    ultimately show ?thesis
      using same [of "length h - 1"] False nz by (auto simp: last_conv_nth)
  qed
  have sh1: "shell_push_history sh = (let sh1 = if ?t = [] \<or> h \<noteq> [] \<and> last h = ?t then sh else ?add in sh1\<lparr>current_history := history_count sh1\<rparr>)"
    unfolding shell_push_history_def Let_def e(2) skip [symmetric] pos [symmetric] by (simp split: if_splits)
  show "shell_push_history sh = sh\<lparr>cmd_history := cmd_history (shell_push_history sh), history_count := history_count (shell_push_history sh),
       current_history := history_count (shell_push_history sh)\<rparr>"
    unfolding sh1 by (simp add: Let_def split: prod.splits)
  show "keeps (shell_push_history sh) (remember ?t h)"
  proof (cases "?t = [] \<or> h \<noteq> [] \<and> last h = ?t")
    case True
    then show ?thesis using assms(2) by (simp add: sh1 remember_def keeps_def)
  next
    case False
    have ok: "history_ok (cmd_history sh, history_count sh)" "history_rows (cmd_history sh, history_count sh) = map pad h"
      using assms(2) by (simp_all add: keeps_def)
    have "list_all (\<lambda>t. length t < FINSH_CMD_SIZE \<and> CHR 0x00 \<notin> set t) (last_n FINSH_HISTORY_LINES (h @ [?t]))"
      using k(5) t by (auto simp: list_all_iff last_n_def dest!: in_set_dropD)
    then show ?thesis
      using False history_add_laws [OF ok(1), of "pad ?t"] ok(2)
      by (auto simp: sh1 remember_def keeps_def map_last_n Let_def simp del: append_is_Nil_conv split: prod.splits)
  qed
qed

abbreviation exported :: "syscall_table \<Rightarrow> (string \<times> cmd_function_t) list" where
  "exported tab \<equiv> map (\<lambda>(name, desc, f). (name, f)) tab"

lemma enter_key_runs:
  assumes "edits sh l r" "keeps sh h" "list_all plain (l @ r)" "length (words (l @ r)) < FINSH_ARG_MAX"
  shows "\<exists>a1 sh'. prints (Some a1) a \<and> edits sh' [] [] \<and> keeps sh' (remember (l @ r) h) \<and> stat sh' = stat sh \<and>
    current_history sh' = history_count sh' \<and>
    enter_key tab sh a = do { (_, a2) \<leftarrow> run_words (exported tab) (l @ r) a1; a3 \<leftarrow> kprintf (finsh_get_prompt sh) [] a2; Some (sh', a3) }"
proof -
  define sh1 where "sh1 = shell_push_history sh"
  note push = shell_push_history_keeps [OF assms(1,2), folded sh1_def]
  have same: "echo_mode sh1 = echo_mode sh" "line sh1 = line sh" "line_position sh1 = line_position sh"
    "finsh_get_prompt sh1 = finsh_get_prompt sh" "stat sh1 = stat sh" "current_history sh1 = history_count sh1"
    by (subst push(2), simp add: finsh_get_prompt_def)+
  let ?sh = "sh1\<lparr>line := replicate (FINSH_CMD_SIZE + 1) (CHR 0x00), line_curpos := 0, line_position := 0\<rparr>"
  obtain a1 where a1: "(if echo_mode sh then kprintf ''\<newline>'' [] a else Some a) = Some a1" "prints (Some a1) a"
    by (rule prints_obtain [of "if echo_mode sh then kprintf ''\<newline>'' [] a else Some a" a]) (simp_all add: prints_rules)
  have len: "unat (line_position sh1) = length (l @ r)" "length (l @ r) < 2 ^ 32"
    using editsD(2,7) [OF assms(1)] by (simp_all add: same)
  have exec: "msh_exec (exported tab) (line sh1) (unat (line_position sh1)) a1 = run_words (exported tab) (l @ r) a1"
    unfolding len(1) same(2) edits_row(3) [OF assms(1)] by (rule msh_exec_runs [OF assms(3) len(2) assms(4)])
  have "enter_key tab sh a = do { (_, a2) \<leftarrow> run_words (exported tab) (l @ r) a1; a3 \<leftarrow> kprintf (finsh_get_prompt sh) [] a2; Some (?sh, a3) }"
    unfolding enter_key_def sh1_def [symmetric] Let_def same a1(1) using exec [unfolded same] by simp
  moreover have "keeps ?sh (remember (l @ r) h)" "edits ?sh [] []"
    using push(1) by (simp_all add: keeps_def edits_def)
  ultimately show ?thesis
    using a1(2) same(5,6) by (intro exI [of _ a1] exI [of _ ?sh]) simp
qed

text \<open>C11: the shell runs the line that was typed.  At an empty prompt fewer than eighty characters are
  typed, with the editing keys of the line editor among them; the text \<open>l @ r\<close> they leave has no
  double quote and no zero and fewer than ten words.  Then Enter runs that text as \<open>run_words\<close>
  says, on an application in which only the console has changed, prints the prompt, and leaves an empty
  line.  The text is added to the history unless it is empty or the same as the line before it, and the
  history keeps the last five of the lines so added.\<close>

theorem shell_runs_line:
  assumes "edits sh [] []" "keeps sh h" "stat sh = WAIT_NORMAL" "list_all key_ok ks" "typed ks < FINSH_CMD_SIZE"
    and "fold ed_step ks ([], []) = (l, r)" "list_all plain (l @ r)" "length (words (l @ r)) < FINSH_ARG_MAX"
  shows "\<exists>a1 sh'. prints (Some a1) a \<and> edits sh' [] [] \<and> keeps sh' (remember (l @ r) h) \<and> stat sh' = WAIT_NORMAL \<and>
    current_history sh' = history_count sh' \<and>
    finsh_run tab (concat (map key_bytes ks) @ [CHR 0x0D]) (sh, a) =
      do { (_, a2) \<leftarrow> run_words (exported tab) (l @ r) a1; a3 \<leftarrow> kprintf (finsh_get_prompt sh) [] a2; Some (sh', a3) }"
proof -
  obtain l' p c a0 where run: "finsh_run tab (concat (map key_bytes ks)) (sh, a) = Some (sh\<lparr>line := l', line_position := p, line_curpos := c\<rparr>, a0)"
    and e: "edits (sh\<lparr>line := l', line_position := p, line_curpos := c\<rparr>) l r" and a0: "prints (Some a0) a"
    using keys_run [OF assms(1,3,4), of tab a] assms(5,6) unfolding edit_to_def by auto
  let ?sh = "sh\<lparr>line := l', line_position := p, line_curpos := c\<rparr>"
  have k: "keeps ?sh h" and prompt: "finsh_get_prompt ?sh = finsh_get_prompt sh" and st: "stat ?sh = WAIT_NORMAL"
    using assms(2,3) by (simp_all add: keeps_def finsh_get_prompt_def)
  have "finsh_run tab [CHR 0x0D] (?sh, a0) = enter_key tab ?sh a0"
    using st by (simp add: finsh_run_def finsh_step_def plain_key_def fold_opt_nil)
  then have "finsh_run tab (concat (map key_bytes ks) @ [CHR 0x0D]) (sh, a) = enter_key tab ?sh a0"
    using run by (simp add: finsh_run_append)
  then show ?thesis
    using enter_key_runs [OF e k assms(7,8), of a0 tab] prints_trans [OF a0] st unfolding prompt by metis
qed

lemma demo_shell_clean: "edits demo_shell [] []" "keeps demo_shell []" "stat demo_shell = WAIT_NORMAL"
  by (simp_all add: edits_def keeps_def history_ok_def history_rows_def demo_shell_def)

definition demo_table :: syscall_table where
  "demo_table = map (\<lambda>(name, f). (name, [], f)) stopwatch_commands"

lemma exported_demo: "exported demo_table = stopwatch_commands"
  by (simp add: demo_table_def stopwatch_commands_def)

theorem shell_runs_line_witness:
  "\<exists>a1 sh'. prints (Some a1) demo_app \<and> edits sh' [] [] \<and> keeps sh' (remember ''sw_lap'' []) \<and> stat sh' = WAIT_NORMAL \<and>
    current_history sh' = history_count sh' \<and>
    finsh_run demo_table (concat (map key_bytes (map KChar ''sw_lax'' @ [KBack, KChar CHR ''p''])) @ [CHR 0x0D]) (demo_shell, demo_app) =
      do { (_, a2) \<leftarrow> run_words stopwatch_commands ''sw_lap'' a1; a3 \<leftarrow> kprintf (finsh_get_prompt demo_shell) [] a2; Some (sh', a3) }"
proof -
  let ?ks = "map KChar ''sw_lax'' @ [KBack, KChar CHR ''p'']"
  have "fold ed_step ?ks ([], []) = (''sw_lap'', [])" "list_all key_ok ?ks" "typed ?ks < FINSH_CMD_SIZE"
    "list_all plain (''sw_lap'' @ [])" "length (words (''sw_lap'' @ [])) < FINSH_ARG_MAX"
    by (simp_all add: ordinary_def typed_def plain_def blank_def)
  from shell_runs_line [OF demo_shell_clean this(2,3,1,4,5), of demo_app demo_table] show ?thesis
    unfolding exported_demo append_Nil2 .
qed

section \<open>Recalling a line\<close>

abbreviation (input) up_arrow :: string where "up_arrow \<equiv> [CHR 0x1B, CHR 0x5B, CHR 0x41]"

lemma recall_edits:
  assumes "edits sh l r" "keeps sh h" "unat i < length h"
  shows "edits (recall i sh) (h ! unat i) []" "keeps (recall i sh) h" "stat (recall i sh) = stat sh"
    "current_history (recall i sh) = i"
proof -
  let ?t = "h ! unat i"
  have t: "length ?t < FINSH_CMD_SIZE" "CHR 0x00 \<notin> set ?t" "cmd_history sh ! unat i = pad ?t"
    using keepsD(4,5) [OF assms(2)] assms(3) by (auto dest: nth_mem)
  have "drop FINSH_CMD_SIZE (line sh) = [CHR 0x00]"
    unfolding edits_row(3) [OF assms(1)] using editsD(7) [OF assms(1)]
    by (simp add: drop_Cons' Suc_diff_Suc)
  then have "blit (line sh) 0 (pad ?t) FINSH_CMD_SIZE = ?t @ replicate (FINSH_CMD_SIZE - length ?t) (CHR 0x00) @ [CHR 0x00]"
    using t(1) by (simp add: blit_def pad_def)
  also have "\<dots> = ?t @ replicate (FINSH_CMD_SIZE + 1 - length ?t) (CHR 0x00)"
    using t(1) by (simp add: replicate_append_same flip: replicate_Suc)
  finally have l: "blit (line sh) 0 (cmd_history sh ! unat i) FINSH_CMD_SIZE = ?t @ replicate (FINSH_CMD_SIZE + 1 - length ?t) (CHR 0x00)"
    using t(3) by simp
  have "c_str (?t @ replicate (FINSH_CMD_SIZE + 1 - length ?t) (CHR 0x00)) = ?t"
    using t by (cases "FINSH_CMD_SIZE + 1 - length ?t") (auto intro!: c_str_stop)
  moreover have "unat (of_nat (length ?t) :: u16) = length ?t"
    using t(1) by (simp add: unat_of_nat)
  ultimately show "edits (recall i sh) ?t []"
    using t unfolding recall_def l by (simp add: edits_def Let_def)
  show "keeps (recall i sh) h" "stat (recall i sh) = stat sh" "current_history (recall i sh) = i"
    using assms(2) by (simp_all add: keeps_def recall_def Let_def)
qed

lemma up_run:
  assumes "edits sh l r" "keeps sh h" "stat sh = WAIT_NORMAL" "unat (current_history sh) = Suc i" "i < length h"
  shows "\<exists>sh1 a1. finsh_run tab up_arrow (sh, a) = Some (sh1, a1) \<and> edits sh1 (h ! i) [] \<and> keeps sh1 h \<and>
    stat sh1 = WAIT_NORMAL \<and> unat (current_history sh1) = i \<and> prints (Some a1) a"
proof -
  define sh1 where "sh1 = recall (current_history sh - 1) sh"
  have nz: "current_history sh \<noteq> 0"
    using assms(4) by auto
  then have i: "unat (current_history sh - 1) = i" and pos: "current_history sh > 0"
    using assms(4) unat_down [OF nz] by (simp_all add: word_gt_0)
  note e = recall_edits [OF assms(1,2), of "current_history sh - 1", folded sh1_def, unfolded i, OF assms(5)]
  obtain a1 where a1: "shell_handle_history sh1 a = Some a1" "prints (Some a1) a"
    by (rule prints_obtain [of "shell_handle_history sh1 a" a])
      (auto simp: shell_handle_history_def intro!: prints_bind prints_literal prints_two)
  have "finsh_run tab up_arrow (sh, a) = up_key sh a"
    using assms(3) by (simp add: finsh_run_def finsh_step_def fold_opt_nil stat_updates stat_same)
  then have "finsh_run tab up_arrow (sh, a) = Some (sh1, a1)"
    using pos a1(1) by (simp add: up_key_def sh1_def [symmetric] Let_def)
  then show ?thesis
    using e a1(2) assms(3) i by metis
qed

lemma up_run_oldest:
  assumes "stat sh = WAIT_NORMAL" "unat (current_history sh) = 0"
  shows "finsh_run tab up_arrow (sh, a) = Some (sh, a)"
proof -
  have c: "current_history sh = 0"
    using assms(2) by (simp add: unat_eq_zero)
  then have "sh\<lparr>current_history := 0\<rparr> = sh"
    by (cases sh) simp
  then show ?thesis
    using assms(1) c by (simp add: finsh_run_def finsh_step_def up_key_def stat_updates stat_same)
qed

text \<open>The up arrow.  Pressed \<open>k\<close> + 1 times at any line, it brings back the line entered \<open>k\<close> lines
  before the last one, with the cursor at its end; pressed more often than the history has lines, it
  stays at the oldest.  The history and the application are left as they are.\<close>

theorem history_recalled:
  assumes "edits sh l r" "keeps sh h" "stat sh = WAIT_NORMAL" "current_history sh = history_count sh" "h \<noteq> []"
  shows "\<exists>sh' a'. finsh_run tab (concat (replicate (Suc k) up_arrow)) (sh, a) = Some (sh', a') \<and>
    edits sh' (rev h ! min k (length h - 1)) [] \<and> keeps sh' h \<and> stat sh' = WAIT_NORMAL \<and>
    unat (current_history sh') = length h - 1 - k \<and> prints (Some a') a"
proof (induction k)
  case 0
  have "unat (current_history sh) = Suc (length h - 1)"
    using keepsD(3) [OF assms(2)] assms(4,5) by simp
  then show ?case
    using up_run [OF assms(1-3), of "length h - 1" tab a] assms(5) by (simp add: rev_nth)
next
  case (Suc k)
  then obtain sh1 a1 where run: "finsh_run tab (concat (replicate (Suc k) up_arrow)) (sh, a) = Some (sh1, a1)"
    and e: "edits sh1 (rev h ! min k (length h - 1)) []" "keeps sh1 h" "stat sh1 = WAIT_NORMAL"
    and c: "unat (current_history sh1) = length h - 1 - k" and p: "prints (Some a1) a"
    by blast
  have split: "concat (replicate (Suc (Suc k)) up_arrow) = concat (replicate (Suc k) up_arrow) @ up_arrow"
    by (metis concat.simps concat_append append_Nil2 replicate_Suc replicate_append_same)
  show ?case
  proof (cases "length h - 1 - k")
    case 0
    then have "min k (length h - 1) = min (Suc k) (length h - 1)" "length h - 1 - Suc k = 0"
      by simp_all
    then show ?thesis
      unfolding split finsh_run_append run
      using up_run_oldest [OF e(3), of tab a1] c 0 e p by (simp del: min_def)
  next
    case (Suc i)
    then have i: "i < length h" "length h - 1 - Suc k = i" "min (Suc k) (length h - 1) = Suc k"
      by simp_all
    then have "Suc k < length h" "length h - Suc (Suc k) = i"
      using Suc by simp_all
    then have rev: "rev h ! Suc k = h ! i"
      by (simp add: rev_nth)
    obtain sh2 a2 where "finsh_run tab up_arrow (sh1, a1) = Some (sh2, a2)" "edits sh2 (h ! i) []" "keeps sh2 h"
      "stat sh2 = WAIT_NORMAL" "unat (current_history sh2) = i" "prints (Some a2) a1"
      using up_run [OF e, of i tab a1] c Suc i(1) by auto
    then show ?thesis
      unfolding split finsh_run_append run i rev using prints_trans [OF p] by auto
  qed
qed

text \<open>A session with two lines in its history.\<close>

definition demo_session :: shell where
  "demo_session = demo_shell\<lparr>cmd_history := [pad ''sw_start'', pad ''sw_lap''] @ replicate 3 (pad []), history_count := 2, current_history := 2\<rparr>"

theorem history_recalled_witness:
  "\<exists>sh' a'. finsh_run [] (concat (replicate 2 up_arrow)) (demo_session, demo_app) = Some (sh', a') \<and>
    edits sh' ''sw_start'' [] \<and> keeps sh' [''sw_start'', ''sw_lap''] \<and> stat sh' = WAIT_NORMAL \<and>
    unat (current_history sh') = 0 \<and> prints (Some a') demo_app"
proof -
  have "edits demo_session [] []" "keeps demo_session [''sw_start'', ''sw_lap'']" "stat demo_session = WAIT_NORMAL"
    "current_history demo_session = history_count demo_session" "[''sw_start'', ''sw_lap''] \<noteq> []"
    by (simp_all add: demo_session_def demo_shell_def edits_def keeps_def history_ok_def history_rows_def)
  from history_recalled [OF this, where k = 1 and tab = "[]" and a = demo_app] show ?thesis
    by (simp only: numeral_2_eq_2 One_nat_def) simp
qed

section \<open>Long lines\<close>

text \<open>The eightieth character sets both positions back but leaves the text in the buffer: the line that
  is shown as new still holds all eighty characters.\<close>

theorem long_line_stays:
  assumes "edits sh l []" "length l = 79" "ch \<noteq> CHR 0x00"
  shows "\<exists>sh' a'. char_key ch sh a = Some (sh', a') \<and> line sh' = l @ [ch, CHR 0x00] \<and> line_position sh' = 0 \<and> line_curpos sh' = 0"
proof -
  have line: "line sh = l @ [CHR 0x00, CHR 0x00]" and pos: "unat (line_position sh) = 79" "unat (line_curpos sh) = 79"
    using assms(1,2) by (simp_all add: edits_def numeral_eq_Suc)
  have "line_position sh = 79" "line_curpos sh = 79"
    using pos by (simp_all add: word_unat_eq_iff)
  moreover obtain a1 where "(if echo_mode sh then kprintf ''%c'' [Int_Arg (of_char ch)] a else Some a) = Some a1"
    by (rule prints_obtain [of "if echo_mode sh then kprintf ''%c'' [Int_Arg (of_char ch)] a else Some a" a])
      (simp_all add: prints_rules)
  ultimately show ?thesis
    using assms(2) by (simp add: char_key_def line list_update_append)
qed

text \<open>With the positions at 1 and 81, which Tab and one more character reach from there, two backspaces make
  \<open>rt_memmove\<close> run past the buffer.\<close>

lemma stale_line_overruns:
  assumes "length l = FINSH_CMD_SIZE" "CHR 0x00 \<notin> set l" "line sh = l @ [CHR 0x00]" "line_position sh = of_nat FINSH_CMD_SIZE"
    "line_curpos sh = of_nat FINSH_CMD_SIZE"
  shows "\<exists>sh' a'. char_key ch sh a = Some (sh', a') \<and> line_position sh' = 1 \<and> line_curpos sh' = 81 \<and>
    (\<exists>sh'' a''. backspace_key sh' a' = Some (sh'', a'') \<and> backspace_key sh'' a'' = None)"
proof -
  obtain a1 where a1: "(if echo_mode sh then kprintf ''%c'' [Int_Arg (of_char ch)] a else Some a) = Some a1"
    by (rule prints_obtain [of "if echo_mode sh then kprintf ''%c'' [Int_Arg (of_char ch)] a else Some a" a])
      (simp_all add: prints_rules)
  obtain a2 where a2: "kprintf [CHR 0x08, CHR '' '', CHR 0x08] [] a1 = Some a2"
    by (rule prints_obtain [OF prints_literal, of "[CHR 0x08, CHR '' '', CHR 0x08]" a1]) simp_all
  define sh1 where "sh1 = sh\<lparr>line := (line sh)[0 := ch], line_position := 1, line_curpos := 81\<rparr>"
  define sh2 where "sh2 = sh1\<lparr>line := (line sh1)[0 := CHR 0x00], line_position := 0, line_curpos := 80\<rparr>"
  have one: "char_key ch sh a = Some (sh1, a1)"
    using a1 assms by (cases "echo_mode sh") (simp_all add: char_key_def sh1_def Let_def word_le_nat_alt)
  have two: "backspace_key sh1 a1 = Some (sh2, a2)"
    using a2 by (simp add: backspace_key_def sh1_def sh2_def)
  have three: "backspace_key sh2 a2 = None"
    using assms(1,3) by (simp add: backspace_key_def sh1_def sh2_def Let_def unat_minus_one_u16)
  show ?thesis
    by (rule exI [of _ sh1], rule exI [of _ a1]) (use one two three in \<open>auto simp: sh1_def\<close>)
qed

end
