(* ===== verification/Firmware.thy ===== *)
theory Firmware
  imports Console Shell
begin

text \<open>
  The whole way of a command: bytes on the UART, the receive interrupt and the shell's semaphore (\<open>Console\<close>), the line
  editor (\<open>Shell\<close>), the dispatch of the line (\<open>Msh\<close>), the command of \<^verbatim>\<open>applications/stopwatch_cli.c\<close> (\<open>Cli\<close>) and
  the stopwatch.
\<close>

section \<open>From the terminal to the stopwatch\<close>

definition byte_char :: "u8 \<Rightarrow> char" where
  "byte_char b = char_of (unat b)"

definition char_byte :: "char \<Rightarrow> u8" where
  "char_byte c = of_nat (of_char c)"

lemma byte_char_byte: "byte_char (char_byte c) = c"
proof -
  have "(of_char c :: nat) < 256"
    using of_char_range [of c] by (metis of_nat_of_char of_nat_less_iff of_nat_numeral)
  then show ?thesis
    by (simp add: byte_char_def char_byte_def unat_of_nat)
qed

text \<open>The shell thread: every character that \<open>finsh_getchar\<close> returns goes through the body of
  \<open>finsh_thread_entry\<close> before the next one is asked for.\<close>

inductive firmware_step :: "syscall_table \<Rightarrow> nat \<Rightarrow> nat \<Rightarrow> finsh_io \<times> shell \<times> app \<Rightarrow> finsh_io \<times> shell \<times> app \<Rightarrow> bool" for tab t i where
  idle: "console_step t i c c' \<Longrightarrow> got c' = got c \<Longrightarrow> firmware_step tab t i (c, st) (c', st)"
| char: "console_step t i c c' \<Longrightarrow> got c' = got c @ [b] \<Longrightarrow> finsh_step tab (byte_char b) st = Some st' \<Longrightarrow>
    firmware_step tab t i (c, st) (c', st')"

lemma firmware_run:
  "(firmware_step tab t i)\<^sup>*\<^sup>* x y \<Longrightarrow> got (fst x) = [] \<Longrightarrow>
   (console_step t i)\<^sup>*\<^sup>* (fst x) (fst y) \<and> finsh_run tab (map byte_char (got (fst y))) (snd x) = Some (snd y)"
proof (induction rule: rtranclp_induct)
  case base
  then show ?case
    by (simp add: finsh_run_def)
next
  case (step y z)
  from step.hyps(2) show ?case
  proof cases
    case (idle c c' st)
    then show ?thesis
      using step by auto
  next
    case (char c c' b st st')
    then show ?thesis
      using step by (auto simp: finsh_run_append) (auto simp: finsh_run_def)
  qed
qed

text \<open>The commands that change the stopwatch.\<close>

fun command_name :: "sw_op \<Rightarrow> string" where
  "command_name Start = ''sw_start''"
| "command_name Stop = ''sw_stop''"
| "command_name Reset = ''sw_reset''"
| "command_name Lap = ''sw_lap''"
| "command_name ClearLaps = ''sw_clear_laps''"

lemma kprintf_keeps: "prints (kprintf fmt args a) a \<Longrightarrow> \<exists>a'. kprintf fmt args a = Some a' \<and> a_ui a' = a_ui a"
  by (auto simp: prints_def)

lemma lap_line_prints: "prints (kprintf ''sw: lap=%02u:%02u.%02u\<newline>'' [Int_Arg x, Int_Arg y, Int_Arg z] a) a"
  by (rule kprintf_prints) (simp add: format_plain format_0wu is_digit_2_3 format_text.simps(1))

lemma says:
  assumes "CHR ''%'' \<notin> set t"
  obtains a' where "kprintf t [] a = Some a'" "a_ui a' = a_ui a"
  using kprintf_keeps [OF prints_literal [OF assms]] by blast

lemma on_sw_sw: "u_sw (a_ui (on_sw f a)) = f (u_sw (a_ui a))"
  by (simp add: on_sw_def)

lemma lap_effect: "\<exists>r a'. cmd_sw_lap argv a = Some (r, a') \<and> u_sw (a_ui a') = snd (snd (stopwatch_lap (u_sw (a_ui a))))"
proof -
  obtain r ms s where l: "stopwatch_lap (u_sw (a_ui a)) = (r, ms, s)"
    by (cases "stopwatch_lap (u_sw (a_ui a))")
  let ?a = "on_sw (\<lambda>_. s) a"
  obtain a1 where "kprintf ''sw: lap=%02u:%02u.%02u\<newline>'' [Int_Arg (ms div 60000 mod 100), Int_Arg (ms div 1000 mod 60), Int_Arg (ms div 10 mod 100)] ?a = Some a1"
    "a_ui a1 = a_ui ?a"
    using kprintf_keeps [OF lap_line_prints] by blast
  moreover obtain a2 where "kprintf ''sw: lap failed\<newline>'' [] ?a = Some a2" "a_ui a2 = a_ui ?a"
    by (rule says [of "''sw: lap failed\<newline>''" ?a]) simp_all
  ultimately show ?thesis
    by (cases "r = RT_EOK") (simp_all add: cmd_sw_lap_def l Let_def kprintf_ret_def beep_def on_sw_sw)
qed

lemma command_effect:
  "\<exists>f r a'. command_of stopwatch_commands (command_name op) = Some f \<and> f argv a = Some (r, a') \<and> u_sw (a_ui a') = sw_step op (u_sw (a_ui a))"
proof (cases op)
  case Lap
  then show ?thesis
    using lap_effect [of argv a] by (simp add: stopwatch_commands_def c_str_def)
next
  case Start
  obtain a' where "kprintf ''sw: start\<newline>'' [] (on_sw stopwatch_start a) = Some a'" "a_ui a' = a_ui (on_sw stopwatch_start a)"
    by (rule says [of "''sw: start\<newline>''" "on_sw stopwatch_start a"]) simp_all
  then show ?thesis
    using Start by (simp add: stopwatch_commands_def c_str_def cmd_sw_start_def beep_def on_sw_sw)
next
  case Stop
  obtain a' where "kprintf ''sw: stop\<newline>'' [] (on_sw stopwatch_stop a) = Some a'" "a_ui a' = a_ui (on_sw stopwatch_stop a)"
    by (rule says [of "''sw: stop\<newline>''" "on_sw stopwatch_stop a"]) simp_all
  then show ?thesis
    using Stop by (simp add: stopwatch_commands_def c_str_def cmd_sw_stop_def beep_def on_sw_sw)
next
  case Reset
  obtain a' where "kprintf ''sw: reset\<newline>'' [] (on_sw stopwatch_reset a) = Some a'" "a_ui a' = a_ui (on_sw stopwatch_reset a)"
    by (rule says [of "''sw: reset\<newline>''" "on_sw stopwatch_reset a"]) simp_all
  then show ?thesis
    using Reset by (simp add: stopwatch_commands_def c_str_def cmd_sw_reset_def beep_def on_sw_sw)
next
  case ClearLaps
  obtain a' where "kprintf ''sw: clear laps\<newline>'' [] (on_sw stopwatch_clear_laps a) = Some a'" "a_ui a' = a_ui (on_sw stopwatch_clear_laps a)"
    by (rule says [of "''sw: clear laps\<newline>''" "on_sw stopwatch_clear_laps a"]) simp_all
  then show ?thesis
    using ClearLaps by (simp add: stopwatch_commands_def c_str_def cmd_sw_clear_laps_def kprintf_ret_def on_sw_sw)
qed

lemma prompt_says: "finsh_prompt_custom sh = None \<Longrightarrow> CHR ''%'' \<notin> set (finsh_get_prompt sh)"
  by (simp add: finsh_get_prompt_def)

text \<open>The shell on a whole line, from the lemmas of \<open>Shell\<close>.\<close>

lemma line_effect:
  assumes "edits sh [] []" "keeps sh h" "shell.stat sh = WAIT_NORMAL" "list_all key_ok ks" "typed ks < FINSH_CMD_SIZE"
    and "fold ed_step ks ([], []) = (l, r)" "list_all plain (l @ r)" "words (l @ r) = command_name op # ws" "length ws < 9"
    and "exported tab = stopwatch_commands" "finsh_prompt_custom sh = None"
  shows "\<exists>sh' a'. finsh_run tab (concat (map key_bytes ks) @ [CHR 0x0D]) (sh, a) = Some (sh', a') \<and>
    u_sw (a_ui a') = sw_step op (u_sw (a_ui a)) \<and> edits sh' [] [] \<and> keeps sh' (remember (l @ r) h) \<and> shell.stat sh' = WAIT_NORMAL"
proof -
  obtain l' p c a0 where run: "finsh_run tab (concat (map key_bytes ks)) (sh, a) = Some (sh\<lparr>line := l', shell.line_position := p, shell.line_curpos := c\<rparr>, a0)"
    and e: "edits (sh\<lparr>line := l', shell.line_position := p, shell.line_curpos := c\<rparr>) l r" and a0: "prints (Some a0) a"
    using keys_run [OF assms(1,3,4), of tab a] assms(5,6) unfolding edit_to_def by auto
  define sh0 where "sh0 = sh\<lparr>line := l', shell.line_position := p, shell.line_curpos := c\<rparr>"
  have k: "keeps sh0 h" and st: "shell.stat sh0 = WAIT_NORMAL" "finsh_prompt_custom sh0 = None"
    using assms(2,3,11) by (simp_all add: keeps_def sh0_def)
  have n: "length (words (l @ r)) < FINSH_ARG_MAX"
    using assms(8,9) by simp
  obtain a1 sh' where a1: "prints (Some a1) a0" "edits sh' [] []" "keeps sh' (remember (l @ r) h)" "shell.stat sh' = shell.stat sh0"
    "enter_key tab sh0 a0 = do { (_, a2) \<leftarrow> run_words (exported tab) (l @ r) a1; a3 \<leftarrow> kprintf (finsh_get_prompt sh0) [] a2; Some (sh', a3) }"
    using enter_key_runs [OF e [folded sh0_def] k assms(7) n, of a0 tab] by blast
  have sw: "a_ui a1 = a_ui a"
    using prints_trans [OF a0 a1(1)] by (auto simp: prints_def)
  obtain f r2 a2 where f: "command_of stopwatch_commands (command_name op) = Some f" "f (command_name op # ws) a1 = Some (r2, a2)"
    "u_sw (a_ui a2) = sw_step op (u_sw (a_ui a1))"
    using command_effect by blast
  obtain a3 where a3: "kprintf (finsh_get_prompt sh0) [] a2 = Some a3" "a_ui a3 = a_ui a2"
    by (rule says [OF prompt_says [OF st(2)]])
  have "finsh_run tab [CHR 0x0D] (sh0, a0) = enter_key tab sh0 a0"
    using st by (simp add: finsh_run_def finsh_step_def plain_key_def fold_opt_nil)
  then have "finsh_run tab (concat (map key_bytes ks) @ [CHR 0x0D]) (sh, a) = Some (sh', a3)"
    using run f(1,2) a3(1) a1(5) assms(8) by (simp add: finsh_run_append sh0_def [symmetric] run_words_def assms(10))
  then show ?thesis
    using a1(2-4) f(3) a3(2) sw st(1) by auto
qed

text \<open>While the shell runs it takes what is in the buffer, character by character.\<close>

lemma drain:
  assumes "shell_device c = Some v" "devices c v = Some (d, x)" "input_open d x f" "fifo_bytes (bufsz x) f = map char_byte s"
    and "getchar_pc c = At_Read" "caller (io_sys c) t" "finsh_run tab s st = Some st'"
  shows "\<exists>c'. (firmware_step tab t i)\<^sup>*\<^sup>* (c, st) (c', st') \<and> shell_input c' = [] \<and> arrived c' = arrived c \<and> input_lost c' = input_lost c"
  using assms
proof (induction s arbitrary: c x f st)
  case Nil
  then have "shell_input c = []" "st' = st"
    by (simp_all add: shell_input_def input_open_def finsh_run_def)
  then show ?case
    by blast
next
  case (Cons ch s)
  obtain bs f' where r: "fifo_read (bufsz x) 1 f = (bs, f')"
    by fastforce
  note law = read_law [OF Cons.prems(3) r]
  let ?x = "x\<lparr>serial_rx := Some f'\<rparr>"
  let ?c = "(put_device v (d, ?x) c)\<lparr>got := got c @ [char_byte ch]\<rparr>"
  have "finsh_getchar i c = Some ?c"
    using Cons.prems(1,2,4,5) law(1,3) by (simp add: finsh_getchar_def Let_def del: One_nat_def) simp
  then have step: "console_step t i c ?c"
    using Cons.prems(6) by (rule console_step.getchar [rotated])
  obtain st1 where st1: "finsh_step tab ch st = Some st1" "finsh_run tab s st1 = Some st'"
    using Cons.prems(7) by (auto simp: finsh_run_def split: Option.bind_splits)
  have "firmware_step tab t i (c, st) (?c, st1)"
    by (rule firmware_step.char [OF step, of "char_byte ch"]) (simp_all add: put_device_def byte_char_byte st1(1))
  moreover have "\<exists>c'. (firmware_step tab t i)\<^sup>*\<^sup>* (?c, st1) (c', st') \<and> shell_input c' = [] \<and> arrived c' = arrived ?c \<and> input_lost c' = input_lost ?c"
    by (rule Cons.IH [of ?c ?x f' st1]) (use Cons.prems law st1 in \<open>simp_all add: put_device_def\<close>)
  moreover have "input_lost ?c = input_lost c"
    using Cons.prems(1,2) by (simp add: input_lost_def put_device_def)
  ultimately show ?case
    by (auto simp: put_device_def intro: converse_rtranclp_into_rtranclp)
qed

text \<open>C1: from the terminal to the stopwatch.  When the shell has its device and an empty line, and a user types the name of a
  command that changes the stopwatch, edited in any way, and Enter, then, however the bytes arrive in interrupts and the
  threads are scheduled, once the shell has taken all that arrived the operation of the service has been called exactly once, and the shell is
  ready for the next line; provided that the receive buffer did not overflow.\<close>

theorem typed_command_runs:
  assumes "ipc_wf (io_sys c0)" "input_ready i v c0" "finsh_set_device v c0 = Some c1"
    and "edits sh [] []" "keeps sh h" "shell.stat sh = WAIT_NORMAL" "finsh_prompt_custom sh = None" "exported tab = stopwatch_commands"
    and "list_all key_ok ks" "typed ks < FINSH_CMD_SIZE" "fold ed_step ks ([], []) = (l, r)" "list_all plain (l @ r)"
    and "words (l @ r) = command_name op # ws" "length ws < 9"
    and "(firmware_step tab t i)\<^sup>*\<^sup>* (c1, sh, a) (c, sh', a')"
    and "arrived c = map char_byte (concat (map key_bytes ks) @ [CHR 0x0D])" "shell_input c = []" "\<not> input_lost c"
  shows "u_sw (a_ui a') = sw_step op (u_sw (a_ui a)) \<and> edits sh' [] [] \<and> keeps sh' (remember (l @ r) h) \<and> shell.stat sh' = WAIT_NORMAL"
proof -
  have g1: "got c1 = []"
    using assms(2,3) by (auto simp: input_ready_def finsh_set_device_def close_old_def put_device_def Let_def split: option.splits Option.bind_splits if_splits)
  have run: "(console_step t i)\<^sup>*\<^sup>* c1 c" "finsh_run tab (map byte_char (got c)) (sh, a) = Some (sh', a')"
    using firmware_run [OF assms(15)] g1 by auto
  have "got c = arrived c"
    using console_invD(2) [OF reach_inv [OF assms(1-3) run(1)]] assms(17,18) by (simp add: in_order_def)
  then have "map byte_char (got c) = concat (map key_bytes ks) @ [CHR 0x0D]"
    using assms(16) by (simp add: comp_def byte_char_byte)
  then show ?thesis
    using run(2) line_effect [OF assms(4-6,9-14,8,7), of a] by auto
qed


definition demo_line :: string where
  "demo_line = concat (map key_bytes (map KChar ''sw_lax'' @ [KBack, KChar CHR ''p''])) @ [CHR 0x0D]"

lemma demo_line_arrives:
  obtains c1 c2 where "finsh_set_device ''uart1'' demo_io = Some c1" "console_step 1 8 c1 c2" "shell_input c2 = map char_byte demo_line"
    "arrived c2 = map char_byte demo_line" "\<not> input_lost c2" "getchar_pc c2 = At_Read" "caller (io_sys c2) 1" "got c2 = []" "got c1 = []"
proof -
  have e: "map_option (\<lambda>(c1, c2). (shell_device c1 = Some ''uart1'', got c1, got c2, shell_input c2 = map char_byte demo_line, arrived c2 = map char_byte demo_line,
      input_lost c2, getchar_pc c2, rt_current_thread (kern (io_sys c2)), Scheduler.stat (threads (kern (io_sys c2)) 1)))
     (do { c1 \<leftarrow> finsh_set_device ''uart1'' demo_io; c2 \<leftarrow> uart_interrupt 8 ''uart1'' (map char_byte demo_line) c1; Some (c1, c2) }) =
     Some (True, [], [], True, True, False, At_Read, Some 1, RT_THREAD_RUNNING)"
    by code_simp
  then obtain c1 c2 where c: "finsh_set_device ''uart1'' demo_io = Some c1" "uart_interrupt 8 ''uart1'' (map char_byte demo_line) c1 = Some c2"
    by (auto split: Option.bind_splits)
  have p: "shell_device c1 = Some ''uart1''" "shell_input c2 = map char_byte demo_line" "arrived c2 = map char_byte demo_line" "\<not> input_lost c2"
    "getchar_pc c2 = At_Read" "caller (io_sys c2) 1" "got c2 = []" "got c1 = []"
    using e c by (auto simp: caller_def)
  have "console_step 1 8 c1 c2"
    using p(1) c(2) by (rule console_step.interrupt)
  then show ?thesis
    by (rule that [OF c(1) _ p(2-8)])
qed


theorem typed_command_runs_witness:
  "\<exists>c1 c sh' a'. finsh_set_device ''uart1'' demo_io = Some c1 \<and> (firmware_step demo_table 1 8)\<^sup>*\<^sup>* (c1, demo_shell, demo_app) (c, sh', a') \<and>
     u_sw (a_ui a') = sw_step Lap (u_sw (a_ui demo_app)) \<and> keeps sh' (remember ''sw_lap'' [])"
proof -
  let ?ks = "map KChar ''sw_lax'' @ [KBack, KChar CHR ''p'']"
  have ks: "list_all key_ok ?ks" "typed ?ks < FINSH_CMD_SIZE" "fold ed_step ?ks ([], []) = (''sw_lap'', [])"
    "list_all plain (''sw_lap'' @ [])" "words (''sw_lap'' @ []) = command_name Lap # []" "length ([] :: string list) < 9"
    by (simp_all add: ordinary_def typed_def plain_def blank_def)
  have sh: "finsh_prompt_custom demo_shell = None"
    by (simp add: demo_shell_def)
  obtain c1 c2 where c: "finsh_set_device ''uart1'' demo_io = Some c1" "console_step 1 8 c1 c2" "shell_input c2 = map char_byte demo_line"
    "arrived c2 = map char_byte demo_line" "\<not> input_lost c2" "getchar_pc c2 = At_Read" "caller (io_sys c2) 1" "got c2 = []" "got c1 = []"
    by (rule demo_line_arrives)
  obtain v d x f where o: "shell_device c2 = Some v" "devices c2 v = Some (d, x)" "input_open d x f"
    using reach_inv [OF demo_io_ready c(1) r_into_rtranclp, OF c(2)] unfolding console_inv_def by blast
  have b: "fifo_bytes (bufsz x) f = map char_byte demo_line"
    using c(3) o by (simp add: shell_input_def input_open_def)
  obtain sh' a' where "finsh_run demo_table demo_line (demo_shell, demo_app) = Some (sh', a')"
    using line_effect [OF demo_shell_clean ks exported_demo sh, of demo_app] by (auto simp: demo_line_def)
  then obtain c3 where c3: "(firmware_step demo_table 1 8)\<^sup>*\<^sup>* (c2, demo_shell, demo_app) (c3, sh', a')" "shell_input c3 = []"
    "arrived c3 = arrived c2" "input_lost c3 = input_lost c2"
    using drain [OF o b c(6,7)] by blast
  have "firmware_step demo_table 1 8 (c1, demo_shell, demo_app) (c2, demo_shell, demo_app)"
    using c(2,8,9) by (intro firmware_step.idle) simp_all
  then have run: "(firmware_step demo_table 1 8)\<^sup>*\<^sup>* (c1, demo_shell, demo_app) (c3, sh', a')"
    using c3(1) by (rule converse_rtranclp_into_rtranclp)
  have "arrived c3 = map char_byte (concat (map key_bytes ?ks) @ [CHR 0x0D])" "\<not> input_lost c3"
    using c3(3,4) c(4,5) by (simp_all add: demo_line_def)
  from typed_command_runs [OF demo_io_ready c(1) demo_shell_clean sh exported_demo ks run this(1) c3(2) this(2)] run c(1)
  show ?thesis
    by auto
qed

end
