(* ===== verification/Objects.thy ===== *)
theory Objects
  imports Kstring Device
begin

text \<open>
  \<^verbatim>\<open>rt-thread/src/object.c\<close>: the lists of named kernel objects, one for each class, and the registration of
  devices in \<^verbatim>\<open>rt-thread/src/device.c\<close> over them.  An object is its address; hooks are left out.
\<close>

unbundle bit_operations_syntax

section \<open>State\<close>

abbreviation (input) RT_NAME_MAX :: nat where "RT_NAME_MAX \<equiv> 8"
abbreviation (input) RT_Object_Class_Null :: u8 where "RT_Object_Class_Null \<equiv> 0"
abbreviation (input) RT_Object_Class_Device :: u8 where "RT_Object_Class_Device \<equiv> 9"
abbreviation (input) RT_Object_Class_Static :: u8 where "RT_Object_Class_Static \<equiv> 0x80"

record rt_object =
  obj_name :: string
  obj_type :: u8
  obj_flag :: u8

record object_sys =
  object_at :: "nat \<Rightarrow> rt_object"
  object_list :: "u8 \<Rightarrow> nat list"

text \<open>The classes of this configuration: threads, semaphores, mutexes, events, mailboxes, message queues, memory
  pools, devices and timers.\<close>

definition rt_object_container :: "u8 list" where
  "rt_object_container = [1, 2, 3, 4, 5, 6, 8, 9, 10]"

section \<open>Operations\<close>

definition rt_object_get_information :: "u8 \<Rightarrow> u8 option" where
  "rt_object_get_information ty = List.find (\<lambda>c. c = ty) rt_object_container"

definition rt_object_get_length :: "u8 \<Rightarrow> object_sys \<Rightarrow> nat" where
  "rt_object_get_length ty s = (case rt_object_get_information ty of None \<Rightarrow> 0 | Some c \<Rightarrow> length (object_list s c))"

definition rt_object_get_pointers :: "u8 \<Rightarrow> int \<Rightarrow> object_sys \<Rightarrow> nat list" where
  "rt_object_get_pointers ty maxlen s =
     (if maxlen \<le> 0 then []
      else case rt_object_get_information ty of None \<Rightarrow> [] | Some c \<Rightarrow> take (nat maxlen) (object_list s c))"

definition list_insert_after :: "u8 \<Rightarrow> nat \<Rightarrow> rt_object \<Rightarrow> object_sys \<Rightarrow> object_sys" where
  "list_insert_after c p ob s = s\<lparr>object_at := (object_at s)(p := ob), object_list := (object_list s)(c := p # object_list s c)\<rparr>"

definition rt_object_init :: "nat \<Rightarrow> u8 \<Rightarrow> string \<Rightarrow> object_sys \<Rightarrow> object_sys option" where
  "rt_object_init p ty nm s =
     do { c \<leftarrow> rt_object_get_information ty;
          if p \<in> set (object_list s c) then None
          else Some (list_insert_after c p
                 ((object_at s p)\<lparr>obj_type := ty OR RT_Object_Class_Static, obj_name := rt_strncpy nm RT_NAME_MAX\<rparr>) s) }"

definition list_remove_object :: "nat \<Rightarrow> object_sys \<Rightarrow> object_sys" where
  "list_remove_object p s = s\<lparr>object_at := (object_at s)(p := (object_at s p)\<lparr>obj_type := RT_Object_Class_Null\<rparr>),
     object_list := (\<lambda>c. removeAll p (object_list s c))\<rparr>"

definition rt_object_detach :: "nat \<Rightarrow> object_sys \<Rightarrow> object_sys" where
  "rt_object_detach p s = list_remove_object p s"

text \<open>\<open>mem\<close> is what the heap gives; its contents are cleared.\<close>

definition rt_object_allocate :: "nat option \<Rightarrow> u8 \<Rightarrow> string \<Rightarrow> object_sys \<Rightarrow> (nat option \<times> object_sys) option" where
  "rt_object_allocate mem ty nm s =
     do { c \<leftarrow> rt_object_get_information ty;
          case mem of None \<Rightarrow> Some (None, s)
          | Some p \<Rightarrow> Some (Some p, list_insert_after c p \<lparr>obj_name = rt_strncpy nm RT_NAME_MAX, obj_type = ty, obj_flag = 0\<rparr> s) }"

definition rt_object_is_systemobject :: "nat \<Rightarrow> object_sys \<Rightarrow> bool" where
  "rt_object_is_systemobject p s = (obj_type (object_at s p) AND RT_Object_Class_Static \<noteq> 0)"

definition rt_object_get_type :: "nat \<Rightarrow> object_sys \<Rightarrow> u8" where
  "rt_object_get_type p s = obj_type (object_at s p) AND NOT RT_Object_Class_Static"

text \<open>Deleting also gives the memory back to the heap.\<close>

definition rt_object_delete :: "nat \<Rightarrow> object_sys \<Rightarrow> object_sys option" where
  "rt_object_delete p s = (if rt_object_is_systemobject p s then None else Some (list_remove_object p s))"

definition rt_object_find :: "string \<Rightarrow> u8 \<Rightarrow> object_sys \<Rightarrow> nat option" where
  "rt_object_find nm ty s =
     (case rt_object_get_information ty of None \<Rightarrow> None
      | Some c \<Rightarrow> List.find (\<lambda>p. rt_strncmp (obj_name (object_at s p)) nm RT_NAME_MAX = 0) (object_list s c))"

section \<open>Devices\<close>

record device_sys =
  objs :: object_sys
  devs :: "nat \<Rightarrow> rt_device"

definition rt_device_find :: "string \<Rightarrow> device_sys \<Rightarrow> nat option" where
  "rt_device_find nm s = rt_object_find nm RT_Object_Class_Device (objs s)"

definition device_register :: "nat \<Rightarrow> string \<Rightarrow> u16 \<Rightarrow> device_sys \<Rightarrow> (rt_err_t \<times> device_sys) option" where
  "device_register p nm flags s =
     (let (r, d) = rt_device_register (rt_device_find nm s \<noteq> None) flags (devs s p)
      in if r \<noteq> RT_EOK then Some (r, s)
         else do { os \<leftarrow> rt_object_init p RT_Object_Class_Device nm (objs s);
                   Some (r, s\<lparr>objs := os, devs := (devs s)(p := d)\<rparr>) })"

definition rt_device_unregister :: "nat \<Rightarrow> device_sys \<Rightarrow> (rt_err_t \<times> device_sys) option" where
  "rt_device_unregister p s =
     (if rt_object_get_type p (objs s) \<noteq> RT_Object_Class_Device \<or> \<not> rt_object_is_systemobject p (objs s) then None
      else Some (RT_EOK, s\<lparr>objs := rt_object_detach p (objs s)\<rparr>))"

text \<open>The class of the device, not of the object, is set in the memory from the heap.\<close>

definition rt_device_create :: "nat option \<Rightarrow> device_sys \<Rightarrow> nat option \<times> device_sys" where
  "rt_device_create mem s =
     (case mem of None \<Rightarrow> (None, s)
      | Some p \<Rightarrow> (Some p, s\<lparr>objs := (objs s)\<lparr>object_at := (object_at (objs s))(p := \<lparr>obj_name = replicate RT_NAME_MAX (CHR 0x00), obj_type = 0, obj_flag = 0\<rparr>)\<rparr>,
          devs := (devs s)(p := \<lparr>dev_flag = 0, open_flag = 0, ref_count = 0, rx_indicate = None, tx_complete = None\<rparr>)\<rparr>))"

definition rt_device_destroy :: "nat \<Rightarrow> device_sys \<Rightarrow> device_sys option" where
  "rt_device_destroy p s =
     (if rt_object_get_type p (objs s) \<noteq> RT_Object_Class_Device \<or> rt_object_is_systemobject p (objs s) then None
      else Some (s\<lparr>objs := rt_object_detach p (objs s)\<rparr>))"

section \<open>Invariant of the container\<close>

definition linked_object :: "nat \<Rightarrow> object_sys \<Rightarrow> bool" where
  "linked_object p s \<longleftrightarrow> (\<exists>c \<in> set rt_object_container. p \<in> set (object_list s c))"

text \<open>Every object is on the list of its class only, once, and has a name of eight characters.\<close>

definition objects_ok :: "object_sys \<Rightarrow> bool" where
  "objects_ok s \<longleftrightarrow> (\<forall>c. distinct (object_list s c) \<and> (\<forall>p. p \<in> set (object_list s c) \<longrightarrow> c \<in> set rt_object_container \<and> rt_object_get_type p s = c \<and>
      length (obj_name (object_at s p)) = RT_NAME_MAX))"

lemma find_class: "List.find (\<lambda>c. c = x) xs = (if x \<in> set xs then Some x else None)"
  by (induction xs) auto

lemma get_information: "rt_object_get_information ty = (if ty \<in> set rt_object_container then Some ty else None)"
  by (simp add: rt_object_get_information_def find_class)

lemma class_types:
  assumes "ty \<in> set rt_object_container"
  shows "(ty OR RT_Object_Class_Static) AND NOT RT_Object_Class_Static = ty" "ty AND NOT RT_Object_Class_Static = ty"
    "ty AND RT_Object_Class_Static = 0"
  using assms by (auto simp: rt_object_container_def)

lemma length_name: "length (rt_strncpy nm n) = n"
  by (simp add: rt_strncpy_c_str)

lemma name_c_str: "c_str (rt_strncpy nm n) = take n (c_str nm)"
proof -
  have c: "\<forall>c \<in> set (take n (c_str nm)). c \<noteq> CHR 0x00"
    unfolding c_str_def by (auto dest!: in_set_takeD set_takeWhileD)
  have "takeWhile (\<lambda>c. c \<noteq> CHR 0x00) (replicate k (CHR 0x00)) = []" for k
    by (cases k) simp_all
  then show ?thesis
    unfolding rt_strncpy_c_str c_str_def [of "take n (c_str nm) @ _"] using c by (subst takeWhile_append2) auto
qed

lemma not_linked: "objects_ok s \<Longrightarrow> \<not> linked_object p s \<Longrightarrow> p \<notin> set (object_list s c)"
  unfolding objects_ok_def linked_object_def by blast

lemma insert_object_ok:
  assumes "objects_ok s" "\<not> linked_object p s" "c \<in> set rt_object_container" "obj_type ob AND NOT RT_Object_Class_Static = c"
    and "length (obj_name ob) = RT_NAME_MAX"
  shows "objects_ok (list_insert_after c p ob s)"
  using assms not_linked [OF assms(1,2)] unfolding objects_ok_def by (auto simp: list_insert_after_def rt_object_get_type_def)

lemma remove_object_ok:
  assumes "objects_ok s"
  shows "objects_ok (list_remove_object p s)" "\<not> linked_object p (list_remove_object p s)"
  using assms unfolding objects_ok_def by (auto simp: list_remove_object_def rt_object_get_type_def linked_object_def distinct_removeAll)

datatype object_op = Obj_Init nat u8 string | Obj_Detach nat | Obj_Allocate "nat option" u8 string | Obj_Delete nat

fun object_step :: "object_op \<Rightarrow> object_sys \<Rightarrow> object_sys option" where
  "object_step (Obj_Init p ty nm) s = rt_object_init p ty nm s"
| "object_step (Obj_Detach p) s = Some (rt_object_detach p s)"
| "object_step (Obj_Allocate mem ty nm) s = map_option snd (rt_object_allocate mem ty nm s)"
| "object_step (Obj_Delete p) s = rt_object_delete p s"

text \<open>No object is linked when it is initialised; memory from the heap is no linked object.\<close>

fun object_op_ok :: "object_op \<Rightarrow> object_sys \<Rightarrow> bool" where
  "object_op_ok (Obj_Init p ty nm) s = (\<not> linked_object p s)"
| "object_op_ok (Obj_Allocate mem ty nm) s = (case mem of None \<Rightarrow> True | Some p \<Rightarrow> \<not> linked_object p s)"
| "object_op_ok op s = True"

fun object_run :: "object_op list \<Rightarrow> object_sys \<Rightarrow> object_sys option" where
  "object_run [] s = Some s"
| "object_run (op # ops) s = (if object_op_ok op s then do { s' \<leftarrow> object_step op s; object_run ops s' } else None)"

lemma object_step_ok:
  assumes "objects_ok s" "object_op_ok op s" "object_step op s = Some s'"
  shows "objects_ok s'"
proof (cases op)
  case (Obj_Init p ty nm)
  then show ?thesis
    using assms class_types by (auto simp: rt_object_init_def get_information length_name split: if_splits intro!: insert_object_ok)
next
  case (Obj_Allocate mem ty nm)
  then show ?thesis
    using assms class_types by (auto simp: rt_object_allocate_def get_information length_name split: if_splits option.splits intro!: insert_object_ok)
qed (use assms remove_object_ok in \<open>auto simp: rt_object_detach_def rt_object_delete_def split: if_splits\<close>)

lemma object_run_ok: "objects_ok s \<Longrightarrow> object_run ops s = Some s' \<Longrightarrow> objects_ok s'"
proof (induction ops arbitrary: s)
  case (Cons op ops)
  then show ?case
    using object_step_ok [OF Cons.prems(1)] by (auto split: if_splits Option.bind_splits)
qed simp

definition no_objects :: object_sys where
  "no_objects = \<lparr>object_at = (\<lambda>_. \<lparr>obj_name = replicate RT_NAME_MAX (CHR 0x00), obj_type = 0, obj_flag = 0\<rparr>), object_list = (\<lambda>_. [])\<rparr>"

lemma no_objects_ok: "objects_ok no_objects"
  by (simp add: objects_ok_def no_objects_def)

lemma find_name:
  "rt_object_find nm ty s = (if ty \<in> set rt_object_container
     then List.find (\<lambda>p. take RT_NAME_MAX (c_str (obj_name (object_at s p))) = take RT_NAME_MAX (c_str nm)) (object_list s ty) else None)"
  by (simp add: rt_object_find_def get_information rt_strncmp_0)

lemma removeAll_absent: "p \<notin> set xs \<Longrightarrow> removeAll p xs = xs"
  by simp

lemma find_cong_on: "(\<And>x. x \<in> set xs \<Longrightarrow> P x = Q x) \<Longrightarrow> List.find P xs = List.find Q xs"
  by (rule find_cong) auto

text \<open>Whatever objects were initialised, allocated, detached and deleted before, an object that is initialised under a
  name is found under it in its class; lookups of every other class or name (in its first eight characters) are not
  affected; and detaching it again restores every list.\<close>

theorem object_lookup:
  assumes "object_run ops no_objects = Some s" "\<not> linked_object p s" "rt_object_init p ty nm s = Some s'"
  shows "rt_object_find nm ty s' = Some p \<and>
    (\<forall>nm2 ty2. ty2 \<noteq> ty \<or> take RT_NAME_MAX (c_str nm2) \<noteq> take RT_NAME_MAX (c_str nm) \<longrightarrow> rt_object_find nm2 ty2 s' = rt_object_find nm2 ty2 s) \<and>
    object_list (rt_object_detach p s') = object_list s"
proof -
  have ok: "objects_ok s"
    by (rule object_run_ok [OF no_objects_ok assms(1)])
  note off = not_linked [OF ok assms(2)]
  have s': "s' = list_insert_after ty p ((object_at s p)\<lparr>obj_type := ty OR RT_Object_Class_Static, obj_name := rt_strncpy nm RT_NAME_MAX\<rparr>) s"
    and ty: "ty \<in> set rt_object_container"
    using assms(3) by (auto simp: rt_object_init_def get_information split: if_splits)
  have "rt_object_find nm ty s' = Some p"
    using ty by (simp add: find_name s' list_insert_after_def name_c_str)
  moreover have "rt_object_find nm2 ty2 s' = rt_object_find nm2 ty2 s"
    if "ty2 \<noteq> ty \<or> take RT_NAME_MAX (c_str nm2) \<noteq> take RT_NAME_MAX (c_str nm)" for nm2 ty2
    using that off by (auto simp: find_name s' list_insert_after_def name_c_str intro!: find_cong_on)
  moreover have "object_list (rt_object_detach p s') = object_list s"
    using off by (auto simp: rt_object_detach_def list_remove_object_def s' list_insert_after_def removeAll_absent)
  ultimately show ?thesis
    by blast
qed

theorem object_lookup_witness:
  "\<exists>s s'. object_run [Obj_Init 1 9 ''uart1'', Obj_Init 2 2 ''shrx'', Obj_Detach 1] no_objects = Some s \<and> rt_object_init 3 9 ''pin'' s = Some s' \<and>
     rt_object_find ''pin'' 9 s' = Some 3 \<and> rt_object_find ''shrx'' 2 s' = rt_object_find ''shrx'' 2 s"
proof -
  have "map_option (\<lambda>s. (linked_object 3 s, rt_object_init 3 9 ''pin'' s = None))
     (object_run [Obj_Init 1 9 ''uart1'', Obj_Init 2 2 ''shrx'', Obj_Detach 1] no_objects) = Some (False, False)"
    by code_simp
  then obtain s s' where "object_run [Obj_Init 1 9 ''uart1'', Obj_Init 2 2 ''shrx'', Obj_Detach 1] no_objects = Some s" "\<not> linked_object 3 s"
    "rt_object_init 3 9 ''pin'' s = Some s'"
    by auto
  moreover have "(2 :: u8) \<noteq> 9"
    by simp
  ultimately show ?thesis
    using object_lookup [of _ s 3 9 "''pin''" s'] by blast
qed

section \<open>The registry of devices\<close>

datatype registry_op = Reg nat string u16 | Unreg nat | Create "nat option" | Other_Object object_op

text \<open>Other kernel objects come and go on their own lists.\<close>

fun class_of_op :: "object_op \<Rightarrow> object_sys \<Rightarrow> u8" where
  "class_of_op (Obj_Init p ty nm) s = ty"
| "class_of_op (Obj_Allocate mem ty nm) s = ty"
| "class_of_op (Obj_Detach p) s = rt_object_get_type p s"
| "class_of_op (Obj_Delete p) s = rt_object_get_type p s"

fun registry_step :: "registry_op \<Rightarrow> device_sys \<Rightarrow> device_sys option" where
  "registry_step (Reg p nm flags) s = map_option snd (device_register p nm flags s)"
| "registry_step (Unreg p) s = map_option snd (rt_device_unregister p s)"
| "registry_step (Create mem) s = Some (snd (rt_device_create mem s))"
| "registry_step (Other_Object op) s = map_option (\<lambda>os. s\<lparr>objs := os\<rparr>) (object_step op (objs s))"

text \<open>A device that is registered is on no list of another class; memory from the heap is no linked object.\<close>

fun registry_op_ok :: "registry_op \<Rightarrow> device_sys \<Rightarrow> bool" where
  "registry_op_ok (Reg p nm flags) s = (linked_object p (objs s) \<longrightarrow> rt_object_get_type p (objs s) = RT_Object_Class_Device)"
| "registry_op_ok (Create mem) s = (case mem of None \<Rightarrow> True | Some p \<Rightarrow> \<not> linked_object p (objs s))"
| "registry_op_ok (Other_Object op) s = (object_op_ok op (objs s) \<and> class_of_op op (objs s) \<noteq> RT_Object_Class_Device)"
| "registry_op_ok (Unreg p) s = True"

fun registry_run :: "registry_op list \<Rightarrow> device_sys \<Rightarrow> device_sys option" where
  "registry_run [] s = Some s"
| "registry_run (op # ops) s = (if registry_op_ok op s then do { s' \<leftarrow> registry_step op s; registry_run ops s' } else None)"

definition device_name :: "nat \<Rightarrow> object_sys \<Rightarrow> string" where
  "device_name p s = take RT_NAME_MAX (c_str (obj_name (object_at s p)))"

definition registry_ok :: "object_sys \<Rightarrow> bool" where
  "registry_ok s \<longleftrightarrow> objects_ok s \<and> inj_on (\<lambda>p. device_name p s) (set (object_list s RT_Object_Class_Device)) \<and>
     (\<forall>p. rt_object_get_type p s = RT_Object_Class_Device \<longrightarrow> rt_object_is_systemobject p s)"

lemma registry_insert:
  assumes "registry_ok s" "\<not> linked_object p s" "c \<in> set rt_object_container" "obj_type ob AND NOT RT_Object_Class_Static = c"
    and "length (obj_name ob) = RT_NAME_MAX" "c = RT_Object_Class_Device \<Longrightarrow> obj_type ob AND RT_Object_Class_Static \<noteq> 0 \<and>
      take RT_NAME_MAX (c_str (obj_name ob)) \<notin> (\<lambda>q. device_name q s) ` set (object_list s c)"
  shows "registry_ok (list_insert_after c p ob s)"
proof -
  let ?s = "list_insert_after c p ob s" and ?D = "set (object_list s RT_Object_Class_Device)"
  have ok: "objects_ok s" "inj_on (\<lambda>q. device_name q s) ?D"
    using assms(1) by (simp_all add: registry_ok_def)
  have off: "p \<notin> ?D"
    by (rule not_linked [OF ok(1) assms(2)])
  have same: "device_name q ?s = (if q = p then take RT_NAME_MAX (c_str (obj_name ob)) else device_name q s)" for q
    by (simp add: device_name_def list_insert_after_def)
  have list: "set (object_list ?s RT_Object_Class_Device) = (if c = RT_Object_Class_Device then insert p ?D else ?D)"
    by (simp add: list_insert_after_def)
  have "inj_on (\<lambda>q. device_name q ?s) (set (object_list ?s RT_Object_Class_Device))"
    unfolding same list using ok(2) off assms(6) by (auto simp: inj_on_def image_iff) metis+
  moreover have "rt_object_is_systemobject q ?s" if "rt_object_get_type q ?s = RT_Object_Class_Device" for q
  proof (cases "q = p")
    case True
    then show ?thesis
      using that assms(4,6) by (simp add: list_insert_after_def rt_object_get_type_def rt_object_is_systemobject_def)
  next
    case False
    then show ?thesis
      using that assms(1) by (simp add: registry_ok_def list_insert_after_def rt_object_get_type_def rt_object_is_systemobject_def)
  qed
  ultimately show ?thesis
    using insert_object_ok [OF ok(1) assms(2-5)] by (simp add: registry_ok_def)
qed

lemma registry_change:
  assumes "registry_ok s" "obj_type ob = 0" "length (obj_name ob) = RT_NAME_MAX" "objects_ok s'" "object_at s' = (object_at s)(p := ob)"
    and "set (object_list s' RT_Object_Class_Device) \<subseteq> set (object_list s RT_Object_Class_Device) - {p}"
  shows "registry_ok s'"
proof -
  have "device_name q s' = device_name q s" if "q \<in> set (object_list s' RT_Object_Class_Device)" for q
    using that assms(5,6) by (auto simp: device_name_def)
  then have "inj_on (\<lambda>q. device_name q s') (set (object_list s' RT_Object_Class_Device))"
    using assms(1,6) unfolding registry_ok_def inj_on_def by (metis (no_types, lifting) Diff_iff subsetD)
  then show ?thesis
    using assms(1,2,4,5) by (auto simp: registry_ok_def rt_object_get_type_def rt_object_is_systemobject_def)
qed

lemma unlinked_change:
  assumes "objects_ok s" "\<not> linked_object p s"
  shows "objects_ok (s\<lparr>object_at := (object_at s)(p := ob)\<rparr>)"
  using assms(1) not_linked [OF assms] unfolding objects_ok_def rt_object_get_type_def by auto

lemma registry_remove:
  assumes "registry_ok s"
  shows "registry_ok (list_remove_object p s)"
proof -
  have "objects_ok s"
    using assms by (simp add: registry_ok_def)
  note ok = remove_object_ok(1) [OF this, of p]
  have "rt_object_get_type q (list_remove_object p s) = RT_Object_Class_Device \<Longrightarrow> q \<noteq> p \<and> rt_object_get_type q s = RT_Object_Class_Device" for q
    by (auto simp: list_remove_object_def rt_object_get_type_def split: if_splits)
  moreover have "q \<noteq> p \<Longrightarrow> object_at (list_remove_object p s) q = object_at s q" for q
    by (simp add: list_remove_object_def)
  moreover have "set (object_list (list_remove_object p s) RT_Object_Class_Device) = set (object_list s RT_Object_Class_Device) - {p}"
    by (simp add: list_remove_object_def)
  ultimately show ?thesis
    using assms ok by (simp add: registry_ok_def rt_object_is_systemobject_def device_name_def inj_on_def)
qed

lemma other_object_ok:
  assumes "registry_ok s" "object_op_ok op s" "class_of_op op s \<noteq> RT_Object_Class_Device" "object_step op s = Some s'"
  shows "registry_ok s'"
proof (cases op)
  case (Obj_Init p ty nm)
  then have ty: "ty \<in> set rt_object_container" "ty \<noteq> RT_Object_Class_Device" "\<not> linked_object p s"
    and s': "s' = list_insert_after ty p ((object_at s p)\<lparr>obj_type := ty OR RT_Object_Class_Static, obj_name := rt_strncpy nm RT_NAME_MAX\<rparr>) s"
    using assms(2-4) by (auto simp: rt_object_init_def get_information split: if_splits)
  show ?thesis
    unfolding s' by (rule registry_insert [OF assms(1) ty(3,1)]) (use ty class_types in \<open>simp_all add: length_name\<close>)
next
  case (Obj_Allocate mem ty nm)
  show ?thesis
  proof (cases mem)
    case None
    then show ?thesis
      using assms(1,4) Obj_Allocate by (auto simp: rt_object_allocate_def get_information split: if_splits)
  next
    case (Some p)
    then have ty: "ty \<in> set rt_object_container" "ty \<noteq> RT_Object_Class_Device" "\<not> linked_object p s"
      and s': "s' = list_insert_after ty p \<lparr>obj_name = rt_strncpy nm RT_NAME_MAX, obj_type = ty, obj_flag = 0\<rparr> s"
      using assms(2-4) Obj_Allocate by (auto simp: rt_object_allocate_def get_information split: if_splits)
    show ?thesis
      unfolding s' by (rule registry_insert [OF assms(1) ty(3,1)]) (use ty class_types in \<open>simp_all add: length_name\<close>)
  qed
qed (use assms(4) registry_remove [OF assms(1)] in \<open>auto simp: rt_object_detach_def rt_object_delete_def split: if_splits\<close>)

lemma register_ok:
  assumes "registry_ok (objs s)" "registry_op_ok (Reg p nm flags) s" "device_register p nm flags s = Some (r, s')"
  shows "registry_ok (objs s')"
proof (cases "rt_device_find nm s = None")
  case True
  then obtain os where os: "rt_object_init p RT_Object_Class_Device nm (objs s) = Some os" "objs s' = os"
    using assms(3) by (auto simp: device_register_def rt_device_register_def split: Option.bind_splits)
  have dev: "RT_Object_Class_Device \<in> set rt_object_container"
    by (simp add: rt_object_container_def)
  then have init: "p \<notin> set (object_list (objs s) RT_Object_Class_Device)" "os = list_insert_after RT_Object_Class_Device p
      ((object_at (objs s) p)\<lparr>obj_type := RT_Object_Class_Device OR RT_Object_Class_Static, obj_name := rt_strncpy nm RT_NAME_MAX\<rparr>) (objs s)"
    using os(1) by (auto simp: rt_object_init_def get_information split: if_splits)
  have "\<not> linked_object p (objs s)"
    using assms(1,2) init(1) by (auto simp: registry_ok_def objects_ok_def linked_object_def)
  moreover have "take RT_NAME_MAX (c_str nm) \<notin> (\<lambda>q. device_name q (objs s)) ` set (object_list (objs s) RT_Object_Class_Device)"
    using True dev by (auto simp: rt_device_find_def find_name find_None_iff device_name_def)
  ultimately show ?thesis
    unfolding os(2) init(2) using assms(1) dev class_types [OF dev]
    by (intro registry_insert) (simp_all add: length_name name_c_str)
next
  case False
  then show ?thesis
    using assms(1,3) by (auto simp: device_register_def rt_device_register_def)
qed

lemma create_ok:
  assumes "registry_ok (objs s)" "\<not> linked_object p (objs s)"
  shows "registry_ok (objs (snd (rt_device_create (Some p) s)))"
proof -
  have "objects_ok (objs s)"
    using assms(1) by (simp add: registry_ok_def)
  note free = unlinked_change [OF this assms(2)] not_linked [OF this assms(2)]
  show ?thesis
    using free
    by (intro registry_change [OF assms(1), where p = p and ob = "\<lparr>obj_name = replicate RT_NAME_MAX (CHR 0x00), obj_type = 0, obj_flag = 0\<rparr>"])
      (auto simp: rt_device_create_def)
qed

lemma registry_step_ok:
  assumes "registry_ok (objs s)" "registry_op_ok op s" "registry_step op s = Some s'"
  shows "registry_ok (objs s')"
proof (cases op)
  case (Reg p nm flags)
  then obtain r where "device_register p nm flags s = Some (r, s')"
    using assms(3) by auto
  then show ?thesis
    using register_ok [OF assms(1)] assms(2) Reg by blast
next
  case (Unreg p)
  then show ?thesis
    using assms(1,3) registry_remove by (auto simp: rt_device_unregister_def rt_object_detach_def split: if_splits)
next
  case (Create mem)
  then show ?thesis
    using assms create_ok by (cases mem) (auto simp: rt_device_create_def)
next
  case (Other_Object oop)
  then show ?thesis
    using assms(2,3) other_object_ok [OF assms(1)] by auto
qed

lemma registry_run_ok: "registry_ok (objs s) \<Longrightarrow> registry_run ops s = Some s' \<Longrightarrow> registry_ok (objs s')"
proof (induction ops arbitrary: s)
  case (Cons op ops)
  then show ?case
    using registry_step_ok [OF Cons.prems(1)] by (auto split: if_splits Option.bind_splits)
qed simp

definition no_devices :: device_sys where
  "no_devices = \<lparr>objs = no_objects, devs = (\<lambda>_. \<lparr>dev_flag = 0, open_flag = 0, ref_count = 0, rx_indicate = None, tx_complete = None\<rparr>)\<rparr>"

lemma no_devices_ok: "registry_ok (objs no_devices)"
  using no_objects_ok by (simp add: registry_ok_def no_devices_def no_objects_def rt_object_get_type_def)

text \<open>C24: however devices are registered and unregistered among other kernel objects, every registered device is
  the one that is found under its name: the registration refuses a name that is taken.\<close>

theorem device_found_by_name:
  assumes "registry_run ops no_devices = Some s" "p \<in> set (object_list (objs s) RT_Object_Class_Device)"
  shows "rt_device_find (obj_name (object_at (objs s) p)) s = Some p"
proof -
  have ok: "registry_ok (objs s)"
    by (rule registry_run_ok [OF no_devices_ok assms(1)])
  let ?P = "\<lambda>q. device_name q (objs s) = device_name p (objs s)"
  have "List.find ?P (object_list (objs s) RT_Object_Class_Device) \<noteq> None"
    using assms(2) by (auto simp: find_None_iff)
  then obtain q where q: "List.find ?P (object_list (objs s) RT_Object_Class_Device) = Some q"
    by blast
  then have "q \<in> set (object_list (objs s) RT_Object_Class_Device)" "?P q"
    by (auto simp: find_Some_iff)
  then have "q = p"
    using ok assms(2) by (auto simp: registry_ok_def inj_on_def)
  then show ?thesis
    using q by (simp add: rt_device_find_def find_name device_name_def rt_object_container_def)
qed

theorem device_found_by_name_witness:
  "\<exists>s. registry_run [Reg 1 ''uart1'' 3, Reg 2 ''uart1'' 3, Reg 2 ''pin'' 0, Other_Object (Obj_Init 5 2 ''shrx'')] no_devices = Some s \<and>
     rt_device_find (obj_name (object_at (objs s) 1)) s = Some 1"
proof -
  have "map_option (\<lambda>s. 1 \<in> set (object_list (objs s) RT_Object_Class_Device))
     (registry_run [Reg 1 ''uart1'' 3, Reg 2 ''uart1'' 3, Reg 2 ''pin'' 0, Other_Object (Obj_Init 5 2 ''shrx'')] no_devices) = Some True"
    by code_simp
  then obtain s where "registry_run [Reg 1 ''uart1'' 3, Reg 2 ''uart1'' 3, Reg 2 ''pin'' 0, Other_Object (Obj_Init 5 2 ''shrx'')] no_devices = Some s"
    "1 \<in> set (object_list (objs s) RT_Object_Class_Device)"
    by auto
  then show ?thesis
    using device_found_by_name by blast
qed

text \<open>A device from \<open>rt_device_create\<close> cannot be destroyed: before it is registered its object has no class, and the
  registration marks it as static; both fail an assertion of \<open>rt_device_destroy\<close>.\<close>

lemma device_destroy_asserts:
  assumes "registry_run ops no_devices = Some s"
  shows "rt_device_destroy p s = None"
  using registry_run_ok [OF no_devices_ok assms] by (simp add: registry_ok_def rt_device_destroy_def)

end
