(* ===== verification/Mailbox.thy ===== *)
theory Mailbox
  imports Ipc
begin

text \<open>
  \<^verbatim>\<open>rt-thread/src/ipc.c\<close>: mailboxes, and what they share with the message queues.  Both keep two lists of
  threads, one of receivers and one of senders; \<open>recv_list\<close> and \<open>send_list\<close> are the addresses of their heads in
  \<open>waiting\<close>.  A call that suspends its thread ends its first part at \<open>rt_schedule\<close> with \<open>Waits\<close>, which
  carries the local variables \<open>timeout\<close> and \<open>tick_delta\<close>; the \<open>resumed\<close> operation is the rest of
  the call, when the thread runs again, and may wait once more.
\<close>

datatype result = Done rt_err_t | Waits int u32

section \<open>Waiting and waking\<close>

text \<open>Suspend the caller, start its timer unless it waits for ever, and schedule.\<close>

definition wait_on_list :: "nat \<Rightarrow> nat \<Rightarrow> ipc_flag \<Rightarrow> int \<Rightarrow> sched \<Rightarrow> (result \<times> sched) option" where
  "wait_on_list l t flg time k =
     do { k1 \<leftarrow> rt_ipc_list_suspend l t flg k;
          k2 \<leftarrow> (if time > 0 then thread_timer_start t (of_int time) k1 else Some k1);
          k3 \<leftarrow> rt_schedule k2;
          Some (Waits time (if time > 0 then tick_now (tmr k1) else 0), k3) }"

definition wake_one :: "nat \<Rightarrow> sched \<Rightarrow> sched option" where
  "wake_one l k = (if waiting k l \<noteq> [] then do { k1 \<leftarrow> rt_ipc_list_resume l k; rt_schedule k1 } else Some k)"

text \<open>\<open>timeout -= rt_tick_get() - tick_delta\<close>, in 32 bits, and not below zero.\<close>

definition time_left_after :: "int \<Rightarrow> u32 \<Rightarrow> u32 \<Rightarrow> int" where
  "time_left_after time start now =
     (if time > 0 then max 0 (sint (word_of_int time - (now - start) :: u32)) else time)"

lemma wait_on_list_wf:
  assumes "sched_wf k" "rt_current_thread k = Some t" "stat (threads k t) = RT_THREAD_RUNNING" "wait_on_list l t flg time k = Some (r, k')"
  shows "sched_wf k'"
proof -
  obtain k1 k2 where k1: "rt_ipc_list_suspend l t flg k = Some k1"
    and k2: "(if time > 0 then thread_timer_start t (of_int time) k1 else Some k1) = Some k2" and k3: "rt_schedule k2 = Some k'"
    using assms(4) by (auto simp: wait_on_list_def split: Option.bind_splits)
  have "sched_wf k2"
    using list_suspend_law(1) [OF assms(1-3) k1] k2 timer_stop_simps(2) by (fastforce split: if_splits)
  then show ?thesis
    using schedule_law [OF _ k3] by blast
qed

lemma wake_one_wf:
  assumes "sched_wf k" "wake_one l k = Some k'"
  shows "sched_wf k'"
proof (cases "waiting k l = []")
  case False
  then obtain k1 where k1: "rt_ipc_list_resume l k = Some k1" "rt_schedule k1 = Some k'"
    using assms(2) by (auto simp: wake_one_def split: Option.bind_splits)
  then show ?thesis
    using schedule_law [OF list_resume_shrinks(1) [OF assms(1) k1(1)] k1(2)] by blast
qed (use assms in \<open>simp add: wake_one_def\<close>)

lemma resume_all_sched_wf: "sched_wf k \<Longrightarrow> rt_ipc_list_resume_all l k = Some k' \<Longrightarrow> sched_wf k'"
  unfolding rt_ipc_list_resume_all_def using resume_all_keeps by blast

section \<open>Mailboxes\<close>

record rt_mailbox =
  msg_pool :: "u32 list"
  mb_size :: u16
  mb_entry :: u16
  in_offset :: u16
  out_offset :: u16
  mb_flag :: ipc_flag
  recv_list :: nat
  send_list :: nat

record mb_sys =
  mb_kern :: sched
  mbox :: rt_mailbox

text \<open>\<open>pool\<close> is the memory behind \<open>msgpool\<close>; the size is stored in sixteen bits.\<close>

definition rt_mb_init :: "nat \<Rightarrow> nat \<Rightarrow> u32 list \<Rightarrow> u32 \<Rightarrow> ipc_flag \<Rightarrow> sched \<Rightarrow> mb_sys" where
  "rt_mb_init rl sl pool sz flg k =
     \<lparr>mb_kern = k\<lparr>waiting := (waiting k)(rl := [], sl := [])\<rparr>,
      mbox = \<lparr>msg_pool = pool, mb_size = ucast sz, mb_entry = 0, in_offset = 0, out_offset = 0, mb_flag = flg,
              recv_list = rl, send_list = sl\<rparr>\<rparr>"

definition rt_mb_detach :: "mb_sys \<Rightarrow> sched option" where
  "rt_mb_detach s = do { k1 \<leftarrow> rt_ipc_list_resume_all (recv_list (mbox s)) (mb_kern s);
                         rt_ipc_list_resume_all (send_list (mbox s)) k1 }"

text \<open>\<open>++offset; if (offset >= size) offset = 0;\<close>\<close>

definition next_offset :: "u16 \<Rightarrow> u16 \<Rightarrow> u16" where
  "next_offset sz i = (if i + 1 \<ge> sz then 0 else i + 1)"

definition mail_in :: "u32 \<Rightarrow> rt_mailbox \<Rightarrow> rt_mailbox" where
  "mail_in v m = m\<lparr>msg_pool := (msg_pool m)[unat (in_offset m) := v], in_offset := next_offset (mb_size m) (in_offset m)\<rparr>"

definition mb_send_loop :: "u32 \<Rightarrow> int \<Rightarrow> mb_sys \<Rightarrow> (result \<times> mb_sys) option" where
  "mb_send_loop v time s =
     (let m = mbox s in
      if mb_entry m = mb_size m
      then do { t \<leftarrow> rt_current_thread (mb_kern s);
                let k1 = set_error t RT_EOK (mb_kern s) in
                if time = 0 then Some (Done (- RT_EFULL), s\<lparr>mb_kern := k1\<rparr>)
                else do { (r, k2) \<leftarrow> wait_on_list (send_list m) t (mb_flag m) time k1;
                          Some (r, s\<lparr>mb_kern := k2\<rparr>) } }
      else let m1 = mail_in v m in
           if mb_entry m < 0xFFFF
           then do { k1 \<leftarrow> wake_one (recv_list m) (mb_kern s);
                     Some (Done RT_EOK, s\<lparr>mb_kern := k1, mbox := m1\<lparr>mb_entry := mb_entry m + 1\<rparr>\<rparr>) }
           else Some (Done (- RT_EFULL), s\<lparr>mbox := m1\<rparr>))"

definition rt_mb_send_wait :: "u32 \<Rightarrow> int \<Rightarrow> mb_sys \<Rightarrow> (result \<times> mb_sys) option" where
  "rt_mb_send_wait v time s =
     (if mb_entry (mbox s) = mb_size (mbox s) \<and> time = 0 then Some (Done (- RT_EFULL), s) else mb_send_loop v time s)"

definition rt_mb_send :: "u32 \<Rightarrow> mb_sys \<Rightarrow> (result \<times> mb_sys) option" where
  "rt_mb_send v s = rt_mb_send_wait v 0 s"

definition mb_send_resumed :: "nat \<Rightarrow> u32 \<Rightarrow> int \<Rightarrow> u32 \<Rightarrow> mb_sys \<Rightarrow> (result \<times> mb_sys) option" where
  "mb_send_resumed t v time start s =
     (if error (threads (mb_kern s) t) \<noteq> RT_EOK then Some (Done (error (threads (mb_kern s) t)), s)
      else mb_send_loop v (time_left_after time start (tick_now (tmr (mb_kern s)))) s)"

definition mail_out :: "rt_mailbox \<Rightarrow> u32 \<times> rt_mailbox" where
  "mail_out m = (msg_pool m ! unat (out_offset m),
     m\<lparr>out_offset := next_offset (mb_size m) (out_offset m), mb_entry := (if mb_entry m > 0 then mb_entry m - 1 else mb_entry m)\<rparr>)"

text \<open>The third component is what is stored at \<open>value\<close>, if anything.\<close>

definition mb_recv_loop :: "int \<Rightarrow> mb_sys \<Rightarrow> (result \<times> u32 option \<times> mb_sys) option" where
  "mb_recv_loop time s =
     (let m = mbox s in
      if mb_entry m = 0
      then do { t \<leftarrow> rt_current_thread (mb_kern s);
                if time = 0 then Some (Done (- RT_ETIMEOUT), None, s\<lparr>mb_kern := set_error t (- RT_ETIMEOUT) (mb_kern s)\<rparr>)
                else do { (r, k2) \<leftarrow> wait_on_list (recv_list m) t (mb_flag m) time (set_error t RT_EOK (mb_kern s));
                          Some (r, None, s\<lparr>mb_kern := k2\<rparr>) } }
      else let (v, m1) = mail_out m in
           do { k1 \<leftarrow> wake_one (send_list m) (mb_kern s);
                Some (Done RT_EOK, Some v, s\<lparr>mb_kern := k1, mbox := m1\<rparr>) })"

definition rt_mb_recv :: "int \<Rightarrow> mb_sys \<Rightarrow> (result \<times> u32 option \<times> mb_sys) option" where
  "rt_mb_recv time s =
     (if mb_entry (mbox s) = 0 \<and> time = 0 then Some (Done (- RT_ETIMEOUT), None, s) else mb_recv_loop time s)"

definition mb_recv_resumed :: "nat \<Rightarrow> int \<Rightarrow> u32 \<Rightarrow> mb_sys \<Rightarrow> (result \<times> u32 option \<times> mb_sys) option" where
  "mb_recv_resumed t time start s =
     (if error (threads (mb_kern s) t) \<noteq> RT_EOK then Some (Done (error (threads (mb_kern s) t)), None, s)
      else mb_recv_loop (time_left_after time start (tick_now (tmr (mb_kern s)))) s)"

text \<open>\<open>reset\<close> says whether the command is \<open>RT_IPC_CMD_RESET\<close>.\<close>

definition rt_mb_control :: "bool \<Rightarrow> mb_sys \<Rightarrow> (rt_err_t \<times> mb_sys) option" where
  "rt_mb_control reset s =
     (if reset
      then do { k1 \<leftarrow> rt_ipc_list_resume_all (recv_list (mbox s)) (mb_kern s);
                k2 \<leftarrow> rt_ipc_list_resume_all (send_list (mbox s)) k1;
                k3 \<leftarrow> rt_schedule k2;
                Some (RT_EOK, s\<lparr>mb_kern := k3, mbox := (mbox s)\<lparr>mb_entry := 0, in_offset := 0, out_offset := 0\<rparr>\<rparr>) }
      else Some (- RT_ERROR, s))"

section \<open>Bounded queues\<close>

text \<open>What mailboxes and message queues promise: values come out in the order they went in.  \<open>agrees v w\<close>
  says that \<open>w\<close> carries the value \<open>v\<close>.\<close>

datatype 'v traffic = Sent 'v | Got 'v | Quiet

fun sent :: "'v traffic list \<Rightarrow> 'v list" where
  "sent [] = []"
| "sent (Sent v # ls) = v # sent ls"
| "sent (_ # ls) = sent ls"

fun got :: "'v traffic list \<Rightarrow> 'v list" where
  "got [] = []"
| "got (Got v # ls) = v # got ls"
| "got (_ # ls) = got ls"

inductive traffic_run :: "('s \<Rightarrow> 'v traffic \<Rightarrow> 's \<Rightarrow> bool) \<Rightarrow> 's \<Rightarrow> 'v traffic list \<Rightarrow> 's \<Rightarrow> bool"
  for step :: "'s \<Rightarrow> 'v traffic \<Rightarrow> 's \<Rightarrow> bool" where
  run_Nil: "traffic_run step s [] s"
| run_Cons: "step s l s1 \<Longrightarrow> traffic_run step s1 ls s' \<Longrightarrow> traffic_run step s (l # ls) s'"

locale bounded_fifo =
  fixes step :: "'s \<Rightarrow> 'v traffic \<Rightarrow> 's \<Rightarrow> bool"
    and contents :: "'s \<Rightarrow> 'v list"
    and ok :: "'s \<Rightarrow> bool"
    and agrees :: "'v \<Rightarrow> 'v \<Rightarrow> bool"
    and cap :: "'s \<Rightarrow> nat"
  assumes send_law: "ok s \<Longrightarrow> step s (Sent v) s' \<Longrightarrow> ok s' \<and> cap s' = cap s \<and> (\<exists>w. agrees v w \<and> contents s' = contents s @ [w])"
    and got_law: "ok s \<Longrightarrow> step s (Got v) s' \<Longrightarrow> ok s' \<and> cap s' = cap s \<and> contents s = v # contents s'"
    and quiet_law: "ok s \<Longrightarrow> step s Quiet s' \<Longrightarrow> ok s' \<and> cap s' = cap s \<and> contents s' = contents s"
    and cap_law: "ok s \<Longrightarrow> length (contents s) \<le> cap s"
begin

lemma fifo:
  "traffic_run step s ls s' \<Longrightarrow> ok s \<Longrightarrow>
   ok s' \<and> cap s' = cap s \<and> (\<exists>ws. list_all2 agrees (sent ls) ws \<and> contents s @ ws = got ls @ contents s')"
proof (induction rule: traffic_run.induct)
  case (run_Nil s)
  then show ?case
    by simp
next
  case (run_Cons s l s1 ls s')
  show ?case
  proof (cases l)
    case (Sent v)
    then obtain w where w: "ok s1" "cap s1 = cap s" "agrees v w" "contents s1 = contents s @ [w]"
      using send_law [OF run_Cons.prems] run_Cons.hyps(1) by blast
    then obtain ws where "ok s'" "cap s' = cap s1" "list_all2 agrees (sent ls) ws" "contents s1 @ ws = got ls @ contents s'"
      using run_Cons.IH by blast
    then show ?thesis
      using w Sent by (intro conjI exI [of _ "w # ws"]) auto
  next
    case (Got v)
    then show ?thesis
      using got_law [OF run_Cons.prems] run_Cons.hyps(1) run_Cons.IH by fastforce
  next
    case Quiet
    then show ?thesis
      using quiet_law [OF run_Cons.prems] run_Cons.hyps(1) run_Cons.IH by fastforce
  qed
qed

end

section \<open>A mailbox is a bounded queue\<close>

definition mb_ok :: "rt_mailbox \<Rightarrow> bool" where
  "mb_ok m \<longleftrightarrow> unat (mb_size m) \<le> length (msg_pool m) \<and> out_offset m < mb_size m \<and> mb_entry m \<le> mb_size m \<and>
     unat (in_offset m) = (unat (out_offset m) + unat (mb_entry m)) mod unat (mb_size m)"

definition mb_contents :: "rt_mailbox \<Rightarrow> u32 list" where
  "mb_contents m = map (\<lambda>i. msg_pool m ! ((unat (out_offset m) + i) mod unat (mb_size m))) [0..<unat (mb_entry m)]"

lemma next_offset_mod: "i < sz \<Longrightarrow> unat (next_offset sz i) = (unat i + 1) mod unat sz"
proof -
  assume a: "i < sz"
  then have "unat i < unat sz" "unat sz < 2 ^ 16"
    using unsigned_less [of sz] by (simp_all add: word_less_nat_alt)
  then have "unat (i + 1) = unat i + 1"
    by (simp add: unat_word_ariths)
  then show ?thesis
    using \<open>unat i < unat sz\<close> by (auto simp: next_offset_def word_le_nat_alt mod_if)
qed

lemma entry_up: "(e :: u16) < z \<Longrightarrow> unat (e + 1) = unat e + 1"
  using unsigned_less [of z, where ?'a = nat] by (simp add: unat_word_ariths word_less_nat_alt)

lemma entry_room: "(e :: u16) < z \<Longrightarrow> e < 0xFFFF"
  using unsigned_less [of z, where ?'a = nat] by (simp add: word_less_nat_alt)

lemma mail_in_law:
  fixes v :: u32
  assumes "mb_ok m" "mb_entry m \<noteq> mb_size m"
  defines "m' \<equiv> (mail_in v m)\<lparr>mb_entry := mb_entry m + 1\<rparr>"
  shows "mb_ok m'" "mb_contents m' = mb_contents m @ [v]"
proof -
  let ?n = "unat (mb_size m)" and ?e = "unat (mb_entry m)" and ?o = "unat (out_offset m)"
  have lt: "mb_entry m < mb_size m"
    using assms(1,2) by (simp add: mb_ok_def order_less_le)
  then have b: "?o < ?n" "?e < ?n" "?n \<le> length (msg_pool m)" "unat (in_offset m) = (?o + ?e) mod ?n"
    using assms(1) by (simp_all add: mb_ok_def word_less_nat_alt)
  have e: "unat (mb_entry m + 1) = ?e + 1"
    by (rule entry_up [OF lt])
  have "in_offset m < mb_size m"
    using b by (simp add: word_less_nat_alt)
  then have "unat (next_offset (mb_size m) (in_offset m)) = (?o + (?e + 1)) mod ?n"
    using b(4) by (simp add: next_offset_mod mod_Suc_eq)
  then show "mb_ok m'"
    using assms(1) lt e by (auto simp: m'_def mb_ok_def mail_in_def word_le_nat_alt word_less_nat_alt)
  have "(msg_pool m)[unat (in_offset m) := v] ! ((?o + i) mod ?n) = msg_pool m ! ((?o + i) mod ?n)" if "i < ?e" for i
    using ring_apart [OF b(1) that b(2)] b(4) by simp
  moreover have "(msg_pool m)[unat (in_offset m) := v] ! ((?o + ?e) mod ?n) = v"
  proof -
    have "(?o + ?e) mod ?n < ?n"
      using b(1) by simp
    then show ?thesis
      using b(3,4) by simp
  qed
  ultimately show "mb_contents m' = mb_contents m @ [v]"
    using e by (simp add: m'_def mb_contents_def mail_in_def)
qed

lemma mail_out_law:
  assumes "mb_ok m" "mb_entry m \<noteq> 0" "mail_out m = (v, m')"
  shows "mb_ok m'" "mb_contents m = v # mb_contents m'" "mb_size m' = mb_size m"
proof -
  let ?n = "unat (mb_size m)" and ?e = "unat (mb_entry m)" and ?o = "unat (out_offset m)"
  have b: "?o < ?n" "?e \<le> ?n" "0 < ?e" "?n \<le> length (msg_pool m)" "unat (in_offset m) = (?o + ?e) mod ?n" "out_offset m < mb_size m"
    using assms(1,2) by (auto simp: mb_ok_def word_less_nat_alt word_le_nat_alt unat_gt_0)
  have m': "m' = m\<lparr>out_offset := next_offset (mb_size m) (out_offset m), mb_entry := mb_entry m - 1\<rparr>" "v = msg_pool m ! ?o"
    using assms(2,3) by (auto simp: mail_out_def word_gt_0)
  have o: "unat (next_offset (mb_size m) (out_offset m)) = (?o + 1) mod ?n"
    by (rule next_offset_mod [OF b(6)])
  have e: "unat (mb_entry m - 1) = ?e - 1"
    using assms(2) by (simp add: unat_minus_one)
  have sh: "((?o + 1) mod ?n + i) mod ?n = (?o + Suc i) mod ?n" for i
    by (simp add: mod_add_left_eq)
  have "((?o + 1) mod ?n + (?e - 1)) mod ?n = (?o + ?e) mod ?n"
    using sh [of "?e - 1"] b(3) by simp
  then show "mb_ok m'"
    using b o e by (auto simp: m' mb_ok_def word_less_nat_alt word_le_nat_alt)
  have "[0..<?e] = 0 # map Suc [0..<?e - 1]"
    using b(3) by (simp add: map_Suc_upt upt_conv_Cons)
  then show "mb_contents m = v # mb_contents m'"
    using b(1) o e sh by (simp add: m' mb_contents_def)
  show "mb_size m' = mb_size m"
    by (simp add: m')
qed

text \<open>The steps of a system with a mailbox: calls of the running thread, the rest of a call that waited, and
  everything else the kernel does.\<close>

definition runs :: "sched \<Rightarrow> nat \<Rightarrow> bool" where
  "runs k t \<longleftrightarrow> rt_current_thread k = Some t \<and> stat (threads k t) = RT_THREAD_RUNNING"

inductive mb_step :: "mb_sys \<Rightarrow> u32 traffic \<Rightarrow> mb_sys \<Rightarrow> bool" where
  mb_send: "runs (mb_kern s) t \<Longrightarrow> rt_mb_send_wait v time s = Some (r, s') \<Longrightarrow>
    mb_step s (if r = Done RT_EOK then Sent v else Quiet) s'"
| mb_send_goes_on: "runs (mb_kern s) t \<Longrightarrow> mb_send_resumed t v time start s = Some (r, s') \<Longrightarrow>
    mb_step s (if r = Done RT_EOK then Sent v else Quiet) s'"
| mb_recv: "runs (mb_kern s) t \<Longrightarrow> rt_mb_recv time s = Some (r, x, s') \<Longrightarrow>
    mb_step s (case x of Some v \<Rightarrow> Got v | None \<Rightarrow> Quiet) s'"
| mb_recv_goes_on: "runs (mb_kern s) t \<Longrightarrow> mb_recv_resumed t time start s = Some (r, x, s') \<Longrightarrow>
    mb_step s (case x of Some v \<Rightarrow> Got v | None \<Rightarrow> Quiet) s'"
| mb_other: "op_ok op (mb_kern s) \<Longrightarrow> kernel_step op (mb_kern s) = Some k \<Longrightarrow> mb_step s Quiet (s\<lparr>mb_kern := k\<rparr>)"

definition mb_sys_ok :: "mb_sys \<Rightarrow> bool" where
  "mb_sys_ok s \<longleftrightarrow> mb_ok (mbox s) \<and> sched_wf (mb_kern s)"

text \<open>What a step does to the queue, by its label.\<close>

fun carries :: "'v traffic \<Rightarrow> 'v list \<Rightarrow> 'v list \<Rightarrow> bool" where
  "carries (Sent v) q q' \<longleftrightarrow> q' = q @ [v]"
| "carries (Got v) q q' \<longleftrightarrow> q = v # q'"
| "carries Quiet q q' \<longleftrightarrow> q' = q"

lemma error_runs: "runs k t \<Longrightarrow> runs (set_error u e k) t"
  by (auto simp: runs_def)

lemma send_loop_law:
  assumes "mb_sys_ok s" "runs (mb_kern s) t" "mb_send_loop v time s = Some (r, s')"
  shows "mb_sys_ok s' \<and> mb_size (mbox s') = mb_size (mbox s) \<and>
    carries (if r = Done RT_EOK then Sent v else Quiet) (mb_contents (mbox s)) (mb_contents (mbox s'))"
proof (cases "mb_entry (mbox s) = mb_size (mbox s)")
  case True
  have ok: "mb_ok (mbox s)" "sched_wf (mb_kern s)" and t: "rt_current_thread (mb_kern s) = Some t"
    using assms(1,2) by (auto simp: mb_sys_ok_def runs_def)
  let ?k = "set_error t RT_EOK (mb_kern s)"
  have w: "sched_wf ?k" "runs ?k t"
    using ok(2) assms(2) by (auto intro: error_wf error_runs)
  show ?thesis
  proof (cases "time = 0")
    case True
    then show ?thesis
      using assms(3) \<open>mb_entry (mbox s) = mb_size (mbox s)\<close> t ok w by (auto simp: mb_send_loop_def mb_sys_ok_def)
  next
    case False
    then obtain k2 where k2: "wait_on_list (send_list (mbox s)) t (mb_flag (mbox s)) time ?k = Some (r, k2)" "s' = s\<lparr>mb_kern := k2\<rparr>"
      using assms(3) \<open>mb_entry (mbox s) = mb_size (mbox s)\<close> t by (auto simp: mb_send_loop_def Let_def split: Option.bind_splits)
    then have "sched_wf k2" "r \<noteq> Done RT_EOK"
      using w wait_on_list_wf [OF w(1)] by (auto simp: runs_def wait_on_list_def split: Option.bind_splits)
    then show ?thesis
      using k2(2) ok by (simp add: mb_sys_ok_def)
  qed
next
  case False
  have ok: "mb_ok (mbox s)" "sched_wf (mb_kern s)"
    using assms(1) by (auto simp: mb_sys_ok_def)
  then have "mb_entry (mbox s) < 0xFFFF"
    using False entry_room [of "mb_entry (mbox s)" "mb_size (mbox s)"] by (simp add: mb_ok_def order_less_le)
  then obtain k1 where k1: "wake_one (recv_list (mbox s)) (mb_kern s) = Some k1" "r = Done RT_EOK"
    "s' = s\<lparr>mb_kern := k1, mbox := (mail_in v (mbox s))\<lparr>mb_entry := mb_entry (mbox s) + 1\<rparr>\<rparr>"
    using assms(3) False by (auto simp: mb_send_loop_def Let_def split: Option.bind_splits)
  then show ?thesis
    using mail_in_law [OF ok(1) False] wake_one_wf [OF ok(2)] by (simp add: mb_sys_ok_def mail_in_def)
qed

lemma recv_loop_law:
  assumes "mb_sys_ok s" "runs (mb_kern s) t" "mb_recv_loop time s = Some (r, x, s')"
  shows "mb_sys_ok s' \<and> mb_size (mbox s') = mb_size (mbox s) \<and>
    carries (case x of Some v \<Rightarrow> Got v | None \<Rightarrow> Quiet) (mb_contents (mbox s)) (mb_contents (mbox s'))"
proof (cases "mb_entry (mbox s) = 0")
  case True
  have ok: "mb_ok (mbox s)" "sched_wf (mb_kern s)" and t: "rt_current_thread (mb_kern s) = Some t"
    using assms(1,2) by (auto simp: mb_sys_ok_def runs_def)
  let ?k = "set_error t RT_EOK (mb_kern s)"
  have w: "sched_wf ?k" "runs ?k t" "sched_wf (set_error t (- RT_ETIMEOUT) (mb_kern s))"
    using ok(2) assms(2) by (auto intro: error_wf error_runs)
  show ?thesis
  proof (cases "time = 0")
    case True
    then show ?thesis
      using assms(3) \<open>mb_entry (mbox s) = 0\<close> t ok w by (auto simp: mb_recv_loop_def mb_sys_ok_def)
  next
    case False
    then obtain k2 where k2: "wait_on_list (recv_list (mbox s)) t (mb_flag (mbox s)) time ?k = Some (r, k2)" "s' = s\<lparr>mb_kern := k2\<rparr>" "x = None"
      using assms(3) \<open>mb_entry (mbox s) = 0\<close> t by (auto simp: mb_recv_loop_def Let_def split: Option.bind_splits)
    then have "sched_wf k2"
      using w wait_on_list_wf [OF w(1)] by (auto simp: runs_def)
    then show ?thesis
      using k2(2,3) ok by (simp add: mb_sys_ok_def)
  qed
next
  case False
  have ok: "mb_ok (mbox s)" "sched_wf (mb_kern s)"
    using assms(1) by (auto simp: mb_sys_ok_def)
  obtain v m1 where m1: "mail_out (mbox s) = (v, m1)"
    by fastforce
  then obtain k1 where "wake_one (send_list (mbox s)) (mb_kern s) = Some k1" "x = Some v" "s' = s\<lparr>mb_kern := k1, mbox := m1\<rparr>"
    using assms(3) False by (auto simp: mb_recv_loop_def Let_def split: Option.bind_splits)
  then show ?thesis
    using mail_out_law [OF ok(1) False m1] wake_one_wf [OF ok(2)] by (simp add: mb_sys_ok_def)
qed

lemma mb_step_law:
  assumes "mb_step s l s'" "mb_sys_ok s"
  shows "mb_sys_ok s' \<and> mb_size (mbox s') = mb_size (mbox s) \<and> carries l (mb_contents (mbox s)) (mb_contents (mbox s'))"
  using assms(1)
proof (cases rule: mb_step.cases)
  case (mb_send t v time r)
  then have "r \<noteq> Done RT_EOK \<and> s' = s \<or> mb_send_loop v time s = Some (r, s')"
    by (auto simp: rt_mb_send_wait_def split: if_splits)
  then show ?thesis
    using assms(2) send_loop_law [OF assms(2) mb_send(2), of v time r s'] mb_send(1) by auto
next
  case (mb_send_goes_on t v time start r)
  then have "r \<noteq> Done RT_EOK \<and> s' = s \<or> (\<exists>time'. mb_send_loop v time' s = Some (r, s'))"
    by (auto simp: mb_send_resumed_def split: if_splits)
  then show ?thesis
    using assms(2) send_loop_law [OF assms(2) mb_send_goes_on(2), of v _ r s'] mb_send_goes_on(1) by auto
next
  case (mb_recv t time r x)
  then have "x = None \<and> s' = s \<or> mb_recv_loop time s = Some (r, x, s')"
    by (auto simp: rt_mb_recv_def split: if_splits)
  then show ?thesis
    using assms(2) recv_loop_law [OF assms(2) mb_recv(2), of time r x s'] mb_recv(1) by auto
next
  case (mb_recv_goes_on t time start r x)
  then have "x = None \<and> s' = s \<or> (\<exists>time'. mb_recv_loop time' s = Some (r, x, s'))"
    by (auto simp: mb_recv_resumed_def split: if_splits)
  then show ?thesis
    using assms(2) recv_loop_law [OF assms(2) mb_recv_goes_on(2), of _ r x s'] mb_recv_goes_on(1) by auto
next
  case (mb_other op k)
  then show ?thesis
    using assms(2) kernel_step_wf by (auto simp: mb_sys_ok_def)
qed

interpretation mailbox: bounded_fifo mb_step "\<lambda>s. mb_contents (mbox s)" mb_sys_ok "(=)" "\<lambda>s. unat (mb_size (mbox s))"
proof unfold_locales
  show "length (mb_contents (mbox s)) \<le> unat (mb_size (mbox s))" if "mb_sys_ok s" for s
    using that by (simp add: mb_sys_ok_def mb_ok_def mb_contents_def word_le_nat_alt)
qed (use mb_step_law in fastforce)+

text \<open>C17: whatever threads send and receive, wait and are woken or time out, and whatever else the kernel does, a
  mailbox is a bounded queue: the mails received are those that were in it and were sent, in order
  and without loss or repetition, it never holds more than its size, and threads and queues
  of the kernel stay consistent.\<close>

theorem mailbox_fifo:
  assumes "traffic_run mb_step s ls s'" "mb_ok (mbox s)" "sched_wf (mb_kern s)"
  shows "mb_contents (mbox s) @ sent ls = got ls @ mb_contents (mbox s') \<and> mb_ok (mbox s') \<and> sched_wf (mb_kern s') \<and>
    length (mb_contents (mbox s')) \<le> unat (mb_size (mbox s))"
proof -
  have "mb_sys_ok s"
    using assms(2,3) by (simp add: mb_sys_ok_def)
  from mailbox.fifo [OF assms(1) this] mailbox.cap_law [of s'] show ?thesis
    by (auto simp: mb_sys_ok_def list.rel_eq)
qed

text \<open>With room and nobody waiting, a mail is stored, and taken out, at once.\<close>

lemma mb_send_now:
  assumes "runs (mb_kern s) t" "mb_entry (mbox s) < mb_size (mbox s)" "waiting (mb_kern s) (recv_list (mbox s)) = []"
  shows "mb_step s (Sent v) (s\<lparr>mbox := (mail_in v (mbox s))\<lparr>mb_entry := mb_entry (mbox s) + 1\<rparr>\<rparr>)"
  using mb_send [OF assms(1), of v 0 "Done RT_EOK"] assms(2,3) entry_room [OF assms(2)]
  by (auto simp: rt_mb_send_wait_def mb_send_loop_def wake_one_def Let_def)

lemma mb_recv_now:
  assumes "runs (mb_kern s) t" "mb_entry (mbox s) \<noteq> 0" "waiting (mb_kern s) (send_list (mbox s)) = []"
  shows "mb_step s (Got (fst (mail_out (mbox s)))) (s\<lparr>mbox := snd (mail_out (mbox s))\<rparr>)"
  using mb_recv [OF assms(1), of 0 "Done RT_EOK" "Some (fst (mail_out (mbox s)))"] assms(2,3)
  by (auto simp: rt_mb_recv_def mb_recv_loop_def wake_one_def split_beta Let_def)

definition demo_mb :: mb_sys where
  "demo_mb = rt_mb_init 20 21 [0, 0] 2 RT_IPC_FLAG_FIFO demo_sched"

lemma demo_mb_ok: "mb_ok (mbox demo_mb)" "sched_wf (mb_kern demo_mb)" "runs (mb_kern demo_mb) 1" "mb_contents (mbox demo_mb) = []"
  "waiting (mb_kern demo_mb) i = []"
proof -
  have "(waiting demo_sched)(20 := [], 21 := []) = waiting demo_sched"
    by (auto simp: demo_sched_def)
  then have k: "mb_kern demo_mb = demo_sched"
    by (simp add: demo_mb_def rt_mb_init_def)
  show "sched_wf (mb_kern demo_mb)" "runs (mb_kern demo_mb) 1" "waiting (mb_kern demo_mb) i = []"
    using demo_sched_wf by (simp_all add: k runs_def demo_sched_def demo_thread_def)
  show "mb_ok (mbox demo_mb)" "mb_contents (mbox demo_mb) = []"
    by (simp_all add: demo_mb_def rt_mb_init_def mb_ok_def mb_contents_def)
qed

theorem mailbox_fifo_witness:
  "\<exists>s'. traffic_run mb_step demo_mb [Sent 7, Sent 8, Got 7] s' \<and> mb_contents (mbox s') = [8]"
proof -
  define put where "put v s = s\<lparr>mbox := (mail_in v (mbox s))\<lparr>mb_entry := mb_entry (mbox s) + 1\<rparr>\<rparr>" for v and s :: mb_sys
  define s2 where "s2 = put 8 (put 7 demo_mb)"
  have m: "mb_kern (put v s) = mb_kern s" for v s
    by (simp add: put_def)
  then have r: "runs (mb_kern (put 7 demo_mb)) 1" "runs (mb_kern s2) 1"
    and w: "\<And>i. waiting (mb_kern (put 7 demo_mb)) i = []" "\<And>i. waiting (mb_kern s2) i = []"
    unfolding s2_def using demo_mb_ok(3,5) by metis+
  note eval = demo_mb_def rt_mb_init_def mail_in_def mail_out_def next_offset_def put_def
  have "mb_step demo_mb (Sent 7) (put 7 demo_mb)"
    unfolding put_def by (rule mb_send_now [OF demo_mb_ok(3)]) (simp add: eval, rule demo_mb_ok)
  moreover have "mb_step (put 7 demo_mb) (Sent 8) s2"
    unfolding s2_def put_def [of 8] by (rule mb_send_now [OF r(1)]) (simp add: eval, rule w)
  moreover have "mb_step s2 (Got (fst (mail_out (mbox s2)))) (s2\<lparr>mbox := snd (mail_out (mbox s2))\<rparr>)"
    by (rule mb_recv_now [OF r(2)]) (simp add: s2_def eval, rule w)
  moreover have "fst (mail_out (mbox s2)) = 7"
    by (simp add: s2_def eval word_le_nat_alt)
  ultimately have "traffic_run mb_step demo_mb [Sent 7, Sent 8, Got 7] (s2\<lparr>mbox := snd (mail_out (mbox s2))\<rparr>)"
    by (auto intro!: run_Cons run_Nil)
  from mailbox_fifo [OF this demo_mb_ok(1,2)] this demo_mb_ok(4) show ?thesis
    by auto
qed

end
