(* ===== verification/Dataqueue.thy ===== *)
theory Dataqueue
  imports Mailbox
begin

text \<open>
  \<^verbatim>\<open>rt-thread/components/drivers/src/dataqueue.c\<close>: queues of data blocks between a driver and its clients, and
  \<^verbatim>\<open>completion.c\<close>.  As for the other queues a call that has to wait ends with \<open>Waits\<close> and goes on in its \<open>resumed\<close>
  part.  The indexes are bit fields of fifteen bits; the calls of \<open>evt_notify\<close> are a trace.
\<close>

section \<open>State\<close>

abbreviation (input) RT_DATAQUEUE_EVENT_POP :: u32 where "RT_DATAQUEUE_EVENT_POP \<equiv> 1"
abbreviation (input) RT_DATAQUEUE_EVENT_PUSH :: u32 where "RT_DATAQUEUE_EVENT_PUSH \<equiv> 2"
abbreviation (input) RT_DATAQUEUE_EVENT_LWM :: u32 where "RT_DATAQUEUE_EVENT_LWM \<equiv> 3"
abbreviation (input) DATAQUEUE_MAGIC :: u32 where "DATAQUEUE_MAGIC \<equiv> 0xbead0e0e"

type_synonym rt_data_item = "nat \<times> u32"

record rt_data_queue =
  dq_magic :: u32
  dq_size :: u16
  dq_lwm :: u16
  dq_get_index :: "15 word"
  dq_is_empty :: bool
  dq_put_index :: "15 word"
  dq_is_full :: bool
  dq_queue :: "rt_data_item list"
  suspended_push_list :: nat
  suspended_pop_list :: nat
  evt_notify :: bool

record dq_sys =
  dq_kern :: sched
  dataq :: rt_data_queue
  dq_events :: "u32 list"

section \<open>Operations\<close>

text \<open>\<open>mem\<close> says whether the heap has memory for the items, \<open>junk\<close> is what is in it.\<close>

definition rt_data_queue_init :: "rt_data_item list option \<Rightarrow> nat \<Rightarrow> nat \<Rightarrow> u16 \<Rightarrow> u16 \<Rightarrow> bool \<Rightarrow> sched \<Rightarrow> (rt_err_t \<times> dq_sys) option" where
  "rt_data_queue_init mem pl gl sz lwm ntf k =
     (if sz = 0 then None
      else let q = \<lparr>dq_magic = DATAQUEUE_MAGIC, dq_size = sz, dq_lwm = lwm, dq_get_index = 0, dq_is_empty = True, dq_put_index = 0,
                    dq_is_full = False, dq_queue = (case mem of None \<Rightarrow> [] | Some junk \<Rightarrow> junk), suspended_push_list = pl, suspended_pop_list = gl, evt_notify = ntf\<rparr>
           in Some (if mem = None then - RT_ENOMEM else RT_EOK,
                    \<lparr>dq_kern = k\<lparr>waiting := (waiting k)(pl := [], gl := [])\<rparr>, dataq = q, dq_events = []\<rparr>))"

definition notify :: "u32 \<Rightarrow> dq_sys \<Rightarrow> dq_sys" where
  "notify ev s = (if evt_notify (dataq s) then s\<lparr>dq_events := dq_events s @ [ev]\<rparr> else s)"

definition next_index :: "u16 \<Rightarrow> 15 word \<Rightarrow> 15 word" where
  "next_index sz i = (if ucast (i + 1) = sz then 0 else i + 1)"

definition item_in :: "rt_data_item \<Rightarrow> rt_data_queue \<Rightarrow> rt_data_queue" where
  "item_in it q =
     (let q1 = q\<lparr>dq_queue := (dq_queue q)[unat (dq_put_index q) := it], dq_put_index := next_index (dq_size q) (dq_put_index q), dq_is_empty := False\<rparr>
      in if dq_put_index q1 = dq_get_index q1 then q1\<lparr>dq_is_full := True\<rparr> else q1)"

definition push_loop :: "rt_data_item \<Rightarrow> int \<Rightarrow> dq_sys \<Rightarrow> (result \<times> dq_sys) option" where
  "push_loop it time s =
     (let q = dataq s in
      if dq_is_full q
      then if time = 0 then Some (Done (- RT_ETIMEOUT), s)
           else do { t \<leftarrow> rt_current_thread (dq_kern s);
                     (r, k) \<leftarrow> wait_on_list (suspended_push_list q) t RT_IPC_FLAG_FIFO time (set_error t RT_EOK (dq_kern s));
                     Some (r, s\<lparr>dq_kern := k\<rparr>) }
      else do { k \<leftarrow> wake_one (suspended_pop_list q) (dq_kern s);
                let s1 = s\<lparr>dq_kern := k, dataq := item_in it q\<rparr>;
                Some (Done RT_EOK, if waiting (dq_kern s) (suspended_pop_list q) = [] then notify RT_DATAQUEUE_EVENT_PUSH s1 else s1) })"

definition rt_data_queue_push :: "rt_data_item \<Rightarrow> int \<Rightarrow> dq_sys \<Rightarrow> (result \<times> dq_sys) option" where
  "rt_data_queue_push it time s = (if dq_magic (dataq s) \<noteq> DATAQUEUE_MAGIC then None else push_loop it time s)"

text \<open>A thread that is woken starts its timer with the whole time-out again when it finds the queue full once more.\<close>

definition push_resumed :: "nat \<Rightarrow> rt_data_item \<Rightarrow> int \<Rightarrow> dq_sys \<Rightarrow> (result \<times> dq_sys) option" where
  "push_resumed t it time s =
     (if error (threads (dq_kern s) t) \<noteq> RT_EOK then Some (Done (error (threads (dq_kern s) t)), s) else push_loop it time s)"

definition rt_data_queue_len :: "rt_data_queue \<Rightarrow> u16" where
  "rt_data_queue_len q =
     (if dq_is_empty q then 0
      else if dq_put_index q > dq_get_index q then ucast (dq_put_index q) - ucast (dq_get_index q)
      else dq_size q + ucast (dq_put_index q) - ucast (dq_get_index q))"

definition item_out :: "rt_data_queue \<Rightarrow> rt_data_item \<times> rt_data_queue" where
  "item_out q =
     (let q1 = q\<lparr>dq_get_index := next_index (dq_size q) (dq_get_index q), dq_is_full := False\<rparr>
      in (dq_queue q ! unat (dq_get_index q), if dq_put_index q1 = dq_get_index q1 then q1\<lparr>dq_is_empty := True\<rparr> else q1))"

definition pop_loop :: "int \<Rightarrow> dq_sys \<Rightarrow> (result \<times> rt_data_item option \<times> dq_sys) option" where
  "pop_loop time s =
     (let q = dataq s in
      if dq_is_empty q
      then if time = 0 then Some (Done (- RT_ETIMEOUT), None, s)
           else do { t \<leftarrow> rt_current_thread (dq_kern s);
                     (r, k) \<leftarrow> wait_on_list (suspended_pop_list q) t RT_IPC_FLAG_FIFO time (set_error t RT_EOK (dq_kern s));
                     Some (r, None, s\<lparr>dq_kern := k\<rparr>) }
      else let (it, q1) = item_out q in
           if rt_data_queue_len q1 \<le> dq_lwm q1
           then do { k \<leftarrow> wake_one (suspended_push_list q) (dq_kern s);
                     Some (Done RT_EOK, Some it, notify RT_DATAQUEUE_EVENT_LWM (s\<lparr>dq_kern := k, dataq := q1\<rparr>)) }
           else Some (Done RT_EOK, Some it, notify RT_DATAQUEUE_EVENT_POP (s\<lparr>dataq := q1\<rparr>)))"

definition rt_data_queue_pop :: "int \<Rightarrow> dq_sys \<Rightarrow> (result \<times> rt_data_item option \<times> dq_sys) option" where
  "rt_data_queue_pop time s = (if dq_magic (dataq s) \<noteq> DATAQUEUE_MAGIC then None else pop_loop time s)"

definition pop_resumed :: "nat \<Rightarrow> int \<Rightarrow> dq_sys \<Rightarrow> (result \<times> rt_data_item option \<times> dq_sys) option" where
  "pop_resumed t time s =
     (if error (threads (dq_kern s) t) \<noteq> RT_EOK then Some (Done (error (threads (dq_kern s) t)), None, s) else pop_loop time s)"

definition rt_data_queue_peek :: "dq_sys \<Rightarrow> (rt_err_t \<times> rt_data_item option) option" where
  "rt_data_queue_peek s =
     (let q = dataq s in
      if dq_magic q \<noteq> DATAQUEUE_MAGIC then None
      else if dq_is_empty q then Some (- RT_EEMPTY, None) else Some (RT_EOK, Some (dq_queue q ! unat (dq_get_index q))))"

definition rt_data_queue_reset :: "dq_sys \<Rightarrow> dq_sys option" where
  "rt_data_queue_reset s =
     (let q = dataq s in
      if dq_magic q \<noteq> DATAQUEUE_MAGIC then None
      else do { k1 \<leftarrow> rt_ipc_list_resume_all (suspended_pop_list q) (rt_enter_critical (dq_kern s));
                k2 \<leftarrow> rt_ipc_list_resume_all (suspended_push_list q) k1;
                k3 \<leftarrow> rt_exit_critical k2;
                k4 \<leftarrow> rt_schedule k3;
                Some (s\<lparr>dq_kern := k4, dataq := q\<lparr>dq_get_index := 0, dq_put_index := 0, dq_is_empty := True, dq_is_full := False\<rparr>\<rparr>) })"

definition rt_data_queue_deinit :: "dq_sys \<Rightarrow> (rt_err_t \<times> dq_sys) option" where
  "rt_data_queue_deinit s = do { s1 \<leftarrow> rt_data_queue_reset s; Some (RT_EOK, s1\<lparr>dataq := (dataq s1)\<lparr>dq_magic := 0, dq_queue := []\<rparr>\<rparr>) }"

section \<open>A data queue is a bounded queue\<close>

definition dq_count :: "rt_data_queue \<Rightarrow> nat" where
  "dq_count q = (if dq_is_full q then unat (dq_size q)
     else (unat (dq_put_index q) + unat (dq_size q) - unat (dq_get_index q)) mod unat (dq_size q))"

definition dq_contents :: "rt_data_queue \<Rightarrow> rt_data_item list" where
  "dq_contents q = ring (dq_queue q) (unat (dq_get_index q)) (dq_count q) (unat (dq_size q))"

text \<open>The bit fields hold the indexes of at most \<open>2 ^ 15\<close> items.\<close>

definition dq_ok :: "rt_data_queue \<Rightarrow> bool" where
  "dq_ok q \<longleftrightarrow> dq_magic q = DATAQUEUE_MAGIC \<and> 0 < unat (dq_size q) \<and> unat (dq_size q) \<le> 2 ^ 15 \<and> length (dq_queue q) = unat (dq_size q) \<and>
     unat (dq_get_index q) < unat (dq_size q) \<and> unat (dq_put_index q) < unat (dq_size q) \<and>
     (if dq_put_index q = dq_get_index q then dq_is_empty q \<noteq> dq_is_full q else \<not> dq_is_empty q \<and> \<not> dq_is_full q)"

lemma next_index_mod:
  assumes "unat i < unat sz" "unat sz \<le> 2 ^ 15"
  shows "unat (next_index sz i) = (unat i + 1) mod unat sz"
proof -
  have u: "unat (i + 1) = (unat i + 1) mod 2 ^ 15"
    by (simp add: unat_word_ariths)
  have c: "ucast (i + 1) = sz \<longleftrightarrow> unat (i + 1) = unat sz"
  proof -
    have "unat (i + 1) < 2 ^ 16"
      using unsigned_less [of "i + 1", where ?'a = nat] by simp
    then have "unat (ucast (i + 1) :: u16) = unat (i + 1)"
      by (simp add: unsigned_ucast_eq take_bit_nat_eq_self)
    then show ?thesis
      by (simp add: word_unat_eq_iff)
  qed
  show ?thesis
  proof (cases "unat i + 1 < 2 ^ 15")
    case True
    then show ?thesis
      using u c assms(1) by (auto simp: next_index_def)
  next
    case False
    then have "unat sz = 2 ^ 15" "unat i + 1 = 2 ^ 15"
      using assms by auto
    then show ?thesis
      using u c by (simp add: next_index_def)
  qed
qed


lemma dq_place:
  assumes "dq_ok q"
  shows "dq_count q \<le> unat (dq_size q)" "\<not> dq_is_full q \<Longrightarrow> dq_count q < unat (dq_size q)"
    "unat (dq_put_index q) = (unat (dq_get_index q) + dq_count q) mod unat (dq_size q)" "dq_is_empty q \<longleftrightarrow> dq_count q = 0"
proof -
  let ?N = "unat (dq_size q)" and ?p = "unat (dq_put_index q)" and ?g = "unat (dq_get_index q)"
  have b: "?g < ?N" "?p < ?N" and e: "dq_put_index q = dq_get_index q \<longleftrightarrow> ?p = ?g"
    using assms by (simp_all add: dq_ok_def word_unat_eq_iff)
  then show "dq_count q \<le> ?N" "\<not> dq_is_full q \<Longrightarrow> dq_count q < ?N"
    by (auto simp: dq_count_def intro: less_imp_le mod_less_divisor)
  show "?p = (?g + dq_count q) mod ?N"
    using assms b e ring_end [OF b(2,1)] by (cases "dq_is_full q") (auto simp: dq_ok_def dq_count_def split: if_splits)
  have "(?p + ?N - ?g) mod ?N = 0 \<longleftrightarrow> ?p = ?g"
    using b by (auto simp: mod_if)
  then show "dq_is_empty q \<longleftrightarrow> dq_count q = 0"
    using assms b e by (auto simp: dq_ok_def dq_count_def split: if_splits)
qed

lemma ring_around: "g < N \<Longrightarrow> 0 < c \<Longrightarrow> c \<le> N \<Longrightarrow> (g + c) mod N = g \<longleftrightarrow> c = (N :: nat)"
  using ring_apart [of g N 0 c] by (cases "c = N") auto

lemma item_in_law:
  assumes "dq_ok q" "\<not> dq_is_full q"
  shows "dq_ok (item_in it q)" "dq_contents (item_in it q) = dq_contents q @ [it]" "dq_size (item_in it q) = dq_size q"
proof -
  let ?N = "unat (dq_size q)" and ?g = "unat (dq_get_index q)" and ?c = "dq_count q"
  define q' where "q' = item_in it q"
  note pl = dq_place [OF assms(1)]
  have b: "?g < ?N" "unat (dq_put_index q) < ?N" "?N \<le> 2 ^ 15" "length (dq_queue q) = ?N" "?c < ?N"
    using assms pl(2) by (simp_all add: dq_ok_def)
  have p: "unat (next_index (dq_size q) (dq_put_index q)) = (?g + Suc ?c) mod ?N"
    using next_index_mod [OF b(2,3)] pl(3) by (simp add: mod_Suc_eq)
  have full: "next_index (dq_size q) (dq_put_index q) = dq_get_index q \<longleftrightarrow> Suc ?c = ?N"
    unfolding word_unat_eq_iff p using b(1,5) by (intro ring_around) simp_all
  have q': "q' = q\<lparr>dq_queue := (dq_queue q)[unat (dq_put_index q) := it], dq_put_index := next_index (dq_size q) (dq_put_index q),
      dq_is_empty := False, dq_is_full := (Suc ?c = ?N)\<rparr>"
    using assms(2) full by (auto simp: q'_def item_in_def Let_def)
  have cnt: "dq_count q' = Suc ?c"
  proof (cases "Suc ?c = ?N")
    case False
    then show ?thesis
      using ring_count [OF b(1), of "Suc ?c"] b(5) p by (simp add: q' dq_count_def)
  qed (simp add: q' dq_count_def)
  show "dq_size (item_in it q) = dq_size q"
    using q' by (simp add: q'_def [symmetric])
  have "dq_ok q'"
    using assms(1) b full p by (auto simp: q' dq_ok_def)
  then show "dq_ok (item_in it q)"
    by (simp add: q'_def)
  have "dq_contents q' = ring ((dq_queue q)[unat (dq_put_index q) := it]) ?g (Suc ?c) ?N"
    unfolding dq_contents_def cnt by (simp add: q')
  also have "\<dots> = dq_contents q @ [it]"
    unfolding pl(3) dq_contents_def by (rule ring_put [OF b(1,5,4)])
  finally show "dq_contents (item_in it q) = dq_contents q @ [it]"
    by (simp add: q'_def)
qed

lemma item_out_law:
  assumes "dq_ok q" "\<not> dq_is_empty q" "item_out q = (it, q')"
  shows "dq_ok q'" "dq_contents q = it # dq_contents q'" "dq_size q' = dq_size q"
proof -
  let ?N = "unat (dq_size q)" and ?g = "unat (dq_get_index q)"
  note pl = dq_place [OF assms(1)]
  have b: "?g < ?N" "unat (dq_put_index q) < ?N" "?N \<le> 2 ^ 15"
    using assms by (simp_all add: dq_ok_def)
  obtain c where c: "dq_count q = Suc c"
    using pl(4) assms(2) by (cases "dq_count q") auto
  have cN: "c < ?N"
    using pl(1) c by simp
  let ?g' = "next_index (dq_size q) (dq_get_index q)"
  have g: "unat ?g' = (?g + 1) mod ?N"
    by (rule next_index_mod [OF b(1,3)])
  have p: "unat (dq_put_index q) = ((?g + 1) mod ?N + c) mod ?N"
    using pl(3) c by (simp add: mod_add_left_eq)
  have empty: "dq_put_index q = ?g' \<longleftrightarrow> c = 0"
    using p g b(1) cN ring_apart [of "(?g + 1) mod ?N" ?N 0 c] by (cases "c = 0") (auto simp: word_unat_eq_iff)
  have q': "q' = q\<lparr>dq_get_index := ?g', dq_is_full := False, dq_is_empty := (c = 0)\<rparr>" and it: "it = dq_queue q ! ?g"
    using assms(2,3) empty by (auto simp: item_out_def Let_def)
  have cnt: "dq_count q' = c"
    using ring_count [of "(?g + 1) mod ?N" ?N c] b(1) cN p g by (simp add: q' dq_count_def)
  show "dq_size q' = dq_size q"
    by (simp add: q')
  show "dq_ok q'"
    using assms(1) b empty g by (auto simp: q' dq_ok_def)
  have "dq_contents q' = tl (dq_contents q)"
    unfolding dq_contents_def cnt c using ring_tl [of ?N "dq_queue q" ?g c] b(1) by (simp add: q' g)
  moreover have "hd (dq_contents q) = it" "dq_contents q \<noteq> []"
    using b(1) by (auto simp: dq_contents_def c ring_def it upt_conv_Cons simp del: upt_Suc)
  ultimately show "dq_contents q = it # dq_contents q'"
    by (metis list.collapse)
qed


lemma len_count:
  assumes "dq_ok q"
  shows "unat (rt_data_queue_len q) = dq_count q"
proof -
  let ?N = "unat (dq_size q)" and ?p = "unat (dq_put_index q)" and ?g = "unat (dq_get_index q)"
  have b: "?g < ?N" "?p < ?N" "?N \<le> 2 ^ 15"
    using assms by (simp_all add: dq_ok_def)
  have u: "unat (ucast i :: u16) = unat i" for i :: "15 word"
    using unsigned_less [of i, where ?'a = nat] by (simp add: unsigned_ucast_eq take_bit_nat_eq_self)
  consider "dq_is_empty q" | "\<not> dq_is_empty q" "?g < ?p" | "\<not> dq_is_empty q" "?p \<le> ?g"
    by linarith
  then show ?thesis
  proof cases
    case 1
    then show ?thesis
      using dq_place(4) [OF assms] by (simp add: rt_data_queue_len_def)
  next
    case 2
    then have e: "?p + ?N - ?g = (?p - ?g) + ?N" and f: "dq_is_full q = False" and le: "ucast (dq_get_index q) \<le> (ucast (dq_put_index q) :: u16)"
      using assms by (auto simp: dq_ok_def word_le_nat_alt u split: if_splits)
    have "dq_count q = ?p - ?g"
      unfolding dq_count_def e f mod_add_self2 using b by simp
    then show ?thesis
      using 2 le by (simp add: rt_data_queue_len_def word_less_nat_alt unat_sub u)
  next
    case 3
    have le: "ucast (dq_get_index q) \<le> dq_size q + ucast (dq_put_index q)" and s: "unat (dq_size q + ucast (dq_put_index q)) = ?N + ?p"
      using b by (simp_all add: word_le_nat_alt unat_word_ariths u)
    have "dq_count q = ?N + ?p - ?g"
      using 3 assms b by (auto simp: dq_count_def dq_ok_def word_unat_eq_iff split: if_splits)
    then show ?thesis
      using 3 le s by (simp add: rt_data_queue_len_def word_less_nat_alt unat_sub u)
  qed
qed

definition dq_sys_ok :: "dq_sys \<Rightarrow> bool" where
  "dq_sys_ok s \<longleftrightarrow> dq_ok (dataq s) \<and> sched_wf (dq_kern s)"

lemma notify_same [simp]: "dataq (notify ev s) = dataq s" "dq_kern (notify ev s) = dq_kern s"
  by (simp_all add: notify_def)

lemma wait_law:
  assumes "sched_wf k" "runs k t" "wait_on_list l t flg time (set_error t RT_EOK k) = Some (r, k')"
  shows "sched_wf k'" "r \<noteq> Done e"
proof -
  have "sched_wf (set_error t RT_EOK k)" "runs (set_error t RT_EOK k) t"
    using assms(1,2) by (auto intro: error_wf error_runs)
  then show "sched_wf k'" "r \<noteq> Done e"
    using wait_on_list_wf [OF _ _ _ assms(3)] assms(3) by (auto simp: runs_def wait_on_list_def split: Option.bind_splits)
qed

lemma push_loop_law:
  assumes "dq_sys_ok s" "runs (dq_kern s) t" "push_loop it time s = Some (r, s')"
  shows "dq_sys_ok s' \<and> dq_size (dataq s') = dq_size (dataq s) \<and>
    carries (if r = Done RT_EOK then Sent it else Quiet) (dq_contents (dataq s)) (dq_contents (dataq s'))"
proof -
  have ok: "dq_ok (dataq s)" "sched_wf (dq_kern s)" and t: "rt_current_thread (dq_kern s) = Some t"
    using assms(1,2) by (auto simp: dq_sys_ok_def runs_def)
  consider "dq_is_full (dataq s)" "time = 0" | "dq_is_full (dataq s)" "time \<noteq> 0" | "\<not> dq_is_full (dataq s)"
    by blast
  then show ?thesis
  proof cases
    case 1
    then show ?thesis
      using assms(1,3) by (auto simp: push_loop_def)
  next
    case 2
    then obtain k where k: "wait_on_list (suspended_push_list (dataq s)) t RT_IPC_FLAG_FIFO time (set_error t RT_EOK (dq_kern s)) = Some (r, k)"
      "s' = s\<lparr>dq_kern := k\<rparr>"
      using assms(3) t by (auto simp: push_loop_def split: Option.bind_splits)
    then show ?thesis
      using wait_law [OF ok(2) assms(2) k(1)] ok(1) by (simp add: dq_sys_ok_def)
  next
    case 3
    then obtain k where "wake_one (suspended_pop_list (dataq s)) (dq_kern s) = Some k" "r = Done RT_EOK"
      "dataq s' = item_in it (dataq s)" "dq_kern s' = k"
      using assms(3) by (auto simp: push_loop_def Let_def split: Option.bind_splits if_splits)
    then show ?thesis
      using item_in_law [OF ok(1) 3] wake_one_wf [OF ok(2)] by (simp add: dq_sys_ok_def)
  qed
qed

lemma pop_loop_law:
  assumes "dq_sys_ok s" "runs (dq_kern s) t" "pop_loop time s = Some (r, x, s')"
  shows "dq_sys_ok s' \<and> dq_size (dataq s') = dq_size (dataq s) \<and>
    carries (case x of Some v \<Rightarrow> Got v | None \<Rightarrow> Quiet) (dq_contents (dataq s)) (dq_contents (dataq s'))"
proof -
  have ok: "dq_ok (dataq s)" "sched_wf (dq_kern s)" and t: "rt_current_thread (dq_kern s) = Some t"
    using assms(1,2) by (auto simp: dq_sys_ok_def runs_def)
  consider "dq_is_empty (dataq s)" "time = 0" | "dq_is_empty (dataq s)" "time \<noteq> 0" | "\<not> dq_is_empty (dataq s)"
    by blast
  then show ?thesis
  proof cases
    case 1
    then show ?thesis
      using assms(1,3) by (auto simp: pop_loop_def)
  next
    case 2
    then obtain k where k: "wait_on_list (suspended_pop_list (dataq s)) t RT_IPC_FLAG_FIFO time (set_error t RT_EOK (dq_kern s)) = Some (r, k)"
      "s' = s\<lparr>dq_kern := k\<rparr>" "x = None"
      using assms(3) t by (auto simp: pop_loop_def split: Option.bind_splits)
    then show ?thesis
      using wait_law [OF ok(2) assms(2) k(1)] ok(1) by (simp add: dq_sys_ok_def)
  next
    case 3
    obtain it q1 where q1: "item_out (dataq s) = (it, q1)"
      by fastforce
    then have "x = Some it" "dataq s' = q1" "dq_kern s' = dq_kern s \<or> wake_one (suspended_push_list (dataq s)) (dq_kern s) = Some (dq_kern s')"
      using assms(3) 3 by (auto simp: pop_loop_def Let_def split: Option.bind_splits if_splits)
    then show ?thesis
      using item_out_law [OF ok(1) 3 q1] wake_one_wf [OF ok(2)] ok(2) by (auto simp: dq_sys_ok_def)
  qed
qed

text \<open>The steps of a system with a data queue, as for a mailbox.\<close>

inductive dq_step :: "dq_sys \<Rightarrow> rt_data_item traffic \<Rightarrow> dq_sys \<Rightarrow> bool" where
  dq_push: "runs (dq_kern s) t \<Longrightarrow> rt_data_queue_push it time s = Some (r, s') \<Longrightarrow>
    dq_step s (if r = Done RT_EOK then Sent it else Quiet) s'"
| dq_push_goes_on: "runs (dq_kern s) t \<Longrightarrow> push_resumed t it time s = Some (r, s') \<Longrightarrow>
    dq_step s (if r = Done RT_EOK then Sent it else Quiet) s'"
| dq_pop: "runs (dq_kern s) t \<Longrightarrow> rt_data_queue_pop time s = Some (r, x, s') \<Longrightarrow>
    dq_step s (case x of Some v \<Rightarrow> Got v | None \<Rightarrow> Quiet) s'"
| dq_pop_goes_on: "runs (dq_kern s) t \<Longrightarrow> pop_resumed t time s = Some (r, x, s') \<Longrightarrow>
    dq_step s (case x of Some v \<Rightarrow> Got v | None \<Rightarrow> Quiet) s'"
| dq_other: "op_ok op (dq_kern s) \<Longrightarrow> kernel_step op (dq_kern s) = Some k \<Longrightarrow> dq_step s Quiet (s\<lparr>dq_kern := k\<rparr>)"

lemma dq_step_law:
  assumes "dq_step s l s'" "dq_sys_ok s"
  shows "dq_sys_ok s' \<and> dq_size (dataq s') = dq_size (dataq s) \<and> carries l (dq_contents (dataq s)) (dq_contents (dataq s'))"
  using assms(1)
proof (cases rule: dq_step.cases)
  case (dq_push t it time r)
  then show ?thesis
    using push_loop_law [OF assms(2) dq_push(2), of it time r s'] by (auto simp: rt_data_queue_push_def split: if_splits)
next
  case (dq_push_goes_on t it time r)
  then have "r \<noteq> Done RT_EOK \<and> s' = s \<or> push_loop it time s = Some (r, s')"
    by (auto simp: push_resumed_def split: if_splits)
  then show ?thesis
    using assms(2) push_loop_law [OF assms(2) dq_push_goes_on(2), of it time r s'] dq_push_goes_on(1) by auto
next
  case (dq_pop t time r x)
  then show ?thesis
    using pop_loop_law [OF assms(2) dq_pop(2), of time r x s'] by (auto simp: rt_data_queue_pop_def split: if_splits)
next
  case (dq_pop_goes_on t time r x)
  then have "x = None \<and> s' = s \<or> pop_loop time s = Some (r, x, s')"
    by (auto simp: pop_resumed_def split: if_splits)
  then show ?thesis
    using assms(2) pop_loop_law [OF assms(2) dq_pop_goes_on(2), of time r x s'] dq_pop_goes_on(1) by auto
next
  case (dq_other op k)
  then show ?thesis
    using assms(2) kernel_step_wf by (auto simp: dq_sys_ok_def)
qed

interpretation data_queue: bounded_fifo dq_step "\<lambda>s. dq_contents (dataq s)" dq_sys_ok "(=)" "\<lambda>s. unat (dq_size (dataq s))"
proof unfold_locales
  show "length (dq_contents (dataq s)) \<le> unat (dq_size (dataq s))" if "dq_sys_ok s" for s
    using that dq_place(1) by (simp add: dq_sys_ok_def dq_contents_def)
qed (use dq_step_law in fastforce)+


text \<open>C29: whatever threads push and pop, wait and are woken or time out, and whatever else the kernel does, a data queue is a
  bounded queue: the blocks popped are those that were in it and were pushed, in order and without loss or repetition,
  its length function counts them, and there are never more than its size.\<close>

theorem data_queue_fifo:
  assumes "traffic_run dq_step s ls s'" "dq_ok (dataq s)" "sched_wf (dq_kern s)"
  shows "dq_contents (dataq s) @ sent ls = got ls @ dq_contents (dataq s') \<and> dq_ok (dataq s') \<and> sched_wf (dq_kern s') \<and>
    unat (rt_data_queue_len (dataq s')) = length (dq_contents (dataq s')) \<and> length (dq_contents (dataq s')) \<le> unat (dq_size (dataq s))"
proof -
  have "dq_sys_ok s"
    using assms(2,3) by (simp add: dq_sys_ok_def)
  from data_queue.fifo [OF assms(1) this] data_queue.cap_law [of s'] len_count [of "dataq s'"] show ?thesis
    by (auto simp: dq_sys_ok_def list.rel_eq dq_contents_def)
qed

definition demo_dq :: dq_sys where
  "demo_dq = snd (the (rt_data_queue_init (Some [(0, 0), (0, 0)]) 20 21 2 1 True demo_sched))"

lemma demo_dq_ok: "dq_ok (dataq demo_dq)" "sched_wf (dq_kern demo_dq)" "runs (dq_kern demo_dq) 1" "dq_contents (dataq demo_dq) = []"
  "waiting (dq_kern demo_dq) i = []"
proof -
  have "(waiting demo_sched)(20 := [], 21 := []) = waiting demo_sched"
    by (auto simp: demo_sched_def)
  then have k: "dq_kern demo_dq = demo_sched"
    by (simp add: demo_dq_def rt_data_queue_init_def Let_def)
  show "sched_wf (dq_kern demo_dq)" "runs (dq_kern demo_dq) 1" "waiting (dq_kern demo_dq) i = []"
    using demo_sched_wf by (simp_all add: k runs_def demo_sched_def demo_thread_def)
  show "dq_ok (dataq demo_dq)" "dq_contents (dataq demo_dq) = []"
    by (simp_all add: demo_dq_def rt_data_queue_init_def dq_ok_def dq_contents_def dq_count_def ring_def Let_def)
qed

text \<open>With nobody waiting, an item is stored, and taken out, at once.\<close>

lemma dq_push_now:
  assumes "runs (dq_kern s) t" "dq_magic (dataq s) = DATAQUEUE_MAGIC" "\<not> dq_is_full (dataq s)" "waiting (dq_kern s) (suspended_pop_list (dataq s)) = []"
  shows "dq_step s (Sent it) (notify RT_DATAQUEUE_EVENT_PUSH (s\<lparr>dataq := item_in it (dataq s)\<rparr>))"
  using dq_push [OF assms(1), of it 0 "Done RT_EOK"] assms(2-4)
  by (auto simp: rt_data_queue_push_def push_loop_def wake_one_def Let_def)

lemma dq_pop_now:
  assumes "runs (dq_kern s) t" "dq_magic (dataq s) = DATAQUEUE_MAGIC" "\<not> dq_is_empty (dataq s)" "waiting (dq_kern s) (suspended_push_list (dataq s)) = []"
  shows "\<exists>ev. dq_step s (Got (fst (item_out (dataq s)))) (notify ev (s\<lparr>dataq := snd (item_out (dataq s))\<rparr>))"
proof -
  define ev where "ev = (if rt_data_queue_len (snd (item_out (dataq s))) \<le> dq_lwm (snd (item_out (dataq s))) then RT_DATAQUEUE_EVENT_LWM else RT_DATAQUEUE_EVENT_POP)"
  have "wake_one (suspended_push_list (dataq s)) (dq_kern s) = Some (dq_kern s)"
    using assms(4) by (simp add: wake_one_def)
  then have "rt_data_queue_pop 0 s = Some (Done RT_EOK, Some (fst (item_out (dataq s))), notify ev (s\<lparr>dataq := snd (item_out (dataq s))\<rparr>))"
    using assms(2,3) by (simp add: rt_data_queue_pop_def pop_loop_def ev_def split_beta Let_def)
  from dq_pop [OF assms(1) this] show ?thesis
    by auto
qed

theorem data_queue_fifo_witness:
  "\<exists>s'. traffic_run dq_step demo_dq [Sent (4096, 10), Sent (8192, 20), Got (4096, 10)] s' \<and> dq_contents (dataq s') = [(8192, 20)]"
proof -
  define put where "put it s = notify RT_DATAQUEUE_EVENT_PUSH (s\<lparr>dataq := item_in it (dataq s)\<rparr>)" for it s
  define s2 where "s2 = put (8192, 20) (put (4096, 10) demo_dq)"
  have m: "dq_kern (put it s) = dq_kern s" for it s
    by (simp add: put_def)
  then have r: "runs (dq_kern (put (4096, 10) demo_dq)) 1" "runs (dq_kern s2) 1"
    and w: "\<And>i. waiting (dq_kern (put (4096, 10) demo_dq)) i = []" "\<And>i. waiting (dq_kern s2) i = []"
    unfolding s2_def using demo_dq_ok(3,5) by metis+
  have d: "dataq (put it s) = item_in it (dataq s)" for it s
    by (simp add: put_def)
  note eval = demo_dq_def rt_data_queue_init_def item_in_def item_out_def next_index_def d Let_def
  have "dq_step demo_dq (Sent (4096, 10)) (put (4096, 10) demo_dq)"
    unfolding put_def by (rule dq_push_now [OF demo_dq_ok(3)]) (simp_all add: eval demo_sched_def)
  moreover have "dq_step (put (4096, 10) demo_dq) (Sent (8192, 20)) s2"
    unfolding s2_def put_def [of "(8192, 20)"] by (rule dq_push_now [OF r(1) _ _ w(1)]) (simp_all add: eval)
  moreover obtain ev where "dq_step s2 (Got (fst (item_out (dataq s2)))) (notify ev (s2\<lparr>dataq := snd (item_out (dataq s2))\<rparr>))"
    using dq_pop_now [OF r(2) _ _ w(2)] by (auto simp: s2_def eval)
  moreover have "fst (item_out (dataq s2)) = (4096, 10)"
    by (simp add: s2_def eval)
  ultimately have run: "traffic_run dq_step demo_dq [Sent (4096, 10), Sent (8192, 20), Got (4096, 10)]
      (notify ev (s2\<lparr>dataq := snd (item_out (dataq s2))\<rparr>))"
    by (auto intro!: run_Cons run_Nil)
  from data_queue_fifo [OF run demo_dq_ok(1,2)] run demo_dq_ok(4) show ?thesis
    by auto
qed

text \<open>A pusher that waits is woken at the low-water mark only, not as soon as there is room.\<close>

lemma push_waits_for_mark:
  assumes "dq_sys_ok s" "pop_loop time s = Some (Done RT_EOK, Some it, s')" "unat (dq_lwm (dataq s)) < length (dq_contents (dataq s'))"
  shows "dq_kern s' = dq_kern s"
proof -
  have ne: "\<not> dq_is_empty (dataq s)"
    using assms(2) by (auto simp: pop_loop_def split: if_splits Option.bind_splits)
  obtain i2 q1 where q1: "item_out (dataq s) = (i2, q1)"
    by fastforce
  have d: "dataq s' = q1" "dq_lwm q1 = dq_lwm (dataq s)"
    using assms(2) ne q1 by (auto simp: pop_loop_def item_out_def Let_def split: if_splits Option.bind_splits)
  have "dq_ok q1"
    using item_out_law(1) [OF _ ne q1] assms(1) by (simp add: dq_sys_ok_def)
  then have "\<not> rt_data_queue_len q1 \<le> dq_lwm q1"
    using assms(3) len_count [of q1] d by (simp add: dq_contents_def word_le_nat_alt)
  then show ?thesis
    using assms(2) ne q1 by (auto simp: pop_loop_def)
qed

text \<open>A reset empties the queue and leaves nobody waiting.\<close>

lemma reset_law:
  assumes "dq_sys_ok s" "rt_data_queue_reset s = Some s'"
  shows "dq_sys_ok s' \<and> dq_contents (dataq s') = [] \<and> waiting (dq_kern s') (suspended_push_list (dataq s')) = [] \<and>
    waiting (dq_kern s') (suspended_pop_list (dataq s')) = []"
proof -
  let ?q = "dataq s"
  obtain k1 k2 k3 k4 where k1: "rt_ipc_list_resume_all (suspended_pop_list ?q) (rt_enter_critical (dq_kern s)) = Some k1"
    and k2: "rt_ipc_list_resume_all (suspended_push_list ?q) k1 = Some k2" and k3: "rt_exit_critical k2 = Some k3" and k4: "rt_schedule k3 = Some k4"
    and s': "s' = s\<lparr>dq_kern := k4, dataq := ?q\<lparr>dq_get_index := 0, dq_put_index := 0, dq_is_empty := True, dq_is_full := False\<rparr>\<rparr>"
    using assms(2) by (auto simp: rt_data_queue_reset_def Let_def split: if_splits Option.bind_splits)
  have wf: "sched_wf (rt_enter_critical (dq_kern s))"
    using assms(1) critical_wf(1) by (simp add: dq_sys_ok_def)
  note l1 = resume_all_keeps [OF wf k1 [unfolded rt_ipc_list_resume_all_def]]
  note l2 = resume_all_keeps [OF conjunct1 [OF l1] k2 [unfolded rt_ipc_list_resume_all_def]]
  have wf3: "sched_wf k3"
    using critical_wf(2) [OF _ k3] l2 by blast
  have "set (waiting k4 j) \<subseteq> set (waiting k2 j)" for j
    using kernel_shrinks [of Exit k2 k3 j] k3 schedule_shrinks [OF k4, of j] by auto
  then have "waiting k4 (suspended_push_list ?q) = []" "waiting k4 (suspended_pop_list ?q) = []"
    using l1 l2 by (metis list.set(1) set_empty subset_empty)+
  moreover have "sched_wf k4"
    using schedule_law [OF wf3 k4] by blast
  ultimately show ?thesis
    using assms(1) by (auto simp: s' dq_sys_ok_def dq_ok_def dq_contents_def dq_count_def ring_def)
qed

section \<open>Completions\<close>

record completion_sys =
  comp_kern :: sched
  comp_flag :: bool
  comp_list :: nat

definition rt_completion_init :: "nat \<Rightarrow> sched \<Rightarrow> completion_sys" where
  "rt_completion_init l k = \<lparr>comp_kern = k\<lparr>waiting := (waiting k)(l := [])\<rparr>, comp_flag = False, comp_list = l\<rparr>"

definition rt_completion_wait :: "int \<Rightarrow> completion_sys \<Rightarrow> (result \<times> completion_sys) option" where
  "rt_completion_wait time s =
     (if comp_flag s then Some (Done RT_EOK, s\<lparr>comp_flag := False\<rparr>)
      else if waiting (comp_kern s) (comp_list s) \<noteq> [] then None
      else if time = 0 then Some (Done (- RT_ETIMEOUT), s)
      else do { t \<leftarrow> rt_current_thread (comp_kern s);
                (r, k) \<leftarrow> wait_on_list (comp_list s) t RT_IPC_FLAG_FIFO time (set_error t RT_EOK (comp_kern s));
                Some (r, s\<lparr>comp_kern := k\<rparr>) })"

definition completion_resumed :: "nat \<Rightarrow> completion_sys \<Rightarrow> result \<times> completion_sys" where
  "completion_resumed t s = (Done (error (threads (comp_kern s) t)), s\<lparr>comp_flag := False\<rparr>)"

definition rt_completion_done :: "completion_sys \<Rightarrow> completion_sys option" where
  "rt_completion_done s =
     (if comp_flag s then Some s
      else do { k \<leftarrow> wake_one (comp_list s) (comp_kern s); Some (s\<lparr>comp_kern := k, comp_flag := True\<rparr>) })"

text \<open>Nobody sleeps on a completion that is done, and at most one thread waits for it.\<close>

definition completion_ok :: "completion_sys \<Rightarrow> bool" where
  "completion_ok s \<longleftrightarrow> sched_wf (comp_kern s) \<and> (comp_flag s \<longrightarrow> waiting (comp_kern s) (comp_list s) = []) \<and>
     length (waiting (comp_kern s) (comp_list s)) \<le> 1"

inductive completion_step :: "completion_sys \<Rightarrow> completion_sys \<Rightarrow> bool" where
  comp_wait: "runs (comp_kern s) t \<Longrightarrow> rt_completion_wait time s = Some (r, s') \<Longrightarrow> completion_step s s'"
| comp_goes_on: "runs (comp_kern s) t \<Longrightarrow> completion_resumed t s = (r, s') \<Longrightarrow> completion_step s s'"
| comp_done: "rt_completion_done s = Some s' \<Longrightarrow> completion_step s s'"
| comp_other: "op_ok op (comp_kern s) \<Longrightarrow> kernel_step op (comp_kern s) = Some k \<Longrightarrow> completion_step s (s\<lparr>comp_kern := k\<rparr>)"


lemma singleton_list: "length xs \<le> 1 \<longleftrightarrow> distinct xs \<and> (\<exists>u. set xs \<subseteq> {u})"
  by (cases xs; cases "tl xs") auto

lemma lists_distinct: "sched_wf k \<Longrightarrow> distinct (waiting k l)"
  using queues_okD(6) [of "{}" k l] by (simp add: sched_wf_def)

lemma wait_joins:
  assumes "sched_wf k" "runs k t" "wait_on_list l t flg time (set_error t RT_EOK k) = Some (r, k')"
  shows "set (waiting k' l) = insert t (set (waiting k l))"
proof -
  let ?k = "set_error t RT_EOK k"
  have k: "sched_wf ?k" "rt_current_thread ?k = Some t" "stat (threads ?k t) = RT_THREAD_RUNNING" "waiting ?k l = waiting k l"
    using assms(1,2) by (auto simp: runs_def intro: error_wf)
  obtain k1 k2 where k1: "rt_ipc_list_suspend l t flg ?k = Some k1"
    and k2: "(if time > 0 then thread_timer_start t (of_int time) k1 else Some k1) = Some k2" and k3: "rt_schedule k2 = Some k'"
    using assms(3) by (auto simp: wait_on_list_def split: Option.bind_splits)
  have "sched_wf k2" "waiting k2 = waiting k1"
    using list_suspend_law(1) [OF k(1-3) k1] k2 timer_stop_simps(2) by (fastforce split: if_splits)+
  then show ?thesis
    using schedule_law [OF _ k3] list_suspend_law(2) [OF k(1-3) k1] k(4) by simp
qed

lemma wake_one_removes:
  assumes "sched_wf k" "wake_one l k = Some k'"
  shows "set (waiting k' l) \<subseteq> set (waiting k l) - {hd (waiting k l)}"
proof (cases "waiting k l = []")
  case False
  then obtain k1 where k1: "rt_ipc_list_resume l k = Some k1" "rt_schedule k1 = Some k'"
    using assms(2) by (auto simp: wake_one_def split: Option.bind_splits)
  then show ?thesis
    using list_resume_shrinks(2,3) [OF assms(1) k1(1)] schedule_law [OF list_resume_shrinks(1) [OF assms(1) k1(1)] k1(2)] by auto
qed (use assms in \<open>auto simp: wake_one_def\<close>)

lemma completion_step_ok: "completion_step s s' \<Longrightarrow> completion_ok s \<Longrightarrow> completion_ok s'"
proof (induction rule: completion_step.induct)
  case (comp_wait s t time r s')
  show ?case
  proof (cases "comp_flag s \<or> time = 0")
    case False
    then obtain k where e: "waiting (comp_kern s) (comp_list s) = []" and s': "s' = s\<lparr>comp_kern := k\<rparr>"
      and k: "wait_on_list (comp_list s) t RT_IPC_FLAG_FIFO time (set_error t RT_EOK (comp_kern s)) = Some (r, k)"
      using comp_wait.hyps by (auto simp: rt_completion_wait_def runs_def split: if_splits Option.bind_splits)
    have wf: "sched_wf (comp_kern s)"
      using comp_wait.prems by (simp add: completion_ok_def)
    from wait_law(1) [OF wf comp_wait.hyps(1) k] wait_joins [OF wf comp_wait.hyps(1) k] lists_distinct [of k "comp_list s"] show ?thesis
      using False by (auto simp: completion_ok_def s' e singleton_list simp del: One_nat_def)
  qed (use comp_wait in \<open>auto simp: rt_completion_wait_def completion_ok_def split: if_splits\<close>)
next
  case (comp_goes_on s t r s')
  then show ?case
    by (auto simp: completion_resumed_def completion_ok_def)
next
  case (comp_done s s')
  show ?case
  proof (cases "comp_flag s")
    case False
    then obtain k where k: "wake_one (comp_list s) (comp_kern s) = Some k" "s' = s\<lparr>comp_kern := k, comp_flag := True\<rparr>"
      using comp_done.hyps by (auto simp: rt_completion_done_def split: Option.bind_splits)
    have wf: "sched_wf (comp_kern s)"
      using comp_done.prems by (simp add: completion_ok_def)
    have "set (waiting (comp_kern s) (comp_list s)) \<subseteq> {hd (waiting (comp_kern s) (comp_list s))}"
      using comp_done.prems by (cases "waiting (comp_kern s) (comp_list s)") (auto simp: completion_ok_def)
    from subset_trans [OF wake_one_removes [OF wf k(1)] Diff_mono [OF this subset_refl]]
    have "waiting k (comp_list s) = []"
      by simp
    then show ?thesis
      using wake_one_wf [OF wf k(1)] by (simp add: completion_ok_def k(2))
  qed (use comp_done in \<open>simp add: rt_completion_done_def\<close>)
next
  case (comp_other op s k)
  then have sub: "set (waiting k (comp_list s)) \<subseteq> set (waiting (comp_kern s) (comp_list s))" and wf: "sched_wf k"
    using kernel_shrinks kernel_step_wf by (auto simp: completion_ok_def)
  have "distinct (waiting k (comp_list s))"
    by (rule lists_distinct [OF wf])
  with sub wf comp_other.prems show ?case
    by (auto simp: completion_ok_def singleton_list simp del: One_nat_def)
qed

text \<open>Whatever its users and the rest of the kernel do, no thread sleeps on a completion that is done, and never do two
  threads wait for it.\<close>

theorem completion_no_lost_wakeup:
  assumes "completion_step\<^sup>*\<^sup>* (rt_completion_init l k) s" "sched_wf k" "waiting k l = []"
  shows "sched_wf (comp_kern s) \<and> (comp_flag s \<longrightarrow> waiting (comp_kern s) (comp_list s) = []) \<and> length (waiting (comp_kern s) (comp_list s)) \<le> 1"
proof -
  have "k\<lparr>waiting := (waiting k)(l := [])\<rparr> = k"
    using assms(3) by (simp add: fun_upd_idem)
  then have "completion_ok (rt_completion_init l k)"
    using assms(2,3) by (simp add: completion_ok_def rt_completion_init_def)
  with assms(1) have "completion_ok s"
    by (induction rule: rtranclp_induct) (auto intro: completion_step_ok)
  then show ?thesis
    by (simp add: completion_ok_def)
qed

text \<open>A thread whose wait timed out clears the flag when it goes on: a completion that came in the meantime is lost,
  although the thread reports a timeout.\<close>

lemma timed_out_wait_drops_completion:
  assumes "\<not> comp_flag s" "waiting (comp_kern s) (comp_list s) = []" "error (threads (comp_kern s) t) = - RT_ETIMEOUT"
  shows "\<exists>s1. rt_completion_done s = Some s1 \<and> comp_flag s1 \<and>
    completion_resumed t s1 = (Done (- RT_ETIMEOUT), s1\<lparr>comp_flag := False\<rparr>)"
  using assms by (auto simp: rt_completion_done_def wake_one_def completion_resumed_def)

end
