(* ===== verification/Ringblk.thy ===== *)
theory Ringblk
  imports Prelude "HOL-Library.Monad_Syntax"
begin

text \<open>
  Ring block buffers, \<^verbatim>\<open>src/rt-thread/components/drivers/src/ringblk_buf.c\<close>: blocks of any size are cut from a
  buffer in ring order and passed on without copying.  A block is its index in \<open>blk_set\<close>, addresses are 32-bit words,
  and the linked list \<open>blk_list\<close> is the list of the indexes on it.  A failed assertion and an access outside
  \<open>blk_set\<close> are \<open>None\<close>.  The main result is that blocks that are allocated, put, got and freed never overlap; the
  last section shows what the block queues do to this.
\<close>

section \<open>State\<close>

datatype rt_rbb_status = RT_RBB_BLK_UNUSED | RT_RBB_BLK_INITED | RT_RBB_BLK_PUT | RT_RBB_BLK_GET

record rt_rbb_blk =
  blk_status :: rt_rbb_status
  blk_size :: "24 word"
  blk_buf :: u32

record rt_rbb =
  rbb_buf :: u32
  rbb_buf_size :: u32
  blk_set :: "rt_rbb_blk list"
  blk_list :: "nat list"

record rt_rbb_blk_queue =
  q_blocks :: nat
  q_blk_num :: u32

definition blk_max_num :: "rt_rbb \<Rightarrow> nat" where
  "blk_max_num r = length (blk_set r)"

definition upd_blk :: "nat \<Rightarrow> (rt_rbb_blk \<Rightarrow> rt_rbb_blk) \<Rightarrow> rt_rbb \<Rightarrow> rt_rbb" where
  "upd_blk i f r = r\<lparr>blk_set := (blk_set r)[i := f (blk_set r ! i)]\<rparr>"

section \<open>Operations\<close>

definition rt_rbb_init :: "u32 \<Rightarrow> u32 \<Rightarrow> rt_rbb_blk list \<Rightarrow> rt_rbb" where
  "rt_rbb_init buf sz block_set =
     \<lparr>rbb_buf = buf, rbb_buf_size = sz, blk_set = map (\<lambda>b. b\<lparr>blk_status := RT_RBB_BLK_UNUSED\<rparr>) block_set, blk_list = []\<rparr>"

text \<open>The three arguments are what the heap gives for the object, the buffer and the blocks; the first result are the
  pointers that go back to it.\<close>

definition rt_rbb_create :: "u32 option \<Rightarrow> u32 option \<Rightarrow> (u32 \<times> rt_rbb_blk list) option \<Rightarrow> u32 \<Rightarrow> u32 list \<times> (u32 \<times> u32 \<times> rt_rbb) option" where
  "rt_rbb_create rbb_mem buf_mem set_mem sz =
     (case rbb_mem of None \<Rightarrow> ([], None)
      | Some rbb \<Rightarrow>
        (case buf_mem of None \<Rightarrow> ([rbb], None)
         | Some buf \<Rightarrow>
           (case set_mem of None \<Rightarrow> ([buf, rbb], None)
            | Some (blks, junk) \<Rightarrow> ([], Some (rbb, blks, rt_rbb_init buf sz junk)))))"

definition rt_rbb_destroy :: "u32 \<times> u32 \<times> rt_rbb \<Rightarrow> u32 list" where
  "rt_rbb_destroy x = (case x of (rbb, blks, r) \<Rightarrow> [rbb_buf r, blks, rbb])"

definition find_empty_blk_in_set :: "rt_rbb \<Rightarrow> nat option" where
  "find_empty_blk_in_set r = find (\<lambda>i. blk_status (blk_set r ! i) = RT_RBB_BLK_UNUSED) [0..<blk_max_num r]"

definition place_blk :: "nat \<Rightarrow> u32 \<Rightarrow> u32 \<Rightarrow> rt_rbb \<Rightarrow> rt_rbb" where
  "place_blk i buf sz r =
     upd_blk i (\<lambda>b. b\<lparr>blk_status := RT_RBB_BLK_INITED, blk_buf := buf, blk_size := ucast sz\<rparr>) (r\<lparr>blk_list := blk_list r @ [i]\<rparr>)"

definition blk_end :: "rt_rbb_blk \<Rightarrow> u32" where
  "blk_end b = blk_buf b + ucast (blk_size b)"

definition rt_rbb_blk_alloc :: "u32 \<Rightarrow> rt_rbb \<Rightarrow> (nat option \<times> rt_rbb) option" where
  "rt_rbb_blk_alloc sz r =
     (if \<not> sz < 2 ^ 24 then None
      else Some (case find_empty_blk_in_set r of
          None \<Rightarrow> (None, r)
        | Some i \<Rightarrow>
            if \<not> length (blk_list r) < blk_max_num r then (None, r)
            else if blk_list r \<noteq> [] then
              let head = blk_set r ! hd (blk_list r); tail = blk_set r ! last (blk_list r) in
              if blk_buf head \<le> blk_buf tail then
                let empty1 = (rbb_buf r + rbb_buf_size r) - blk_end tail; empty2 = blk_buf head - rbb_buf r in
                if empty1 \<ge> sz then (Some i, place_blk i (blk_end tail) sz r)
                else if empty2 \<ge> sz then (Some i, place_blk i (rbb_buf r) sz r)
                else (None, r)
              else
                let empty1 = blk_buf head - blk_end tail in
                if empty1 \<ge> sz then (Some i, place_blk i (blk_end tail) sz r) else (None, r)
            else (Some i, place_blk i (rbb_buf r) sz r)))"

text \<open>On an empty list the block is placed without looking at the size of the buffer.\<close>

definition rt_rbb_blk_put :: "nat \<Rightarrow> rt_rbb \<Rightarrow> rt_rbb option" where
  "rt_rbb_blk_put i r =
     (if i < blk_max_num r \<and> blk_status (blk_set r ! i) = RT_RBB_BLK_INITED then Some (upd_blk i (\<lambda>b. b\<lparr>blk_status := RT_RBB_BLK_PUT\<rparr>) r) else None)"

definition rt_rbb_blk_get :: "rt_rbb \<Rightarrow> nat option \<times> rt_rbb" where
  "rt_rbb_blk_get r =
     (case find (\<lambda>i. blk_status (blk_set r ! i) = RT_RBB_BLK_PUT) (blk_list r) of
        None \<Rightarrow> (None, r)
      | Some i \<Rightarrow> (Some i, upd_blk i (\<lambda>b. b\<lparr>blk_status := RT_RBB_BLK_GET\<rparr>) r))"

definition rt_rbb_blk_size :: "nat \<Rightarrow> rt_rbb \<Rightarrow> u32 option" where
  "rt_rbb_blk_size i r = (if i < blk_max_num r then Some (ucast (blk_size (blk_set r ! i))) else None)"

definition rt_rbb_blk_buf :: "nat \<Rightarrow> rt_rbb \<Rightarrow> u32 option" where
  "rt_rbb_blk_buf i r = (if i < blk_max_num r then Some (blk_buf (blk_set r ! i)) else None)"

definition rt_rbb_blk_free :: "nat \<Rightarrow> rt_rbb \<Rightarrow> rt_rbb option" where
  "rt_rbb_blk_free i r =
     (if i < blk_max_num r \<and> blk_status (blk_set r ! i) \<noteq> RT_RBB_BLK_UNUSED
      then Some (upd_blk i (\<lambda>b. b\<lparr>blk_status := RT_RBB_BLK_UNUSED\<rparr>) (r\<lparr>blk_list := remove1 i (blk_list r)\<rparr>))
      else None)"

definition rt_rbb_get_buf_size :: "rt_rbb \<Rightarrow> u32" where
  "rt_rbb_get_buf_size r = rbb_buf_size r"

subsection \<open>Block queues\<close>

text \<open>One block is taken off the list.  A removed node keeps its own \<open>next\<close> pointer, so the loop goes on along the
  list as it was.\<close>

definition take_blk :: "nat \<Rightarrow> rt_rbb \<Rightarrow> rt_rbb" where
  "take_blk i r = upd_blk i (\<lambda>b. b\<lparr>blk_status := RT_RBB_BLK_GET\<rparr>) (r\<lparr>blk_list := remove1 i (blk_list r)\<rparr>)"

fun queue_get_loop :: "u32 \<Rightarrow> nat list \<Rightarrow> nat option \<Rightarrow> u32 \<Rightarrow> rt_rbb_blk_queue \<Rightarrow> rt_rbb \<Rightarrow> u32 \<times> rt_rbb_blk_queue \<times> rt_rbb" where
  "queue_get_loop lim [] last_block got_size q r = (got_size, q, r)"
| "queue_get_loop lim (i # is) None got_size q r =
     (if blk_status (blk_set r ! i) = RT_RBB_BLK_PUT
      then queue_get_loop lim is (Some i) (got_size + ucast (blk_size (blk_set r ! i))) \<lparr>q_blocks = i, q_blk_num = 1\<rparr> (take_blk i r)
      else queue_get_loop lim is None got_size q r)"
| "queue_get_loop lim (i # is) (Some l) got_size q r =
     (if blk_status (blk_set r ! i) \<noteq> RT_RBB_BLK_PUT \<or> blk_buf (blk_set r ! l) > blk_buf (blk_set r ! i) \<or>
         got_size + ucast (blk_size (blk_set r ! i)) > lim
      then (got_size, q, r)
      else queue_get_loop lim is (Some i) (got_size + ucast (blk_size (blk_set r ! i))) (q\<lparr>q_blk_num := q_blk_num q + 1\<rparr>) (take_blk i r))"

definition rt_rbb_blk_queue_get :: "u32 \<Rightarrow> rt_rbb_blk_queue \<Rightarrow> rt_rbb \<Rightarrow> u32 \<times> rt_rbb_blk_queue \<times> rt_rbb" where
  "rt_rbb_blk_queue_get lim q r = queue_get_loop lim (blk_list r) None 0 q r"

text \<open>The blocks of a queue are taken to be neighbours in \<open>blk_set\<close>.\<close>

fun queue_len_loop :: "nat \<Rightarrow> nat \<Rightarrow> rt_rbb \<Rightarrow> u32 option" where
  "queue_len_loop i 0 r = Some 0"
| "queue_len_loop i (Suc n) r = do { a \<leftarrow> rt_rbb_blk_size i r; b \<leftarrow> queue_len_loop (Suc i) n r; Some (a + b) }"

definition rt_rbb_blk_queue_len :: "rt_rbb_blk_queue \<Rightarrow> rt_rbb \<Rightarrow> u32 option" where
  "rt_rbb_blk_queue_len q r = queue_len_loop (q_blocks q) (unat (q_blk_num q)) r"

definition rt_rbb_blk_queue_buf :: "rt_rbb_blk_queue \<Rightarrow> rt_rbb \<Rightarrow> u32 option" where
  "rt_rbb_blk_queue_buf q r = rt_rbb_blk_buf (q_blocks q) r"

fun queue_free_loop :: "nat \<Rightarrow> nat \<Rightarrow> rt_rbb \<Rightarrow> rt_rbb option" where
  "queue_free_loop i 0 r = Some r"
| "queue_free_loop i (Suc n) r = do { r1 \<leftarrow> rt_rbb_blk_free i r; queue_free_loop (Suc i) n r1 }"

definition rt_rbb_blk_queue_free :: "rt_rbb_blk_queue \<Rightarrow> rt_rbb \<Rightarrow> rt_rbb option" where
  "rt_rbb_blk_queue_free q r = queue_free_loop (q_blocks q) (unat (q_blk_num q)) r"

fun next_queue_loop :: "nat list \<Rightarrow> nat option \<Rightarrow> u32 \<Rightarrow> rt_rbb \<Rightarrow> u32" where
  "next_queue_loop [] last_block len r = len"
| "next_queue_loop (i # is) None len r =
     (if blk_status (blk_set r ! i) \<noteq> RT_RBB_BLK_PUT then next_queue_loop is None len r
      else next_queue_loop is (Some i) (len + ucast (blk_size (blk_set r ! i))) r)"
| "next_queue_loop (i # is) (Some l) len r =
     (if blk_status (blk_set r ! i) \<noteq> RT_RBB_BLK_PUT \<or> blk_buf (blk_set r ! l) > blk_buf (blk_set r ! i) then len
      else next_queue_loop is (Some i) (len + ucast (blk_size (blk_set r ! i))) r)"

definition rt_rbb_next_blk_queue_len :: "rt_rbb \<Rightarrow> u32" where
  "rt_rbb_next_blk_queue_len r = next_queue_loop (blk_list r) None 0 r"

section \<open>Blocks never overlap\<close>

text \<open>Intervals that follow each other in address order, and the two such runs of a ring, the second before the first.\<close>

definition ascending :: "(nat \<times> nat) list \<Rightarrow> bool" where
  "ascending zs = sorted_wrt (\<lambda>a b. snd a \<le> fst b) zs"

definition ring_order :: "(nat \<times> nat) list \<Rightarrow> bool" where
  "ring_order zs \<longleftrightarrow> (\<exists>xs ys. zs = xs @ ys \<and> ascending xs \<and> ascending ys \<and> (\<forall>x \<in> set xs. \<forall>y \<in> set ys. snd y \<le> fst x))"

lemma ring_orderI: "ascending xs \<Longrightarrow> ascending ys \<Longrightarrow> \<forall>x \<in> set xs. \<forall>y \<in> set ys. snd y \<le> fst x \<Longrightarrow> ring_order (xs @ ys)"
  by (auto simp: ring_order_def)

lemma ascending_ring: "ascending zs \<Longrightarrow> ring_order zs"
  using ring_orderI [of zs "[]"] by (simp add: ascending_def)

lemma ring_order_drop:
  assumes "ring_order (us @ v # ws)"
  shows "ring_order (us @ ws)"
proof -
  obtain xs ys where z: "us @ v # ws = xs @ ys" and o: "ascending xs" "ascending ys" "\<forall>x \<in> set xs. \<forall>y \<in> set ys. snd y \<le> fst x"
    using assms by (auto simp: ring_order_def)
  from z consider ds where "us = xs @ ds" "ys = ds @ v # ws" | ds where "xs = us @ v # ds" "ws = ds @ ys"
    by (auto simp: append_eq_append_conv2 append_eq_Cons_conv Cons_eq_append_conv)
  then show ?thesis
  proof cases
    case 1
    then show ?thesis
      using o ring_orderI [of xs "ds @ ws"] by (auto simp: ascending_def sorted_wrt_append)
  next
    case 2
    then show ?thesis
      using o ring_orderI [of "us @ ds" ys] by (auto simp: ascending_def sorted_wrt_append)
  qed
qed

lemma ring_order_apart: "ring_order zs \<Longrightarrow> sorted_wrt (\<lambda>a b. snd a \<le> fst b \<or> snd b \<le> fst a) zs"
  by (auto simp: ring_order_def ascending_def sorted_wrt_append elim: sorted_wrt_mono_rel [rotated])

text \<open>Three places for a new interval: after the last one of an ascending ring, at the start of the buffer before an
  ascending ring, and between the last and the first one of a ring that has wrapped.\<close>

lemma ascending_snoc:
  assumes "ascending zs" "\<forall>z \<in> set zs. fst z < snd z" "zs \<noteq> []" "snd (last zs) \<le> b"
  shows "ascending (zs @ [(b, e)])"
proof -
  obtain ys y where zs: "zs = ys @ [y]"
    using assms(3) by (cases zs rule: rev_cases) auto
  have "snd z \<le> b" if "z \<in> set ys" for z
    using assms that by (fastforce simp: zs ascending_def sorted_wrt_append)
  then show ?thesis
    using assms(1,4) by (auto simp: zs ascending_def sorted_wrt_append)
qed

lemma ascending_first: "ascending zs \<Longrightarrow> \<forall>z \<in> set zs. fst z < snd z \<Longrightarrow> z \<in> set zs \<Longrightarrow> fst (hd zs) \<le> fst z"
  by (cases zs) (fastforce simp: ascending_def)+

lemma ring_not_wrapped:
  assumes "ring_order zs" "zs \<noteq> []" "\<forall>z \<in> set zs. fst z < snd z" "fst (hd zs) \<le> fst (last zs)"
  shows "ascending zs"
proof -
  obtain xs ys where z: "zs = xs @ ys" "ascending xs" "ascending ys" "\<forall>x \<in> set xs. \<forall>y \<in> set ys. snd y \<le> fst x"
    using assms(1) by (auto simp: ring_order_def)
  have False if "xs \<noteq> []" "ys \<noteq> []"
  proof -
    have "hd zs \<in> set xs" "last zs \<in> set ys"
      using that z(1) by simp_all
    then have "snd (last zs) \<le> fst (hd zs)" "fst (last zs) < snd (last zs)"
      using z(4) assms(2,3) by auto
    then show False
      using assms(4) by simp
  qed
  then show ?thesis
    using z by (cases xs; cases ys) auto
qed

lemma ring_wrapped:
  assumes "ring_order zs" "zs \<noteq> []" "\<forall>z \<in> set zs. fst z < snd z" "fst (last zs) < fst (hd zs)"
  shows "snd (last zs) \<le> fst (hd zs)" "snd (last zs) \<le> b \<Longrightarrow> e \<le> fst (hd zs) \<Longrightarrow> ring_order (zs @ [(b, e)])"
proof -
  obtain xs ys where z: "zs = xs @ ys" "ascending xs" "ascending ys" "\<forall>x \<in> set xs. \<forall>y \<in> set ys. snd y \<le> fst x"
    using assms(1) by (auto simp: ring_order_def)
  have "\<not> ascending zs"
    using ascending_first [of zs "last zs"] assms(2-4) by auto
  then have ne: "xs \<noteq> []" "ys \<noteq> []"
    using z by auto
  then show "snd (last zs) \<le> fst (hd zs)"
    using z(1,4) by simp
  assume b: "snd (last zs) \<le> b" "e \<le> fst (hd zs)"
  have "ascending (ys @ [(b, e)])"
    using ascending_snoc [OF z(3) _ ne(2)] z(1) assms(3) b(1) ne by simp
  moreover have "e \<le> fst x" if "x \<in> set xs" for x
    using ascending_first [OF z(2) _ that] assms(3) b(2) z(1) ne by fastforce
  ultimately show "ring_order (zs @ [(b, e)])"
    using ring_orderI [OF z(2), of "ys @ [(b, e)]"] z(1,4) by auto
qed

text \<open>The bytes of a block.\<close>

definition blk_interval :: "rt_rbb \<Rightarrow> nat \<Rightarrow> nat \<times> nat" where
  "blk_interval r i = (let b = blk_set r ! i in (unat (blk_buf b), unat (blk_buf b) + unat (blk_size b)))"

definition blk_bytes :: "rt_rbb \<Rightarrow> nat \<Rightarrow> nat set" where
  "blk_bytes r i = {fst (blk_interval r i)..<snd (blk_interval r i)}"

definition buf_bytes :: "rt_rbb \<Rightarrow> nat set" where
  "buf_bytes r = {unat (rbb_buf r)..<unat (rbb_buf r) + unat (rbb_buf_size r)}"

definition in_use :: "rt_rbb \<Rightarrow> nat \<Rightarrow> bool" where
  "in_use r i \<longleftrightarrow> i < blk_max_num r \<and> blk_status (blk_set r ! i) \<noteq> RT_RBB_BLK_UNUSED"

definition fits :: "rt_rbb \<Rightarrow> nat \<Rightarrow> bool" where
  "fits r i \<longleftrightarrow> unat (rbb_buf r) \<le> fst (blk_interval r i) \<and> fst (blk_interval r i) < snd (blk_interval r i) \<and>
     snd (blk_interval r i) \<le> unat (rbb_buf r) + unat (rbb_buf_size r)"

definition rbb_ok :: "rt_rbb \<Rightarrow> bool" where
  "rbb_ok r \<longleftrightarrow> unat (rbb_buf r) + unat (rbb_buf_size r) < 2 ^ 32 \<and> distinct (blk_list r) \<and> (\<forall>i. i \<in> set (blk_list r) \<longleftrightarrow> in_use r i) \<and>
     (\<forall>i \<in> set (blk_list r). fits r i) \<and> ring_order (map (blk_interval r) (blk_list r))"

lemma upd_blk_simps [simp]:
  "rbb_buf (upd_blk i f r) = rbb_buf r" "rbb_buf_size (upd_blk i f r) = rbb_buf_size r" "blk_list (upd_blk i f r) = blk_list r"
  "blk_max_num (upd_blk i f r) = blk_max_num r"
  "blk_max_num (r\<lparr>blk_list := l\<rparr>) = blk_max_num r"
  by (simp_all add: upd_blk_def blk_max_num_def)

lemma upd_blk_nth [simp]: "blk_set (upd_blk i f r) ! j = (if i = j \<and> i < blk_max_num r then f (blk_set r ! i) else blk_set r ! j)"
  by (cases "i = j"; cases "i < length (blk_set r)") (simp_all add: upd_blk_def blk_max_num_def list_update_beyond)

lemma blk_end_nat: "unat (blk_buf b) + unat (blk_size b) < 2 ^ 32 \<Longrightarrow> unat (blk_end b) = unat (blk_buf b) + unat (blk_size b)"
  by (simp add: blk_end_def unat_word_ariths unsigned_ucast_eq take_bit_nat_eq_self)

lemma status_keeps_ok:
  assumes "rbb_ok r" "in_use r i" "st \<noteq> RT_RBB_BLK_UNUSED"
  shows "rbb_ok (upd_blk i (\<lambda>b. b\<lparr>blk_status := st\<rparr>) r)"
proof -
  let ?r = "upd_blk i (\<lambda>b. b\<lparr>blk_status := st\<rparr>) r"
  have "blk_interval ?r = blk_interval r" "in_use ?r = in_use r"
    using assms(2,3) by (auto simp: blk_interval_def in_use_def Let_def fun_eq_iff)
  then show ?thesis
    using assms(1) by (simp add: rbb_ok_def fits_def)
qed

lemma free_keeps_ok:
  assumes "rbb_ok r" "rt_rbb_blk_free i r = Some r'"
  shows "rbb_ok r'"
proof -
  have i: "in_use r i" and r': "r' = upd_blk i (\<lambda>b. b\<lparr>blk_status := RT_RBB_BLK_UNUSED\<rparr>) (r\<lparr>blk_list := remove1 i (blk_list r)\<rparr>)"
    using assms(2) by (auto simp: rt_rbb_blk_free_def in_use_def split: if_splits)
  have "i \<in> set (blk_list r)"
    using assms(1) i by (simp add: rbb_ok_def)
  then obtain us ws where l: "blk_list r = us @ i # ws" "i \<notin> set us"
    by (meson split_list_first)
  have l': "blk_list r' = us @ ws"
    using l by (simp add: r' remove1_append)
  have iv: "blk_interval r' = blk_interval r" "rbb_buf r' = rbb_buf r" "rbb_buf_size r' = rbb_buf_size r"
    by (auto simp: r' blk_interval_def Let_def fun_eq_iff)
  have "in_use r' j \<longleftrightarrow> in_use r j \<and> j \<noteq> i" for j
    using i by (auto simp: r' in_use_def)
  moreover have "ring_order (map (blk_interval r) (us @ ws))"
    using assms(1) ring_order_drop [of "map (blk_interval r) us" "blk_interval r i" "map (blk_interval r) ws"] by (simp add: rbb_ok_def l(1))
  ultimately show ?thesis
    using assms(1) unfolding rbb_ok_def by (auto simp: l l' iv fits_def)
qed

lemma place_keeps_ok:
  assumes "rbb_ok r" "i < blk_max_num r" "\<not> in_use r i" "0 < sz" "sz < 2 ^ 24"
    and "rbb_buf r \<le> buf" "unat buf + unat sz \<le> unat (rbb_buf r) + unat (rbb_buf_size r)"
    and "ring_order (map (blk_interval r) (blk_list r) @ [(unat buf, unat buf + unat sz)])"
  shows "rbb_ok (place_blk i buf sz r)"
proof -
  let ?r = "place_blk i buf sz r"
  have sz: "unat (ucast sz :: 24 word) = unat sz"
    using assms(5) by (simp add: unsigned_ucast_eq take_bit_nat_eq_self word_less_nat_alt)
  have i: "i \<notin> set (blk_list r)"
    using assms(1,3) by (simp add: rbb_ok_def)
  have iv: "blk_interval ?r j = (if j = i then (unat buf, unat buf + unat sz) else blk_interval r j)" for j
    using assms(2) sz by (auto simp: place_blk_def blk_interval_def Let_def)
  have same: "rbb_buf ?r = rbb_buf r" "rbb_buf_size ?r = rbb_buf_size r" "blk_list ?r = blk_list r @ [i]"
    by (simp_all add: place_blk_def)
  have "in_use ?r j \<longleftrightarrow> j = i \<or> in_use r j" for j
    using assms(2) by (auto simp: place_blk_def in_use_def)
  moreover have "ring_order (map (blk_interval ?r) (blk_list ?r))"
  proof -
    have "map (blk_interval ?r) (blk_list ?r) = map (blk_interval r) (blk_list r) @ [(unat buf, unat buf + unat sz)]"
      using i by (auto simp: iv same)
    then show ?thesis
      using assms(8) by (simp only:)
  qed
  moreover have "\<forall>j \<in> set (blk_list ?r). fits ?r j"
    using assms(1,4,6,7) by (auto simp: rbb_ok_def fits_def iv same word_less_nat_alt word_le_nat_alt)
  moreover have "distinct (blk_list ?r)"
    using assms(1) i by (simp add: rbb_ok_def same)
  ultimately show ?thesis
    using assms(1) unfolding rbb_ok_def by (auto simp: same(1,2)) (simp_all add: same)
qed

text \<open>Every block on the list, in numbers; \<open>head\<close> and \<open>tail\<close> are its ends.\<close>

lemma blk_nat:
  assumes "rbb_ok r" "i \<in> set (blk_list r)"
  shows "unat (blk_buf (blk_set r ! i)) = fst (blk_interval r i)" "unat (blk_end (blk_set r ! i)) = snd (blk_interval r i)"
    "unat (rbb_buf r) \<le> fst (blk_interval r i)" "fst (blk_interval r i) < snd (blk_interval r i)"
    "snd (blk_interval r i) \<le> unat (rbb_buf r) + unat (rbb_buf_size r)"
proof -
  have f: "fits r i" "unat (rbb_buf r) + unat (rbb_buf_size r) < 2 ^ 32"
    using assms by (simp_all add: rbb_ok_def)
  then show "unat (blk_buf (blk_set r ! i)) = fst (blk_interval r i)" "unat (rbb_buf r) \<le> fst (blk_interval r i)"
    "fst (blk_interval r i) < snd (blk_interval r i)" "snd (blk_interval r i) \<le> unat (rbb_buf r) + unat (rbb_buf_size r)"
    by (simp_all add: fits_def blk_interval_def Let_def)
  then show "unat (blk_end (blk_set r ! i)) = snd (blk_interval r i)"
    using f(2) blk_end_nat [of "blk_set r ! i"] by (simp add: blk_interval_def Let_def)
qed

lemma find_empty_law: "find_empty_blk_in_set r = Some i \<Longrightarrow> i < blk_max_num r \<and> \<not> in_use r i"
  by (auto simp: find_empty_blk_in_set_def find_Some_iff in_use_def)

lemma alloc_keeps_ok:
  assumes ok: "rbb_ok r" and sz: "0 < sz" "sz \<le> rbb_buf_size r" and al: "rt_rbb_blk_alloc sz r = Some (b, r')"
  shows "rbb_ok r'"
proof (cases "r' = r")
  case False
  have sz24: "sz < 2 ^ 24"
    using al by (auto simp: rt_rbb_blk_alloc_def split: if_splits)
  obtain i where i: "find_empty_blk_in_set r = Some i"
    using al False by (auto simp: rt_rbb_blk_alloc_def split: if_splits option.splits)
  let ?l = "blk_list r" let ?iv = "map (blk_interval r) ?l"
  let ?h = "blk_set r ! hd ?l" let ?t = "blk_set r ! last ?l"
  have ring: "ring_order ?iv" "unat (rbb_buf r) + unat (rbb_buf_size r) < 2 ^ 32" and pos: "\<forall>z \<in> set ?iv. fst z < snd z"
    using ok by (auto simp: rbb_ok_def fits_def)
  have e: "unat (rbb_buf r + rbb_buf_size r) = unat (rbb_buf r) + unat (rbb_buf_size r)"
    using ring(2) by (simp add: unat_word_ariths)
  note place = place_keeps_ok [OF ok _ _ sz(1) sz24] find_empty_law [OF i]
  show ?thesis
  proof (cases "?l = []")
    case True
    then have "r' = place_blk i (rbb_buf r) sz r"
      using al i False by (auto simp: rt_rbb_blk_alloc_def split: if_splits)
    then show ?thesis
      using place sz(2) True by (simp add: ascending_ring ascending_def word_le_nat_alt)
  next
    case ne: False
    then have ht: "hd ?l \<in> set ?l" "last ?l \<in> set ?l" and iv: "hd ?iv = blk_interval r (hd ?l)" "last ?iv = blk_interval r (last ?l)"
      by (simp_all add: hd_map last_map)
    note h = blk_nat [OF ok ht(1)] and t = blk_nat [OF ok ht(2)]
    consider (after) "r' = place_blk i (blk_end ?t) sz r" "blk_buf ?h \<le> blk_buf ?t" "(rbb_buf r + rbb_buf_size r) - blk_end ?t \<ge> sz"
      | (before) "r' = place_blk i (rbb_buf r) sz r" "blk_buf ?h \<le> blk_buf ?t" "blk_buf ?h - rbb_buf r \<ge> sz"
      | (between) "r' = place_blk i (blk_end ?t) sz r" "blk_buf ?t < blk_buf ?h" "blk_buf ?h - blk_end ?t \<ge> sz"
      using al i False ne by (auto simp: rt_rbb_blk_alloc_def Let_def not_le split: if_splits)
    then show ?thesis
    proof cases
      case after
      have "unat (blk_end ?t) + unat sz \<le> unat (rbb_buf r) + unat (rbb_buf_size r)"
        using after(3) t(2,5) e by (simp add: word_le_nat_alt unat_sub)
      moreover have "ascending ?iv"
        using ring_not_wrapped [OF ring(1) _ pos] after(2) ne h(1) t(1) by (simp add: iv word_le_nat_alt)
      then have "ring_order (?iv @ [(unat (blk_end ?t), unat (blk_end ?t) + unat sz)])"
        using ascending_snoc [OF _ pos] ne t(2) by (intro ascending_ring) (simp add: iv)
      ultimately show ?thesis
        using place t unfolding after(1) by (simp add: word_le_nat_alt)
    next
      case before
      have le: "unat (rbb_buf r) + unat sz \<le> fst (blk_interval r (hd ?l))"
        using before(3) h(1,3) by (simp add: word_le_nat_alt unat_sub)
      have "ascending ?iv"
        using ring_not_wrapped [OF ring(1) _ pos] before(2) ne h(1) t(1) by (simp add: iv word_le_nat_alt)
      moreover have "unat (rbb_buf r) + unat sz \<le> fst x" if "x \<in> set ?iv" for x
        using ascending_first [OF calculation pos that] le by (simp add: iv ne)
      ultimately have "ring_order (?iv @ [(unat (rbb_buf r), unat (rbb_buf r) + unat sz)])"
        using ring_orderI [of ?iv "[(unat (rbb_buf r), unat (rbb_buf r) + unat sz)]"] by (simp add: ascending_def)
      then show ?thesis
        using place sz(2) unfolding before(1) by (simp add: word_le_nat_alt)
    next
      case between
      note wrapped = ring_wrapped [OF ring(1) _ pos]
      have lt: "fst (last ?iv) < fst (hd ?iv)"
        using between(2) h(1) t(1) by (simp add: iv word_less_nat_alt)
      then have "snd (blk_interval r (last ?l)) \<le> fst (blk_interval r (hd ?l))"
        using wrapped(1) ne by (simp add: iv)
      then have le: "unat (blk_end ?t) + unat sz \<le> fst (blk_interval r (hd ?l))"
        using between(3) h(1) t(2) by (simp add: word_le_nat_alt unat_sub)
      then have "ring_order (?iv @ [(unat (blk_end ?t), unat (blk_end ?t) + unat sz)])"
        using wrapped(2) lt ne t(2) by (simp add: iv)
      then show ?thesis
        using place le h(4,5) t(2-4) unfolding between(1) by (simp add: word_le_nat_alt)
    qed
  qed
qed (use ok in simp)

lemma rbb_init_ok: "unat buf + unat sz < 2 ^ 32 \<Longrightarrow> rbb_ok (rt_rbb_init buf sz bs)"
  by (auto simp: rbb_ok_def rt_rbb_init_def in_use_def blk_max_num_def ring_order_def ascending_def)

text \<open>A user asks for blocks of at least one byte that are not larger than the buffer.\<close>

inductive rbb_step :: "rt_rbb \<Rightarrow> rt_rbb \<Rightarrow> bool" where
  rbb_alloc: "0 < sz \<Longrightarrow> sz \<le> rbb_buf_size r \<Longrightarrow> rt_rbb_blk_alloc sz r = Some (b, r') \<Longrightarrow> rbb_step r r'"
| rbb_put: "rt_rbb_blk_put i r = Some r' \<Longrightarrow> rbb_step r r'"
| rbb_get: "rt_rbb_blk_get r = (b, r') \<Longrightarrow> rbb_step r r'"
| rbb_free: "rt_rbb_blk_free i r = Some r' \<Longrightarrow> rbb_step r r'"

lemma rbb_step_ok: "rbb_step r r' \<Longrightarrow> rbb_ok r \<Longrightarrow> rbb_ok r'"
proof (induction rule: rbb_step.induct)
  case (rbb_alloc sz r b r')
  then show ?case
    using alloc_keeps_ok by blast
next
  case (rbb_put i r r')
  then show ?case
    by (auto simp: rt_rbb_blk_put_def in_use_def intro!: status_keeps_ok split: if_splits)
next
  case (rbb_get r b r')
  have "in_use r i" if "find (\<lambda>i. blk_status (blk_set r ! i) = RT_RBB_BLK_PUT) (blk_list r) = Some i" for i
    using that rbb_get.prems nth_mem by (fastforce simp: rbb_ok_def find_Some_iff)
  then show ?case
    using rbb_get by (auto simp: rt_rbb_blk_get_def intro!: status_keeps_ok split: option.splits)
next
  case (rbb_free i r r')
  then show ?case
    using free_keeps_ok by blast
qed

lemma blks_apart:
  assumes "rbb_ok r" "in_use r i" "in_use r j" "i \<noteq> j"
  shows "blk_bytes r i \<inter> blk_bytes r j = {}"
proof -
  have "i \<in> set (blk_list r)" "j \<in> set (blk_list r)"
    using assms(1-3) by (simp_all add: rbb_ok_def)
  then obtain m n where m: "m < length (blk_list r)" "n < length (blk_list r)" "blk_list r ! m = i" "blk_list r ! n = j"
    by (metis in_set_conv_nth)
  have "sorted_wrt (\<lambda>a b. snd a \<le> fst b \<or> snd b \<le> fst a) (map (blk_interval r) (blk_list r))"
    using assms(1) ring_order_apart by (simp add: rbb_ok_def)
  then have "snd (blk_interval r i) \<le> fst (blk_interval r j) \<or> snd (blk_interval r j) \<le> fst (blk_interval r i)"
    using m assms(4) sorted_wrt_nth_less [of _ "map (blk_interval r) (blk_list r)" m n] sorted_wrt_nth_less [of _ "map (blk_interval r) (blk_list r)" n m]
    by (cases m n rule: linorder_cases) auto
  then show ?thesis
    by (auto simp: blk_bytes_def)
qed

text \<open>A block stays where it is as long as it is in use.\<close>

lemma block_stays: "rbb_step r r' \<Longrightarrow> in_use r i \<Longrightarrow> blk_interval r' i = blk_interval r i"
proof (induction rule: rbb_step.induct)
  case (rbb_alloc sz r b r')
  then have "r' = r \<or> (\<exists>k a. \<not> in_use r k \<and> r' = place_blk k a sz r)"
    using find_empty_law [of r] by (fastforce simp: rt_rbb_blk_alloc_def Let_def split: if_splits option.splits)
  then show ?case
    using rbb_alloc.prems by (auto simp: place_blk_def blk_interval_def Let_def)
next
  case (rbb_put k r r')
  then show ?case
    by (auto simp: rt_rbb_blk_put_def blk_interval_def Let_def split: if_splits)
next
  case (rbb_get r b r')
  then show ?case
    by (auto simp: rt_rbb_blk_get_def blk_interval_def Let_def split: option.splits)
next
  case (rbb_free k r r')
  then show ?case
    by (auto simp: rt_rbb_blk_free_def blk_interval_def Let_def split: if_splits)
qed

text \<open>C30: in a ring whose buffer ends within the address space, from which blocks are allocated with a size of at least one
  byte and at most the whole buffer, and are put, got and freed in any order, the bytes of every block in use lie inside the
  buffer and belong to no other block in use.  The code does not check the size: \<open>alloc_over_buffer\<close> and
  \<open>empty_block_breaks_ring\<close> below are what happens with a larger one and with zero.\<close>

theorem ring_blocks_disjoint:
  assumes "rbb_step\<^sup>*\<^sup>* (rt_rbb_init buf sz bs) r" "unat buf + unat sz < 2 ^ 32" "in_use r i"
  shows "blk_bytes r i \<noteq> {} \<and> blk_bytes r i \<subseteq> buf_bytes r \<and> (\<forall>j. in_use r j \<and> j \<noteq> i \<longrightarrow> blk_bytes r i \<inter> blk_bytes r j = {})"
proof -
  have "rbb_ok r"
    using assms(1) rbb_init_ok [OF assms(2)] by (induction rule: rtranclp_induct) (auto intro: rbb_step_ok)
  moreover from this have "fits r i"
    using assms(3) by (simp add: rbb_ok_def)
  ultimately show ?thesis
    using blks_apart assms(3) by (auto simp: fits_def blk_bytes_def buf_bytes_def)
qed

definition demo_rbb :: rt_rbb where
  "demo_rbb = rt_rbb_init 0x20001000 100 (replicate 3 \<lparr>blk_status = RT_RBB_BLK_GET, blk_size = 0, blk_buf = 0\<rparr>)"

definition demo_alloc :: "u32 \<Rightarrow> rt_rbb \<Rightarrow> rt_rbb" where
  "demo_alloc sz r = snd (the (rt_rbb_blk_alloc sz r))"

text \<open>Three blocks, the first freed, and a fourth that goes round the end.\<close>

definition demo_ring :: rt_rbb where
  "demo_ring = demo_alloc 30 (the (rt_rbb_blk_free 0 (demo_alloc 20 (demo_alloc 40 (demo_alloc 30 demo_rbb)))))"

theorem ring_blocks_disjoint_witness:
  "blk_list demo_ring = [1, 2, 0] \<and> map blk_buf (blk_set demo_ring) = [0x20001000, 0x2000101E, 0x20001046] \<and>
   blk_bytes demo_ring 0 \<inter> blk_bytes demo_ring 1 = {}"
proof -
  have al: "rbb_step r (demo_alloc k r)" if k: "0 < k" "k \<le> rbb_buf_size r" "k < 2 ^ 24" for k r
  proof -
    obtain b r' where "rt_rbb_blk_alloc k r = Some (b, r')"
      using k(3) by (cases "rt_rbb_blk_alloc k r") (auto simp: rt_rbb_blk_alloc_def)
    with rbb_alloc [OF k(1,2) this] show ?thesis
      by (simp add: demo_alloc_def)
  qed
  define r1 where "r1 = demo_alloc 20 (demo_alloc 40 (demo_alloc 30 demo_rbb))"
  have v: "rt_rbb_blk_free 0 r1 \<noteq> None \<and> rbb_buf_size (the (rt_rbb_blk_free 0 r1)) = 100 \<and> rbb_buf_size (demo_alloc 40 (demo_alloc 30 demo_rbb)) = 100 \<and>
      rbb_buf_size (demo_alloc 30 demo_rbb) = 100 \<and> rbb_buf_size demo_rbb = 100"
    unfolding r1_def by code_simp
  have "rbb_step demo_rbb (demo_alloc 30 demo_rbb)" "rbb_step (demo_alloc 30 demo_rbb) (demo_alloc 40 (demo_alloc 30 demo_rbb))"
    "rbb_step (demo_alloc 40 (demo_alloc 30 demo_rbb)) r1" "rbb_step r1 (the (rt_rbb_blk_free 0 r1))" "rbb_step (the (rt_rbb_blk_free 0 r1)) demo_ring"
    using v al unfolding r1_def demo_ring_def by (auto intro: rbb_free)
  then have run: "rbb_step\<^sup>*\<^sup>* demo_rbb demo_ring"
    by (meson converse_rtranclp_into_rtranclp r_into_rtranclp)
  have u: "in_use demo_ring 0" "in_use demo_ring 1" "blk_list demo_ring = [1, 2, 0]"
    "map blk_buf (blk_set demo_ring) = [0x20001000, 0x2000101E, 0x20001046]"
    by code_simp+
  from ring_blocks_disjoint [OF run [unfolded demo_rbb_def] _ u(1)] u show ?thesis
    by simp
qed

section \<open>Block queues\<close>

lemma take_blk_nth: "j \<noteq> i \<Longrightarrow> blk_set (take_blk i r) ! j = blk_set r ! j" "blk_buf (blk_set (take_blk i r) ! j) = blk_buf (blk_set r ! j)"
  by (simp_all add: take_blk_def)

lemma queue_get_loop_next:
  assumes "distinct js" "\<And>j. j \<in> set js \<Longrightarrow> blk_set r' ! j = blk_set r ! j" "\<And>l. last_block = Some l \<Longrightarrow> blk_buf (blk_set r' ! l) = blk_buf (blk_set r ! l)"
  shows "fst (queue_get_loop (- 1) js last_block n q r') = next_queue_loop js last_block n r"
  using assms
proof (induction js arbitrary: last_block n q r')
  case (Cons i js)
  have eq: "blk_set r' ! i = blk_set r ! i"
    using Cons.prems(2) by simp
  have others: "blk_set (take_blk i r') ! j = blk_set r ! j" if "j \<in> set js" for j
    using that Cons.prems(1,2) take_blk_nth(1) [of j i r'] by auto
  have "fst (queue_get_loop (- 1) js (Some i) m q' (take_blk i r')) = next_queue_loop js (Some i) m r" for m q'
    using Cons.prems(1) eq by (intro Cons.IH) (auto simp: take_blk_nth(2) others)
  moreover have "fst (queue_get_loop (- 1) js None m q' r') = next_queue_loop js None m r" for m q'
    using Cons.prems(1,2) by (intro Cons.IH) auto
  ultimately show ?case
    using Cons.prems(3) eq by (cases last_block) (auto simp: not_less)
qed simp

text \<open>The length announced for the next queue is what is got when there is no limit.\<close>

theorem next_queue_len_got:
  "distinct (blk_list r) \<Longrightarrow> fst (rt_rbb_blk_queue_get (- 1) q r) = rt_rbb_next_blk_queue_len r"
  by (simp add: rt_rbb_blk_queue_get_def rt_rbb_next_blk_queue_len_def queue_get_loop_next)

text \<open>Blocks got in a queue leave the list although they are still in use, and the next block may be allocated over
  them.\<close>

definition demo_put :: "nat \<Rightarrow> rt_rbb \<Rightarrow> rt_rbb" where
  "demo_put i r = the (rt_rbb_blk_put i r)"

definition demo_queue :: rt_rbb_blk_queue where
  "demo_queue = \<lparr>q_blocks = 0, q_blk_num = 0\<rparr>"

lemma queue_blocks_overlap:
  "let (n, q, r) = rt_rbb_blk_queue_get 100 demo_queue (demo_put 0 (demo_alloc 60 demo_rbb)); r1 = demo_alloc 60 r in
   n = 60 \<and> q_blocks q = 0 \<and> in_use r1 0 \<and> in_use r1 1 \<and> blk_buf (blk_set r1 ! 0) = blk_buf (blk_set r1 ! 1)"
  by code_simp

text \<open>The blocks of a queue need not be neighbours in \<open>blk_set\<close>: here the blocks 1, 2 and 0 are got, and the length of
  the queue is read from block 1 and two more, the last of them outside the set.\<close>

lemma queue_len_leaves_set:
  "let r = demo_put 0 (demo_put 1 (demo_put 2 (demo_alloc 10 (the (rt_rbb_blk_free 0 (demo_alloc 10 (demo_alloc 10 (demo_alloc 10 demo_rbb))))))));
       (n, q, r1) = rt_rbb_blk_queue_get 100 demo_queue r in
   n = 30 \<and> q_blocks q = 1 \<and> q_blk_num q = 3 \<and> rt_rbb_blk_queue_len q r1 = None \<and> rt_rbb_blk_queue_free q r1 = None"
  by code_simp

text \<open>The limit is not applied to the first block, and the first block may be larger than the buffer.\<close>

lemma queue_get_over_limit:
  "fst (rt_rbb_blk_queue_get 10 demo_queue (demo_put 0 (demo_alloc 60 demo_rbb))) = 60"
  by code_simp

lemma alloc_over_buffer:
  "rbb_buf_size demo_rbb = 100 \<and> fst (the (rt_rbb_blk_alloc 1000 demo_rbb)) = Some 0 \<and> blk_size (blk_set (demo_alloc 1000 demo_rbb) ! 0) = 1000"
  by code_simp

text \<open>An empty block between the ends of a full ring hides that the ring has wrapped: the next block is allocated over
  the first one.\<close>

definition demo_rbb5 :: rt_rbb where
  "demo_rbb5 = rt_rbb_init 0x20001000 100 (replicate 5 \<lparr>blk_status = RT_RBB_BLK_GET, blk_size = 0, blk_buf = 0\<rparr>)"

lemma empty_block_breaks_ring:
  "let r = demo_alloc 30 (the (rt_rbb_blk_free 0 (demo_alloc 40 (demo_alloc 30 (demo_alloc 30 demo_rbb5))))); r1 = demo_alloc 40 (demo_alloc 0 r) in
   blk_list r1 = [1, 2, 0, 3, 4] \<and> blk_buf (blk_set r1 ! 4) = blk_buf (blk_set r1 ! 1) \<and> in_use r1 4 \<and> in_use r1 1"
  by code_simp

text \<open>Whatever of the three allocations succeeds, the memory that was got is given back when the creation fails or the
  buffer is destroyed.\<close>

lemma create_gives_back:
  assumes "rt_rbb_create a b (map_option (\<lambda>p. (p, bs)) c) sz = (fr, x)"
  shows "case x of None \<Rightarrow> a = None \<and> fr = [] \<or> b = None \<and> set fr = set_option a \<or> c = None \<and> set fr = set_option a \<union> set_option b
    | Some y \<Rightarrow> fr = [] \<and> set (rt_rbb_destroy y) = set_option a \<union> set_option b \<union> set_option c"
  using assms by (auto simp: rt_rbb_create_def rt_rbb_destroy_def rt_rbb_init_def split: option.splits)

end
