(* ===== verification/Thread_Life.thy ===== *)
theory Thread_Life
  imports Ipc
begin

text \<open>
  The life of threads: creation, exit, deletion (\<^verbatim>\<open>rt-thread/src/thread.c\<close>), the idle thread that frees what
  dead threads leave (\<^verbatim>\<open>rt-thread/src/idle.c\<close>), and delays until a tick.
\<close>

section \<open>State\<close>

text \<open>\<open>heap_threads\<close> gives the threads whose structure and stack come from the heap, with the address of the stack;
  every other thread is a static object.  The calls of clean-up functions and what is given back are a trace.\<close>

datatype life_event = Cleanup nat | Free_Stack nat | Delete_Object nat | Detach_Object nat

text \<open>\<open>rt_thread_detach\<close> and \<open>rt_thread_delete\<close> enable interrupts between their parts: \<open>closing\<close> has the threads that are being closed, with
  the thread that does it and how far it has come.\<close>

datatype close_pc = Checked | Unlinked | Cleaned | Released

record life_sys =
  life_kern :: sched
  rt_thread_defunct :: "nat list"
  heap_threads :: "nat \<Rightarrow> nat option"
  cleanup :: "nat \<Rightarrow> bool"
  closing :: "nat \<Rightarrow> (nat option \<times> close_pc) option"
  life_trace :: "life_event list"

definition noted :: "life_event list \<Rightarrow> life_sys \<Rightarrow> life_sys" where
  "noted es s = s\<lparr>life_trace := life_trace s @ es\<rparr>"

section \<open>Operations\<close>

definition thread_cleanup_execute :: "nat \<Rightarrow> life_sys \<Rightarrow> life_sys" where
  "thread_cleanup_execute t s = (if cleanup s t then noted [Cleanup t] s else s)"

definition thread_timer_detach :: "nat \<Rightarrow> sched \<Rightarrow> sched option" where
  "thread_timer_detach t k = map_option (\<lambda>(r, ts). k\<lparr>tmr := ts\<rparr>) (rt_timer_detach t (tmr k))"

definition retire :: "nat \<Rightarrow> life_sys \<Rightarrow> life_sys" where
  "retire t s = (if heap_threads s t = None then noted [Detach_Object t] s
                 else s\<lparr>rt_thread_defunct := t # rt_thread_defunct s\<rparr>)"

definition rt_thread_exit :: "life_sys \<Rightarrow> life_sys option" where
  "rt_thread_exit s =
     do { t \<leftarrow> rt_current_thread (life_kern s);
          let s1 = thread_cleanup_execute t s;
          k1 \<leftarrow> thread_timer_detach t (set_stat RT_THREAD_CLOSE t (rt_schedule_remove_thread t (life_kern s1)));
          let s2 = retire t (s1\<lparr>life_kern := k1\<rparr>);
          k2 \<leftarrow> rt_schedule (life_kern s2);
          Some (s2\<lparr>life_kern := k2\<rparr>) }"

definition rt_thread_init :: "nat \<Rightarrow> u8 \<Rightarrow> u32 \<Rightarrow> life_sys \<Rightarrow> life_sys option" where
  "rt_thread_init t prio tick s =
     do { k \<leftarrow> rt_thread_init_fields t prio tick (life_kern s);
          Some (s\<lparr>life_kern := k, cleanup := (cleanup s)(t := False)\<rparr>) }"

text \<open>\<open>obj\<close> and \<open>stk\<close> are what the object allocator and the heap give.\<close>

definition rt_thread_create :: "nat option \<Rightarrow> nat option \<Rightarrow> u8 \<Rightarrow> u32 \<Rightarrow> life_sys \<Rightarrow> (nat option \<times> life_sys) option" where
  "rt_thread_create obj stk prio tick s =
     (case obj of None \<Rightarrow> Some (None, s)
      | Some t \<Rightarrow> (case stk of None \<Rightarrow> Some (None, s)
                   | Some a \<Rightarrow> do { s1 \<leftarrow> rt_thread_init t prio tick s;
                                    Some (Some t, s1\<lparr>heap_threads := (heap_threads s1)(t \<mapsto> a)\<rparr>) }))"

definition unlink :: "nat \<Rightarrow> sched \<Rightarrow> sched" where
  "unlink t k = (if stat (threads k t) \<noteq> RT_THREAD_INIT then rt_schedule_remove_thread t k else k)"

definition moved :: "nat \<Rightarrow> close_pc \<Rightarrow> life_sys \<Rightarrow> life_sys" where
  "moved t pc s = s\<lparr>closing := (closing s)(t := map_option (\<lambda>(c, _). (c, pc)) (closing s t))\<rparr>"

text \<open>The parts of \<open>rt_thread_detach\<close> (\<open>dynamic\<close> false) and \<open>rt_thread_delete\<close>: the checks, which may already give the result; the removal
  from the queues; the clean-up function; the timer; and the end of the thread.\<close>

definition close_enter :: "bool \<Rightarrow> nat \<Rightarrow> life_sys \<Rightarrow> (rt_err_t option \<times> life_sys) option" where
  "close_enter dynamic t s =
     (if (heap_threads s t \<noteq> None) \<noteq> dynamic then None
      else if stat (threads (life_kern s) t) = RT_THREAD_CLOSE then Some (Some RT_EOK, s)
      else Some (None, s\<lparr>closing := (closing s)(t \<mapsto> (rt_current_thread (life_kern s), Checked))\<rparr>))"

definition close_unlink :: "nat \<Rightarrow> life_sys \<Rightarrow> life_sys" where
  "close_unlink t s = moved t Unlinked (s\<lparr>life_kern := unlink t (life_kern s)\<rparr>)"

definition close_cleanup :: "nat \<Rightarrow> life_sys \<Rightarrow> life_sys" where
  "close_cleanup t s = moved t Cleaned (thread_cleanup_execute t s)"

definition close_timer :: "nat \<Rightarrow> life_sys \<Rightarrow> life_sys option" where
  "close_timer t s = do { k \<leftarrow> thread_timer_detach t (life_kern s); Some (moved t Released (s\<lparr>life_kern := k\<rparr>)) }"

definition close_finish :: "nat \<Rightarrow> life_sys \<Rightarrow> life_sys" where
  "close_finish t s = retire t (s\<lparr>life_kern := set_stat RT_THREAD_CLOSE t (life_kern s), closing := (closing s)(t := None)\<rparr>)"

text \<open>A call that is not interrupted.\<close>

definition close_thread :: "bool \<Rightarrow> nat \<Rightarrow> life_sys \<Rightarrow> (rt_err_t \<times> life_sys) option" where
  "close_thread dynamic t s =
     do { (r, s1) \<leftarrow> close_enter dynamic t s;
          (case r of
             Some e \<Rightarrow> Some (e, s1)
           | None \<Rightarrow> do { s2 \<leftarrow> close_timer t (close_cleanup t (close_unlink t s1)); Some (RT_EOK, close_finish t s2) }) }"

definition rt_thread_detach :: "nat \<Rightarrow> life_sys \<Rightarrow> (rt_err_t \<times> life_sys) option" where
  "rt_thread_detach t s = close_thread False t s"

definition rt_thread_delete :: "nat \<Rightarrow> life_sys \<Rightarrow> (rt_err_t \<times> life_sys) option" where
  "rt_thread_delete t s = close_thread True t s"

datatype thread_ctrl = RT_THREAD_CTRL_CHANGE_PRIORITY u8 | RT_THREAD_CTRL_STARTUP | RT_THREAD_CTRL_CLOSE | RT_THREAD_CTRL_OTHER

definition rt_thread_control :: "nat \<Rightarrow> thread_ctrl \<Rightarrow> life_sys \<Rightarrow> (rt_err_t \<times> life_sys) option" where
  "rt_thread_control t cmd s =
     (case cmd of
        RT_THREAD_CTRL_CHANGE_PRIORITY p \<Rightarrow> Some (RT_EOK, s\<lparr>life_kern := change_priority t p (life_kern s)\<rparr>)
      | RT_THREAD_CTRL_STARTUP \<Rightarrow> do { (r, k) \<leftarrow> rt_thread_startup t (life_kern s); Some (r, s\<lparr>life_kern := k\<rparr>) }
      | RT_THREAD_CTRL_CLOSE \<Rightarrow> (if heap_threads s t = None then rt_thread_detach t s else rt_thread_delete t s)
      | RT_THREAD_CTRL_OTHER \<Rightarrow> Some (RT_EOK, s))"

text \<open>The loop of the idle thread over the dead threads.\<close>

function rt_thread_idle_excute :: "life_sys \<Rightarrow> life_sys option" where
  "rt_thread_idle_excute s =
     (case rt_thread_defunct s of [] \<Rightarrow> Some s
      | t # ts \<Rightarrow> (case heap_threads s t of None \<Rightarrow> None
                   | Some a \<Rightarrow> rt_thread_idle_excute
                       (noted [Free_Stack a, Delete_Object t] (s\<lparr>rt_thread_defunct := ts, heap_threads := (heap_threads s)(t := None)\<rparr>))))"
  by pat_completeness auto
termination
  by (relation "measure (\<lambda>s. length (rt_thread_defunct s))") (auto simp: noted_def)

declare rt_thread_idle_excute.simps [simp del]

definition rt_thread_delay_until :: "u32 \<Rightarrow> u32 \<Rightarrow> sched \<Rightarrow> (u32 option \<times> sched) option" where
  "rt_thread_delay_until tick inc k =
     do { t \<leftarrow> rt_current_thread k;
          if tick_now (tmr k) - tick < inc
          then do { (r, k1) \<leftarrow> rt_thread_suspend t k;
                    k2 \<leftarrow> thread_timer_start t (tick + inc - tick_now (tmr k)) k1;
                    k3 \<leftarrow> rt_schedule k2;
                    Some (None, k3) }
          else Some (Some (tick_now (tmr k)), k) }"

definition delay_until_resumed :: "nat \<Rightarrow> sched \<Rightarrow> u32 \<times> sched" where
  "delay_until_resumed t k = (tick_now (tmr k), snd (rt_thread_sleep_resumed t k))"

definition rt_thread_mdelay :: "int \<Rightarrow> sched \<Rightarrow> sched option" where
  "rt_thread_mdelay ms k = rt_thread_sleep (rt_tick_from_millisecond ms) k"

text \<open>The hooks of the idle thread, \<open>None\<close> being a free place.\<close>

fun rt_thread_idle_sethook :: "nat \<Rightarrow> nat option list \<Rightarrow> rt_err_t \<times> nat option list" where
  "rt_thread_idle_sethook h [] = (- RT_EFULL, [])"
| "rt_thread_idle_sethook h (None # hs) = (RT_EOK, Some h # hs)"
| "rt_thread_idle_sethook h (Some g # hs) = (let (r, hs') = rt_thread_idle_sethook h hs in (r, Some g # hs'))"

fun rt_thread_idle_delhook :: "nat \<Rightarrow> nat option list \<Rightarrow> rt_err_t \<times> nat option list" where
  "rt_thread_idle_delhook h [] = (- RT_ENOSYS, [])"
| "rt_thread_idle_delhook h (g # hs) =
     (if g = Some h then (RT_EOK, None # hs) else let (r, hs') = rt_thread_idle_delhook h hs in (r, g # hs'))"

section \<open>Closing keeps the kernel consistent\<close>

lemma clear_clear_bit: "\<not> bit g p \<Longrightarrow> g AND NOT (push_bit p 1) = (g :: u32)"
  by (rule bit_eqI) (auto simp: bit_and_iff bit_not_iff bit_exp_iff)

lemma remove_suspended:
  assumes "queues_ok {} k" "stat (threads k t) = RT_THREAD_SUSPEND"
  shows "rt_schedule_remove_thread t k = tlist_remove t k"
proof -
  have q: "queues_ok {t} (tlist_remove t k)"
    using tlist_remove_queues [OF assms(1), of t] assms(2) by simp
  have m: "number_mask (threads k t) = push_bit (priority k t) 1" "priority k t < 32"
    using queues_okD(4) [OF assms(1), of t] assms(2) by (simp_all add: priority_ok_def)
  then have "rt_thread_ready_priority_group k AND NOT (number_mask (threads k t)) = rt_thread_ready_priority_group k"
    if "rt_thread_priority_table (tlist_remove t k) (priority k t) = []"
    using queues_okD(3) [OF q m(2)] that clear_clear_bit by (simp del: push_bit_of_1)
  then show ?thesis
    by (simp add: rt_schedule_remove_thread_def Let_def)
qed

lemma unlink_queues:
  assumes "queues_ok {} k" "stat (threads k t) \<noteq> RT_THREAD_CLOSE"
  shows "queues_ok {t} (unlink t k)"
  using assms remove_thread_queues [OF assms(1), of t] queues_off [OF assms(1), of t] remove_suspended [OF assms(1), of t]
    tlist_remove_queues [OF assms(1), of t]
  by (cases "stat (threads k t)") (simp_all add: unlink_def)

lemma close_wf:
  assumes "sched_wf k" "stat (threads k t) \<noteq> RT_THREAD_CLOSE"
  shows "sched_wf (set_stat RT_THREAD_CLOSE t (unlink t k))"
proof -
  have "queues_ok {} (set_stat RT_THREAD_CLOSE t (unlink t k))"
    using assms unlink_queues [of k t] by (intro queues_on [of t] queues_upd) (simp_all add: sched_wf_def)
  moreover have "current_ok (set_stat RT_THREAD_CLOSE t (unlink t k))"
    using assms(1) by (auto simp: sched_wf_def current_ok_def unlink_def)
  ultimately show ?thesis
    by (simp add: sched_wf_def)
qed

lemma unlink_running_wf:
  assumes "sched_wf k" "stat (threads k t) = RT_THREAD_RUNNING"
  shows "sched_wf (unlink t k)"
proof -
  have q: "queues_ok {} k"
    using assms(1) by (simp add: sched_wf_def)
  have "queues_ok {} (unlink t k)"
    by (rule queues_on [OF unlink_queues [OF q]]) (use assms(2) queues_okD(4) [OF q, of t] in \<open>simp_all add: unlink_def\<close>)
  then show ?thesis
    using assms(1) by (simp add: sched_wf_def current_ok_def unlink_def)
qed

lemma close_running_wf:
  assumes "sched_wf k" "stat (threads k t) = RT_THREAD_RUNNING"
  shows "sched_wf (set_stat RT_THREAD_CLOSE t k)"
proof -
  have "queues_ok {} (set_stat RT_THREAD_CLOSE t k)"
    using assms by (intro queues_on [OF queues_upd [OF queues_off]]) (simp_all add: sched_wf_def)
  then show ?thesis
    using assms(1) by (auto simp: sched_wf_def current_ok_def)
qed

section \<open>The dead stay dead\<close>

lemma schedule_closed:
  assumes "sched_wf k" "rt_schedule k = Some k'" "stat (threads k t) = RT_THREAD_CLOSE"
  shows "threads k' t = threads k t" "rt_current_thread k' = Some t \<Longrightarrow> rt_current_thread k = Some t"
proof -
  have q: "queues_ok {} k"
    using assms(1) by (simp add: sched_wf_def)
  have "threads k' t = threads k t \<and> (rt_current_thread k' = Some t \<longrightarrow> rt_current_thread k = Some t)"
  proof (cases "rt_scheduler_lock_nest k \<noteq> 0 \<or> rt_thread_ready_priority_group k = 0")
    case True
    then show ?thesis
      using assms(2) by (auto simp: rt_schedule_def)
  next
    case False
    then obtain to where to: "get_highest_priority_thread k = Some (to, priority k to)" "stat (threads k to) = RT_THREAD_READY"
      using highest_thread [OF q] by blast
    obtain c where c: "rt_current_thread k = Some c"
      using assms(2) False to(1) by (auto simp: rt_schedule_def split: Option.bind_splits)
    have "stat (threads k c) \<noteq> RT_THREAD_READY"
      using current_okD(2) [of k c] assms(1) c by (simp add: sched_wf_def)
    then have ne: "t \<noteq> to" "stat (threads k c) = RT_THREAD_RUNNING \<Longrightarrow> t \<noteq> c" "to \<noteq> c"
      using to(2) assms(3) by auto
    show ?thesis
    proof (cases "stat (threads k c) = RT_THREAD_RUNNING")
      case True
      have i: "threads (rt_schedule_insert_thread c x) t = threads x t" "rt_current_thread (rt_schedule_insert_thread c x) = rt_current_thread x" for x
        using ne(2) [OF True] by (simp_all add: rt_schedule_insert_thread_def Let_def)
      show ?thesis
        using assms(2) False to(1) c True ne(1) ne(2) [OF True] ne(3)
        by (simp add: rt_schedule_def Let_def i split: if_splits) (auto simp: i)
    next
      case False': False
      have "k' = set_stat RT_THREAD_RUNNING to (rt_schedule_remove_thread to (k\<lparr>rt_current_priority := of_nat (priority k to), rt_current_thread := Some to\<rparr>))"
        using assms(2) False to(1) c False' ne(3) by (simp add: rt_schedule_def Let_def)
      then show ?thesis
        using ne(1) by simp
    qed
  qed
  then show "threads k' t = threads k t" "rt_current_thread k' = Some t \<Longrightarrow> rt_current_thread k = Some t"
    by blast+
qed

lemma schedule_closes_none: "rt_schedule k = Some k' \<Longrightarrow> stat (threads k' t) = RT_THREAD_CLOSE \<Longrightarrow> stat (threads k t) = RT_THREAD_CLOSE"
  by (auto simp: rt_schedule_def Let_def split: if_splits Option.bind_splits)

text \<open>No thread outside \<open>X\<close> comes back from the closed state, is closed, or is made the current thread when closed.\<close>

definition keeps_closed :: "nat set \<Rightarrow> sched \<Rightarrow> sched \<Rightarrow> bool" where
  "keeps_closed X k k' \<longleftrightarrow> (\<forall>t. t \<notin> X \<longrightarrow> (stat (threads k' t) = RT_THREAD_CLOSE \<longleftrightarrow> stat (threads k t) = RT_THREAD_CLOSE) \<and>
     (stat (threads k t) = RT_THREAD_CLOSE \<longrightarrow> rt_current_thread k' = Some t \<longrightarrow> rt_current_thread k = Some t))"

lemma keeps_closed_trans: "keeps_closed X k1 k2 \<Longrightarrow> keeps_closed X k2 k3 \<Longrightarrow> keeps_closed X k1 k3"
  unfolding keeps_closed_def by blast

lemma schedule_keeps_closed: "sched_wf k \<Longrightarrow> rt_schedule k = Some k' \<Longrightarrow> keeps_closed X k k'"
  using schedule_closed schedule_closes_none unfolding keeps_closed_def by metis

lemma upd_keeps_closed:
  "(\<forall>th. stat (f th) = stat th) \<or> stat (threads k u) \<noteq> RT_THREAD_CLOSE \<and> stat (f (threads k u)) \<noteq> RT_THREAD_CLOSE \<or> u \<in> X \<Longrightarrow> keeps_closed X k (thread_upd u f k)"
  by (auto simp: keeps_closed_def)

lemma resume_keeps_closed: "rt_thread_resume u k = Some (r, k') \<Longrightarrow> keeps_closed X k k'"
  by (auto simp: rt_thread_resume_def keeps_closed_def split: if_splits Option.bind_splits dest!: timer_stop_simps)

lemma suspend_keeps_closed: "rt_thread_suspend u k = Some (r, k') \<Longrightarrow> keeps_closed X k k'"
  by (auto simp: rt_thread_suspend_def keeps_closed_def split: if_splits Option.bind_splits dest!: timer_stop_simps)

lemma timer_keeps_closed: "thread_timer_start u n k = Some k' \<Longrightarrow> keeps_closed X k k'"
  by (auto simp: keeps_closed_def dest!: timer_stop_simps)

lemma priority_keeps_closed: "keeps_closed X k (change_priority u p k)"
  by (simp add: keeps_closed_def change_priority_def set_priority_def)

lemma startup_keeps_closed:
  assumes "sched_wf k" "unat (init_priority (threads k u)) < RT_THREAD_PRIORITY_MAX" "rt_thread_startup u k = Some (r, k')"
  shows "keeps_closed X k k'"
proof -
  have i: "stat (threads k u) = RT_THREAD_INIT"
    using assms(3) unfolding rt_thread_startup_def by (metis option.distinct(1))
  define k1 where "k1 = thread_upd u (\<lambda>th. th\<lparr>current_priority := init_priority th, number_mask := push_bit (unat (init_priority th)) 1, stat := RT_THREAD_SUSPEND\<rparr>) k"
  have w1: "sched_wf k1" and c1: "keeps_closed X k k1"
    unfolding k1_def using startup_resume_wf [OF assms(1) i assms(2)] i by (auto intro: upd_keeps_closed)
  obtain r2 k2 where k2: "rt_thread_resume u k1 = Some (r2, k2)" "(if rt_current_thread k2 \<noteq> None then rt_schedule k2 else Some k2) = Some k'"
    using assms(3) i unfolding rt_thread_startup_def k1_def [symmetric] Let_def by (simp split: Option.bind_splits prod.splits)
  have "keeps_closed X k2 k'"
    using k2(2) schedule_keeps_closed [OF resume_wf [OF w1 k2(1)]] by (cases "rt_current_thread k2 = None") (simp_all add: keeps_closed_def)
  then show ?thesis
    using keeps_closed_trans [OF keeps_closed_trans [OF c1 resume_keeps_closed [OF k2(1)]]] by blast
qed

lemma timeout_keeps_closed:
  assumes "sched_wf k" "rt_thread_timeout u k = Some k'"
  shows "keeps_closed X k k'"
proof -
  let ?k = "rt_schedule_insert_thread u (tlist_remove u (thread_upd u (\<lambda>th. th\<lparr>error := - RT_ETIMEOUT\<rparr>) k))"
  have s: "stat (threads k u) = RT_THREAD_SUSPEND" "rt_schedule ?k = Some k'"
    using assms(2) by (simp_all add: rt_thread_timeout_def split: if_splits)
  have "keeps_closed X k ?k"
    using s(1) by (auto simp: keeps_closed_def)
  then show ?thesis
    using keeps_closed_trans schedule_keeps_closed [OF timeout_wake_wf [OF assms(1) s(1)] s(2)] by blast
qed

lemma yield_keeps_closed: "sched_wf k \<Longrightarrow> rt_thread_yield k = Some k' \<Longrightarrow> keeps_closed X k k'"
  unfolding rt_thread_yield_def Option.bind_eq_Some_conv
  using keeps_closed_trans [OF upd_keeps_closed schedule_keeps_closed [OF yield_mark_wf]] by fastforce

lemma sleep_keeps_closed:
  assumes "sched_wf k" "rt_thread_sleep tick k = Some k'"
  shows "keeps_closed X k k'"
proof -
  obtain t r k1 k2 where k: "rt_thread_suspend t k = Some (r, k1)" "thread_timer_start t tick k1 = Some k2" "rt_schedule k2 = Some k'"
    using assms(2) by (auto simp: rt_thread_sleep_def split: Option.bind_splits)
  have "sched_wf k2"
    using suspend_wf [OF assms(1) k(1)] k(2) timer_stop_simps(2) by fastforce
  then show ?thesis
    using keeps_closed_trans [OF keeps_closed_trans [OF suspend_keeps_closed [OF k(1)] timer_keeps_closed [OF k(2)]]] schedule_keeps_closed [OF _ k(3)]
    by blast
qed

lemma slice_keeps_closed:
  assumes "sched_wf k" "tick_slice k = Some k'"
  shows "keeps_closed X k k'"
proof -
  obtain t where t: "rt_current_thread k = Some t"
    using assms(2) by (auto simp: tick_slice_def split: Option.bind_splits)
  define k1 where "k1 = thread_upd t (\<lambda>th. th\<lparr>thread_remaining_tick := thread_remaining_tick th - 1\<rparr>) k"
  define k2 where "k2 = thread_upd t (\<lambda>th. th\<lparr>thread_remaining_tick := thread_init_tick th, yield_flag := True\<rparr>) k1"
  have "sched_wf k1"
    unfolding k1_def using assms(1) by (rule wf_other_fields) simp_all
  then have w: "sched_wf k2"
    unfolding k2_def by (rule yield_mark_wf)
  have c: "keeps_closed X k k1" "keeps_closed X k1 k2"
    unfolding k1_def k2_def by (rule upd_keeps_closed; simp)+
  have "(if thread_remaining_tick (threads k1 t) = 0 then rt_schedule k2 else Some k1) = Some k'"
    using assms(2) t unfolding k2_def k1_def by (simp only: tick_slice_def bind.simps Let_def)
  then show ?thesis
    using c keeps_closed_trans schedule_keeps_closed [OF w] by (metis option.inject)
qed

lemma critical_keeps_closed: "keeps_closed X k (rt_enter_critical k)" "sched_wf k \<Longrightarrow> rt_exit_critical k = Some k' \<Longrightarrow> keeps_closed X k k'"
proof -
  show "keeps_closed X k (rt_enter_critical k)"
    by (simp add: keeps_closed_def rt_enter_critical_def)
  have "keeps_closed X k (k\<lparr>rt_scheduler_lock_nest := n\<rparr>)" for n
    by (simp add: keeps_closed_def)
  moreover have "keeps_closed X (k\<lparr>rt_scheduler_lock_nest := n\<rparr>) k'" if "sched_wf k" "rt_schedule (k\<lparr>rt_scheduler_lock_nest := n\<rparr>) = Some k'" for n
    using schedule_keeps_closed [OF _ that(2)] that(1) by (simp add: lock_wf)
  ultimately show "keeps_closed X k k'" if "sched_wf k" "rt_exit_critical k = Some k'"
    using that keeps_closed_trans by (fastforce simp: rt_exit_critical_def Let_def split: if_splits)
qed

fun inits :: "kernel_op \<Rightarrow> nat set" where
  "inits (Init t p tick) = {t}"
| "inits _ = {}"

lemma kernel_keeps_closed:
  assumes "sched_wf k" "op_ok op k" "kernel_step op k = Some k'"
  shows "keeps_closed (inits op) k k'"
  using assms
proof (cases op)
  case (Init t p tick)
  then show ?thesis
    using assms(3) by (auto simp: rt_thread_init_fields_def keeps_closed_def split: if_splits)
qed (auto intro: startup_keeps_closed resume_keeps_closed suspend_keeps_closed timeout_keeps_closed yield_keeps_closed sleep_keeps_closed
    priority_keeps_closed slice_keeps_closed critical_keeps_closed schedule_keeps_closed)

section \<open>Threads that nobody looks at\<close>

text \<open>The kernel with other contents in the structures of the threads of \<open>W\<close>.\<close>

definition put :: "nat set \<Rightarrow> (nat \<Rightarrow> rt_thread) \<Rightarrow> sched \<Rightarrow> sched" where
  "put W R k = k\<lparr>threads := override_on (threads k) R W\<rparr>"

definition away :: "nat set \<Rightarrow> sched \<Rightarrow> bool" where
  "away W k \<longleftrightarrow> (\<forall>t\<in>W. rt_current_thread k \<noteq> Some t \<and> (\<forall>p. t \<notin> set (rt_thread_priority_table k p)))"

lemma put_simps [simp]:
  "threads (put W R k) t = (if t \<in> W then R t else threads k t)" "rt_thread_priority_table (put W R k) = rt_thread_priority_table k"
  "rt_thread_ready_priority_group (put W R k) = rt_thread_ready_priority_group k" "rt_current_thread (put W R k) = rt_current_thread k"
  "rt_current_priority (put W R k) = rt_current_priority k" "rt_scheduler_lock_nest (put W R k) = rt_scheduler_lock_nest k"
  "waiting (put W R k) = waiting k" "tmr (put W R k) = tmr k"
  by (simp_all add: put_def override_on_def)

lemma put_fields [simp]:
  "(put W R k)\<lparr>rt_thread_priority_table := a\<rparr> = put W R (k\<lparr>rt_thread_priority_table := a\<rparr>)"
  "(put W R k)\<lparr>rt_thread_ready_priority_group := g\<rparr> = put W R (k\<lparr>rt_thread_ready_priority_group := g\<rparr>)"
  "(put W R k)\<lparr>rt_current_thread := c\<rparr> = put W R (k\<lparr>rt_current_thread := c\<rparr>)"
  "(put W R k)\<lparr>rt_current_priority := q\<rparr> = put W R (k\<lparr>rt_current_priority := q\<rparr>)"
  "(put W R k)\<lparr>rt_scheduler_lock_nest := n\<rparr> = put W R (k\<lparr>rt_scheduler_lock_nest := n\<rparr>)"
  "(put W R k)\<lparr>waiting := w\<rparr> = put W R (k\<lparr>waiting := w\<rparr>)" "(put W R k)\<lparr>tmr := m\<rparr> = put W R (k\<lparr>tmr := m\<rparr>)"
  by (simp_all add: put_def)

lemma put_self: "put W (threads k) k = k"
  by (simp add: put_def override_on_def)

lemma put_upd: "u \<notin> W \<Longrightarrow> thread_upd u f (put W R k) = put W R (thread_upd u f k)"
  by (simp add: put_def thread_upd_def override_on_def fun_eq_iff)

lemma put_remove: "tlist_remove u (put W R k) = put W R (tlist_remove u k)"
  "u \<notin> W \<Longrightarrow> rt_schedule_remove_thread u (put W R k) = put W R (rt_schedule_remove_thread u k)"
  "u \<notin> W \<Longrightarrow> rt_schedule_insert_thread u (put W R k) = put W R (rt_schedule_insert_thread u k)"
proof -
  show r: "tlist_remove u (put W R k) = put W R (tlist_remove u k)" for k
    by (simp add: tlist_remove_def)
  show "u \<notin> W \<Longrightarrow> rt_schedule_remove_thread u (put W R k) = put W R (rt_schedule_remove_thread u k)"
    by (simp add: rt_schedule_remove_thread_def r Let_def)
  show "u \<notin> W \<Longrightarrow> rt_schedule_insert_thread u (put W R k) = put W R (rt_schedule_insert_thread u k)"
    by (simp add: rt_schedule_insert_thread_def put_upd Let_def)
qed

lemmas put_ops = put_upd put_remove

lemma put_schedule:
  assumes "away W k"
  shows "rt_schedule (put W R k) = map_option (put W R) (rt_schedule k)"
proof -
  have "get_highest_priority_thread (put W R k) = get_highest_priority_thread k"
    by (simp add: get_highest_priority_thread_def Let_def)
  moreover have "to \<notin> W" if "get_highest_priority_thread k = Some (to, p)" for to p
    using that assms by (auto simp: get_highest_priority_thread_def away_def Let_def split: list.splits) (metis list.set_intros(1))
  moreover have "c \<notin> W" if "rt_current_thread k = Some c" for c
    using that assms by (auto simp: away_def)
  ultimately show ?thesis
    by (cases "get_highest_priority_thread k"; cases "rt_current_thread k") (auto simp: rt_schedule_def put_ops Let_def)
qed

lemma away_upd [simp]:
  "away W (thread_upd u f k) = away W k" "away W (k\<lparr>tmr := m\<rparr>) = away W k" "away W (k\<lparr>rt_scheduler_lock_nest := n\<rparr>) = away W k"
  by (simp_all add: away_def)

lemma away_remove: "away W k \<Longrightarrow> away W (tlist_remove u k)" "away W k \<Longrightarrow> away W (rt_schedule_remove_thread u k)"
  "away W k \<Longrightarrow> u \<notin> W \<Longrightarrow> away W (rt_schedule_insert_thread u k)"
  by (auto simp: away_def) (auto simp: rt_schedule_insert_thread_def Let_def split: if_splits)

lemma put_timer:
  "thread_timer_stop u (put W R k) = map_option (put W R) (thread_timer_stop u k)"
  "thread_timer_start u n (put W R k) = map_option (put W R) (thread_timer_start u n k)"
  by (auto simp: thread_timer_stop_def thread_timer_start_def option.map_comp comp_def case_prod_unfold split: Option.bind_splits)

lemma put_resume:
  "u \<notin> W \<Longrightarrow> rt_thread_resume u (put W R k) = map_option (map_prod id (put W R)) (rt_thread_resume u k)"
  by (auto simp: rt_thread_resume_def put_ops put_timer split: Option.bind_splits)

lemma put_suspend:
  "u \<notin> W \<Longrightarrow> rt_thread_suspend u (put W R k) = map_option (map_prod id (put W R)) (rt_thread_suspend u k)"
  by (auto simp: rt_thread_suspend_def put_ops put_timer split: Option.bind_splits)

lemma away_resume: "away W k \<Longrightarrow> u \<notin> W \<Longrightarrow> rt_thread_resume u k = Some (r, k') \<Longrightarrow> away W k'"
  by (auto simp: rt_thread_resume_def intro!: away_remove split: if_splits Option.bind_splits dest!: timer_stop_simps)

lemma away_suspend: "away W k \<Longrightarrow> u \<notin> W \<Longrightarrow> rt_thread_suspend u k = Some (r, k') \<Longrightarrow> away W k'"
  by (auto simp: rt_thread_suspend_def intro!: away_remove split: if_splits Option.bind_splits dest!: timer_stop_simps)

fun names :: "kernel_op \<Rightarrow> nat set" where
  "names (Init t p tick) = {t}"
| "names (Startup t) = {t}"
| "names (Resume t) = {t}"
| "names (Suspend_Thread t) = {t}"
| "names (Timeout t) = {t}"
| "names (Priority t p) = {t}"
| "names _ = {}"

lemma put_startup:
  assumes "away W k" "u \<notin> W"
  shows "rt_thread_startup u (put W R k) = map_option (map_prod id (put W R)) (rt_thread_startup u k)"
proof -
  let ?f = "\<lambda>th. th\<lparr>current_priority := init_priority th, number_mask := push_bit (unat (init_priority th)) 1, stat := RT_THREAD_SUSPEND\<rparr>"
  have "rt_schedule (put W R k2) = map_option (put W R) (rt_schedule k2)" if "rt_thread_resume u (thread_upd u ?f k) = Some (r, k2)" for r k2
    using that assms away_resume [OF _ assms(2) that] by (intro put_schedule) simp
  then show ?thesis
    using assms(2) by (cases "rt_thread_resume u (thread_upd u ?f k)")
      (auto simp: rt_thread_startup_def Let_def put_ops put_resume option.map_comp comp_def split: Option.bind_splits)
qed

lemma put_step:
  assumes "away W k" "names op \<inter> W = {}"
  shows "kernel_step op (put W R k) = map_option (put W R) (kernel_step op k)"
proof -
  have cur: "c \<notin> W" if "rt_current_thread k = Some c" for c
    using that assms(1) by (auto simp: away_def)
  show ?thesis
  proof (cases op)
    case (Init t p tick)
    then show ?thesis
      using assms(2) by (auto simp: rt_thread_init_fields_def put_def override_on_def fun_eq_iff)
  next
    case (Startup t)
    then show ?thesis
      using assms by (simp add: put_startup option.map_comp comp_def)
  next
    case (Resume t)
    then show ?thesis
      using assms by (simp add: put_resume option.map_comp comp_def)
  next
    case (Suspend_Thread t)
    then show ?thesis
      using assms by (simp add: put_suspend option.map_comp comp_def)
  next
    case (Timeout t)
    then show ?thesis
      using assms by (auto simp: rt_thread_timeout_def put_ops intro!: put_schedule away_remove)
  next
    case Yield
    then show ?thesis
      using assms cur by (cases "rt_current_thread k") (auto simp: rt_thread_yield_def put_ops intro!: put_schedule)
  next
    case (Sleep_For tick)
    show ?thesis
    proof (cases "rt_current_thread k")
      case (Some t)
      have "rt_schedule (put W R k2) = map_option (put W R) (rt_schedule k2)"
        if "rt_thread_suspend t k = Some (r, k1)" "thread_timer_start t tick k1 = Some k2" for r k1 k2
        using away_suspend [OF assms(1) cur [OF Some] that(1)] that(2) by (intro put_schedule) (auto dest!: timer_stop_simps)
      then show ?thesis
        using Some cur Sleep_For by (auto simp: rt_thread_sleep_def put_suspend put_timer split: Option.bind_splits)
    qed (simp add: Sleep_For rt_thread_sleep_def)
  next
    case (Priority t p)
    then show ?thesis
      using assms by (auto simp: change_priority_def put_ops)
  next
    case Slice
    then show ?thesis
      using assms cur by (cases "rt_current_thread k") (auto simp: tick_slice_def put_ops Let_def intro!: put_schedule)
  next
    case Exit
    then show ?thesis
      using assms by (auto simp: rt_exit_critical_def Let_def intro!: put_schedule)
  qed (use assms in \<open>simp_all add: put_schedule rt_enter_critical_def\<close>)
qed

section \<open>What dead threads leave is freed once\<close>

text \<open>The threads that another thread is closing and has taken off their queues.\<close>

definition off :: "life_sys \<Rightarrow> nat set" where
  "off s = {t. \<exists>c pc. closing s t = Some (c, pc) \<and> c \<noteq> Some t \<and> pc \<noteq> Checked}"

definition mark :: "nat set \<Rightarrow> sched \<Rightarrow> sched" where
  "mark W k = put W (\<lambda>t. (threads k t)\<lparr>stat := RT_THREAD_CLOSE\<rparr>) k"

text \<open>The kernel is consistent when those threads are taken as closed; none of them is the current thread and no thread
  that is being closed is closed yet; the list of dead threads has exactly the closed threads from the heap that are not freed yet.\<close>

definition life_ok :: "life_sys \<Rightarrow> bool" where
  "life_ok s \<longleftrightarrow> sched_wf (mark (off s) (life_kern s)) \<and> (\<forall>t\<in>off s. rt_current_thread (life_kern s) \<noteq> Some t) \<and>
     (\<forall>t. closing s t \<noteq> None \<longrightarrow> stat (threads (life_kern s) t) \<noteq> RT_THREAD_CLOSE) \<and> distinct (rt_thread_defunct s) \<and>
     (\<forall>t. t \<in> set (rt_thread_defunct s) \<longleftrightarrow> heap_threads s t \<noteq> None \<and> stat (threads (life_kern s) t) = RT_THREAD_CLOSE)"

lemma life_simps [simp]:
  "life_kern (noted es s) = life_kern s" "rt_thread_defunct (noted es s) = rt_thread_defunct s" "heap_threads (noted es s) = heap_threads s"
  "life_trace (noted es s) = life_trace s @ es" "life_kern (thread_cleanup_execute t s) = life_kern s"
  "rt_thread_defunct (thread_cleanup_execute t s) = rt_thread_defunct s" "heap_threads (thread_cleanup_execute t s) = heap_threads s"
  "life_kern (retire t s) = life_kern s" "heap_threads (retire t s) = heap_threads s"
  "rt_thread_defunct (retire t s) = (if heap_threads s t = None then rt_thread_defunct s else t # rt_thread_defunct s)"
  "closing (noted es s) = closing s" "closing (thread_cleanup_execute t s) = closing s" "closing (retire t s) = closing s"
  "life_kern (moved t pc s) = life_kern s" "heap_threads (moved t pc s) = heap_threads s" "rt_thread_defunct (moved t pc s) = rt_thread_defunct s"
  by (simp_all add: noted_def thread_cleanup_execute_def retire_def moved_def)

lemma off_simps [simp]:
  "off (noted es s) = off s" "off (thread_cleanup_execute t s) = off s" "off (retire t s) = off s" "off (s\<lparr>life_kern := k\<rparr>) = off s"
  "off (s\<lparr>rt_thread_defunct := d\<rparr>) = off s" "off (s\<lparr>heap_threads := m\<rparr>) = off s" "off (s\<lparr>cleanup := c\<rparr>) = off s"
  by (simp_all add: off_def)

lemma mark_simps [simp]:
  "stat (threads (mark W k) t) = (if t \<in> W then RT_THREAD_CLOSE else stat (threads k t))" "rt_current_thread (mark W k) = rt_current_thread k"
  "t \<notin> W \<Longrightarrow> threads (mark W k) t = threads k t" "mark W (k\<lparr>tmr := m\<rparr>) = (mark W k)\<lparr>tmr := m\<rparr>" "mark {} k = k"
  "rt_scheduler_lock_nest (mark W k) = rt_scheduler_lock_nest k" "tmr (mark W k) = tmr k"
  by (auto simp: mark_def) (auto simp: put_def)

lemma marked_away: "sched_wf (mark W k) \<Longrightarrow> \<forall>t\<in>W. rt_current_thread k \<noteq> Some t \<Longrightarrow> away W k"
  using queues_okD(1) [of "{}" "mark W k"] by (auto simp: away_def sched_wf_def mark_def)

lemma mark_unlink: "t \<notin> W \<Longrightarrow> mark W (unlink t k) = unlink t (mark W k)"
  by (simp add: unlink_def mark_def put_ops)

lemma mark_upd: "t \<notin> W \<Longrightarrow> mark W (thread_upd t f k) = thread_upd t f (mark W k)"
  by (auto simp: mark_def put_def thread_upd_def override_on_def fun_eq_iff)

lemma mark_insert: "mark (insert t W) k = set_stat RT_THREAD_CLOSE t (mark W k)"
  by (auto simp: mark_def put_def thread_upd_def override_on_def fun_eq_iff)

lemma mark_close: "mark (W - {t}) (set_stat RT_THREAD_CLOSE t k) = (if t \<in> W then mark W k else set_stat RT_THREAD_CLOSE t (mark W k))"
  by (auto simp: mark_def put_def thread_upd_def override_on_def fun_eq_iff)

text \<open>A kernel operation that does not name the threads of \<open>W\<close> leaves them alone and keeps the rest consistent.\<close>

lemma marked_frame:
  assumes "sched_wf (mark W k)" "\<forall>t\<in>W. rt_current_thread k \<noteq> Some t"
    and "\<And>R. step (put W R k) = map_option (put W R) (step k)" "step k = Some k'"
  shows "step (mark W k) = Some (mark W k')" "\<And>t. t \<in> W \<Longrightarrow> threads k' t = threads k t"
proof -
  have "Some k' = Some (put W (threads k) k')"
    using assms(3) [of "threads k"] assms(4) by (simp add: put_self)
  then show f: "\<And>t. t \<in> W \<Longrightarrow> threads k' t = threads k t"
    by (metis option.inject put_simps(1))
  have "put W (\<lambda>t. (threads k t)\<lparr>stat := RT_THREAD_CLOSE\<rparr>) k' = mark W k'"
    using f by (simp add: mark_def put_def override_on_def fun_eq_iff cong: if_cong)
  then show "step (mark W k) = Some (mark W k')"
    using assms(3,4) by (simp add: mark_def)
qed

lemma marked_step:
  assumes "sched_wf (mark W k)" "\<forall>t\<in>W. rt_current_thread k \<noteq> Some t" "op_ok op k" "names op \<inter> W = {}" "kernel_step op k = Some k'"
  shows "sched_wf (mark W k')" "\<forall>t\<in>W. rt_current_thread k' \<noteq> Some t \<and> threads k' t = threads k t" "keeps_closed (inits op \<union> W) k k'"
proof -
  note f = marked_frame [OF assms(1,2) put_step [OF marked_away [OF assms(1,2)] assms(4)] assms(5)]
  have ok: "op_ok op (mark W k)"
    using assms(3,4) by (cases op) auto
  show "sched_wf (mark W k')"
    by (rule kernel_step_wf [OF assms(1) ok f(1)])
  have "inits op \<subseteq> names op"
    by (cases op) auto
  moreover have keeps: "keeps_closed (inits op) (mark W k) (mark W k')"
    by (rule kernel_keeps_closed [OF assms(1) ok f(1)])
  ultimately show "\<forall>t\<in>W. rt_current_thread k' \<noteq> Some t \<and> threads k' t = threads k t"
    using f(2) assms(2,4) by (fastforce simp: keeps_closed_def)
  show "keeps_closed (inits op \<union> W) k k'"
    using keeps by (auto simp: keeps_closed_def)
qed

lemma kern_ok:
  assumes "life_ok s" "op_ok op (life_kern s)" "names op \<inter> off s = {}" "inits op = {}" "kernel_step op (life_kern s) = Some k"
  shows "life_ok (s\<lparr>life_kern := k\<rparr>)"
proof -
  have inv: "sched_wf (mark (off s) (life_kern s))" "\<forall>t\<in>off s. rt_current_thread (life_kern s) \<noteq> Some t"
    using assms(1) by (simp_all add: life_ok_def)
  note m = marked_step [OF inv assms(2,3,5)]
  have "stat (threads k t) = RT_THREAD_CLOSE \<longleftrightarrow> stat (threads (life_kern s) t) = RT_THREAD_CLOSE" for t
    using m(2,3) assms(4) by (cases "t \<in> off s") (auto simp: keeps_closed_def)
  then show ?thesis
    using assms(1) m(1,2) by (simp add: life_ok_def off_def)
qed

lemma idle_law:
  "life_ok s \<Longrightarrow> \<exists>s'. rt_thread_idle_excute s = Some s' \<and> life_ok s' \<and> rt_thread_defunct s' = [] \<and> life_kern s' = life_kern s \<and>
     heap_threads s' = (\<lambda>t. if stat (threads (life_kern s) t) = RT_THREAD_CLOSE then None else heap_threads s t) \<and>
     life_trace s' = life_trace s @ concat (map (\<lambda>t. [Free_Stack (the (heap_threads s t)), Delete_Object t]) (rt_thread_defunct s))"
proof (induction s rule: rt_thread_idle_excute.induct)
  case (1 s)
  show ?case
  proof (cases "rt_thread_defunct s")
    case Nil
    then show ?thesis
      using "1.prems" by (subst rt_thread_idle_excute.simps) (auto simp: life_ok_def fun_eq_iff)
  next
    case (Cons t ts)
    then have t: "heap_threads s t \<noteq> None" "stat (threads (life_kern s) t) = RT_THREAD_CLOSE" "t \<notin> set ts"
      using "1.prems" by (auto simp: life_ok_def)
    then obtain a where a: "heap_threads s t = Some a"
      by auto
    define s1 where "s1 = noted [Free_Stack a, Delete_Object t] (s\<lparr>rt_thread_defunct := ts, heap_threads := (heap_threads s)(t := None)\<rparr>)"
    have ok: "life_ok s1"
      using "1.prems" Cons t by (auto simp: life_ok_def s1_def)
    have f: "life_kern s1 = life_kern s" "life_trace s1 = life_trace s @ [Free_Stack a, Delete_Object t]" "heap_threads s1 = (heap_threads s)(t := None)"
      "rt_thread_defunct s1 = ts"
      by (simp_all add: s1_def)
    have r: "rt_thread_idle_excute s = rt_thread_idle_excute s1"
      using Cons a by (subst rt_thread_idle_excute.simps) (simp add: s1_def)
    obtain s' where s': "rt_thread_idle_excute s1 = Some s'" "life_ok s'" "rt_thread_defunct s' = []" "life_kern s' = life_kern s1"
      "heap_threads s' = (\<lambda>t. if stat (threads (life_kern s1) t) = RT_THREAD_CLOSE then None else heap_threads s1 t)"
      "life_trace s' = life_trace s1 @ concat (map (\<lambda>t. [Free_Stack (the (heap_threads s1 t)), Delete_Object t]) ts)"
      using "1.IH" [OF Cons a] ok f(4) unfolding s1_def [symmetric] by auto
    have m: "map (\<lambda>t. [Free_Stack (the (heap_threads s1 t)), Delete_Object t]) ts = map (\<lambda>t. [Free_Stack (the (heap_threads s t)), Delete_Object t]) ts"
      using t(3) by (auto simp: f(3))
    have "heap_threads s' = (\<lambda>t. if stat (threads (life_kern s) t) = RT_THREAD_CLOSE then None else heap_threads s t)"
      unfolding s'(5) f(1,3) using t(2) by auto
    moreover have "life_trace s' = life_trace s @ concat (map (\<lambda>t. [Free_Stack (the (heap_threads s t)), Delete_Object t]) (t # ts))"
      unfolding s'(6) f(2) m using a by simp
    ultimately show ?thesis
      using s'(1-4) r f(1) Cons by auto
  qed
qed

text \<open>Everything threads do.  A thread is initialised in memory where no thread lives: a static structure, or memory
  that the heap just gave.  A thread is closed part by part, with the steps of others in between.  While it is being closed nobody else
  closes it, and the kernel operations that name a thread do not name it: nobody resumes it, its timer does not end.
  The parts are done by the thread that began, when it runs.\<close>

definition turn :: "life_sys \<Rightarrow> nat \<Rightarrow> close_pc \<Rightarrow> bool" where
  "turn s t pc \<longleftrightarrow> closing s t = Some (rt_current_thread (life_kern s), pc) \<and>
     (rt_current_thread (life_kern s) = Some t \<longrightarrow> stat (threads (life_kern s) t) = RT_THREAD_RUNNING)"

inductive life_step :: "life_sys \<Rightarrow> life_sys \<Rightarrow> bool" where
  life_exit: "rt_current_thread (life_kern s) = Some t \<Longrightarrow> stat (threads (life_kern s) t) = RT_THREAD_RUNNING \<Longrightarrow> closing s t = None \<Longrightarrow>
    rt_thread_exit s = Some s' \<Longrightarrow> life_step s s'"
| life_enter: "closing s t = None \<Longrightarrow> close_enter dynamic t s = Some (r, s') \<Longrightarrow> life_step s s'"
| life_unlink: "turn s t Checked \<Longrightarrow> life_step s (close_unlink t s)"
| life_clean: "turn s t Unlinked \<Longrightarrow> life_step s (close_cleanup t s)"
| life_timer: "turn s t Cleaned \<Longrightarrow> close_timer t s = Some s' \<Longrightarrow> life_step s s'"
| life_finish: "turn s t Released \<Longrightarrow> life_step s (close_finish t s)"
| life_init: "heap_threads s t = None \<Longrightarrow> closing s t = None \<Longrightarrow> op_ok (Init t p tick) (life_kern s) \<Longrightarrow> rt_thread_init t p tick s = Some s' \<Longrightarrow>
    life_step s s'"
| life_create: "(\<And>t. obj = Some t \<Longrightarrow> heap_threads s t = None \<and> closing s t = None \<and> op_ok (Init t p tick) (life_kern s)) \<Longrightarrow>
    rt_thread_create obj stk p tick s = Some (r, s') \<Longrightarrow> life_step s s'"
| life_idle: "rt_thread_idle_excute s = Some s' \<Longrightarrow> life_step s s'"
| life_cleanup: "life_step s (s\<lparr>cleanup := c\<rparr>)"
| life_other: "inits op = {} \<Longrightarrow> (\<And>t. t \<in> names op \<Longrightarrow> closing s t = None) \<Longrightarrow> op_ok op (life_kern s) \<Longrightarrow> kernel_step op (life_kern s) = Some k \<Longrightarrow>
    life_step s (s\<lparr>life_kern := k\<rparr>)"

lemma not_off: "closing s t = None \<Longrightarrow> t \<notin> off s"
  by (simp add: off_def)

lemma init_ok:
  assumes "life_ok s" "heap_threads s t = None" "closing s t = None" "op_ok (Init t p tick) (life_kern s)" "rt_thread_init t p tick s = Some s'"
  shows "life_ok s'" "stat (threads (life_kern s') t) = RT_THREAD_INIT" "heap_threads s' = heap_threads s" "closing s' = closing s"
proof -
  obtain k where k: "rt_thread_init_fields t p tick (life_kern s) = Some k" "s' = s\<lparr>life_kern := k, cleanup := (cleanup s)(t := False)\<rparr>"
    using assms(5) by (auto simp: rt_thread_init_def split: Option.bind_splits)
  have t: "stat (threads k t) = RT_THREAD_INIT"
    using k(1) by (auto simp: rt_thread_init_fields_def split: if_splits)
  have inv: "sched_wf (mark (off s) (life_kern s))" "\<forall>t\<in>off s. rt_current_thread (life_kern s) \<noteq> Some t"
    using assms(1) by (simp_all add: life_ok_def)
  note m = marked_step [OF inv assms(4), of k]
  have n: "names (Init t p tick) \<inter> off s = {}"
    using not_off [OF assms(3)] by simp
  have "u \<noteq> t \<Longrightarrow> (stat (threads k u) = RT_THREAD_CLOSE) = (stat (threads (life_kern s) u) = RT_THREAD_CLOSE)" for u
    using m(2,3) [OF n] k(1) by (cases "u \<in> off s") (auto simp: keeps_closed_def)
  then have "(u = t \<or> stat (threads k u) = RT_THREAD_CLOSE) = (u = t \<or> stat (threads (life_kern s) u) = RT_THREAD_CLOSE)" for u
    by blast
  moreover have "off s' = off s"
    by (simp add: k(2) off_def)
  ultimately show "life_ok s'"
    using assms(1-3) t m(1,2) [OF n] k(1) unfolding life_ok_def k(2) by simp (metis option.distinct(1) thread_stat.distinct(7))
  show "stat (threads (life_kern s') t) = RT_THREAD_INIT" "heap_threads s' = heap_threads s" "closing s' = closing s"
    using t by (simp_all add: k(2))
qed

lemma exit_law:
  assumes "life_ok s" "rt_current_thread (life_kern s) = Some t" "stat (threads (life_kern s) t) = RT_THREAD_RUNNING" "closing s t = None"
    and "rt_thread_exit s = Some s'"
  shows "life_ok s'" "stat (threads (life_kern s') t) = RT_THREAD_CLOSE"
proof -
  let ?s = "thread_cleanup_execute t s" and ?k = "set_stat RT_THREAD_CLOSE t (unlink t (life_kern s))" and ?W = "off s"
  have u: "rt_schedule_remove_thread t (life_kern s) = unlink t (life_kern s)"
    using assms(3) by (simp add: unlink_def)
  obtain ts k where k: "rt_schedule (?k\<lparr>tmr := ts\<rparr>) = Some k" "s' = (retire t (?s\<lparr>life_kern := ?k\<lparr>tmr := ts\<rparr>\<rparr>))\<lparr>life_kern := k\<rparr>"
    using assms(2,5) u by (auto simp: rt_thread_exit_def thread_timer_detach_def Let_def split: Option.bind_splits)
  have t: "t \<notin> ?W"
    using not_off [OF assms(4)] .
  have m: "mark ?W ?k = set_stat RT_THREAD_CLOSE t (unlink t (mark ?W (life_kern s)))"
    using t by (simp add: mark_unlink [symmetric] mark_upd)
  have w: "sched_wf (mark ?W (?k\<lparr>tmr := ts\<rparr>))" and cur: "\<forall>v\<in>?W. rt_current_thread (?k\<lparr>tmr := ts\<rparr>) \<noteq> Some v"
    using close_wf [of "mark ?W (life_kern s)" t] assms(1,3) t by (simp_all add: life_ok_def m) (simp add: unlink_def)
  note f = marked_step [OF w cur, of Schedule k]
  have c: "stat (threads k v) = RT_THREAD_CLOSE \<longleftrightarrow> v = t \<or> stat (threads (life_kern s) v) = RT_THREAD_CLOSE" for v
    using f(2,3) k(1) t by (cases "v \<in> ?W") (auto simp: keeps_closed_def unlink_def)
  have "off s' = ?W" "closing s' = closing s"
    by (simp_all add: k(2) off_def)
  then show "life_ok s'"
    using assms(1,4) f(1,2) k(1) c t assms(3) unfolding life_ok_def by (auto simp: k(2))
  show "stat (threads (life_kern s') t) = RT_THREAD_CLOSE"
    using c [of t] by (simp add: k(2))
qed

lemma moved_off: "closing s t = Some (c, pc) \<Longrightarrow> pc \<noteq> Checked \<Longrightarrow> pc' \<noteq> Checked \<Longrightarrow> off (moved t pc' s) = off s"
  by (auto simp: off_def moved_def)

lemma closing_moved: "(closing (moved t pc s) u = None) = (closing s u = None)"
  by (simp add: moved_def)

lemma close_parts_ok:
  assumes "life_ok s"
  shows "closing s t = None \<Longrightarrow> close_enter dynamic t s = Some (r, s') \<Longrightarrow> life_ok s'"
    and "turn s t Checked \<Longrightarrow> life_ok (close_unlink t s)"
    and "turn s t Unlinked \<Longrightarrow> life_ok (close_cleanup t s)"
    and "turn s t Cleaned \<Longrightarrow> close_timer t s = Some s' \<Longrightarrow> life_ok s'"
proof -
  show "life_ok s'" if "closing s t = None" "close_enter dynamic t s = Some (r, s')"
  proof (cases "stat (threads (life_kern s) t) = RT_THREAD_CLOSE")
    case False
    then have s': "s' = s\<lparr>closing := (closing s)(t \<mapsto> (rt_current_thread (life_kern s), Checked))\<rparr>"
      using that(2) by (auto simp: close_enter_def split: if_splits)
    moreover have "off s' = off s"
      using that(1) by (auto simp: s' off_def)
    ultimately show ?thesis
      using assms False by (auto simp: life_ok_def)
  qed (use that assms in \<open>auto simp: close_enter_def split: if_splits\<close>)
  show "life_ok (close_cleanup t s)" if "turn s t Unlinked"
  proof -
    have "off (close_cleanup t s) = off s"
      using that moved_off [of "thread_cleanup_execute t s" t _ Unlinked Cleaned] by (simp add: turn_def close_cleanup_def)
    then show ?thesis
      using assms by (simp add: life_ok_def close_cleanup_def closing_moved)
  qed
  show "life_ok s'" if tc: "turn s t Cleaned" "close_timer t s = Some s'"
  proof -
    obtain ts where s': "s' = moved t Released (s\<lparr>life_kern := (life_kern s)\<lparr>tmr := ts\<rparr>\<rparr>)"
      using tc(2) by (auto simp: close_timer_def thread_timer_detach_def split: Option.bind_splits)
    have "off s' = off s"
      using tc(1) by (auto simp: s' turn_def off_def moved_def)
    then show ?thesis
      using assms by (simp add: life_ok_def s' closing_moved)
  qed
  show "life_ok (close_unlink t s)" if "turn s t Checked"
  proof -
    let ?k = "life_kern s" and ?W = "off s"
    have t: "t \<notin> ?W" "stat (threads ?k t) \<noteq> RT_THREAD_CLOSE"
      using that assms by (auto simp: turn_def off_def life_ok_def)
    have wf: "sched_wf (mark ?W ?k)"
      using assms by (simp add: life_ok_def)
    have "sched_wf (mark (off (close_unlink t s)) (unlink t ?k)) \<and> (\<forall>u\<in>off (close_unlink t s). rt_current_thread ?k \<noteq> Some u)"
    proof (cases "rt_current_thread ?k = Some t")
      case True
      then have r: "stat (threads ?k t) = RT_THREAD_RUNNING"
        using that by (simp add: turn_def)
      have "off (close_unlink t s) = ?W"
        using that True by (auto simp: turn_def off_def close_unlink_def moved_def)
      moreover have "sched_wf (unlink t (mark ?W ?k))"
        using wf r t(1) by (intro unlink_running_wf) simp_all
      ultimately show ?thesis
        using assms t(1) by (simp add: mark_unlink life_ok_def)
    next
      case False
      have "off (close_unlink t s) = insert t ?W"
        using that False by (auto simp: turn_def off_def close_unlink_def moved_def)
      moreover have "sched_wf (set_stat RT_THREAD_CLOSE t (unlink t (mark ?W ?k)))"
        using close_wf [OF wf, of t] t by simp
      ultimately show ?thesis
        using assms False t(1) by (simp add: mark_insert mark_unlink life_ok_def)
    qed
    then show ?thesis
      using assms by (simp add: life_ok_def close_unlink_def closing_moved unlink_def)
  qed
qed

lemma close_finish_ok:
  assumes "life_ok s" "turn s t Released"
  shows "life_ok (close_finish t s)"
proof -
  let ?k = "life_kern s" and ?W = "off s"
  have t: "stat (threads ?k t) \<noteq> RT_THREAD_CLOSE" "off (close_finish t s) = ?W - {t}"
    using assms by (auto simp: turn_def off_def life_ok_def close_finish_def)
  have wf: "sched_wf (mark ?W ?k)"
    using assms(1) by (simp add: life_ok_def)
  have "sched_wf (mark (?W - {t}) (set_stat RT_THREAD_CLOSE t ?k))"
  proof (cases "rt_current_thread ?k = Some t")
    case True
    then have "t \<notin> ?W" "stat (threads ?k t) = RT_THREAD_RUNNING"
      using assms by (auto simp: turn_def life_ok_def)
    then show ?thesis
      using wf by (simp add: mark_upd close_running_wf)
  next
    case False
    then have "t \<in> ?W"
      using assms(2) by (auto simp: turn_def off_def)
    then show ?thesis
      using wf by (simp add: mark_close)
  qed
  then show ?thesis
    using assms(1) t unfolding life_ok_def by (auto simp: close_finish_def)
qed

lemma life_step_ok: "life_step s s' \<Longrightarrow> life_ok s \<Longrightarrow> life_ok s'"
proof (induction rule: life_step.induct)
  case (life_create obj s p tick stk r s')
  show ?case
  proof (cases "s' = s")
    case False
    then obtain t a s1 where t: "obj = Some t" "rt_thread_init t p tick s = Some s1" "s' = s1\<lparr>heap_threads := (heap_threads s1)(t \<mapsto> a)\<rparr>"
      using life_create.hyps(2) by (auto simp: rt_thread_create_def split: option.splits Option.bind_splits)
    have o: "heap_threads s t = None" "closing s t = None" "op_ok (Init t p tick) (life_kern s)"
      using life_create.hyps(1) [OF t(1)] by simp_all
    note i = init_ok [OF life_create.prems o t(2)]
    have "off s' = off s1"
      by (simp add: t(3) off_def)
    then show ?thesis
      using i o(1) by (auto simp: life_ok_def t(3))
  qed (use life_create.prems in simp)
next
  case (life_idle s s')
  then show ?case
    using idle_law by fastforce
next
  case (life_other op s k)
  have "names op \<inter> off s = {}"
    using life_other.hyps(2) not_off by blast
  then show ?case
    using kern_ok [OF life_other.prems life_other.hyps(3) _ life_other.hyps(1,4)] by blast
next
  case (life_init s t p tick s')
  show ?case
    by (rule init_ok(1) [OF life_init.prems life_init.hyps])
next
  case (life_exit s t s')
  show ?case
    by (rule exit_law(1) [OF life_exit.prems life_exit.hyps])
next
  case (life_finish s t)
  then show ?case
    by (simp add: close_finish_ok)
next
  case (life_enter s t dynamic r s')
  then show ?case
    using close_parts_ok(1) by blast
next
  case (life_timer s t s')
  then show ?case
    using close_parts_ok(4) by blast
qed (simp_all add: close_parts_ok(2,3), simp add: life_ok_def)

lemma exit_returns:
  assumes "life_ok s" "rt_current_thread (life_kern s) = Some t" "stat (threads (life_kern s) t) = RT_THREAD_RUNNING" "closing s = Map.empty"
    and "timers (tmr (life_kern s)) t = Some tm" "systemobject tm" "rt_scheduler_lock_nest (life_kern s) = 0"
    and "stat (threads (life_kern s) i) = RT_THREAD_READY"
  shows "\<exists>s' u. rt_thread_exit s = Some s' \<and> life_ok s' \<and> best (life_kern s') u \<and> u \<noteq> t \<and> stat (threads (life_kern s') t) = RT_THREAD_CLOSE \<and>
    (heap_threads s t \<noteq> None \<longrightarrow> t \<in> set (rt_thread_defunct s')) \<and>
    (\<forall>op k. op_ok op (life_kern s') \<longrightarrow> kernel_step op (life_kern s') = Some k \<longrightarrow> t \<notin> inits op \<longrightarrow>
       stat (threads k t) = RT_THREAD_CLOSE \<and> rt_current_thread k \<noteq> Some t)"
proof -
  let ?s = "thread_cleanup_execute t s" and ?k = "set_stat RT_THREAD_CLOSE t (unlink t (life_kern s))"
  obtain ts where ts: "rt_timer_detach t (tmr (life_kern s)) = Some (RT_EOK, ts)"
    using assms(5,6) by (simp add: rt_timer_detach_def Let_def)
  have u: "rt_schedule_remove_thread t (life_kern s) = unlink t (life_kern s)" and i: "i \<noteq> t"
    using assms(3,8) by (auto simp: unlink_def)
  have "off s = {}"
    using assms(4) by (simp add: off_def)
  then have w: "sched_wf (?k\<lparr>tmr := ts\<rparr>)"
    using close_wf [of "life_kern s" t] assms(1,3) by (simp add: life_ok_def)
  have "rt_thread_ready_priority_group (?k\<lparr>tmr := ts\<rparr>) \<noteq> 0"
    using w i assms(8) no_ready [of "?k\<lparr>tmr := ts\<rparr>" i] by (auto simp: sched_wf_def unlink_def assms(3))
  moreover have "rt_scheduler_lock_nest (?k\<lparr>tmr := ts\<rparr>) = 0" "rt_current_thread (?k\<lparr>tmr := ts\<rparr>) = Some t"
    using assms(2,7) by (simp_all add: unlink_def)
  ultimately obtain k v where k: "rt_schedule (?k\<lparr>tmr := ts\<rparr>) = Some k" "sched_wf k" "best k v"
    using schedule_best [OF w] by metis
  have e: "rt_thread_exit s = Some ((retire t (?s\<lparr>life_kern := ?k\<lparr>tmr := ts\<rparr>\<rparr>))\<lparr>life_kern := k\<rparr>)" (is "_ = Some ?s'")
    using assms(2) u ts k(1) by (simp add: rt_thread_exit_def thread_timer_detach_def Let_def unlink_def assms(3))
  have l: "life_ok ?s'" "stat (threads k t) = RT_THREAD_CLOSE"
    using exit_law [OF assms(1-3) _ e] assms(4) by simp_all
  have "v \<noteq> t" "rt_current_thread k = Some v"
    using k(3) l(2) by (auto simp: best_def)
  then have "stat (threads k1 t) = RT_THREAD_CLOSE \<and> rt_current_thread k1 \<noteq> Some t"
    if "op_ok op k" "kernel_step op k = Some k1" "t \<notin> inits op" for op k1
    using kernel_keeps_closed [OF k(2) that(1,2)] that(3) l(2) by (auto simp: keeps_closed_def)
  then show ?thesis
    using e l k(3) \<open>v \<noteq> t\<close> by (intro exI [of _ ?s'] exI [of _ v]) simp
qed

text \<open>C20: no thread is forgotten and none is freed twice.  Threads are created, started, detached, deleted and exit; a deletion is a
  sequence of parts with interrupts and other threads in between.  These may do anything as long as they leave alone the thread that is
  being deleted: they do not close it as well, do not resume it, and its timer does not end there (\<open>delete_races_with_timeout\<close> is what then
  happens).  Under this condition, at any moment the
  idle thread's loop ends, gives back the stack and the structure of exactly the closed threads from the heap,
  each once, and leaves every other thread alone.\<close>

theorem no_thread_leaks:
  assumes "life_step\<^sup>*\<^sup>* s s'" "life_ok s"
  shows "\<exists>s''. rt_thread_idle_excute s' = Some s'' \<and> life_ok s'' \<and> rt_thread_defunct s'' = [] \<and> life_kern s'' = life_kern s' \<and>
     distinct (rt_thread_defunct s') \<and>
     (\<forall>t. t \<in> set (rt_thread_defunct s') \<longleftrightarrow> heap_threads s' t \<noteq> None \<and> stat (threads (life_kern s') t) = RT_THREAD_CLOSE) \<and>
     heap_threads s'' = (\<lambda>t. if stat (threads (life_kern s') t) = RT_THREAD_CLOSE then None else heap_threads s' t) \<and>
     life_trace s'' = life_trace s' @ concat (map (\<lambda>t. [Free_Stack (the (heap_threads s' t)), Delete_Object t]) (rt_thread_defunct s'))"
proof -
  have ok: "life_ok s'"
    using assms by (induction rule: rtranclp_induct) (auto dest: life_step_ok)
  then show ?thesis
    using idle_law [OF ok] ok [unfolded life_ok_def] by blast
qed

text \<open>A thread that exits gives the processor to a ready thread of the highest priority and is closed: it is on
  no queue, it never becomes the current thread again unless it is initialised anew, and when it came from the
  heap it is on the list of the dead.\<close>

theorem exit_hands_over:
  assumes "life_ok s" "rt_current_thread (life_kern s) = Some t" "stat (threads (life_kern s) t) = RT_THREAD_RUNNING" "closing s = Map.empty"
    and "timers (tmr (life_kern s)) t = Some tm" "systemobject tm" "rt_scheduler_lock_nest (life_kern s) = 0"
    and "stat (threads (life_kern s) i) = RT_THREAD_READY"
  shows "\<exists>s' u. rt_thread_exit s = Some s' \<and> life_ok s' \<and> best (life_kern s') u \<and> u \<noteq> t \<and> stat (threads (life_kern s') t) = RT_THREAD_CLOSE \<and>
    (heap_threads s t \<noteq> None \<longrightarrow> t \<in> set (rt_thread_defunct s')) \<and>
    (\<forall>op k. op_ok op (life_kern s') \<longrightarrow> kernel_step op (life_kern s') = Some k \<longrightarrow> t \<notin> inits op \<longrightarrow>
       stat (threads k t) = RT_THREAD_CLOSE \<and> rt_current_thread k \<noteq> Some t)"
  using exit_returns [OF assms] .

text \<open>Thread 1 runs, thread 0 is the idle thread, and threads 2 and 3 wait; thread 3 came from the heap.\<close>

definition demo_life :: life_sys where
  "demo_life = \<lparr>life_kern = demo_waiters, rt_thread_defunct = [], heap_threads = [3 \<mapsto> 0x2000], cleanup = (\<lambda>t. t = 3), closing = Map.empty,
     life_trace = []\<rparr>"

lemma demo_life_ok:
  "life_ok demo_life" "rt_current_thread (life_kern demo_life) = Some 1" "stat (threads (life_kern demo_life) 3) = RT_THREAD_SUSPEND"
  "timers (tmr (life_kern demo_life)) 3 = Some (timer_init_fields True 0 0 0)" "systemobject (timer_init_fields True 0 0 0)"
  using demo_waiters_wf by (auto simp: demo_life_def life_ok_def off_def demo_waiters_def demo_sched_def demo_thread_def demo_timers_def timer_init_fields_def)

text \<open>Thread 1 deletes thread 3; after it has taken it off its list, an interrupt changes the priority of thread 2.\<close>

theorem no_thread_leaks_witness:
  "\<exists>s' s''. life_step\<^sup>*\<^sup>* demo_life s' \<and> rt_thread_defunct s' = [3] \<and> rt_thread_idle_excute s' = Some s'' \<and> heap_threads s'' 3 = None \<and>
     life_trace s'' = [Cleanup 3, Free_Stack 0x2000, Delete_Object 3]"
proof -
  define s1 where "s1 = demo_life\<lparr>closing := [3 \<mapsto> (Some 1, Checked)]\<rparr>"
  define s2 where "s2 = close_unlink 3 s1"
  define s3 where "s3 = s2\<lparr>life_kern := change_priority 2 20 (life_kern s2)\<rparr>"
  define s4 where "s4 = close_cleanup 3 s3"
  note defs = s1_def s2_def s3_def s4_def close_unlink_def close_cleanup_def moved_def thread_cleanup_execute_def noted_def change_priority_def unlink_def
  have f: "rt_current_thread (life_kern s4) = Some 1" "closing s4 3 = Some (Some 1, Cleaned)" "tmr (life_kern s4) = tmr (life_kern demo_life)"
    "rt_thread_defunct s4 = []" "heap_threads s4 3 = Some 0x2000" "life_trace s4 = [Cleanup 3]"
    using demo_life_ok(2) by (simp_all add: defs) (simp_all add: demo_life_def)
  have "life_step demo_life s1"
    using demo_life_ok(2,3) by (intro life_enter [of demo_life 3 True None]) (simp_all add: close_enter_def s1_def demo_life_def)
  moreover have "life_step s1 s2"
    using demo_life_ok(2) unfolding s2_def by (intro life_unlink) (simp add: turn_def s1_def)
  moreover have "life_step s2 s3"
    unfolding s3_def by (rule life_other [of "Priority 2 20"]) (simp_all add: s2_def s1_def close_unlink_def moved_def)
  moreover have "life_step s3 s4"
    using demo_life_ok(2) unfolding s4_def by (intro life_clean) (simp add: turn_def defs)
  moreover obtain ts where "rt_timer_detach 3 (tmr (life_kern s4)) = Some (RT_EOK, ts)"
    using demo_life_ok(4,5) by (simp add: f(3) rt_timer_detach_def Let_def)
  then have "close_timer 3 s4 = Some (moved 3 Released (s4\<lparr>life_kern := (life_kern s4)\<lparr>tmr := ts\<rparr>\<rparr>))" (is "_ = Some ?s5")
    by (simp add: close_timer_def thread_timer_detach_def)
  then have "life_step s4 ?s5"
    using f(1,2) by (intro life_timer) (auto simp: turn_def)
  moreover have "life_step ?s5 (close_finish 3 ?s5)"
    using f(1,2) by (intro life_finish) (simp add: turn_def moved_def)
  ultimately have st: "life_step\<^sup>*\<^sup>* demo_life (close_finish 3 ?s5)"
    by (meson converse_rtranclp_into_rtranclp rtranclp.rtrancl_refl)
  have e: "rt_thread_defunct (close_finish 3 ?s5) = [3]" "stat (threads (life_kern (close_finish 3 ?s5)) 3) = RT_THREAD_CLOSE"
    "heap_threads (close_finish 3 ?s5) 3 = Some 0x2000" "life_trace (close_finish 3 ?s5) = [Cleanup 3]"
    using f(4-6) by (simp_all add: close_finish_def) (simp add: retire_def moved_def f)
  obtain s'' where "rt_thread_idle_excute (close_finish 3 ?s5) = Some s''" "heap_threads s'' 3 = None"
    "life_trace s'' = [Cleanup 3, Free_Stack 0x2000, Delete_Object 3]"
    using no_thread_leaks [OF st demo_life_ok(1)] e by auto
  then show ?thesis
    using st e(1) by blast
qed

text \<open>A deletion that is not interrupted is such a sequence, and keeps everything in order.\<close>

lemma close_thread_ok:
  assumes "life_ok s" "closing s t = None" "rt_current_thread (life_kern s) = Some t \<Longrightarrow> stat (threads (life_kern s) t) = RT_THREAD_RUNNING"
    and "close_thread dynamic t s = Some (r, s')"
  shows "life_step\<^sup>*\<^sup>* s s'" "life_ok s'"
proof -
  obtain r1 s1 where e: "close_enter dynamic t s = Some (r1, s1)"
    using assms(4) by (auto simp: close_thread_def split: Option.bind_splits)
  have s1: "life_step s s1"
    by (rule life_enter [OF assms(2) e])
  show st: "life_step\<^sup>*\<^sup>* s s'"
  proof (cases r1)
    case (Some x)
    then show ?thesis
      using assms(4) e s1 by (auto simp: close_thread_def)
  next
    case None
    then have c: "closing s1 t = Some (rt_current_thread (life_kern s), Checked)" "life_kern s1 = life_kern s"
      using e by (auto simp: close_enter_def split: if_splits)
    obtain s4 where s4: "close_timer t (close_cleanup t (close_unlink t s1)) = Some s4" "s' = close_finish t s4"
      using assms(4) e None by (auto simp: close_thread_def split: Option.bind_splits)
    note defs = turn_def close_unlink_def close_cleanup_def moved_def unlink_def
    have "turn s1 t Checked" "turn (close_unlink t s1) t Unlinked" "turn (close_cleanup t (close_unlink t s1)) t Cleaned" "turn s4 t Released"
      using c assms(3) s4(1) by (auto simp: defs close_timer_def thread_timer_detach_def split: Option.bind_splits)
    then have "life_step s1 (close_unlink t s1)" "life_step (close_unlink t s1) (close_cleanup t (close_unlink t s1))"
      "life_step (close_cleanup t (close_unlink t s1)) s4" "life_step s4 s'"
      using s4 by (auto intro: life_unlink life_clean life_timer life_finish)
    then show ?thesis
      using s1 by (meson converse_rtranclp_into_rtranclp rtranclp.rtrancl_refl)
  qed
  show "life_ok s'"
    using st assms(1) by (induction rule: rtranclp_induct) (auto dest: life_step_ok)
qed

section \<open>Delays until a tick\<close>

text \<open>A thread that calls \<open>rt_thread_delay_until\<close> before its time is suspended, and its timer ends at exactly
  \<open>tick + inc\<close>, however late the call is.\<close>

theorem delay_until_arms:
  assumes "sched_wf k" "rt_current_thread k = Some t" "stat (threads k t) = RT_THREAD_RUNNING" "timers (tmr k) t = Some tm"
    and "rt_scheduler_lock_nest k = 0" "stat (threads k i) = RT_THREAD_READY"
    and "tick_now (tmr k) - tick < inc" "tick + inc - tick_now (tmr k) < RT_TICK_MAX div 2"
  shows "\<exists>k' tm'. rt_thread_delay_until tick inc k = Some (None, k') \<and> sched_wf k' \<and> timers (tmr k') t = Some tm' \<and> activated tm' \<and>
    timeout_tick tm' = tick + inc \<and> stat (threads k' t) \<notin> {RT_THREAD_READY, RT_THREAD_RUNNING} \<and> rt_current_thread k' \<noteq> Some t"
proof -
  obtain r ts tm1 where stop: "rt_timer_stop t (tmr k) = Some (r, ts)" "timers ts t = Some tm1" "tick_now ts = tick_now (tmr k)"
    using assms(4) by (cases "activated tm") (simp_all add: rt_timer_stop_def Let_def timer_remove_def)
  define k1 where "k1 = (set_stat RT_THREAD_SUSPEND t (rt_schedule_remove_thread t k))\<lparr>tmr := ts\<rparr>"
  have k1: "rt_thread_suspend t k = Some (RT_EOK, k1)"
    using assms(2,3) stop(1) by (simp add: rt_thread_suspend_def thread_timer_stop_def k1_def)
  define tm2 where "tm2 = tm1\<lparr>init_tick := tick + inc - tick_now (tmr k)\<rparr>"
  define ts2 where "ts2 = ts\<lparr>timers := (timers ts)(t \<mapsto> tm2)\<rparr>"
  obtain ts3 where ts3: "rt_timer_start t ts2 = Some (RT_EOK, ts3)"
    "timers ts3 t = Some (activate ((deactivate tm2)\<lparr>timeout_tick := tick_now ts2 + init_tick tm2\<rparr>))"
    using assms(8) by (auto simp: rt_timer_start_def Let_def rt_tick_get_def ts2_def tm2_def deactivate_def timer_remove_def)
  have st: "thread_timer_start t (tick + inc - tick_now (tmr k)) k1 = Some (k1\<lparr>tmr := ts3\<rparr>)"
    using stop(2) ts3(1) by (simp add: thread_timer_start_def rt_timer_control_def Let_def k1_def ts2_def tm2_def)
  have w: "sched_wf (k1\<lparr>tmr := ts3\<rparr>)"
    using suspend_wf [OF assms(1) k1] by simp
  have "i \<noteq> t"
    using assms(3,6) by auto
  then have "rt_thread_ready_priority_group (k1\<lparr>tmr := ts3\<rparr>) \<noteq> 0"
    using no_ready [of "k1\<lparr>tmr := ts3\<rparr>" i] w assms(6) by (auto simp: sched_wf_def k1_def)
  moreover have "rt_scheduler_lock_nest (k1\<lparr>tmr := ts3\<rparr>) = 0" "rt_current_thread (k1\<lparr>tmr := ts3\<rparr>) = Some t"
    using assms(2,5) by (simp_all add: k1_def)
  ultimately obtain k' u where k': "rt_schedule (k1\<lparr>tmr := ts3\<rparr>) = Some k'" "sched_wf k'" "switches (k1\<lparr>tmr := ts3\<rparr>) k'" "best k' u"
    using schedule_best [OF w] by metis
  have "stat (threads k' t) \<notin> {RT_THREAD_READY, RT_THREAD_RUNNING}" "tmr k' = ts3"
    using k'(3) by (auto simp: switches_def k1_def)
  moreover have "rt_thread_delay_until tick inc k = Some (None, k')"
    using assms(2,7) k1 st k'(1) by (simp add: rt_thread_delay_until_def)
  moreover have "tick_now ts2 + init_tick tm2 = tick + inc"
    by (simp add: ts2_def tm2_def stop(3))
  ultimately show ?thesis
    using k'(2,4) ts3(2) by (auto simp: best_def activate_def activated_def deactivate_def flag_simps)
qed

section \<open>Hooks\<close>

lemma hook_set_and_deleted:
  "rt_thread_idle_sethook h hs = (RT_EOK, hs') \<Longrightarrow> Some h \<notin> set hs \<Longrightarrow> rt_thread_idle_delhook h hs' = (RT_EOK, hs)"
  by (induction h hs arbitrary: hs' rule: rt_thread_idle_sethook.induct) (auto split: prod.splits)

section \<open>A thread that times out while it is deleted\<close>

text \<open>\<open>rt_thread_delete\<close> unlinks a thread with interrupts disabled, but enables them before it detaches the timer of the
  thread.  When the timer of a suspended thread ends in between, the thread is ready again, and is then
  marked as closed on its ready queue.\<close>

lemma delete_races_with_timeout:
  "map_option (\<lambda>s'. (stat (threads (life_kern s') 3), rt_thread_priority_table (life_kern s') 12, rt_thread_defunct s'))
     (do { (r, s1) \<leftarrow> close_enter True 3 demo_life;
           let s2 = close_unlink 3 s1;
           k \<leftarrow> rt_thread_timeout 3 (life_kern s2);
           s3 \<leftarrow> close_timer 3 (close_cleanup 3 (s2\<lparr>life_kern := k\<rparr>));
           Some (close_finish 3 s3) }) = Some (RT_THREAD_CLOSE, [3], [3])"
  by code_simp

end
