(* ===== verification/Workqueue.thy ===== *)
theory Workqueue
  imports Mailbox Thread_Life "HOL-Library.Sublist"
begin

text \<open>
  Work queues, \<^verbatim>\<open>src/rt-thread/components/drivers/src/workqueue.c\<close>.  Queues and works are addresses, as are the
  semaphore and the thread of a queue; the timer of a work has the address of the work.  The node of a work is on at
  most one list, from which \<open>rt_list_remove\<close> takes it.  The loop of the worker thread is cut where other
  threads and interrupts come between, \<open>worker_pc\<close> being its place; \<open>executed\<close> is the history of the works whose
  function was called.  \<open>None\<close> is a failed assertion or, in the worker, a work taken from an empty list.
\<close>

section \<open>State\<close>

abbreviation (input) RT_EINVAL :: rt_err_t where "RT_EINVAL \<equiv> 10"
abbreviation (input) EINVAL :: rt_err_t where "EINVAL \<equiv> 22"

record rt_work =
  state_pending :: bool
  state_submitting :: bool
  type_delayed :: bool
  workqueue :: "nat option"

record rt_workqueue =
  work_list :: "nat list"
  work_current :: "nat option"
  wq_sem :: nat
  work_thread :: nat

datatype worker_pc = At_Check | At_Suspend | At_Fetch | At_Work nat | At_Ack

record wq_sys =
  wq_ipc :: ipc_sys
  queues :: "nat \<Rightarrow> rt_workqueue"
  works :: "nat \<Rightarrow> rt_work"
  worker :: "nat \<Rightarrow> worker_pc"
  executed :: "nat \<Rightarrow> nat list"

definition upd_work :: "nat \<Rightarrow> (rt_work \<Rightarrow> rt_work) \<Rightarrow> wq_sys \<Rightarrow> wq_sys" where
  "upd_work w f s = s\<lparr>works := (works s)(w := f (works s w))\<rparr>"

definition upd_queue :: "nat \<Rightarrow> (rt_workqueue \<Rightarrow> rt_workqueue) \<Rightarrow> wq_sys \<Rightarrow> wq_sys" where
  "upd_queue q f s = s\<lparr>queues := (queues s)(q := f (queues s q))\<rparr>"

definition upd_kern :: "(sched \<Rightarrow> sched option) \<Rightarrow> wq_sys \<Rightarrow> wq_sys option" where
  "upd_kern f s = do { k \<leftarrow> f (kern (wq_ipc s)); Some (s\<lparr>wq_ipc := (wq_ipc s)\<lparr>kern := k\<rparr>\<rparr>) }"

definition upd_tmr :: "(timer_sys \<Rightarrow> (rt_err_t \<times> timer_sys) option) \<Rightarrow> wq_sys \<Rightarrow> wq_sys option" where
  "upd_tmr f = upd_kern (\<lambda>k. do { (r, ts) \<leftarrow> f (tmr k); Some (k\<lparr>tmr := ts\<rparr>) })"

definition remove_node :: "nat \<Rightarrow> wq_sys \<Rightarrow> wq_sys" where
  "remove_node w s = s\<lparr>queues := (\<lambda>q. (queues s q)\<lparr>work_list := removeAll w (work_list (queues s q))\<rparr>)\<rparr>"

section \<open>Operations\<close>

definition rt_work_init :: "nat \<Rightarrow> wq_sys \<Rightarrow> wq_sys" where
  "rt_work_init w = upd_work w (\<lambda>_. \<lparr>state_pending = False, state_submitting = False, type_delayed = False, workqueue = None\<rparr>)"

definition rt_delayed_work_init :: "nat \<Rightarrow> wq_sys \<Rightarrow> wq_sys" where
  "rt_delayed_work_init w = rt_work_init w"

text \<open>Resume the worker and schedule.\<close>

definition wake_worker :: "nat \<Rightarrow> wq_sys \<Rightarrow> wq_sys option" where
  "wake_worker q s = upd_kern (\<lambda>k. do { (r, k1) \<leftarrow> rt_thread_resume (work_thread (queues s q)) k; rt_schedule k1 }) s"

definition workqueue_submit_work :: "nat \<Rightarrow> nat \<Rightarrow> wq_sys \<Rightarrow> (rt_err_t \<times> wq_sys) option" where
  "workqueue_submit_work q w s =
     (if state_pending (works s w) then Some (- RT_EBUSY, s)
      else if work_current (queues s q) = Some w then Some (- RT_EBUSY, s)
      else let s1 = upd_work w (\<lambda>x. x\<lparr>state_pending := True\<rparr>)
                      (upd_queue q (\<lambda>x. x\<lparr>work_list := work_list x @ [w]\<rparr>) (remove_node w s))
           in do { s2 \<leftarrow> (if work_current (queues s q) = None then wake_worker q s1 else Some s1); Some (RT_EOK, s2) })"

definition workqueue_cancel_work :: "nat \<Rightarrow> nat \<Rightarrow> wq_sys \<Rightarrow> rt_err_t \<times> wq_sys" where
  "workqueue_cancel_work q w s =
     (if work_current (queues s q) = Some w then (- RT_EBUSY, s)
      else (RT_EOK, upd_work w (\<lambda>x. x\<lparr>state_pending := False\<rparr>) (remove_node w s)))"

definition workqueue_cancel_delayed_work :: "nat \<Rightarrow> wq_sys \<Rightarrow> (rt_err_t \<times> wq_sys) option" where
  "workqueue_cancel_delayed_work w s =
     (case workqueue (works s w) of None \<Rightarrow> Some (- EINVAL, s)
      | Some q \<Rightarrow>
          let leave = upd_work w (\<lambda>x. x\<lparr>workqueue := None, state_pending := False\<rparr>) in
          if state_pending (works s w)
          then (case workqueue_cancel_work q w s of (r, s1) \<Rightarrow> if r \<noteq> RT_EOK then Some (r, s1) else Some (RT_EOK, leave s1))
          else if state_submitting (works s w)
          then do { s1 \<leftarrow> upd_tmr (rt_timer_stop w) s;
                    s2 \<leftarrow> upd_tmr (rt_timer_detach w) s1;
                    Some (RT_EOK, leave (upd_work w (\<lambda>x. x\<lparr>state_submitting := False\<rparr>) s2)) }
          else Some (RT_EOK, leave s))"

definition workqueue_submit_delayed_work :: "nat \<Rightarrow> nat \<Rightarrow> u32 \<Rightarrow> wq_sys \<Rightarrow> (rt_err_t \<times> wq_sys) option" where
  "workqueue_submit_delayed_work q w tk s =
     (if workqueue (works s w) \<noteq> None \<and> workqueue (works s w) \<noteq> Some q then Some (- RT_EINVAL, s)
      else do {
        (r, s1) \<leftarrow> (if workqueue (works s w) = Some q then workqueue_cancel_delayed_work w s else Some (RT_EOK, s));
        if r < 0 then Some (r, s1)
        else let s2 = upd_work w (\<lambda>x. x\<lparr>workqueue := Some q\<rparr>) s1 in
             if tk = 0 then workqueue_submit_work q w s2
             else let s3 = upd_work w (\<lambda>x. x\<lparr>state_submitting := True\<rparr>) s2 in
                  do { s4 \<leftarrow> upd_tmr (\<lambda>ts. Some (RT_EOK, rt_timer_init w w tk RT_TIMER_FLAG_SOFT_TIMER ts)) s3;
                       s5 \<leftarrow> upd_tmr (rt_timer_start w) s4;
                       Some (RT_EOK, s5) } })"

definition delayed_work_timeout_handler :: "nat \<Rightarrow> wq_sys \<Rightarrow> wq_sys option" where
  "delayed_work_timeout_handler w s =
     do { s1 \<leftarrow> upd_tmr (rt_timer_stop w) s;
          s2 \<leftarrow> upd_tmr (rt_timer_detach w) s1;
          let s3 = upd_work w (\<lambda>x. x\<lparr>state_submitting := False, type_delayed := False\<rparr>) s2;
          q \<leftarrow> workqueue (works s3 w);
          (r, s4) \<leftarrow> workqueue_submit_work q w s3;
          Some s4 }"

text \<open>\<open>mem\<close> is the address of the queue and \<open>thr\<close> that of the thread, if the heap has memory for them.  The semaphore
  is part of the queue.\<close>

definition rt_workqueue_create :: "nat option \<Rightarrow> nat \<Rightarrow> nat option \<Rightarrow> u8 \<Rightarrow> wq_sys \<Rightarrow> (nat option \<times> wq_sys) option" where
  "rt_workqueue_create mem sem thr prio s =
     (case mem of None \<Rightarrow> Some (None, s)
      | Some q \<Rightarrow>
          do { ip \<leftarrow> rt_sem_init sem 0 RT_IPC_FLAG_FIFO (wq_ipc s);
               let s1 = s\<lparr>wq_ipc := ip\<rparr>;
               case thr of None \<Rightarrow> Some (None, s1)
               | Some t \<Rightarrow>
                   do { s2 \<leftarrow> upd_kern (rt_thread_init_fields t prio 10) s1;
                        let s3 = (upd_queue q (\<lambda>_. \<lparr>work_list = [], work_current = None, wq_sem = sem, work_thread = t\<rparr>) s2)
                                   \<lparr>worker := (worker s2)(q := At_Check)\<rparr>;
                        s4 \<leftarrow> upd_kern (\<lambda>k. map_option snd (rt_thread_startup t k)) s3;
                        Some (Some q, s4) } })"

text \<open>The thread is deleted with what \<open>Thread_Life\<close> keeps of it.\<close>

definition rt_workqueue_destroy :: "nat \<Rightarrow> life_sys \<Rightarrow> wq_sys \<Rightarrow> (rt_err_t \<times> life_sys \<times> wq_sys) option" where
  "rt_workqueue_destroy q l s =
     do { (r, l1) \<leftarrow> rt_thread_delete (work_thread (queues s q)) (l\<lparr>life_kern := kern (wq_ipc s)\<rparr>);
          Some (RT_EOK, l1, s\<lparr>wq_ipc := (wq_ipc s)\<lparr>kern := life_kern l1\<rparr>\<rparr>) }"

definition rt_workqueue_dowork :: "nat \<Rightarrow> nat \<Rightarrow> wq_sys \<Rightarrow> (rt_err_t \<times> wq_sys) option" where
  "rt_workqueue_dowork q w s = workqueue_submit_work q w s"

definition rt_workqueue_submit_work :: "nat \<Rightarrow> nat \<Rightarrow> u32 \<Rightarrow> wq_sys \<Rightarrow> (rt_err_t \<times> wq_sys) option" where
  "rt_workqueue_submit_work q w time s =
     (let s1 = (if time > 0 then upd_work w (\<lambda>x. x\<lparr>type_delayed := True\<rparr>) s else s) in
      if type_delayed (works s1 w) then workqueue_submit_delayed_work q w time s1 else workqueue_submit_work q w s1)"

definition rt_workqueue_critical_work :: "nat \<Rightarrow> nat \<Rightarrow> wq_sys \<Rightarrow> (rt_err_t \<times> wq_sys) option" where
  "rt_workqueue_critical_work q w s =
     (if work_current (queues s q) = Some w then Some (- RT_EBUSY, s)
      else let s1 = upd_queue q (\<lambda>x. x\<lparr>work_list := work_list x @ [w]\<rparr>) (remove_node w s)
           in do { s2 \<leftarrow> (if work_current (queues s q) = None then wake_worker q s1 else Some s1); Some (RT_EOK, s2) })"

definition rt_workqueue_cancel_work :: "nat \<Rightarrow> nat \<Rightarrow> wq_sys \<Rightarrow> (rt_err_t \<times> wq_sys) option" where
  "rt_workqueue_cancel_work q w s =
     (if type_delayed (works s w) then workqueue_cancel_delayed_work w s else Some (workqueue_cancel_work q w s))"

text \<open>When the call waits for the current work, its last step comes after the semaphore was taken.\<close>

definition cancel_sync_rest :: "nat \<Rightarrow> wq_sys \<Rightarrow> rt_err_t \<times> wq_sys" where
  "cancel_sync_rest w s = (RT_EOK, upd_work w (\<lambda>x. x\<lparr>state_pending := False\<rparr>) s)"

definition rt_workqueue_cancel_work_sync :: "nat \<Rightarrow> nat \<Rightarrow> wq_sys \<Rightarrow> (outcome \<times> wq_sys) option" where
  "rt_workqueue_cancel_work_sync q w s =
     (if work_current (queues s q) = Some w
      then do { (r, ip) \<leftarrow> rt_sem_take (wq_sem (queues s q)) (- 1) (wq_ipc s);
                let s1 = s\<lparr>wq_ipc := ip\<rparr>;
                Some (case r of Blocked \<Rightarrow> (Blocked, s1) | Returned _ \<Rightarrow> (case cancel_sync_rest w s1 of (e, s2) \<Rightarrow> (Returned e, s2))) }
      else (case cancel_sync_rest w (remove_node w s) of (e, s2) \<Rightarrow> Some (Returned e, s2)))"

definition rt_workqueue_cancel_all_work :: "nat \<Rightarrow> wq_sys \<Rightarrow> (rt_err_t \<times> wq_sys) option" where
  "rt_workqueue_cancel_all_work q s =
     do { s1 \<leftarrow> upd_kern (\<lambda>k. Some (rt_enter_critical k)) s;
          s2 \<leftarrow> upd_kern rt_exit_critical (upd_queue q (\<lambda>x. x\<lparr>work_list := []\<rparr>) s1);
          Some (RT_EOK, s2) }"

section \<open>The worker thread\<close>

text \<open>The loop of the acknowledgement wakes every thread that waits for the end of the work and leaves the semaphore at
  zero; each turn but the last two wakes one thread.\<close>

fun completion_loop :: "nat \<Rightarrow> nat \<Rightarrow> ipc_sys \<Rightarrow> (rt_err_t \<times> ipc_sys) option" where
  "completion_loop 0 i s = None"
| "completion_loop (Suc fuel) i s =
     do { (r, s1) \<leftarrow> rt_sem_trytake i s;
          if r = Returned (- RT_ETIMEOUT) then do { (e, s2) \<leftarrow> rt_sem_release i s1; completion_loop fuel i s2 }
          else if r = Returned RT_EOK then Some (RT_EOK, s1)
          else Some (- RT_ERROR, s1) }"

definition workqueue_work_completion :: "nat \<Rightarrow> ipc_sys \<Rightarrow> (rt_err_t \<times> ipc_sys) option" where
  "workqueue_work_completion i s =
     do { (r, s1) \<leftarrow> completion_loop (length (waiting (kern s) i) + 2) i (s\<lparr>kern := rt_enter_critical (kern s)\<rparr>);
          k \<leftarrow> rt_exit_critical (kern s1);
          Some (r, s1\<lparr>kern := k\<rparr>) }"

text \<open>One step of the worker thread of queue \<open>q\<close>.\<close>

definition workqueue_thread_step :: "nat \<Rightarrow> wq_sys \<Rightarrow> wq_sys option" where
  "workqueue_thread_step q s =
     (let goto = (\<lambda>pc s. s\<lparr>worker := (worker s)(q := pc)\<rparr>) in
      case worker s q of
        At_Check \<Rightarrow> Some (goto (if work_list (queues s q) = [] then At_Suspend else At_Fetch) s)
      | At_Suspend \<Rightarrow>
          map_option (goto At_Fetch) (upd_kern (\<lambda>k. do { t \<leftarrow> rt_current_thread k; (r, k1) \<leftarrow> rt_thread_suspend t k; rt_schedule k1 }) s)
      | At_Fetch \<Rightarrow>
          (case work_list (queues s q) of [] \<Rightarrow> None
           | w # ws \<Rightarrow> Some (goto (At_Work w) (upd_work w (\<lambda>x. x\<lparr>state_pending := False, workqueue := None\<rparr>)
                          (upd_queue q (\<lambda>x. x\<lparr>work_current := Some w\<rparr>) (remove_node w s)))\<lparr>executed := (executed s)(q := executed s q @ [w])\<rparr>))
      | At_Work w \<Rightarrow> Some (goto At_Ack (upd_queue q (\<lambda>x. x\<lparr>work_current := None\<rparr>) s))
      | At_Ack \<Rightarrow> do { (r, ip) \<leftarrow> workqueue_work_completion (wq_sem (queues s q)) (wq_ipc s); Some (goto At_Check (s\<lparr>wq_ipc := ip\<rparr>)) })"

section \<open>Works run in the order of their submission\<close>

datatype wq_event = Submitted nat | Silent

fun submissions :: "wq_event list \<Rightarrow> nat list" where
  "submissions [] = []"
| "submissions (Submitted w # ls) = w # submissions ls"
| "submissions (Silent # ls) = submissions ls"

text \<open>What can happen to queue \<open>q\<close>.  The rest of the kernel, and works that call nothing of this file, may change
  threads and semaphores.\<close>

inductive wq_step :: "nat \<Rightarrow> wq_sys \<Rightarrow> wq_event \<Rightarrow> wq_sys \<Rightarrow> bool" for q where
  do_submit: "rt_workqueue_submit_work q w time s = Some (r, s') \<Longrightarrow> wq_step q s (Submitted w) s'"
| do_work: "rt_workqueue_dowork q w s = Some (r, s') \<Longrightarrow> wq_step q s (Submitted w) s'"
| do_critical: "rt_workqueue_critical_work q w s = Some (r, s') \<Longrightarrow> wq_step q s (Submitted w) s'"
| do_timeout: "workqueue (works s w) = Some q \<Longrightarrow> delayed_work_timeout_handler w s = Some s' \<Longrightarrow> wq_step q s (Submitted w) s'"
| do_cancel: "rt_workqueue_cancel_work q w s = Some (r, s') \<Longrightarrow> wq_step q s Silent s'"
| do_cancel_sync: "rt_workqueue_cancel_work_sync q w s = Some (r, s') \<Longrightarrow> wq_step q s Silent s'"
| do_cancel_rest: "cancel_sync_rest w s = (r, s') \<Longrightarrow> wq_step q s Silent s'"
| do_cancel_all: "rt_workqueue_cancel_all_work q s = Some (r, s') \<Longrightarrow> wq_step q s Silent s'"
| do_worker: "workqueue_thread_step q s = Some s' \<Longrightarrow> wq_step q s Silent s'"
| do_other: "wq_step q s Silent (s\<lparr>wq_ipc := ip\<rparr>)"

inductive wq_run :: "nat \<Rightarrow> wq_sys \<Rightarrow> wq_event list \<Rightarrow> wq_sys \<Rightarrow> bool" for q where
  wq_Nil: "wq_run q s [] s"
| wq_Cons: "wq_step q s l s1 \<Longrightarrow> wq_run q s1 ls s' \<Longrightarrow> wq_run q s (l # ls) s'"

text \<open>The works that ran and those that are to run.\<close>

definition wq_log :: "nat \<Rightarrow> wq_sys \<Rightarrow> nat list" where
  "wq_log q s = executed s q @ work_list (queues s q)"

lemma upd_simps [simp]:
  "queues (upd_work w f s) = queues s" "executed (upd_work w f s) = executed s" "works (upd_work w f s) = (works s)(w := f (works s w))"
  "wq_ipc (upd_work w f s) = wq_ipc s" "worker (upd_work w f s) = worker s"
  "queues (upd_queue p g s) = (queues s)(p := g (queues s p))" "executed (upd_queue p g s) = executed s" "works (upd_queue p g s) = works s"
  "wq_ipc (upd_queue p g s) = wq_ipc s" "worker (upd_queue p g s) = worker s"
  "queues (remove_node w s) p = (queues s p)\<lparr>work_list := removeAll w (work_list (queues s p))\<rparr>" "executed (remove_node w s) = executed s"
  "works (remove_node w s) = works s" "wq_ipc (remove_node w s) = wq_ipc s" "worker (remove_node w s) = worker s"
  by (simp_all add: upd_work_def upd_queue_def remove_node_def)

lemma upd_kern_same:
  "upd_kern f s = Some s' \<Longrightarrow> \<exists>ip. s' = s\<lparr>wq_ipc := ip\<rparr>" "upd_tmr g s = Some s' \<Longrightarrow> \<exists>ip. s' = s\<lparr>wq_ipc := ip\<rparr>"
  by (auto simp: upd_tmr_def upd_kern_def split: Option.bind_splits)

lemma subseq_removeAll: "subseq (removeAll w l) l"
  by (induction l) auto

lemma subseq_front [simp]: "subseq l (l @ m)"
  by (simp add: prefix_imp_subseq)

lemma moved_last: "subseq (removeAll w l @ [w]) (l @ [w])"
  by (simp add: subseq_removeAll)

lemma submit_log:
  assumes "workqueue_submit_work q w s = Some (r, s')"
  shows "executed s' = executed s" "subseq (work_list (queues s' q)) (work_list (queues s q) @ [w])"
proof -
  have "executed s' = executed s \<and> (work_list (queues s' q) = work_list (queues s q) \<or> work_list (queues s' q) = removeAll w (work_list (queues s q)) @ [w])"
    using assms by (auto simp: workqueue_submit_work_def wake_worker_def Let_def split: if_splits Option.bind_splits dest!: upd_kern_same)
  then show "executed s' = executed s" "subseq (work_list (queues s' q)) (work_list (queues s q) @ [w])"
    using moved_last [of w] by auto
qed

lemma critical_log:
  assumes "rt_workqueue_critical_work q w s = Some (r, s')"
  shows "executed s' = executed s" "subseq (work_list (queues s' q)) (work_list (queues s q) @ [w])"
proof -
  have "executed s' = executed s \<and> (work_list (queues s' q) = work_list (queues s q) \<or> work_list (queues s' q) = removeAll w (work_list (queues s q)) @ [w])"
    using assms by (auto simp: rt_workqueue_critical_work_def wake_worker_def Let_def split: if_splits Option.bind_splits dest!: upd_kern_same)
  then show "executed s' = executed s" "subseq (work_list (queues s' q)) (work_list (queues s q) @ [w])"
    using moved_last [of w] by auto
qed

lemma cancel_delayed_log:
  assumes "workqueue_cancel_delayed_work w s = Some (r, s')"
  shows "executed s' = executed s" "subseq (work_list (queues s' q)) (work_list (queues s q))"
  using assms subseq_removeAll
  by (auto simp: workqueue_cancel_delayed_work_def workqueue_cancel_work_def Let_def split: option.splits if_splits Option.bind_splits dest!: upd_kern_same)

lemma submit_delayed_log:
  assumes "workqueue_submit_delayed_work q w tk s = Some (r, s')"
  shows "executed s' = executed s \<and> subseq (work_list (queues s' q)) (work_list (queues s q) @ [w])"
proof (cases "s' = s")
  case False
  then obtain r1 s1 where s1: "(if workqueue (works s w) = Some q then workqueue_cancel_delayed_work w s else Some (RT_EOK, s)) = Some (r1, s1)"
    using assms by (auto simp: workqueue_submit_delayed_work_def split: if_splits Option.bind_splits)
  then have e1: "executed s1 = executed s" and l1: "subseq (work_list (queues s1 q)) (work_list (queues s q))"
    using cancel_delayed_log [of w s r1 s1] by (auto split: if_splits)
  have "executed s' = executed s1 \<and> subseq (work_list (queues s' q)) (work_list (queues s1 q) @ [w])"
    using assms s1 False submit_log [of q w "upd_work w (\<lambda>x. x\<lparr>workqueue := Some q\<rparr>) s1" r s']
    by (auto simp: workqueue_submit_delayed_work_def Let_def split: if_splits Option.bind_splits dest!: upd_kern_same)
  then have e2: "executed s' = executed s1" and l2: "subseq (work_list (queues s' q)) (work_list (queues s1 q) @ [w])"
    by simp_all
  from subseq_order.trans [OF l2 list_emb_append_mono [OF l1 subseq_order.refl]] e1 e2 show ?thesis
    by simp
qed simp

lemma cancel_log:
  assumes "rt_workqueue_cancel_work q w s = Some (r, s')"
  shows "executed s' = executed s \<and> subseq (work_list (queues s' q)) (work_list (queues s q))"
  using assms cancel_delayed_log [of w s r s'] subseq_removeAll
  by (auto simp: rt_workqueue_cancel_work_def workqueue_cancel_work_def split: if_splits)

lemma cancel_sync_log:
  assumes "rt_workqueue_cancel_work_sync q w s = Some (r, s')"
  shows "executed s' = executed s \<and> subseq (work_list (queues s' q)) (work_list (queues s q))"
  using assms subseq_removeAll
  by (auto simp: rt_workqueue_cancel_work_sync_def cancel_sync_rest_def Let_def split: if_splits Option.bind_splits outcome.splits)

lemma fetched_front: "subseq (w # removeAll w ws) (w # ws)"
  using subseq_removeAll by simp

lemma worker_log:
  assumes "workqueue_thread_step q s = Some s'"
  shows "subseq (wq_log q s') (wq_log q s)"
proof (cases "worker s q = At_Fetch")
  case True
  then obtain w ws where "work_list (queues s q) = w # ws" "executed s' q = executed s q @ [w]" "work_list (queues s' q) = removeAll w ws"
    using assms by (auto simp: workqueue_thread_step_def Let_def split: list.splits)
  then show ?thesis
    by (simp add: wq_log_def subseq_append' subseq_removeAll)
next
  case False
  then have "executed s' = executed s \<and> work_list (queues s' q) = work_list (queues s q)"
    using assms by (auto simp: workqueue_thread_step_def Let_def split: worker_pc.splits Option.bind_splits dest!: upd_kern_same)
  then show ?thesis
    by (simp add: wq_log_def)
qed

lemma timeout_log:
  assumes "workqueue (works s w) = Some q" "delayed_work_timeout_handler w s = Some s'"
  shows "executed s' = executed s \<and> subseq (work_list (queues s' q)) (work_list (queues s q) @ [w])"
proof -
  obtain ip r where s': "workqueue_submit_work q w (upd_work w (\<lambda>x. x\<lparr>state_submitting := False, type_delayed := False\<rparr>) (s\<lparr>wq_ipc := ip\<rparr>)) = Some (r, s')"
    using assms by (auto simp: delayed_work_timeout_handler_def Let_def split: Option.bind_splits dest!: upd_kern_same)
  show ?thesis
    using submit_log [OF s'] by simp
qed

lemma wq_step_log:
  assumes "wq_step q s l s'"
  shows "subseq (wq_log q s') (wq_log q s @ submissions [l])"
  using assms
proof (cases rule: wq_step.cases)
  case (do_submit w time r)
  obtain s1 where "workqueue_submit_delayed_work q w time s1 = Some (r, s') \<or> workqueue_submit_work q w s1 = Some (r, s')"
    and s1: "executed s1 = executed s" "queues s1 = queues s"
    using do_submit(2) by (fastforce simp: rt_workqueue_submit_work_def Let_def split: if_splits)
  then have "executed s' = executed s \<and> subseq (work_list (queues s' q)) (work_list (queues s q) @ [w])"
    using submit_log [of q w s1 r s'] submit_delayed_log [of q w time s1 r s'] by auto
  then show ?thesis
    by (simp add: wq_log_def subseq_append' do_submit(1))
next
  case (do_work w r)
  then show ?thesis
    using submit_log [of q w s r s'] by (simp add: rt_workqueue_dowork_def wq_log_def subseq_append')
next
  case (do_critical w r)
  then show ?thesis
    using critical_log by (simp add: wq_log_def subseq_append')
next
  case (do_timeout w)
  then show ?thesis
    using timeout_log by (simp add: wq_log_def subseq_append')
next
  case (do_cancel w r)
  then show ?thesis
    using cancel_log by (simp add: wq_log_def subseq_append')
next
  case (do_cancel_sync w r)
  then show ?thesis
    using cancel_sync_log by (simp add: wq_log_def subseq_append')
next
  case (do_cancel_rest w r)
  then show ?thesis
    by (auto simp: cancel_sync_rest_def wq_log_def)
next
  case (do_cancel_all r)
  then have "executed s' = executed s \<and> work_list (queues s' q) = []"
    by (auto simp: rt_workqueue_cancel_all_work_def split: Option.bind_splits dest!: upd_kern_same)
  then show ?thesis
    by (simp add: wq_log_def do_cancel_all(1))
next
  case do_worker
  then show ?thesis
    using worker_log by simp
next
  case (do_other ip)
  then show ?thesis
    by (simp add: wq_log_def subseq_append')
qed

text \<open>Whatever is submitted, delayed, cancelled and run, the works that were executed, followed by those still on the
  list, were submitted in this order, and each as often as it was submitted at most.\<close>

theorem works_run_in_order:
  assumes "wq_run q s ls s'"
  shows "subseq (executed s' q @ work_list (queues s' q)) (executed s q @ work_list (queues s q) @ submissions ls)"
proof -
  have "subseq (wq_log q s') (wq_log q s @ submissions ls)"
    using assms
  proof (induction rule: wq_run.induct)
    case (wq_Cons s l s1 ls s')
    have "subseq (wq_log q s1 @ submissions ls) (wq_log q s @ submissions [l] @ submissions ls)"
      using list_emb_append_mono [OF wq_step_log [OF wq_Cons.hyps(1)] subseq_order.refl, of "submissions ls"] by simp
    then show ?case
      using subseq_order.trans [OF wq_Cons.IH] by (cases l) simp_all
  qed simp
  then show ?thesis
    by (simp add: wq_log_def subseq_append')
qed

section \<open>The end of a work is always acknowledged\<close>

text \<open>The thread \<open>t\<close> runs with the scheduler locked.\<close>

definition locked_by :: "nat \<Rightarrow> sched \<Rightarrow> bool" where
  "locked_by t k \<longleftrightarrow> sched_wf k \<and> runs k t \<and> rt_scheduler_lock_nest k = 1"

definition runs_or_ready :: "sched \<Rightarrow> nat \<Rightarrow> bool" where
  "runs_or_ready k u \<longleftrightarrow> stat (threads k u) \<in> {RT_THREAD_READY, RT_THREAD_RUNNING}"

lemma locked_resume:
  assumes "locked_by t k" "waiting k i = u # us" "timers (tmr k) u \<noteq> None"
  shows "\<exists>k1. rt_ipc_list_resume i k = Some k1 \<and> rt_schedule k1 = Some k1 \<and> locked_by t k1 \<and> waiting k1 i = us \<and> runs_or_ready k1 u \<and>
    (\<forall>v. v \<noteq> u \<longrightarrow> threads k1 v = threads k v) \<and> (\<forall>v. timers (tmr k) v \<noteq> None \<longrightarrow> timers (tmr k1) v \<noteq> None)"
proof -
  have wf: "sched_wf k" and q: "queues_ok {} k"
    using assms(1) by (simp_all add: locked_by_def sched_wf_def)
  have susp: "stat (threads k u) = RT_THREAD_SUSPEND" and d: "u \<notin> set us"
    using queues_okD(5) [OF q, of u i] queues_okD(6) [OF q, of i] assms(2) by simp_all
  obtain r ts where ts: "rt_timer_stop u (tmr k) = Some (r, ts)" "\<And>v. timers (tmr k) v \<noteq> None \<Longrightarrow> timers ts v \<noteq> None"
    using timer_stop_exists [OF assms(3)] by blast
  define k1 where "k1 = rt_schedule_insert_thread u ((tlist_remove u k)\<lparr>tmr := ts\<rparr>)"
  have k1: "rt_ipc_list_resume i k = Some k1"
    using susp ts(1) assms(2) by (simp add: rt_ipc_list_resume_def rt_thread_resume_def thread_timer_stop_def k1_def)
  have "locked_by t k1"
    using list_resume_shrinks(1) [OF wf k1] assms(1) susp by (auto simp: locked_by_def runs_def k1_def)
  moreover have "waiting k1 i = us"
    using d by (simp add: k1_def assms(2) removeAll_id)
  moreover have "runs_or_ready k1 u"
    using list_resume_first(1) [OF wf k1 assms(2)] by (simp add: runs_or_ready_def)
  moreover have "\<forall>v. v \<noteq> u \<longrightarrow> threads k1 v = threads k v" "\<forall>v. timers (tmr k) v \<noteq> None \<longrightarrow> timers (tmr k1) v \<noteq> None"
    using ts(2) by (auto simp: k1_def)
  ultimately show ?thesis
    using k1 by (auto simp: locked_by_def rt_schedule_def)
qed

lemma completion_loop_ends:
  assumes "locked_by t (kern s)" "sems s i = Some sm" "sem_value sm = 0" "waiting (kern s) i = us" "\<forall>u \<in> set us. timers (tmr (kern s)) u \<noteq> None"
    and "length us + 2 \<le> fuel"
  shows "\<exists>s'. completion_loop fuel i s = Some (RT_EOK, s') \<and> locked_by t (kern s') \<and> waiting (kern s') i = [] \<and> sems s' i = Some sm \<and>
    (\<forall>u. u \<in> set us \<or> runs_or_ready (kern s) u \<longrightarrow> runs_or_ready (kern s') u)"
  using assms
proof (induction us arbitrary: s fuel)
  case Nil
  then obtain n where n: "fuel = Suc (Suc n)"
    by (cases fuel; cases "fuel - 1") auto
  have "sm\<lparr>sem_value := 0\<rparr> = sm"
    using Nil.prems(3) by simp
  with Nil.prems n show ?case
    by (auto simp: rt_sem_trytake_def rt_sem_take_def rt_sem_release_def)
next
  case (Cons u us)
  obtain n where n: "fuel = Suc n" "length us + 2 \<le> n"
    using Cons.prems(6) by (cases fuel) auto
  obtain k1 where k1: "rt_ipc_list_resume i (kern s) = Some k1" "rt_schedule k1 = Some k1" "locked_by t k1" "waiting k1 i = us" "runs_or_ready k1 u"
    "\<forall>v. v \<noteq> u \<longrightarrow> threads k1 v = threads (kern s) v" "\<forall>v. timers (tmr (kern s)) v \<noteq> None \<longrightarrow> timers (tmr k1) v \<noteq> None"
    using locked_resume [OF Cons.prems(1,4)] Cons.prems(5) by auto
  have step: "completion_loop fuel i s = completion_loop n i (s\<lparr>kern := k1\<rparr>)"
    using Cons.prems(2-4) k1(1,2) by (simp add: n(1) rt_sem_trytake_def rt_sem_take_def rt_sem_release_def)
  have "\<forall>v \<in> set us. timers (tmr (kern (s\<lparr>kern := k1\<rparr>))) v \<noteq> None"
    using Cons.prems(5) k1(7) by simp
  from Cons.IH [of "s\<lparr>kern := k1\<rparr>" n, OF _ _ Cons.prems(3) _ this n(2)] k1(3,4) Cons.prems(2) obtain s' where
    s': "completion_loop n i (s\<lparr>kern := k1\<rparr>) = Some (RT_EOK, s')" "locked_by t (kern s')" "waiting (kern s') i = []" "sems s' i = Some sm"
    "\<forall>v. v \<in> set us \<or> runs_or_ready k1 v \<longrightarrow> runs_or_ready (kern s') v"
    by auto
  have "runs_or_ready k1 v" if "v = u \<or> runs_or_ready (kern s) v" for v
    using that k1(5,6) by (cases "v = u") (auto simp: runs_or_ready_def)
  then show ?case
    using s' step by auto
qed

text \<open>When the thread of a work queue has done a work, the acknowledgement comes to an end: it wakes every thread that
  waits in \<open>rt_workqueue_cancel_work_sync\<close> for the end of the work, leaves nobody waiting and the semaphore at zero.\<close>

theorem work_completion_returns:
  assumes "sched_wf (kern s)" "runs (kern s) t" "rt_scheduler_lock_nest (kern s) = 0" "sems s i = Some sm" "sem_value sm = 0"
    and "\<forall>u \<in> set (waiting (kern s) i). timers (tmr (kern s)) u \<noteq> None"
  shows "\<exists>s'. workqueue_work_completion i s = Some (RT_EOK, s') \<and> sched_wf (kern s') \<and> waiting (kern s') i = [] \<and> sems s' i = Some sm \<and>
    (\<forall>u \<in> set (waiting (kern s) i). stat (threads (kern s') u) \<in> {RT_THREAD_READY, RT_THREAD_RUNNING})"
proof -
  let ?s = "s\<lparr>kern := rt_enter_critical (kern s)\<rparr>"
  have l: "locked_by t (kern ?s)"
    using assms(1-3) critical_wf(1) [OF assms(1)] by (simp add: locked_by_def runs_def rt_enter_critical_def)
  have pre: "sems ?s i = Some sm" "waiting (kern ?s) i = waiting (kern s) i" "\<forall>u \<in> set (waiting (kern s) i). timers (tmr (kern ?s)) u \<noteq> None"
    using assms(4,6) by (simp_all add: rt_enter_critical_def)
  obtain s1 where s1: "completion_loop (length (waiting (kern s) i) + 2) i ?s = Some (RT_EOK, s1)" "locked_by t (kern s1)" "waiting (kern s1) i = []"
    "sems s1 i = Some sm" "\<forall>u \<in> set (waiting (kern s) i). runs_or_ready (kern s1) u"
    using completion_loop_ends [OF l pre(1) assms(5) pre(2,3) order_refl] by blast
  define k where "k = (kern s1)\<lparr>rt_scheduler_lock_nest := 0\<rparr>"
  have k: "sched_wf k" "rt_scheduler_lock_nest k = 0" "rt_current_thread k = Some t" "stat (threads k t) = RT_THREAD_RUNNING"
    "waiting k i = []" "threads k = threads (kern s1)"
    using s1(2,3) by (simp_all add: k_def locked_by_def runs_def lock_wf)
  obtain k' where k': "rt_schedule k = Some k'" "sched_wf k'" "switches k k'" "waiting k' = waiting k"
    using schedule_best [OF k(1-3)] k(4) by blast
  have "rt_exit_critical (kern s1) = Some k'"
    using s1(2) k'(1) by (simp add: rt_exit_critical_def locked_by_def runs_def k_def)
  then have "workqueue_work_completion i s = Some (RT_EOK, s1\<lparr>kern := k'\<rparr>)"
    using s1(1) by (simp add: workqueue_work_completion_def)
  then show ?thesis
    using k' k(5,6) s1(4,5) by (auto simp: switches_def runs_or_ready_def)
qed

definition demo_sync :: ipc_sys where
  "demo_sync = \<lparr>kern = demo_waiters, sems = [7 \<mapsto> \<lparr>sem_value = 0, sem_flag = RT_IPC_FLAG_FIFO\<rparr>], mutexes = Map.empty\<rparr>"

theorem work_completion_returns_witness:
  "set (waiting (kern demo_sync) 7) = {2, 3} \<and>
   (\<exists>s'. workqueue_work_completion 7 demo_sync = Some (RT_EOK, s') \<and> waiting (kern s') 7 = [] \<and> stat (threads (kern s') 3) \<in> {RT_THREAD_READY, RT_THREAD_RUNNING})"
proof -
  have k: "sched_wf (kern demo_sync)" "runs (kern demo_sync) 1" "rt_scheduler_lock_nest (kern demo_sync) = 0"
    "sems demo_sync 7 = Some \<lparr>sem_value = 0, sem_flag = RT_IPC_FLAG_FIFO\<rparr>" "set (waiting (kern demo_sync) 7) = {2, 3}"
    "\<forall>u \<in> set (waiting (kern demo_sync) 7). timers (tmr (kern demo_sync)) u \<noteq> None"
    using demo_waiters_wf by (auto simp: demo_sync_def demo_waiters_def demo_sched_def demo_timers_def demo_thread_def runs_def)
  from work_completion_returns [OF k(1-4) _ k(6)] k(5) show ?thesis
    by auto
qed

section \<open>What goes wrong\<close>

text \<open>\<open>rt_workqueue_cancel_all_work\<close> takes the works off the list and leaves them marked as pending: none of them can be
  submitted again.\<close>

lemma cancel_all_blocks_works:
  assumes "state_pending (works s w)" "rt_workqueue_cancel_all_work q s = Some (r, s')"
  shows "work_list (queues s' q) = [] \<and> workqueue_submit_work p w s' = Some (- RT_EBUSY, s')"
  using assms by (auto simp: rt_workqueue_cancel_all_work_def workqueue_submit_work_def split: Option.bind_splits dest!: upd_kern_same)

text \<open>The worker goes to sleep after it has seen an empty list, with interrupts enabled between: a work submitted there
  finds it awake, and the worker sleeps with a work to do.\<close>

lemma submit_before_suspend_is_lost:
  assumes "worker s q = At_Check" "work_list (queues s q) = []" "work_current (queues s q) = None" "\<not> state_pending (works s w)"
    and "stat (threads (kern (wq_ipc s)) (work_thread (queues s q))) \<noteq> RT_THREAD_SUSPEND"
    and "rt_schedule (kern (wq_ipc s)) = Some (kern (wq_ipc s))"
  shows "\<exists>s1 s2. workqueue_thread_step q s = Some s1 \<and> workqueue_submit_work q w s1 = Some (RT_EOK, s2) \<and>
    work_list (queues s2 q) = [w] \<and> worker s2 q = At_Suspend \<and> kern (wq_ipc s2) = kern (wq_ipc s)"
  using assms by (simp add: workqueue_thread_step_def workqueue_submit_work_def wake_worker_def upd_kern_def rt_thread_resume_def Let_def)

text \<open>A worker that was woken does not look at the list again: when the work was cancelled meanwhile, it takes the head of
  the list for a work.\<close>

lemma cancelled_work_is_fetched:
  assumes "worker s q = At_Fetch" "work_list (queues s q) = [w]" "work_current (queues s q) \<noteq> Some w"
  shows "workqueue_thread_step q (snd (workqueue_cancel_work q w s)) = None"
  using assms by (simp add: workqueue_cancel_work_def workqueue_thread_step_def Let_def)

text \<open>A critical work is put at the end of the list, like any other.\<close>

lemma critical_work_is_last:
  assumes "work_current (queues s q) = Some v" "v \<noteq> w"
  shows "\<exists>s'. rt_workqueue_critical_work q w s = Some (RT_EOK, s') \<and> work_list (queues s' q) = removeAll w (work_list (queues s q)) @ [w]"
  using assms by (simp add: rt_workqueue_critical_work_def Let_def)

text \<open>The memory of a queue that is destroyed, or could not be created, is freed while its semaphore is still registered.\<close>

lemma freed_queue_leaves_semaphore:
  "rt_workqueue_create (Some q) i None p s = Some (None, s') \<Longrightarrow> sems (wq_ipc s') i \<noteq> None"
  "rt_workqueue_destroy q l s = Some (r, l', s') \<Longrightarrow> sems (wq_ipc s') = sems (wq_ipc s)"
  by (auto simp: rt_workqueue_create_def rt_workqueue_destroy_def rt_sem_init_def split: if_splits Option.bind_splits)

end
