(* ===== verification/Ringbuffer.thy ===== *)
theory Ringbuffer
  imports Prelude
begin

text \<open>
  \<^verbatim>\<open>rt-thread/components/drivers/src/ringbuffer.c\<close>: the byte queue of the device
  drivers, written by one side and read by the other.  The indexes are the fields of fifteen bits and the mirrors the fields of
  one bit of \<open>struct rt_ringbuffer\<close>; \<open>buffer\<close> is the memory behind \<open>buffer_ptr\<close>.  A block of data
  is the list of its bytes.  \<open>None\<close> is a failed \<open>RT_ASSERT\<close>.  \<open>byte_queue\<close> is what a client may rely
  on, and \<open>rt_ringbuffer_put\<close> and \<open>rt_ringbuffer_get\<close> provide it.
\<close>

section \<open>State\<close>

record rt_ringbuffer =
  buffer :: "u8 list"
  read_mirror :: bool
  read_index :: nat
  write_mirror :: bool
  write_index :: nat
  buffer_size :: nat

datatype rt_ringbuffer_state = RT_RINGBUFFER_EMPTY | RT_RINGBUFFER_FULL | RT_RINGBUFFER_HALFFULL

text \<open>A value stored in a field of fifteen bits.\<close>

abbreviation (input) idx15 :: "nat \<Rightarrow> nat" where "idx15 n \<equiv> n mod 2 ^ 15"

section \<open>Operations\<close>

definition rt_ringbuffer_status :: "rt_ringbuffer \<Rightarrow> rt_ringbuffer_state" where
  "rt_ringbuffer_status rb =
     (if read_index rb = write_index rb
      then if read_mirror rb = write_mirror rb then RT_RINGBUFFER_EMPTY else RT_RINGBUFFER_FULL
      else RT_RINGBUFFER_HALFFULL)"

definition rt_ringbuffer_data_len :: "rt_ringbuffer \<Rightarrow> nat" where
  "rt_ringbuffer_data_len rb =
     (case rt_ringbuffer_status rb of
        RT_RINGBUFFER_EMPTY \<Rightarrow> 0
      | RT_RINGBUFFER_FULL \<Rightarrow> buffer_size rb
      | RT_RINGBUFFER_HALFFULL \<Rightarrow>
          if write_index rb > read_index rb then write_index rb - read_index rb
          else buffer_size rb - (read_index rb - write_index rb))"

definition rt_ringbuffer_space_len :: "rt_ringbuffer \<Rightarrow> nat" where
  "rt_ringbuffer_space_len rb = buffer_size rb - rt_ringbuffer_data_len rb"

definition rt_ringbuffer_init :: "u8 list \<Rightarrow> int \<Rightarrow> rt_ringbuffer option" where
  "rt_ringbuffer_init pool sz =
     (if sz > 0
      then Some \<lparr>buffer = pool, read_mirror = False, read_index = 0, write_mirror = False, write_index = 0,
                 buffer_size = nat sz div 4 * 4\<rparr>
      else None)"

definition rt_ringbuffer_reset :: "rt_ringbuffer \<Rightarrow> rt_ringbuffer" where
  "rt_ringbuffer_reset rb = rb\<lparr>read_mirror := False, read_index := 0, write_mirror := False, write_index := 0\<rparr>"

text \<open>The two ways a block is written, to the end of the buffer or around it.\<close>

definition write_block :: "u8 list \<Rightarrow> rt_ringbuffer \<Rightarrow> rt_ringbuffer" where
  "write_block xs rb =
     (let w = write_index rb; n = length xs; m = buffer_size rb - w in
      if m > n then rb\<lparr>buffer := blit (buffer rb) w xs n, write_index := idx15 (w + n)\<rparr>
      else rb\<lparr>buffer := blit (blit (buffer rb) w xs m) 0 (drop m xs) (n - m),
              write_mirror := \<not> write_mirror rb, write_index := idx15 (n - m)\<rparr>)"

definition rt_ringbuffer_put :: "u8 list \<Rightarrow> rt_ringbuffer \<Rightarrow> nat \<times> rt_ringbuffer" where
  "rt_ringbuffer_put xs rb =
     (let sz = rt_ringbuffer_space_len rb in
      if sz = 0 then (0, rb)
      else let n = (if sz < length xs then sz else length xs) in (n, write_block (take n xs) rb))"

definition rt_ringbuffer_put_force :: "u8 list \<Rightarrow> rt_ringbuffer \<Rightarrow> nat \<times> rt_ringbuffer" where
  "rt_ringbuffer_put_force xs rb =
     (let space = rt_ringbuffer_space_len rb;
          ys = (if length xs > buffer_size rb then drop (length xs - buffer_size rb) xs else xs);
          rb1 = write_block ys rb
      in (length ys,
          if \<not> length ys > space then rb1
          else if buffer_size rb - write_index rb > length ys then rb1\<lparr>read_index := write_index rb1\<rparr>
          else rb1\<lparr>read_mirror := \<not> read_mirror rb, read_index := write_index rb1\<rparr>))"

definition rt_ringbuffer_get :: "nat \<Rightarrow> rt_ringbuffer \<Rightarrow> u8 list \<times> rt_ringbuffer" where
  "rt_ringbuffer_get len rb =
     (let sz = rt_ringbuffer_data_len rb in
      if sz = 0 then ([], rb)
      else let n = (if sz < len then sz else len); r = read_index rb; m = buffer_size rb - r in
           if m > n then (take n (drop r (buffer rb)), rb\<lparr>read_index := idx15 (r + n)\<rparr>)
           else (take m (drop r (buffer rb)) @ take (n - m) (buffer rb),
                 rb\<lparr>read_mirror := \<not> read_mirror rb, read_index := idx15 (n - m)\<rparr>))"

text \<open>\<open>ptr\<close> is the position in the buffer, and \<open>None\<close> stands for \<open>RT_NULL\<close>.\<close>

definition rt_ringbuffer_peak :: "rt_ringbuffer \<Rightarrow> nat \<times> nat option \<times> rt_ringbuffer" where
  "rt_ringbuffer_peak rb =
     (let sz = rt_ringbuffer_data_len rb; r = read_index rb in
      if sz = 0 then (0, None, rb)
      else if buffer_size rb - r > sz then (sz, Some r, rb\<lparr>read_index := idx15 (r + sz)\<rparr>)
      else (buffer_size rb - r, Some r, rb\<lparr>read_mirror := \<not> read_mirror rb, read_index := 0\<rparr>))"

definition rt_ringbuffer_putchar :: "u8 \<Rightarrow> rt_ringbuffer \<Rightarrow> nat \<times> rt_ringbuffer" where
  "rt_ringbuffer_putchar ch rb =
     (if rt_ringbuffer_space_len rb = 0 then (0, rb)
      else let rb1 = rb\<lparr>buffer := (buffer rb)[write_index rb := ch]\<rparr> in
           (1, if int (write_index rb) = int (buffer_size rb) - 1
               then rb1\<lparr>write_mirror := \<not> write_mirror rb, write_index := 0\<rparr>
               else rb1\<lparr>write_index := idx15 (write_index rb + 1)\<rparr>))"

definition rt_ringbuffer_putchar_force :: "u8 \<Rightarrow> rt_ringbuffer \<Rightarrow> nat \<times> rt_ringbuffer" where
  "rt_ringbuffer_putchar_force ch rb =
     (let full = rt_ringbuffer_status rb = RT_RINGBUFFER_FULL; rb1 = rb\<lparr>buffer := (buffer rb)[write_index rb := ch]\<rparr> in
      (1, if int (write_index rb) = int (buffer_size rb) - 1
          then let rb2 = rb1\<lparr>write_mirror := \<not> write_mirror rb, write_index := 0\<rparr> in
               if full then rb2\<lparr>read_mirror := \<not> read_mirror rb, read_index := write_index rb2\<rparr> else rb2
          else let rb2 = rb1\<lparr>write_index := idx15 (write_index rb + 1)\<rparr> in
               if full then rb2\<lparr>read_index := write_index rb2\<rparr> else rb2))"

definition rt_ringbuffer_getchar :: "rt_ringbuffer \<Rightarrow> (nat \<times> u8 option) \<times> rt_ringbuffer" where
  "rt_ringbuffer_getchar rb =
     (if rt_ringbuffer_data_len rb = 0 then ((0, None), rb)
      else ((1, Some (buffer rb ! read_index rb)),
            if int (read_index rb) = int (buffer_size rb) - 1
            then rb\<lparr>read_mirror := \<not> read_mirror rb, read_index := 0\<rparr>
            else rb\<lparr>read_index := idx15 (read_index rb + 1)\<rparr>))"

text \<open>The two allocations are the memory that \<open>rt_malloc\<close> returns for the structure and for the pool; an
  allocation of no bytes returns \<open>RT_NULL\<close>.  The size passes from \<open>rt_uint16_t\<close> to \<open>rt_int16_t\<close>.\<close>

definition rt_ringbuffer_create :: "bool \<Rightarrow> (nat \<Rightarrow> u8 list option) \<Rightarrow> u16 \<Rightarrow> rt_ringbuffer option option" where
  "rt_ringbuffer_create have_rb rt_malloc sz0 =
     (if sz0 = 0 then None
      else let sz = unat sz0 div 4 * 4 in
           if \<not> have_rb then Some None
           else case rt_malloc sz of None \<Rightarrow> Some None
                | Some pool \<Rightarrow> map_option Some (rt_ringbuffer_init pool (sint (word_of_nat sz :: u16))))"

section \<open>The queue\<close>

definition rb_inv :: "rt_ringbuffer \<Rightarrow> bool" where
  "rb_inv rb \<longleftrightarrow> 0 < buffer_size rb \<and> buffer_size rb < 2 ^ 15 \<and> buffer_size rb \<le> length (buffer rb) \<and>
     read_index rb < buffer_size rb \<and> write_index rb < buffer_size rb \<and>
     (if read_mirror rb = write_mirror rb then read_index rb \<le> write_index rb else write_index rb \<le> read_index rb)"

definition rb_contents :: "rt_ringbuffer \<Rightarrow> u8 list" where
  "rb_contents rb = map (\<lambda>k. buffer rb ! ((read_index rb + k) mod buffer_size rb)) [0..<rt_ringbuffer_data_len rb]"

lemma mod_two: "x < 2 * s \<Longrightarrow> x mod s = (if x < s then x else x - (s :: nat))"
  by (simp add: mod_if)

lemma sub_mod: "s \<le> x \<Longrightarrow> (x - s) mod s = x mod (s :: nat)"
  by (simp add: le_mod_geq)

lemma data_len_cases:
  assumes "rb_inv rb"
  shows "rt_ringbuffer_data_len rb =
    (if read_mirror rb = write_mirror rb then write_index rb - read_index rb
     else buffer_size rb - (read_index rb - write_index rb))"
  using assms by (auto simp: rt_ringbuffer_data_len_def rt_ringbuffer_status_def rb_inv_def split: if_splits)

lemma data_len_le: "rb_inv rb \<Longrightarrow> rt_ringbuffer_data_len rb \<le> buffer_size rb"
  by (auto simp: data_len_cases rb_inv_def)

lemma length_rb_contents [simp]: "length (rb_contents rb) = rt_ringbuffer_data_len rb"
  by (simp add: rb_contents_def)

lemma nth_rb_contents:
  "k < rt_ringbuffer_data_len rb \<Longrightarrow> rb_contents rb ! k = buffer rb ! ((read_index rb + k) mod buffer_size rb)"
  by (simp add: rb_contents_def)

text \<open>A block is written from the write index on, around the end of the buffer.\<close>

lemma write_block_laws:
  assumes "rb_inv rb" "length xs \<le> buffer_size rb"
  shows "length (buffer (write_block xs rb)) = length (buffer rb)"
    and "j < buffer_size rb \<Longrightarrow> buffer (write_block xs rb) ! j =
      (let d = (if write_index rb \<le> j then j - write_index rb else buffer_size rb + j - write_index rb) in
       if d < length xs then xs ! d else buffer rb ! j)"
    and "write_index (write_block xs rb) =
      (if write_index rb + length xs < buffer_size rb then write_index rb + length xs else write_index rb + length xs - buffer_size rb)"
    and "write_mirror (write_block xs rb) = (write_mirror rb \<noteq> (buffer_size rb \<le> write_index rb + length xs))"
    and "read_index (write_block xs rb) = read_index rb" "read_mirror (write_block xs rb) = read_mirror rb"
      "buffer_size (write_block xs rb) = buffer_size rb"
  using assms by (auto simp: write_block_def Let_def rb_inv_def nth_blit)

lemma put_block:
  assumes "rb_inv rb" "length xs \<le> rt_ringbuffer_space_len rb"
  shows "rb_inv (write_block xs rb)" "rt_ringbuffer_data_len (write_block xs rb) = rt_ringbuffer_data_len rb + length xs"
    "rb_contents (write_block xs rb) = rb_contents rb @ xs"
proof -
  have n: "length xs \<le> buffer_size rb" "rt_ringbuffer_data_len rb + length xs \<le> buffer_size rb"
    using assms data_len_le [OF assms(1)] by (simp_all add: rt_ringbuffer_space_len_def)
  note w = write_block_laws [OF assms(1) n(1)]
  note d = data_len_cases [OF assms(1)]
  show inv: "rb_inv (write_block xs rb)"
    using assms(1) n(2) unfolding d unfolding rb_inv_def w by (auto split: if_splits)
  show len: "rt_ringbuffer_data_len (write_block xs rb) = rt_ringbuffer_data_len rb + length xs"
    using assms(1) n(2) unfolding data_len_cases [OF inv] d w rb_inv_def by (auto split: if_splits)
  show "rb_contents (write_block xs rb) = rb_contents rb @ xs"
  proof (rule nth_equalityI)
    fix k assume "k < length (rb_contents (write_block xs rb))"
    then have k: "k < rt_ringbuffer_data_len rb + length xs" by (simp add: len)
    define j where "j = (read_index rb + k) mod buffer_size rb"
    define off where "off = (if write_index rb \<le> j then j - write_index rb else buffer_size rb + j - write_index rb)"
    have j: "j < buffer_size rb" "j = (if read_index rb + k < buffer_size rb then read_index rb + k else read_index rb + k - buffer_size rb)"
      using assms(1) k n(2) by (auto simp: j_def rb_inv_def mod_two)
    have off: "off = (if k < rt_ringbuffer_data_len rb then buffer_size rb + k - rt_ringbuffer_data_len rb else k - rt_ringbuffer_data_len rb)"
      using assms(1) k n(2) j(1) unfolding off_def j(2) d rb_inv_def by (auto split: if_splits)
    have "rb_contents (write_block xs rb) ! k = buffer (write_block xs rb) ! j"
      using k by (simp add: nth_rb_contents len w(5-7) j_def)
    also have "\<dots> = (if off < length xs then xs ! off else buffer rb ! j)"
      using w(2) [OF j(1)] by (simp add: off_def)
    also have "\<dots> = (rb_contents rb @ xs) ! k"
      using k n(2) by (auto simp: off nth_append nth_rb_contents j_def)
    finally show "rb_contents (write_block xs rb) ! k = (rb_contents rb @ xs) ! k" .
  qed (simp add: len)
qed

text \<open>A block is read from the read index on.\<close>

lemma get_block:
  assumes "rb_inv rb" "rt_ringbuffer_get n rb = (ys, rb')"
  shows "ys = take n (rb_contents rb)" "rb_inv rb'" "rb_contents rb' = drop n (rb_contents rb)" "buffer_size rb' = buffer_size rb"
proof -
  note d = data_len_cases [OF assms(1)]
  define m where "m = min n (rt_ringbuffer_data_len rb)"
  have m: "m \<le> buffer_size rb" "m \<le> rt_ringbuffer_data_len rb"
    using data_len_le [OF assms(1)] by (simp_all add: m_def)
  let ?r = "read_index rb" and ?s = "buffer_size rb"
  have inv0: "?r < ?s" "?s < 2 ^ 15" "?s \<le> length (buffer rb)"
    using assms(1) by (simp_all add: rb_inv_def)
  have if_m: "(if rt_ringbuffer_data_len rb < n then rt_ringbuffer_data_len rb else n) = m"
    by (simp add: m_def)
  have e: "(ys, rb') = (if rt_ringbuffer_data_len rb = 0 then ([], rb)
    else if ?s - ?r > m then (take m (drop ?r (buffer rb)), rb\<lparr>read_index := idx15 (?r + m)\<rparr>)
    else (take (?s - ?r) (drop ?r (buffer rb)) @ take (m - (?s - ?r)) (buffer rb),
          rb\<lparr>read_mirror := \<not> read_mirror rb, read_index := idx15 (m - (?s - ?r))\<rparr>))"
    using assms(2) unfolding rt_ringbuffer_get_def Let_def if_m by simp
  have rb': "rb' = rb\<lparr>read_mirror := (read_mirror rb \<noteq> (?s \<le> ?r + m)), read_index := (if ?r + m < ?s then ?r + m else ?r + m - ?s)\<rparr>"
    using e m inv0 by (cases rb) (auto split: if_splits)
  have ys: "length ys = m" "\<And>k. k < m \<Longrightarrow> ys ! k = buffer rb ! (if ?r + k < ?s then ?r + k else ?r + k - ?s)"
    using e m inv0 by (auto simp: nth_append add.commute split: if_splits)
  show inv: "rb_inv rb'"
    using assms(1) m(2) unfolding d rb_inv_def by (auto simp: rb' split: if_splits)
  show "buffer_size rb' = buffer_size rb"
    by (simp add: rb')
  have len: "rt_ringbuffer_data_len rb' = rt_ringbuffer_data_len rb - m"
    using assms(1) m(2) unfolding data_len_cases [OF inv] d rb_inv_def by (auto simp: rb' split: if_splits)
  show "ys = take n (rb_contents rb)"
    using ys m assms(1) by (intro nth_equalityI) (auto simp: m_def nth_rb_contents mod_two rb_inv_def)
  show "rb_contents rb' = drop n (rb_contents rb)"
  proof (rule nth_equalityI)
    fix k assume "k < length (rb_contents rb')"
    then show "rb_contents rb' ! k = drop n (rb_contents rb) ! k"
      using len assms(1) by (auto simp: nth_rb_contents rb' m_def ac_simps sub_mod rb_inv_def)
  qed (simp add: len m_def)
qed

section \<open>A bounded byte queue\<close>

datatype 'b queue_op = Put "'b list" | Get nat

text \<open>A sequence of operations: the bytes that were accepted, the bytes that were read, and the queue.\<close>

fun queue_run :: "('b list \<Rightarrow> 'q \<Rightarrow> nat \<times> 'q) \<Rightarrow> (nat \<Rightarrow> 'q \<Rightarrow> 'b list \<times> 'q) \<Rightarrow> 'b queue_op list \<Rightarrow> 'q \<Rightarrow> 'b list \<times> 'b list \<times> 'q" where
  "queue_run put get [] q = ([], [], q)"
| "queue_run put get (Put xs # ops) q =
     (let (n, q1) = put xs q; (acc, got, q2) = queue_run put get ops q1 in (take n xs @ acc, got, q2))"
| "queue_run put get (Get n # ops) q =
     (let (ys, q1) = get n q; (acc, got, q2) = queue_run put get ops q1 in (acc, ys @ got, q2))"

locale byte_queue =
  fixes put :: "'b list \<Rightarrow> 'q \<Rightarrow> nat \<times> 'q"
    and get :: "nat \<Rightarrow> 'q \<Rightarrow> 'b list \<times> 'q"
    and contents :: "'q \<Rightarrow> 'b list"
    and inv :: "'q \<Rightarrow> bool"
    and cap :: "'q \<Rightarrow> nat"
  assumes put_law: "inv q \<Longrightarrow> put xs q = (n, q') \<Longrightarrow>
      n = min (length xs) (cap q - length (contents q)) \<and> inv q' \<and> contents q' = contents q @ take n xs \<and> cap q' = cap q"
    and get_law: "inv q \<Longrightarrow> get n q = (ys, q') \<Longrightarrow>
      ys = take n (contents q) \<and> inv q' \<and> contents q' = drop n (contents q) \<and> cap q' = cap q"
    and bounded: "inv q \<Longrightarrow> length (contents q) \<le> cap q"
begin

text \<open>No byte is lost, invented or reordered.\<close>

lemma run_fifo:
  assumes "inv q" "queue_run put get ops q = (acc, got, q')"
  shows "inv q' \<and> cap q' = cap q \<and> contents q @ acc = got @ contents q'"
  using assms
proof (induction ops arbitrary: q acc got)
  case Nil
  then show ?case by simp
next
  case (Cons op ops)
  show ?case
  proof (cases op)
    case (Put xs)
    obtain n q1 where p: "put xs q = (n, q1)" by (cases "put xs q")
    note law = put_law [OF Cons.prems(1) p]
    obtain acc1 where "queue_run put get ops q1 = (acc1, got, q')" "acc = take n xs @ acc1"
      using Cons.prems(2) Put p by (auto split: prod.splits)
    then show ?thesis using Cons.IH [of q1] law by auto
  next
    case (Get n)
    obtain ys q1 where g: "get n q = (ys, q1)" by (cases "get n q")
    note law = get_law [OF Cons.prems(1) g]
    obtain got1 where r: "queue_run put get ops q1 = (acc, got1, q')" "got = ys @ got1"
      using Cons.prems(2) Get g by (auto split: prod.splits)
    have ih: "inv q' \<and> cap q' = cap q1 \<and> contents q1 @ acc = got1 @ contents q'"
      using Cons.IH [of q1] law r(1) by blast
    have "contents q = ys @ contents q1"
      using law by simp
    then have "contents q @ acc = got @ contents q'"
      using ih r(2) by (metis append_assoc)
    then show ?thesis using ih law by simp
  qed
qed

text \<open>A queue that holds everything gives it back at once.\<close>

lemma put_get:
  assumes "inv q" "put xs q = (n, q1)" "length (contents q) + length xs \<le> cap q"
  shows "n = length xs \<and> fst (get (length (contents q) + length xs) q1) = contents q @ xs"
proof -
  obtain ys q2 where g: "get (length (contents q) + length xs) q1 = (ys, q2)" by fastforce
  show ?thesis
    using put_law [OF assms(1,2)] get_law [OF _ g] assms(3) g by simp
qed

end

lemma rt_ringbuffer_put_law:
  assumes "rb_inv rb" "rt_ringbuffer_put xs rb = (n, rb')"
  shows "n = min (length xs) (buffer_size rb - length (rb_contents rb)) \<and> rb_inv rb' \<and>
    rb_contents rb' = rb_contents rb @ take n xs \<and> buffer_size rb' = buffer_size rb"
proof (cases "rt_ringbuffer_space_len rb = 0")
  case True
  then show ?thesis
    using assms by (auto simp: rt_ringbuffer_put_def rt_ringbuffer_space_len_def)
next
  case False
  then have e: "n = min (length xs) (rt_ringbuffer_space_len rb)" "rb' = write_block (take n xs) rb"
    using assms(2) by (auto simp: rt_ringbuffer_put_def Let_def min_def)
  have le: "length (take n xs) \<le> rt_ringbuffer_space_len rb" "length (take n xs) \<le> buffer_size rb"
    by (simp_all add: e(1) rt_ringbuffer_space_len_def)
  show ?thesis
    using put_block [OF assms(1) le(1)] write_block_laws(7) [OF assms(1) le(2)] e by (simp add: rt_ringbuffer_space_len_def)
qed

interpretation rbq: byte_queue rt_ringbuffer_put rt_ringbuffer_get rb_contents rb_inv buffer_size
proof unfold_locales
  show "ys = take n (rb_contents q) \<and> rb_inv q' \<and> rb_contents q' = drop n (rb_contents q) \<and> buffer_size q' = buffer_size q"
    if "rb_inv q" "rt_ringbuffer_get n q = (ys, q')" for q n ys q'
    using get_block [OF that] by blast
qed (use rt_ringbuffer_put_law data_len_le in \<open>auto\<close>)

text \<open>C31: the ring buffer is a queue.  Over any sequence of puts and gets, the bytes held before and the
  bytes accepted are, in this order, the bytes read and the bytes still held; the indexes stay in the
  buffer and the mirrors consistent with them.\<close>

theorem ringbuffer_fifo:
  assumes "rb_inv rb" "queue_run rt_ringbuffer_put rt_ringbuffer_get ops rb = (acc, got, rb')"
  shows "rb_inv rb' \<and> buffer_size rb' = buffer_size rb \<and> rb_contents rb @ acc = got @ rb_contents rb'"
  using rbq.run_fifo [OF assms] .

definition demo_rb :: rt_ringbuffer where
  "demo_rb = \<lparr>buffer = [0, 0, 0, 0], read_mirror = False, read_index = 0, write_mirror = False, write_index = 0, buffer_size = 4\<rparr>"

lemma demo_rb_inv: "rb_inv demo_rb" "rb_contents demo_rb = []"
  by (simp_all add: rb_inv_def demo_rb_def rb_contents_def rt_ringbuffer_data_len_def rt_ringbuffer_status_def)

theorem ringbuffer_fifo_witness:
  "\<exists>rb'. queue_run rt_ringbuffer_put rt_ringbuffer_get [Put [1, 2, 3], Get 2, Put [4, 5, 6, 7], Get 3] demo_rb =
      ([1, 2, 3, 4, 5, 6], [1, 2, 3, 4, 5], rb') \<and> rb_inv rb' \<and> buffer_size rb' = 4 \<and> [1, 2, 3, 4, 5, 6] = [1, 2, 3, 4, 5] @ rb_contents rb'"
proof -
  let ?ops = "[Put [1, 2, 3], Get 2, Put [4, 5, 6, 7], Get 3]"
  obtain rb' where r: "queue_run rt_ringbuffer_put rt_ringbuffer_get ?ops demo_rb = ([1, 2, 3, 4, 5, 6], [1, 2, 3, 4, 5], rb')"
    by (simp add: demo_rb_def rt_ringbuffer_put_def rt_ringbuffer_get_def rt_ringbuffer_space_len_def
        rt_ringbuffer_data_len_def rt_ringbuffer_status_def write_block_def Let_def blit_def)
  show ?thesis
    using ringbuffer_fifo [OF demo_rb_inv(1) r] r by (simp add: demo_rb_inv(2)) (simp add: demo_rb_def)
qed

section \<open>Single bytes\<close>

lemma rb_boundsD:
  assumes "rb_inv rb"
  shows "read_index rb < buffer_size rb" "write_index rb < buffer_size rb" "buffer_size rb < 2 ^ 15" "buffer_size rb \<le> length (buffer rb)"
  using assms by (simp_all add: rb_inv_def)

lemma blit_one: "i < length b \<Longrightarrow> blit b i [x] 1 = b[i := x]"
  by (simp add: blit_def upd_conv_take_nth_drop)

lemma write_one:
  assumes "rb_inv rb"
  shows "write_block [ch] rb =
    (let rb1 = rb\<lparr>buffer := (buffer rb)[write_index rb := ch]\<rparr> in
     if int (write_index rb) = int (buffer_size rb) - 1 then rb1\<lparr>write_mirror := \<not> write_mirror rb, write_index := 0\<rparr>
     else rb1\<lparr>write_index := idx15 (write_index rb + 1)\<rparr>)"
proof -
  note b = rb_boundsD [OF assms]
  have w: "blit (buffer rb) (write_index rb) [ch] 1 = (buffer rb)[write_index rb := ch]"
    using b by (intro blit_one) simp
  show ?thesis
  proof (cases "buffer_size rb = write_index rb + 1")
    case True
    then show ?thesis using w by (simp add: write_block_def)
  next
    case False
    then have "buffer_size rb - write_index rb > 1" "int (write_index rb) \<noteq> int (buffer_size rb) - 1" using b by auto
    then show ?thesis using w by (simp add: write_block_def Let_def)
  qed
qed

text \<open>The routines for one byte are those for a block of one byte.\<close>

theorem putchar_is_put: "rb_inv rb \<Longrightarrow> rt_ringbuffer_putchar ch rb = rt_ringbuffer_put [ch] rb"
  by (simp add: rt_ringbuffer_putchar_def rt_ringbuffer_put_def write_one Let_def)

theorem getchar_is_get:
  assumes "rb_inv rb" "rt_ringbuffer_get 1 rb = (ys, rb')"
  shows "rt_ringbuffer_getchar rb = ((length ys, List.find (\<lambda>_. True) ys), rb')"
proof (cases "rt_ringbuffer_data_len rb = 0")
  case True
  then show ?thesis using assms(2) by (simp add: rt_ringbuffer_getchar_def rt_ringbuffer_get_def)
next
  case False
  note b = rb_boundsD [OF assms(1)]
  have y: "take 1 (drop (read_index rb) (buffer rb)) = [buffer rb ! read_index rb]"
    using b by (simp add: take_Suc_conv_app_nth)
  show ?thesis
  proof (cases "buffer_size rb = read_index rb + 1")
    case True
    then show ?thesis using assms(2) False y by (auto simp: rt_ringbuffer_getchar_def rt_ringbuffer_get_def Let_def split: if_splits)
  next
    case last: False
    then have "buffer_size rb - read_index rb > 1" "int (read_index rb) \<noteq> int (buffer_size rb) - 1" using b by auto
    then show ?thesis using assms(2) False y by (auto simp: rt_ringbuffer_getchar_def rt_ringbuffer_get_def Let_def split: if_splits)
  qed
qed

section \<open>Overwriting the oldest bytes\<close>

text \<open>A block that does not fit, with the read index moved to the write index in the other mirror.\<close>

lemma overwrite_block:
  assumes "rb_inv rb" "length ys \<le> buffer_size rb" "rt_ringbuffer_space_len rb < length ys"
    and "rb1 = write_block ys rb" "rb2 = rb1\<lparr>read_index := write_index rb1, read_mirror := \<not> write_mirror rb1\<rparr>"
  shows "rb_inv rb2" "rb_contents rb2 = last_n (buffer_size rb) (rb_contents rb @ ys)"
proof -
  note b = rb_boundsD [OF assms(1)] and w = write_block_laws [OF assms(1,2), folded assms(4)] and d = data_len_cases [OF assms(1)]
  have over: "rt_ringbuffer_data_len rb + length ys > buffer_size rb"
    using assms(3) by (simp add: rt_ringbuffer_space_len_def)
  show inv: "rb_inv rb2"
    using b assms(2) by (auto simp: rb_inv_def assms(5) w)
  have len: "rt_ringbuffer_data_len rb2 = buffer_size rb"
    unfolding data_len_cases [OF inv] by (auto simp: assms(5) w)
  show "rb_contents rb2 = last_n (buffer_size rb) (rb_contents rb @ ys)"
  proof (rule nth_equalityI)
    fix k assume "k < length (rb_contents rb2)"
    then have k: "k < buffer_size rb" by (simp add: len)
    define j where "j = (write_index rb1 + k) mod buffer_size rb"
    define off where "off = (if write_index rb \<le> j then j - write_index rb else buffer_size rb + j - write_index rb)"
    define i where "i = rt_ringbuffer_data_len rb + length ys - buffer_size rb + k"
    have j: "j < buffer_size rb" using k by (simp add: j_def)
    have off: "off = (if length ys + k < buffer_size rb then length ys + k else length ys + k - buffer_size rb)"
      using b assms(2) k unfolding off_def j_def w(3) by (auto simp: mod_if split: if_splits)
    have old: "j = (read_index rb + i) mod buffer_size rb" if "i < rt_ringbuffer_data_len rb"
    proof -
      have "write_index rb1 + k = (if write_index rb + length ys < buffer_size rb then write_index rb + length ys + k
          else write_index rb + length ys + k - buffer_size rb)"
        by (simp add: w(3))
      then have "j = (write_index rb + length ys + k) mod buffer_size rb"
        unfolding j_def by (simp add: sub_mod)
      moreover have "read_index rb + i = write_index rb + length ys + k \<or>
          read_index rb + i + buffer_size rb = write_index rb + length ys + k"
        using assms(1) over unfolding i_def d rb_inv_def by (auto split: if_splits)
      ultimately show ?thesis
        by (metis mod_add_self2)
    qed
    have "rb_contents rb2 ! k = buffer rb1 ! j"
      using nth_rb_contents [of k rb2] k unfolding len by (simp add: assms(5) w(7) j_def)
    also have "\<dots> = (if off < length ys then ys ! off else buffer rb ! j)"
      using w(2) [OF j] by (simp add: off_def)
    also have "\<dots> = (rb_contents rb @ ys) ! i"
      using k over assms(2) old by (auto simp: off i_def nth_append nth_rb_contents)
    also have "\<dots> = last_n (buffer_size rb) (rb_contents rb @ ys) ! k"
      using k over by (simp add: last_n_def i_def del: drop_append)
    finally show "rb_contents rb2 ! k = last_n (buffer_size rb) (rb_contents rb @ ys) ! k" .
  qed (use over in \<open>simp add: len\<close>)
qed

definition put_force_char :: "u8 \<Rightarrow> rt_ringbuffer \<Rightarrow> rt_ringbuffer" where
  "put_force_char ch rb = snd (rt_ringbuffer_putchar_force ch rb)"

lemma full_mirrors: "rt_ringbuffer_status rb = RT_RINGBUFFER_FULL \<Longrightarrow> read_index rb = write_index rb \<and> read_mirror rb \<noteq> write_mirror rb"
  by (auto simp: rt_ringbuffer_status_def split: if_splits)

lemma putchar_force_law:
  assumes "rb_inv rb"
  shows "rb_inv (put_force_char ch rb)" "buffer_size (put_force_char ch rb) = buffer_size rb"
    "rb_contents (put_force_char ch rb) = last_n (buffer_size rb) (rb_contents rb @ [ch])"
proof -
  let ?rb1 = "write_block [ch] rb"
  let ?rb2 = "?rb1\<lparr>read_index := write_index ?rb1, read_mirror := \<not> write_mirror ?rb1\<rparr>"
  have len: "length [ch] \<le> buffer_size rb"
    using assms by (simp add: rb_inv_def)
  note w = write_block_laws [OF assms len]
  have e: "put_force_char ch rb = (if rt_ringbuffer_status rb = RT_RINGBUFFER_FULL then ?rb2 else ?rb1)"
    using full_mirrors [of rb] unfolding put_force_char_def rt_ringbuffer_putchar_force_def write_one [OF assms]
    by (auto simp: Let_def)
  have full: "rt_ringbuffer_status rb = RT_RINGBUFFER_FULL \<longleftrightarrow> rt_ringbuffer_space_len rb = 0"
    using assms data_len_cases [OF assms] unfolding rt_ringbuffer_space_len_def rb_inv_def
    by (auto simp: rt_ringbuffer_status_def split: if_splits)
  show "buffer_size (put_force_char ch rb) = buffer_size rb"
    by (simp add: e w)
  show "rb_inv (put_force_char ch rb)" "rb_contents (put_force_char ch rb) = last_n (buffer_size rb) (rb_contents rb @ [ch])"
    using overwrite_block [OF assms len _ refl refl] put_block [OF assms, of "[ch]"] full
    by (auto simp: e last_n_all rt_ringbuffer_space_len_def)
qed

lemma putchar_force_history:
  "0 < s \<Longrightarrow> bounded_history put_force_char rb_contents (\<lambda>rb. rb_inv rb \<and> buffer_size rb = s) s"
  using putchar_force_law by unfold_locales auto

text \<open>Bytes forced into the ring buffer one by one, however many, leave in it exactly the newest
  bytes that fit, the bytes held before included, in the order they came.\<close>

theorem putchar_force_keeps_newest:
  assumes "rb_inv rb"
  shows "rb_inv (fold put_force_char xs rb) \<and> rb_contents (fold put_force_char xs rb) = last_n (buffer_size rb) (rb_contents rb @ xs)"
proof -
  have "0 < buffer_size rb" "length (rb_contents rb) \<le> buffer_size rb"
    using assms data_len_le [OF assms] by (simp_all add: rb_inv_def)
  then show ?thesis
    using assms bounded_history.fold_push_contents [OF putchar_force_history]
      bounded_history.fold_push_inv [OF putchar_force_history] by blast
qed

theorem putchar_force_keeps_newest_witness:
  "rb_contents (fold put_force_char [1, 2, 3, 4, 5, 6] demo_rb) = [3, 4, 5, 6]"
  using putchar_force_keeps_newest [OF demo_rb_inv(1), of "[1, 2, 3, 4, 5, 6]"]
  by (simp add: demo_rb_inv(2) last_n_def) (simp add: demo_rb_def)

lemma same_mirror: "rb\<lparr>read_index := i, read_mirror := read_mirror rb\<rparr> = rb\<lparr>read_index := i\<rparr>"
  by (cases rb) simp

text \<open>A block that is forced in keeps the newest bytes only when the block does not pass the end of the
  buffer from the mirror the reader is in: there the read mirror is flipped although the writer alone
  has changed sides, and the buffer reads as empty.\<close>

theorem put_force_contents:
  assumes "rb_inv rb" "ys = last_n (buffer_size rb) xs"
  shows "rb_contents (snd (rt_ringbuffer_put_force xs rb)) =
    (if length ys > rt_ringbuffer_space_len rb \<and> read_mirror rb = write_mirror rb then []
     else last_n (buffer_size rb) (rb_contents rb @ ys))"
proof -
  let ?rb1 = "write_block ys rb"
  have len: "length ys \<le> buffer_size rb"
    by (simp add: assms(2))
  note w = write_block_laws [OF assms(1) len] and d = data_len_cases [OF assms(1)]
  have ys: "ys = (if length xs > buffer_size rb then drop (length xs - buffer_size rb) xs else xs)"
    by (simp add: assms(2) last_n_def)
  have e: "snd (rt_ringbuffer_put_force xs rb) =
    (if \<not> length ys > rt_ringbuffer_space_len rb then ?rb1
     else if buffer_size rb - write_index rb > length ys then ?rb1\<lparr>read_index := write_index ?rb1\<rparr>
     else ?rb1\<lparr>read_mirror := \<not> read_mirror rb, read_index := write_index ?rb1\<rparr>)"
    by (simp only: rt_ringbuffer_put_force_def ys [symmetric] Let_def snd_conv)
  show ?thesis
  proof (cases "length ys > rt_ringbuffer_space_len rb")
    case False
    then show ?thesis
      using put_block [OF assms(1), of ys] data_len_le [OF assms(1)] by (simp add: e last_n_all rt_ringbuffer_space_len_def)
  next
    case True
    note over = overwrite_block(2) [OF assms(1) len True refl refl]
    show ?thesis
    proof (cases "read_mirror rb = write_mirror rb")
      case same: True
      then have "\<not> buffer_size rb - write_index rb > length ys" "buffer_size rb \<le> write_index rb + length ys"
        using assms(1) True unfolding rt_ringbuffer_space_len_def d rb_inv_def by auto
      then show ?thesis
        using True same by (simp add: e w rb_contents_def rt_ringbuffer_data_len_def rt_ringbuffer_status_def)
    next
      case False
      have "snd (rt_ringbuffer_put_force xs rb) = ?rb1\<lparr>read_index := write_index ?rb1, read_mirror := \<not> write_mirror ?rb1\<rparr>"
      proof (cases "buffer_size rb - write_index rb > length ys")
        case near: True
        then have "(\<not> write_mirror ?rb1) = read_mirror ?rb1"
          using False w(4,6) by auto
        then show ?thesis using True near by (simp add: e same_mirror)
      next
        case far: False
        then have "(\<not> write_mirror ?rb1) = (\<not> read_mirror rb)"
          using False w(4) rb_boundsD(2) [OF assms(1)] by auto
        then show ?thesis using True far by (simp add: e)
      qed
      then show ?thesis using over False by simp
    qed
  qed
qed

text \<open>Four bytes forced into a buffer of four that holds two: the call returns 4 and nothing can be read.\<close>

lemma put_force_loses_everything:
  "fst (rt_ringbuffer_put_force [3, 4, 5, 6] (snd (rt_ringbuffer_put [1, 2] demo_rb))) = 4"
  "rb_contents (snd (rt_ringbuffer_put_force [3, 4, 5, 6] (snd (rt_ringbuffer_put [1, 2] demo_rb)))) = []"
  by (simp_all add: demo_rb_def rt_ringbuffer_put_def rt_ringbuffer_put_force_def rt_ringbuffer_space_len_def rb_contents_def
      rt_ringbuffer_data_len_def rt_ringbuffer_status_def write_block_def Let_def blit_def)

text \<open>The bytes a peak hands out in place are the first of the queue, and they leave it.\<close>

theorem peak_takes_front:
  assumes "rb_inv rb" "rt_ringbuffer_peak rb = (n, Some p, rb')"
  shows "0 < n" "p + n \<le> buffer_size rb" "rb_contents rb = take n (drop p (buffer rb)) @ rb_contents rb'" "rb_inv rb'"
proof -
  define m where "m = (if buffer_size rb - read_index rb > rt_ringbuffer_data_len rb then rt_ringbuffer_data_len rb else buffer_size rb - read_index rb)"
  note b = rb_boundsD [OF assms(1)]
  have ne: "rt_ringbuffer_data_len rb \<noteq> 0" and n: "n = m" "p = read_index rb"
    using assms(2) by (auto simp: rt_ringbuffer_peak_def Let_def m_def split: if_splits)
  show "0 < n" "p + n \<le> buffer_size rb"
    using ne b by (auto simp: n m_def)
  have m: "m \<le> rt_ringbuffer_data_len rb"
    by (simp add: m_def)
  have "rt_ringbuffer_get m rb = (take m (drop p (buffer rb)), rb')"
    using assms(2) ne b m by (auto simp: rt_ringbuffer_get_def rt_ringbuffer_peak_def Let_def n(2) m_def split: if_splits)
  note g = get_block [OF assms(1) this]
  show "rb_contents rb = take n (drop p (buffer rb)) @ rb_contents rb'" "rb_inv rb'"
    using g by (simp_all add: n(1))
qed

section \<open>Creation\<close>

text \<open>A buffer of at least four bytes is created empty; smaller pools and sizes of 32768 and more fail.\<close>

theorem init_is_empty:
  assumes "rt_ringbuffer_init pool n = Some rb" "4 \<le> n" "n < 2 ^ 15" "nat n \<le> length pool"
  shows "rb_inv rb" "rb_contents rb = []" "buffer_size rb = nat n - nat n mod 4"
  using assms by (auto simp: rt_ringbuffer_init_def rb_inv_def rb_contents_def rt_ringbuffer_data_len_def
      rt_ringbuffer_status_def minus_mod_eq_div_mult [symmetric] split: if_splits)

theorem reset_is_empty: "rb_inv rb \<Longrightarrow> rb_inv (rt_ringbuffer_reset rb) \<and> rb_contents (rt_ringbuffer_reset rb) = []"
  by (simp add: rt_ringbuffer_reset_def rb_inv_def rb_contents_def rt_ringbuffer_data_len_def rt_ringbuffer_status_def)

end
