(* ===== verification/Pipe.thy ===== *)
theory Pipe
  imports Ringbuffer Device Mailbox
begin

text \<open>
  Wait queues, \<^verbatim>\<open>src/rt-thread/components/drivers/src/waitqueue.c\<close>, and pipes,
  \<^verbatim>\<open>src/rt-thread/components/drivers/src/pipe.c\<close>, which are devices over a ring buffer; the file operations of a pipe are not
  built.  The mutex of a pipe makes each of its operations one step.  A node of a wait queue is an address; the call that
  waits ends with \<open>Waits\<close> and goes on in \<open>wqueue_resumed\<close>.
\<close>

abbreviation (input) RT_EINVAL :: rt_err_t where "RT_EINVAL \<equiv> 10"
abbreviation (input) ENODEV :: rt_err_t where "ENODEV \<equiv> 19"

section \<open>Wait queues\<close>

text \<open>\<open>node_wakeup\<close> is the function of a node on a key; 0 accepts the wake-up.\<close>

record rt_wqueue_node =
  polling_thread :: nat
  node_wakeup :: "nat \<Rightarrow> int"

record wqueue_sys =
  wqueue_kern :: sched
  wqueue_wakeup :: bool
  waiting_list :: "nat list"
  wqueue_nodes :: "nat \<Rightarrow> rt_wqueue_node"

definition rt_wqueue_init :: "wqueue_sys \<Rightarrow> wqueue_sys" where
  "rt_wqueue_init s = s\<lparr>wqueue_wakeup := False, waiting_list := []\<rparr>"

definition rt_wqueue_add :: "nat \<Rightarrow> wqueue_sys \<Rightarrow> wqueue_sys" where
  "rt_wqueue_add n s = s\<lparr>waiting_list := waiting_list s @ [n]\<rparr>"

definition rt_wqueue_remove :: "nat \<Rightarrow> wqueue_sys \<Rightarrow> wqueue_sys" where
  "rt_wqueue_remove n s = s\<lparr>waiting_list := removeAll n (waiting_list s)\<rparr>"

definition wqueue_default_wake :: "nat \<Rightarrow> int" where
  "wqueue_default_wake ky = 0"

definition rt_wqueue_wakeup :: "nat \<Rightarrow> wqueue_sys \<Rightarrow> wqueue_sys option" where
  "rt_wqueue_wakeup ky s =
     (let s1 = s\<lparr>wqueue_wakeup := True\<rparr> in
      case find (\<lambda>n. node_wakeup (wqueue_nodes s n) ky = 0) (waiting_list s) of
        None \<Rightarrow> Some s1
      | Some n \<Rightarrow> do { (r, k) \<leftarrow> rt_thread_resume (polling_thread (wqueue_nodes s n)) (wqueue_kern s);
                       k1 \<leftarrow> rt_schedule k;
                       Some (rt_wqueue_remove n (s1\<lparr>wqueue_kern := k1\<rparr>)) })"

text \<open>\<open>n\<close> is the node on the stack of the caller.\<close>

definition rt_wqueue_wait :: "nat \<Rightarrow> bool \<Rightarrow> int \<Rightarrow> wqueue_sys \<Rightarrow> (result \<times> wqueue_sys) option" where
  "rt_wqueue_wait n condition msec s =
     do { t \<leftarrow> rt_current_thread (wqueue_kern s);
          let tick = sint (rt_tick_from_millisecond msec);
          if condition \<or> tick = 0 then Some (Done 0, s)
          else let s1 = s\<lparr>wqueue_nodes := (wqueue_nodes s)(n := \<lparr>polling_thread = t, node_wakeup = wqueue_default_wake\<rparr>)\<rparr> in
               if wqueue_wakeup s then Some (Done 0, rt_wqueue_remove n (s1\<lparr>wqueue_wakeup := False\<rparr>))
               else do { (r, k1) \<leftarrow> rt_thread_suspend t (wqueue_kern s1);
                         k2 \<leftarrow> (if tick \<noteq> - 1 then thread_timer_start t (of_int tick) k1 else Some k1);
                         k3 \<leftarrow> rt_schedule k2;
                         Some (Waits tick (tick_now (tmr k1)), rt_wqueue_add n s1\<lparr>wqueue_kern := k3\<rparr>) } }"

definition wqueue_resumed :: "nat \<Rightarrow> wqueue_sys \<Rightarrow> result \<times> wqueue_sys" where
  "wqueue_resumed n s = (Done 0, rt_wqueue_remove n (s\<lparr>wqueue_wakeup := False\<rparr>))"

text \<open>A wake-up that comes after the condition was read and before the thread waits is not lost: the thread does not
  sleep.\<close>

theorem early_wakeup_is_kept:
  assumes "rt_wqueue_wakeup ky s = Some s1" "rt_current_thread (wqueue_kern s1) = Some t"
  shows "\<exists>s2. rt_wqueue_wait n condition msec s1 = Some (Done 0, s2) \<and> wqueue_kern s2 = wqueue_kern s1"
proof -
  have "wqueue_wakeup s1"
    using assms(1) by (auto simp: rt_wqueue_wakeup_def rt_wqueue_remove_def Let_def split: option.splits Option.bind_splits)
  then show ?thesis
    using assms(2) by (auto simp: rt_wqueue_wait_def rt_wqueue_remove_def Let_def)
qed

text \<open>A wake-up that nobody declines runs the thread that waits longest, and no thread stays on the list twice.\<close>

theorem wakeup_takes_first:
  assumes "sched_wf (wqueue_kern s)" "waiting_list s = n # ns" "node_wakeup (wqueue_nodes s n) = wqueue_default_wake" "distinct (waiting_list s)"
    and "stat (threads (wqueue_kern s) (polling_thread (wqueue_nodes s n))) = RT_THREAD_SUSPEND" "rt_wqueue_wakeup ky s = Some s'"
  shows "waiting_list s' = ns \<and> sched_wf (wqueue_kern s') \<and>
    stat (threads (wqueue_kern s') (polling_thread (wqueue_nodes s n))) \<in> {RT_THREAD_READY, RT_THREAD_RUNNING}"
proof -
  let ?t = "polling_thread (wqueue_nodes s n)"
  obtain r k k1 where k: "rt_thread_resume ?t (wqueue_kern s) = Some (r, k)" "rt_schedule k = Some k1"
    and s': "s' = rt_wqueue_remove n (s\<lparr>wqueue_wakeup := True, wqueue_kern := k1\<rparr>)"
    using assms(2,3,6) by (auto simp: rt_wqueue_wakeup_def wqueue_default_wake_def Let_def split: Option.bind_splits)
  have wf: "sched_wf k"
    by (rule resume_wf [OF assms(1) k(1)])
  have "stat (threads k ?t) \<in> {RT_THREAD_READY, RT_THREAD_RUNNING}"
    using assms(5) k(1) by (auto simp: rt_thread_resume_def split: Option.bind_splits dest!: timer_stop_simps)
  then have "stat (threads k1 ?t) \<in> {RT_THREAD_READY, RT_THREAD_RUNNING}"
    using schedule_law [OF wf k(2)] by (simp add: switches_def)
  moreover have "removeAll n (n # ns) = ns"
    using assms(2,4) by (simp add: removeAll_id)
  ultimately show ?thesis
    using schedule_law [OF wf k(2)] assms(2) by (simp add: s' rt_wqueue_remove_def)
qed

section \<open>Pipes\<close>

text \<open>\<open>pipe_mem\<close> is what the heap gives when a ring buffer is created; \<open>destroyed\<close> are the ring buffers given back.\<close>

record rt_pipe =
  fifo :: "rt_ringbuffer option"
  bufsz :: u16
  is_named :: bool
  pipe_lock :: nat
  pipe_mem :: "bool \<times> (nat \<Rightarrow> u8 list option)"
  destroyed :: "rt_ringbuffer list"

definition destroy_fifo :: "rt_pipe \<Rightarrow> rt_pipe option" where
  "destroy_fifo p = (case fifo p of None \<Rightarrow> None | Some rb \<Rightarrow> Some (p\<lparr>destroyed := destroyed p @ [rb], fifo := None\<rparr>))"

definition rt_pipe_open :: "u16 \<Rightarrow> rt_device \<times> rt_pipe \<Rightarrow> (rt_err_t \<times> rt_device \<times> rt_pipe) option" where
  "rt_pipe_open oflag ds =
     (case ds of (d, p) \<Rightarrow>
       if fifo p \<noteq> None then Some (RT_EOK, d, p)
       else do { x \<leftarrow> rt_ringbuffer_create (fst (pipe_mem p)) (snd (pipe_mem p)) (bufsz p);
                 Some (if x = None then - RT_ENOMEM else RT_EOK, d, p\<lparr>fifo := x\<rparr>) })"

definition rt_pipe_close :: "rt_device \<times> rt_pipe \<Rightarrow> (rt_err_t \<times> rt_device \<times> rt_pipe) option" where
  "rt_pipe_close ds =
     (case ds of (d, p) \<Rightarrow>
       if ref_count d = 1 then do { p1 \<leftarrow> destroy_fifo p; Some (RT_EOK, d, p1) } else Some (RT_EOK, d, p))"

text \<open>The length of a transfer is passed to the ring buffer in 16 bits.\<close>

function read_loop :: "nat \<Rightarrow> rt_ringbuffer \<Rightarrow> u8 list \<times> rt_ringbuffer" where
  "read_loop count rb =
     (if count = 0 then ([], rb)
      else case rt_ringbuffer_get (count mod 2 ^ 16) rb of (bs, rb1) \<Rightarrow>
        if bs = [] then ([], rb1) else (case read_loop (count - length bs) rb1 of (cs, rb2) \<Rightarrow> (bs @ cs, rb2)))"
  by pat_completeness auto
termination
  by (relation "measure fst") auto

function write_loop :: "u8 list \<Rightarrow> rt_ringbuffer \<Rightarrow> nat \<times> rt_ringbuffer" where
  "write_loop xs rb =
     (if xs = [] then (0, rb)
      else case rt_ringbuffer_put (take (length xs mod 2 ^ 16) xs) rb of (n, rb1) \<Rightarrow>
        if n = 0 then (0, rb1) else (case write_loop (drop n xs) rb1 of (m, rb2) \<Rightarrow> (n + m, rb2)))"
  by pat_completeness auto
termination
  by (relation "measure (length \<circ> fst)") auto

declare read_loop.simps [simp del] write_loop.simps [simp del]

definition rt_pipe_read :: "nat \<Rightarrow> rt_device \<times> rt_pipe \<Rightarrow> (u8 list \<times> rt_device \<times> rt_pipe) option" where
  "rt_pipe_read count ds =
     (case ds of (d, p) \<Rightarrow>
       if count = 0 then Some ([], d, p)
       else case fifo p of None \<Rightarrow> None
            | Some rb \<Rightarrow> (case read_loop count rb of (bs, rb1) \<Rightarrow> Some (bs, d, p\<lparr>fifo := Some rb1\<rparr>)))"

definition rt_pipe_write :: "u8 list \<Rightarrow> rt_device \<times> rt_pipe \<Rightarrow> (nat \<times> rt_device \<times> rt_pipe) option" where
  "rt_pipe_write xs ds =
     (case ds of (d, p) \<Rightarrow>
       if xs = [] then Some (0, d, p)
       else case fifo p of None \<Rightarrow> None
            | Some rb \<Rightarrow> (case write_loop xs rb of (n, rb1) \<Rightarrow> Some (n, d, p\<lparr>fifo := Some rb1\<rparr>)))"

definition rt_pipe_control :: "int \<Rightarrow> nat \<Rightarrow> rt_device \<times> rt_pipe \<Rightarrow> (rt_err_t \<times> rt_device \<times> rt_pipe) option" where
  "rt_pipe_control cmd arg ds = Some (RT_EOK, ds)"

definition pipe_ops :: "rt_pipe rt_device_ops" where
  "pipe_ops = \<lparr>op_init = None, op_open = Some rt_pipe_open, op_close = Some rt_pipe_close, op_read = Some rt_pipe_read,
     op_write = Some rt_pipe_write, op_control = Some rt_pipe_control\<rparr>"

text \<open>\<open>have_mem\<close> says whether the heap has memory for the pipe and \<open>taken\<close> whether a device of the name exists.\<close>

definition rt_pipe_create :: "bool \<Rightarrow> bool \<Rightarrow> nat \<Rightarrow> int \<Rightarrow> bool \<times> (nat \<Rightarrow> u8 list option) \<Rightarrow> ipc_sys \<Rightarrow> ((rt_device \<times> rt_pipe) option \<times> ipc_sys) option" where
  "rt_pipe_create have_mem taken lock n mem ip =
     (if \<not> have_mem then Some (None, ip)
      else let ip1 = rt_mutex_init lock RT_IPC_FLAG_FIFO ip in
           if \<not> n < 0xFFFF then None
           else let d = \<lparr>dev_flag = 0, open_flag = 0, ref_count = 0, rx_indicate = None, tx_complete = None\<rparr>;
                    p = \<lparr>fifo = None, bufsz = of_int n, is_named = True, pipe_lock = lock, pipe_mem = mem, destroyed = []\<rparr> in
                (case rt_device_register taken 0x007 d of (r, d1) \<Rightarrow> Some (if r \<noteq> RT_EOK then (None, ip1) else (Some (d1, p), ip1))))"

text \<open>\<open>dev\<close> is the device of the name, if any, with whether it is a pipe.  The result has the pipe if it was freed.\<close>

definition rt_pipe_delete :: "(bool \<times> rt_device \<times> rt_pipe) option \<Rightarrow> ipc_sys \<Rightarrow> (rt_err_t \<times> rt_pipe option \<times> ipc_sys) option" where
  "rt_pipe_delete dev ip =
     (case dev of None \<Rightarrow> Some (- ENODEV, None, ip)
      | Some (is_pipe, d, p) \<Rightarrow>
          if \<not> is_pipe then Some (- ENODEV, None, ip)
          else if ref_count d \<noteq> 0 then Some (- RT_EBUSY, None, ip)
          else do { ip1 \<leftarrow> rt_mutex_detach (pipe_lock p) ip;
                    p1 \<leftarrow> (if fifo p \<noteq> None then destroy_fifo p else Some p);
                    Some (0, Some p1, ip1) })"

section \<open>A pipe is a byte queue\<close>

text \<open>A transfer of less than 64 KiB is one call of the ring buffer.\<close>

lemma read_loop_get:
  assumes "rb_inv rb" "count < 2 ^ 16"
  shows "read_loop count rb = rt_ringbuffer_get count rb"
proof -
  obtain bs rb1 where g: "rt_ringbuffer_get count rb = (bs, rb1)"
    by fastforce
  note law = get_block [OF assms(1) g]
  have "read_loop (count - length bs) rb1 = ([], rb1)"
  proof (cases "count = length bs")
    case False
    then have "rb_contents rb1 = []"
      using law(1,3) by (cases "count \<le> length (rb_contents rb)") auto
    then have "rt_ringbuffer_data_len rb1 = 0"
      using length_rb_contents [of rb1] by simp
    then show ?thesis
      by (subst read_loop.simps) (simp add: rt_ringbuffer_get_def)
  qed (simp add: read_loop.simps)
  moreover have "bs = [] \<and> rb1 = rb" if "count = 0"
  proof -
    have "0 < buffer_size rb - read_index rb" "read_index rb mod 2 ^ 15 = read_index rb"
      using assms(1) by (auto simp: rb_inv_def)
    then show ?thesis
      using that g by (auto simp: rt_ringbuffer_get_def Let_def split: if_splits)
  qed
  ultimately show ?thesis
    using assms(2) g by (subst read_loop.simps) auto
qed

lemma write_loop_put:
  assumes "rb_inv rb" "length xs < 2 ^ 16" "xs \<noteq> []"
  shows "write_loop xs rb = rt_ringbuffer_put xs rb"
proof -
  obtain n rb1 where p: "rt_ringbuffer_put xs rb = (n, rb1)"
    by fastforce
  note law = rt_ringbuffer_put_law [OF assms(1) p]
  have "write_loop (drop n xs) rb1 = (0, rb1)"
  proof (cases "n = length xs")
    case False
    then have n: "n = buffer_size rb - length (rb_contents rb)" "n < length xs"
      using law by auto
    then have "length (rb_contents rb1) = buffer_size rb1"
      using law rbq.bounded [OF assms(1)] by simp
    then have "rt_ringbuffer_space_len rb1 = 0"
      by (simp add: rt_ringbuffer_space_len_def)
    then show ?thesis
      by (subst write_loop.simps) (simp add: rt_ringbuffer_put_def)
  qed (simp add: write_loop.simps)
  then show ?thesis
    using assms(2,3) p by (subst write_loop.simps) auto
qed

text \<open>A user transfers at most 65535 bytes at a time, through the device layer.\<close>

definition pipe_put :: "u8 list \<Rightarrow> rt_device \<times> rt_pipe \<Rightarrow> nat \<times> rt_device \<times> rt_pipe" where
  "pipe_put xs q = (case rt_device_write pipe_ops (take 65535 xs) q of Some (n, e, q') \<Rightarrow> (n, q') | None \<Rightarrow> (0, q))"

definition pipe_get :: "nat \<Rightarrow> rt_device \<times> rt_pipe \<Rightarrow> u8 list \<times> rt_device \<times> rt_pipe" where
  "pipe_get n q = (case rt_device_read pipe_ops (min n 65535) q of Some (bs, e, q') \<Rightarrow> (bs, q') | None \<Rightarrow> ([], q))"

definition pipe_ok :: "rt_device \<times> rt_pipe \<Rightarrow> bool" where
  "pipe_ok q \<longleftrightarrow> ref_count (fst q) \<noteq> 0 \<and> (case fifo (snd q) of None \<Rightarrow> False | Some rb \<Rightarrow> rb_inv rb)"

definition pipe_contents :: "rt_device \<times> rt_pipe \<Rightarrow> u8 list" where
  "pipe_contents q = (case fifo (snd q) of None \<Rightarrow> [] | Some rb \<Rightarrow> rb_contents rb)"

definition pipe_cap :: "rt_device \<times> rt_pipe \<Rightarrow> nat" where
  "pipe_cap q = (case fifo (snd q) of None \<Rightarrow> 0 | Some rb \<Rightarrow> buffer_size rb)"

lemma pipe_small: "rb_inv rb \<Longrightarrow> length (rb_contents rb) \<le> buffer_size rb \<and> buffer_size rb < 32768"
  using rbq.bounded [of rb] by (simp add: rb_inv_def)

interpretation pipe_queue: byte_queue pipe_put pipe_get pipe_contents pipe_ok pipe_cap
proof unfold_locales
  show "n = min (length xs) (pipe_cap q - length (pipe_contents q)) \<and> pipe_ok q' \<and> pipe_contents q' = pipe_contents q @ take n xs \<and> pipe_cap q' = pipe_cap q"
    if that1: "pipe_ok q" and that2: "pipe_put xs q = (n, q')" for q xs n q'
  proof -
    obtain d p rb where q: "q = (d, p)" "ref_count d \<noteq> 0" "fifo p = Some rb" "rb_inv rb"
      using that1 by (cases q) (auto simp: pipe_ok_def split: option.splits)
    show ?thesis
    proof (cases "xs = []")
      case True
      then show ?thesis
        using that1 that2 q by (auto simp: pipe_put_def rt_device_write_def pipe_ops_def rt_pipe_write_def)
    next
      case False
      obtain m rb1 where m: "rt_ringbuffer_put (take 65535 xs) rb = (m, rb1)"
        by fastforce
      have "write_loop (take 65535 xs) rb = (m, rb1)"
        using write_loop_put [OF q(4), of "take 65535 xs"] False m by simp
      then have r: "n = m" "q' = (d, p\<lparr>fifo := Some rb1\<rparr>)"
        using that2 q False by (auto simp: pipe_put_def rt_device_write_def pipe_ops_def rt_pipe_write_def)
      have "m \<le> 65535" "min (min (length xs) 65535) (buffer_size rb - length (rb_contents rb)) = min (length xs) (buffer_size rb - length (rb_contents rb))"
        using rt_ringbuffer_put_law [OF q(4) m] pipe_small [OF q(4)] by auto
      then show ?thesis
        using rt_ringbuffer_put_law [OF q(4) m] q by (simp add: r pipe_cap_def pipe_contents_def pipe_ok_def min_def)
    qed
  qed
  show "ys = take n (pipe_contents q) \<and> pipe_ok q' \<and> pipe_contents q' = drop n (pipe_contents q) \<and> pipe_cap q' = pipe_cap q"
    if that1: "pipe_ok q" and that2: "pipe_get n q = (ys, q')" for q n ys q'
  proof -
    obtain d p rb where q: "q = (d, p)" "ref_count d \<noteq> 0" "fifo p = Some rb" "rb_inv rb"
      using that1 by (cases q) (auto simp: pipe_ok_def split: option.splits)
    show ?thesis
    proof (cases "n = 0")
      case True
      then show ?thesis
        using that1 that2 q by (auto simp: pipe_get_def rt_device_read_def pipe_ops_def rt_pipe_read_def)
    next
      case False
      define c where "c = min n 65535"
      have c: "c \<noteq> 0" "c < 2 ^ 16"
        using False by (simp_all add: c_def)
      obtain zs rb1 where z: "rt_ringbuffer_get c rb = (zs, rb1)"
        by fastforce
      then have "read_loop c rb = (zs, rb1)"
        using read_loop_get [OF q(4) c(2)] by simp
      then have g: "rt_ringbuffer_get (min n 65535) rb = (ys, rb1)" "q' = (d, p\<lparr>fifo := Some rb1\<rparr>)"
        using that2 q(1-3) c(1) z unfolding pipe_get_def c_def [symmetric] by (auto simp: rt_device_read_def pipe_ops_def rt_pipe_read_def)
      have "take (min n 65535) (rb_contents rb) = take n (rb_contents rb)" "drop (min n 65535) (rb_contents rb) = drop n (rb_contents rb)"
        using pipe_small [OF q(4)] by (simp_all add: min_def)
      then show ?thesis
        using get_block [OF q(4) g(1)] q by (simp add: g(2) pipe_cap_def pipe_contents_def pipe_ok_def)
    qed
  qed
  show "length (pipe_contents q) \<le> pipe_cap q" if "pipe_ok q" for q
    using that rbq.bounded by (auto simp: pipe_ok_def pipe_contents_def pipe_cap_def split: option.splits)
qed

text \<open>Through an open pipe every byte written comes out once and in order.\<close>

theorem pipe_fifo:
  assumes "pipe_ok q" "queue_run pipe_put pipe_get ops q = (acc, out, q')"
  shows "pipe_contents q @ acc = out @ pipe_contents q' \<and> pipe_ok q' \<and> length (pipe_contents q') \<le> pipe_cap q"
  using pipe_queue.run_fifo [OF assms] pipe_queue.bounded [of q'] by simp

section \<open>What goes wrong\<close>

text \<open>A transfer of exactly 64 KiB moves nothing.\<close>

lemma pipe_64k_moves_nothing:
  assumes "rb_inv rb"
  shows "fst (read_loop 65536 rb) = []" "length xs = 65536 \<Longrightarrow> fst (write_loop xs rb) = 0"
proof -
  obtain bs rb1 where g: "rt_ringbuffer_get 0 rb = (bs, rb1)"
    by fastforce
  then show "fst (read_loop 65536 rb) = []"
    using get_block(1) [OF assms g] by (subst read_loop.simps) simp
  obtain n rb2 where p: "rt_ringbuffer_put [] rb = (n, rb2)"
    by fastforce
  show "fst (write_loop xs rb) = 0" if "length xs = 65536"
    using that rt_ringbuffer_put_law [OF assms p] p by (subst write_loop.simps) auto
qed

text \<open>The device layer counts a close before it calls the driver, which waits for the count to be one: the ring buffer is
  never given back, and who opens the pipe again reads what was left in it.\<close>

lemma pipe_close_keeps_fifo: "rt_device_close pipe_ops (d, p) = Some (r, d', p') \<Longrightarrow> p' = p"
  by (auto simp: rt_device_close_def pipe_ops_def rt_pipe_close_def Let_def split: if_splits Option.bind_splits)

text \<open>The memory of a pipe whose name is taken is freed while its mutex is still registered.\<close>

lemma failed_pipe_leaves_mutex: "n < 0xFFFF \<Longrightarrow> \<exists>ip1. rt_pipe_create True True lock n mem ip = Some (None, ip1) \<and> mutexes ip1 lock \<noteq> None"
  by (simp add: rt_pipe_create_def rt_device_register_def rt_mutex_init_def Let_def)

end
