(* ===== verification/Event.thy ===== *)
theory Event
  imports Ipc
begin

text \<open>
  \<^verbatim>\<open>rt-thread/src/ipc.c\<close>: event sets.  \<open>event_set\<close> and \<open>event_info\<close> are the fields of the threads that
  hold what a thread waits for.  A receiver that has to wait ends the first part of its call with
  \<open>Blocked\<close>; \<open>event_recv_resumed\<close> is the rest.
\<close>

unbundle bit_operations_syntax

abbreviation (input) RT_EVENT_FLAG_AND :: u8 where "RT_EVENT_FLAG_AND \<equiv> 1"
abbreviation (input) RT_EVENT_FLAG_OR :: u8 where "RT_EVENT_FLAG_OR \<equiv> 2"
abbreviation (input) RT_EVENT_FLAG_CLEAR :: u8 where "RT_EVENT_FLAG_CLEAR \<equiv> 4"
abbreviation (input) RT_EINVAL :: rt_err_t where "RT_EINVAL \<equiv> 10"

record rt_event =
  ev_kern :: sched
  ev_set :: u32
  ev_flag :: ipc_flag
  ev_list :: nat
  event_set :: "nat \<Rightarrow> u32"
  event_info :: "nat \<Rightarrow> u8"

section \<open>Operations\<close>

definition rt_event_init :: "nat \<Rightarrow> ipc_flag \<Rightarrow> rt_event \<Rightarrow> rt_event" where
  "rt_event_init l flg s =
     s\<lparr>ev_kern := (ev_kern s)\<lparr>waiting := (waiting (ev_kern s))(l := [])\<rparr>, ev_set := 0, ev_flag := flg, ev_list := l\<rparr>"

definition rt_event_detach :: "rt_event \<Rightarrow> sched option" where
  "rt_event_detach s = rt_ipc_list_resume_all (ev_list s) (ev_kern s)"

definition clear_taken :: "u8 \<Rightarrow> u32 \<Rightarrow> rt_event \<Rightarrow> rt_event" where
  "clear_taken info taken s = (if info AND RT_EVENT_FLAG_CLEAR \<noteq> 0 then s\<lparr>ev_set := ev_set s AND NOT taken\<rparr> else s)"

text \<open>The loop of \<open>rt_event_send\<close> over the waiting threads.  The next node is read before a thread is resumed,
  which unlinks only its own, so the loop visits the list as it was.\<close>

fun send_loop :: "nat list \<Rightarrow> bool \<Rightarrow> rt_event \<Rightarrow> (rt_err_t \<times> bool \<times> rt_event) option" where
  "send_loop [] need s = Some (RT_EOK, need, s)"
| "send_loop (t # ts) need s =
     (if event_info s t AND RT_EVENT_FLAG_AND \<noteq> 0
      then if event_set s t AND ev_set s = event_set s t
           then do { (r, k) \<leftarrow> rt_thread_resume t (ev_kern s);
                     send_loop ts True ((clear_taken (event_info s t) (event_set s t) s)\<lparr>ev_kern := k\<rparr>) }
           else send_loop ts need s
      else if event_info s t AND RT_EVENT_FLAG_OR \<noteq> 0
      then if event_set s t AND ev_set s \<noteq> 0
           then do { (r, k) \<leftarrow> rt_thread_resume t (ev_kern s);
                     let got = event_set s t AND ev_set s in
                     send_loop ts True ((clear_taken (event_info s t) got (s\<lparr>event_set := (event_set s)(t := got)\<rparr>))\<lparr>ev_kern := k\<rparr>) }
           else send_loop ts need s
      else Some (- RT_EINVAL, need, s))"

definition rt_event_send :: "u32 \<Rightarrow> rt_event \<Rightarrow> (rt_err_t \<times> rt_event) option" where
  "rt_event_send st s =
     (if st = 0 then Some (- RT_ERROR, s)
      else do { (r, need, s1) \<leftarrow> send_loop (waiting (ev_kern s) (ev_list s)) False (s\<lparr>ev_set := ev_set s OR st\<rparr>);
                if r = RT_EOK \<and> need then do { k \<leftarrow> rt_schedule (ev_kern s1); Some (RT_EOK, s1\<lparr>ev_kern := k\<rparr>) }
                else Some (r, s1) })"

text \<open>Whether the events \<open>have\<close> are what the options and the set \<open>want\<close> ask for; \<open>None\<close> when neither option is given.\<close>

definition wanted :: "u8 \<Rightarrow> u32 \<Rightarrow> u32 \<Rightarrow> bool option" where
  "wanted info want have =
     (if info AND RT_EVENT_FLAG_AND \<noteq> 0 then Some (have AND want = want)
      else if info AND RT_EVENT_FLAG_OR \<noteq> 0 then Some (have AND want \<noteq> 0)
      else None)"

text \<open>The second component is what is stored at \<open>recved\<close>.\<close>

definition rt_event_recv :: "u32 \<Rightarrow> u8 \<Rightarrow> int \<Rightarrow> rt_event \<Rightarrow> (outcome \<times> u32 option \<times> rt_event) option" where
  "rt_event_recv st opt time s =
     (if st = 0 then Some (Returned (- RT_ERROR), None, s)
      else do { t \<leftarrow> rt_current_thread (ev_kern s);
                sat \<leftarrow> wanted opt st (ev_set s);
                let k = set_error t RT_EOK (ev_kern s) in
                if sat
                then let got = ev_set s AND st in
                     Some (Returned RT_EOK, Some got,
                       clear_taken opt st (s\<lparr>ev_kern := k, event_set := (event_set s)(t := got), event_info := (event_info s)(t := opt)\<rparr>))
                else if time = 0
                then Some (Returned (- RT_ETIMEOUT), None, s\<lparr>ev_kern := set_error t (- RT_ETIMEOUT) (ev_kern s)\<rparr>)
                else do { k1 \<leftarrow> rt_ipc_list_suspend (ev_list s) t (ev_flag s) k;
                          k2 \<leftarrow> (if time > 0 then thread_timer_start t (of_int time) k1 else Some k1);
                          k3 \<leftarrow> rt_schedule k2;
                          Some (Blocked, None, s\<lparr>ev_kern := k3, event_set := (event_set s)(t := st), event_info := (event_info s)(t := opt)\<rparr>) } })"

definition event_recv_resumed :: "nat \<Rightarrow> rt_event \<Rightarrow> rt_err_t \<times> u32 option" where
  "event_recv_resumed t s =
     (if error (threads (ev_kern s) t) \<noteq> RT_EOK then (error (threads (ev_kern s) t), None)
      else (RT_EOK, Some (event_set s t)))"

definition rt_event_control :: "bool \<Rightarrow> rt_event \<Rightarrow> (rt_err_t \<times> rt_event) option" where
  "rt_event_control reset s =
     (if reset
      then do { k1 \<leftarrow> rt_ipc_list_resume_all (ev_list s) (ev_kern s);
                k2 \<leftarrow> rt_schedule k1;
                Some (RT_EOK, s\<lparr>ev_kern := k2, ev_set := 0\<rparr>) }
      else Some (- RT_ERROR, s))"

section \<open>Sets of events\<close>

text \<open>What a thread waits for and is not there stays missing when events are taken away.\<close>

lemma wanted_shrinks: "wanted info want S = Some False \<Longrightarrow> wanted info want (S AND M) = Some False"
proof -
  have "S AND want = want" if "S AND M AND want = want"
    using that by (auto simp: bit_eq_iff bit_and_iff)
  moreover have "S AND M AND want = 0" if "S AND want = 0"
    using that by (auto simp: bit_eq_iff bit_and_iff)
  ultimately show "wanted info want S = Some False \<Longrightarrow> wanted info want (S AND M) = Some False"
    by (auto simp: wanted_def and.assoc split: if_splits)
qed

definition waits_in_vain :: "rt_event \<Rightarrow> nat \<Rightarrow> bool" where
  "waits_in_vain s t \<longleftrightarrow> wanted (event_info s t) (event_set s t) (ev_set s) = Some False"

definition ev_ok :: "rt_event \<Rightarrow> bool" where
  "ev_ok s \<longleftrightarrow> sched_wf (ev_kern s) \<and> (\<forall>t \<in> set (waiting (ev_kern s) (ev_list s)). waits_in_vain s t)"

text \<open>Only the set may shrink, and only events of other threads may change.\<close>

definition ev_less :: "rt_event \<Rightarrow> rt_event \<Rightarrow> bool" where
  "ev_less s s' \<longleftrightarrow> (\<exists>M. ev_set s' = ev_set s AND M) \<and> ev_list s' = ev_list s \<and> event_info s' = event_info s"

lemma ev_less_trans: "ev_less s1 s2 \<Longrightarrow> ev_less s2 s3 \<Longrightarrow> ev_less s1 s3"
  by (auto simp: ev_less_def and.assoc)

lemma ev_less_refl [simp]: "ev_less s s"
  by (auto simp: ev_less_def intro: exI [of _ "- 1"])

lemma clear_less: "ev_less s (clear_taken i g s)"
  by (auto simp: ev_less_def clear_taken_def intro: exI [of _ "- 1"])

section \<open>Sending\<close>

text \<open>The loop from the threads \<open>ts\<close> on: it returns, and each of them is left waiting in vain or was woken with what it
  gets.\<close>

definition gets_events :: "rt_event \<Rightarrow> rt_event \<Rightarrow> nat \<Rightarrow> bool" where
  "gets_events s s' t \<longleftrightarrow> stat (threads (ev_kern s') t) \<in> {RT_THREAD_READY, RT_THREAD_RUNNING} \<and>
     event_set s' t AND ev_set s = event_set s' t \<and>
     (if event_info s t AND RT_EVENT_FLAG_AND \<noteq> 0 then event_set s' t = event_set s t
      else event_set s' t \<noteq> 0 \<and> event_set s' t AND event_set s t = event_set s' t)"

lemma resume_waiter:
  assumes "sched_wf k" "t \<in> set (waiting k l)" "timers (tmr k) t \<noteq> None"
  obtains k' where "rt_thread_resume t k = Some (RT_EOK, k')" "sched_wf k'" "\<And>j. waiting k' j = removeAll t (waiting k j)"
    "stat (threads k' t) \<in> {RT_THREAD_READY, RT_THREAD_RUNNING}" "\<And>u. u \<noteq> t \<Longrightarrow> threads k' u = threads k u"
    "\<And>u. timers (tmr k) u \<noteq> None \<Longrightarrow> timers (tmr k') u \<noteq> None"
    "rt_current_thread k' = rt_current_thread k" "rt_scheduler_lock_nest k' = rt_scheduler_lock_nest k"
proof -
  have s: "stat (threads k t) = RT_THREAD_SUSPEND"
    using assms(1,2) queues_okD(5) [of "{}" k t l] by (simp add: sched_wf_def)
  obtain r ts where ts: "rt_timer_stop t (tmr k) = Some (r, ts)" "\<And>u. timers (tmr k) u \<noteq> None \<Longrightarrow> timers ts u \<noteq> None"
    using timer_stop_exists [OF assms(3)] by blast
  define k' where "k' = rt_schedule_insert_thread t ((tlist_remove t k)\<lparr>tmr := ts\<rparr>)"
  have r: "rt_thread_resume t k = Some (RT_EOK, k')"
    using s ts(1) by (simp add: rt_thread_resume_def thread_timer_stop_def k'_def)
  show ?thesis
    using that [OF r resume_wf [OF assms(1) r]] resume_waiting [OF r] s ts(2) by (auto simp: k'_def)
qed

definition served :: "nat \<Rightarrow> rt_event \<Rightarrow> rt_event" where
  "served t s = (let g = event_set s t AND ev_set s in clear_taken (event_info s t) g (s\<lparr>event_set := (event_set s)(t := g)\<rparr>))"

lemma send_loop_step:
  shows "wanted (event_info s t) (event_set s t) (ev_set s) = Some True \<Longrightarrow>
      send_loop (t # ts) need s = do { (r, k) \<leftarrow> rt_thread_resume t (ev_kern s); send_loop ts True ((served t s)\<lparr>ev_kern := k\<rparr>) }"
    and "wanted (event_info s t) (event_set s t) (ev_set s) = Some False \<Longrightarrow> send_loop (t # ts) need s = send_loop ts need s"
proof -
  have same: "s\<lparr>event_set := (event_set s)(t := event_set s t)\<rparr> = s"
    by simp
  show "send_loop (t # ts) need s = do { (r, k) \<leftarrow> rt_thread_resume t (ev_kern s); send_loop ts True ((served t s)\<lparr>ev_kern := k\<rparr>) }"
    if "wanted (event_info s t) (event_set s t) (ev_set s) = Some True"
    using that by (auto simp: wanted_def served_def same Let_def and.commute [of "event_set s t"] split: if_splits)
  show "send_loop (t # ts) need s = send_loop ts need s" if "wanted (event_info s t) (event_set s t) (ev_set s) = Some False"
    using that by (auto simp: wanted_def and.commute [of "event_set s t"] split: if_splits)
qed

lemma served_simps [simp]:
  "ev_kern (served t s) = ev_kern s" "ev_list (served t s) = ev_list s" "event_info (served t s) = event_info s"
  "event_set (served t s) = (event_set s)(t := event_set s t AND ev_set s)"
  by (simp_all add: served_def clear_taken_def Let_def)

lemma served_less: "ev_less s ((served t s)\<lparr>ev_kern := k\<rparr>)"
  by (auto simp: ev_less_def served_def clear_taken_def Let_def intro: exI [of _ "- 1"])

lemma vain_less: "ev_less s s' \<Longrightarrow> event_set s' t = event_set s t \<Longrightarrow> waits_in_vain s t \<Longrightarrow> waits_in_vain s' t"
  by (auto simp: ev_less_def waits_in_vain_def intro: wanted_shrinks)

lemma wanted_valid: "(wanted i w S = None) = (wanted i w S' = None)"
  by (simp add: wanted_def)

definition left_or_served :: "rt_event \<Rightarrow> rt_event \<Rightarrow> nat \<Rightarrow> bool" where
  "left_or_served s s' t \<longleftrightarrow>
     (if t \<in> set (waiting (ev_kern s') (ev_list s)) then waits_in_vain s' t \<and> event_set s' t = event_set s t else gets_events s s' t)"

lemma left_or_served_less:
  assumes "ev_less s s1" "event_set s1 t = event_set s t" "left_or_served s1 s' t"
  shows "left_or_served s s' t"
proof -
  obtain M where M: "ev_set s1 = ev_set s AND M" "event_info s1 = event_info s" "ev_list s1 = ev_list s"
    using assms(1) by (auto simp: ev_less_def)
  have "a AND ev_set s = a" if "a AND ev_set s AND M = a" for a
    using that by (auto simp: bit_eq_iff bit_and_iff)
  then show ?thesis
    using assms(2,3) M by (auto simp: left_or_served_def gets_events_def and.assoc)
qed

definition same_caller :: "rt_event \<Rightarrow> rt_event \<Rightarrow> bool" where
  "same_caller s s' \<longleftrightarrow> rt_current_thread (ev_kern s') = rt_current_thread (ev_kern s) \<and>
     rt_scheduler_lock_nest (ev_kern s') = rt_scheduler_lock_nest (ev_kern s)"

lemma event_loop_law:
  assumes "sched_wf (ev_kern s)" "distinct ts" "set ts \<subseteq> set (waiting (ev_kern s) (ev_list s))"
    and "\<And>t. t \<in> set ts \<Longrightarrow> timers (tmr (ev_kern s)) t \<noteq> None \<and> wanted (event_info s t) (event_set s t) (ev_set s) \<noteq> None"
  shows "\<exists>need' s'. send_loop ts need s = Some (RT_EOK, need', s') \<and> sched_wf (ev_kern s') \<and> ev_less s s' \<and>
    same_caller s s' \<and>
    (\<forall>t\<in>set ts. left_or_served s s' t) \<and>
    (\<forall>t. t \<notin> set ts \<longrightarrow> event_set s' t = event_set s t \<and> threads (ev_kern s') t = threads (ev_kern s) t \<and>
      (t \<in> set (waiting (ev_kern s') (ev_list s)) \<longleftrightarrow> t \<in> set (waiting (ev_kern s) (ev_list s))))"
  using assms
proof (induction ts arbitrary: s need)
  case Nil
  then show ?case
    by (simp add: same_caller_def)
next
  case (Cons t ts)
  have t: "t \<in> set (waiting (ev_kern s) (ev_list s))" "t \<notin> set ts" "timers (tmr (ev_kern s)) t \<noteq> None"
    using Cons.prems(2-4) by auto
  show ?case
  proof (cases "wanted (event_info s t) (event_set s t) (ev_set s) = Some True")
    case False
    then have f: "wanted (event_info s t) (event_set s t) (ev_set s) = Some False"
      using Cons.prems(4) [of t] by auto
    obtain need' s' where s': "send_loop ts need s = Some (RT_EOK, need', s')" "sched_wf (ev_kern s')" "ev_less s s'"
      "\<forall>t\<in>set ts. left_or_served s s' t" "event_set s' t = event_set s t" "t \<in> set (waiting (ev_kern s') (ev_list s))"
      "\<And>u. u \<notin> set ts \<Longrightarrow> event_set s' u = event_set s u \<and> threads (ev_kern s') u = threads (ev_kern s) u \<and>
      (u \<in> set (waiting (ev_kern s') (ev_list s)) \<longleftrightarrow> u \<in> set (waiting (ev_kern s) (ev_list s)))" "same_caller s s'"
      using Cons.IH [OF Cons.prems(1), of need] Cons.prems(2-4) t by auto
    have "left_or_served s s' t"
      using vain_less [OF s'(3,5)] f s'(5,6) by (simp add: left_or_served_def waits_in_vain_def)
    then show ?thesis
      using s' send_loop_step(2) [OF f] by (intro exI [of _ need'] exI [of _ s']) auto
  next
    case True
    obtain k where k: "rt_thread_resume t (ev_kern s) = Some (RT_EOK, k)" "sched_wf k" "\<And>j. waiting k j = removeAll t (waiting (ev_kern s) j)"
      "stat (threads k t) \<in> {RT_THREAD_READY, RT_THREAD_RUNNING}" "\<And>u. u \<noteq> t \<Longrightarrow> threads k u = threads (ev_kern s) u"
      "\<And>u. timers (tmr (ev_kern s)) u \<noteq> None \<Longrightarrow> timers (tmr k) u \<noteq> None"
      "rt_current_thread k = rt_current_thread (ev_kern s)" "rt_scheduler_lock_nest k = rt_scheduler_lock_nest (ev_kern s)"
      using resume_waiter [OF Cons.prems(1) t(1,3)] by blast
    define s1 where "s1 = (served t s)\<lparr>ev_kern := k\<rparr>"
    have less: "ev_less s s1"
      unfolding s1_def by (rule served_less)
    have same: "event_set s1 u = event_set s u" if "u \<noteq> t" for u
      using that by (simp add: s1_def)
    have "set ts \<subseteq> set (waiting (ev_kern s1) (ev_list s1))"
      using Cons.prems(3) t(2) by (auto simp: s1_def k(3))
    moreover have "timers (tmr (ev_kern s1)) u \<noteq> None \<and> wanted (event_info s1 u) (event_set s1 u) (ev_set s1) \<noteq> None" if "u \<in> set ts" for u
      using Cons.prems(4) [of u] that t(2) k(6) wanted_valid [of "event_info s u" "event_set s u" "ev_set s" "ev_set (served t s)"] by (auto simp: s1_def)
    ultimately obtain need' s' where s': "send_loop ts True s1 = Some (RT_EOK, need', s')" "sched_wf (ev_kern s')" "ev_less s1 s'"
      "\<And>u. u \<in> set ts \<Longrightarrow> left_or_served s1 s' u"
      "\<And>u. u \<notin> set ts \<Longrightarrow> event_set s' u = event_set s1 u \<and> threads (ev_kern s') u = threads k u \<and>
        (u \<in> set (waiting (ev_kern s') (ev_list s)) \<longleftrightarrow> u \<in> set (waiting k (ev_list s)))" "same_caller s1 s'"
      using Cons.IH [of s1 True] Cons.prems(2) k(2) by (fastforce simp: s1_def)
    have "same_caller s s'"
      using s'(6) k(7,8) by (simp add: same_caller_def s1_def)
    have "gets_events s s' t"
      using s'(5) [OF t(2)] True k(4) by (auto simp: gets_events_def s1_def wanted_def and.commute and.left_commute split: if_splits)
    then have "left_or_served s s' t"
      using s'(5) [OF t(2)] k(3) by (simp add: left_or_served_def)
    moreover have "left_or_served s s' u" if "u \<in> set ts" for u
      using left_or_served_less [OF less same s'(4) [OF that]] that t(2) by metis
    moreover have "send_loop (t # ts) need s = Some (RT_EOK, need', s')"
      using send_loop_step(1) [OF True] k(1) s'(1) by (simp add: s1_def)
    ultimately show ?thesis
      using s'(2,5) ev_less_trans [OF less s'(3)] k(3,5) same \<open>same_caller s s'\<close> by auto
  qed
qed

section \<open>No thread waits for events that are there\<close>

definition valid_waiters :: "rt_event \<Rightarrow> bool" where
  "valid_waiters s \<longleftrightarrow> (\<forall>t \<in> set (waiting (ev_kern s) (ev_list s)). timers (tmr (ev_kern s)) t \<noteq> None)"

lemma send_law:
  assumes "ev_ok s" "valid_waiters s" "st \<noteq> 0" "rt_event_send st s = Some (r, s')"
  defines "s0 \<equiv> s\<lparr>ev_set := ev_set s OR st\<rparr>"
  shows "r = RT_EOK" "ev_ok s'" "\<And>t. t \<in> set (waiting (ev_kern s) (ev_list s)) \<Longrightarrow> left_or_served s0 s' t"
proof -
  let ?ts = "waiting (ev_kern s) (ev_list s)"
  have wf: "sched_wf (ev_kern s0)" and d: "distinct ?ts"
    using assms(1) queues_okD(6) [of "{}" "ev_kern s" "ev_list s"] by (simp_all add: ev_ok_def sched_wf_def s0_def)
  have v: "timers (tmr (ev_kern s0)) t \<noteq> None \<and> wanted (event_info s0 t) (event_set s0 t) (ev_set s0) \<noteq> None" if "t \<in> set ?ts" for t
    using assms(1,2) that wanted_valid [of "event_info s t" "event_set s t" "ev_set s" "ev_set s0"]
    by (auto simp: ev_ok_def valid_waiters_def waits_in_vain_def s0_def)
  obtain need s1 where s1: "send_loop ?ts False s0 = Some (RT_EOK, need, s1)" "sched_wf (ev_kern s1)" "ev_less s0 s1"
    "\<And>t. t \<in> set ?ts \<Longrightarrow> left_or_served s0 s1 t" "\<And>t. t \<notin> set ?ts \<Longrightarrow> t \<notin> set (waiting (ev_kern s1) (ev_list s))"
    using event_loop_law [OF wf d _ v, of False] by (auto simp: s0_def)
  have l: "ev_list s1 = ev_list s" "ev_list s0 = ev_list s"
    using s1(3) by (simp_all add: ev_less_def s0_def)
  have "r = RT_EOK \<and> (\<exists>k. s' = s1\<lparr>ev_kern := k\<rparr> \<and> (rt_schedule (ev_kern s1) = Some k \<or> k = ev_kern s1))"
  proof (cases need)
    case True
    then show ?thesis
      using assms(3,4) s1(1) by (auto simp: rt_event_send_def s0_def split: Option.bind_splits)
  next
    case False
    then have "r = RT_EOK" "s' = s1"
      using assms(3,4) s1(1) by (auto simp: rt_event_send_def s0_def)
    then show ?thesis
      by (intro conjI exI [of _ "ev_kern s1"]) simp_all
  qed
  then obtain k where k: "r = RT_EOK" "s' = s1\<lparr>ev_kern := k\<rparr>" "sched_wf k" "waiting k = waiting (ev_kern s1)"
    "\<And>t. stat (threads (ev_kern s1) t) \<in> {RT_THREAD_READY, RT_THREAD_RUNNING} \<Longrightarrow> stat (threads k t) \<in> {RT_THREAD_READY, RT_THREAD_RUNNING}"
    using schedule_law [OF s1(2)] s1(2) unfolding switches_def by blast
  show "r = RT_EOK"
    by (rule k(1))
  show served: "left_or_served s0 s' t" if "t \<in> set ?ts" for t
    using s1(4) [OF that] k(2,4) k(5) [of t] by (auto simp: left_or_served_def gets_events_def waits_in_vain_def)
  show "ev_ok s'"
    using served s1(5) k(2-4) l by (fastforce simp: ev_ok_def left_or_served_def)
qed

lemma send_returns:
  assumes "ev_ok s" "valid_waiters s" "rt_current_thread (ev_kern s) = Some u" "stat (threads (ev_kern s) u) = RT_THREAD_RUNNING"
    and "rt_scheduler_lock_nest (ev_kern s) = 0"
  shows "\<exists>r s'. rt_event_send st s = Some (r, s')"
proof -
  let ?ts = "waiting (ev_kern s) (ev_list s)" and ?s = "s\<lparr>ev_set := ev_set s OR st\<rparr>"
  have wf: "sched_wf (ev_kern ?s)" and d: "distinct ?ts"
    using assms(1) queues_okD(6) [of "{}" "ev_kern s" "ev_list s"] by (simp_all add: ev_ok_def sched_wf_def)
  have off: "u \<notin> set ?ts"
    using wf queues_okD(5) [of "{}" "ev_kern s" u] assms(4) by (auto simp: sched_wf_def)
  have v: "timers (tmr (ev_kern ?s)) t \<noteq> None \<and> wanted (event_info ?s t) (event_set ?s t) (ev_set ?s) \<noteq> None" if "t \<in> set ?ts" for t
    using assms(1,2) that wanted_valid [of "event_info s t" "event_set s t" "ev_set s" "ev_set ?s"]
    by (auto simp: ev_ok_def valid_waiters_def waits_in_vain_def)
  obtain need s1 where s1: "send_loop ?ts False ?s = Some (RT_EOK, need, s1)" "sched_wf (ev_kern s1)" "same_caller ?s s1"
    "threads (ev_kern s1) u = threads (ev_kern s) u"
    using event_loop_law [OF wf d _ v, of False] off by auto
  then obtain k where "rt_schedule (ev_kern s1) = Some k"
    using schedule_best [OF s1(2), of u] assms(3-5) by (auto simp: same_caller_def)
  then show ?thesis
    using s1(1) by (auto simp: rt_event_send_def)
qed

lemma recv_law:
  assumes "ev_ok s" "rt_current_thread (ev_kern s) = Some t" "stat (threads (ev_kern s) t) = RT_THREAD_RUNNING"
    and "rt_event_recv st opt time s = Some (r, g, s')"
  shows "ev_ok s'"
proof (cases "st = 0")
  case False
  have wf: "sched_wf (ev_kern s)" and vain: "\<And>u. u \<in> set (waiting (ev_kern s) (ev_list s)) \<Longrightarrow> waits_in_vain s u"
    using assms(1) by (auto simp: ev_ok_def)
  have off: "t \<notin> set (waiting (ev_kern s) j)" for j
    using wf queues_okD(5) [of "{}" "ev_kern s" t j] assms(3) by (auto simp: sched_wf_def)
  obtain sat where sat: "wanted opt st (ev_set s) = Some sat"
    using assms(2,4) False by (auto simp: rt_event_recv_def split: Option.bind_splits)
  consider "sat" | "\<not> sat" "time = 0" | "\<not> sat" "time \<noteq> 0"
    by blast
  then show ?thesis
  proof cases
    case 1
    let ?s = "s\<lparr>ev_kern := set_error t RT_EOK (ev_kern s), event_set := (event_set s)(t := ev_set s AND st), event_info := (event_info s)(t := opt)\<rparr>"
    have s': "s' = clear_taken opt st ?s"
      using assms(2,4) False sat 1 by (simp add: rt_event_recv_def Let_def)
    have "waits_in_vain ?s u" if "u \<in> set (waiting (ev_kern s) (ev_list s))" for u
      using vain [OF that] off that by (auto simp: waits_in_vain_def)
    then have "waits_in_vain s' u" if "u \<in> set (waiting (ev_kern s) (ev_list s))" for u
      using that vain_less [OF clear_less, of opt st ?s u] by (simp add: s' clear_taken_def)
    moreover have "ev_kern s' = set_error t RT_EOK (ev_kern s)" "ev_list s' = ev_list s"
      by (simp_all add: s' clear_taken_def)
    ultimately show ?thesis
      using error_wf [OF wf] by (simp add: ev_ok_def)
  next
    case 2
    then have "s' = s\<lparr>ev_kern := set_error t (- RT_ETIMEOUT) (ev_kern s)\<rparr>"
      using assms(2,4) False sat by (simp add: rt_event_recv_def)
    then show ?thesis
      using wf vain error_wf by (simp add: ev_ok_def waits_in_vain_def)
  next
    case 3
    let ?k = "set_error t RT_EOK (ev_kern s)"
    obtain k1 k2 k3 where k: "rt_ipc_list_suspend (ev_list s) t (ev_flag s) ?k = Some k1"
      "(if time > 0 then thread_timer_start t (of_int time) k1 else Some k1) = Some k2" "rt_schedule k2 = Some k3"
      "s' = s\<lparr>ev_kern := k3, event_set := (event_set s)(t := st), event_info := (event_info s)(t := opt)\<rparr>"
      using assms(2,4) False sat 3 by (auto simp: rt_event_recv_def Let_def split: Option.bind_splits)
    have law: "sched_wf k1" "set (waiting k1 (ev_list s)) = insert t (set (waiting (ev_kern s) (ev_list s)))"
      using list_suspend_law(1,2) [OF error_wf [OF wf] _ _ k(1)] assms(2,3) by auto
    have "sched_wf k2" "waiting k2 = waiting k1"
      using law(1) k(2) timer_stop_simps(2) by (fastforce split: if_splits)+
    then have "sched_wf k3" "waiting k3 = waiting k1"
      using schedule_law [OF _ k(3)] by auto
    then show ?thesis
      using law(2) vain sat 3(1) by (auto simp: k(4) ev_ok_def waits_in_vain_def)
  qed
qed (use assms in \<open>simp add: rt_event_recv_def\<close>)

lemma control_law:
  assumes "ev_ok s" "rt_event_control b s = Some (r, s')"
  shows "ev_ok s'"
proof (cases b)
  case True
  then obtain k1 k2 where k: "rt_ipc_list_resume_all (ev_list s) (ev_kern s) = Some k1" "rt_schedule k1 = Some k2" "s' = s\<lparr>ev_kern := k2, ev_set := 0\<rparr>"
    using assms(2) by (auto simp: rt_event_control_def split: Option.bind_splits)
  have "sched_wf k1" "waiting k1 (ev_list s) = []"
    using resume_all_keeps [OF _ k(1) [unfolded rt_ipc_list_resume_all_def]] assms(1) by (simp_all add: ev_ok_def)
  then show ?thesis
    using schedule_law [OF _ k(2)] by (simp add: k(3) ev_ok_def)
qed (use assms in \<open>simp add: rt_event_control_def\<close>)

inductive ev_step :: "rt_event \<Rightarrow> rt_event \<Rightarrow> bool" where
  ev_send: "valid_waiters s \<Longrightarrow> rt_event_send st s = Some (r, s') \<Longrightarrow> ev_step s s'"
| ev_recv: "rt_current_thread (ev_kern s) = Some t \<Longrightarrow> stat (threads (ev_kern s) t) = RT_THREAD_RUNNING \<Longrightarrow>
    rt_event_recv st opt time s = Some (r, g, s') \<Longrightarrow> ev_step s s'"
| ev_control: "rt_event_control b s = Some (r, s') \<Longrightarrow> ev_step s s'"
| ev_other: "op_ok op (ev_kern s) \<Longrightarrow> kernel_step op (ev_kern s) = Some k \<Longrightarrow> ev_step s (s\<lparr>ev_kern := k\<rparr>)"

lemma ev_step_ok: "ev_step s s' \<Longrightarrow> ev_ok s \<Longrightarrow> ev_ok s'"
proof (induction rule: ev_step.induct)
  case (ev_send s st r s')
  then show ?case
    using send_law(2) [of s st r s'] by (cases "st = 0") (auto simp: rt_event_send_def)
next
  case (ev_recv s t st opt time r g s')
  then show ?case
    using recv_law by blast
next
  case (ev_control b s r s')
  then show ?case
    using control_law by blast
next
  case (ev_other op s k)
  then show ?case
    using kernel_step_wf kernel_shrinks [of op "ev_kern s" k] by (fastforce simp: ev_ok_def waits_in_vain_def)
qed

text \<open>C19: no wake-up is lost: whatever threads send, receive, reset, time out or do to each other, no thread is
  ever waiting for events that are already set, and the kernel stays consistent.\<close>

theorem no_lost_event:
  assumes "ev_step\<^sup>*\<^sup>* s s'" "sched_wf (ev_kern s)" "waiting (ev_kern s) (ev_list s) = []"
  shows "sched_wf (ev_kern s') \<and>
    (\<forall>t \<in> set (waiting (ev_kern s') (ev_list s')). wanted (event_info s' t) (event_set s' t) (ev_set s') = Some False)"
proof -
  have "ev_ok s"
    using assms(2,3) by (simp add: ev_ok_def)
  with assms(1) have "ev_ok s'"
    by (induction rule: rtranclp_induct) (auto dest: ev_step_ok)
  then show ?thesis
    by (simp add: ev_ok_def waits_in_vain_def)
qed

text \<open>Sending events wakes exactly the threads whose request they complete: each waiting thread either goes on
  waiting for something that is still missing, or can run again and holds the events it gets, all it
  asked for or a non-empty part of it, taken from those that were set.\<close>

theorem event_send_wakes:
  assumes "ev_ok s" "valid_waiters s" "st \<noteq> 0" "rt_current_thread (ev_kern s) = Some u" "stat (threads (ev_kern s) u) = RT_THREAD_RUNNING"
    and "rt_scheduler_lock_nest (ev_kern s) = 0"
  shows "\<exists>s'. rt_event_send st s = Some (RT_EOK, s') \<and> ev_ok s' \<and>
    (\<forall>t \<in> set (waiting (ev_kern s) (ev_list s)). left_or_served (s\<lparr>ev_set := ev_set s OR st\<rparr>) s' t)"
  using send_returns [OF assms(1,2,4-6), of st] send_law [OF assms(1-3)] by metis

definition demo_event :: rt_event where
  "demo_event = \<lparr>ev_kern = demo_waiters, ev_set = 0x10, ev_flag = RT_IPC_FLAG_FIFO, ev_list = 7,
     event_set = (\<lambda>t. if t = 2 then 3 else 4), event_info = (\<lambda>t. if t = 2 then RT_EVENT_FLAG_AND else RT_EVENT_FLAG_OR)\<rparr>"

lemma demo_event_ok:
  "ev_ok demo_event" "valid_waiters demo_event" "rt_current_thread (ev_kern demo_event) = Some 1"
  "stat (threads (ev_kern demo_event) 1) = RT_THREAD_RUNNING" "rt_scheduler_lock_nest (ev_kern demo_event) = 0"
  "waiting (ev_kern demo_event) (ev_list demo_event) = [2, 3]"
proof -
  show w: "waiting (ev_kern demo_event) (ev_list demo_event) = [2, 3]"
    by (simp add: demo_event_def demo_waiters_def)
  have "waits_in_vain demo_event 2" "waits_in_vain demo_event 3"
    by (simp_all add: demo_event_def waits_in_vain_def wanted_def)
  then show "ev_ok demo_event"
    unfolding ev_ok_def w using demo_waiters_wf by (simp add: demo_event_def)
  show "valid_waiters demo_event"
    unfolding valid_waiters_def w by (simp add: demo_event_def demo_waiters_def demo_sched_def demo_timers_def)
qed (simp_all add: demo_event_def demo_waiters_def demo_sched_def demo_thread_def)

theorem event_send_wakes_witness:
  "\<exists>s'. rt_event_send 3 demo_event = Some (RT_EOK, s') \<and> ev_ok s' \<and> left_or_served (demo_event\<lparr>ev_set := 0x13\<rparr>) s' 2"
proof -
  have "ev_set demo_event OR 3 = 0x13"
    by (simp add: demo_event_def)
  then show ?thesis
    using event_send_wakes [OF demo_event_ok(1,2) _ demo_event_ok(3-5), of 3] demo_event_ok(6) by auto
qed

theorem no_lost_event_witness:
  "\<exists>s'. ev_step\<^sup>*\<^sup>* (demo_event\<lparr>ev_list := 9\<rparr>) s' \<and> ev_set s' = 0x13 \<and> sched_wf (ev_kern s')"
proof -
  let ?s = "demo_event\<lparr>ev_list := 9\<rparr>"
  let ?s' = "?s\<lparr>ev_set := 0x13\<rparr>"
  have w: "waiting (ev_kern ?s) (ev_list ?s) = []"
    by (simp add: demo_event_def demo_waiters_def demo_sched_def)
  have set: "ev_set ?s OR 3 = 0x13"
    by (simp add: demo_event_def)
  have "rt_event_send 3 ?s = Some (RT_EOK, ?s')"
    unfolding rt_event_send_def w set by simp
  then have st: "ev_step\<^sup>*\<^sup>* ?s ?s'"
    using ev_send [of ?s 3] by (auto simp: valid_waiters_def w [simplified])
  have "sched_wf (ev_kern ?s)"
    using demo_event_ok(1) by (simp add: ev_ok_def)
  from no_lost_event [OF st this w] st show ?thesis
    by auto
qed

end
