(* ===== verification/Msgqueue.thy ===== *)
theory Msgqueue
  imports Mailbox
begin

text \<open>
  \<^verbatim>\<open>rt-thread/src/ipc.c\<close>: message queues, as singly linked lists of nodes of a pool.
\<close>

unbundle bit_operations_syntax

section \<open>Message queues\<close>

text \<open>A message is the number of its node in the pool; \<open>msg_next\<close> holds the link at the start of each node and
  \<open>msg_data\<close> the bytes after it.  The copy of a message is made with interrupts enabled, but on a
  node that is then on neither list, so the parts of a call are composed into one step.\<close>

record rt_messagequeue =
  msg_size :: u16
  max_msgs :: u16
  mq_entry :: u16
  msg_queue_head :: "nat option"
  msg_queue_tail :: "nat option"
  msg_queue_free :: "nat option"
  msg_next :: "nat \<Rightarrow> nat option"
  msg_data :: "nat \<Rightarrow> u8 list"
  mq_flag :: ipc_flag
  mq_recv_list :: nat
  mq_send_list :: nat

record mq_sys =
  mq_kern :: sched
  mq :: rt_messagequeue

text \<open>The loop that puts every node in front of the free list, from node \<open>temp\<close> on.\<close>

function link_free :: "nat \<Rightarrow> rt_messagequeue \<Rightarrow> rt_messagequeue" where
  "link_free temp q =
     (if temp < unat (max_msgs q)
      then link_free (temp + 1) (q\<lparr>msg_next := (msg_next q)(temp := msg_queue_free q), msg_queue_free := Some temp\<rparr>)
      else q)"
  by pat_completeness auto
termination
  by (relation "measure (\<lambda>(temp, q). unat (max_msgs q) - temp)") auto

declare link_free.simps [simp del]

text \<open>\<open>pool\<close> is what the memory of the pool holds, by node.\<close>

definition rt_mq_init :: "nat \<Rightarrow> nat \<Rightarrow> (nat \<Rightarrow> u8 list) \<Rightarrow> u32 \<Rightarrow> u32 \<Rightarrow> ipc_flag \<Rightarrow> sched \<Rightarrow> mq_sys" where
  "rt_mq_init rl sl pool msz psz flg k =
     (let sz = ucast ((msz + 3) AND NOT 3) :: u16;
          n = ucast (psz div (ucast sz + 4)) :: u16
      in \<lparr>mq_kern = k\<lparr>waiting := (waiting k)(rl := [], sl := [])\<rparr>,
          mq = link_free 0 \<lparr>msg_size = sz, max_msgs = n, mq_entry = 0, msg_queue_head = None, msg_queue_tail = None,
                 msg_queue_free = None, msg_next = (\<lambda>_. None), msg_data = pool, mq_flag = flg, mq_recv_list = rl, mq_send_list = sl\<rparr>\<rparr>)"

definition rt_mq_detach :: "mq_sys \<Rightarrow> sched option" where
  "rt_mq_detach s = do { k1 \<leftarrow> rt_ipc_list_resume_all (mq_recv_list (mq s)) (mq_kern s);
                         rt_ipc_list_resume_all (mq_send_list (mq s)) k1 }"

definition take_free :: "nat \<Rightarrow> rt_messagequeue \<Rightarrow> rt_messagequeue" where
  "take_free msg q = q\<lparr>msg_queue_free := msg_next q msg\<rparr>"

definition fill_msg :: "nat \<Rightarrow> u8 list \<Rightarrow> rt_messagequeue \<Rightarrow> rt_messagequeue" where
  "fill_msg msg buf q = q\<lparr>msg_data := (msg_data q)(msg := blit (msg_data q msg) 0 buf (length buf))\<rparr>"

definition link_tail :: "nat \<Rightarrow> rt_messagequeue \<Rightarrow> rt_messagequeue" where
  "link_tail msg q =
     (let q1 = (case msg_queue_tail q of Some l \<Rightarrow> q\<lparr>msg_next := (msg_next q)(l := Some msg)\<rparr> | None \<Rightarrow> q)
      in q1\<lparr>msg_queue_tail := Some msg, msg_queue_head := (if msg_queue_head q = None then Some msg else msg_queue_head q)\<rparr>)"

definition link_head :: "nat \<Rightarrow> rt_messagequeue \<Rightarrow> rt_messagequeue" where
  "link_head msg q =
     q\<lparr>msg_next := (msg_next q)(msg := msg_queue_head q), msg_queue_head := Some msg,
       msg_queue_tail := (if msg_queue_tail q = None then Some msg else msg_queue_tail q)\<rparr>"

text \<open>Counts the message and wakes a receiver.\<close>

definition count_and_wake :: "mq_sys \<Rightarrow> (result \<times> mq_sys) option" where
  "count_and_wake s =
     (if mq_entry (mq s) < 0xFFFF
      then do { k \<leftarrow> wake_one (mq_recv_list (mq s)) (mq_kern s);
                Some (Done RT_EOK, s\<lparr>mq_kern := k, mq := (mq s)\<lparr>mq_entry := mq_entry (mq s) + 1\<rparr>\<rparr>) }
      else Some (Done (- RT_EFULL), s))"

definition mq_send_loop :: "u8 list \<Rightarrow> int \<Rightarrow> mq_sys \<Rightarrow> (result \<times> mq_sys) option" where
  "mq_send_loop buf time s =
     (case msg_queue_free (mq s) of
        None \<Rightarrow>
          do { t \<leftarrow> rt_current_thread (mq_kern s);
               let k1 = set_error t RT_EOK (mq_kern s) in
               if time = 0 then Some (Done (- RT_EFULL), s\<lparr>mq_kern := k1\<rparr>)
               else do { (r, k2) \<leftarrow> wait_on_list (mq_send_list (mq s)) t (mq_flag (mq s)) time k1;
                         Some (r, s\<lparr>mq_kern := k2\<rparr>) } }
      | Some msg \<Rightarrow>
          let q1 = take_free msg (mq s);
              q2 = q1\<lparr>msg_next := (msg_next q1)(msg := None)\<rparr>
          in count_and_wake (s\<lparr>mq := link_tail msg (fill_msg msg buf q2)\<rparr>))"

text \<open>A message of size zero fails an assertion.\<close>

definition rt_mq_send_wait :: "u8 list \<Rightarrow> int \<Rightarrow> mq_sys \<Rightarrow> (result \<times> mq_sys) option" where
  "rt_mq_send_wait buf time s =
     (if buf = [] then None
      else if length buf > unat (msg_size (mq s)) then Some (Done (- RT_ERROR), s)
      else if msg_queue_free (mq s) = None \<and> time = 0 then Some (Done (- RT_EFULL), s)
      else mq_send_loop buf time s)"

definition rt_mq_send :: "u8 list \<Rightarrow> mq_sys \<Rightarrow> (result \<times> mq_sys) option" where
  "rt_mq_send buf s = rt_mq_send_wait buf 0 s"

definition mq_send_resumed :: "nat \<Rightarrow> u8 list \<Rightarrow> int \<Rightarrow> u32 \<Rightarrow> mq_sys \<Rightarrow> (result \<times> mq_sys) option" where
  "mq_send_resumed t buf time start s =
     (if error (threads (mq_kern s) t) \<noteq> RT_EOK then Some (Done (error (threads (mq_kern s) t)), s)
      else mq_send_loop buf (time_left_after time start (tick_now (tmr (mq_kern s)))) s)"

definition rt_mq_urgent :: "u8 list \<Rightarrow> mq_sys \<Rightarrow> (result \<times> mq_sys) option" where
  "rt_mq_urgent buf s =
     (if buf = [] then None
      else if length buf > unat (msg_size (mq s)) then Some (Done (- RT_ERROR), s)
      else case msg_queue_free (mq s) of
             None \<Rightarrow> Some (Done (- RT_EFULL), s)
           | Some msg \<Rightarrow> count_and_wake (s\<lparr>mq := link_head msg (fill_msg msg buf (take_free msg (mq s)))\<rparr>))"

definition take_head :: "nat \<Rightarrow> rt_messagequeue \<Rightarrow> rt_messagequeue" where
  "take_head msg q =
     q\<lparr>msg_queue_head := msg_next q msg, msg_queue_tail := (if msg_queue_tail q = Some msg then None else msg_queue_tail q)\<rparr>"

definition put_free :: "nat \<Rightarrow> rt_messagequeue \<Rightarrow> rt_messagequeue" where
  "put_free msg q = q\<lparr>msg_next := (msg_next q)(msg := msg_queue_free q), msg_queue_free := Some msg\<rparr>"

text \<open>\<open>size\<close> is the size of the receiver's buffer; the third component is what is copied into it.\<close>

definition mq_recv_loop :: "nat \<Rightarrow> int \<Rightarrow> mq_sys \<Rightarrow> (result \<times> u8 list option \<times> mq_sys) option" where
  "mq_recv_loop sz time s =
     (if mq_entry (mq s) = 0
      then do { t \<leftarrow> rt_current_thread (mq_kern s);
                if time = 0 then Some (Done (- RT_ETIMEOUT), None, s\<lparr>mq_kern := set_error t (- RT_ETIMEOUT) (mq_kern s)\<rparr>)
                else do { (r, k2) \<leftarrow> wait_on_list (mq_recv_list (mq s)) t (mq_flag (mq s)) time (set_error t RT_EOK (mq_kern s));
                          Some (r, None, s\<lparr>mq_kern := k2\<rparr>) } }
      else do { msg \<leftarrow> msg_queue_head (mq s);
                let q1 = take_head msg (mq s);
                    q2 = q1\<lparr>mq_entry := (if mq_entry q1 > 0 then mq_entry q1 - 1 else mq_entry q1)\<rparr>;
                    out = take (min sz (unat (msg_size q2))) (msg_data q2 msg) in
                do { k1 \<leftarrow> wake_one (mq_send_list (mq s)) (mq_kern s);
                     Some (Done RT_EOK, Some out, s\<lparr>mq_kern := k1, mq := put_free msg q2\<rparr>) } })"

definition rt_mq_recv :: "nat \<Rightarrow> int \<Rightarrow> mq_sys \<Rightarrow> (result \<times> u8 list option \<times> mq_sys) option" where
  "rt_mq_recv sz time s =
     (if sz = 0 then None
      else if mq_entry (mq s) = 0 \<and> time = 0 then Some (Done (- RT_ETIMEOUT), None, s) else mq_recv_loop sz time s)"

definition mq_recv_resumed :: "nat \<Rightarrow> nat \<Rightarrow> int \<Rightarrow> u32 \<Rightarrow> mq_sys \<Rightarrow> (result \<times> u8 list option \<times> mq_sys) option" where
  "mq_recv_resumed t sz time start s =
     (if error (threads (mq_kern s) t) \<noteq> RT_EOK then Some (Done (error (threads (mq_kern s) t)), None, s)
      else mq_recv_loop sz (time_left_after time start (tick_now (tmr (mq_kern s)))) s)"

text \<open>The loop of the reset that gives every message back; it needs a round per node.\<close>

fun drain_loop :: "nat \<Rightarrow> rt_messagequeue \<Rightarrow> rt_messagequeue option" where
  "drain_loop 0 q = None"
| "drain_loop (Suc fuel) q =
     (case msg_queue_head q of None \<Rightarrow> Some q | Some msg \<Rightarrow> drain_loop fuel (put_free msg (take_head msg q)))"

definition rt_mq_control :: "bool \<Rightarrow> mq_sys \<Rightarrow> (rt_err_t \<times> mq_sys) option" where
  "rt_mq_control reset s =
     (if reset
      then do { k1 \<leftarrow> rt_ipc_list_resume_all (mq_recv_list (mq s)) (mq_kern s);
                k2 \<leftarrow> rt_ipc_list_resume_all (mq_send_list (mq s)) k1;
                q \<leftarrow> drain_loop (unat (max_msgs (mq s)) + 1) (mq s);
                k3 \<leftarrow> rt_schedule k2;
                Some (RT_EOK, s\<lparr>mq_kern := k3, mq := q\<lparr>mq_entry := 0\<rparr>\<rparr>) }
      else Some (- RT_ERROR, s))"

section \<open>The two lists of nodes\<close>

definition mq_inv :: "rt_messagequeue \<Rightarrow> nat list \<Rightarrow> nat list \<Rightarrow> bool" where
  "mq_inv q qs fs \<longleftrightarrow>
     chain (msg_next q) (msg_queue_head q) qs \<and> chain (msg_next q) (msg_queue_free q) fs \<and>
     distinct (qs @ fs) \<and> set (qs @ fs) \<subseteq> {..<unat (max_msgs q)} \<and> unat (mq_entry q) = length qs \<and>
     msg_queue_tail q = (if qs = [] then None else Some (last qs)) \<and>
     (\<forall>n < unat (max_msgs q). length (msg_data q n) = unat (msg_size q))"

definition queued :: "rt_messagequeue \<Rightarrow> nat list" where
  "queued q = follow (unat (max_msgs q)) (msg_next q) (msg_queue_head q)"

definition unused :: "rt_messagequeue \<Rightarrow> nat list" where
  "unused q = follow (unat (max_msgs q)) (msg_next q) (msg_queue_free q)"

definition mq_ok :: "rt_messagequeue \<Rightarrow> bool" where
  "mq_ok q \<longleftrightarrow> mq_inv q (queued q) (unused q)"

definition mq_contents :: "rt_messagequeue \<Rightarrow> u8 list list" where
  "mq_contents q = map (msg_data q) (queued q)"

lemma mq_inv_lengths: "mq_inv q qs fs \<Longrightarrow> length qs + length fs \<le> unat (max_msgs q)"
  using distinct_card [of "qs @ fs"] card_mono [of "{..<unat (max_msgs q)}" "set (qs @ fs)"] by (simp add: mq_inv_def)

lemma mq_inv_unique:
  assumes "mq_inv q qs fs"
  shows "queued q = qs" "unused q = fs" "mq_ok q" "mq_contents q = map (msg_data q) qs"
proof -
  show qs: "queued q = qs" and fs: "unused q = fs"
    using assms mq_inv_lengths [OF assms] by (auto simp: queued_def unused_def mq_inv_def intro!: follow_chain)
  show "mq_ok q" "mq_contents q = map (msg_data q) qs"
    using assms by (simp_all add: mq_ok_def mq_contents_def qs fs)
qed

definition carried :: "u8 list \<Rightarrow> u8 list \<Rightarrow> bool" where
  "carried v w \<longleftrightarrow> take (length v) w = v"

text \<open>The queue after a node was taken from the free list, filled and linked in, and the message counted.\<close>

definition mq_put :: "bool \<Rightarrow> nat \<Rightarrow> u8 list \<Rightarrow> rt_messagequeue \<Rightarrow> rt_messagequeue" where
  "mq_put urgent msg buf q =
     (let q1 = take_free msg q;
          q2 = (if urgent then link_head msg (fill_msg msg buf q1)
                else link_tail msg (fill_msg msg buf (q1\<lparr>msg_next := (msg_next q1)(msg := None)\<rparr>)))
      in q2\<lparr>mq_entry := mq_entry q2 + 1\<rparr>)"

lemma mq_put_law:
  assumes "mq_inv q qs (msg # fs)" "length buf \<le> unat (msg_size q)"
  shows "mq_inv (mq_put urgent msg buf q) (if urgent then msg # qs else qs @ [msg]) fs"
    and "map (msg_data (mq_put urgent msg buf q)) qs = map (msg_data q) qs"
    and "carried buf (msg_data (mq_put urgent msg buf q) msg)"
    and "msg_size (mq_put urgent msg buf q) = msg_size q" "max_msgs (mq_put urgent msg buf q) = max_msgs q"
proof -
  have inv: "chain (msg_next q) (msg_queue_head q) qs" "chain (msg_next q) (msg_next q msg) fs" "msg_queue_free q = Some msg"
    "distinct (qs @ msg # fs)" "set (qs @ msg # fs) \<subseteq> {..<unat (max_msgs q)}" "unat (mq_entry q) = length qs"
    "msg_queue_tail q = (if qs = [] then None else Some (last qs))"
    "\<And>n. n < unat (max_msgs q) \<Longrightarrow> length (msg_data q n) = unat (msg_size q)"
    using assms(1) by (auto simp: mq_inv_def)
  have e: "unat (mq_entry q + 1) = length qs + 1"
    using mq_inv_lengths [OF assms(1)] inv(6) entry_up [of "mq_entry q" "max_msgs q"] by (simp add: word_less_nat_alt)
  note defs = mq_put_def take_free_def fill_msg_def link_head_def link_tail_def Let_def
  have len: "length (msg_data q msg) = unat (msg_size q)"
    using inv(5,8) by simp
  show "map (msg_data (mq_put urgent msg buf q)) qs = map (msg_data q) qs"
    using inv(4) by (auto simp: defs split: option.splits)
  show "carried buf (msg_data (mq_put urgent msg buf q) msg)"
    using assms(2) len by (auto simp: defs carried_def blit_def split: option.splits)
  show same: "msg_size (mq_put urgent msg buf q) = msg_size q" "max_msgs (mq_put urgent msg buf q) = max_msgs q"
    by (auto simp: defs split: option.splits)
  have data: "length (msg_data (mq_put urgent msg buf q) n) = unat (msg_size q)" if "n < unat (max_msgs q)" for n
    using inv(8) [OF that] len assms(2) by (auto simp: defs split: option.splits)
  show "mq_inv (mq_put urgent msg buf q) (if urgent then msg # qs else qs @ [msg]) fs"
  proof (cases "urgent \<or> qs = []")
    case True
    then show ?thesis
      using inv(1-7) e same data by (auto simp: mq_inv_def) (auto simp: defs)
  next
    case False
    have "chain ((msg_next q)(msg := None, last qs := Some msg)) (msg_queue_head q) (qs @ [msg])"
      using inv(1,4) False by (intro chain_snoc) auto
    moreover have "last qs \<notin> set fs" "last qs \<noteq> msg" "msg_queue_head q \<noteq> None"
      using inv(1,4) False last_in_set [of qs] by (cases qs; auto)+
    ultimately show ?thesis
      using inv(2-7) e same data False by (auto simp: mq_inv_def) (auto simp: defs)
  qed
qed

definition mq_get :: "nat \<Rightarrow> rt_messagequeue \<Rightarrow> rt_messagequeue" where
  "mq_get msg q = (let q1 = take_head msg q in put_free msg (q1\<lparr>mq_entry := mq_entry q1 - 1\<rparr>))"

lemma give_back_law:
  assumes "mq_inv q (msg # qs) fs"
  shows "chain (msg_next (put_free msg (take_head msg q))) (msg_queue_head (put_free msg (take_head msg q))) qs"
    and "chain (msg_next (put_free msg (take_head msg q))) (msg_queue_free (put_free msg (take_head msg q))) (msg # fs)"
    and "msg_queue_tail (put_free msg (take_head msg q)) = (if qs = [] then None else Some (last qs))"
  using assms last_in_set [of qs] by (auto simp: mq_inv_def take_head_def put_free_def)

lemma mq_get_law:
  assumes "mq_inv q (msg # qs) fs"
  shows "mq_inv (mq_get msg q) qs (msg # fs)" "msg_data (mq_get msg q) = msg_data q"
    "msg_size (mq_get msg q) = msg_size q" "max_msgs (mq_get msg q) = max_msgs q"
proof -
  have inv: "distinct (msg # qs @ fs)" "set (msg # qs @ fs) \<subseteq> {..<unat (max_msgs q)}" "unat (mq_entry q) = Suc (length qs)"
    "\<forall>n < unat (max_msgs q). length (msg_data q n) = unat (msg_size q)"
    using assms by (auto simp: mq_inv_def)
  have "mq_entry q \<noteq> 0"
    using inv(3) by auto
  then have "unat (mq_entry q - 1) = length qs"
    using inv(3) by (simp add: unat_minus_one)
  then show "mq_inv (mq_get msg q) qs (msg # fs)" "msg_data (mq_get msg q) = msg_data q"
    "msg_size (mq_get msg q) = msg_size q" "max_msgs (mq_get msg q) = max_msgs q"
    using give_back_law [OF assms] inv by (auto simp: mq_inv_def mq_get_def take_head_def put_free_def Let_def)
qed

lemma mq_head_queued: "mq_inv q qs fs \<Longrightarrow> (msg_queue_head q = None) = (qs = [])" "mq_inv q qs fs \<Longrightarrow> (mq_entry q = 0) = (qs = [])"
  by (cases qs; auto simp: mq_inv_def unat_eq_zero)+

section \<open>A message queue is a bounded queue\<close>

definition mq_sys_ok :: "mq_sys \<Rightarrow> bool" where
  "mq_sys_ok s \<longleftrightarrow> mq_ok (mq s) \<and> sched_wf (mq_kern s)"

inductive mq_step :: "mq_sys \<Rightarrow> u8 list traffic \<Rightarrow> mq_sys \<Rightarrow> bool" where
  mq_send: "runs (mq_kern s) t \<Longrightarrow> rt_mq_send_wait buf time s = Some (r, s') \<Longrightarrow>
    mq_step s (if r = Done RT_EOK then Sent buf else Quiet) s'"
| mq_send_goes_on: "runs (mq_kern s) t \<Longrightarrow> length buf \<le> unat (msg_size (mq s)) \<Longrightarrow> mq_send_resumed t buf time start s = Some (r, s') \<Longrightarrow>
    mq_step s (if r = Done RT_EOK then Sent buf else Quiet) s'"
| mq_recv: "runs (mq_kern s) t \<Longrightarrow> unat (msg_size (mq s)) \<le> sz \<Longrightarrow> rt_mq_recv sz time s = Some (r, x, s') \<Longrightarrow>
    mq_step s (case x of Some v \<Rightarrow> Got v | None \<Rightarrow> Quiet) s'"
| mq_recv_goes_on: "runs (mq_kern s) t \<Longrightarrow> unat (msg_size (mq s)) \<le> sz \<Longrightarrow> mq_recv_resumed t sz time start s = Some (r, x, s') \<Longrightarrow>
    mq_step s (case x of Some v \<Rightarrow> Got v | None \<Rightarrow> Quiet) s'"
| mq_other: "op_ok op (mq_kern s) \<Longrightarrow> kernel_step op (mq_kern s) = Some k \<Longrightarrow> mq_step s Quiet (s\<lparr>mq_kern := k\<rparr>)"

text \<open>What a step does to the queue; a message is carried by a node that starts with it.\<close>

fun delivers :: "u8 list traffic \<Rightarrow> u8 list list \<Rightarrow> u8 list list \<Rightarrow> bool" where
  "delivers (Sent v) q q' \<longleftrightarrow> (\<exists>w. carried v w \<and> q' = q @ [w])"
| "delivers (Got v) q q' \<longleftrightarrow> q = v # q'"
| "delivers Quiet q q' \<longleftrightarrow> q' = q"

definition mq_keeps :: "mq_sys \<Rightarrow> u8 list traffic \<Rightarrow> mq_sys \<Rightarrow> bool" where
  "mq_keeps s l s' \<longleftrightarrow> mq_sys_ok s' \<and> max_msgs (mq s') = max_msgs (mq s) \<and> delivers l (mq_contents (mq s)) (mq_contents (mq s'))"

lemma mq_wait_law:
  assumes "mq_sys_ok s" "runs (mq_kern s) t" "wait_on_list l t (mq_flag (mq s)) time (set_error t RT_EOK (mq_kern s)) = Some (r, k)"
  shows "mq_keeps s Quiet (s\<lparr>mq_kern := k\<rparr>)" "r \<noteq> Done RT_EOK"
proof -
  have "sched_wf (set_error t RT_EOK (mq_kern s))" "runs (set_error t RT_EOK (mq_kern s)) t"
    using assms(1,2) by (auto simp: mq_sys_ok_def intro: error_wf error_runs)
  then show "mq_keeps s Quiet (s\<lparr>mq_kern := k\<rparr>)"
    using wait_on_list_wf [OF _ _ _ assms(3)] assms(1) by (simp add: runs_def mq_sys_ok_def mq_keeps_def)
  show "r \<noteq> Done RT_EOK"
    using assms(3) by (auto simp: wait_on_list_def split: Option.bind_splits)
qed

lemma count_and_wake_put:
  assumes "mq_sys_ok s" "msg_queue_free (mq s) = Some msg" "length buf \<le> unat (msg_size (mq s))"
    and "(mq_put urgent msg buf (mq s)) = q'\<lparr>mq_entry := mq_entry q' + 1\<rparr>" "mq_entry q' = mq_entry (mq s)"
    and "count_and_wake (s\<lparr>mq := q'\<rparr>) = Some (r, s')"
  shows "mq_sys_ok s' \<and> max_msgs (mq s') = max_msgs (mq s) \<and> r = Done RT_EOK \<and>
    (\<exists>w. carried buf w \<and> mq_contents (mq s') = (if urgent then w # mq_contents (mq s) else mq_contents (mq s) @ [w]))"
proof -
  have i: "mq_inv (mq s) (queued (mq s)) (unused (mq s))" and wf: "sched_wf (mq_kern s)"
    using assms(1) by (simp_all add: mq_sys_ok_def mq_ok_def)
  then obtain fs where fs: "mq_inv (mq s) (queued (mq s)) (msg # fs)"
    using assms(2) by (cases "unused (mq s)") (auto simp: mq_inv_def)
  note p = mq_put_law [OF fs assms(3), of urgent]
  have "mq_entry q' < 0xFFFF"
    using mq_inv_lengths [OF fs] fs assms(5) entry_room [of "mq_entry (mq s)" "max_msgs (mq s)"] by (simp add: mq_inv_def word_less_nat_alt)
  then obtain k where k: "wake_one (mq_recv_list q') (mq_kern s) = Some k" "r = Done RT_EOK" "mq_kern s' = k" "mq s' = mq_put urgent msg buf (mq s)"
    using assms(4,6) by (auto simp: count_and_wake_def split: Option.bind_splits)
  have "sched_wf k"
    by (rule wake_one_wf [OF wf k(1)])
  then show ?thesis
    using mq_inv_unique(3,4) [OF p(1)] mq_inv_unique(4) [OF fs] p(2,3,5) k(2-4) by (auto simp: mq_sys_ok_def)
qed

lemma mq_send_loop_law:
  assumes "mq_sys_ok s" "runs (mq_kern s) t" "length buf \<le> unat (msg_size (mq s))" "mq_send_loop buf time s = Some (r, s')"
  shows "mq_keeps s (if r = Done RT_EOK then Sent buf else Quiet) s'"
proof (cases "msg_queue_free (mq s)")
  case None
  have t: "rt_current_thread (mq_kern s) = Some t"
    using assms(2) by (simp add: runs_def)
  show ?thesis
  proof (cases "time = 0")
    case True
    then have "r = Done (- RT_EFULL)" "s' = s\<lparr>mq_kern := set_error t RT_EOK (mq_kern s)\<rparr>"
      using assms(4) None t by (auto simp: mq_send_loop_def)
    then show ?thesis
      using assms(1) error_wf by (auto simp: mq_keeps_def mq_sys_ok_def)
  next
    case False
    then obtain k where "wait_on_list (mq_send_list (mq s)) t (mq_flag (mq s)) time (set_error t RT_EOK (mq_kern s)) = Some (r, k)"
      "s' = s\<lparr>mq_kern := k\<rparr>"
      using assms(4) None t by (auto simp: mq_send_loop_def Let_def split: Option.bind_splits)
    then show ?thesis
      using mq_wait_law [OF assms(1,2)] by simp
  qed
next
  case (Some msg)
  define q' where "q' = (let q1 = take_free msg (mq s) in link_tail msg (fill_msg msg buf (q1\<lparr>msg_next := (msg_next q1)(msg := None)\<rparr>)))"
  have "mq_put False msg buf (mq s) = q'\<lparr>mq_entry := mq_entry q' + 1\<rparr>"
    by (simp add: mq_put_def q'_def Let_def)
  moreover have "mq_entry q' = mq_entry (mq s)"
    by (simp add: q'_def Let_def link_tail_def fill_msg_def take_free_def split: option.splits)
  moreover have "count_and_wake (s\<lparr>mq := q'\<rparr>) = Some (r, s')"
    using assms(4) Some by (simp add: mq_send_loop_def q'_def Let_def)
  ultimately show ?thesis
    using count_and_wake_put [OF assms(1) Some assms(3), of False q' r s'] by (auto simp: mq_keeps_def)
qed

lemma mq_recv_loop_law:
  assumes "mq_sys_ok s" "runs (mq_kern s) t" "unat (msg_size (mq s)) \<le> sz" "mq_recv_loop sz time s = Some (r, x, s')"
  shows "mq_keeps s (case x of Some v \<Rightarrow> Got v | None \<Rightarrow> Quiet) s'"
proof (cases "mq_entry (mq s) = 0")
  case True
  have t: "rt_current_thread (mq_kern s) = Some t"
    using assms(2) by (simp add: runs_def)
  show ?thesis
  proof (cases "time = 0")
    assume "time = 0"
    then have "x = None" "s' = s\<lparr>mq_kern := set_error t (- RT_ETIMEOUT) (mq_kern s)\<rparr>"
      using assms(4) True t by (auto simp: mq_recv_loop_def)
    then show ?thesis
      using assms(1) error_wf by (auto simp: mq_keeps_def mq_sys_ok_def)
  next
    assume "time \<noteq> 0"
    then obtain k where "wait_on_list (mq_recv_list (mq s)) t (mq_flag (mq s)) time (set_error t RT_EOK (mq_kern s)) = Some (r, k)"
      "s' = s\<lparr>mq_kern := k\<rparr>" "x = None"
      using assms(4) True t by (auto simp: mq_recv_loop_def split: Option.bind_splits)
    then show ?thesis
      using mq_wait_law [OF assms(1,2)] by simp
  qed
next
  case False
  have i: "mq_inv (mq s) (queued (mq s)) (unused (mq s))" and wf: "sched_wf (mq_kern s)"
    using assms(1) by (simp_all add: mq_sys_ok_def mq_ok_def)
  obtain msg qs where qs: "queued (mq s) = msg # qs"
    using False mq_head_queued(2) [OF i] by (cases "queued (mq s)") auto
  note i = i [unfolded qs]
  have msg: "msg_queue_head (mq s) = Some msg" "length (msg_data (mq s) msg) = unat (msg_size (mq s))"
    using i by (auto simp: mq_inv_def)
  define q' where "q' = mq_get msg (mq s)"
  obtain k where k: "wake_one (mq_send_list (mq s)) (mq_kern s) = Some k" "x = Some (msg_data (mq s) msg)" "s' = s\<lparr>mq_kern := k, mq := q'\<rparr>"
    using assms(3,4) False msg
    by (auto simp: mq_recv_loop_def Let_def q'_def mq_get_def take_head_def word_gt_0 min_def split: Option.bind_splits)
  have "sched_wf k"
    by (rule wake_one_wf [OF wf k(1)])
  then show ?thesis
    using mq_get_law [OF i] mq_inv_unique(3,4) [OF mq_get_law(1) [OF i]] mq_inv_unique(4) [OF i] k
    by (auto simp: mq_keeps_def mq_sys_ok_def q'_def)
qed

lemma mq_step_law:
  assumes "mq_step s l s'" "mq_sys_ok s"
  shows "mq_keeps s l s'"
  using assms(1)
proof (cases rule: mq_step.cases)
  case (mq_send t buf time r)
  then have "r \<noteq> Done RT_EOK \<and> s' = s \<or> length buf \<le> unat (msg_size (mq s)) \<and> mq_send_loop buf time s = Some (r, s')"
    by (auto simp: rt_mq_send_wait_def split: if_splits)
  then show ?thesis
    using assms(2) mq_send_loop_law [OF assms(2) mq_send(2), of buf time r s'] mq_send(1) by (auto simp: mq_keeps_def)
next
  case (mq_send_goes_on t buf time start r)
  then have "r \<noteq> Done RT_EOK \<and> s' = s \<or> (\<exists>time'. mq_send_loop buf time' s = Some (r, s'))"
    by (auto simp: mq_send_resumed_def split: if_splits)
  then show ?thesis
    using assms(2) mq_send_loop_law [OF assms(2) mq_send_goes_on(2,3), of _ r s'] mq_send_goes_on(1) by (auto simp: mq_keeps_def)
next
  case (mq_recv t sz time r x)
  then have "x = None \<and> s' = s \<or> mq_recv_loop sz time s = Some (r, x, s')"
    by (auto simp: rt_mq_recv_def split: if_splits)
  then show ?thesis
    using assms(2) mq_recv_loop_law [OF assms(2) mq_recv(2,3), of time r x s'] mq_recv(1) by (auto simp: mq_keeps_def)
next
  case (mq_recv_goes_on t sz time start r x)
  then have "x = None \<and> s' = s \<or> (\<exists>time'. mq_recv_loop sz time' s = Some (r, x, s'))"
    by (auto simp: mq_recv_resumed_def split: if_splits)
  then show ?thesis
    using assms(2) mq_recv_loop_law [OF assms(2) mq_recv_goes_on(2,3), of _ r x s'] mq_recv_goes_on(1) by (auto simp: mq_keeps_def)
next
  case (mq_other op k)
  then show ?thesis
    using assms(2) kernel_step_wf by (auto simp: mq_sys_ok_def mq_keeps_def)
qed

interpretation msgqueue: bounded_fifo mq_step "\<lambda>s. mq_contents (mq s)" mq_sys_ok carried "\<lambda>s. unat (max_msgs (mq s))"
proof unfold_locales
  show "length (mq_contents (mq s)) \<le> unat (max_msgs (mq s))" if "mq_sys_ok s" for s
    using that mq_inv_lengths [of "mq s" "queued (mq s)"] by (fastforce simp: mq_sys_ok_def mq_ok_def mq_contents_def)
qed (use mq_step_law in \<open>fastforce simp: mq_keeps_def\<close>)+

section \<open>Initialisation and reset\<close>

lemma link_free_law:
  "mq_inv q [] (rev [0..<temp]) \<Longrightarrow> temp \<le> unat (max_msgs q) \<Longrightarrow>
   mq_inv (link_free temp q) [] (rev [0..<unat (max_msgs q)]) \<and> max_msgs (link_free temp q) = max_msgs q"
proof (induction temp q rule: link_free.induct)
  case (1 temp q)
  show ?case
  proof (cases "temp < unat (max_msgs q)")
    case True
    have "mq_inv (q\<lparr>msg_next := (msg_next q)(temp := msg_queue_free q), msg_queue_free := Some temp\<rparr>) [] (rev [0..<temp + 1])"
      using 1(2) True by (auto simp: mq_inv_def)
    then show ?thesis
      using 1(1) [OF True] True by (subst (1 2) link_free.simps) simp
  next
    case False
    then show ?thesis
      using 1(2,3) by (subst (1 2) link_free.simps) simp
  qed
qed

text \<open>A fresh queue is well formed and empty, and every node of the pool is free.\<close>

theorem mq_init_ok:
  assumes "\<forall>n. length (pool n) = unat (msg_size (mq (rt_mq_init rl sl pool msz psz flg k)))"
  shows "mq_ok (mq (rt_mq_init rl sl pool msz psz flg k)) \<and> mq_contents (mq (rt_mq_init rl sl pool msz psz flg k)) = [] \<and>
    length (unused (mq (rt_mq_init rl sl pool msz psz flg k))) = unat (max_msgs (mq (rt_mq_init rl sl pool msz psz flg k)))"
proof -
  define q where "q = mq (rt_mq_init rl sl pool msz psz flg k)"
  obtain q0 where q0: "q = link_free 0 q0" "msg_queue_head q0 = None" "msg_queue_free q0 = None" "msg_queue_tail q0 = None" "mq_entry q0 = 0" "msg_data q0 = pool"
    by (simp add: q_def rt_mq_init_def Let_def)
  have "msg_size (link_free temp q) = msg_size q" for temp q
    by (induction temp q rule: link_free.induct) (subst link_free.simps, simp)
  then have "mq_inv q0 [] (rev [0..<0])"
    using q0 assms by (simp add: mq_inv_def q_def [symmetric])
  then have "mq_inv q [] (rev [0..<unat (max_msgs q0)])" "max_msgs q = max_msgs q0"
    using link_free_law [of q0 0] q0(1) by simp_all
  from mq_inv_unique [OF this(1)] this(2) show ?thesis
    by (simp add: q_def)
qed

lemma drain_entry: "drain_loop k (q\<lparr>mq_entry := e\<rparr>) = map_option (\<lambda>q. q\<lparr>mq_entry := e\<rparr>) (drain_loop k q)"
proof (induction k arbitrary: q)
  case (Suc k)
  have "put_free x (take_head x (q\<lparr>mq_entry := e\<rparr>)) = (put_free x (take_head x q))\<lparr>mq_entry := e\<rparr>" for x
    by (simp add: put_free_def take_head_def)
  then show ?case
    using Suc by (simp split: option.splits)
qed simp

lemma drain_law:
  "mq_inv q qs fs \<Longrightarrow> length qs < fuel \<Longrightarrow>
   \<exists>q'. drain_loop fuel q = Some q' \<and> mq_inv (q'\<lparr>mq_entry := 0\<rparr>) [] (rev qs @ fs) \<and> max_msgs q' = max_msgs q"
proof (induction fuel arbitrary: q qs fs)
  case (Suc fuel)
  show ?case
  proof (cases qs)
    case Nil
    then show ?thesis
      using Suc.prems(1) by (auto simp: mq_inv_def)
  next
    case (Cons msg ms)
    define q1 where "q1 = put_free msg (take_head msg q)"
    have head: "msg_queue_head q = Some msg"
      using Suc.prems(1) Cons by (simp add: mq_inv_def)
    have "mq_get msg q = q1\<lparr>mq_entry := mq_entry q - 1\<rparr>"
      by (simp add: mq_get_def q1_def put_free_def take_head_def Let_def)
    then have g: "mq_inv (q1\<lparr>mq_entry := mq_entry q - 1\<rparr>) ms (msg # fs)"
      using mq_get_law(1) [of q msg ms fs] Suc.prems(1) Cons by simp
    obtain q' where "drain_loop fuel q1 = Some q'" "mq_inv (q'\<lparr>mq_entry := 0\<rparr>) [] (rev ms @ msg # fs)" "max_msgs q' = max_msgs q1"
      using Suc.IH [OF g] Suc.prems(2) Cons by (auto simp: drain_entry)
    then show ?thesis
      using head Cons by (simp add: q1_def put_free_def take_head_def)
  qed
qed simp

text \<open>C18: whatever threads send and receive, wait and are woken or time out, and whatever else the kernel does, a
  message queue is a bounded queue: receivers that take whole messages get what was queued and sent,
  in order and without loss or repetition, each message at the start of what its receiver gets;
  the two linked lists of nodes stay disjoint and the kernel consistent.\<close>

theorem msgqueue_fifo:
  assumes "traffic_run mq_step s ls s'" "mq_ok (mq s)" "sched_wf (mq_kern s)"
  shows "(\<exists>ws. list_all2 carried (sent ls) ws \<and> mq_contents (mq s) @ ws = got ls @ mq_contents (mq s')) \<and>
    mq_ok (mq s') \<and> sched_wf (mq_kern s') \<and> length (mq_contents (mq s')) \<le> unat (max_msgs (mq s))"
proof -
  have "mq_sys_ok s"
    using assms(2,3) by (simp add: mq_sys_ok_def)
  from msgqueue.fifo [OF assms(1) this] msgqueue.cap_law [of s'] show ?thesis
    by (auto simp: mq_sys_ok_def)
qed

text \<open>An urgent message goes in front of all others.\<close>

theorem urgent_first:
  assumes "mq_ok (mq s)" "sched_wf (mq_kern s)" "rt_mq_urgent buf s = Some (Done RT_EOK, s')"
  shows "mq_ok (mq s') \<and> sched_wf (mq_kern s') \<and> (\<exists>w. carried buf w \<and> mq_contents (mq s') = w # mq_contents (mq s))"
proof -
  obtain msg where msg: "msg_queue_free (mq s) = Some msg" "length buf \<le> unat (msg_size (mq s))"
    "count_and_wake (s\<lparr>mq := link_head msg (fill_msg msg buf (take_free msg (mq s)))\<rparr>) = Some (Done RT_EOK, s')"
    using assms(3) by (auto simp: rt_mq_urgent_def split: if_splits option.splits)
  define q' where "q' = link_head msg (fill_msg msg buf (take_free msg (mq s)))"
  have "mq_put True msg buf (mq s) = q'\<lparr>mq_entry := mq_entry q' + 1\<rparr>"
    by (simp add: mq_put_def q'_def Let_def)
  moreover have "mq_entry q' = mq_entry (mq s)"
    by (simp add: q'_def link_head_def fill_msg_def take_free_def)
  moreover have "mq_sys_ok s"
    using assms(1,2) by (simp add: mq_sys_ok_def)
  ultimately show ?thesis
    using count_and_wake_put [of s msg buf True q' "Done RT_EOK" s'] msg by (simp add: q'_def mq_sys_ok_def)
qed

text \<open>A reset gives every node back and leaves the queue empty; the loop over the messages ends.\<close>

theorem reset_empties:
  assumes "mq_ok (mq s)" "sched_wf (mq_kern s)" "rt_mq_control True s = Some (r, s')"
  shows "r = RT_EOK \<and> mq_ok (mq s') \<and> sched_wf (mq_kern s') \<and> mq_contents (mq s') = []"
    and "\<exists>q. drain_loop (unat (max_msgs (mq s)) + 1) (mq s) = Some q"
proof -
  have i: "mq_inv (mq s) (queued (mq s)) (unused (mq s))"
    using assms(1) by (simp add: mq_ok_def)
  obtain q' where q': "drain_loop (unat (max_msgs (mq s)) + 1) (mq s) = Some q'" "mq_inv (q'\<lparr>mq_entry := 0\<rparr>) [] (rev (queued (mq s)) @ unused (mq s))"
    using drain_law [OF i, of "unat (max_msgs (mq s)) + 1"] mq_inv_lengths [OF i] by auto
  then show "\<exists>q. drain_loop (unat (max_msgs (mq s)) + 1) (mq s) = Some q"
    by blast
  obtain k1 k2 k3 where k: "rt_ipc_list_resume_all (mq_recv_list (mq s)) (mq_kern s) = Some k1" "rt_ipc_list_resume_all (mq_send_list (mq s)) k1 = Some k2"
    "rt_schedule k2 = Some k3" "r = RT_EOK" "mq_kern s' = k3" "mq s' = q'\<lparr>mq_entry := 0\<rparr>"
    using assms(3) q'(1) by (auto simp: rt_mq_control_def split: Option.bind_splits)
  have "sched_wf k3"
    using schedule_law [OF resume_all_sched_wf [OF resume_all_sched_wf [OF assms(2) k(1)] k(2)] k(3)] by blast
  then show "r = RT_EOK \<and> mq_ok (mq s') \<and> sched_wf (mq_kern s') \<and> mq_contents (mq s') = []"
    using mq_inv_unique(3,4) [OF q'(2)] k(4-6) by simp
qed

definition demo_mq :: mq_sys where
  "demo_mq = rt_mq_init 20 21 (\<lambda>_. [0, 0, 0, 0]) 3 16 RT_IPC_FLAG_FIFO demo_sched"

lemma demo_mq_eval:
  "demo_mq = \<lparr>mq_kern = demo_sched, mq = \<lparr>msg_size = 4, max_msgs = 2, mq_entry = 0, msg_queue_head = None, msg_queue_tail = None,
     msg_queue_free = Some 1, msg_next = (\<lambda>_. None)(1 := Some 0), msg_data = (\<lambda>_. [0, 0, 0, 0]), mq_flag = RT_IPC_FLAG_FIFO,
     mq_recv_list = 20, mq_send_list = 21\<rparr>\<rparr>"
proof -
  have "(3 + 3 :: u32) AND NOT 3 = 4"
    by simp
  then have "ucast ((3 + 3 :: u32) AND NOT 3) = (4 :: u16)" "ucast ((16 :: u32) div (ucast (4 :: u16) + 4)) = (2 :: u16)"
    by simp_all
  moreover have "(waiting demo_sched)(20 := [], 21 := []) = waiting demo_sched"
    by (auto simp: demo_sched_def)
  ultimately show ?thesis
    unfolding demo_mq_def rt_mq_init_def Let_def by (simp add: link_free.simps fun_eq_iff)
qed

lemma demo_mq_ok: "mq_ok (mq demo_mq)" "sched_wf (mq_kern demo_mq)" "runs (mq_kern demo_mq) 1" "mq_contents (mq demo_mq) = []"
proof -
  have "mq_inv (mq demo_mq) [] [1, 0]"
    by (auto simp: mq_inv_def demo_mq_eval)
  from mq_inv_unique(3,4) [OF this] show "mq_ok (mq demo_mq)" "mq_contents (mq demo_mq) = []"
    by simp_all
  show "sched_wf (mq_kern demo_mq)" "runs (mq_kern demo_mq) 1"
    using demo_sched_wf by (simp_all add: demo_mq_eval runs_def demo_sched_def demo_thread_def)
qed

theorem msgqueue_fifo_witness:
  "\<exists>s'. traffic_run mq_step demo_mq [Sent [1, 2, 3], Got [1, 2, 3, 0]] s' \<and> mq_contents (mq s') = []"
proof -
  have w: "waiting demo_sched i = []" for i
    by (simp add: demo_sched_def)
  obtain s1 where s1: "rt_mq_send_wait [1, 2, 3] 0 demo_mq = Some (Done RT_EOK, s1)" "mq_kern s1 = demo_sched" "msg_size (mq s1) = 4"
    "mq_entry (mq s1) = 1" "msg_queue_head (mq s1) = Some 1" "msg_data (mq s1) 1 = [1, 2, 3, 0]" "mq_send_list (mq s1) = 21"
    by (simp add: rt_mq_send_wait_def mq_send_loop_def demo_mq_eval take_free_def fill_msg_def link_tail_def count_and_wake_def wake_one_def
        blit_def w word_less_nat_alt)
  obtain s2 where s2: "rt_mq_recv 4 0 s1 = Some (Done RT_EOK, Some [1, 2, 3, 0], s2)"
    using s1(2-7) by (simp add: rt_mq_recv_def mq_recv_loop_def wake_one_def w Let_def take_head_def)
  have r: "runs (mq_kern s1) 1"
    using demo_mq_ok(3) by (simp add: s1(2) demo_mq_eval)
  have "traffic_run mq_step demo_mq [Sent [1, 2, 3], Got [1, 2, 3, 0]] s2"
    using mq_send [OF demo_mq_ok(3) s1(1)] mq_recv [OF r _ s2] s1(3) by (auto intro!: run_Cons run_Nil)
  from msgqueue_fifo [OF this demo_mq_ok(1,2)] this demo_mq_ok(4) show ?thesis
    by (auto simp: list_all2_Cons1)
qed

end
