(* ===== verification/Ipc_Create.thy ===== *)
theory Ipc_Create
  imports Event Msgqueue
begin

text \<open>
  The functions of \<^verbatim>\<open>src/rt-thread/src/ipc.c\<close> that create objects on the heap and delete them.  What the object
  allocator and the heap give is an argument: the address of the object with its waiting lists, and the memory
  of the pool, \<open>None\<close> when there is none.
\<close>

section \<open>Semaphores, mutexes and events\<close>

definition rt_sem_create :: "nat option \<Rightarrow> u32 \<Rightarrow> ipc_flag \<Rightarrow> ipc_sys \<Rightarrow> (nat option \<times> ipc_sys) option" where
  "rt_sem_create obj v flg s =
     (if \<not> v < 0x10000 then None
      else case obj of None \<Rightarrow> Some (None, s)
           | Some i \<Rightarrow> Some (Some i, s\<lparr>kern := (kern s)\<lparr>waiting := (waiting (kern s))(i := [])\<rparr>,
                                     sems := (sems s)(i \<mapsto> \<lparr>sem_value = ucast v, sem_flag = flg\<rparr>)\<rparr>))"

definition rt_sem_delete :: "nat \<Rightarrow> ipc_sys \<Rightarrow> (rt_err_t \<times> ipc_sys) option" where
  "rt_sem_delete i s =
     (case sems s i of None \<Rightarrow> None
      | Some sm \<Rightarrow> do { k \<leftarrow> rt_ipc_list_resume_all i (kern s); Some (RT_EOK, s\<lparr>kern := k, sems := (sems s)(i := None)\<rparr>) })"

definition rt_mutex_delete :: "nat \<Rightarrow> ipc_sys \<Rightarrow> (rt_err_t \<times> ipc_sys) option" where
  "rt_mutex_delete i s =
     (case mutexes s i of None \<Rightarrow> None
      | Some m \<Rightarrow> do { k \<leftarrow> rt_ipc_list_resume_all i (kern s); Some (RT_EOK, s\<lparr>kern := k, mutexes := (mutexes s)(i := None)\<rparr>) })"

definition rt_event_create :: "nat option \<Rightarrow> ipc_flag \<Rightarrow> rt_event \<Rightarrow> rt_event option \<times> sched" where
  "rt_event_create obj flg s =
     (case obj of None \<Rightarrow> (None, ev_kern s)
      | Some l \<Rightarrow> let s1 = s\<lparr>ev_kern := (ev_kern s)\<lparr>waiting := (waiting (ev_kern s))(l := [])\<rparr>, ev_flag := flg, ev_list := l, ev_set := 0\<rparr>
                  in (Some s1, ev_kern s1))"

definition rt_event_delete :: "rt_event \<Rightarrow> (rt_err_t \<times> sched) option" where
  "rt_event_delete s = do { k \<leftarrow> rt_ipc_list_resume_all (ev_list s) (ev_kern s); Some (RT_EOK, k) }"

section \<open>Mailboxes and message queues\<close>

text \<open>The two numbers of \<open>obj\<close> are the lists of receivers and senders, part of the object; \<open>mem\<close> is what the heap gives for a
  number of bytes.  The second result says whether the object was deleted again.\<close>

definition rt_mb_create :: "(nat \<times> nat) option \<Rightarrow> (u32 \<Rightarrow> u32 list option) \<Rightarrow> u32 \<Rightarrow> ipc_flag \<Rightarrow> sched \<Rightarrow> mb_sys option \<times> bool \<times> sched" where
  "rt_mb_create obj mem sz flg k =
     (case obj of None \<Rightarrow> (None, False, k)
      | Some (rl, sl) \<Rightarrow>
          let k1 = k\<lparr>waiting := (waiting k)(rl := [])\<rparr>; n = (ucast sz :: u16) in
          (case mem (ucast n * 4) of None \<Rightarrow> (None, True, k1)
           | Some pool \<Rightarrow>
               let k2 = k1\<lparr>waiting := (waiting k1)(sl := [])\<rparr> in
               (Some \<lparr>mb_kern = k2,
                 mbox = \<lparr>msg_pool = pool, mb_size = n, mb_entry = 0, in_offset = 0, out_offset = 0, mb_flag = flg, recv_list = rl, send_list = sl\<rparr>\<rparr>,
                False, k2)))"

definition rt_mb_delete :: "mb_sys \<Rightarrow> (rt_err_t \<times> sched) option" where
  "rt_mb_delete s =
     do { k1 \<leftarrow> rt_ipc_list_resume_all (recv_list (mbox s)) (mb_kern s);
          k2 \<leftarrow> rt_ipc_list_resume_all (send_list (mbox s)) k1;
          Some (RT_EOK, k2) }"

text \<open>The pool is given as the data of its nodes.\<close>

definition rt_mq_create :: "(nat \<times> nat) option \<Rightarrow> (u32 \<Rightarrow> (nat \<Rightarrow> u8 list) option) \<Rightarrow> u32 \<Rightarrow> u32 \<Rightarrow> ipc_flag \<Rightarrow> sched \<Rightarrow> mq_sys option \<times> bool \<times> sched" where
  "rt_mq_create obj mem msz n flg k =
     (case obj of None \<Rightarrow> (None, False, k)
      | Some (rl, sl) \<Rightarrow>
          let k1 = k\<lparr>waiting := (waiting k)(rl := [])\<rparr>; sz = ucast ((msz + 3) AND NOT 3) :: u16; m = ucast n :: u16 in
          (case mem ((ucast sz + 4) * ucast m) of None \<Rightarrow> (None, True, k1)
           | Some pool \<Rightarrow>
               let k2 = k1\<lparr>waiting := (waiting k1)(sl := [])\<rparr> in
               (Some \<lparr>mq_kern = k2,
                 mq = link_free 0 \<lparr>msg_size = sz, max_msgs = m, mq_entry = 0, msg_queue_head = None, msg_queue_tail = None,
                        msg_queue_free = None, msg_next = (\<lambda>_. None), msg_data = pool, mq_flag = flg, mq_recv_list = rl, mq_send_list = sl\<rparr>\<rparr>,
                False, k2)))"

definition rt_mq_delete :: "mq_sys \<Rightarrow> (rt_err_t \<times> sched) option" where
  "rt_mq_delete s =
     do { k1 \<leftarrow> rt_ipc_list_resume_all (mq_recv_list (mq s)) (mq_kern s);
          k2 \<leftarrow> rt_ipc_list_resume_all (mq_send_list (mq s)) k1;
          Some (RT_EOK, k2) }"

section \<open>Created objects are sound, deleted ones let everybody go\<close>

lemma fresh_list_wf: "sched_wf k \<Longrightarrow> waiting k l = [] \<Longrightarrow> k\<lparr>waiting := (waiting k)(l := [])\<rparr> = k"
  by (simp add: fun_upd_idem)

theorem mb_create_ok:
  assumes "rt_mb_create (Some (rl, sl)) mem sz flg k = (Some s, b, k')" "sched_wf k" "waiting k rl = []" "waiting k sl = []"
    and "\<And>n pool. mem n = Some pool \<Longrightarrow> unat n \<le> 4 * length pool" "(ucast sz :: u16) \<noteq> 0"
  shows "mb_sys_ok s \<and> mb_contents (mbox s) = [] \<and> \<not> b"
proof -
  define n where "n = (ucast sz :: u16)"
  obtain pool where pool: "mem (ucast n * 4) = Some pool"
    and s: "s = \<lparr>mb_kern = k, mbox = \<lparr>msg_pool = pool, mb_size = n, mb_entry = 0, in_offset = 0, out_offset = 0, mb_flag = flg, recv_list = rl, send_list = sl\<rparr>\<rparr>" "\<not> b"
    using assms(1) fresh_list_wf [OF assms(2,3)] fresh_list_wf [OF assms(2,4)] by (auto simp: rt_mb_create_def n_def [symmetric] Let_def split: option.splits)
  have "unat n < 65536"
    using unsigned_less [of n, where ?'a = nat] by simp
  then have "unat (ucast n * 4 :: u32) = unat n * 4"
    by (simp add: unat_word_ariths unsigned_ucast_eq take_bit_nat_eq_self)
  then have "unat n \<le> length pool"
    using assms(5) [OF pool] by simp
  moreover have "0 < n"
    using assms(6) by (simp add: n_def [symmetric] word_neq_0_conv)
  ultimately show ?thesis
    using assms(2) s(2) by (simp add: s(1) mb_sys_ok_def mb_ok_def mb_contents_def)
qed

theorem mq_create_ok:
  assumes "rt_mq_create (Some (rl, sl)) mem msz n flg k = (Some s, b, k')" "sched_wf k" "waiting k rl = []" "waiting k sl = []"
    and "\<And>m pool i. mem m = Some pool \<Longrightarrow> length (pool i) = unat (ucast ((msz + 3) AND NOT 3) :: u16)"
  shows "mq_sys_ok s \<and> mq_contents (mq s) = [] \<and> length (unused (mq s)) = unat (ucast n :: u16) \<and> \<not> b"
proof -
  obtain pool m q0 where pool: "mem m = Some pool" and s: "mq_kern s = k" "mq s = link_free 0 q0" "\<not> b" and q0: "max_msgs q0 = ucast n"
    "msg_size q0 = ucast ((msz + 3) AND NOT 3)" "mq_entry q0 = 0" "msg_queue_head q0 = None" "msg_queue_tail q0 = None" "msg_queue_free q0 = None" "msg_data q0 = pool"
    using assms(1) fresh_list_wf [OF assms(2,3)] fresh_list_wf [OF assms(2,4)] by (auto simp: rt_mq_create_def Let_def split: option.splits)
  have "mq_inv q0 [] (rev [0..<0])"
    using q0 assms(5) [OF pool] by (simp add: mq_inv_def)
  then have "mq_inv (mq s) [] (rev [0..<unat (max_msgs q0)])"
    using link_free_law [of q0 0] s(2) by simp
  from mq_inv_unique [OF this] show ?thesis
    using assms(2) s(1,3) q0(1) by (simp add: mq_sys_ok_def)
qed

text \<open>When an object is deleted, nobody is left waiting on a list in memory that is gone.\<close>

lemma resume_two:
  assumes "sched_wf k" "rt_ipc_list_resume_all i k = Some k1" "rt_ipc_list_resume_all j k1 = Some k2"
  shows "sched_wf k2 \<and> waiting k2 i = [] \<and> waiting k2 j = []"
proof -
  note l1 = resume_all_keeps [OF assms(1,2) [unfolded rt_ipc_list_resume_all_def]]
  note l2 = resume_all_keeps [OF conjunct1 [OF l1] assms(3) [unfolded rt_ipc_list_resume_all_def]]
  have "set (waiting k2 i) \<subseteq> set (waiting k1 i)"
    using l2 by blast
  then show ?thesis
    using l1 l2 by simp
qed

theorem delete_leaves_nobody_waiting:
  assumes "sched_wf (mb_kern s)" "sched_wf (mq_kern q)"
  shows "rt_mb_delete s = Some (r, k) \<Longrightarrow> r = RT_EOK \<and> sched_wf k \<and> waiting k (recv_list (mbox s)) = [] \<and> waiting k (send_list (mbox s)) = []"
    and "rt_mq_delete q = Some (r, k) \<Longrightarrow> r = RT_EOK \<and> sched_wf k \<and> waiting k (mq_recv_list (mq q)) = [] \<and> waiting k (mq_send_list (mq q)) = []"
  using resume_two [OF assms(1)] resume_two [OF assms(2)]
  by (auto simp: rt_mb_delete_def rt_mq_delete_def split: Option.bind_splits)

text \<open>The threads that waited for a deleted semaphore, mutex or event are ready to run and get an error.\<close>

theorem delete_releases_waiters:
  assumes "sched_wf k" "\<And>t. t \<in> set (waiting k i) \<Longrightarrow> timers (tmr k) t \<noteq> None"
  shows "kern s = k \<Longrightarrow> sems s i \<noteq> None \<Longrightarrow>
      \<exists>s'. rt_sem_delete i s = Some (RT_EOK, s') \<and> sems s' i = None \<and> waiting (kern s') i = [] \<and> (\<forall>t \<in> set (waiting k i). released (kern s') t)"
    and "kern s = k \<Longrightarrow> mutexes s i \<noteq> None \<Longrightarrow>
      \<exists>s'. rt_mutex_delete i s = Some (RT_EOK, s') \<and> mutexes s' i = None \<and> waiting (kern s') i = [] \<and> (\<forall>t \<in> set (waiting k i). released (kern s') t)"
    and "ev_kern e = k \<Longrightarrow> ev_list e = i \<Longrightarrow>
      \<exists>k'. rt_event_delete e = Some (RT_EOK, k') \<and> waiting k' i = [] \<and> (\<forall>t \<in> set (waiting k i). released k' t)"
proof -
  obtain k' where k': "rt_ipc_list_resume_all i k = Some k'" "waiting k' i = []" "\<forall>t \<in> set (waiting k i). released k' t"
    using resume_all_law [OF assms, of i] unfolding rt_ipc_list_resume_all_def by fastforce
  show "\<exists>s'. rt_sem_delete i s = Some (RT_EOK, s') \<and> sems s' i = None \<and> waiting (kern s') i = [] \<and> (\<forall>t \<in> set (waiting k i). released (kern s') t)"
    if "kern s = k" "sems s i \<noteq> None"
    using that k' by (auto simp: rt_sem_delete_def)
  show "\<exists>s'. rt_mutex_delete i s = Some (RT_EOK, s') \<and> mutexes s' i = None \<and> waiting (kern s') i = [] \<and> (\<forall>t \<in> set (waiting k i). released (kern s') t)"
    if "kern s = k" "mutexes s i \<noteq> None"
    using that k' by (auto simp: rt_mutex_delete_def)
  show "\<exists>k'. rt_event_delete e = Some (RT_EOK, k') \<and> waiting k' i = [] \<and> (\<forall>t \<in> set (waiting k i). released k' t)"
    if "ev_kern e = k" "ev_list e = i"
    using that k' by (auto simp: rt_event_delete_def)
qed

end
