(* ===== verification/Mempool.thy ===== *)
theory Mempool
  imports Mailbox
begin

text \<open>
  \<^verbatim>\<open>rt-thread/src/mempool.c\<close>: pools of blocks of one size.  Every block starts with a pointer: the next free
  block while it is free, the pool it belongs to while a client has it.  These pointers are the map \<open>cells\<close>
  from addresses; the bytes after them belong to the clients.
\<close>

unbundle bit_operations_syntax

record rt_mempool =
  start_address :: nat
  mp_size :: u32
  block_size :: u32
  block_list :: nat
  block_total_count :: u32
  block_free_count :: u32
  mp_list :: nat

record mp_sys =
  mp_kern :: sched
  pools :: "nat \<Rightarrow> rt_mempool option"
  cells :: "nat \<Rightarrow> nat"

section \<open>Operations\<close>

definition block_at :: "nat \<Rightarrow> u32 \<Rightarrow> nat \<Rightarrow> nat" where
  "block_at base bsz i = (base + i * unat (bsz + 4)) mod 2 ^ 32"

text \<open>The loop that links every block to the one after it, and the null pointer in the last; \<open>offset - 1\<close> is
  computed in 32 bits.\<close>

definition link_blocks :: "nat \<Rightarrow> u32 \<Rightarrow> u32 \<Rightarrow> (nat \<Rightarrow> nat) \<Rightarrow> nat \<Rightarrow> nat" where
  "link_blocks base bsz n c =
     (fold (\<lambda>offset c. c(block_at base bsz offset := block_at base bsz (offset + 1))) [0..<unat n] c)
       (block_at base bsz (unat (n - 1)) := 0)"

definition add_pool :: "nat \<Rightarrow> rt_mempool \<Rightarrow> mp_sys \<Rightarrow> mp_sys" where
  "add_pool p m s =
     s\<lparr>mp_kern := (mp_kern s)\<lparr>waiting := (waiting (mp_kern s))(mp_list m := [])\<rparr>, pools := (pools s)(p \<mapsto> m),
       cells := link_blocks (start_address m) (block_size m) (block_total_count m) (cells s)\<rparr>"

definition rt_mp_init :: "nat \<Rightarrow> nat \<Rightarrow> u32 \<Rightarrow> u32 \<Rightarrow> nat \<Rightarrow> mp_sys \<Rightarrow> mp_sys option" where
  "rt_mp_init p start sz bsz l s =
     (if start = 0 \<or> sz = 0 \<or> bsz = 0 then None
      else let sz' = sz AND NOT 3; bsz' = (bsz + 3) AND NOT 3; n = sz' div (bsz' + 4)
           in Some (add_pool p \<lparr>start_address = start, mp_size = sz', block_size = bsz', block_list = start,
                      block_total_count = n, block_free_count = n, mp_list = l\<rparr> s))"

definition rt_mp_detach :: "nat \<Rightarrow> mp_sys \<Rightarrow> mp_sys option" where
  "rt_mp_detach p s = do { m \<leftarrow> pools s p;
                           k \<leftarrow> rt_ipc_list_resume_all (mp_list m) (mp_kern s);
                           Some (s\<lparr>mp_kern := k\<rparr>) }"

text \<open>\<open>obj\<close> is what the object allocator gives and \<open>mem\<close> what the heap gives for a number of bytes; the result is
  the pool or a null pointer.\<close>

definition rt_mp_create :: "nat option \<Rightarrow> (u32 \<Rightarrow> nat option) \<Rightarrow> u32 \<Rightarrow> u32 \<Rightarrow> nat \<Rightarrow> mp_sys \<Rightarrow> (nat \<times> mp_sys) option" where
  "rt_mp_create obj mem n bsz l s =
     (if n = 0 \<or> bsz = 0 then None
      else case obj of None \<Rightarrow> Some (0, s)
           | Some p \<Rightarrow>
               let bsz' = (bsz + 3) AND NOT 3; sz = (bsz' + 4) * n
               in case mem sz of None \<Rightarrow> Some (0, s)
                  | Some start \<Rightarrow> Some (p, add_pool p \<lparr>start_address = start, mp_size = sz, block_size = bsz', block_list = start,
                                             block_total_count = n, block_free_count = n, mp_list = l\<rparr> s))"

text \<open>Also the address that is given back to the heap.\<close>

definition rt_mp_delete :: "nat \<Rightarrow> mp_sys \<Rightarrow> (nat \<times> mp_sys) option" where
  "rt_mp_delete p s = do { m \<leftarrow> pools s p;
                           k \<leftarrow> rt_ipc_list_resume_all (mp_list m) (mp_kern s);
                           Some (start_address m, s\<lparr>mp_kern := k, pools := (pools s)(p := None)\<rparr>) }"

text \<open>A block or a null pointer, or the caller sleeps with the time it still waits and the tick it fell asleep.\<close>

datatype mp_result = Gives nat | Sleeps int u32

definition mp_wait :: "rt_mempool \<Rightarrow> nat \<Rightarrow> int \<Rightarrow> sched \<Rightarrow> (mp_result \<times> sched) option" where
  "mp_wait m t time k =
     do { (r, k1) \<leftarrow> rt_thread_suspend t (set_error t RT_EOK k);
          let k2 = k1\<lparr>waiting := (waiting k1)(mp_list m := t # waiting k1 (mp_list m))\<rparr>;
          k3 \<leftarrow> (if time > 0 then thread_timer_start t (of_int time) k2 else Some k2);
          k4 \<leftarrow> rt_schedule k3;
          Some (Sleeps time (if time > 0 then tick_now (tmr k2) else 0), k4) }"

definition mp_alloc_loop :: "nat \<Rightarrow> int \<Rightarrow> mp_sys \<Rightarrow> (mp_result \<times> mp_sys) option" where
  "mp_alloc_loop p time s =
     do { m \<leftarrow> pools s p;
          if block_free_count m = 0
          then do { t \<leftarrow> rt_current_thread (mp_kern s);
                    if time = 0 then Some (Gives 0, s\<lparr>mp_kern := set_error t (- RT_ETIMEOUT) (mp_kern s)\<rparr>)
                    else do { (r, k) \<leftarrow> mp_wait m t time (mp_kern s);
                              Some (r, s\<lparr>mp_kern := k\<rparr>) } }
          else let b = block_list m
               in if b = 0 then None
                  else Some (Gives (b + 4), s\<lparr>pools := (pools s)(p \<mapsto> m\<lparr>block_list := cells s b, block_free_count := block_free_count m - 1\<rparr>),
                                              cells := (cells s)(b := p)\<rparr>) }"

definition rt_mp_alloc :: "nat \<Rightarrow> int \<Rightarrow> mp_sys \<Rightarrow> (mp_result \<times> mp_sys) option" where
  "rt_mp_alloc = mp_alloc_loop"

definition mp_alloc_resumed :: "nat \<Rightarrow> nat \<Rightarrow> int \<Rightarrow> u32 \<Rightarrow> mp_sys \<Rightarrow> (mp_result \<times> mp_sys) option" where
  "mp_alloc_resumed t p time start s =
     (if error (threads (mp_kern s) t) \<noteq> RT_EOK then Some (Gives 0, s)
      else mp_alloc_loop p (time_left_after time start (tick_now (tmr (mp_kern s)))) s)"

definition rt_mp_free :: "nat \<Rightarrow> mp_sys \<Rightarrow> mp_sys option" where
  "rt_mp_free block s =
     (if block = 0 then Some s
      else let b = block - 4; p = cells s b
           in do { m \<leftarrow> pools s p;
                   let s1 = s\<lparr>pools := (pools s)(p \<mapsto> m\<lparr>block_list := b, block_free_count := block_free_count m + 1\<rparr>),
                              cells := (cells s)(b := block_list m)\<rparr>;
                   case waiting (mp_kern s) (mp_list m) of
                     [] \<Rightarrow> Some s1
                   | t # _ \<Rightarrow> do { (r, k) \<leftarrow> rt_thread_resume t (set_error t RT_EOK (mp_kern s));
                                   k' \<leftarrow> rt_schedule k;
                                   Some (s1\<lparr>mp_kern := k'\<rparr>) } })"

section \<open>The free lists\<close>

definition ptr :: "nat \<Rightarrow> nat option" where
  "ptr a = (if a = 0 then None else Some a)"

lemma ptr_simps [simp]: "ptr 0 = None" "a \<noteq> 0 \<Longrightarrow> ptr a = Some a" "ptr a = Some b \<longleftrightarrow> a = b \<and> b \<noteq> 0" "ptr a = None \<longleftrightarrow> a = 0"
  by (auto simp: ptr_def)

definition blocks :: "rt_mempool \<Rightarrow> nat list" where
  "blocks m = map (\<lambda>i. start_address m + i * unat (block_size m + 4)) [0..<unat (block_total_count m)]"

definition frees :: "(nat \<Rightarrow> nat) \<Rightarrow> rt_mempool \<Rightarrow> nat list" where
  "frees c m = follow (unat (block_total_count m)) (ptr \<circ> c) (ptr (block_list m))"

definition pool_end :: "rt_mempool \<Rightarrow> nat" where
  "pool_end m = start_address m + unat (block_total_count m) * unat (block_size m + 4)"

definition pool_inv :: "(nat \<Rightarrow> nat) \<Rightarrow> nat \<Rightarrow> rt_mempool \<Rightarrow> nat list \<Rightarrow> bool" where
  "pool_inv c p m fs \<longleftrightarrow>
     start_address m \<noteq> 0 \<and> pool_end m \<le> 2 ^ 32 \<and> unat (block_size m + 4) = unat (block_size m) + 4 \<and>
     chain (ptr \<circ> c) (ptr (block_list m)) fs \<and> distinct fs \<and> set fs \<subseteq> set (blocks m) \<and>
     unat (block_free_count m) = length fs \<and> (\<forall>b \<in> set (blocks m) - set fs. c b = p)"

definition mp_ok :: "mp_sys \<Rightarrow> bool" where
  "mp_ok s \<longleftrightarrow> sched_wf (mp_kern s) \<and> (\<forall>p m. pools s p = Some m \<longrightarrow> pool_inv (cells s) p m (frees (cells s) m)) \<and>
     (\<forall>p m p' m'. pools s p = Some m \<longrightarrow> pools s p' = Some m' \<longrightarrow> p \<noteq> p' \<longrightarrow>
        {start_address m..<pool_end m} \<inter> {start_address m'..<pool_end m'} = {})"

text \<open>The blocks of a pool that clients have, and the addresses the clients know them by.\<close>

definition out :: "(nat \<Rightarrow> nat) \<Rightarrow> rt_mempool \<Rightarrow> nat set" where
  "out c m = set (blocks m) - set (frees c m)"

definition held_of :: "mp_sys \<Rightarrow> nat \<Rightarrow> nat set" where
  "held_of s p = (case pools s p of None \<Rightarrow> {} | Some m \<Rightarrow> (\<lambda>b. b + 4) ` out (cells s) m)"

definition held :: "mp_sys \<Rightarrow> nat set" where
  "held s = (\<Union>p. held_of s p)"

lemma length_blocks [simp]: "length (blocks m) = unat (block_total_count m)"
  by (simp add: blocks_def)

lemma distinct_blocks: "unat (block_size m + 4) \<noteq> 0 \<Longrightarrow> distinct (blocks m)"
  by (auto simp: blocks_def distinct_map inj_on_def)

lemma blocks_in: "b \<in> set (blocks m) \<Longrightarrow> start_address m \<le> b \<and> b + unat (block_size m + 4) \<le> pool_end m"
proof -
  assume "b \<in> set (blocks m)"
  then obtain i where i: "b = start_address m + i * unat (block_size m + 4)" "i < unat (block_total_count m)"
    unfolding blocks_def by fastforce
  then have "Suc i * unat (block_size m + 4) \<le> unat (block_total_count m) * unat (block_size m + 4)"
    by (intro mult_right_mono) auto
  then show ?thesis
    using i(1) by (simp add: pool_end_def)
qed

lemma blocks_apart:
  assumes "b \<in> set (blocks m)" "b' \<in> set (blocks m)" "b < b'"
  shows "b + unat (block_size m + 4) \<le> b'"
proof -
  obtain i j where ij: "b = start_address m + i * unat (block_size m + 4)" "b' = start_address m + j * unat (block_size m + 4)"
    using assms(1,2) by (auto simp: blocks_def)
  then have "Suc i \<le> j"
    using assms(3) by auto
  then have "Suc i * unat (block_size m + 4) \<le> j * unat (block_size m + 4)"
    by (rule mult_right_mono) simp
  then show ?thesis
    using ij by simp
qed

lemma pool_inv_frees:
  assumes "pool_inv c p m fs"
  shows "frees c m = fs" "out c m = set (blocks m) - set fs" "unat (block_free_count m) + card (out c m) = unat (block_total_count m)"
proof -
  have i: "chain (ptr \<circ> c) (ptr (block_list m)) fs" "distinct fs" "set fs \<subseteq> set (blocks m)" "unat (block_free_count m) = length fs"
    "distinct (blocks m)"
    using assms distinct_blocks [of m] by (simp_all add: pool_inv_def)
  have len: "length fs \<le> unat (block_total_count m)"
    using card_mono [OF _ i(3)] distinct_card [OF i(2)] distinct_card [OF i(5)] by simp
  then show f: "frees c m = fs"
    unfolding frees_def by (intro follow_chain i(1))
  then show o: "out c m = set (blocks m) - set fs"
    by (simp add: out_def)
  show "unat (block_free_count m) + card (out c m) = unat (block_total_count m)"
    using card_Diff_subset [OF _ i(3)] i(4) len distinct_card [OF i(2)] distinct_card [OF i(5)] by (simp add: o)
qed

section \<open>A change in one pool\<close>

definition same_pool :: "rt_mempool \<Rightarrow> rt_mempool \<Rightarrow> bool" where
  "same_pool m m' \<longleftrightarrow> start_address m' = start_address m \<and> block_size m' = block_size m \<and> block_total_count m' = block_total_count m"

lemma same_pool_blocks: "same_pool m m' \<Longrightarrow> blocks m' = blocks m" "same_pool m m' \<Longrightarrow> pool_end m' = pool_end m"
  by (simp_all add: same_pool_def blocks_def pool_end_def)

lemma mp_okD:
  assumes "mp_ok s" "pools s p = Some m"
  shows "pool_inv (cells s) p m (frees (cells s) m)" "sched_wf (mp_kern s)"
  using assms by (auto simp: mp_ok_def)

lemma other_blocks:
  assumes "mp_ok s" "pools s p = Some m" "pools s p' = Some m'" "b \<in> set (blocks m)" "b \<in> set (blocks m')"
  shows "p = p'"
proof (rule ccontr)
  assume "p \<noteq> p'"
  then have d: "{start_address m..<pool_end m} \<inter> {start_address m'..<pool_end m'} = {}"
    using assms(1-3) by (auto simp: mp_ok_def)
  have "0 < unat (block_size m + 4)" "0 < unat (block_size m' + 4)"
    using mp_okD(1) [OF assms(1,2)] mp_okD(1) [OF assms(1,3)] by (simp_all add: pool_inv_def)
  then have "b \<in> {start_address m..<pool_end m} \<inter> {start_address m'..<pool_end m'}"
    using blocks_in [OF assms(4)] blocks_in [OF assms(5)] by auto
  with d show False
    by blast
qed

lemma chain_cells: "(\<And>x. x \<in> set fs \<Longrightarrow> c' x = c x) \<Longrightarrow> chain (ptr \<circ> c') q fs = chain (ptr \<circ> c) q fs"
  by (induction fs arbitrary: q) auto

lemma chain_cell: "b \<notin> set fs \<Longrightarrow> chain (ptr \<circ> c(b := v)) q fs = chain (ptr \<circ> c) q fs"
  by (rule chain_cells) auto

lemma pool_inv_cells: "pool_inv c p m fs \<Longrightarrow> (\<And>b. b \<in> set (blocks m) \<Longrightarrow> c' b = c b) \<Longrightarrow> pool_inv c' p m fs"
  using chain_cells [of fs c' c] by (fastforce simp: pool_inv_def)

lemma union_change:
  fixes f f' :: "'a \<Rightarrow> 'b set"
  assumes "\<And>q. q \<noteq> p \<Longrightarrow> f' q = f q" "\<And>q. q \<noteq> p \<Longrightarrow> f q \<inter> B = {}" "f p \<subseteq> B"
  shows "(\<Union>q. f' q) = (\<Union>q. f q) - B \<union> f' p"
proof -
  have "(\<Union>q. f' q) = (\<Union>q\<in>insert p (- {p}). f' q)"
    by (rule SUP_cong) auto
  also have "\<dots> = (\<Union>q\<in>- {p}. f q) \<union> f' p"
    using SUP_cong [OF refl assms(1), of "- {p}"] by auto
  finally have "(\<Union>q. f' q) = (\<Union>q\<in>- {p}. f q) \<union> f' p" .
  moreover have "(\<Union>q. f q) - B = (\<Union>q\<in>- {p}. f q)"
    using assms(2,3) by blast
  ultimately show ?thesis
    by simp
qed

lemma pool_change:
  assumes "mp_ok s" "pools s p = Some m" "b \<in> set (blocks m)" "same_pool m m'" "pool_inv ((cells s)(b := v)) p m' fs" "sched_wf k"
  defines "s' \<equiv> s\<lparr>mp_kern := k, pools := (pools s)(p \<mapsto> m'), cells := (cells s)(b := v)\<rparr>"
  shows "mp_ok s'" "held s' = held s - (\<lambda>b. b + 4) ` set (blocks m) \<union> (\<lambda>b. b + 4) ` (set (blocks m) - set fs)"
proof -
  have other: "pool_inv ((cells s)(b := v)) q m1 (frees (cells s) m1)" "b \<notin> set (blocks m1)" if "pools s q = Some m1" "q \<noteq> p" for q m1
    using that other_blocks [OF assms(1) that(1) assms(2) _ assms(3)] pool_inv_cells [OF mp_okD(1) [OF assms(1) that(1)], of "(cells s)(b := v)"] by (fastforce, blast)
  then have f: "frees ((cells s)(b := v)) m1 = frees (cells s) m1" if "pools s q = Some m1" "q \<noteq> p" for q m1
    using that pool_inv_frees(1) by blast
  note me = pool_inv_frees(1,2) [OF assms(5)]
  have bl: "blocks m' = blocks m" "pool_end m' = pool_end m" "start_address m' = start_address m"
    using same_pool_blocks [OF assms(4)] assms(4) by (simp_all add: same_pool_def)
  show "mp_ok s'"
    unfolding mp_ok_def
  proof (intro conjI allI impI)
    show "sched_wf (mp_kern s')"
      using assms(6) by (simp add: s'_def)
    show "pool_inv (cells s') q m1 (frees (cells s') m1)" if "pools s' q = Some m1" for q m1
      using that other(1) [of q m1] f [of q m1] assms(5) me(1) by (auto simp: s'_def split: if_splits)
    show "{start_address m1..<pool_end m1} \<inter> {start_address m2..<pool_end m2} = {}"
      if "pools s' p1 = Some m1" "pools s' p2 = Some m2" "p1 \<noteq> p2" for p1 m1 p2 m2
    proof -
      have "\<exists>n. pools s q = Some n \<and> start_address n = start_address m1 \<and> pool_end n = pool_end m1" if "pools s' q = Some m1" for q m1
        using that assms(2) bl by (auto simp: s'_def split: if_splits)
      from this [OF that(1)] this [OF that(2)] show ?thesis
        using assms(1) that(3) unfolding mp_ok_def by metis
    qed
  qed
  have "held_of s' q = held_of s q" if "q \<noteq> p" for q
    using f [OF _ that] that by (auto simp: held_of_def out_def s'_def split: option.splits)
  moreover have "held_of s q \<inter> (\<lambda>b. b + 4) ` set (blocks m) = {}" if "q \<noteq> p" for q
    using that other_blocks [OF assms(1) _ assms(2)] by (auto simp: held_of_def out_def split: option.splits)
  moreover have "held_of s p \<subseteq> (\<lambda>b. b + 4) ` set (blocks m)"
    using assms(2) by (auto simp: held_of_def out_def)
  ultimately have "held s' = held s - (\<lambda>b. b + 4) ` set (blocks m) \<union> held_of s' p"
    unfolding held_def by (rule union_change)
  then show "held s' = held s - (\<lambda>b. b + 4) ` set (blocks m) \<union> (\<lambda>b. b + 4) ` (set (blocks m) - set fs)"
    using me(2) bl(1) by (simp add: held_of_def s'_def)
qed

section \<open>Taking and giving back a block\<close>

definition take_block :: "nat \<Rightarrow> rt_mempool \<Rightarrow> mp_sys \<Rightarrow> mp_sys" where
  "take_block p m s = s\<lparr>pools := (pools s)(p \<mapsto> m\<lparr>block_list := cells s (block_list m), block_free_count := block_free_count m - 1\<rparr>),
     cells := (cells s)(block_list m := p)\<rparr>"

definition give_block :: "nat \<Rightarrow> nat \<Rightarrow> rt_mempool \<Rightarrow> mp_sys \<Rightarrow> mp_sys" where
  "give_block b p m s = s\<lparr>pools := (pools s)(p \<mapsto> m\<lparr>block_list := b, block_free_count := block_free_count m + 1\<rparr>),
     cells := (cells s)(b := block_list m)\<rparr>"

lemma block_not_null: "pool_inv c p m fs \<Longrightarrow> b \<in> set (blocks m) \<Longrightarrow> b \<noteq> 0"
  using blocks_in [of b m] by (auto simp: pool_inv_def)

lemma held_block:
  assumes "mp_ok s" "pools s p = Some m" "b \<in> set (blocks m)"
  shows "b + 4 \<in> held s \<longleftrightarrow> b \<in> out (cells s) m"
proof
  assume "b + 4 \<in> held s"
  then obtain q m1 where q: "pools s q = Some m1" "b \<in> out (cells s) m1"
    by (auto simp: held_def held_of_def split: option.splits)
  then have "q = p"
    using other_blocks [OF assms(1) q(1) assms(2) _ assms(3)] by (simp add: out_def)
  then show "b \<in> out (cells s) m"
    using q assms(2) by simp
next
  assume "b \<in> out (cells s) m"
  then have "b + 4 \<in> held_of s p"
    using assms(2) by (simp add: held_of_def)
  then show "b + 4 \<in> held s"
    unfolding held_def by blast
qed

lemma take_block_law:
  assumes "mp_ok s" "pools s p = Some m" "block_free_count m \<noteq> 0"
  shows "block_list m \<noteq> 0" "mp_ok (take_block p m s)" "block_list m + 4 \<notin> held s" "held (take_block p m s) = insert (block_list m + 4) (held s)"
proof -
  let ?b = "block_list m" and ?m = "m\<lparr>block_list := cells s (block_list m), block_free_count := block_free_count m - 1\<rparr>"
  have i: "pool_inv (cells s) p m (frees (cells s) m)" and wf: "sched_wf (mp_kern s)"
    using mp_okD [OF assms(1,2)] by simp_all
  have "frees (cells s) m \<noteq> []"
    using i assms(3) by (auto simp: pool_inv_def unat_eq_zero)
  then obtain fs where fs: "frees (cells s) m = ?b # fs" and b: "?b \<noteq> 0"
    using i by (cases "frees (cells s) m") (auto simp: pool_inv_def split: if_splits)
  then have i: "pool_inv (cells s) p m (?b # fs)"
    using i by simp
  have in_m: "?b \<in> set (blocks m)" "?b \<notin> set fs" "set fs \<subseteq> set (blocks m)"
    using i by (auto simp: pool_inv_def)
  have "unat (block_free_count m - 1) = length fs"
    using i assms(3) by (simp add: pool_inv_def unat_minus_one)
  then have inv: "pool_inv ((cells s)(?b := p)) p ?m fs"
    using i b same_pool_blocks [of m ?m] chain_cell [OF in_m(2)] by (auto simp: pool_inv_def same_pool_def)
  have same: "same_pool m ?m"
    by (simp add: same_pool_def)
  note c = pool_change [OF assms(1,2) in_m(1) same inv wf]
  have t: "take_block p m s = s\<lparr>mp_kern := mp_kern s, pools := (pools s)(p \<mapsto> ?m), cells := (cells s)(?b := p)\<rparr>"
    by (simp add: take_block_def)
  show "block_list m \<noteq> 0"
    by (rule b)
  show "mp_ok (take_block p m s)"
    unfolding t by (rule c(1))
  have out: "out (cells s) m = set (blocks m) - insert ?b (set fs)"
    using pool_inv_frees(2) [OF i] by simp
  show "?b + 4 \<notin> held s"
    using held_block [OF assms(1,2) in_m(1)] out by simp
  have "(held s - (\<lambda>b. b + 4) ` set (blocks m)) \<union> (\<lambda>b. b + 4) ` out (cells s) m = held s"
    using held_block [OF assms(1,2)] by (auto simp: out_def)
  then show "held (take_block p m s) = insert (?b + 4) (held s)"
    unfolding t c(2) using out in_m by auto
qed

lemma give_block_law:
  assumes "mp_ok s" "a \<in> held s"
  defines "b \<equiv> a - 4" and "p \<equiv> cells s (a - 4)"
  obtains m where "pools s p = Some m" "a \<noteq> 0"
    "\<And>k. sched_wf k \<Longrightarrow> mp_ok ((give_block b p m s)\<lparr>mp_kern := k\<rparr>) \<and> held ((give_block b p m s)\<lparr>mp_kern := k\<rparr>) = held s - {a}"
proof -
  obtain q where "a \<in> held_of s q"
    using assms(2) by (auto simp: held_def)
  then obtain m b' where "pools s q = Some m" "b' \<in> out (cells s) m" "a = b' + 4"
    by (auto simp: held_of_def split: option.splits)
  then have q: "pools s q = Some m" "b \<in> out (cells s) m" "a = b + 4"
    by (simp_all add: b_def)
  let ?fs = "frees (cells s) m" and ?m = "m\<lparr>block_list := b, block_free_count := block_free_count m + 1\<rparr>"
  have i: "pool_inv (cells s) q m ?fs"
    by (rule mp_okD(1) [OF assms(1) q(1)])
  have b: "b \<in> set (blocks m)" "b \<notin> set ?fs" "b \<noteq> 0"
    using q(2) block_not_null [OF i] by (auto simp: out_def)
  then have "cells s b = q"
    using i by (simp add: pool_inv_def)
  then have p: "p = q"
    by (simp add: p_def b_def)
  have "0 < card (out (cells s) m)"
    using q(2) by (auto simp: card_gt_0_iff out_def)
  then have "unat (block_free_count m) < unat (block_total_count m)"
    using pool_inv_frees(3) [OF i] by simp
  then have "unat (block_free_count m + 1) = length (b # ?fs)"
    using i unsigned_less [of "block_total_count m", where ?'a = nat] by (simp add: pool_inv_def unat_word_ariths)
  then have inv: "pool_inv ((cells s)(b := block_list m)) q ?m (b # ?fs)"
    using i b same_pool_blocks [of m ?m] chain_cell [OF b(2)] by (auto simp: pool_inv_def same_pool_def)
  have same: "same_pool m ?m"
    by (simp add: same_pool_def)
  have k: "mp_ok ((give_block b p m s)\<lparr>mp_kern := k\<rparr>) \<and> held ((give_block b p m s)\<lparr>mp_kern := k\<rparr>) = held s - {a}" if "sched_wf k" for k
  proof -
    note c = pool_change [OF assms(1) q(1) b(1) same inv that]
    have t: "(give_block b p m s)\<lparr>mp_kern := k\<rparr> = s\<lparr>mp_kern := k, pools := (pools s)(q \<mapsto> ?m), cells := (cells s)(b := block_list m)\<rparr>"
      by (simp add: give_block_def p)
    have "(held s - (\<lambda>b. b + 4) ` set (blocks m)) \<union> (\<lambda>b. b + 4) ` (set (blocks m) - set (b # ?fs)) = held s - {a}"
      using held_block [OF assms(1) q(1)] b(1) by (auto simp: out_def q(3))
    then show ?thesis
      unfolding t using c by simp
  qed
  show ?thesis
    using that [OF _ _ k] q(1,3) p by simp
qed

section \<open>New pools\<close>

lemma fold_cells:
  assumes "inj_on g {..<n}"
  shows "i < n \<Longrightarrow> fold (\<lambda>i c. c(g i := h i)) [0..<n] c (g i) = h i"
    and "x \<notin> g ` {..<n} \<Longrightarrow> fold (\<lambda>i c. c(g i := h i)) [0..<n] c x = c x"
  using assms
proof (induction n)
  case (Suc n)
  {
    case 1
    then show ?case
      using Suc.IH(1) inj_onD [OF 1(2), of i n] inj_on_subset [OF 1(2), of "{..<n}"] by (cases "i = n") auto
  next
    case 2
    then show ?case
      using Suc.IH(2) inj_on_subset [OF 2(2), of "{..<n}"] by (simp add: lessThan_Suc)
  }
qed auto

lemma chain_upt:
  assumes "\<And>i. i < n \<Longrightarrow> f (g i) = (if Suc i < n then Some (g (Suc i)) else None)"
  shows "k < n \<Longrightarrow> chain f (Some (g k)) (map g [k..<n])"
proof (induction "n - k" arbitrary: k)
  case (Suc d)
  then show ?case
    using assms [of k] by (cases "Suc k < n") (simp_all add: upt_conv_Cons)
qed simp

lemma link_blocks_law:
  fixes c :: "nat \<Rightarrow> nat"
  assumes "start_address m + unat n * unat (bsz + 4) \<le> 2 ^ 32" "start_address m \<noteq> 0" "n \<noteq> 0" "unat (bsz + 4) \<noteq> 0"
    and "block_size m = bsz" "block_total_count m = n"
  defines "c' \<equiv> link_blocks (start_address m) bsz n c"
  shows "chain (ptr \<circ> c') (Some (start_address m)) (blocks m)" "x \<notin> set (blocks m) \<Longrightarrow> c' x = c x"
proof -
  let ?g = "\<lambda>i. start_address m + i * unat (bsz + 4)"
  have at: "block_at (start_address m) bsz i = ?g i" if "i < unat n" for i
  proof -
    have "Suc i * unat (bsz + 4) \<le> unat n * unat (bsz + 4)"
      using that by (intro mult_right_mono) auto
    then have "?g i < 2 ^ 32"
      using assms(1,4) by simp
    then show ?thesis
      by (simp add: block_at_def)
  qed
  have inj: "inj_on (block_at (start_address m) bsz) {..<unat n}"
    using assms(4) by (auto simp: inj_on_def at)
  have n: "0 < unat n" "unat (n - 1) = unat n - 1"
    using assms(3) by (simp_all add: unat_minus_one unat_gt_0)
  have c': "c' (?g i) = (if Suc i < unat n then ?g (Suc i) else 0)" if "i < unat n" for i
  proof (cases "Suc i < unat n")
    case True
    then have "?g i \<noteq> ?g (unat n - 1)"
      using assms(4) by auto
    then show ?thesis
      using True fold_cells(1) [OF inj that, of "\<lambda>i. block_at (start_address m) bsz (i + 1)" c] n
      by (simp add: c'_def link_blocks_def at)
  next
    case False
    then have "i = unat n - 1"
      using that by simp
    then show ?thesis
      using n by (simp add: c'_def link_blocks_def at)
  qed
  have "chain (ptr \<circ> c') (Some (?g 0)) (map ?g [0..<unat n])"
    by (rule chain_upt) (use c' assms(2) n(1) in simp_all)
  then show "chain (ptr \<circ> c') (Some (start_address m)) (blocks m)"
    using assms(5,6) by (simp add: blocks_def)
  show "c' x = c x" if "x \<notin> set (blocks m)"
  proof -
    have "x \<notin> block_at (start_address m) bsz ` {..<unat n}" "x \<noteq> ?g (unat n - 1)"
      using that assms(5,6) n(1) by (auto simp: blocks_def at image_iff)
    then show ?thesis
      using fold_cells(2) [OF inj] n by (simp add: c'_def link_blocks_def at)
  qed
qed

definition fits_in :: "nat \<Rightarrow> rt_mempool \<Rightarrow> mp_sys \<Rightarrow> bool" where
  "fits_in p m s \<longleftrightarrow> pools s p = None \<and> pool_end m \<le> 2 ^ 32 \<and> waiting (mp_kern s) (mp_list m) = [] \<and>
     (\<forall>q m'. pools s q = Some m' \<longrightarrow> {start_address m..<pool_end m} \<inter> {start_address m'..<pool_end m'} = {})"

lemma add_pool_law:
  assumes "mp_ok s" "fits_in p m s" "start_address m \<noteq> 0" "block_total_count m \<noteq> 0" "unat (block_size m + 4) = unat (block_size m) + 4"
    and "block_list m = start_address m" "block_free_count m = block_total_count m"
  shows "mp_ok (add_pool p m s)" "held (add_pool p m s) = held s"
proof -
  let ?c = "cells (add_pool p m s)"
  have c: "chain (ptr \<circ> ?c) (Some (start_address m)) (blocks m)" "\<And>x. x \<notin> set (blocks m) \<Longrightarrow> ?c x = cells s x"
    using link_blocks_law [of m "block_total_count m" "block_size m"] assms(2-5) by (simp_all add: add_pool_def fits_in_def pool_end_def)
  have me: "pool_inv ?c p m (blocks m)"
    using c(1) assms(2-7) distinct_blocks [of m] by (simp add: pool_inv_def fits_in_def)
  have off: "x \<notin> set (blocks m)" if "pools s q = Some m'" "x \<in> set (blocks m')" for q m' x
  proof
    assume x: "x \<in> set (blocks m)"
    have "unat (block_size m' + 4) = unat (block_size m') + 4"
      using mp_okD(1) [OF assms(1) that(1)] by (simp add: pool_inv_def)
    then have "x \<in> {start_address m..<pool_end m} \<inter> {start_address m'..<pool_end m'}"
      using blocks_in [OF x] blocks_in [OF that(2)] assms(5) by auto
    then show False
      using assms(2) that(1) unfolding fits_in_def by blast
  qed
  have other: "pool_inv ?c q m' (frees (cells s) m')" if "pools s q = Some m'" for q m'
    using pool_inv_cells [OF mp_okD(1) [OF assms(1) that], of ?c] c(2) off [OF that] by blast
  then have f: "frees ?c m' = frees (cells s) m'" if "pools s q = Some m'" for q m'
    using pool_inv_frees(1) that by blast
  have k: "mp_kern (add_pool p m s) = mp_kern s"
    using assms(2) by (simp add: add_pool_def fits_in_def fun_upd_idem)
  have p: "pools (add_pool p m s) = (pools s)(p \<mapsto> m)"
    by (simp add: add_pool_def)
  show "mp_ok (add_pool p m s)"
    unfolding mp_ok_def k p
  proof (intro conjI allI impI)
    show "sched_wf (mp_kern s)"
      using assms(1) by (simp add: mp_ok_def)
    show "pool_inv ?c q m1 (frees ?c m1)" if "((pools s)(p \<mapsto> m)) q = Some m1" for q m1
      using that other [of q m1] f [of q m1] me pool_inv_frees(1) [OF me] by (auto split: if_splits)
    show "{start_address m1..<pool_end m1} \<inter> {start_address m2..<pool_end m2} = {}"
      if "((pools s)(p \<mapsto> m)) p1 = Some m1" "((pools s)(p \<mapsto> m)) p2 = Some m2" "p1 \<noteq> p2" for p1 m1 p2 m2
    proof (cases "p1 = p \<or> p2 = p")
      case True
      then show ?thesis
        using that assms(2) unfolding fits_in_def by (metis fun_upd_apply inf_commute option.inject)
    next
      case False
      then show ?thesis
        using that assms(1) unfolding mp_ok_def by simp
    qed
  qed
  have "held_of (add_pool p m s) q = held_of s q" for q
    using f [of q] assms(2) pool_inv_frees(2) [OF me] by (auto simp: held_of_def out_def p fits_in_def split: option.splits)
  then show "held (add_pool p m s) = held s"
    by (simp add: held_def)
qed

section \<open>The kernel side\<close>

lemma suspend_self:
  assumes "sched_wf k" "runs k t" "rt_thread_suspend t k = Some (r, k')"
  shows "sched_wf k'" "stat (threads k' t) = RT_THREAD_SUSPEND" "t \<notin> set (waiting k' j)"
proof -
  obtain ts where "k' = (set_stat RT_THREAD_SUSPEND t (rt_schedule_remove_thread t k))\<lparr>tmr := ts\<rparr>"
    using assms(2,3) by (auto simp: runs_def rt_thread_suspend_def split: if_splits Option.bind_splits dest!: timer_stop_simps)
  then show "stat (threads k' t) = RT_THREAD_SUSPEND" "t \<notin> set (waiting k' j)"
    by simp_all
  show "sched_wf k'"
    by (rule suspend_wf [OF assms(1,3)])
qed

text \<open>The waiting thread goes to the head of the list, so it is the newest waiter that is woken first.\<close>

lemma mp_wait_law:
  assumes "sched_wf k" "runs k t" "mp_wait m t time k = Some (r, k')"
  shows "sched_wf k'" "waiting k' (mp_list m) = t # waiting k (mp_list m)"
proof -
  let ?k = "set_error t RT_EOK k" and ?l = "mp_list m"
  obtain r1 k1 k3 where k: "rt_thread_suspend t ?k = Some (r1, k1)"
    "(if time > 0 then thread_timer_start t (of_int time) (k1\<lparr>waiting := (waiting k1)(?l := t # waiting k1 ?l)\<rparr>)
      else Some (k1\<lparr>waiting := (waiting k1)(?l := t # waiting k1 ?l)\<rparr>)) = Some k3" "rt_schedule k3 = Some k'"
    using assms(3) by (auto simp: mp_wait_def Let_def split: Option.bind_splits)
  note su = suspend_self [OF error_wf [OF assms(1)] error_runs [OF assms(2)] k(1)]
  have "distinct (t # waiting k1 ?l)"
    using su(1,3) queues_okD(6) [of "{}" k1] by (simp add: sched_wf_def)
  then have "sched_wf (k1\<lparr>waiting := (waiting k1)(?l := t # waiting k1 ?l)\<rparr>)"
    using su by (intro wait_on_wf) auto
  then have k3: "sched_wf k3"
    using k(2) timer_stop_simps(2) by (fastforce split: if_splits)
  then show "sched_wf k'"
    using schedule_law [OF _ k(3)] by blast
  have "waiting k3 ?l = t # waiting k1 ?l"
    using k(2) timer_stop_simps(2) by (fastforce split: if_splits)
  then show "waiting k' ?l = t # waiting k ?l"
    using schedule_law [OF k3 k(3)] suspend_waiting [OF error_wf [OF assms(1)] k(1)] by simp
qed

section \<open>Blocks have one holder\<close>

text \<open>What a supply of blocks promises its clients.  \<open>Got a\<close> is a block handed out, \<open>Sent a\<close> one given back;
  \<open>tally\<close> counts them, and has no value when a block is handed out that a client has, or given back by nobody who
  has it.\<close>

fun tally :: "nat traffic list \<Rightarrow> nat set \<Rightarrow> nat set option" where
  "tally [] H = Some H"
| "tally (Got a # ls) H = (if a \<in> H then None else tally ls (insert a H))"
| "tally (Sent a # ls) H = (if a \<in> H then tally ls (H - {a}) else None)"
| "tally (Quiet # ls) H = tally ls H"

locale block_supply =
  fixes step :: "'s \<Rightarrow> nat traffic \<Rightarrow> 's \<Rightarrow> bool"
    and holding :: "'s \<Rightarrow> nat set"
    and ok :: "'s \<Rightarrow> bool"
  assumes step_law: "ok s \<Longrightarrow> step s l s' \<Longrightarrow> ok s' \<and> tally [l] (holding s) = Some (holding s')"
begin

lemma one_holder: "traffic_run step s ls s' \<Longrightarrow> ok s \<Longrightarrow> ok s' \<and> tally ls (holding s) = Some (holding s')"
proof (induction rule: traffic_run.induct)
  case (run_Cons s l s1 ls s')
  then have "ok s1" "tally [l] (holding s) = Some (holding s1)"
    using step_law by blast+
  then show ?case
    using run_Cons.IH by (cases l) (auto split: if_splits)
qed simp

end

fun gives :: "mp_result \<Rightarrow> nat traffic" where
  "gives (Gives a) = (if a = 0 then Quiet else Got a)"
| "gives (Sleeps time start) = Quiet"

text \<open>Everything that happens: pools are made in memory of their own, threads allocate, wait and go on, and give
  back blocks they have.\<close>

inductive mp_step :: "mp_sys \<Rightarrow> nat traffic \<Rightarrow> mp_sys \<Rightarrow> bool" where
  mp_alloc: "runs (mp_kern s) t \<Longrightarrow> rt_mp_alloc p time s = Some (r, s') \<Longrightarrow> mp_step s (gives r) s'"
| mp_alloc_goes_on: "runs (mp_kern s) t \<Longrightarrow> mp_alloc_resumed t p time start s = Some (r, s') \<Longrightarrow> mp_step s (gives r) s'"
| mp_free: "a \<in> held s \<Longrightarrow> rt_mp_free a s = Some s' \<Longrightarrow> mp_step s (Sent a) s'"
| mp_free_null: "rt_mp_free 0 s = Some s' \<Longrightarrow> mp_step s Quiet s'"
| mp_init: "rt_mp_init p start sz bsz l s = Some s' \<Longrightarrow> pools s' p = Some m \<Longrightarrow> fits_in p m s \<Longrightarrow> block_total_count m \<noteq> 0 \<Longrightarrow>
    bsz \<le> 0xFFFFFFF8 \<Longrightarrow> mp_step s Quiet s'"
| mp_create: "rt_mp_create obj mem n bsz l s = Some (p, s') \<Longrightarrow>
    (\<And>m. p \<noteq> 0 \<Longrightarrow> pools s' p = Some m \<Longrightarrow> fits_in p m s \<and> start_address m \<noteq> 0) \<Longrightarrow> obj \<noteq> Some 0 \<Longrightarrow> bsz \<le> 0xFFFFFFF8 \<Longrightarrow> mp_step s Quiet s'"
| mp_detach: "rt_mp_detach p s = Some s' \<Longrightarrow> mp_step s Quiet s'"
| mp_other: "op_ok op (mp_kern s) \<Longrightarrow> kernel_step op (mp_kern s) = Some k \<Longrightarrow> mp_step s Quiet (s\<lparr>mp_kern := k\<rparr>)"

lemma mp_ok_kern: "mp_ok s \<Longrightarrow> sched_wf k \<Longrightarrow> mp_ok (s\<lparr>mp_kern := k\<rparr>)" "held (s\<lparr>mp_kern := k\<rparr>) = held s"
  by (simp_all add: mp_ok_def held_def held_of_def cong: option.case_cong)

lemma aligned_block: "bsz \<le> 0xFFFFFFF8 \<Longrightarrow> unat (((bsz + 3) AND NOT 3) + 4 :: u32) = unat ((bsz + 3) AND NOT 3) + 4"
proof -
  assume b: "bsz \<le> 0xFFFFFFF8"
  then have "unat (bsz + 3) \<le> 0xFFFFFFFB"
    by (simp add: word_le_nat_alt unat_word_ariths)
  moreover have "unat ((bsz + 3) AND NOT 3) \<le> unat (bsz + 3)"
    using word_and_le2 [of "bsz + 3" "NOT 3"] unfolding word_le_nat_alt .
  ultimately show ?thesis
    by (simp add: unat_word_ariths)
qed

lemma alloc_loop_law:
  assumes "mp_ok s" "runs (mp_kern s) t" "mp_alloc_loop p time s = Some (r, s')"
  shows "mp_ok s' \<and> tally [gives r] (held s) = Some (held s')"
proof -
  obtain m where m: "pools s p = Some m"
    using assms(3) by (auto simp: mp_alloc_loop_def split: Option.bind_splits)
  have wf: "sched_wf (mp_kern s)" and t: "rt_current_thread (mp_kern s) = Some t"
    using assms(1,2) by (simp_all add: mp_ok_def runs_def)
  consider (full) "block_free_count m = 0" "time = 0" | (wait) "block_free_count m = 0" "time \<noteq> 0" | (room) "block_free_count m \<noteq> 0"
    by blast
  then show ?thesis
  proof cases
    case full
    then have "r = Gives 0" "s' = s\<lparr>mp_kern := set_error t (- RT_ETIMEOUT) (mp_kern s)\<rparr>"
      using assms(3) m t by (auto simp: mp_alloc_loop_def)
    then show ?thesis
      using mp_ok_kern(1) [OF assms(1) error_wf [OF wf]] mp_ok_kern(2) by simp
  next
    case wait
    then obtain k where k: "mp_wait m t time (mp_kern s) = Some (r, k)" "s' = s\<lparr>mp_kern := k\<rparr>"
      using assms(3) m t by (auto simp: mp_alloc_loop_def split: Option.bind_splits)
    then have "gives r = Quiet"
      by (auto simp: mp_wait_def Let_def split: Option.bind_splits)
    then show ?thesis
      using mp_ok_kern(1) [OF assms(1) mp_wait_law(1) [OF wf assms(2) k(1)]] mp_ok_kern(2) k(2) by simp
  next
    case room
    note law = take_block_law [OF assms(1) m room]
    have "r = Gives (block_list m + 4)" "s' = take_block p m s"
      using assms(3) m room law(1) by (simp_all add: mp_alloc_loop_def Let_def take_block_def)
    then show ?thesis
      using law by simp
  qed
qed

lemma free_law:
  assumes "mp_ok s" "a \<in> held s" "rt_mp_free a s = Some s'"
  shows "mp_ok s' \<and> held s' = held s - {a}"
proof -
  obtain m where m: "pools s (cells s (a - 4)) = Some m" "a \<noteq> 0"
    and law: "\<And>k. sched_wf k \<Longrightarrow> mp_ok ((give_block (a - 4) (cells s (a - 4)) m s)\<lparr>mp_kern := k\<rparr>) \<and>
      held ((give_block (a - 4) (cells s (a - 4)) m s)\<lparr>mp_kern := k\<rparr>) = held s - {a}"
    using give_block_law [OF assms(1,2)] by blast
  have wf: "sched_wf (mp_kern s)"
    using assms(1) by (simp add: mp_ok_def)
  have "\<exists>k. sched_wf k \<and> s' = (give_block (a - 4) (cells s (a - 4)) m s)\<lparr>mp_kern := k\<rparr>"
  proof (cases "waiting (mp_kern s) (mp_list m)")
    case Nil
    then have "s' = give_block (a - 4) (cells s (a - 4)) m s"
      using assms(3) m by (simp add: rt_mp_free_def Let_def give_block_def)
    then have "s' = (give_block (a - 4) (cells s (a - 4)) m s)\<lparr>mp_kern := mp_kern s\<rparr>"
      by (simp add: give_block_def)
    then show ?thesis
      using wf by blast
  next
    case (Cons t ts)
    then obtain r k k' where k: "rt_thread_resume t (set_error t RT_EOK (mp_kern s)) = Some (r, k)" "rt_schedule k = Some k'"
      "s' = (give_block (a - 4) (cells s (a - 4)) m s)\<lparr>mp_kern := k'\<rparr>"
      using assms(3) m by (auto simp: rt_mp_free_def Let_def give_block_def split: Option.bind_splits)
    then show ?thesis
      using schedule_law [OF resume_wf [OF error_wf [OF wf] k(1)] k(2)] by blast
  qed
  then show ?thesis
    using law by blast
qed

lemma create_law:
  assumes "mp_ok s" "rt_mp_create obj mem n bsz l s = Some (p, s')" "obj \<noteq> Some 0" "bsz \<le> 0xFFFFFFF8"
    and "\<And>m. p \<noteq> 0 \<Longrightarrow> pools s' p = Some m \<Longrightarrow> fits_in p m s \<and> start_address m \<noteq> 0"
  shows "mp_ok s' \<and> held s' = held s"
proof (cases "s' = s")
  case False
  then obtain start where st: "n \<noteq> 0" "obj = Some p" "s' = add_pool p \<lparr>start_address = start,
      mp_size = (((bsz + 3) AND NOT 3) + 4) * n, block_size = (bsz + 3) AND NOT 3, block_list = start,
      block_total_count = n, block_free_count = n, mp_list = l\<rparr> s"
    using assms(2) by (auto simp: rt_mp_create_def Let_def split: if_splits option.splits)
  define m where "m = \<lparr>start_address = start,
      mp_size = (((bsz + 3) AND NOT 3) + 4) * n, block_size = (bsz + 3) AND NOT 3, block_list = start,
      block_total_count = n, block_free_count = n, mp_list = l\<rparr>"
  have m: "s' = add_pool p m s" "pools s' p = Some m" "block_size m = (bsz + 3) AND NOT 3" "block_list m = start_address m"
    "block_total_count m = n" "block_free_count m = n"
    unfolding st(3) by (simp_all add: add_pool_def m_def)
  have "p \<noteq> 0"
    using st(2) assms(3) by auto
  then show ?thesis
    using add_pool_law [OF assms(1), of p m] assms(5) [OF _ m(2)] st(1) aligned_block [OF assms(4)] m by simp
qed (use assms(1) in simp)

lemma init_law:
  assumes "mp_ok s" "rt_mp_init p start sz bsz l s = Some s'" "pools s' p = Some m" "fits_in p m s" "block_total_count m \<noteq> 0" "bsz \<le> 0xFFFFFFF8"
  shows "mp_ok s' \<and> held s' = held s"
proof -
  have m: "s' = add_pool p m s" "start_address m \<noteq> 0" "block_size m = (bsz + 3) AND NOT 3" "block_list m = start_address m"
    "block_free_count m = block_total_count m"
    using assms(2,3) by (auto simp: rt_mp_init_def Let_def add_pool_def split: if_splits)
  then show ?thesis
    using add_pool_law [OF assms(1,4) m(2) assms(5)] aligned_block [OF assms(6)] by simp
qed

lemma mp_step_law: "mp_step s l s' \<Longrightarrow> mp_ok s \<Longrightarrow> mp_ok s' \<and> tally [l] (held s) = Some (held s')"
proof (induction rule: mp_step.induct)
  case (mp_alloc s t p time r s')
  then show ?case
    using alloc_loop_law unfolding rt_mp_alloc_def by blast
next
  case (mp_alloc_goes_on s t p time start r s')
  then show ?case
    using alloc_loop_law [of s t p] by (auto simp: mp_alloc_resumed_def split: if_splits)
next
  case (mp_free a s s')
  then show ?case
    using free_law [OF mp_free.prems mp_free.hyps] by simp
next
  case (mp_init p start sz bsz l s s' m)
  show ?case
    using init_law [OF mp_init.prems mp_init.hyps] by simp
next
  case (mp_create obj mem n bsz l s p s')
  show ?case
    using create_law [OF mp_create.prems mp_create.hyps(1,3,4,2)] by simp
next
  case (mp_detach p s s')
  then obtain m :: rt_mempool and k where m: "rt_ipc_list_resume_all (mp_list m) (mp_kern s) = Some k" "s' = s\<lparr>mp_kern := k\<rparr>"
    unfolding rt_mp_detach_def Option.bind_eq_Some_conv option.inject by metis
  moreover have "sched_wf k"
    using resume_all_sched_wf [OF _ m(1)] mp_detach.prems by (simp add: mp_ok_def)
  ultimately show ?case
    using mp_ok_kern(1) [OF mp_detach.prems] by (simp add: mp_ok_kern(2))
next
  case (mp_other op s k)
  then have "sched_wf k"
    using kernel_step_wf [OF _ mp_other.hyps] by (simp add: mp_ok_def)
  then show ?case
    using mp_ok_kern(1) [OF mp_other.prems] by (simp add: mp_ok_kern(2))
qed (simp add: rt_mp_free_def)

interpretation mempool: block_supply mp_step held mp_ok
  by unfold_locales (rule mp_step_law)

definition extent :: "mp_sys \<Rightarrow> nat \<Rightarrow> nat" where
  "extent s a = (case pools s (cells s (a - 4)) of None \<Rightarrow> 0 | Some m \<Rightarrow> unat (block_size m))"

lemma held_obtain:
  assumes "mp_ok s" "a \<in> held s"
  obtains p m b where "pools s p = Some m" "b \<in> set (blocks m)" "a = b + 4" "unat (block_size m + 4) = extent s a + 4"
proof -
  obtain p where "a \<in> held_of s p"
    using assms(2) by (auto simp: held_def)
  then obtain m b where b: "pools s p = Some m" "b \<in> out (cells s) m" "a = b + 4"
    by (auto simp: held_of_def split: option.splits)
  have "pool_inv (cells s) p m (frees (cells s) m)"
    by (rule mp_okD(1) [OF assms(1) b(1)])
  then have "cells s b = p" "unat (block_size m + 4) = unat (block_size m) + 4"
    using b(2) by (auto simp: pool_inv_def out_def)
  then show ?thesis
    using that [OF b(1) _ b(3)] b by (simp add: extent_def out_def)
qed

lemma held_apart:
  assumes "mp_ok s" "a \<in> held s" "b \<in> held s" "a < b"
  shows "a + extent s a + 4 \<le> b"
proof -
  obtain p m x where x: "pools s p = Some m" "x \<in> set (blocks m)" "a = x + 4" "unat (block_size m + 4) = extent s a + 4"
    using held_obtain [OF assms(1,2)] .
  obtain q n y where y: "pools s q = Some n" "y \<in> set (blocks n)" "b = y + 4" "unat (block_size n + 4) = extent s b + 4"
    using held_obtain [OF assms(1,3)] .
  show ?thesis
  proof (cases "p = q")
    case True
    then show ?thesis
      using blocks_apart [OF x(2), of y] x y assms(4) by simp
  next
    case False
    then have d: "{start_address m..<pool_end m} \<inter> {start_address n..<pool_end n} = {}"
      using assms(1) x(1) y(1) unfolding mp_ok_def by blast
    have "y \<in> {start_address n..<pool_end n}"
      using blocks_in [OF y(2)] y(4) by simp
    then have "y \<notin> {start_address m..<pool_end m}"
      using d by blast
    then show ?thesis
      using blocks_in [OF x(2)] x(3,4) y(3) assms(4) by auto
  qed
qed

lemma pool_counts: "mp_ok s \<Longrightarrow> pools s p = Some m \<Longrightarrow> unat (block_free_count m) + card (held_of s p) = unat (block_total_count m)"
  using pool_inv_frees(3) [OF mp_okD(1)] by (simp add: held_of_def card_image inj_on_def)


definition demo_mp :: mp_sys where
  "demo_mp = \<lparr>mp_kern = demo_sched, pools = Map.empty, cells = (\<lambda>_. 0)\<rparr>"

lemma demo_mp_ok: "mp_ok demo_mp" "held demo_mp = {}"
  using demo_sched_wf by (simp_all add: mp_ok_def demo_mp_def held_def held_of_def)

text \<open>A pool of two blocks of 12 bytes at address 0x1000.\<close>

definition demo_pool :: rt_mempool where
  "demo_pool = \<lparr>start_address = 0x1000, mp_size = 32, block_size = 12, block_list = 0x1000, block_total_count = 2, block_free_count = 2, mp_list = 20\<rparr>"

lemma demo_init: "rt_mp_init 0x500 0x1000 35 10 20 demo_mp = Some (add_pool 0x500 demo_pool demo_mp)"
  by (simp add: rt_mp_init_def demo_pool_def Let_def)

lemma demo_link: "cells (add_pool 0x500 demo_pool demo_mp) = (\<lambda>_. 0)(0x1000 := 0x1010)"
  by (simp add: add_pool_def demo_pool_def demo_mp_def link_blocks_def block_at_def upt_conv_Cons fun_eq_iff)

definition demo_pool_sys :: mp_sys where
  "demo_pool_sys = add_pool 0x500 demo_pool demo_mp"

lemma demo_pool_sys_eval:
  "demo_pool_sys = \<lparr>mp_kern = demo_sched, pools = [0x500 \<mapsto> demo_pool], cells = (\<lambda>_. 0)(0x1000 := 0x1010)\<rparr>"
proof -
  have "mp_kern demo_pool_sys = demo_sched"
    by (simp add: demo_pool_sys_def add_pool_def demo_mp_def demo_sched_def fun_upd_idem)
  moreover have "pools demo_pool_sys = [0x500 \<mapsto> demo_pool]"
    by (simp add: demo_pool_sys_def add_pool_def demo_mp_def)
  ultimately show ?thesis
    using demo_link by (simp add: demo_pool_sys_def)
qed

lemma demo_pool_made: "mp_step demo_mp Quiet demo_pool_sys"
proof (rule mp_step.mp_init)
  show "rt_mp_init 0x500 0x1000 35 10 20 demo_mp = Some demo_pool_sys"
    unfolding demo_pool_sys_def by (rule demo_init)
  show "pools demo_pool_sys 0x500 = Some demo_pool"
    by (simp add: demo_pool_sys_eval)
  show "fits_in 0x500 demo_pool demo_mp"
    by (simp add: fits_in_def demo_mp_def demo_pool_def pool_end_def demo_sched_def)
qed (simp_all add: demo_pool_def)

lemma demo_alloc: "\<exists>s'. mp_step demo_pool_sys (Got 0x1004) s'"
proof -
  have "rt_mp_alloc 0x500 0 demo_pool_sys = Some (Gives 0x1004, take_block 0x500 demo_pool demo_pool_sys)"
    by (simp add: rt_mp_alloc_def mp_alloc_loop_def demo_pool_sys_eval take_block_def demo_pool_def Let_def)
  moreover have "runs (mp_kern demo_pool_sys) 1"
    by (simp add: demo_pool_sys_eval runs_def demo_sched_def demo_thread_def)
  ultimately show ?thesis
    using mp_step.mp_alloc [of demo_pool_sys 1 "0x500" 0] by fastforce
qed


section \<open>Waiting for a block\<close>

text \<open>A block given back while threads wait: the call returns and the thread at the head of the list can run again,
  without an error.\<close>

theorem mp_free_wakes:
  assumes "mp_ok s" "a \<in> held s" "pools s (cells s (a - 4)) = Some m" "waiting (mp_kern s) (mp_list m) = t # ts"
    and "timers (tmr (mp_kern s)) t \<noteq> None" "runs (mp_kern s) u" "rt_scheduler_lock_nest (mp_kern s) = 0"
  shows "\<exists>s'. rt_mp_free a s = Some s' \<and> mp_ok s' \<and> held s' = held s - {a} \<and> error (threads (mp_kern s') t) = RT_EOK \<and>
    stat (threads (mp_kern s') t) \<in> {RT_THREAD_READY, RT_THREAD_RUNNING} \<and> waiting (mp_kern s') (mp_list m) = ts"
proof -
  let ?k = "set_error t RT_EOK (mp_kern s)"
  have wf: "sched_wf ?k"
    using assms(1) error_wf by (simp add: mp_ok_def)
  have st: "stat (threads ?k t) = RT_THREAD_SUSPEND" and d: "distinct (t # ts)"
    using wf assms(4) queues_okD(5) [of "{}" ?k t "mp_list m"] queues_okD(6) [of "{}" ?k "mp_list m"] by (simp_all add: sched_wf_def)
  obtain r ts' where ts': "rt_timer_stop t (tmr (mp_kern s)) = Some (r, ts')"
    using timer_stop_exists [OF assms(5)] by blast
  define k1 where "k1 = rt_schedule_insert_thread t ((tlist_remove t ?k)\<lparr>tmr := ts'\<rparr>)"
  have k1: "rt_thread_resume t ?k = Some (RT_EOK, k1)"
    using st ts' by (simp add: rt_thread_resume_def thread_timer_stop_def k1_def)
  have "waiting k1 (mp_list m) = ts" "u \<noteq> t"
    using resume_waiting [OF k1] st assms(4,6) d by (auto simp: runs_def)
  moreover have "stat (threads k1 t) \<in> {RT_THREAD_READY, RT_THREAD_RUNNING}" "error (threads k1 t) = RT_EOK"
    "rt_current_thread k1 = Some u" "stat (threads k1 u) = RT_THREAD_RUNNING" "rt_scheduler_lock_nest k1 = 0"
    using assms(6,7) st \<open>u \<noteq> t\<close> by (auto simp: k1_def runs_def)
  moreover obtain k2 where k2: "rt_schedule k1 = Some k2"
    using schedule_best [OF resume_wf [OF wf k1]] calculation by blast
  ultimately have "waiting k2 (mp_list m) = ts" "stat (threads k2 t) \<in> {RT_THREAD_READY, RT_THREAD_RUNNING}" "error (threads k2 t) = RT_EOK"
    using schedule_law [OF resume_wf [OF wf k1] k2] by (simp_all add: switches_def)
  moreover have "a \<noteq> 0"
    using assms(1,2) by (auto elim: held_obtain)
  then have "rt_mp_free a s = Some ((give_block (a - 4) (cells s (a - 4)) m s)\<lparr>mp_kern := k2\<rparr>)"
    using assms(3,4) k1 k2 by (simp add: rt_mp_free_def Let_def give_block_def)
  ultimately show ?thesis
    using free_law [OF assms(1,2)] by auto
qed

section \<open>Sizes that wrap around\<close>

text \<open>The memory asked from the heap is a 32-bit product: 0x10000001 blocks of 12 bytes get 16 bytes.\<close>

lemma create_size_wraps:
  "map_option (\<lambda>(p, s'). map_option (\<lambda>m. (mp_size m, block_total_count m)) (pools s' p)) (rt_mp_create (Some 0x500) (\<lambda>n. if n = 16 then Some 0x1000 else None) 0x10000001 12 20 demo_mp) =
   Some (Some (16, 0x10000001))"
  by (simp add: rt_mp_create_def add_pool_def Let_def)

text \<open>A pool too small for one block writes a null pointer in front of its memory.\<close>

lemma small_pool_writes_before:
  "map_option (\<lambda>s'. (cells s' 0xFF0, map_option block_total_count (pools s' 0x500))) (rt_mp_init 0x500 0x1000 8 12 20 (demo_mp\<lparr>cells := (\<lambda>_. 7)\<rparr>)) =
   Some (0, Some 0)"
  by (simp add: rt_mp_init_def add_pool_def Let_def link_blocks_def block_at_def unsigned_minus_1_eq_mask mask_eq_exp_minus_1)

end
