(* ===== verification/Mem.thy ===== *)
theory Mem
  imports Kstring "HOL-Library.Monad_Syntax"
begin

text \<open>
  \<^verbatim>\<open>rt-thread/src/mem.c\<close>: the small-memory heap.  A pointer to a header is its offset from \<open>heap_ptr\<close>;
  the headers are the store \<open>hdr\<close>, indexed by offset, and the bytes of the blocks are \<open>bytes\<close>, indexed
  by address.  Values of \<open>rt_size_t\<close> are natural numbers below \<open>2 ^ 32\<close>, reduced where the C
  arithmetic can leave that range.  A failed assertion, a wait for the semaphore that nobody gives
  back and an endless loop are \<open>None\<close>.  The hooks and the debug output are left out.
\<close>

section \<open>State\<close>

abbreviation (input) HEAP_MAGIC :: u16 where "HEAP_MAGIC \<equiv> 0x1ea0"
abbreviation (input) MIN_SIZE_ALIGNED :: nat where "MIN_SIZE_ALIGNED \<equiv> 12"
abbreviation (input) SIZEOF_STRUCT_MEM :: nat where "SIZEOF_STRUCT_MEM \<equiv> 12"

record heap_mem =
  magic :: u16
  used :: u16
  nxt :: nat
  prv :: nat

record heap =
  heap_ptr :: nat
  heap_end :: nat
  lfree :: nat
  heap_sem :: nat
  mem_size_aligned :: nat
  used_mem :: nat
  max_mem :: nat
  hdr :: "nat \<Rightarrow> heap_mem"
  bytes :: memory

section \<open>Operations\<close>

definition w32 :: "nat \<Rightarrow> nat" where
  "w32 n = n mod 2 ^ 32"

text \<open>The difference of two values of \<open>rt_size_t\<close>.\<close>

definition sub32 :: "nat \<Rightarrow> nat \<Rightarrow> nat" where
  "sub32 a b = w32 (a + (2 ^ 32 - b))"

definition RT_ALIGN :: "nat \<Rightarrow> nat" where
  "RT_ALIGN n = w32 (n + 3) div 4 * 4"

definition RT_ALIGN_DOWN :: "nat \<Rightarrow> nat" where
  "RT_ALIGN_DOWN n = n div 4 * 4"

definition set_hdr :: "nat \<Rightarrow> (heap_mem \<Rightarrow> heap_mem) \<Rightarrow> heap \<Rightarrow> heap" where
  "set_hdr p f h = h\<lparr>hdr := (hdr h)(p := f (hdr h p))\<rparr>"

definition heap_take :: "heap \<Rightarrow> heap option" where
  "heap_take h = (if heap_sem h = 0 then None else Some (h\<lparr>heap_sem := heap_sem h - 1\<rparr>))"

definition heap_release :: "heap \<Rightarrow> heap" where
  "heap_release h = h\<lparr>heap_sem := heap_sem h + 1\<rparr>"

text \<open>The two halves of \<open>plug_holes\<close>.\<close>

definition plug_forward :: "nat \<Rightarrow> heap \<Rightarrow> heap" where
  "plug_forward mem h =
     (let nmem = nxt (hdr h mem) in
      if mem \<noteq> nmem \<and> used (hdr h nmem) = 0 \<and> nmem \<noteq> heap_end h
      then let h1 = (if lfree h = nmem then h\<lparr>lfree := mem\<rparr> else h);
               h2 = set_hdr mem (nxt_update (\<lambda>_. nxt (hdr h1 nmem))) h1
           in set_hdr (nxt (hdr h2 nmem)) (prv_update (\<lambda>_. mem)) h2
      else h)"

definition plug_backward :: "nat \<Rightarrow> heap \<Rightarrow> heap" where
  "plug_backward mem h =
     (let pmem = prv (hdr h mem) in
      if pmem \<noteq> mem \<and> used (hdr h pmem) = 0
      then let h1 = (if lfree h = mem then h\<lparr>lfree := pmem\<rparr> else h);
               h2 = set_hdr pmem (nxt_update (\<lambda>_. nxt (hdr h1 mem))) h1
           in set_hdr (nxt (hdr h2 mem)) (prv_update (\<lambda>_. pmem)) h2
      else h)"

definition plug_holes :: "nat \<Rightarrow> heap \<Rightarrow> heap option" where
  "plug_holes mem h =
     (if mem < heap_end h \<and> used (hdr h mem) = 0 then Some (plug_backward mem (plug_forward mem h)) else None)"

definition rt_system_heap_init :: "nat \<Rightarrow> nat \<Rightarrow> heap \<Rightarrow> heap" where
  "rt_system_heap_init begin_addr end_addr h =
     (let begin_align = RT_ALIGN begin_addr; end_align = RT_ALIGN_DOWN end_addr in
      if end_align > 2 * SIZEOF_STRUCT_MEM \<and> end_align - 2 * SIZEOF_STRUCT_MEM \<ge> begin_align
      then let n = end_align - begin_align - 2 * SIZEOF_STRUCT_MEM;
               e = n + SIZEOF_STRUCT_MEM
           in h\<lparr>heap_ptr := begin_align, mem_size_aligned := n,
                hdr := (hdr h)(0 := \<lparr>magic = HEAP_MAGIC, used = 0, nxt = e, prv = 0\<rparr>,
                               e := \<lparr>magic = HEAP_MAGIC, used = 1, nxt = e, prv = e\<rparr>),
                heap_end := e, heap_sem := 1, lfree := 0\<rparr>
      else h)"

definition room :: "heap \<Rightarrow> nat \<Rightarrow> nat" where
  "room h p = sub32 (nxt (hdr h p)) (p + SIZEOF_STRUCT_MEM)"

text \<open>The search of \<open>rt_malloc\<close>: the block found, or that there is none.\<close>

partial_function (option) find_fit :: "heap \<Rightarrow> nat \<Rightarrow> nat \<Rightarrow> nat option option" where
  "find_fit h sz p =
     (if p < sub32 (mem_size_aligned h) sz
      then if used (hdr h p) = 0 \<and> room h p \<ge> sz then Some (Some p) else find_fit h sz (nxt (hdr h p))
      else Some None)"

definition count_used :: "nat \<Rightarrow> heap \<Rightarrow> heap" where
  "count_used n h =
     (let u = w32 (used_mem h + n) in h\<lparr>used_mem := u, max_mem := (if max_mem h < u then u else max_mem h)\<rparr>)"

text \<open>Marks the block found as used, splitting off what is left of it when that can be a block.\<close>

definition occupy :: "nat \<Rightarrow> nat \<Rightarrow> heap \<Rightarrow> heap" where
  "occupy p sz h =
     (let n = nxt (hdr h p);
          h1 = (if room h p \<ge> sz + SIZEOF_STRUCT_MEM + MIN_SIZE_ALIGNED
                then let p2 = p + SIZEOF_STRUCT_MEM + sz;
                         g1 = set_hdr p2 (\<lambda>_. \<lparr>magic = HEAP_MAGIC, used = 0, nxt = n, prv = p\<rparr>) h;
                         g2 = set_hdr p (\<lambda>m. m\<lparr>nxt := p2, used := 1\<rparr>) g1;
                         g3 = (if n \<noteq> mem_size_aligned h + SIZEOF_STRUCT_MEM
                               then set_hdr n (prv_update (\<lambda>_. p2)) g2 else g2)
                     in count_used (sz + SIZEOF_STRUCT_MEM) g3
                else count_used (sub32 n p) (set_hdr p (used_update (\<lambda>_. 1)) h))
      in set_hdr p (magic_update (\<lambda>_. HEAP_MAGIC)) h1)"

partial_function (option) next_free :: "heap \<Rightarrow> nat \<Rightarrow> nat option" where
  "next_free h p = (if used (hdr h p) \<noteq> 0 \<and> p \<noteq> heap_end h then next_free h (nxt (hdr h p)) else Some p)"

definition rt_malloc :: "nat \<Rightarrow> heap \<Rightarrow> (nat \<times> heap) option" where
  "rt_malloc size0 h =
     (if size0 = 0 then Some (0, h)
      else if RT_ALIGN size0 > mem_size_aligned h then Some (0, h)
      else let sz = (if RT_ALIGN size0 < MIN_SIZE_ALIGNED then MIN_SIZE_ALIGNED else RT_ALIGN size0) in
           do { h1 \<leftarrow> heap_take h;
                f \<leftarrow> find_fit h1 sz (lfree h1);
                (case f of
                   None \<Rightarrow> Some (0, heap_release h1)
                 | Some p \<Rightarrow>
                     let h2 = occupy p sz h1 in
                     do { h3 \<leftarrow> (if p = lfree h2
                                then do { l \<leftarrow> next_free h2 p;
                                          if l = heap_end h2 \<or> used (hdr h2 l) = 0 then Some (h2\<lparr>lfree := l\<rparr>) else None }
                                else Some h2);
                          if p + SIZEOF_STRUCT_MEM + sz \<le> heap_end h3 \<and>
                             (heap_ptr h3 + p + SIZEOF_STRUCT_MEM) mod 4 = 0 \<and> (heap_ptr h3 + p) mod 4 = 0
                          then Some (heap_ptr h3 + p + SIZEOF_STRUCT_MEM, heap_release h3) else None }) })"

text \<open>A pointer into the first twelve bytes of the heap passes the assertions of \<open>rt_free\<close>, but the header
  it leads to lies before the heap.\<close>

definition rt_free :: "nat \<Rightarrow> heap \<Rightarrow> heap option" where
  "rt_free rmem h =
     (if rmem = 0 then Some h
      else if \<not> (rmem mod 4 = 0 \<and> heap_ptr h + SIZEOF_STRUCT_MEM \<le> rmem \<and> rmem < heap_ptr h + heap_end h) then None
      else let mem = rmem - SIZEOF_STRUCT_MEM - heap_ptr h in
           do { h1 \<leftarrow> heap_take h;
                if used (hdr h1 mem) = 0 \<or> magic (hdr h1 mem) \<noteq> HEAP_MAGIC then None
                else let h2 = set_hdr mem (\<lambda>m. m\<lparr>used := 0, magic := HEAP_MAGIC\<rparr>) h1;
                         h3 = (if mem < lfree h2 then h2\<lparr>lfree := mem\<rparr> else h2);
                         h4 = h3\<lparr>used_mem := sub32 (used_mem h3) (sub32 (nxt (hdr h3 mem)) mem)\<rparr>
                     in map_option heap_release (plug_holes mem h4) })"

definition rt_realloc :: "nat \<Rightarrow> nat \<Rightarrow> heap \<Rightarrow> (nat \<times> heap) option" where
  "rt_realloc rmem newsize0 h =
     (let newsize = RT_ALIGN newsize0 in
      if newsize > mem_size_aligned h then Some (0, h)
      else if newsize = 0 then map_option (\<lambda>h'. (0, h')) (rt_free rmem h)
      else if rmem = 0 then rt_malloc newsize h
      else do { h1 \<leftarrow> heap_take h;
           if rmem < heap_ptr h1 \<or> rmem \<ge> heap_ptr h1 + heap_end h1 then Some (rmem, heap_release h1)
           else if rmem < heap_ptr h1 + SIZEOF_STRUCT_MEM then None
           else let p = rmem - SIZEOF_STRUCT_MEM - heap_ptr h1;
                    sz = sub32 (sub32 (nxt (hdr h1 p)) p) SIZEOF_STRUCT_MEM in
                if sz = newsize then Some (rmem, heap_release h1)
                else if newsize + SIZEOF_STRUCT_MEM + MIN_SIZE_ALIGNED < sz
                then let n = nxt (hdr h1 p);
                         p2 = p + SIZEOF_STRUCT_MEM + newsize;
                         h2 = h1\<lparr>used_mem := sub32 (used_mem h1) (sz - newsize)\<rparr>;
                         h3 = set_hdr p2 (\<lambda>_. \<lparr>magic = HEAP_MAGIC, used = 0, nxt = n, prv = p\<rparr>) h2;
                         h4 = set_hdr p (nxt_update (\<lambda>_. p2)) h3;
                         h5 = (if n \<noteq> mem_size_aligned h4 + SIZEOF_STRUCT_MEM
                               then set_hdr n (prv_update (\<lambda>_. p2)) h4 else h4);
                         h6 = (if p2 < lfree h5 then h5\<lparr>lfree := p2\<rparr> else h5)
                     in map_option (\<lambda>h'. (rmem, heap_release h')) (plug_holes p2 h6)
                else do { (nmem, g) \<leftarrow> rt_malloc newsize (heap_release h1);
                          if nmem \<noteq> 0
                          then do { g' \<leftarrow> rt_free rmem (g\<lparr>bytes := rt_memcpy (bytes g) nmem rmem (if sz < newsize then sz else newsize)\<rparr>);
                                    Some (nmem, g') }
                          else Some (0, g) } })"

text \<open>\<open>rt_memset\<close> must stay within the block: one that runs over the header behind it destroys the heap, which is \<open>None\<close>.\<close>

definition rt_calloc :: "nat \<Rightarrow> nat \<Rightarrow> heap \<Rightarrow> (nat \<times> heap) option" where
  "rt_calloc count sz h =
     do { (p, g) \<leftarrow> rt_malloc (w32 (count * sz)) h;
          if p = 0 then Some (p, g)
          else if w32 (count * sz) \<le> room g (p - SIZEOF_STRUCT_MEM - heap_ptr g)
          then Some (p, g\<lparr>bytes := rt_memset (bytes g) p 0 (w32 (count * sz))\<rparr>)
          else None }"

definition rt_memory_info :: "heap \<Rightarrow> nat \<times> nat \<times> nat" where
  "rt_memory_info h = (mem_size_aligned h, used_mem h, max_mem h)"

section \<open>The chain of blocks\<close>

text \<open>The headers from offset \<open>p\<close> up to \<open>e\<close>, the first of them with the predecessor \<open>pv\<close>.\<close>

fun linked :: "(nat \<Rightarrow> heap_mem) \<Rightarrow> nat \<Rightarrow> nat \<Rightarrow> nat \<Rightarrow> nat list \<Rightarrow> bool" where
  "linked H pv p e [] \<longleftrightarrow> p = e"
| "linked H pv p e (b # bs) \<longleftrightarrow> b = p \<and> prv (H p) = pv \<and> magic (H p) = HEAP_MAGIC \<and>
     p + SIZEOF_STRUCT_MEM < nxt (H p) \<and> 4 dvd nxt (H p) \<and> linked H p (nxt (H p)) e bs"

lemma linked_append:
  "linked H pv p e (xs @ ys) \<longleftrightarrow> (\<exists>q. linked H pv p q xs \<and> linked H (last (pv # xs)) q e ys)"
  by (induction xs arbitrary: pv p) auto

lemma linked_mid:
  "linked H pv p e (xs @ b # ys) \<longleftrightarrow> linked H pv p b xs \<and> linked H (last (pv # xs)) b e (b # ys)"
  by (auto simp: linked_append)

lemma linked_bounds: "linked H pv p e bs \<Longrightarrow> p \<le> e \<and> (\<forall>b\<in>set bs. p \<le> b \<and> b + SIZEOF_STRUCT_MEM < e)"
proof (induction bs arbitrary: pv p)
  case (Cons b bs)
  then show ?case
    using Cons.IH [of p "nxt (H p)"] by fastforce
qed simp

lemma linked_cong:
  "(\<And>b. b \<in> set bs \<Longrightarrow> prv (H' b) = prv (H b) \<and> magic (H' b) = magic (H b) \<and> nxt (H' b) = nxt (H b)) \<Longrightarrow>
   linked H pv p e bs \<Longrightarrow> linked H' pv p e bs"
proof (induction bs arbitrary: pv p)
  case (Cons b bs)
  then show ?case
    using Cons.prems(1) [of b] by fastforce
qed simp

lemma linked_next: "linked H pv p e (b # ys) \<Longrightarrow> (nxt (H b) = e) = (ys = []) \<and> (\<forall>c\<in>set ys. nxt (H b) \<le> c)"
  using linked_bounds [of H p "nxt (H p)" e ys] by (cases ys) auto

lemma linked_relink:
  assumes "linked H pv p e bs" "bs \<noteq> [] \<Longrightarrow> prv (H' p) = pv' \<and> magic (H' p) = magic (H p) \<and> nxt (H' p) = nxt (H p)"
    and "\<And>b. p < b \<Longrightarrow> b < e \<Longrightarrow> prv (H' b) = prv (H b) \<and> magic (H' b) = magic (H b) \<and> nxt (H' b) = nxt (H b)"
  shows "linked H' pv' p e bs"
proof (cases bs)
  case (Cons b bs')
  have l: "linked H p (nxt (H p)) e bs'" "p + 12 \<le> nxt (H p)"
    using assms(1) Cons by simp_all
  have "linked H' p (nxt (H p)) e bs'"
    using linked_bounds [OF l(1)] l(2) by (intro linked_cong [OF _ l(1)] assms(3)) fastforce+
  then show ?thesis
    using assms(1,2) Cons by simp
qed (use assms(1) in simp)

lemma linked_aligned: "linked H pv p e bs \<Longrightarrow> 4 dvd p \<Longrightarrow> \<forall>b\<in>set bs. 4 dvd b"
  by (induction bs arbitrary: pv p) auto

lemma linked_sorted: "linked H pv p e bs \<Longrightarrow> sorted bs \<and> distinct bs"
proof (induction bs arbitrary: pv p)
  case (Cons b bs)
  then show ?case
    using linked_bounds [of H p "nxt (H p)" e bs] by fastforce
qed simp

section \<open>The invariant\<close>

abbreviation is_free :: "(nat \<Rightarrow> heap_mem) \<Rightarrow> nat \<Rightarrow> bool" where
  "is_free H b \<equiv> used (H b) = 0"

definition used_blocks :: "(nat \<Rightarrow> heap_mem) \<Rightarrow> nat list \<Rightarrow> (nat \<times> nat) list" where
  "used_blocks H bs = map (\<lambda>b. (b, nxt (H b) - b)) (filter (\<lambda>b. \<not> is_free H b) bs)"

definition used_span :: "(nat \<Rightarrow> heap_mem) \<Rightarrow> nat list \<Rightarrow> nat" where
  "used_span H bs = sum_list (map snd (used_blocks H bs))"

definition lowest_free :: "(nat \<Rightarrow> heap_mem) \<Rightarrow> nat \<Rightarrow> nat list \<Rightarrow> nat" where
  "lowest_free H e bs = hd (filter (is_free H) bs @ [e])"

definition no_two_free :: "(nat \<Rightarrow> heap_mem) \<Rightarrow> nat list \<Rightarrow> bool" where
  "no_two_free H bs \<longleftrightarrow> successively (\<lambda>a b. \<not> (is_free H a \<and> is_free H b)) bs"

text \<open>What never changes after the initialisation.\<close>

definition heap_frame :: "heap \<Rightarrow> bool" where
  "heap_frame h \<longleftrightarrow> heap_end h = mem_size_aligned h + SIZEOF_STRUCT_MEM \<and> MIN_SIZE_ALIGNED \<le> mem_size_aligned h \<and>
     4 dvd mem_size_aligned h \<and> 0 < heap_ptr h \<and> 4 dvd heap_ptr h \<and> heap_ptr h + heap_end h + SIZEOF_STRUCT_MEM \<le> 2 ^ 32"

lemma heap_frame_upd [simp]:
  "heap_frame (h\<lparr>hdr := H\<rparr>) = heap_frame h" "heap_frame (h\<lparr>lfree := l\<rparr>) = heap_frame h" "heap_frame (h\<lparr>heap_sem := v\<rparr>) = heap_frame h"
  "heap_frame (h\<lparr>used_mem := u\<rparr>) = heap_frame h" "heap_frame (h\<lparr>max_mem := u\<rparr>) = heap_frame h" "heap_frame (h\<lparr>bytes := d\<rparr>) = heap_frame h"
  by (simp_all add: heap_frame_def)

definition heap_core :: "heap \<Rightarrow> nat list \<Rightarrow> bool" where
  "heap_core h bs \<longleftrightarrow> heap_frame h \<and> linked (hdr h) 0 0 (heap_end h) bs \<and> \<not> is_free (hdr h) (heap_end h) \<and>
     lfree h = lowest_free (hdr h) (heap_end h) bs \<and> used_mem h = used_span (hdr h) bs \<and> used_mem h \<le> max_mem h"

definition heap_inv :: "heap \<Rightarrow> nat list \<Rightarrow> bool" where
  "heap_inv h bs \<longleftrightarrow> heap_core h bs \<and> no_two_free (hdr h) bs \<and> heap_sem h = 1"

text \<open>The offsets of the blocks, found by following the chain.  A block takes twelve bytes at least.\<close>

fun walk :: "nat \<Rightarrow> heap \<Rightarrow> nat \<Rightarrow> nat list" where
  "walk 0 h p = []"
| "walk (Suc k) h p = (if p < heap_end h then p # walk k h (nxt (hdr h p)) else [])"

definition heap_blocks :: "heap \<Rightarrow> nat list" where
  "heap_blocks h = walk (heap_end h) h 0"

definition heap_wf :: "heap \<Rightarrow> bool" where
  "heap_wf h \<longleftrightarrow> heap_inv h (heap_blocks h)"

lemma walk_linked: "linked (hdr h) pv p (heap_end h) bs \<Longrightarrow> heap_end h \<le> k + p \<Longrightarrow> walk k h p = bs"
proof (induction bs arbitrary: pv p k)
  case Nil
  then show ?case
    by (cases k) auto
next
  case (Cons b bs)
  then have "p < heap_end h"
    using linked_bounds [OF Cons.prems(1)] by auto
  then obtain j where j: "k = Suc j"
    using Cons.prems(2) by (cases k) auto
  have "walk j h (nxt (hdr h p)) = bs"
    using Cons j by (intro Cons.IH [of p]) auto
  then show ?case
    using Cons.prems(1) j \<open>p < heap_end h\<close> by simp
qed

lemma heap_core_sem [simp]: "heap_core (h\<lparr>heap_sem := v\<rparr>) bs = heap_core h bs" "heap_core (h\<lparr>bytes := m\<rparr>) bs = heap_core h bs"
  by (simp_all add: heap_core_def)

lemma heap_core_blocks: "heap_core h bs \<Longrightarrow> heap_blocks h = bs"
  unfolding heap_blocks_def heap_core_def by (intro walk_linked) auto

lemma heap_inv_wf: "heap_inv h bs \<Longrightarrow> heap_wf h"
  using heap_core_blocks [of h bs] by (simp add: heap_wf_def heap_inv_def)

text \<open>The allocated blocks, by the address the client has, with their size.\<close>

definition addresses :: "nat \<Rightarrow> (nat \<times> nat) list \<Rightarrow> nat \<Rightarrow> nat option" where
  "addresses hp us = map_of (map (\<lambda>(b, n). (hp + b + SIZEOF_STRUCT_MEM, n - SIZEOF_STRUCT_MEM)) us)"

definition live :: "heap \<Rightarrow> nat \<Rightarrow> nat option" where
  "live h = addresses (heap_ptr h) (used_blocks (hdr h) (heap_blocks h))"

lemma walk_upd: "walk k (h\<lparr>heap_sem := v\<rparr>) p = walk k h p" "walk k (h\<lparr>bytes := m\<rparr>) p = walk k h p"
  by (induction k arbitrary: p) simp_all

lemma live_upd [simp]: "live (h\<lparr>heap_sem := v\<rparr>) = live h" "live (h\<lparr>bytes := m\<rparr>) = live h"
  by (simp_all add: live_def heap_blocks_def walk_upd)

lemma live_core: "heap_core h bs \<Longrightarrow> live h = addresses (heap_ptr h) (used_blocks (hdr h) bs)"
  by (simp add: live_def heap_core_blocks)

lemma addresses_insert:
  assumes "p \<notin> fst ` set (us @ vs)"
  shows "addresses hp (us @ (p, n) # vs) = (addresses hp (us @ vs))(hp + p + 12 \<mapsto> n - 12)" "addresses hp (us @ vs) (hp + p + 12) = None"
proof -
  have u: "addresses hp us (hp + p + 12) = None" "addresses hp vs (hp + p + 12) = None"
    using assms by (force simp: addresses_def map_of_eq_None_iff)+
  then show "addresses hp (us @ (p, n) # vs) = (addresses hp (us @ vs))(hp + p + 12 \<mapsto> n - 12)" "addresses hp (us @ vs) (hp + p + 12) = None"
    by (auto simp: addresses_def fun_eq_iff map_add_def split: option.splits)
qed

lemma used_blocks_fst: "fst ` set (used_blocks H bs) \<subseteq> set bs"
  by (auto simp: used_blocks_def)

lemma live_cases:
  assumes "heap_core h bs" "live h a = Some n"
  obtains xs p ys where "bs = xs @ p # ys" "\<not> is_free (hdr h) p" "a = heap_ptr h + p + 12" "n = nxt (hdr h p) - p - 12"
proof -
  have "(a, n) \<in> set (map (\<lambda>(b, n). (heap_ptr h + b + 12, n - 12)) (used_blocks (hdr h) bs))"
    using assms(2) unfolding live_core [OF assms(1)] addresses_def by (rule map_of_SomeD)
  then obtain p where "p \<in> set bs" "\<not> is_free (hdr h) p" "a = heap_ptr h + p + 12" "n = nxt (hdr h p) - p - 12"
    by (auto simp: used_blocks_def)
  then show ?thesis
    using that by (metis split_list)
qed

section \<open>Splitting and merging\<close>

definition split_hdr :: "nat \<Rightarrow> nat \<Rightarrow> nat \<Rightarrow> (nat \<Rightarrow> heap_mem) \<Rightarrow> nat \<Rightarrow> heap_mem" where
  "split_hdr e p p2 H =
     (let n = nxt (H p);
          H1 = H(p2 := \<lparr>magic = HEAP_MAGIC, used = 0, nxt = n, prv = p\<rparr>, p := (H p)\<lparr>nxt := p2\<rparr>)
      in if n \<noteq> e then H1(n := (H1 n)\<lparr>prv := p2\<rparr>) else H1)"

definition merge_hdr :: "nat \<Rightarrow> (nat \<Rightarrow> heap_mem) \<Rightarrow> nat \<Rightarrow> heap_mem" where
  "merge_hdr p H =
     (let m = nxt (H (nxt (H p))); H1 = H(p := (H p)\<lparr>nxt := m\<rparr>) in H1(m := (H1 m)\<lparr>prv := p\<rparr>))"

lemma linked_split:
  assumes "linked H pv q e (xs @ p # ys)" "p + 12 < p2" "p2 + 12 < nxt (H p)" "4 dvd p2"
  shows "linked (split_hdr e p p2 H) pv q e (xs @ p # p2 # ys)"
proof -
  let ?n = "nxt (H p)" and ?H = "split_hdr e p p2 H"
  have l: "linked H pv q p xs" "prv (H p) = last (pv # xs)" "magic (H p) = HEAP_MAGIC" "4 dvd ?n" "linked H p ?n e ys"
    using assms(1) unfolding linked_mid by simp_all
  have e: "?n \<le> e" and xs: "b + 12 \<le> p" if "b \<in> set xs" for b
    using linked_bounds [OF l(5)] linked_bounds [OF l(1)] that by auto
  have h: "?H b = H b" if "b \<noteq> p" "b \<noteq> p2" "b \<noteq> ?n" for b
    using that by (simp add: split_hdr_def Let_def)
  have "?H b = H b" if "b \<in> set xs" for b
    using xs [OF that] assms(2,3) by (intro h) auto
  then have "linked ?H pv q p xs"
    by (intro linked_cong [OF _ l(1)]) simp
  moreover have "linked ?H p2 ?n e ys"
  proof (rule linked_relink [OF l(5)])
    show "prv (?H ?n) = p2 \<and> magic (?H ?n) = magic (H ?n) \<and> nxt (?H ?n) = nxt (H ?n)" if "ys \<noteq> []"
      using linked_next [of H _ p e p ys] assms(1-3) that l by (auto simp: linked_mid split_hdr_def Let_def)
  qed (use assms(2,3) in \<open>auto simp: h\<close>)
  moreover have "?H p2 = \<lparr>magic = HEAP_MAGIC, used = 0, nxt = ?n, prv = p\<rparr>" "?H p = (H p)\<lparr>nxt := p2\<rparr>"
    using assms(2,3) by (auto simp: split_hdr_def Let_def)
  ultimately show ?thesis
    using assms(2-4) l by (simp add: linked_mid)
qed

lemma linked_merge:
  assumes "linked H pv q e (xs @ p # r # ys)"
  shows "linked (merge_hdr p H) pv q e (xs @ p # ys)"
proof -
  let ?m = "nxt (H r)" and ?H = "merge_hdr p H"
  have l: "linked H pv q p xs" "prv (H p) = last (pv # xs)" "magic (H p) = HEAP_MAGIC" "nxt (H p) = r"
    "p + 12 \<le> r" "r + 12 \<le> ?m" "4 dvd ?m" "linked H r ?m e ys"
    using assms unfolding linked_mid by auto
  have xs: "b + 12 \<le> p" if "b \<in> set xs" for b
    using linked_bounds [OF l(1)] that by auto
  have h: "?H b = H b" if "b \<noteq> p" "b \<noteq> ?m" for b
    using that l(4) by (simp add: merge_hdr_def Let_def)
  have "?H b = H b" if "b \<in> set xs" for b
    using xs [OF that] l(5,6) by (intro h) auto
  then have "linked ?H pv q p xs"
    by (intro linked_cong [OF _ l(1)]) simp
  moreover have "linked ?H p ?m e ys"
    by (rule linked_relink [OF l(8)]) (use l(4-6) in \<open>auto simp: h\<close>, auto simp: merge_hdr_def Let_def)
  moreover have "?H p = (H p)\<lparr>nxt := ?m\<rparr>"
    using l(4-6) by (auto simp: merge_hdr_def Let_def)
  ultimately show ?thesis
    using l by (simp add: linked_mid)
qed

lemma merge_used [simp]: "used (merge_hdr p H b) = used (H b)"
  by (simp add: merge_hdr_def Let_def)

lemma is_free_merge [simp]: "is_free (merge_hdr p H) = is_free H"
  by (rule ext) simp

lemma used_blocks_simps [simp]:
  "used_blocks H [] = []" "used_blocks H (xs @ ys) = used_blocks H xs @ used_blocks H ys"
  "used_blocks H (b # bs) = (if is_free H b then [] else [(b, nxt (H b) - b)]) @ used_blocks H bs"
  by (simp_all add: used_blocks_def)

lemma used_blocks_cong:
  "(\<And>b. b \<in> set bs \<Longrightarrow> is_free H' b = is_free H b \<and> (\<not> is_free H b \<longrightarrow> nxt (H' b) = nxt (H b))) \<Longrightarrow> used_blocks H' bs = used_blocks H bs"
  by (induction bs) auto

lemma used_blocks_merge:
  assumes "is_free H p" "is_free H (nxt (H p))"
  shows "used_blocks (merge_hdr p H) (xs @ p # ys) = used_blocks H (xs @ p # nxt (H p) # ys)"
proof -
  have "used_blocks (merge_hdr p H) bs = used_blocks H bs" for bs
    using assms(1) by (intro used_blocks_cong) (auto simp: merge_hdr_def Let_def)
  then show ?thesis
    using assms by simp
qed

lemma lowest_free_simps [simp]:
  "lowest_free H e [] = e" "lowest_free H e (b # bs) = (if is_free H b then b else lowest_free H e bs)"
  by (simp_all add: lowest_free_def)

lemma lowest_free_append: "lowest_free H e (xs @ ys) = lowest_free H (lowest_free H e ys) xs"
  by (induction xs) simp_all

lemma lowest_free_in: "lowest_free H e bs \<in> insert e (set bs)"
  by (induction bs) auto

lemma lowest_free_merge [simp]: "lowest_free (merge_hdr p H) e bs = lowest_free H e bs"
  by (simp add: lowest_free_def)

lemma no_two_free_cong: "(\<And>b. b \<in> set bs \<Longrightarrow> is_free H' b = is_free H b) \<Longrightarrow> no_two_free H bs \<Longrightarrow> no_two_free H' bs"
  unfolding no_two_free_def by (subst (asm) successively_cong) auto

lemma no_two_free_parts: "no_two_free H (xs @ p # ys) \<Longrightarrow> no_two_free H xs \<and> no_two_free H ys"
  by (auto simp: no_two_free_def successively_append_iff successively_Cons)

lemma no_two_free_merge [simp]: "no_two_free (merge_hdr p H) bs = no_two_free H bs"
  by (simp add: no_two_free_def)

lemma heap_core_merge:
  assumes "heap_core h (xs @ p # r # ys)" "is_free (hdr h) p" "is_free (hdr h) r"
  shows "heap_core (h\<lparr>hdr := merge_hdr p (hdr h)\<rparr>) (xs @ p # ys)"
    and "used_blocks (merge_hdr p (hdr h)) (xs @ p # ys) = used_blocks (hdr h) (xs @ p # r # ys)"
proof -
  have r: "nxt (hdr h p) = r"
    using assms(1) by (auto simp: heap_core_def linked_mid)
  show u: "used_blocks (merge_hdr p (hdr h)) (xs @ p # ys) = used_blocks (hdr h) (xs @ p # r # ys)"
    using used_blocks_merge [of "hdr h" p xs ys] assms(2,3) r by simp
  then show "heap_core (h\<lparr>hdr := merge_hdr p (hdr h)\<rparr>) (xs @ p # ys)"
    using assms linked_merge [of "hdr h" 0 0 "heap_end h" xs p r ys]
    by (simp add: heap_core_def lowest_free_append used_span_def del: used_blocks_simps)
qed

lemma plug_forward_core:
  assumes "heap_core h (xs @ p # ys)" "is_free (hdr h) p" "no_two_free (hdr h) ys"
  obtains ys' where "heap_core (plug_forward p h) (xs @ p # ys')" "no_two_free (hdr (plug_forward p h)) (p # ys')"
    "used_blocks (hdr (plug_forward p h)) (xs @ p # ys') = used_blocks (hdr h) (xs @ p # ys)"
    "\<And>b. is_free (hdr (plug_forward p h)) b = is_free (hdr h) b"
proof -
  have l: "linked (hdr h) (last (0 # xs)) p (heap_end h) (p # ys)" and e: "\<not> is_free (hdr h) (heap_end h)"
    using assms(1) by (auto simp: heap_core_def linked_mid)
  show ?thesis
  proof (cases "ys \<noteq> [] \<and> is_free (hdr h) (hd ys)")
    case False
    then have "plug_forward p h = h"
      using l e by (cases ys) (auto simp: plug_forward_def Let_def)
    moreover have "no_two_free (hdr h) (p # ys)"
      using False assms(3) by (cases ys) (auto simp: no_two_free_def)
    ultimately show ?thesis
      using that assms(1) by simp
  next
    case True
    then obtain r zs where ys: "ys = r # zs" "is_free (hdr h) r"
      by (cases ys) auto
    have n: "nxt (hdr h p) = r" "p \<noteq> r" "r \<noteq> heap_end h" "nxt (hdr h r) \<noteq> p"
      using l ys e by auto
    have "lfree h \<noteq> r"
      using assms(1,2) linked_sorted [of "hdr h" 0 0 "heap_end h" "xs @ p # ys"] lowest_free_in [of "hdr h" p xs]
      by (auto simp: heap_core_def ys lowest_free_append)
    then have "plug_forward p h = h\<lparr>hdr := merge_hdr p (hdr h)\<rparr>"
      using n ys by (simp add: plug_forward_def Let_def set_hdr_def merge_hdr_def)
    moreover have "no_two_free (hdr h) (p # zs)"
      using assms(3) ys by (cases zs) (auto simp: no_two_free_def)
    ultimately show ?thesis
      using that [of zs] heap_core_merge [of h xs p r zs] assms(1,2) ys by simp
  qed
qed

lemma plug_backward_core:
  assumes "heap_core h (xs @ p # ys)" "is_free (hdr h) p" "no_two_free (hdr h) xs" "no_two_free (hdr h) (p # ys)"
  obtains bs where "heap_core (plug_backward p h) bs" "no_two_free (hdr (plug_backward p h)) bs"
    "used_blocks (hdr (plug_backward p h)) bs = used_blocks (hdr h) (xs @ p # ys)"
proof -
  have l: "linked (hdr h) 0 0 p xs" "prv (hdr h p) = last (0 # xs)"
    using assms(1) by (auto simp: heap_core_def linked_mid)
  show ?thesis
  proof (cases "xs = [] \<or> \<not> is_free (hdr h) (last xs)")
    case True
    then have "plug_backward p h = h"
      using l by (auto simp: plug_backward_def Let_def)
    moreover have "no_two_free (hdr h) (xs @ p # ys)"
      using True assms(3,4) by (auto simp: no_two_free_def successively_append_iff)
    ultimately show ?thesis
      using that assms(1) by simp
  next
    case False
    then obtain zs a where xs: "xs = zs @ [a]" "is_free (hdr h) a"
      by (cases xs rule: rev_cases) auto
    have n: "nxt (hdr h a) = p" "prv (hdr h p) = a" "a \<noteq> p" "nxt (hdr h p) \<noteq> a"
      using assms(1) by (auto simp: heap_core_def linked_mid xs(1))
    have "lfree h \<noteq> p"
      using assms(1) linked_sorted [of "hdr h" 0 0 "heap_end h" "xs @ p # ys"] xs lowest_free_in [of "hdr h" a zs]
      by (auto simp: heap_core_def lowest_free_append)
    then have b: "plug_backward p h = h\<lparr>hdr := merge_hdr a (hdr h)\<rparr>"
      using n xs by (simp add: plug_backward_def Let_def set_hdr_def merge_hdr_def)
    have "no_two_free (hdr h) (zs @ a # ys)"
      using assms(2-4) xs by (cases ys) (auto simp: no_two_free_def successively_append_iff)
    with b show ?thesis
      using that [of "zs @ a # ys"] heap_core_merge [of h zs a p ys] assms(1,2) xs by simp
  qed
qed


lemma plug_same [simp]:
  "heap_ptr (plug_forward p h) = heap_ptr h" "heap_ptr (plug_backward p h) = heap_ptr h"
  "heap_end (plug_forward p h) = heap_end h" "heap_end (plug_backward p h) = heap_end h"
  "heap_sem (plug_forward p h) = heap_sem h" "heap_sem (plug_backward p h) = heap_sem h"
  "mem_size_aligned (plug_forward p h) = mem_size_aligned h" "mem_size_aligned (plug_backward p h) = mem_size_aligned h"
  "bytes (plug_forward p h) = bytes h" "bytes (plug_backward p h) = bytes h"
  by (simp_all add: plug_forward_def plug_backward_def set_hdr_def Let_def)

definition same_place :: "heap \<Rightarrow> heap \<Rightarrow> bool" where
  "same_place h h' \<longleftrightarrow> heap_ptr h' = heap_ptr h \<and> heap_end h' = heap_end h \<and> mem_size_aligned h' = mem_size_aligned h"

lemma plug_holes_core:
  assumes "heap_core h (xs @ p # ys)" "is_free (hdr h) p" "no_two_free (hdr h) xs" "no_two_free (hdr h) ys"
  obtains h' bs where "plug_holes p h = Some h'" "heap_core h' bs" "no_two_free (hdr h') bs"
    "used_blocks (hdr h') bs = used_blocks (hdr h) (xs @ p # ys)" "same_place h h'" "heap_sem h' = heap_sem h" "bytes h' = bytes h"
proof -
  obtain ys' where f: "heap_core (plug_forward p h) (xs @ p # ys')" "no_two_free (hdr (plug_forward p h)) (p # ys')"
    "used_blocks (hdr (plug_forward p h)) (xs @ p # ys') = used_blocks (hdr h) (xs @ p # ys)"
    "\<And>b. is_free (hdr (plug_forward p h)) b = is_free (hdr h) b"
    using plug_forward_core [OF assms(1,2,4)] by blast
  have "no_two_free (hdr (plug_forward p h)) xs"
    using assms(3) f(4) by (simp add: no_two_free_def)
  then obtain bs where "heap_core (plug_backward p (plug_forward p h)) bs" "no_two_free (hdr (plug_backward p (plug_forward p h))) bs"
    "used_blocks (hdr (plug_backward p (plug_forward p h))) bs = used_blocks (hdr h) (xs @ p # ys)"
    using plug_backward_core [OF f(1) _ _ f(2)] assms(2) f(3,4) by metis
  moreover have "p < heap_end h"
    using assms(1) linked_bounds [of "hdr h" 0 0 "heap_end h" "xs @ p # ys"] by (auto simp: heap_core_def)
  ultimately show ?thesis
    using assms(2) that [of "plug_backward p (plug_forward p h)" bs] by (simp add: plug_holes_def same_place_def)
qed

section \<open>Giving memory back\<close>

lemma w32_small [simp]: "n < 2 ^ 32 \<Longrightarrow> w32 n = n"
  by (simp add: w32_def)

lemma sub32_small: "b \<le> a \<Longrightarrow> a < 2 ^ 32 \<Longrightarrow> sub32 a b = a - b"
  by (simp add: sub32_def w32_def mod_if)

lemma used_span_bound: "linked H pv p e bs \<Longrightarrow> used_span H bs \<le> e - p"
proof (induction bs arbitrary: pv p)
  case (Cons b bs)
  then have "used_span H bs \<le> e - nxt (H p)" "nxt (H p) \<le> e" "p + 12 \<le> nxt (H p)"
    using linked_bounds [of H p "nxt (H p)" e bs] by auto
  moreover have "used_span H (b # bs) \<le> (nxt (H p) - p) + used_span H bs"
    using Cons.prems by (auto simp: used_span_def)
  ultimately show ?case
    by linarith
qed (simp add: used_span_def)

lemma lowest_free_insert:
  assumes "\<forall>a\<in>set xs. a < p" "p < e" "\<forall>b\<in>set ys. p < b" "is_free H p"
  shows "lowest_free H e (xs @ p # ys) = (if p < lowest_free H e (xs @ ys) then p else lowest_free H e (xs @ ys))"
  using assms lowest_free_in [of H e ys] by (induction xs) auto

lemma lowest_free_cong: "(\<And>b. b \<in> set bs \<Longrightarrow> is_free H' b = is_free H b) \<Longrightarrow> lowest_free H' e bs = lowest_free H e bs"
  by (induction bs) auto

lemma heap_core_bounds:
  assumes "heap_core h (xs @ p # ys)"
  shows "\<forall>a\<in>set xs. a + 12 \<le> p" "p + 12 < nxt (hdr h p)" "\<forall>b\<in>set ys. nxt (hdr h p) \<le> b" "nxt (hdr h p) \<le> heap_end h" "heap_end h < 2 ^ 32"
    "4 dvd p" "4 dvd nxt (hdr h p)"
proof -
  have l: "linked (hdr h) 0 0 p xs" "linked (hdr h) p (nxt (hdr h p)) (heap_end h) ys"
    using assms by (simp_all add: heap_core_def linked_mid)
  show "\<forall>a\<in>set xs. a + 12 \<le> p" "\<forall>b\<in>set ys. nxt (hdr h p) \<le> b" "nxt (hdr h p) \<le> heap_end h"
    using linked_bounds [OF l(1)] linked_bounds [OF l(2)] by auto
  show "p + 12 < nxt (hdr h p)" "heap_end h < 2 ^ 32" "4 dvd p" "4 dvd nxt (hdr h p)"
    using assms linked_aligned [of "hdr h" 0 0 "heap_end h" "xs @ p # ys"] by (auto simp: heap_core_def heap_frame_def linked_mid)
qed

lemma linked_upd_used: "linked (H(p := (H p)\<lparr>used := v, magic := HEAP_MAGIC\<rparr>)) pv q e bs = linked H pv q e bs" if "magic (H p) = HEAP_MAGIC"
proof -
  have "linked G' pv q e bs" if "linked G pv q e bs" "\<And>b. prv (G' b) = prv (G b) \<and> magic (G' b) = magic (G b) \<and> nxt (G' b) = nxt (G b)" for G G'
    using linked_cong [of bs G' G] that by blast
  from this [of H "H(p := (H p)\<lparr>used := v, magic := HEAP_MAGIC\<rparr>)"] this [of "H(p := (H p)\<lparr>used := v, magic := HEAP_MAGIC\<rparr>)" H]
  show ?thesis
    using that by auto
qed

lemma free_core:
  assumes "heap_core h (xs @ p # ys)" "\<not> is_free (hdr h) p"
  defines "H \<equiv> (hdr h)(p := (hdr h p)\<lparr>used := 0, magic := HEAP_MAGIC\<rparr>)"
  shows "heap_core (h\<lparr>hdr := H, lfree := (if p < lfree h then p else lfree h), used_mem := used_mem h - (nxt (hdr h p) - p)\<rparr>) (xs @ p # ys)"
    and "used_blocks (hdr h) (xs @ p # ys) = used_blocks H xs @ (p, nxt (hdr h p) - p) # used_blocks H ys"
    and "is_free H p" "p \<notin> set (xs @ ys)"
proof -
  note b = heap_core_bounds [OF assms(1)]
  show p: "p \<notin> set (xs @ ys)"
    using b(1,2,3) by fastforce
  have same: "H c = hdr h c" if "c \<noteq> p" for c
    using that by (simp add: H_def)
  have ub: "used_blocks H zs = used_blocks (hdr h) zs" if "p \<notin> set zs" for zs
    using that same by (intro used_blocks_cong) metis
  show free: "is_free H p"
    by (simp add: H_def)
  show u: "used_blocks (hdr h) (xs @ p # ys) = used_blocks H xs @ (p, nxt (hdr h p) - p) # used_blocks H ys"
    using assms(2) ub p by simp
  have "lowest_free H (heap_end h) (xs @ ys) = lowest_free (hdr h) (heap_end h) (xs @ ys)"
    using p same by (intro lowest_free_cong) metis
  also have "\<dots> = lowest_free (hdr h) (heap_end h) (xs @ p # ys)"
    using assms(2) by (simp add: lowest_free_append)
  finally have "lowest_free H (heap_end h) (xs @ p # ys) = (if p < lfree h then p else lfree h)"
    using lowest_free_insert [of xs p "heap_end h" ys H] b(1-4) free assms(1) by (fastforce simp: heap_core_def)
  moreover have "linked H 0 0 (heap_end h) (xs @ p # ys)"
    using assms(1) linked_upd_used [of "hdr h" p 0] by (simp add: heap_core_def H_def linked_mid)
  moreover have "H (heap_end h) = hdr h (heap_end h)"
    using b(2,4) by (intro same) simp
  moreover have "used_span H (xs @ p # ys) = used_mem h - (nxt (hdr h p) - p)"
    using assms(1,2) ub p free by (simp add: heap_core_def used_span_def)
  ultimately show "heap_core (h\<lparr>hdr := H, lfree := (if p < lfree h then p else lfree h), used_mem := used_mem h - (nxt (hdr h p) - p)\<rparr>) (xs @ p # ys)"
    using assms(1) by (auto simp: heap_core_def)
qed

lemma free_inv:
  assumes "heap_inv h bs" "live h a = Some n"
  obtains h' bs' where "rt_free a h = Some h'" "heap_inv h' bs'" "live h' = (live h)(a := None)" "same_place h h'" "bytes h' = bytes h"
proof -
  have core: "heap_core h bs" and n2: "no_two_free (hdr h) bs" and sem: "heap_sem h = 1"
    using assms(1) by (simp_all add: heap_inv_def)
  obtain xs p ys where bs: "bs = xs @ p # ys" and p: "\<not> is_free (hdr h) p" "a = heap_ptr h + p + 12"
    by (rule live_cases [OF core assms(2)])
  note core = core [unfolded bs]
  note b = heap_core_bounds [OF core]
  define H where "H = (hdr h)(p := (hdr h p)\<lparr>used := 0, magic := HEAP_MAGIC\<rparr>)"
  define h1 where "h1 = h\<lparr>heap_sem := 0, hdr := H, lfree := (if p < lfree h then p else lfree h), used_mem := used_mem h - (nxt (hdr h p) - p)\<rparr>"
  note fc = free_core [OF core p(1), folded H_def]
  have c1: "heap_core h1 (xs @ p # ys)"
    using fc(1) by (simp add: h1_def heap_core_def)
  have "no_two_free H xs" "no_two_free H ys"
    using no_two_free_parts [OF n2 [unfolded bs]] fc(4) by (auto simp: H_def elim!: no_two_free_cong [rotated] split: if_splits)
  then obtain h2 bs' where g: "plug_holes p h1 = Some h2" "heap_core h2 bs'" "no_two_free (hdr h2) bs'"
    "used_blocks (hdr h2) bs' = used_blocks (hdr h1) (xs @ p # ys)" "same_place h1 h2" "heap_sem h2 = heap_sem h1" "bytes h2 = bytes h1"
    using plug_holes_core [OF c1] fc(3) by (auto simp: h1_def)
  have place: "same_place h h2" "bytes h2 = bytes h" "heap_sem h2 = 0"
    using g(5-7) by (simp_all add: h1_def same_place_def)
  have "p \<notin> fst ` set (used_blocks H xs @ used_blocks H ys)"
    using fc(4) used_blocks_fst [of H xs] used_blocks_fst [of H ys] by auto
  note ins = addresses_insert [OF this, of "heap_ptr h"]
  have "live h = addresses (heap_ptr h) (used_blocks H xs @ (p, nxt (hdr h p) - p) # used_blocks H ys)"
    using live_core [OF core] fc(2) by simp
  moreover have "live h2 = addresses (heap_ptr h) (used_blocks H xs @ used_blocks H ys)"
    using live_core [OF g(2)] g(4) fc(3) place(1) by (simp add: same_place_def h1_def)
  ultimately have live: "live h2 = (live h)(a := None)"
    using ins p(2) by (auto simp: fun_eq_iff)
  have "used_mem h \<le> heap_end h"
    using core used_span_bound [of "hdr h" 0 0 "heap_end h" "xs @ p # ys"] by (simp add: heap_core_def)
  moreover have "nxt (hdr h p) - p \<le> used_mem h"
    using core p(1) by (simp add: heap_core_def used_span_def)
  ultimately have "sub32 (used_mem h) (sub32 (nxt (hdr h p)) p) = used_mem h - (nxt (hdr h p) - p)"
    using b by (simp add: sub32_small)
  moreover have "magic (hdr h p) = HEAP_MAGIC" "heap_frame h"
    using core by (simp_all add: heap_core_def linked_mid)
  ultimately have "rt_free a h = Some (heap_release h2)"
    using sem p b g(1) by (auto simp: rt_free_def heap_take_def set_hdr_def Let_def h1_def H_def heap_frame_def)
  then show ?thesis
    using that [of "heap_release h2" bs'] g(2,3) live place by (auto simp: heap_release_def heap_inv_def same_place_def)
qed

section \<open>Allocating\<close>

definition fits :: "heap \<Rightarrow> nat \<Rightarrow> nat \<Rightarrow> bool" where
  "fits h sz p \<longleftrightarrow> is_free (hdr h) p \<and> p + SIZEOF_STRUCT_MEM + sz \<le> nxt (hdr h p) \<and> p < mem_size_aligned h - sz"

text \<open>The search returns, and finds the first block that fits.\<close>

lemma find_fit_linked:
  assumes "linked (hdr h) pv p (heap_end h) bs" "heap_frame h" "sz \<le> mem_size_aligned h"
  shows "find_fit h sz p = Some (find (fits h sz) bs)"
  using assms(1)
proof (induction bs arbitrary: pv p)
  case Nil
  then show ?case
    using assms(2,3) by (subst find_fit.simps) (auto simp: heap_frame_def sub32_small)
next
  case (Cons b bs)
  have l: "b = p" "p + 12 \<le> nxt (hdr h p)" "linked (hdr h) p (nxt (hdr h p)) (heap_end h) bs"
    using Cons.prems by simp_all
  have e: "nxt (hdr h p) \<le> heap_end h" and above: "\<forall>c\<in>set bs. nxt (hdr h p) \<le> c"
    using linked_bounds [OF l(3)] by auto
  have lim: "sub32 (mem_size_aligned h) sz = mem_size_aligned h - sz" and room: "room h p = nxt (hdr h p) - (p + 12)"
    using assms(2,3) l e by (simp_all add: heap_frame_def room_def sub32_small)
  show ?case
  proof (cases "p < mem_size_aligned h - sz")
    case False
    then have "find (fits h sz) (b # bs) = None"
      using l above by (auto simp: find_None_iff fits_def)
    then show ?thesis
      using False lim by (simp add: find_fit.simps [of h sz p])
  next
    case True
    then have "(is_free (hdr h) p \<and> room h p \<ge> sz) = fits h sz p"
      using l(2) room by (auto simp: fits_def)
    then show ?thesis
      using Cons.IH [OF l(3)] l(1) lim True by (subst find_fit.simps) simp
  qed
qed

lemma next_free_linked:
  assumes "linked (hdr h) pv p (heap_end h) bs"
  shows "next_free h p = Some (lowest_free (hdr h) (heap_end h) bs)"
  using assms
proof (induction bs arbitrary: pv p)
  case Nil
  then show ?case
    by (simp add: next_free.simps)
next
  case (Cons b bs)
  moreover have "p \<noteq> heap_end h"
    using linked_bounds [OF Cons.prems] by auto
  ultimately show ?case
    by (subst next_free.simps) auto
qed

definition heap_static :: "heap \<Rightarrow> heap \<Rightarrow> bool" where
  "heap_static h h' \<longleftrightarrow> same_place h h' \<and> bytes h' = bytes h \<and> heap_sem h' = heap_sem h"

text \<open>The header store after a block was split and its first part taken, or the whole block taken.\<close>

definition taken_hdr :: "heap \<Rightarrow> nat \<Rightarrow> nat \<Rightarrow> nat \<Rightarrow> heap_mem" where
  "taken_hdr h p sz =
     (let H = (if p + sz + 36 \<le> nxt (hdr h p) then split_hdr (heap_end h) p (p + 12 + sz) (hdr h) else hdr h)
      in H(p := (H p)\<lparr>used := 1, magic := HEAP_MAGIC\<rparr>))"

definition taken_blocks :: "heap \<Rightarrow> nat \<Rightarrow> nat \<Rightarrow> nat list" where
  "taken_blocks h p sz = (if p + sz + 36 \<le> nxt (hdr h p) then [p, p + 12 + sz] else [p])"

definition taken_span :: "heap \<Rightarrow> nat \<Rightarrow> nat \<Rightarrow> nat" where
  "taken_span h p sz = (if p + sz + 36 \<le> nxt (hdr h p) then sz + 12 else nxt (hdr h p) - p)"

lemma taken_upd [simp]:
  "taken_hdr (h\<lparr>heap_sem := v\<rparr>) = taken_hdr h" "taken_span (h\<lparr>heap_sem := v\<rparr>) = taken_span h"
  by (simp_all add: taken_hdr_def taken_span_def fun_eq_iff)

lemma taken_linked:
  assumes "heap_core h (xs @ p # ys)" "4 dvd sz" "p + 12 + sz \<le> nxt (hdr h p)" "0 < sz"
  defines "H \<equiv> taken_hdr h p sz"
  shows "linked H 0 0 (heap_end h) (xs @ taken_blocks h p sz @ ys)"
    and "\<And>b. b \<in> set (xs @ ys) \<Longrightarrow> is_free H b = is_free (hdr h) b \<and> nxt (H b) = nxt (hdr h b)"
    and "\<not> is_free H p" "p + sz + 36 \<le> nxt (hdr h p) \<Longrightarrow> is_free H (p + 12 + sz)" "nxt (H p) - p = taken_span h p sz"
    and "is_free H (heap_end h) = is_free (hdr h) (heap_end h)"
proof -
  note b = heap_core_bounds [OF assms(1)]
  have l: "linked (hdr h) 0 0 (heap_end h) (xs @ p # ys)" and m: "magic (hdr h p) = HEAP_MAGIC"
    using assms(1) by (simp_all add: heap_core_def linked_mid)
  have sep: "c \<noteq> p \<and> (c + 12 \<le> p \<or> nxt (hdr h p) \<le> c)" if "c \<in> set (xs @ ys)" for c
    using that b(1-3) by fastforce
  show "linked H 0 0 (heap_end h) (xs @ taken_blocks h p sz @ ys)"
  proof (cases "p + sz + 36 \<le> nxt (hdr h p)")
    case True
    let ?H = "split_hdr (heap_end h) p (p + 12 + sz) (hdr h)"
    have "linked ?H 0 0 (heap_end h) (xs @ p # (p + 12 + sz) # ys)"
      using l True assms(2,4) b(6) by (intro linked_split) auto
    moreover from this have "magic (?H p) = HEAP_MAGIC"
      by (simp add: linked_mid)
    ultimately show ?thesis
      using linked_upd_used [of ?H p 1] True by (simp add: H_def taken_hdr_def taken_blocks_def Let_def)
  next
    case False
    then show ?thesis
      using linked_upd_used [of "hdr h" p 1] l m by (simp add: H_def taken_hdr_def taken_blocks_def Let_def)
  qed
  show "is_free H c = is_free (hdr h) c \<and> nxt (H c) = nxt (hdr h c)" if "c \<in> set (xs @ ys)" for c
    using sep [OF that] by (auto simp: H_def taken_hdr_def split_hdr_def Let_def)
  show "\<not> is_free H p" "nxt (H p) - p = taken_span h p sz" "p + sz + 36 \<le> nxt (hdr h p) \<Longrightarrow> is_free H (p + 12 + sz)"
    "is_free H (heap_end h) = is_free (hdr h) (heap_end h)"
    using b(2,4) by (auto simp: H_def taken_hdr_def split_hdr_def taken_span_def Let_def)
qed

lemma taken_core:
  assumes "heap_core h (xs @ p # ys)" "no_two_free (hdr h) (xs @ p # ys)" "is_free (hdr h) p" "4 dvd sz" "p + 12 + sz \<le> nxt (hdr h p)" "0 < sz"
  defines "H \<equiv> taken_hdr h p sz" and "bs \<equiv> xs @ taken_blocks h p sz @ ys" and "u \<equiv> used_mem h + taken_span h p sz"
  shows "heap_core (h\<lparr>hdr := H, used_mem := u, max_mem := max u (max_mem h), lfree := lowest_free H (heap_end h) bs\<rparr>) bs"
    and "no_two_free H bs" "used_blocks H bs = used_blocks H xs @ (p, taken_span h p sz) # used_blocks H ys"
    and "used_blocks (hdr h) (xs @ p # ys) = used_blocks H xs @ used_blocks H ys"
proof -
  note t = taken_linked [OF assms(1,4,5,6), folded H_def]
  have ub: "used_blocks H zs = used_blocks (hdr h) zs" if "set zs \<subseteq> set (xs @ ys)" for zs
    using t(2) that by (intro used_blocks_cong) blast
  show old: "used_blocks (hdr h) (xs @ p # ys) = used_blocks H xs @ used_blocks H ys"
    using assms(3) ub by simp
  show new: "used_blocks H bs = used_blocks H xs @ (p, taken_span h p sz) # used_blocks H ys"
    using t(3-5) by (simp add: bs_def taken_blocks_def)
  have parts: "no_two_free (hdr h) xs" "no_two_free (hdr h) ys" "ys \<noteq> [] \<Longrightarrow> \<not> is_free (hdr h) (hd ys)"
    using no_two_free_parts [OF assms(2)] assms(2,3) by (auto simp: no_two_free_def successively_append_iff successively_Cons)
  have "no_two_free H xs" "no_two_free H ys" "ys \<noteq> [] \<Longrightarrow> \<not> is_free H (hd ys)"
    using parts t(2) by (auto elim!: no_two_free_cong [rotated])
  then show "no_two_free H bs"
    using t(3,4) by (auto simp: bs_def taken_blocks_def no_two_free_def successively_append_iff successively_Cons)
  show "heap_core (h\<lparr>hdr := H, used_mem := u, max_mem := max u (max_mem h), lfree := lowest_free H (heap_end h) bs\<rparr>) bs"
    using assms(1) t(1,6) new old by (simp add: heap_core_def used_span_def u_def bs_def del: used_blocks_simps)
qed

lemma occupy_taken:
  assumes "heap_core h (xs @ p # ys)" "p + 12 + sz \<le> nxt (hdr h p)" "used_mem h + taken_span h p sz < 2 ^ 32"
  shows "occupy p sz h = h\<lparr>hdr := taken_hdr h p sz, used_mem := used_mem h + taken_span h p sz,
    max_mem := max (used_mem h + taken_span h p sz) (max_mem h)\<rparr>"
proof -
  note b = heap_core_bounds [OF assms(1)]
  have e: "heap_end h = mem_size_aligned h + 12"
    using assms(1) by (simp add: heap_core_def heap_frame_def)
  have r: "room h p = nxt (hdr h p) - (p + 12)" "sub32 (nxt (hdr h p)) p = nxt (hdr h p) - p"
    using b by (simp_all add: room_def sub32_small)
  have count: "count_used k g = g\<lparr>used_mem := used_mem g + k, max_mem := max (used_mem g + k) (max_mem g)\<rparr>" if "used_mem g + k < 2 ^ 32" for k g
    using that by (simp add: count_used_def Let_def max_def)
  show ?thesis
  proof (cases "p + sz + 36 \<le> nxt (hdr h p)")
    case True
    then have "taken_span h p sz = sz + 12" "room h p \<ge> sz + 12 + 12"
      using r by (simp_all add: taken_span_def)
    then show ?thesis
      using True assms(3) b e by (auto simp: occupy_def Let_def set_hdr_def count taken_hdr_def split_hdr_def fun_eq_iff)
  next
    case False
    then have "taken_span h p sz = nxt (hdr h p) - p" "\<not> room h p \<ge> sz + 12 + 12"
      using r b(2) by (simp_all add: taken_span_def)
    then show ?thesis
      using False assms(3) r by (simp add: occupy_def Let_def set_hdr_def count taken_hdr_def)
  qed
qed

text \<open>The size \<open>rt_malloc\<close> looks for.\<close>

definition malloc_size :: "nat \<Rightarrow> nat" where
  "malloc_size n = max MIN_SIZE_ALIGNED (RT_ALIGN n)"

lemma RT_ALIGN_bounds: "n + 3 < 2 ^ 32 \<Longrightarrow> n \<le> RT_ALIGN n \<and> RT_ALIGN n < n + 4" "4 dvd RT_ALIGN n"
  by (auto simp: RT_ALIGN_def)

lemma malloc_size_props: "4 dvd malloc_size n" "0 < malloc_size n" "n + 3 < 2 ^ 32 \<Longrightarrow> n \<le> malloc_size n"
  using RT_ALIGN_bounds [of n] by (auto simp: malloc_size_def max_def)

lemma find_from_lowest:
  assumes "heap_core h bs" "sz \<le> mem_size_aligned h"
  shows "find_fit h sz (lfree h) = Some (find (fits h sz) bs)"
proof -
  define xs ys where "xs = takeWhile (\<lambda>b. \<not> is_free (hdr h) b) bs" and "ys = dropWhile (\<lambda>b. \<not> is_free (hdr h) b) bs"
  have bs: "bs = xs @ ys" and free: "\<And>x. x \<in> set xs \<Longrightarrow> \<not> is_free (hdr h) x"
    by (auto simp: xs_def ys_def dest: set_takeWhileD)
  have core: "linked (hdr h) 0 0 (heap_end h) (xs @ ys)" "heap_frame h" "lfree h = lowest_free (hdr h) (heap_end h) (xs @ ys)"
    using assms(1) by (simp_all add: heap_core_def bs)
  have skip: "lowest_free H l zs = l" if "\<And>x. x \<in> set zs \<Longrightarrow> \<not> is_free H x" for H l zs
    using that by (induction zs) auto
  obtain q where q: "linked (hdr h) (last (0 # xs)) q (heap_end h) ys"
    using core(1) by (auto simp: linked_append)
  have "is_free (hdr h) (hd ys)" if "ys \<noteq> []"
    using that hd_dropWhile [of "\<lambda>b. \<not> is_free (hdr h) b" bs] by (simp add: ys_def)
  then have "lfree h = q"
    using core(3) skip [of xs "hdr h"] free q by (cases ys) (auto simp: lowest_free_append)
  moreover have "find (fits h sz) bs = find (fits h sz) ys"
    using free unfolding bs by (induction xs) (auto simp: fits_def)
  ultimately show ?thesis
    using find_fit_linked [OF q core(2) assms(2)] by simp
qed

lemma malloc_size_room: "heap_frame h \<Longrightarrow> RT_ALIGN n \<le> mem_size_aligned h \<Longrightarrow> malloc_size n \<le> mem_size_aligned h"
  by (simp add: malloc_size_def heap_frame_def)

lemma rt_malloc_unfold:
  assumes "heap_inv h bs" "0 < n" "RT_ALIGN n \<le> mem_size_aligned h"
  defines "h1 \<equiv> h\<lparr>heap_sem := 0\<rparr>"
  shows "rt_malloc n h = (case find (fits h (malloc_size n)) bs of None \<Rightarrow> Some (0, h)
    | Some p \<Rightarrow>
        let h2 = occupy p (malloc_size n) h1 in
        do { h3 \<leftarrow> (if p = lfree h2
                   then do { l \<leftarrow> next_free h2 p;
                             if l = heap_end h2 \<or> used (hdr h2 l) = 0 then Some (h2\<lparr>lfree := l\<rparr>) else None }
                   else Some h2);
             if p + SIZEOF_STRUCT_MEM + malloc_size n \<le> heap_end h3 \<and>
                (heap_ptr h3 + p + SIZEOF_STRUCT_MEM) mod 4 = 0 \<and> (heap_ptr h3 + p) mod 4 = 0
             then Some (heap_ptr h3 + p + SIZEOF_STRUCT_MEM, heap_release h3) else None })"
proof -
  have core: "heap_core h bs" "heap_sem h = 1" "heap_frame h"
    using assms(1) by (simp_all add: heap_inv_def heap_core_def)
  have "find_fit h1 (malloc_size n) (lfree h1) = Some (find (fits h1 (malloc_size n)) bs)"
    using find_from_lowest [of h1 bs "malloc_size n"] malloc_size_room [OF core(3) assms(3)] core(1) by (simp add: h1_def)
  moreover have "fits h1 sz = fits h sz" for sz
    by (rule ext) (simp add: fits_def h1_def)
  moreover have "(if RT_ALIGN n < 12 then 12 else RT_ALIGN n) = malloc_size n"
    by (simp add: malloc_size_def)
  moreover have "h\<lparr>heap_sem := Suc 0\<rparr> = h"
    using core(2) by simp
  ultimately show ?thesis
    using assms(2,3) core(2) by (simp add: rt_malloc_def heap_take_def heap_release_def h1_def Let_def split: option.splits)
qed

lemma malloc_null:
  assumes "heap_inv h bs" "find (fits h (malloc_size n)) bs = None"
  shows "rt_malloc n h = Some (0, h)"
proof (cases "n = 0 \<or> RT_ALIGN n > mem_size_aligned h")
  case False
  then show ?thesis
    using rt_malloc_unfold [OF assms(1), of n] assms(2) by simp
qed (auto simp: rt_malloc_def)

lemma lowest_free_skip: "lowest_free H l zs = l \<Longrightarrow> l \<notin> set zs \<Longrightarrow> lowest_free H l' zs = l'"
  by (induction zs) (auto split: if_splits)

lemma lowest_free_taken:
  assumes "heap_core h (xs @ p # ys)" "is_free (hdr h) p" "4 dvd sz" "p + 12 + sz \<le> nxt (hdr h p)" "0 < sz" "p \<noteq> lfree h"
  shows "lowest_free (taken_hdr h p sz) (heap_end h) (xs @ taken_blocks h p sz @ ys) = lfree h"
proof -
  have l: "lfree h = lowest_free (hdr h) p xs"
    using assms(1,2) by (simp add: heap_core_def lowest_free_append)
  have "lowest_free (taken_hdr h p sz) e xs = lowest_free (hdr h) e xs" for e
    using taken_linked(2) [OF assms(1,3,4,5)] by (intro lowest_free_cong) auto
  moreover have "lowest_free H e zs = lowest_free H e' zs" if "lowest_free H e zs \<noteq> e" for H e e' zs
    using that by (induction zs) (auto split: if_splits)
  ultimately show ?thesis
    using l assms(6) by (metis lowest_free_append)
qed

lemma next_free_taken:
  assumes "heap_core h (xs @ p # ys)" "is_free (hdr h) p" "4 dvd sz" "p + 12 + sz \<le> nxt (hdr h p)" "0 < sz" "p = lfree h"
    and "hdr h2 = taken_hdr h p sz" "heap_end h2 = heap_end h"
  shows "next_free h2 p = Some (lowest_free (taken_hdr h p sz) (heap_end h) (xs @ taken_blocks h p sz @ ys))"
proof -
  let ?H = "taken_hdr h p sz"
  note t = taken_linked [OF assms(1,3,4,5)]
  have "p \<notin> set xs" "lowest_free (hdr h) p xs = p"
    using heap_core_bounds(1) [OF assms(1)] assms(1,2,6) by (auto simp: heap_core_def lowest_free_append)
  moreover have "lowest_free ?H e xs = lowest_free (hdr h) e xs" for e
    using t(2) by (intro lowest_free_cong) auto
  ultimately have "lowest_free ?H (heap_end h) (xs @ taken_blocks h p sz @ ys) = lowest_free ?H (heap_end h) (taken_blocks h p sz @ ys)"
    using lowest_free_skip [of "hdr h" p xs] by (simp add: lowest_free_append)
  moreover obtain q where "linked ?H (last (0 # xs)) q (heap_end h) (taken_blocks h p sz @ ys)"
    using t(1) unfolding linked_append [of _ _ _ _ xs] by blast
  moreover from this have "q = p"
    by (simp add: taken_blocks_def split: if_splits)
  ultimately show ?thesis
    using next_free_linked [of h2] assms(7,8) by simp
qed

lemma malloc_found:
  assumes "heap_inv h bs" "0 < n" "RT_ALIGN n \<le> mem_size_aligned h" "find (fits h (malloc_size n)) bs = Some p"
  obtains h' bs' where "rt_malloc n h = Some (heap_ptr h + p + 12, h')" "heap_inv h' bs'" "heap_static h h'"
    "live h' = (live h)(heap_ptr h + p + 12 \<mapsto> taken_span h p (malloc_size n) - 12)" "live h (heap_ptr h + p + 12) = None"
    "p + 12 + malloc_size n \<le> nxt (hdr h p)" "p \<in> set bs" "malloc_size n + 12 \<le> taken_span h p (malloc_size n)"
proof -
  let ?sz = "malloc_size n"
  have core: "heap_core h bs" and n2: "no_two_free (hdr h) bs" and sem: "heap_sem h = 1" and frame: "heap_frame h"
    using assms(1) by (simp_all add: heap_inv_def heap_core_def)
  obtain i where i: "i < length bs" "bs ! i = p" "fits h ?sz p"
    using assms(4) by (auto simp: find_Some_iff)
  then obtain xs ys where bs: "bs = xs @ p # ys"
    by (metis id_take_nth_drop)
  have f: "is_free (hdr h) p" "p + 12 + ?sz \<le> nxt (hdr h p)"
    using i(3) by (simp_all add: fits_def)
  note core = core [unfolded bs] and sz = malloc_size_props(1,2) [of n]
  note b = heap_core_bounds [OF core]
  define u where "u = used_mem h + taken_span h p ?sz"
  define H where "H = taken_hdr h p ?sz"
  define bs' where "bs' = xs @ taken_blocks h p ?sz @ ys"
  define h2 where "h2 = h\<lparr>heap_sem := 0, hdr := H, used_mem := u, max_mem := max u (max_mem h)\<rparr>"
  define h3 where "h3 = h\<lparr>hdr := H, used_mem := u, max_mem := max u (max_mem h), lfree := lowest_free H (heap_end h) bs'\<rparr>"
  note t = taken_core [OF core n2 [unfolded bs] f(1) sz(1) f(2) sz(2), folded H_def bs'_def u_def h3_def]
  have l': "linked H 0 0 (heap_end h) bs'"
    using t(1) by (simp add: heap_core_def h3_def)
  have "u \<le> heap_end h"
    using t(1) used_span_bound [OF l'] by (simp add: heap_core_def h3_def)
  then have "occupy p ?sz (h\<lparr>heap_sem := 0\<rparr>) = h2"
    using occupy_taken [of "h\<lparr>heap_sem := 0\<rparr>" xs p ys ?sz] core f(2) b(5)
    by (simp add: h2_def u_def H_def)
  moreover have "next_free h2 p = Some (lowest_free H (heap_end h) bs')" if "p = lfree h"
    using next_free_taken [OF core f(1) sz(1) f(2) sz(2) that, of h2] by (simp add: h2_def H_def bs'_def)
  moreover have "lowest_free H (heap_end h) bs' = heap_end h \<or> is_free H (lowest_free H (heap_end h) bs')"
    by (induction bs') auto
  moreover have "lowest_free H (heap_end h) bs' = lfree h" if "p \<noteq> lfree h"
    using lowest_free_taken [OF core f(1) sz(1) f(2) sz(2) that] by (simp add: H_def bs'_def)
  moreover have "(heap_ptr h + p) mod 4 = 0" "(heap_ptr h + p + 12) mod 4 = 0"
    using frame b(6) by (auto simp: heap_frame_def)
  ultimately have m: "rt_malloc n h = Some (heap_ptr h + p + 12, h3)"
    using rt_malloc_unfold [OF assms(1-3)] assms(4) sem f(2) b(4)
    by (auto simp: h2_def h3_def heap_release_def Let_def)
  have "p \<notin> fst ` set (used_blocks H xs @ used_blocks H ys)"
    using b(1-3) used_blocks_fst [of H xs] used_blocks_fst [of H ys] by fastforce
  note ins = addresses_insert [OF this, of "heap_ptr h"]
  have "live h = addresses (heap_ptr h) (used_blocks H xs @ used_blocks H ys)"
    using live_core [OF core] t(4) by simp
  moreover have "live h3 = addresses (heap_ptr h) (used_blocks H xs @ (p, taken_span h p ?sz) # used_blocks H ys)"
    using live_core [OF t(1)] t(3) by (simp add: h3_def)
  moreover have "?sz + 12 \<le> taken_span h p ?sz"
    using f(2) by (auto simp: taken_span_def)
  moreover have "heap_inv h3 bs'" "heap_static h h3"
    using t(1,2) sem by (simp_all add: heap_inv_def heap_static_def same_place_def h3_def)
  ultimately show ?thesis
    using that [of h3 bs'] m ins f(2) bs by simp
qed

section \<open>What the client sees\<close>

lemma live_region:
  assumes "heap_core h bs" "live h a = Some n"
  shows "heap_ptr h + 12 \<le> a" "a + n \<le> heap_ptr h + heap_end h" "0 < n" "a mod 4 = 0" "n mod 4 = 0"
proof -
  obtain xs p ys where p: "bs = xs @ p # ys" "a = heap_ptr h + p + 12" "n = nxt (hdr h p) - p - 12"
    by (rule live_cases [OF assms])
  note b = heap_core_bounds [OF assms(1) [unfolded p(1)]]
  have "4 dvd heap_ptr h" "4 dvd (nxt (hdr h p) - p)"
    using assms(1) b(6,7) by (auto simp: heap_core_def heap_frame_def)
  then show "heap_ptr h + 12 \<le> a" "a + n \<le> heap_ptr h + heap_end h" "0 < n" "a mod 4 = 0" "n mod 4 = 0"
    using p b by (auto simp: dvd_diff_nat)
qed

lemma live_apart:
  assumes "heap_core h bs" "live h a = Some n" "live h b = Some m" "a < b"
  shows "a + n + 12 \<le> b"
proof -
  obtain xs p ys where p: "bs = xs @ p # ys" "a = heap_ptr h + p + 12" "n = nxt (hdr h p) - p - 12"
    by (rule live_cases [OF assms(1,2)])
  obtain xs' q ys' where q: "bs = xs' @ q # ys'" "b = heap_ptr h + q + 12"
    by (rule live_cases [OF assms(1,3)])
  note b = heap_core_bounds [OF assms(1) [unfolded p(1)]]
  have "q \<in> set (xs @ p # ys)"
    using p(1) q(1) by (metis in_set_conv_decomp)
  then have "q \<in> set ys"
    using b(1) assms(4) p(2) q(2) by fastforce
  then show ?thesis
    using b(2,3) p q by fastforce
qed

lemma live_finite: "finite (dom (live h))"
  by (simp add: live_def addresses_def finite_dom_map_of)

lemma split_core:
  assumes "heap_core h (xs @ p # ys)" "\<not> is_free (hdr h) p" "0 < k" "4 dvd k" "p + k + 36 < nxt (hdr h p)"
  defines "p2 \<equiv> p + 12 + k"
  defines "H \<equiv> split_hdr (heap_end h) p p2 (hdr h)"
  shows "heap_core (h\<lparr>hdr := H, lfree := (if p2 < lfree h then p2 else lfree h), used_mem := used_mem h - (nxt (hdr h p) - p - 12 - k)\<rparr>) (xs @ p # p2 # ys)"
    and "used_blocks H (xs @ p # p2 # ys) = used_blocks H xs @ (p, k + 12) # used_blocks H ys"
    and "used_blocks (hdr h) (xs @ p # ys) = used_blocks H xs @ (p, nxt (hdr h p) - p) # used_blocks H ys"
    and "is_free H p2" "\<And>c. c \<in> set (xs @ p # ys) \<Longrightarrow> is_free H c = is_free (hdr h) c"
proof -
  note b = heap_core_bounds [OF assms(1)]
  have same: "is_free H c = is_free (hdr h) c \<and> (c \<noteq> p \<longrightarrow> nxt (H c) = nxt (hdr h c))" if "c \<noteq> p2" for c
    using that by (auto simp: H_def split_hdr_def Let_def)
  have p2: "p2 \<notin> set (xs @ ys)" "p < p2" "p2 < nxt (hdr h p)" "p \<notin> set (xs @ ys)"
    using b(1-3) assms(5) by (fastforce simp: p2_def)+
  show old: "is_free H c = is_free (hdr h) c" if "c \<in> set (xs @ p # ys)" for c
  proof -
    have "c \<noteq> p2"
      using that p2 by auto
    then show ?thesis
      using same by blast
  qed
  have "used_blocks H zs = used_blocks (hdr h) zs" if "p2 \<notin> set zs" "p \<notin> set zs" for zs
    using that same by (intro used_blocks_cong) metis
  then have ub: "used_blocks H xs = used_blocks (hdr h) xs" "used_blocks H ys = used_blocks (hdr h) ys"
    using p2 by simp_all
  have nx: "nxt (H p) = p2" "is_free H p2"
    using p2 by (auto simp: H_def split_hdr_def Let_def)
  show "is_free H p2"
    by (rule nx)
  show u1: "used_blocks H (xs @ p # p2 # ys) = used_blocks H xs @ (p, k + 12) # used_blocks H ys"
    using nx old assms(2) by (simp add: p2_def)
  show u2: "used_blocks (hdr h) (xs @ p # ys) = used_blocks H xs @ (p, nxt (hdr h p) - p) # used_blocks H ys"
    using assms(2) ub by simp
  have "lowest_free H (heap_end h) (xs @ p # ys) = lfree h"
    using lowest_free_cong [of "xs @ p # ys" H "hdr h"] old assms(1) by (simp add: heap_core_def)
  then have "lowest_free H (heap_end h) ((xs @ [p]) @ p2 # ys) = (if p2 < lfree h then p2 else lfree h)"
    using lowest_free_insert [of "xs @ [p]" p2 "heap_end h" ys H] b(1-4) p2 nx(2) by fastforce
  moreover have "linked H 0 0 (heap_end h) (xs @ p # p2 # ys)"
    using assms(1,3-5) b(6) unfolding H_def by (intro linked_split) (auto simp: heap_core_def p2_def)
  moreover have "is_free H (heap_end h) = is_free (hdr h) (heap_end h)"
    using same [of "heap_end h"] p2(3) b(4) by auto
  moreover have "used_span H (xs @ p # p2 # ys) = used_mem h - (nxt (hdr h p) - p - 12 - k)"
    using assms(1,5) u1 u2 by (simp add: heap_core_def used_span_def del: used_blocks_simps)
  ultimately show "heap_core (h\<lparr>hdr := H, lfree := (if p2 < lfree h then p2 else lfree h), used_mem := used_mem h - (nxt (hdr h p) - p - 12 - k)\<rparr>) (xs @ p # p2 # ys)"
    using assms(1) by (auto simp: heap_core_def)
qed

lemma set_hdr_size [simp]: "mem_size_aligned (set_hdr p f h) = mem_size_aligned h"
  by (simp add: set_hdr_def)

lemma realloc_block:
  assumes "heap_inv h bs" "live h a = Some n" "RT_ALIGN ns \<noteq> 0" "RT_ALIGN ns \<le> mem_size_aligned h"
    and "bs = xs @ p # ys" "a = heap_ptr h + p + 12" "n = nxt (hdr h p) - p - 12" "\<not> is_free (hdr h) p"
  shows "rt_realloc a ns h =
    (if n = RT_ALIGN ns then Some (a, h)
     else if RT_ALIGN ns + 24 < n
     then let p2 = p + 12 + RT_ALIGN ns in
       map_option (\<lambda>h'. (a, heap_release h')) (plug_holes p2 (h\<lparr>heap_sem := 0, used_mem := used_mem h - (n - RT_ALIGN ns),
         hdr := split_hdr (heap_end h) p p2 (hdr h), lfree := (if p2 < lfree h then p2 else lfree h)\<rparr>))
     else do { (nmem, g) \<leftarrow> rt_malloc (RT_ALIGN ns) h;
               if nmem \<noteq> 0
               then do { g' \<leftarrow> rt_free a (g\<lparr>bytes := rt_memcpy (bytes g) nmem a (min n (RT_ALIGN ns))\<rparr>); Some (nmem, g') }
               else Some (0, g) })"
proof -
  have core: "heap_core h bs" and sem: "heap_sem h = 1" and frame: "heap_frame h"
    using assms(1) by (simp_all add: heap_inv_def heap_core_def)
  note b = heap_core_bounds [OF core [unfolded assms(5)]] and r = live_region [OF core assms(2)]
  have "used_mem h \<le> heap_end h"
    using core used_span_bound [of "hdr h" 0 0 "heap_end h" bs] by (simp add: heap_core_def)
  moreover have "n \<le> used_mem h"
    using core assms(5,7,8) by (simp add: heap_core_def used_span_def)
  ultimately have u: "sub32 (used_mem h) (n - RT_ALIGN ns) = used_mem h - (n - RT_ALIGN ns)"
    using b(5) by (simp add: sub32_small)
  have sz: "sub32 (sub32 (nxt (hdr h p)) p) 12 = n"
    using b assms(7) by (simp add: sub32_small)
  have rel: "h\<lparr>heap_sem := Suc 0\<rparr> = h" and e: "mem_size_aligned h + 12 = heap_end h"
    and pos: "a \<noteq> 0" "\<not> a < heap_ptr h" "\<not> a < heap_ptr h + 12" "\<not> a \<ge> heap_ptr h + heap_end h"
    using sem frame r by (simp_all add: heap_frame_def)
  have off: "a - (12 + heap_ptr h) = p"
    using assms(6) by simp
  have "p \<noteq> nxt (hdr h p)"
    using b(2) by simp
  note ne = this
  have rel1: "heap_release (h\<lparr>heap_sem := 0\<rparr>) = h"
    using rel by (simp add: heap_release_def)
  note simps = rt_realloc_def heap_take_def sem sz off e
  consider "n = RT_ALIGN ns" | "RT_ALIGN ns + 24 < n" | "n \<noteq> RT_ALIGN ns" "\<not> RT_ALIGN ns + 24 < n"
    by linarith
  then show ?thesis
  proof cases
    case 1
    then show ?thesis
      using assms(3,4) pos by (simp add: simps rel1)
  next
    case 2
    have "used_mem h + RT_ALIGN ns - n = used_mem h - (n - RT_ALIGN ns)"
      using 2 by simp
    then show ?thesis
      using assms(3,4) pos ne 2 u by (simp add: simps Let_def set_hdr_def split_hdr_def)
  next
    case 3
    moreover have "(if n < RT_ALIGN ns then n else RT_ALIGN ns) = min n (RT_ALIGN ns)"
      by simp
    ultimately show ?thesis
      using assms(3,4) pos by (simp add: simps rel1 Let_def cong: if_cong split del: if_split)
  qed
qed

lemma shrink_inv:
  assumes "heap_inv h bs" "live h a = Some n" "RT_ALIGN ns \<noteq> 0" "RT_ALIGN ns + 24 < n"
  obtains h' bs' where "rt_realloc a ns h = Some (a, h')" "heap_inv h' bs'" "live h' = (live h)(a \<mapsto> RT_ALIGN ns)" "bytes h' = bytes h"
proof -
  let ?k = "RT_ALIGN ns"
  have core: "heap_core h bs" and n2: "no_two_free (hdr h) bs" and frame: "heap_frame h"
    using assms(1) by (simp_all add: heap_inv_def heap_core_def)
  obtain xs p ys where bs: "bs = xs @ p # ys" and p: "\<not> is_free (hdr h) p" "a = heap_ptr h + p + 12" "n = nxt (hdr h p) - p - 12"
    by (rule live_cases [OF core assms(2)])
  note core = core [unfolded bs]
  note b = heap_core_bounds [OF core]
  define p2 where "p2 = p + 12 + ?k"
  define H where "H = split_hdr (heap_end h) p p2 (hdr h)"
  define h1 where "h1 = h\<lparr>heap_sem := 0, used_mem := used_mem h - (n - ?k), hdr := H, lfree := (if p2 < lfree h then p2 else lfree h)\<rparr>"
  have k: "0 < ?k" "4 dvd ?k" "p + ?k + 36 < nxt (hdr h p)" "?k \<le> mem_size_aligned h"
    using assms(3,4) RT_ALIGN_bounds(2) p(3) b(2,4) frame by (auto simp: heap_frame_def)
  note sc = split_core [OF core p(1) k(1-3), folded p2_def, folded H_def]
  have c1: "heap_core h1 ((xs @ [p]) @ p2 # ys)"
    using sc(1) p(3) by (simp add: h1_def heap_core_def)
  have parts: "no_two_free (hdr h) (xs @ [p])" "no_two_free (hdr h) ys"
    using n2 no_two_free_parts [of "hdr h" xs p ys] p(1) by (auto simp: bs no_two_free_def successively_append_iff)
  have "no_two_free H (xs @ [p])" "no_two_free H ys"
    using parts sc(5) by (auto elim!: no_two_free_cong [rotated])
  then obtain h2 bs' where g: "plug_holes p2 h1 = Some h2" "heap_core h2 bs'" "no_two_free (hdr h2) bs'"
    "used_blocks (hdr h2) bs' = used_blocks (hdr h1) ((xs @ [p]) @ p2 # ys)" "same_place h1 h2" "heap_sem h2 = heap_sem h1" "bytes h2 = bytes h1"
    using plug_holes_core [OF c1] sc(4) by (auto simp: h1_def)
  have "p \<notin> fst ` set (used_blocks H xs @ used_blocks H ys)"
    using b(1-3) used_blocks_fst [of H xs] used_blocks_fst [of H ys] by fastforce
  note ins = addresses_insert [OF this, of "heap_ptr h"]
  have "live h = addresses (heap_ptr h) (used_blocks H xs @ (p, nxt (hdr h p) - p) # used_blocks H ys)"
    using live_core [OF core] sc(3) by simp
  moreover have "live h2 = addresses (heap_ptr h) (used_blocks H xs @ (p, ?k + 12) # used_blocks H ys)"
    using live_core [OF g(2)] g(4,5) sc(2) by (simp add: same_place_def h1_def del: used_blocks_simps)
  ultimately have "live h2 = (live h)(a \<mapsto> ?k)"
    using ins p(2) by simp
  moreover have "rt_realloc a ns h = Some (a, heap_release h2)"
    using realloc_block [OF assms(1-3) k(4) bs p(2,3,1)] assms(4) g(1) by (simp add: h1_def H_def Let_def flip: p2_def)
  ultimately show ?thesis
    using that [of "heap_release h2" bs'] g(2,3,6,7) by (simp add: heap_release_def heap_inv_def h1_def)
qed

text \<open>What \<open>rt_malloc\<close> promises, in the terms of the client.\<close>

lemma malloc_cases:
  assumes "heap_inv h bs" "0 < n" "RT_ALIGN n \<le> mem_size_aligned h"
  obtains "rt_malloc n h = Some (0, h)" "\<And>p. p \<in> set bs \<Longrightarrow> \<not> fits h (malloc_size n) p"
  | a h' bs' m where "rt_malloc n h = Some (a, h')" "a \<noteq> 0" "heap_inv h' bs'" "heap_static h h'" "live h a = None"
    "live h' = (live h)(a \<mapsto> m)" "malloc_size n \<le> m"
proof (cases "find (fits h (malloc_size n)) bs")
  case None
  then show ?thesis
    using that(1) malloc_null [OF assms(1)] by (auto simp: find_None_iff)
next
  case (Some p)
  have "0 < heap_ptr h"
    using assms(1) by (simp add: heap_inv_def heap_core_def heap_frame_def)
  obtain h' bs' where m: "rt_malloc n h = Some (heap_ptr h + p + 12, h')" "heap_inv h' bs'" "heap_static h h'"
    "live h' = (live h)(heap_ptr h + p + 12 \<mapsto> taken_span h p (malloc_size n) - 12)" "live h (heap_ptr h + p + 12) = None"
    "p + 12 + malloc_size n \<le> nxt (hdr h p)" "p \<in> set bs" "malloc_size n + 12 \<le> taken_span h p (malloc_size n)"
    by (rule malloc_found [OF assms Some])
  show ?thesis
    by (rule that(2) [OF m(1) _ m(2,3,5,4)]) (use \<open>0 < heap_ptr h\<close> m(8) in auto)
qed

text \<open>Regions of two blocks that are allocated at the same time.\<close>

lemma live_disjoint:
  assumes "heap_core h bs" "live h a = Some n" "live h b = Some m" "a \<noteq> b"
  shows "a + n \<le> b \<or> b + m \<le> a"
  using live_apart [OF assms(1-3)] live_apart [OF assms(1,3,2)] assms(4) by linarith

lemma RT_ALIGN_idem: "RT_ALIGN n + 3 < 2 ^ 32 \<Longrightarrow> RT_ALIGN (RT_ALIGN n) = RT_ALIGN n"
  by (auto simp: RT_ALIGN_def w32_def)

text \<open>Growing a block, or shrinking it by less than a new block needs: the contents move.\<close>

lemma move_inv:
  assumes "heap_inv h bs" "live h a = Some n" "RT_ALIGN ns \<noteq> 0" "RT_ALIGN ns \<le> mem_size_aligned h" "n \<noteq> RT_ALIGN ns" "\<not> RT_ALIGN ns + 24 < n"
  obtains "rt_realloc a ns h = Some (0, h)"
  | r h' bs' m where "rt_realloc a ns h = Some (r, h')" "r \<noteq> 0" "heap_inv h' bs'" "live h r = None" "live h' = (live h)(a := None, r \<mapsto> m)"
    "RT_ALIGN ns \<le> m" "bytes h' = rt_memcpy (bytes h) r a (min n (RT_ALIGN ns))" "r + m \<le> a \<or> a + n \<le> r"
    "\<And>b k. live h b = Some k \<Longrightarrow> r + m \<le> b \<or> b + k \<le> r"
proof -
  let ?k = "RT_ALIGN ns"
  have core: "heap_core h bs" and frame: "heap_frame h"
    using assms(1) by (simp_all add: heap_inv_def heap_core_def)
  obtain xs p ys where p: "bs = xs @ p # ys" "a = heap_ptr h + p + 12" "n = nxt (hdr h p) - p - 12" "\<not> is_free (hdr h) p"
    by (rule live_cases [OF core assms(2)])
  have re: "rt_realloc a ns h = do { (nmem, g) \<leftarrow> rt_malloc ?k h;
      if nmem \<noteq> 0 then do { g' \<leftarrow> rt_free a (g\<lparr>bytes := rt_memcpy (bytes g) nmem a (min n ?k)\<rparr>); Some (nmem, g') } else Some (0, g) }"
    using realloc_block [OF assms(1-4) p] assms(5,6) by simp
  have kk: "RT_ALIGN ?k = ?k" "?k \<le> malloc_size ?k"
    using assms(4) frame RT_ALIGN_idem [of ns] by (auto simp: heap_frame_def malloc_size_def)
  show ?thesis
  proof (rule malloc_cases [OF assms(1), of ?k])
    show "0 < ?k" "RT_ALIGN ?k \<le> mem_size_aligned h"
      using assms(3,4) kk(1) by auto
  next
    assume "rt_malloc ?k h = Some (0, h)"
    then show ?thesis
      using that(1) re by simp
  next
    fix r g bs1 m
    assume g: "rt_malloc ?k h = Some (r, g)" "r \<noteq> 0" "heap_inv g bs1" "heap_static h g" "live h r = None"
      "live g = (live h)(r \<mapsto> m)" "malloc_size ?k \<le> m"
    define g1 where "g1 = g\<lparr>bytes := rt_memcpy (bytes g) r a (min n ?k)\<rparr>"
    have i1: "heap_inv g1 bs1" "live g1 a = Some n" and c1: "heap_core g bs1"
      using g(3,5,6) assms(2) by (auto simp: g1_def heap_inv_def)
    obtain h' bs' where f: "rt_free a g1 = Some h'" "heap_inv h' bs'" "live h' = (live g1)(a := None)" "same_place g1 h'" "bytes h' = bytes g1"
      by (rule free_inv [OF i1])
    have apart: "r + m \<le> b \<or> b + k \<le> r" if "live h b = Some k" for b k
    proof -
      have "r \<noteq> b"
        using g(5) that by auto
      then show ?thesis
        using live_disjoint [OF c1, of r m b k] g(6) that by simp
    qed
    show ?thesis
    proof (rule that(2) [of r h' bs' m])
      show "rt_realloc a ns h = Some (r, h')"
        using re g(1,2) f(1) by (simp add: g1_def)
      show "live h' = (live h)(a := None, r \<mapsto> m)"
        using f(3) g(5,6) assms(2) by (auto simp: g1_def fun_eq_iff)
      show "bytes h' = rt_memcpy (bytes h) r a (min n ?k)"
        using f(5) g(4) by (simp add: g1_def heap_static_def)
    qed (use g(2,5,7) f(2) apart assms(2) kk in auto)
  qed
qed

section \<open>The heap as an allocator\<close>

text \<open>What a client of a memory manager relies on: a request gives a fresh region of at least the size or
  fails without effect, a region given back is gone, and regions held at the same time are disjoint.\<close>

fun release_all :: "(nat \<Rightarrow> 's \<Rightarrow> 's option) \<Rightarrow> nat list \<Rightarrow> 's \<Rightarrow> 's option" where
  "release_all rel [] s = Some s"
| "release_all rel (a # as) s = do { s' \<leftarrow> rel a s; release_all rel as s' }"

locale allocator =
  fixes alloc :: "nat \<Rightarrow> 's \<Rightarrow> (nat \<times> 's) option"
    and release :: "nat \<Rightarrow> 's \<Rightarrow> 's option"
    and held :: "'s \<Rightarrow> nat \<Rightarrow> nat option"
    and ok :: "'s \<Rightarrow> bool"
  assumes alloc_law: "ok s \<Longrightarrow> n + 3 < 2 ^ 32 \<Longrightarrow> \<exists>a s'. alloc n s = Some (a, s') \<and> ok s' \<and>
      (if a = 0 then s' = s else held s a = None \<and> (\<exists>m\<ge>n. held s' = (held s)(a \<mapsto> m)))"
    and release_law: "ok s \<Longrightarrow> held s a = Some m \<Longrightarrow> \<exists>s'. release a s = Some s' \<and> ok s' \<and> held s' = (held s)(a := None)"
    and apart_law: "ok s \<Longrightarrow> held s a = Some m \<Longrightarrow> held s b = Some k \<Longrightarrow> a \<noteq> b \<Longrightarrow> a + m \<le> b \<or> b + k \<le> a"
begin

lemma release_all_held:
  "ok s \<Longrightarrow> distinct as \<Longrightarrow> set as \<subseteq> dom (held s) \<Longrightarrow>
   \<exists>s'. release_all release as s = Some s' \<and> ok s' \<and> held s' = (\<lambda>b. if b \<in> set as then None else held s b)"
proof (induction as arbitrary: s)
  case (Cons a as)
  then obtain m where "held s a = Some m"
    by auto
  with Cons.prems(1) obtain s1 where s1: "release a s = Some s1" "ok s1" "held s1 = (held s)(a := None)"
    using release_law by blast
  have "set as \<subseteq> dom (held s1)" "distinct as"
    using Cons.prems(2,3) s1(3) by auto
  from Cons.IH [OF s1(2) this(2,1)]
  obtain s' where "release_all release as s1 = Some s'" "ok s'" "held s' = (\<lambda>b. if b \<in> set as then None else held s1 b)"
    by blast
  then show ?case
    using s1 by (auto simp: fun_eq_iff)
qed simp

lemma alloc_release:
  assumes "ok s" "n + 3 < 2 ^ 32" "alloc n s = Some (a, s1)" "a \<noteq> 0"
  shows "\<exists>s2. release a s1 = Some s2 \<and> ok s2 \<and> held s2 = held s"
proof -
  obtain m where m: "ok s1" "held s a = None" "held s1 = (held s)(a \<mapsto> m)"
    using alloc_law [OF assms(1,2)] assms(3,4) by auto
  then obtain s2 where "release a s1 = Some s2" "ok s2" "held s2 = (held s1)(a := None)"
    using release_law [of s1 a m] by auto
  then show ?thesis
    using m by (auto simp: fun_eq_iff)
qed

end

lemma malloc_returns:
  assumes "heap_inv h bs"
  shows "\<exists>a h' bs'. rt_malloc n h = Some (a, h') \<and> heap_inv h' bs' \<and> heap_static h h' \<and>
    (if a = 0 then h' = h \<and> (n = 0 \<or> (\<forall>p\<in>set bs. \<not> fits h (malloc_size n) p))
     else live h a = None \<and> (\<exists>m\<ge>malloc_size n. live h' = (live h)(a \<mapsto> m)))"
proof (cases "n = 0 \<or> RT_ALIGN n > mem_size_aligned h")
  case True
  then have "n = 0 \<or> (\<forall>p\<in>set bs. \<not> fits h (malloc_size n) p)"
    by (auto simp: fits_def malloc_size_def)
  with True show ?thesis
    using assms by (auto simp: rt_malloc_def heap_static_def same_place_def)
next
  case False
  then have "0 < n" "RT_ALIGN n \<le> mem_size_aligned h"
    by auto
  then show ?thesis
  proof (rule malloc_cases [OF assms])
    assume "rt_malloc n h = Some (0, h)" "\<And>p. p \<in> set bs \<Longrightarrow> \<not> fits h (malloc_size n) p"
    then show ?thesis
      using assms by (auto simp: heap_static_def same_place_def)
  qed auto
qed

lemma heap_wf_inv: "heap_wf h \<Longrightarrow> heap_inv h (heap_blocks h)" "heap_wf h \<Longrightarrow> heap_core h (heap_blocks h)"
  by (simp_all add: heap_wf_def heap_inv_def)

interpretation rt_heap: allocator rt_malloc rt_free live heap_wf
proof unfold_locales
  show "\<exists>a h'. rt_malloc n h = Some (a, h') \<and> heap_wf h' \<and>
      (if a = 0 then h' = h else live h a = None \<and> (\<exists>m\<ge>n. live h' = (live h)(a \<mapsto> m)))"
    if "heap_wf h" "n + 3 < 2 ^ 32" for h n
    using malloc_returns [OF heap_wf_inv(1) [OF that(1)], of n] malloc_size_props(3) [OF that(2)]
    by (metis heap_inv_wf order_trans)
  show "\<exists>h'. rt_free a h = Some h' \<and> heap_wf h' \<and> live h' = (live h)(a := None)" if "heap_wf h" "live h a = Some m" for h a m
    by (rule free_inv [OF heap_wf_inv(1) [OF that(1)] that(2)]) (blast intro: heap_inv_wf)
  show "a + m \<le> b \<or> b + k \<le> a" if "heap_wf h" "live h a = Some m" "live h b = Some k" "a \<noteq> b" for h a m b k
    by (rule live_disjoint [OF heap_wf_inv(2) [OF that(1)] that(2-4)])
qed

lemma heap_empty_blocks:
  assumes "heap_wf h" "live h = Map.empty"
  shows "heap_blocks h = [0]" "used_mem h = 0" "nxt (hdr h 0) = heap_end h" "is_free (hdr h) 0"
proof -
  let ?bs = "heap_blocks h"
  have core: "heap_core h ?bs" and n2: "no_two_free (hdr h) ?bs"
    using assms(1) by (simp_all add: heap_wf_def heap_inv_def)
  have "used_blocks (hdr h) ?bs = []"
    using assms(2) live_core [OF core] by (simp add: addresses_def)
  then have free: "b \<in> set ?bs \<Longrightarrow> is_free (hdr h) b" for b
    by (auto simp: used_blocks_def filter_empty_conv)
  have l: "linked (hdr h) 0 0 (heap_end h) ?bs" "0 < heap_end h" "used_mem h = used_span (hdr h) ?bs"
    using core by (auto simp: heap_core_def heap_frame_def)
  then obtain b bs where bs: "?bs = b # bs"
    by (cases ?bs) auto
  have "bs = []"
    using n2 free unfolding bs by (cases bs) (auto simp: no_two_free_def)
  then show "?bs = [0]" "nxt (hdr h 0) = heap_end h"
    using l(1) bs by simp_all
  then show "used_mem h = 0" "is_free (hdr h) 0"
    using l(3) free \<open>used_blocks (hdr h) ?bs = []\<close> by (simp_all add: used_span_def)
qed

lemma heap_init_wf:
  assumes "0 < b" "b + 3 < 2 ^ 32" "e < 2 ^ 32" "b + 42 \<le> e" "used_mem h = 0"
  shows "heap_wf (rt_system_heap_init b e h)" "live (rt_system_heap_init b e h) = Map.empty"
proof -
  let ?h = "rt_system_heap_init b e h" and ?B = "RT_ALIGN b" and ?E = "RT_ALIGN_DOWN e"
  have B: "b \<le> ?B" "?B < b + 4" "4 dvd ?B"
    using RT_ALIGN_bounds [of b] assms(2) by auto
  have E: "?E \<le> e" "e < ?E + 4" "4 dvd ?E"
    by (auto simp: RT_ALIGN_DOWN_def)
  define n where "n = ?E - ?B - 24"
  have n: "?E = ?B + 24 + n" "12 \<le> n" "4 dvd n"
    using B E assms(4) by (auto simp: n_def dvd_diff_nat)
  have h: "heap_ptr ?h = ?B" "mem_size_aligned ?h = n" "heap_end ?h = n + 12" "heap_sem ?h = 1" "lfree ?h = 0" "used_mem ?h = 0"
    "hdr ?h 0 = \<lparr>magic = HEAP_MAGIC, used = 0, nxt = n + 12, prv = 0\<rparr>" "used (hdr ?h (n + 12)) = 1"
    using assms(5) n by (simp_all add: rt_system_heap_init_def Let_def)
  have "heap_inv ?h [0]"
    using h B E n assms(1,3)
    by (auto simp: heap_inv_def heap_core_def heap_frame_def no_two_free_def used_span_def)
  then show "heap_wf ?h" "live ?h = Map.empty"
    using live_core [of ?h "[0]"] h by (auto simp: heap_inv_wf heap_inv_def addresses_def)
qed

section \<open>Properties\<close>

lemma realloc_inv:
  assumes "heap_inv h bs" "live h a = Some n"
  shows "\<exists>r h' bs'. rt_realloc a ns h = Some (r, h') \<and> heap_inv h' bs' \<and>
    (if r = 0 then h' = h \<or> RT_ALIGN ns = 0 \<and> live h' = (live h)(a := None) \<and> bytes h' = bytes h
     else \<exists>m\<ge>RT_ALIGN ns. live h' = (live h)(a := None, r \<mapsto> m) \<and> (r = a \<or> live h r = None) \<and>
       (\<forall>i < min n (RT_ALIGN ns). bytes h' (r + i) = bytes h (a + i)) \<and>
       (\<forall>b k i. live h b = Some k \<longrightarrow> i < k \<longrightarrow> bytes h' (b + i) = bytes h (b + i)))"
proof -
  let ?k = "RT_ALIGN ns"
  have core: "heap_core h bs"
    using assms(1) by (simp add: heap_inv_def)
  have a: "a \<noteq> 0"
    using live_region(1) [OF core assms(2)] by simp
  consider "?k > mem_size_aligned h" | "?k = 0" | "?k \<noteq> 0" "?k + 24 < n"
    | "?k \<noteq> 0" "n = ?k" | "?k \<noteq> 0" "?k \<le> mem_size_aligned h" "n \<noteq> ?k" "\<not> ?k + 24 < n"
    by linarith
  then show ?thesis
  proof cases
    case 1
    then show ?thesis
      using assms(1) by (auto simp: rt_realloc_def Let_def)
  next
    case 2
    obtain h' bs' where "rt_free a h = Some h'" "heap_inv h' bs'" "live h' = (live h)(a := None)" "bytes h' = bytes h"
      by (rule free_inv [OF assms])
    then show ?thesis
      using 2 by (auto simp: rt_realloc_def Let_def)
  next
    case 3
    obtain h' bs' where "rt_realloc a ns h = Some (a, h')" "heap_inv h' bs'" "live h' = (live h)(a \<mapsto> ?k)" "bytes h' = bytes h"
      by (rule shrink_inv [OF assms 3])
    then show ?thesis
      using a by auto
  next
    case 4
    obtain xs p ys where p: "bs = xs @ p # ys" "a = heap_ptr h + p + 12" "n = nxt (hdr h p) - p - 12" "\<not> is_free (hdr h) p"
      by (rule live_cases [OF core assms(2)])
    have "?k \<le> mem_size_aligned h"
      using live_region(1,2) [OF core assms(2)] core 4(2) by (simp add: heap_core_def heap_frame_def)
    then have "rt_realloc a ns h = Some (a, h)"
      using realloc_block [OF assms 4(1) _ p] 4(2) by simp
    then show ?thesis
      using a assms 4(2) by (auto simp: fun_eq_iff)
  next
    case 5
    show ?thesis
    proof (rule move_inv [OF assms 5])
      assume "rt_realloc a ns h = Some (0, h)"
      then show ?thesis
        using assms(1) by auto
    next
      fix r h' bs' m
      assume m: "rt_realloc a ns h = Some (r, h')" "r \<noteq> 0" "heap_inv h' bs'" "live h r = None" "live h' = (live h)(a := None, r \<mapsto> m)"
        "?k \<le> m" "bytes h' = rt_memcpy (bytes h) r a (min n ?k)" "r + m \<le> a \<or> a + n \<le> r"
        "\<And>b k. live h b = Some k \<Longrightarrow> r + m \<le> b \<or> b + k \<le> r"
      have "bytes h' = copied (bytes h) r a (min n ?k)"
        using m(6-8) by (subst m(7), intro rt_memcpy_copied) auto
      then have "\<forall>i < min n ?k. bytes h' (r + i) = bytes h (a + i)" "\<forall>b k i. live h b = Some k \<longrightarrow> i < k \<longrightarrow> bytes h' (b + i) = bytes h (b + i)"
        using m(6) by (auto simp: copied_def dest!: m(9))
      then show ?thesis
        using m by auto
    qed
  qed
qed

text \<open>What a client may do: call the allocator, with the pointers it holds, and write into its blocks.\<close>

inductive heap_step :: "heap \<Rightarrow> heap \<Rightarrow> bool" where
  step_malloc: "rt_malloc n h = Some (a, h') \<Longrightarrow> heap_step h h'"
| step_calloc: "rt_calloc c n h = Some (a, h') \<Longrightarrow> heap_step h h'"
| step_free: "a = 0 \<or> live h a \<noteq> None \<Longrightarrow> rt_free a h = Some h' \<Longrightarrow> heap_step h h'"
| step_realloc: "a = 0 \<or> live h a \<noteq> None \<Longrightarrow> rt_realloc a n h = Some (r, h') \<Longrightarrow> heap_step h h'"
| step_write: "live h a = Some n \<Longrightarrow> i < n \<Longrightarrow> heap_step h (h\<lparr>bytes := (bytes h)(a + i := v)\<rparr>)"

lemma heap_wf_bytes [simp]: "heap_wf (h\<lparr>bytes := m\<rparr>) = heap_wf h"
  by (simp add: heap_wf_def heap_inv_def heap_blocks_def walk_upd)

lemma malloc_total: "heap_wf h \<Longrightarrow> \<exists>a h'. rt_malloc n h = Some (a, h') \<and> heap_wf h'"
  using malloc_returns [OF heap_wf_inv(1), of h n] heap_inv_wf by blast

lemma live_room:
  assumes "heap_wf h" "live h a = Some m"
  shows "room h (a - 12 - heap_ptr h) = m"
proof -
  have core: "heap_core h (heap_blocks h)"
    using heap_wf_inv(2) [OF assms(1)] .
  obtain xs p ys where p: "heap_blocks h = xs @ p # ys" "a = heap_ptr h + p + 12" "m = nxt (hdr h p) - p - 12"
    by (rule live_cases [OF core assms(2)])
  have "p + 12 \<le> nxt (hdr h p)" "nxt (hdr h p) \<le> heap_end h" "heap_end h < 2 ^ 32"
    using heap_core_bounds [OF core [unfolded p(1)]] core by (auto simp: heap_core_def heap_frame_def)
  then show ?thesis
    by (simp add: p room_def sub32_small)
qed

lemma calloc_total:
  assumes "heap_wf h" "w32 (c * n) + 3 < 2 ^ 32"
  shows "\<exists>a h'. rt_calloc c n h = Some (a, h') \<and> heap_wf h'"
proof -
  obtain a h' where m: "rt_malloc (w32 (c * n)) h = Some (a, h')" "heap_wf h'"
    "if a = 0 then h' = h else live h a = None \<and> (\<exists>m\<ge>w32 (c * n). live h' = (live h)(a \<mapsto> m))"
    using rt_heap.alloc_law [OF assms] by blast
  show ?thesis
  proof (cases "a = 0")
    case False
    then obtain k where "w32 (c * n) \<le> k" "live h' a = Some k"
      using m(3) by auto
    then show ?thesis
      using m(1,2) False live_room [OF m(2)] by (simp add: rt_calloc_def)
  qed (use m in \<open>simp add: rt_calloc_def\<close>)
qed

lemma calloc_wf: "heap_wf h \<Longrightarrow> rt_calloc c n h = Some (a, h') \<Longrightarrow> heap_wf h'"
  using malloc_total [of h "w32 (c * n)"] by (auto simp: rt_calloc_def split: if_splits)

lemma free_total:
  assumes "heap_wf h" "a = 0 \<or> live h a \<noteq> None"
  shows "\<exists>h'. rt_free a h = Some h' \<and> heap_wf h'"
proof (cases "a = 0")
  case True
  then show ?thesis
    using assms(1) by (simp add: rt_free_def)
next
  case False
  then show ?thesis
    using rt_heap.release_law [OF assms(1)] assms(2) by blast
qed

lemma realloc_total:
  assumes "heap_wf h" "a = 0 \<or> live h a \<noteq> None"
  shows "\<exists>r h'. rt_realloc a n h = Some (r, h') \<and> heap_wf h'"
proof (cases "a = 0")
  case True
  then show ?thesis
    using malloc_total [OF assms(1), of "RT_ALIGN n"] assms(1) by (auto simp: rt_realloc_def rt_free_def Let_def)
next
  case False
  then obtain k where "live h a = Some k"
    using assms(2) by auto
  then show ?thesis
    using realloc_inv [OF heap_wf_inv(1) [OF assms(1)], of a k n] heap_inv_wf by blast
qed

lemma heap_step_wf:
  assumes "heap_step g h" "heap_wf g"
  shows "heap_wf h"
  using assms(1)
proof (cases rule: heap_step.cases)
  case (step_malloc n a)
  then show ?thesis
    using malloc_total [OF assms(2), of n] by simp
next
  case (step_calloc c n a)
  then show ?thesis
    using calloc_wf [OF assms(2)] by blast
next
  case (step_free a)
  then show ?thesis
    using free_total [OF assms(2), of a] by simp
next
  case (step_realloc a n r)
  then show ?thesis
    using realloc_total [OF assms(2), of a n] by simp
next
  case (step_write a n i v)
  then show ?thesis
    using assms(2) by simp
qed

text \<open>C26: from a fresh heap of at least 42 bytes, whatever the clients do with pointers they hold and within the blocks they
  hold, the heap stays well formed (the chain of headers covers it without gaps, no two neighbouring blocks are free, the
  lowest free block and the statistics are right, the semaphore is given back), and every call
  returns; the loops over the chain end and no assertion fails.  For \<open>rt_calloc\<close> the 32-bit product of the arguments must
  not be one of the last three values: see \<open>calloc_overruns\<close>.\<close>

theorem heap_always_wf:
  assumes "0 < b" "b + 3 < 2 ^ 32" "e < 2 ^ 32" "b + 42 \<le> e" "used_mem h0 = 0" "heap_step\<^sup>*\<^sup>* (rt_system_heap_init b e h0) h"
  shows "heap_wf h \<and> rt_malloc n h \<noteq> None \<and> (c * n mod 2 ^ 32 + 3 < 2 ^ 32 \<longrightarrow> rt_calloc c n h \<noteq> None) \<and>
    (a = 0 \<or> live h a \<noteq> None \<longrightarrow> rt_free a h \<noteq> None \<and> rt_realloc a n h \<noteq> None)"
proof -
  have "heap_wf h"
    using assms(6)
  proof (induction rule: rtranclp_induct)
    case base
    then show ?case
      using heap_init_wf(1) [OF assms(1-5)] .
  next
    case (step g h)
    then show ?case
      using heap_step_wf by blast
  qed
  then show ?thesis
    using malloc_total [of h n] calloc_total [of h c n] free_total [of h a] realloc_total [of h a n] by (auto simp: w32_def)
qed

text \<open>C27: on a well-formed heap \<open>rt_malloc\<close> of \<open>n\<close> bytes, at least four below \<open>2^32\<close>, either returns null and changes nothing, and then
  every free block is too small for \<open>n\<close> bytes, rounded up to a multiple of four and to twelve, or begins in the last that many bytes of
  the heap, where the search does not look; or it returns an aligned address of a fresh block inside the heap that has at least \<open>n\<close>
  bytes and does not overlap any block in use; all other blocks stay allocated and keep their bytes.\<close>

theorem malloc_correct:
  assumes "heap_wf h" "n + 3 < 2 ^ 32"
  shows "\<exists>a h'. rt_malloc n h = Some (a, h') \<and> heap_wf h' \<and> bytes h' = bytes h \<and>
    (if a = 0 then h' = h \<and> (n = 0 \<or> (\<forall>p\<in>set (heap_blocks h). is_free (hdr h) p \<longrightarrow>
         nxt (hdr h p) - p - 12 < max 12 ((n + 3) div 4 * 4) \<or> mem_size_aligned h \<le> p + max 12 ((n + 3) div 4 * 4)))
     else \<exists>m\<ge>n. live h' = (live h)(a \<mapsto> m) \<and> live h a = None \<and> a mod 4 = 0 \<and>
       heap_ptr h < a \<and> a + m \<le> heap_ptr h + heap_end h \<and> (\<forall>b k. live h b = Some k \<longrightarrow> a + m \<le> b \<or> b + k \<le> a))"
proof -
  obtain a h' bs' where m: "rt_malloc n h = Some (a, h')" "heap_inv h' bs'" "heap_static h h'"
    and r: "if a = 0 then h' = h \<and> (n = 0 \<or> (\<forall>p\<in>set (heap_blocks h). \<not> fits h (malloc_size n) p))
      else live h a = None \<and> (\<exists>m\<ge>malloc_size n. live h' = (live h)(a \<mapsto> m))"
    using malloc_returns [OF heap_wf_inv(1) [OF assms(1)], of n] by blast
  have size: "malloc_size n = max 12 ((n + 3) div 4 * 4)"
    using assms(2) by (auto simp: malloc_size_def RT_ALIGN_def w32_def)
  have null: "n = 0 \<or> (\<forall>p\<in>set (heap_blocks h). is_free (hdr h) p \<longrightarrow>
      nxt (hdr h p) - p - 12 < max 12 ((n + 3) div 4 * 4) \<or> mem_size_aligned h \<le> p + max 12 ((n + 3) div 4 * 4))" if "a = 0"
  proof (cases "n = 0")
    case False
    have "nxt (hdr h p) - p - 12 < malloc_size n \<or> mem_size_aligned h \<le> p + malloc_size n" if "p \<in> set (heap_blocks h)" "is_free (hdr h) p" for p
      using False r \<open>a = 0\<close> that malloc_size_props(2) [of n] unfolding fits_def by fastforce
    then show ?thesis
      unfolding size by blast
  qed simp
  have "bytes h' = bytes h" "heap_ptr h' = heap_ptr h" "heap_end h' = heap_end h"
    using m(3) by (simp_all add: heap_static_def same_place_def)
  moreover have "\<exists>m\<ge>n. live h' = (live h)(a \<mapsto> m) \<and> live h a = None \<and> a mod 4 = 0 \<and>
       heap_ptr h < a \<and> a + m \<le> heap_ptr h + heap_end h \<and> (\<forall>b k. live h b = Some k \<longrightarrow> a + m \<le> b \<or> b + k \<le> a)" if nz: "a \<noteq> 0"
  proof -
    obtain k where k: "live h a = None" "malloc_size n \<le> k" "live h' = (live h)(a \<mapsto> k)"
      using r nz by auto
    have core: "heap_core h' bs'" and la: "live h' a = Some k"
      using m(2) k(3) by (simp_all add: heap_inv_def)
    have "a + k \<le> b \<or> b + j \<le> a" if "live h b = Some j" for b j
      using live_disjoint [OF core la, of b j] k(1,3) that by (cases "b = a") auto
    moreover have "n \<le> k"
      using malloc_size_props(3) [OF assms(2)] k(2) by simp
    ultimately show ?thesis
      using k live_region [OF core la] \<open>heap_ptr h' = heap_ptr h\<close> \<open>heap_end h' = heap_end h\<close> by auto
  qed
  ultimately show ?thesis
    using m(1,2) r null heap_inv_wf by (cases "a = 0") auto
qed

text \<open>\<open>rt_realloc\<close> of a block either returns null with the heap as it was (the block stays), or a block of
  at least the new size that starts with the old contents; every other block keeps its bytes.\<close>

theorem realloc_correct:
  assumes "heap_wf h" "live h a = Some n" "0 < ns" "ns + 3 < 2 ^ 32"
  shows "\<exists>r h'. rt_realloc a ns h = Some (r, h') \<and> heap_wf h' \<and>
    (if r = 0 then h' = h
     else \<exists>m\<ge>ns. live h' = (live h)(a := None, r \<mapsto> m) \<and> (r = a \<or> live h r = None) \<and>
       (\<forall>i < min n ns. bytes h' (r + i) = bytes h (a + i)) \<and>
       (\<forall>b k i. b \<noteq> a \<longrightarrow> live h b = Some k \<longrightarrow> i < k \<longrightarrow> bytes h' (b + i) = bytes h (b + i)))"
proof -
  have k: "ns \<le> RT_ALIGN ns" "RT_ALIGN ns \<noteq> 0"
    using RT_ALIGN_bounds(1) [OF assms(4)] assms(3) by auto
  obtain r h' bs' where r: "rt_realloc a ns h = Some (r, h')" "heap_inv h' bs'"
    "if r = 0 then h' = h \<or> RT_ALIGN ns = 0 \<and> live h' = (live h)(a := None) \<and> bytes h' = bytes h
     else \<exists>m\<ge>RT_ALIGN ns. live h' = (live h)(a := None, r \<mapsto> m) \<and> (r = a \<or> live h r = None) \<and>
       (\<forall>i < min n (RT_ALIGN ns). bytes h' (r + i) = bytes h (a + i)) \<and>
       (\<forall>b k i. live h b = Some k \<longrightarrow> i < k \<longrightarrow> bytes h' (b + i) = bytes h (b + i))"
    using realloc_inv [OF heap_wf_inv(1) [OF assms(1)] assms(2), of ns] by blast
  show ?thesis
  proof (cases "r = 0")
    case True
    then show ?thesis
      using r k(2) heap_inv_wf by auto
  next
    case False
    then show ?thesis
      using r k(1) heap_inv_wf [OF r(2)] by (auto intro: order_trans)
  qed
qed

text \<open>C28: when all blocks in use are given back, in any order, every call returns and the heap is one free block
  again with no memory in use, so that nothing is lost to fragmentation.\<close>

theorem heap_drained:
  assumes "heap_wf h" "distinct as" "set as = dom (live h)"
  shows "\<exists>h'. release_all rt_free as h = Some h' \<and> heap_wf h' \<and> heap_blocks h' = [0] \<and> used_mem h' = 0 \<and>
    is_free (hdr h') 0 \<and> nxt (hdr h' 0) = heap_end h'"
proof -
  obtain h' where h: "release_all rt_free as h = Some h'" "heap_wf h'" "live h' = (\<lambda>b. if b \<in> set as then None else live h b)"
    using rt_heap.release_all_held [OF assms(1,2)] assms(3) by blast
  then have "live h' = Map.empty"
    using assms(3) by (auto simp: fun_eq_iff)
  then show ?thesis
    using h(1,2) heap_empty_blocks [OF h(2)] by blast
qed

text \<open>The block \<open>rt_calloc\<close> returns is filled with zeros, as long as the product of its arguments is a size.\<close>

theorem calloc_zeroed:
  assumes "c * n < 2 ^ 32" "rt_calloc c n h = Some (a, h')" "a \<noteq> 0" "i < c * n"
  shows "bytes h' (a + i) = 0"
  using assms by (auto simp: rt_calloc_def rt_memset_fills w32_def split: if_splits Option.bind_splits)

section \<open>A heap of one hundred bytes\<close>

definition demo_heap :: heap where
  "demo_heap = \<lparr>heap_ptr = 0, heap_end = 0, lfree = 0, heap_sem = 0, mem_size_aligned = 0, used_mem = 0, max_mem = 0,
     hdr = (\<lambda>_. \<lparr>magic = 0, used = 0, nxt = 0, prv = 0\<rparr>), bytes = (\<lambda>_. 0)\<rparr>"

definition fresh_heap :: heap where
  "fresh_heap = rt_system_heap_init 0x20001000 0x20001064 demo_heap"

lemma fresh_heap_wf: "heap_wf fresh_heap" "live fresh_heap = Map.empty"
  unfolding fresh_heap_def by (rule heap_init_wf; simp add: demo_heap_def)+

definition demo_run :: "(nat \<times> nat \<times> nat \<times> nat) option" where
  "demo_run = do { (a, h1) \<leftarrow> rt_malloc 20 fresh_heap; (b, h2) \<leftarrow> rt_malloc 5 h1; h3 \<leftarrow> rt_free a h2;
     (c, h4) \<leftarrow> rt_malloc 3 h3; Some (a, b, c, used_mem h4) }"

lemmas heap_eval = fresh_heap_def demo_heap_def rt_system_heap_init_def rt_malloc_def rt_free_def rt_realloc_def heap_take_def heap_release_def
  RT_ALIGN_def RT_ALIGN_DOWN_def w32_def sub32_def occupy_def set_hdr_def count_used_def room_def plug_holes_def plug_forward_def
  plug_backward_def Let_def

lemma demo_run_eval: "demo_run = Some (0x2000100C, 0x2000102C, 0x2000100C, 56)"
  by (simp add: demo_run_def heap_eval find_fit.simps next_free.simps)

lemma demo_malloc:
  obtains h m where "rt_malloc 20 fresh_heap = Some (0x2000100C, h)" "heap_wf h" "live h = [0x2000100C \<mapsto> m]" "20 \<le> m"
proof -
  have "map_option fst (rt_malloc 20 fresh_heap) = Some 0x2000100C"
    by (simp add: heap_eval find_fit.simps next_free.simps)
  moreover obtain a h bs where "rt_malloc 20 fresh_heap = Some (a, h)" "heap_inv h bs"
    "a \<noteq> 0 \<Longrightarrow> \<exists>m\<ge>malloc_size 20. live h = (live fresh_heap)(a \<mapsto> m)"
    using malloc_returns [OF heap_wf_inv(1) [OF fresh_heap_wf(1)], of 20] by (auto split: if_splits)
  ultimately show ?thesis
    using that heap_inv_wf malloc_size_props(3) [of 20] fresh_heap_wf(2) by fastforce
qed

theorem heap_always_wf_witness:
  "\<exists>h. rt_malloc 20 fresh_heap = Some (0x2000100C, h) \<and> heap_wf h \<and> rt_malloc 8 h \<noteq> None \<and> rt_free 0x2000100C h \<noteq> None"
proof -
  obtain h m where h: "rt_malloc 20 fresh_heap = Some (0x2000100C, h)" "live h = [0x2000100C \<mapsto> m]"
    by (rule demo_malloc)
  have "heap_step fresh_heap h"
    by (rule step_malloc [OF h(1)])
  then have "heap_step\<^sup>*\<^sup>* (rt_system_heap_init 0x20001000 0x20001064 demo_heap) h"
    unfolding fresh_heap_def by (rule r_into_rtranclp)
  then show ?thesis
    using heap_always_wf [of "0x20001000" "0x20001064" demo_heap h 8 1 "0x2000100C"] h by (simp add: demo_heap_def)
qed

theorem malloc_correct_witness:
  "\<exists>h m. rt_malloc 20 fresh_heap = Some (0x2000100C, h) \<and> heap_wf h \<and> 20 \<le> m \<and> live h = [0x2000100C \<mapsto> m]"
proof -
  obtain h0 where "rt_malloc 20 fresh_heap = Some (0x2000100C, h0)"
    by (rule demo_malloc)
  then show ?thesis
    using malloc_correct [OF fresh_heap_wf(1), of 20] fresh_heap_wf(2) by auto
qed

theorem realloc_correct_witness:
  "\<exists>h r h'. rt_malloc 20 fresh_heap = Some (0x2000100C, h) \<and> rt_realloc 0x2000100C 40 h = Some (r, h') \<and> heap_wf h'"
proof -
  obtain h m where h: "rt_malloc 20 fresh_heap = Some (0x2000100C, h)" "heap_wf h" "live h = [0x2000100C \<mapsto> m]"
    by (rule demo_malloc)
  then show ?thesis
    using realloc_correct [of h "0x2000100C" m 40] by auto
qed

theorem heap_drained_witness:
  "\<exists>h h'. rt_malloc 20 fresh_heap = Some (0x2000100C, h) \<and> release_all rt_free [0x2000100C] h = Some h' \<and> heap_blocks h' = [0]"
proof -
  obtain h m where h: "rt_malloc 20 fresh_heap = Some (0x2000100C, h)" "heap_wf h" "live h = [0x2000100C \<mapsto> m]"
    by (rule demo_malloc)
  then show ?thesis
    using heap_drained [OF h(2), of "[0x2000100C]"] by auto
qed

section \<open>Misuse and corner cases\<close>

lemma plug_used: "used (hdr (plug_forward p h) b) = used (hdr h b)" "used (hdr (plug_backward p h) b) = used (hdr h b)"
  by (auto simp: plug_forward_def plug_backward_def set_hdr_def Let_def)

text \<open>A block that is freed twice is caught by the assertion on its header.\<close>

theorem double_free_caught:
  assumes "rt_free a h = Some h'" "a \<noteq> 0"
  shows "rt_free a h' = None"
proof -
  define p where "p = a - 12 - heap_ptr h"
  obtain h4 h5 where h4: "plug_holes p h4 = Some h5" "h' = heap_release h5" "heap_ptr h4 = heap_ptr h"
    using assms by (fastforce simp: rt_free_def heap_take_def Let_def set_hdr_def p_def split: if_splits)
  then have "heap_ptr h' = heap_ptr h" "used (hdr h' p) = 0"
    by (auto simp: plug_holes_def plug_used heap_release_def split: if_splits)
  then show ?thesis
    using assms(2) by (auto simp: rt_free_def heap_take_def Let_def p_def)
qed

text \<open>The size of a request near the top of the range wraps to zero when it is aligned: four gigabytes are
  granted with a block of twelve bytes.\<close>

theorem huge_request_wraps:
  assumes "heap_wf h" "2 ^ 32 - 3 \<le> n" "n < 2 ^ 32"
  shows "rt_malloc n h = rt_malloc 1 h"
proof -
  have "RT_ALIGN n = 0" "RT_ALIGN 1 = 4"
    using assms(2,3) by (auto simp: RT_ALIGN_def w32_def mod_if)
  moreover have "4 \<le> mem_size_aligned h"
    using assms(1) by (simp add: heap_wf_def heap_inv_def heap_core_def heap_frame_def)
  ultimately show ?thesis
    using assms(2) by (simp add: rt_malloc_def)
qed

text \<open>So \<open>rt_calloc\<close> of such a size zeroes memory far beyond the small block it got.\<close>

theorem calloc_overruns:
  assumes "heap_wf h" "2 ^ 32 - 3 \<le> c * n mod 2 ^ 32" "rt_malloc 1 h = Some (a, h')" "a \<noteq> 0"
  shows "rt_calloc c n h = None"
proof -
  have m: "rt_malloc (w32 (c * n)) h = Some (a, h')"
    using huge_request_wraps [OF assms(1,2)] assms(3) by (simp add: w32_def)
  obtain bs k where k: "heap_inv h' bs" "live h' a = Some k"
    using malloc_returns [OF heap_wf_inv(1) [OF assms(1)], of 1] assms(3,4) by auto
  have "room h' (a - 12 - heap_ptr h') = k"
    by (rule live_room [OF heap_inv_wf [OF k(1)] k(2)])
  moreover have "k + 12 \<le> heap_end h'" "heap_end h' + 12 \<le> 2 ^ 32"
    using live_region(1,2) [of h' bs a k] k by (auto simp: heap_inv_def heap_core_def heap_frame_def)
  ultimately show ?thesis
    using m assms(2,4) by (simp add: rt_calloc_def w32_def)
qed

text \<open>The search stops before a last block that fits exactly: the one free block of 76 bytes is refused.\<close>

theorem exact_fit_refused:
  "nxt (hdr fresh_heap 0) - 12 = 76 \<and> is_free (hdr fresh_heap) 0 \<and> map_option fst (rt_malloc 76 fresh_heap) = Some 0"
  by (simp add: heap_eval find_fit.simps)

text \<open>A block made a little smaller is not shrunk in place but moved, which fails on a full heap.\<close>

theorem realloc_smaller_fails:
  "map_option (\<lambda>(a, h). (a, map_option fst (rt_realloc a 52 h))) (rt_malloc 60 fresh_heap) = Some (0x2000100C, Some 0)"
  by (simp add: heap_eval find_fit.simps next_free.simps)

end
