(* ===== verification/Mem_Align.thy ===== *)
theory Mem_Align
  imports Mem
begin

text \<open>
  The functions of \<^verbatim>\<open>src/rt-thread/src/kservice.c\<close> that use the heap: aligned blocks and copies of strings.  An aligned
  block keeps the address of the block it lies in, in the four bytes in front of it.
\<close>

section \<open>Operations\<close>

definition put_word :: "memory \<Rightarrow> nat \<Rightarrow> u32 \<Rightarrow> memory" where
  "put_word m a v = (\<lambda>i. if a \<le> i \<and> i < a + 4 then ucast (drop_bit (8 * (i - a)) v) else m i)"

definition get_word :: "memory \<Rightarrow> nat \<Rightarrow> u32" where
  "get_word m a = ucast (m a) OR push_bit 8 (ucast (m (a + 1))) OR push_bit 16 (ucast (m (a + 2))) OR push_bit 24 (ucast (m (a + 3)))"

definition align_ptr :: "u32 \<Rightarrow> u32 \<Rightarrow> u32" where
  "align_ptr ptr align = (if ptr AND (align - 1) = 0 then ptr + align else (ptr + (align - 1)) AND NOT (align - 1))"

definition rt_malloc_align :: "u32 \<Rightarrow> u32 \<Rightarrow> heap \<Rightarrow> (nat \<times> heap) option" where
  "rt_malloc_align sz align0 h =
     (let align = (align0 + 3) AND NOT 3; align_size = ((sz + 3) AND NOT 3) + align in
      do { (p, h1) \<leftarrow> rt_malloc (unat align_size) h;
           Some (if p \<noteq> 0
                 then let q = align_ptr (of_nat p) align in (unat q, h1\<lparr>bytes := put_word (bytes h1) (unat (q - 4)) (of_nat p)\<rparr>)
                 else (0, h1)) })"

definition rt_free_align :: "nat \<Rightarrow> heap \<Rightarrow> heap option" where
  "rt_free_align ptr h = rt_free (unat (get_word (bytes h) (unat (of_nat ptr - 4 :: u32)))) h"

text \<open>The string at an address; a search that finds no NUL does not end.\<close>

partial_function (option) strlen_at :: "memory \<Rightarrow> nat \<Rightarrow> nat option" where
  "strlen_at m a = (if m a = 0 then Some 0 else do { n \<leftarrow> strlen_at m (a + 1); Some (n + 1) })"

definition rt_strdup :: "nat \<Rightarrow> heap \<Rightarrow> (nat \<times> heap) option" where
  "rt_strdup s h =
     do { n \<leftarrow> strlen_at (bytes h) s;
          let len = n + 1;
          (tmp, h1) \<leftarrow> rt_malloc len h;
          Some (if tmp = 0 then (0, h1) else (tmp, h1\<lparr>bytes := rt_memcpy (bytes h1) tmp s len\<rparr>)) }"

text \<open>The prompt of the shell: the first component is the pointer \<open>finsh_prompt_custom\<close>, 0 when there is none.\<close>

definition finsh_set_prompt :: "nat \<Rightarrow> nat \<times> heap \<Rightarrow> (int \<times> nat \<times> heap) option" where
  "finsh_set_prompt prompt ph =
     do { (p1, h1) \<leftarrow> (if fst ph \<noteq> 0 then do { h1 \<leftarrow> rt_free (fst ph) (snd ph); Some (0, h1) } else Some ph);
          (p2, h2) \<leftarrow> (if prompt \<noteq> 0
                       then do { n \<leftarrow> strlen_at (bytes h1) prompt;
                                 (q, h2) \<leftarrow> rt_malloc (n + 1) h1;
                                 if q \<noteq> 0
                                 then do { k \<leftarrow> strlen_at (bytes h2) prompt;
                                           Some (q, h2\<lparr>bytes := copied (bytes h2) q prompt (k + 1)\<rparr>) }
                                 else Some (q, h2) }
                       else Some (p1, h1));
          Some (0, p2, h2) }"

section \<open>Words in memory and round addresses\<close>

lemma get_put_word: "get_word (put_word m a v) a = v"
proof (rule bit_word_eqI)
  fix n assume "n < LENGTH(32)"
  then show "bit (get_word (put_word m a v) a) n = bit v n"
    by (cases "n < 24"; cases "n < 16") (auto simp: get_word_def put_word_def bit_simps)
qed

lemma round_down: "unat (x AND NOT (2 ^ k - 1 :: u32)) = unat x div 2 ^ k * 2 ^ k"
proof -
  have "unat (x AND NOT (mask k)) = push_bit k (drop_bit k (unat x))"
    by (rule bit_eqI) (auto simp: bit_simps dest: bit_imp_le_length)
  then show ?thesis
    by (simp add: mask_eq_exp_minus_1 push_bit_nat_def drop_bit_nat_def)
qed

lemma low_bits: "x AND (2 ^ k - 1 :: u32) = 0 \<longleftrightarrow> unat x mod 2 ^ k = 0"
proof -
  have "unat (x AND mask k) = unat x mod 2 ^ k"
    by (simp add: take_bit_eq_mask [symmetric] unsigned_take_bit_eq take_bit_nat_def)
  then show ?thesis
    by (metis mask_eq_exp_minus_1 unat_eq_zero)
qed

lemma round4: "unat sz + 3 < 2 ^ 32 \<Longrightarrow> unat ((sz + 3) AND NOT 3 :: u32) = (unat sz + 3) div 4 * 4"
  using round_down [of "sz + 3" 2] by (simp add: unat_word_ariths)

lemma two_power: "k < 32 \<Longrightarrow> unat (2 ^ k :: u32) = 2 ^ k"
proof -
  assume "k < 32"
  have "unat (word_of_nat (2 ^ k) :: u32) = 2 ^ k mod 2 ^ 32"
    by (simp only: unat_of_nat) simp
  then show ?thesis
    using power_strict_increasing [OF \<open>k < 32\<close>, of "2 :: nat"] by simp
qed

lemma align_ptr_law:
  assumes "unat p mod 4 = 0" "2 \<le> k" "k < 32" "unat p + 2 ^ k < 2 ^ 32"
  shows "unat (align_ptr p (2 ^ k)) mod 2 ^ k = 0" "unat p + 4 \<le> unat (align_ptr p (2 ^ k))" "unat (align_ptr p (2 ^ k)) \<le> unat p + 2 ^ k"
proof -
  have u: "unat (2 ^ k :: u32) = 2 ^ k"
    by (rule two_power [OF assms(3)])
  have four: "(4 :: nat) dvd 2 ^ k"
    using le_imp_power_dvd [OF assms(2), of 2] by simp
  have "unat (align_ptr p (2 ^ k)) mod 2 ^ k = 0 \<and> unat p + 4 \<le> unat (align_ptr p (2 ^ k)) \<and> unat (align_ptr p (2 ^ k)) \<le> unat p + 2 ^ k"
  proof (cases "unat p mod 2 ^ k = 0")
    case True
    then have "unat (align_ptr p (2 ^ k)) = unat p + 2 ^ k"
      using assms(4) u by (simp add: align_ptr_def low_bits unat_word_ariths)
    moreover have "(4 :: nat) \<le> 2 ^ k"
      using four by (simp add: dvd_imp_le)
    ultimately show ?thesis
      using True by simp
  next
    case False
    have "unat (p + (2 ^ k - 1)) = unat p + (2 ^ k - 1)"
      using assms(4) u by (simp add: unat_word_ariths unat_sub word_le_nat_alt)
    then have q: "unat (align_ptr p (2 ^ k)) = (unat p + (2 ^ k - 1)) div 2 ^ k * 2 ^ k"
      using False by (simp add: align_ptr_def low_bits round_down)
    define r where "r = unat p mod 2 ^ k"
    have r: "0 < r" "r < 2 ^ k" "unat p = unat p div 2 ^ k * 2 ^ k + r"
      using False by (simp_all add: r_def div_mult_mod_eq)
    define d where "d = unat p div 2 ^ k"
    have pd: "unat p = d * 2 ^ k + r"
      using r(3) by (simp only: d_def)
    have "(unat p + (2 ^ k - 1)) div 2 ^ k = d + 1"
      using r(1,2) by (intro div_nat_eqI) (simp_all add: pd mult.commute)
    then have eq: "unat (align_ptr p (2 ^ k)) + r = unat p + 2 ^ k"
      using q pd by simp
    have "4 dvd unat (align_ptr p (2 ^ k))"
      using q four by simp
    then have "4 dvd unat (align_ptr p (2 ^ k)) - unat p"
      using assms(1) by (simp add: dvd_diff_nat mod_0_imp_dvd)
    then have "4 \<le> unat (align_ptr p (2 ^ k)) - unat p"
      using eq r(2) by (intro dvd_imp_le) simp_all
    then show ?thesis
      using eq q by simp
  qed
  then show "unat (align_ptr p (2 ^ k)) mod 2 ^ k = 0" "unat p + 4 \<le> unat (align_ptr p (2 ^ k))" "unat (align_ptr p (2 ^ k)) \<le> unat p + 2 ^ k"
    by simp_all
qed

section \<open>Aligned blocks\<close>

text \<open>The block that is got from the heap, what the client sees of it, and the way back.\<close>

theorem malloc_align_correct:
  assumes "heap_wf h" "2 \<le> k" "k < 31" "0 < unat sz" "unat sz + 2 ^ k + 6 < 2 ^ 32" "rt_malloc_align sz (2 ^ k) h = Some (q, h')" "q \<noteq> 0"
  shows "q mod 2 ^ k = 0 \<and> heap_wf h' \<and>
    (\<exists>p m. live h p = None \<and> live h' = (live h)(p \<mapsto> m) \<and> p + 4 \<le> q \<and> q + unat sz \<le> p + m) \<and>
    (\<forall>b n i. live h b = Some n \<longrightarrow> i < n \<longrightarrow> bytes h' (b + i) = bytes h (b + i)) \<and>
    (\<exists>h''. rt_free_align q h' = Some h'' \<and> heap_wf h'' \<and> live h'' = live h)"
proof -
  define s4 where "s4 = (unat sz + 3) div 4 * 4"
  have s4: "unat sz \<le> s4" "s4 \<le> unat sz + 3"
    by (simp_all add: s4_def)
  have p2: "unat (2 ^ k :: u32) = 2 ^ k" "(4 :: nat) dvd 2 ^ k"
    using two_power [of k] assms(2,3) le_imp_power_dvd [OF assms(2), of "2 :: nat"] by simp_all
  have al: "((2 ^ k + 3) AND NOT 3 :: u32) = 2 ^ k"
  proof -
    obtain c where c: "(2 :: nat) ^ k = 4 * c"
      using p2(2) by (auto elim: dvdE)
    have "unat ((2 ^ k + 3) AND NOT 3 :: u32) = unat (2 ^ k :: u32)"
      using round4 [of "2 ^ k"] p2(1) assms(5) by (simp add: c)
    then show ?thesis
      by (simp add: word_unat_eq_iff)
  qed
  have asz: "unat (((sz + 3) AND NOT 3) + 2 ^ k) = s4 + 2 ^ k"
    using round4 [of sz] assms(5) s4 p2(1) by (simp add: s4_def unat_word_ariths)
  obtain p h1 where p: "rt_malloc (s4 + 2 ^ k) h = Some (p, h1)" "p \<noteq> 0" and q: "q = unat (align_ptr (of_nat p) (2 ^ k))"
    and h': "h' = h1\<lparr>bytes := put_word (bytes h1) (unat (align_ptr (of_nat p) (2 ^ k) - 4)) (of_nat p)\<rparr>"
    using assms(6,7) unfolding rt_malloc_align_def Let_def al asz by (auto split: Option.bind_splits if_splits)
  obtain bs1 m where m: "heap_inv h1 bs1" "heap_static h h1" "live h p = None" "live h1 = (live h)(p \<mapsto> m)" "malloc_size (s4 + 2 ^ k) \<le> m"
    using malloc_returns [OF heap_wf_inv(1) [OF assms(1)], of "s4 + 2 ^ k"] p by auto
  have wf1: "heap_wf h1" and core1: "heap_core h1 bs1"
    using m(1) heap_inv_wf by (auto simp: heap_inv_def)
  have fit: "s4 + 2 ^ k \<le> m"
    using malloc_size_props(3) [of "s4 + 2 ^ k"] m(5) assms(5) s4 by simp
  note region = live_region [OF core1, of p m]
  have "heap_ptr h1 + heap_end h1 < 2 ^ 32"
    using core1 by (auto simp: heap_core_def heap_frame_def)
  then have top: "p + m < 2 ^ 32" and p4: "p mod 4 = 0"
    using region m(4) by simp_all
  then have up: "unat (word_of_nat p :: u32) = p"
    by (simp add: unat_of_nat)
  have qq: "q mod 2 ^ k = 0" "p + 4 \<le> q" "q \<le> p + 2 ^ k"
    using align_ptr_law [of "of_nat p" k] assms(2,3) p4 fit top by (simp_all add: up q)
  have q4: "unat (align_ptr (of_nat p) (2 ^ k) - 4 :: u32) = q - 4" "unat (word_of_nat q - 4 :: u32) = q - 4"
    using qq(2,3) fit top by (simp_all add: q unat_sub word_le_nat_alt)
  have h1: "h' = h1\<lparr>bytes := put_word (bytes h1) (q - 4) (of_nat p)\<rparr>"
    by (simp add: h' q4)
  have "bytes h' (b + i) = bytes h (b + i)" if b: "live h b = Some n" "i < n" for b n i
  proof -
    have "b \<noteq> p" "live h1 b = Some n"
      using b(1) m(3,4) by auto
    then have "b + n \<le> p \<or> p + m \<le> b"
      using live_disjoint [OF core1, of b n p m] m(4) by simp
    then show ?thesis
      using b(2) qq fit s4(1) m(2) by (auto simp: h1 put_word_def heap_static_def)
  qed
  moreover have "rt_free_align q h' = rt_free p h'"
    by (simp add: rt_free_align_def q4 h1 get_put_word up)
  moreover obtain h'' where "rt_free p h' = Some h''" "heap_wf h''" "live h'' = live h"
    using rt_heap.release_law [of h' p m] m(3,4) wf1 by (auto simp: h1 fun_upd_idem)
  moreover have "live h p = None \<and> live h' = (live h)(p \<mapsto> m) \<and> p + 4 \<le> q \<and> q + unat sz \<le> p + m"
    using qq m(3,4) fit s4(1) by (simp add: h1)
  moreover have "heap_wf h'"
    using wf1 by (simp add: h1)
  ultimately show ?thesis
    using qq(1) by metis
qed

text \<open>An alignment of zero makes every address round down to zero: the block is lost, its address is stored at the top of
  the address space, and the client gets a null pointer.\<close>

lemma align_zero_loses_block:
  assumes "rt_malloc (unat ((sz + 3) AND NOT 3 :: u32)) h = Some (p, h1)" "p \<noteq> 0" "p < 2 ^ 32"
  shows "rt_malloc_align sz 0 h = Some (0, h1\<lparr>bytes := put_word (bytes h1) 0xFFFFFFFC (of_nat p)\<rparr>)"
proof -
  have "(word_of_nat p :: u32) \<noteq> 0"
    using assms(2,3) by (auto simp: word_unat_eq_iff unat_of_nat)
  then have "align_ptr (word_of_nat p) 0 = 0"
    by (simp add: align_ptr_def)
  then show ?thesis
    using assms(1,2) by (simp add: rt_malloc_align_def Let_def)
qed

text \<open>The size that is asked from the heap is a 32-bit sum: for a block of almost 4 GiB it is four bytes.\<close>

lemma align_size_wraps: "rt_malloc 4 h = Some (p, h1) \<Longrightarrow> p \<noteq> 0 \<Longrightarrow> \<exists>q h'. rt_malloc_align 0xFFFFFFFC 8 h = Some (q, h')"
  by (simp add: rt_malloc_align_def Let_def)

section \<open>Copies of strings\<close>

text \<open>There is a string of \<open>n\<close> characters at the address.\<close>

lemma strlen_at_iff: "strlen_at m a = Some n \<longleftrightarrow> m (a + n) = 0 \<and> (\<forall>i<n. m (a + i) \<noteq> 0)"
proof (induction n arbitrary: a)
  case 0
  then show ?case
    by (subst strlen_at.simps) (auto split: Option.bind_splits)
next
  case (Suc n)
  have "strlen_at m a = Some (Suc n) \<longleftrightarrow> m a \<noteq> 0 \<and> strlen_at m (a + 1) = Some n"
    by (subst strlen_at.simps) (auto split: Option.bind_splits)
  then show ?case
    using Suc [of "a + 1"] by (auto simp: All_less_Suc2)
qed

lemma strlen_at_copied: "strlen_at m s = Some n \<Longrightarrow> strlen_at (copied m d s (n + 1)) d = Some n"
  by (simp add: strlen_at_iff copied_def)

text \<open>Bytes the heap will not give out: those of the blocks in use, and all that lie outside the heap.\<close>

definition kept_byte :: "heap \<Rightarrow> nat \<Rightarrow> bool" where
  "kept_byte h a \<longleftrightarrow> (\<exists>b m. live h b = Some m \<and> b \<le> a \<and> a < b + m) \<or> a < heap_ptr h \<or> heap_ptr h + heap_end h \<le> a"

lemma new_block_apart:
  assumes "heap_wf h" "rt_malloc n h = Some (q, h1)" "q \<noteq> 0" "n + 3 < 2 ^ 32" "kept_byte h a"
  shows "a < q \<or> q + n \<le> a"
proof -
  obtain bs1 m where m: "heap_inv h1 bs1" "heap_static h h1" "live h q = None" "live h1 = (live h)(q \<mapsto> m)" "malloc_size n \<le> m"
    using malloc_returns [OF heap_wf_inv(1) [OF assms(1)], of n] assms(2,3) by auto
  have core: "heap_core h1 bs1" and place: "heap_ptr h1 = heap_ptr h" "heap_end h1 = heap_end h"
    using m(1,2) by (auto simp: heap_inv_def heap_static_def same_place_def)
  have fit: "n \<le> m"
    using malloc_size_props(3) [OF assms(4)] m(5) by simp
  note region = live_region [OF core, of q m]
  show ?thesis
  proof (cases "\<exists>b k. live h b = Some k \<and> b \<le> a \<and> a < b + k")
    case True
    then obtain b k where b: "live h b = Some k" "b \<le> a" "a < b + k"
      by blast
    then have "b \<noteq> q" "live h1 b = Some k"
      using m(3,4) by auto
    then show ?thesis
      using live_disjoint [OF core, of b k q m] m(4) b fit by auto
  next
    case False
    then show ?thesis
      using assms(5) region m(4) fit place by (auto simp: kept_byte_def)
  qed
qed

lemma bytes_before: "(\<And>i. i < n \<Longrightarrow> s + i < d \<or> d + k \<le> s + i) \<Longrightarrow> 0 < k \<Longrightarrow> d \<le> s \<or> s + n \<le> (d :: nat)"
proof (rule ccontr)
  assume apart: "\<And>i. i < n \<Longrightarrow> s + i < d \<or> d + k \<le> s + i" and "0 < k" "\<not> (d \<le> s \<or> s + n \<le> d)"
  then show False
    using apart [of "d - s"] by linarith
qed

text \<open>Filling a new block with the string at \<open>s\<close>: the copy reads as the original, which still is what it was.\<close>

lemma fill_new_block:
  assumes "heap_wf h" "strlen_at (bytes h) s = Some n" "n + 4 < 2 ^ 32" "\<And>i. i \<le> n \<Longrightarrow> kept_byte h (s + i)"
    and "rt_malloc (n + 1) h = Some (q, h1)" "q \<noteq> 0"
  defines "m' \<equiv> copied (bytes h) q s (n + 1)"
  shows "bytes h1 = bytes h" "rt_memcpy (bytes h) q s (n + 1) = m'" "strlen_at m' q = Some n"
    "\<And>i. i \<le> n \<Longrightarrow> m' (q + i) = bytes h (s + i)" "\<And>a. kept_byte h a \<Longrightarrow> m' a = bytes h a"
proof -
  note apart = new_block_apart [OF assms(1,5,6), unfolded add.assoc]
  have src: "s + i < q \<or> q + (n + 1) \<le> s + i" if "i < n + 1" for i
    using apart [OF _ assms(4) [of i]] that assms(3) by simp
  show "bytes h1 = bytes h"
    using malloc_returns [OF heap_wf_inv(1) [OF assms(1)], of "n + 1"] assms(5) by (auto simp: heap_static_def)
  show "rt_memcpy (bytes h) q s (n + 1) = m'"
    using bytes_before [of "n + 1" s q "n + 1"] src by (simp add: m'_def rt_memcpy_copied del: add_Suc_right)
  show "strlen_at m' q = Some n"
    unfolding m'_def by (rule strlen_at_copied) (rule assms(2))
  show "m' (q + i) = bytes h (s + i)" if "i \<le> n" for i
    using that by (simp add: m'_def copied_def)
  show "m' a = bytes h a" if "kept_byte h a" for a
    using apart [OF _ that] assms(3) by (auto simp: m'_def copied_def)
qed

text \<open>Duplicating a string that lies in a block in use or outside the heap always returns: with a null pointer and the heap
  as it was, or with a new block that holds the same string; all other blocks keep their contents.\<close>

theorem strdup_correct:
  assumes "heap_wf h" "strlen_at (bytes h) s = Some n" "n + 4 < 2 ^ 32" "\<And>i. i \<le> n \<Longrightarrow> kept_byte h (s + i)"
  shows "\<exists>q h'. rt_strdup s h = Some (q, h') \<and> heap_wf h' \<and>
    (if q = 0 then h' = h
     else live h q = None \<and> (\<exists>m>n. live h' = (live h)(q \<mapsto> m)) \<and> strlen_at (bytes h') q = Some n \<and>
       (\<forall>i\<le>n. bytes h' (q + i) = bytes h (s + i)) \<and> (\<forall>a. kept_byte h a \<longrightarrow> bytes h' a = bytes h a))"
proof -
  obtain q h1 where q: "rt_malloc (n + 1) h = Some (q, h1)" "heap_wf h1"
    "if q = 0 then h1 = h else live h q = None \<and> (\<exists>m\<ge>n + 1. live h1 = (live h)(q \<mapsto> m))"
    using rt_heap.alloc_law [OF assms(1), of "n + 1"] assms(3) by auto
  show ?thesis
  proof (cases "q = 0")
    case True
    then show ?thesis
      using q assms(1,2) by (simp add: rt_strdup_def)
  next
    case False
    note f = fill_new_block [OF assms q(1) False]
    have "rt_strdup s h = Some (q, h1\<lparr>bytes := copied (bytes h) q s (n + 1)\<rparr>)"
      using f(2) q(1) False assms(2) by (simp add: rt_strdup_def Let_def f(1))
    then show ?thesis
      using q(2,3) False f(3-5) by (auto simp: Suc_le_eq)
  qed
qed

lemma rt_free_null: "rt_free 0 h = Some h"
  by (simp add: rt_free_def)

lemma free_bytes:
  assumes "heap_wf h" "live h p = Some m"
  obtains h' where "rt_free p h = Some h'" "heap_wf h'" "live h' = (live h)(p := None)" "bytes h' = bytes h"
  using free_inv [OF heap_wf_inv(1) [OF assms(1)] assms(2)] heap_inv_wf by metis

text \<open>Setting the prompt frees the old one: the shell holds one block at most.  The new prompt is what was given, when the
  heap has room for it; otherwise the shell has its default prompt again.\<close>

theorem set_prompt_correct:
  assumes "heap_wf h" "p = 0 \<or> live h p \<noteq> None" "prompt \<noteq> 0" "strlen_at (bytes h) prompt = Some n" "n + 4 < 2 ^ 32"
    and "\<And>h1 i. rt_free p h = Some h1 \<Longrightarrow> i \<le> n \<Longrightarrow> kept_byte h1 (prompt + i)"
  shows "\<exists>q h'. finsh_set_prompt prompt (p, h) = Some (0, q, h') \<and> heap_wf h' \<and>
    (if q = 0 then live h' = (live h)(p := None)
     else (\<exists>m>n. live h' = (live h)(p := None, q \<mapsto> m)) \<and> strlen_at (bytes h') q = Some n \<and>
       (\<forall>i\<le>n. bytes h' (q + i) = bytes h (prompt + i)))"
proof -
  have "live h 0 = None"
    using live_region(1) [OF heap_wf_inv(2) [OF assms(1)], of 0] by (meson not_add_less2 not_None_eq not_numeral_le_zero add_leE)
  then have "\<exists>h1. rt_free p h = Some h1 \<and> heap_wf h1 \<and> live h1 = (live h)(p := None) \<and> bytes h1 = bytes h"
    using assms(1,2) free_bytes [of h p] by (cases "p = 0") (simp add: rt_free_null fun_upd_idem, metis not_None_eq)
  then obtain h1 where h1: "rt_free p h = Some h1" "heap_wf h1" "live h1 = (live h)(p := None)" "bytes h1 = bytes h"
    by blast
  have first: "(if p \<noteq> 0 then do { h1 \<leftarrow> rt_free p h; Some (0, h1) } else Some (p, h)) = Some (0, h1)"
    using h1(1) by (cases "p = 0") (simp_all add: rt_free_null)
  have src: "strlen_at (bytes h1) prompt = Some n" "\<And>i. i \<le> n \<Longrightarrow> kept_byte h1 (prompt + i)"
    using assms(4,6) h1 by simp_all
  obtain q h2 where q: "rt_malloc (n + 1) h1 = Some (q, h2)" "heap_wf h2"
    "if q = 0 then h2 = h1 else live h1 q = None \<and> (\<exists>m\<ge>n + 1. live h2 = (live h1)(q \<mapsto> m))"
    using rt_heap.alloc_law [OF h1(2), of "n + 1"] assms(5) by auto
  show ?thesis
  proof (cases "q = 0")
    case True
    then have "finsh_set_prompt prompt (p, h) = Some (0, 0, h1)"
      unfolding finsh_set_prompt_def fst_conv snd_conv first using q src(1) assms(3) by simp
    then show ?thesis
      using h1 by auto
  next
    case False
    note f = fill_new_block [OF h1(2) src(1) assms(5) src(2) q(1) False]
    have "finsh_set_prompt prompt (p, h) = Some (0, q, h2\<lparr>bytes := copied (bytes h1) q prompt (n + 1)\<rparr>)"
      unfolding finsh_set_prompt_def fst_conv snd_conv first using q(1) src(1) assms(3) False by (simp add: f(1))
    then show ?thesis
      using q(2,3) False f(3,4) h1(3,4) by (auto simp: Suc_le_eq)
  qed
qed

end
