(* ===== verification/Irq.thy ===== *)
theory Irq
  imports Ipc
begin

text \<open>
  Interrupt nesting (\<^verbatim>\<open>src/rt-thread/src/irq.c\<close>) and the error cell of the running context
  (\<^verbatim>\<open>src/rt-thread/src/kservice.c\<close>).  The nesting counter has eight bits.  Outside interrupts the cell is the
  one of the running thread, in an interrupt or before the first thread it is a variable of the kernel.  The hooks
  and the debug output are left out.
\<close>

section \<open>State and operations\<close>

record cpu =
  rt_interrupt_nest :: u8
  kernel_errno :: rt_err_t
  cpu_kern :: sched

definition rt_interrupt_enter :: "cpu \<Rightarrow> cpu" where
  "rt_interrupt_enter c = c\<lparr>rt_interrupt_nest := rt_interrupt_nest c + 1\<rparr>"

definition rt_interrupt_leave :: "cpu \<Rightarrow> cpu" where
  "rt_interrupt_leave c = c\<lparr>rt_interrupt_nest := rt_interrupt_nest c - 1\<rparr>"

definition rt_interrupt_get_nest :: "cpu \<Rightarrow> u8" where
  "rt_interrupt_get_nest c = rt_interrupt_nest c"

definition rt_get_errno :: "cpu \<Rightarrow> rt_err_t" where
  "rt_get_errno c =
     (if rt_interrupt_get_nest c \<noteq> 0 then kernel_errno c
      else case rt_current_thread (cpu_kern c) of
             None \<Rightarrow> kernel_errno c
           | Some tid \<Rightarrow> error (threads (cpu_kern c) tid))"

definition rt_set_errno :: "rt_err_t \<Rightarrow> cpu \<Rightarrow> cpu" where
  "rt_set_errno e c =
     (if rt_interrupt_get_nest c \<noteq> 0 then c\<lparr>kernel_errno := e\<rparr>
      else case rt_current_thread (cpu_kern c) of
             None \<Rightarrow> c\<lparr>kernel_errno := e\<rparr>
           | Some tid \<Rightarrow> c\<lparr>cpu_kern := set_error tid e (cpu_kern c)\<rparr>)"

text \<open>The address \<open>_rt_errno\<close> gives is that of the kernel's variable or of the field of a thread.\<close>

datatype errno_cell = Kernel_Errno | Thread_Error nat

definition rt_errno :: "cpu \<Rightarrow> errno_cell" where
  "rt_errno c =
     (if rt_interrupt_get_nest c \<noteq> 0 then Kernel_Errno
      else case rt_current_thread (cpu_kern c) of
             Some tid \<Rightarrow> Thread_Error tid
           | None \<Rightarrow> Kernel_Errno)"

fun read_cell :: "errno_cell \<Rightarrow> cpu \<Rightarrow> rt_err_t" where
  "read_cell Kernel_Errno c = kernel_errno c"
| "read_cell (Thread_Error tid) c = error (threads (cpu_kern c) tid)"

fun write_cell :: "errno_cell \<Rightarrow> rt_err_t \<Rightarrow> cpu \<Rightarrow> cpu" where
  "write_cell Kernel_Errno e c = c\<lparr>kernel_errno := e\<rparr>"
| "write_cell (Thread_Error tid) e c = c\<lparr>cpu_kern := set_error tid e (cpu_kern c)\<rparr>"

section \<open>One cell for each context\<close>

text \<open>A store of cells: what is read after a write, of the cell that was written and of the others.\<close>

locale cells =
  fixes rd :: "'c \<Rightarrow> 's \<Rightarrow> 'v" and wr :: "'c \<Rightarrow> 'v \<Rightarrow> 's \<Rightarrow> 's"
  assumes read_written: "rd a (wr a v s) = v"
    and read_other: "a \<noteq> b \<Longrightarrow> rd a (wr b v s) = rd a s"
begin

text \<open>After any sequence of writes a cell holds what was written to it last.\<close>

lemma last_write:
  "rd a (fold (\<lambda>(b, v). wr b v) ws s) = (case find (\<lambda>(b, v). b = a) (rev ws) of Some (_, v) \<Rightarrow> v | None \<Rightarrow> rd a s)"
proof (induction ws rule: rev_induct)
  case (snoc w ws)
  then show ?case
    by (cases w) (auto simp: read_written read_other)
qed simp

end

interpretation errno_cells: cells read_cell write_cell
proof unfold_locales
  fix a b v s
  show "read_cell a (write_cell a v s) = v"
    by (cases a) (simp_all add: thread_upd_def)
  show "read_cell a (write_cell b v s) = read_cell a s" if "a \<noteq> b"
    using that by (cases a; cases b) (auto simp: thread_upd_def)
qed

lemma errno_is_cell:
  "rt_get_errno c = read_cell (rt_errno c) c" "rt_set_errno e c = write_cell (rt_errno c) e c" "rt_errno (rt_set_errno e c) = rt_errno c"
  by (simp_all add: rt_get_errno_def rt_set_errno_def rt_errno_def rt_interrupt_get_nest_def thread_upd_def split: option.split)

text \<open>The error that was set is the one that is got, until another context with the same cell sets it; an interrupt does
  not touch the error of the thread it interrupts, nor one thread that of another.\<close>

lemma errno_roundtrip: "rt_get_errno (rt_set_errno e c) = e"
  unfolding errno_is_cell(1,3) by (simp add: errno_is_cell(2) errno_cells.read_written)

lemma errno_of_others_kept:
  "rt_errno c \<noteq> Thread_Error t \<Longrightarrow> error (threads (cpu_kern (rt_set_errno e c)) t) = error (threads (cpu_kern c) t)"
  using errno_cells.read_other [of "Thread_Error t" "rt_errno c" e c] by (simp add: errno_is_cell(2))

lemma interrupt_keeps_thread_error:
  assumes "rt_interrupt_nest c = 0"
  shows "rt_get_errno (rt_interrupt_leave (rt_set_errno e (rt_interrupt_enter (rt_set_errno e0 c)))) =
    (if rt_current_thread (cpu_kern c) = None then e else e0)"
  using assms by (auto simp: rt_get_errno_def rt_set_errno_def rt_interrupt_enter_def rt_interrupt_leave_def rt_interrupt_get_nest_def
    thread_upd_def split: option.split)

section \<open>The nesting counter\<close>

text \<open>The interrupts that are open after a sequence of entries (\<open>True\<close>) and returns (\<open>False\<close>): \<open>None\<close> when there is a
  return without an entry.\<close>

fun depth :: "bool list \<Rightarrow> nat \<Rightarrow> nat option" where
  "depth [] n = Some n"
| "depth (True # es) n = depth es (n + 1)"
| "depth (False # es) n = (if n = 0 then None else depth es (n - 1))"

definition irq_run :: "bool list \<Rightarrow> cpu \<Rightarrow> cpu" where
  "irq_run es c = fold (\<lambda>e. if e then rt_interrupt_enter else rt_interrupt_leave) es c"

lemma nest_counts:
  assumes "depth es n = Some d" "rt_interrupt_nest c = of_nat n"
  shows "rt_interrupt_nest (irq_run es c) = of_nat d"
  using assms
proof (induction es n arbitrary: c rule: depth.induct)
  case (2 es n)
  then show ?case
    by (simp add: irq_run_def rt_interrupt_enter_def)
next
  case (3 es n)
  then show ?case
    by (auto simp: irq_run_def rt_interrupt_leave_def of_nat_diff split: if_splits)
qed (simp add: irq_run_def)

text \<open>With fewer than 256 interrupts open, the kernel takes itself to be in an interrupt exactly when it is.  The core has
  sixteen priorities at most, so that is always so.\<close>

lemma nest_tells_interrupt:
  assumes "depth es 0 = Some d" "d < 256" "rt_interrupt_nest c = 0"
  shows "rt_interrupt_get_nest (irq_run es c) \<noteq> 0 \<longleftrightarrow> d > 0"
proof -
  have "rt_interrupt_nest (irq_run es c) = of_nat d"
    by (rule nest_counts [OF assms(1)]) (simp add: assms(3))
  then show ?thesis
    using assms(2) by (auto simp: rt_interrupt_get_nest_def word_unat_eq_iff unat_of_nat)
qed

end
