(* ===== verification/Console_Dev.thy ===== *)
theory Console_Dev
  imports Objects Serial
begin

text \<open>
  The console device of \<^verbatim>\<open>src/rt-thread/src/kservice.c\<close>: choosing it by name and writing to it.  The devices are those of
  the object container, each with the operations of its driver (\<open>ops\<close>) and the state of the driver.  Without a console
  device the text goes to \<open>rt_hw_console_output\<close>, which is weak and empty in the kernel; \<open>hw_output\<close> collects it.
\<close>

section \<open>State and operations\<close>

abbreviation (input) RT_DEVICE_OFLAG_RDWR :: u16 where "RT_DEVICE_OFLAG_RDWR \<equiv> 0x003"

record 's console =
  console_device :: "nat option"
  dev_sys :: device_sys
  driver :: "nat \<Rightarrow> 's"
  hw_output :: string

definition device_at :: "nat \<Rightarrow> 's console \<Rightarrow> rt_device \<times> 's" where
  "device_at v c = (devs (dev_sys c) v, driver c v)"

definition put_device_at :: "nat \<Rightarrow> rt_device \<times> 's \<Rightarrow> 's console \<Rightarrow> 's console" where
  "put_device_at v dx c = c\<lparr>dev_sys := (dev_sys c)\<lparr>devs := (devs (dev_sys c))(v := fst dx)\<rparr>, driver := (driver c)(v := snd dx)\<rparr>"

definition rt_console_get_device :: "'s console \<Rightarrow> nat option" where
  "rt_console_get_device c = console_device c"

definition rt_console_set_device :: "(nat \<Rightarrow> 's rt_device_ops) \<Rightarrow> string \<Rightarrow> 's console \<Rightarrow> (nat option \<times> 's console) option" where
  "rt_console_set_device ops name c =
     (let old_device = console_device c; new_device = rt_device_find name (dev_sys c) in
      if new_device = old_device then Some (None, c)
      else case new_device of
             None \<Rightarrow> Some (old_device, c)
           | Some v \<Rightarrow>
               do { c1 \<leftarrow> (case old_device of
                             None \<Rightarrow> Some c
                           | Some u \<Rightarrow> do { (_, dx) \<leftarrow> rt_device_close (ops u) (device_at u c); Some (put_device_at u dx c) });
                    (_, dx) \<leftarrow> rt_device_open (ops v) (RT_DEVICE_OFLAG_RDWR OR RT_DEVICE_FLAG_STREAM) (device_at v c1);
                    Some (old_device, (put_device_at v dx c1)\<lparr>console_device := Some v\<rparr>) })"

definition string_bytes :: "string \<Rightarrow> u8 list" where
  "string_bytes s = map of_char s"

definition kputs_device :: "(nat \<Rightarrow> 's rt_device_ops) \<Rightarrow> string option \<Rightarrow> 's console \<Rightarrow> 's console option" where
  "kputs_device ops str c =
     (case str of
        None \<Rightarrow> Some c
      | Some s \<Rightarrow>
          (case console_device c of
             None \<Rightarrow> Some (c\<lparr>hw_output := hw_output c @ c_str s\<rparr>)
           | Some v \<Rightarrow>
               let (d, x) = device_at v c; old_flag = open_flag d in
               do { (_, _, d1, x1) \<leftarrow> rt_device_write (ops v) (string_bytes (take (rt_strlen s) s))
                                         (d\<lparr>open_flag := open_flag d OR RT_DEVICE_FLAG_STREAM\<rparr>, x);
                    Some (put_device_at v (d1\<lparr>open_flag := old_flag\<rparr>, x1) c) }))"

section \<open>Changing the console\<close>

lemma device_at_put [simp]: "device_at v (put_device_at v dx c) = dx" "u \<noteq> v \<Longrightarrow> device_at u (put_device_at v dx c) = device_at u c"
  "console_device (put_device_at v dx c) = console_device c" "objs (dev_sys (put_device_at v dx c)) = objs (dev_sys c)"
  "device_at v (c\<lparr>console_device := w\<rparr>) = device_at v c"
  by (simp_all add: device_at_def put_device_at_def)

text \<open>A name that is not registered, or that of the console itself, changes nothing.  The result tells the two apart from a
  change only when there was a console before.\<close>

lemma console_kept:
  assumes "rt_device_find name (dev_sys c) \<in> {None, console_device c}"
  shows "rt_console_set_device ops name c = Some (if rt_device_find name (dev_sys c) = None then console_device c else None, c)"
  using assms by (cases "rt_device_find name (dev_sys c)") (auto simp: rt_console_set_device_def Let_def)

text \<open>What \<open>rt_device_open\<close> says is not looked at.  The device becomes the console even when its driver cannot start it; all
  output is then lost without an error.\<close>

definition dead_ops :: "unit rt_device_ops" where
  "dead_ops = \<lparr>op_init = Some (\<lambda>dx. Some (- RT_ERROR, dx)), op_open = None, op_close = None, op_read = None,
     op_write = Some (\<lambda>bs dx. Some (length bs, dx)), op_control = None\<rparr>"

lemma dead_device_becomes_console:
  assumes "console_device c = None" "rt_device_find name (dev_sys c) = Some v" "device_at v c = (d, ())"
    "dev_flag d AND RT_DEVICE_FLAG_ACTIVATED = 0" "ref_count d = 0"
  shows "\<exists>c'. rt_console_set_device (\<lambda>_. dead_ops) name c = Some (None, c') \<and> console_device c' = Some v \<and>
    ref_count (fst (device_at v c')) = 0 \<and> (\<forall>s. \<exists>d'. kputs_device (\<lambda>_. dead_ops) (Some s) c' = Some (put_device_at v (d', ()) c'))"
  using assms by (auto simp: rt_console_set_device_def rt_device_open_def activate_first_def dead_ops_def kputs_device_def rt_device_write_def)

section \<open>The console over a serial port\<close>

lemma rdwr_stream_flags:
  "(RT_DEVICE_OFLAG_RDWR OR RT_DEVICE_FLAG_STREAM) AND RT_DEVICE_FLAG_INT_RX = 0" "(RT_DEVICE_OFLAG_RDWR OR RT_DEVICE_FLAG_STREAM) AND RT_DEVICE_FLAG_INT_TX = 0"
  "(RT_DEVICE_OFLAG_RDWR OR RT_DEVICE_FLAG_STREAM) AND RT_DEVICE_FLAG_DMA_RX = 0" "(RT_DEVICE_OFLAG_RDWR OR RT_DEVICE_FLAG_STREAM) AND RT_DEVICE_FLAG_DMA_TX = 0"
  "(RT_DEVICE_OFLAG_RDWR OR RT_DEVICE_FLAG_STREAM) AND RT_DEVICE_FLAG_STREAM \<noteq> 0"
  by simp_all

text \<open>A registered serial port that was never opened is opened for the console.\<close>

lemma serial_console_opens:
  assumes "dev_flag d AND RT_DEVICE_FLAG_ACTIVATED = 0" "ref_count d = 0" "open_flag d = 0" "configure_result x = RT_EOK"
  shows "\<exists>d'. rt_device_open serial_ops (RT_DEVICE_OFLAG_RDWR OR RT_DEVICE_FLAG_STREAM) (d, x) =
      Some (RT_EOK, d', calls [Configure] (x\<lparr>serial_rx := None, serial_tx := False\<rparr>)) \<and>
    ref_count d' = 1 \<and> open_flag d' = RT_DEVICE_OFLAG_RDWR OR RT_DEVICE_FLAG_STREAM OR RT_DEVICE_OFLAG_OPEN"
  using assms by (simp add: rt_device_open_def activate_first_def serial_ops_def rt_serial_init_def rt_serial_open_def lacks_def open_rx_def
    open_tx_def calls_def)

text \<open>Text for an open serial console is on the line, each newline with a carriage return before it; the flags of the port
  are as they were.\<close>

lemma serial_kputs:
  assumes "console_device c = Some v" "device_at v c = (d, x)" "ref_count d \<noteq> 0" "open_flag d AND RT_DEVICE_FLAG_INT_TX \<noteq> 0 \<longrightarrow> serial_tx x"
  shows "kputs_device (\<lambda>_. serial_ops) (Some s) c =
    Some (put_device_at v (d, x\<lparr>tx_line := tx_line x @ line_text True (string_bytes (c_str s))\<rparr>) c)"
proof -
  have "take (rt_strlen s) s = c_str s"
    by (simp add: rt_strlen_c_str c_str_def takeWhile_eq_take [symmetric])
  moreover have "(open_flag d OR RT_DEVICE_FLAG_STREAM) AND RT_DEVICE_FLAG_INT_TX = open_flag d AND RT_DEVICE_FLAG_INT_TX"
    "(open_flag d OR RT_DEVICE_FLAG_STREAM) AND RT_DEVICE_FLAG_STREAM \<noteq> 0"
    by (simp_all add: word_ao_dist)
  ultimately show ?thesis
    using assms by (auto simp: kputs_device_def rt_device_write_def serial_ops_def rt_serial_write_def string_bytes_def)
qed

lemma serial_kputs_all:
  assumes "console_device c = Some v" "device_at v c = (d, x)" "ref_count d \<noteq> 0" "open_flag d AND RT_DEVICE_FLAG_INT_TX = 0"
  shows "\<exists>c'. fold_opt (\<lambda>s. kputs_device (\<lambda>_. serial_ops) (Some s)) ls c = Some c' \<and> console_device c' = Some v \<and>
    tx_line (snd (device_at v c')) = tx_line x @ concat (map (\<lambda>s. line_text True (string_bytes (c_str s))) ls)"
  using assms
proof (induction ls arbitrary: c x)
  case (Cons l ls)
  let ?x = "x\<lparr>tx_line := tx_line x @ line_text True (string_bytes (c_str l))\<rparr>"
  show ?case
    using Cons.IH [of "put_device_at v (d, ?x) c" ?x] Cons.prems by (simp add: serial_kputs)
qed simp

text \<open>From the start-up of the board on: when the console has been set to a serial port, every line that is put on it is
  sent, in order.\<close>

theorem console_lines_sent:
  assumes "console_device c = None" "rt_device_find name (dev_sys c) = Some v" "device_at v c = (d, x)"
    and "dev_flag d AND RT_DEVICE_FLAG_ACTIVATED = 0" "ref_count d = 0" "open_flag d = 0" "configure_result x = RT_EOK"
  shows "\<exists>c1 c2. rt_console_set_device (\<lambda>_. serial_ops) name c = Some (None, c1) \<and>
    fold_opt (\<lambda>s. kputs_device (\<lambda>_. serial_ops) (Some s)) ls c1 = Some c2 \<and> console_device c2 = Some v \<and>
    tx_line (snd (device_at v c2)) = tx_line x @ concat (map (\<lambda>s. line_text True (string_bytes (c_str s))) ls)"
proof -
  obtain d' x' where o: "rt_device_open serial_ops (RT_DEVICE_OFLAG_RDWR OR RT_DEVICE_FLAG_STREAM) (d, x) = Some (RT_EOK, d', x')"
    "ref_count d' = 1" "open_flag d' = RT_DEVICE_OFLAG_RDWR OR RT_DEVICE_FLAG_STREAM OR RT_DEVICE_OFLAG_OPEN" "tx_line x' = tx_line x"
    using serial_console_opens [OF assms(4-7)] by (auto simp: calls_def)
  define c1 where "c1 = (put_device_at v (d', x') c)\<lparr>console_device := Some v\<rparr>"
  have "rt_console_set_device (\<lambda>_. serial_ops) name c = Some (None, c1)"
    using assms(1-3) o(1) by (simp add: rt_console_set_device_def c1_def)
  moreover have "open_flag d' AND RT_DEVICE_FLAG_INT_TX = 0"
    by (simp add: o(3))
  ultimately show ?thesis
    using serial_kputs_all [of c1 v d' x' ls] o(2,4) by (auto simp: c1_def)
qed

end
