(* ===== verification/Spec2Isabelle.thy ===== *)
theory Spec2Isabelle
  imports Firmware Objects Dataqueue Ringblk Workqueue Pipe Ipc_Create Mempool Mem_Align Irq Console_Dev
begin

text \<open>
  \<^bold>\<open>The RT-Thread stopwatch firmware: a verification library.\<close>

  The program is a stopwatch on an STM32F103C8T6: an application of nine C files over the RT-Thread
  4.0.3 kernel, configured by \<^verbatim>\<open>src/rtconfig.h\<close> (one processor, 32 priorities, 1000 ticks a second,
  soft timers, a shell of 80 characters and five history lines).  Paths below are relative to
  \<^verbatim>\<open>src/\<close>.

  \<^bold>\<open>Parts and how they interact.\<close>  \<^verbatim>\<open>applications/timebase.c\<close> turns the cycle counter, or the tick when
  the part has no counter, into microseconds.  \<^verbatim>\<open>applications/stopwatch.c\<close> keeps the stopwatch (state,
  accumulated time, the newest twenty laps) behind a mutex.  Four clients call it: the display
  thread of \<^verbatim>\<open>applications/ui_oled.c\<close>, which draws through \<^verbatim>\<open>qu_dong/OLED/OLED.c\<close>; the LED thread of
  \<^verbatim>\<open>applications/indicator_led.c\<close>; and the shell commands and the CSV timer of
  \<^verbatim>\<open>applications/stopwatch_cli.c\<close>.  The light sensor of \<^verbatim>\<open>applications/sensor_light.c\<close> switches the beeper
  of \<^verbatim>\<open>applications/notifier_buzzer.c\<close> and the refresh period of the display.  Text is formatted by
  \<^verbatim>\<open>rt-thread/src/kservice.c\<close>; command lines come from the editor of
  \<^verbatim>\<open>rt-thread/components/finsh/shell.c\<close> and are split and dispatched by \<^verbatim>\<open>msh.c\<close>.  Underneath are the
  kernel's timers (\<^verbatim>\<open>timer.c\<close>, \<^verbatim>\<open>clock.c\<close>), scheduler and threads (\<^verbatim>\<open>scheduler.c\<close>, \<^verbatim>\<open>thread.c\<close>),
  semaphores, mutexes, events, mailboxes and message queues (\<^verbatim>\<open>ipc.c\<close>), the heap (\<^verbatim>\<open>mem.c\<close>), memory pools (\<^verbatim>\<open>mempool.c\<close>), the idle thread (\<^verbatim>\<open>idle.c\<close>) and the
  ring buffer of the device drivers (\<^verbatim>\<open>ringbuffer.c\<close>).  Characters for the shell come from the UART through the
  serial driver (\<^verbatim>\<open>serial.c\<close>) and the device layer (\<^verbatim>\<open>device.c\<close>); a semaphore wakes the shell thread.

  \<^bold>\<open>Theories.\<close>  Each models one part; operations keep their C names, structures are records with
  the C field names, machine integers are words of their C width, and a failed assertion, an access
  out of bounds and a loop that does not end are the value \<open>None\<close>.

  \<^item> \<open>Prelude\<close>: word types, error codes, C division, copies into arrays, counted loops, and the
    interfaces \<open>bounded_history\<close> (a buffer of the newest \<open>n\<close> values) and \<open>recursive_lock\<close>; the contents of a
    ring of slots, which the serial buffer and the data queues share.
  \<^item> \<open>Timebase\<close>: \<^verbatim>\<open>timebase.c\<close> over a record of the hardware counters.  The interface \<open>us_clock\<close>
    says what a client may rely on, and is interpreted for both the cycle counter and the tick.
  \<^item> \<open>Stopwatch\<close>, \<open>Stopwatch_Refine\<close>: \<^verbatim>\<open>stopwatch.c\<close>; the invariant kept and the mutex given back
    on every path, and the refinement of an unbounded abstract stopwatch over every \<open>us_clock\<close>.  A session (\<open>sw_session\<close>)
    spells out what this needs: the cycle counter, a reading at least every \<open>2 ^ 32\<close> cycles while the stopwatch runs, fewer than 71
    hours, and no state-changing call at a reading of zero; \<open>unread_gap_is_lost\<close>, \<open>start_at_zero_is_lost\<close> and \<open>timebase_reading\<close> say what happens
    otherwise.
  \<^item> \<open>Peripherals\<close>: the buzzer and the LEDs as traces of pin events and delays.
  \<^item> \<open>Oled_Bus\<close>, \<open>Oled_Font\<close>, \<open>Oled\<close>: the bit-banged I2C bus as the levels of two wires, with a
    listener that decodes them; the fonts; the display buffer and the drawing routines, specified
    by the set of pixels they touch.
  \<^item> \<open>Kstring\<close>, \<open>Kprintf\<close>, \<open>Time_Text\<close>: the memory and string services on a byte memory with
    addresses, the formatter against a reference text, and the texts of the application.
  \<^item> \<open>Ui\<close>, \<open>Sensor\<close>, \<open>Cli\<close>: the pages of the display, the light sensor, the commands, the CSV
    timer function and the start-up of \<^verbatim>\<open>main.c\<close>.
  \<^item> \<open>Timer\<close>: hard and soft timers; a tick refines counting every running timer down by one.
  \<^item> \<open>Msh\<close>, \<open>Shell\<close>: splitting and dispatch of a line; the step of the shell thread on one
    character, against an abstract line editor and an abstract history.
  \<^item> \<open>Ringbuffer\<close>: the mirrored indexes against the interface \<open>byte_queue\<close>.
  \<^item> \<open>Scheduler\<close>, \<open>Ipc\<close>: ready queues, the priority bit map, thread states with the thread
    timers of \<open>Timer\<close>, semaphores, and mutexes with priority inheritance.
  \<^item> \<open>Mailbox\<close>, \<open>Msgqueue\<close>: the other queues of \<^verbatim>\<open>ipc.c\<close>, each against the interface \<open>bounded_fifo\<close>
    of \<open>Mailbox\<close>.  A call that has to wait ends with \<open>Waits\<close> and is continued by its \<open>_resumed\<close> part when the
    thread runs again, so that senders, receivers and time-outs interleave in any way.  The messages
    of a queue are records linked by their \<open>next\<close> pointers.
  \<^item> \<open>Event\<close>: event sets and the loop that wakes the threads they complete.
  \<^item> \<open>Mem\<close>: the heap of \<^verbatim>\<open>mem.c\<close>: the chain of block headers, against the interface \<open>allocator\<close>.
  \<^item> \<open>Mempool\<close>: \<^verbatim>\<open>mempool.c\<close>: free blocks linked through their headers, against the interface
    \<open>block_supply\<close>, with threads that wait for a block.
  \<^item> \<open>Thread_Life\<close>: creation, exit and deletion of threads and the idle thread that frees dead ones, with
    what is given back as a trace.  \<open>rt_thread_detach\<close> and \<open>rt_thread_delete\<close> are cut into the parts between which interrupts are
    enabled, and other threads and interrupts act in between.
  \<^item> \<open>Device\<close>, \<open>Serial\<close>: \<^verbatim>\<open>device.c\<close> over the operations of a driver, with the interface \<open>device_driver\<close> of
    what a driver owes the layer; \<^verbatim>\<open>serial.c\<close>, which is shown to be one, with its receive buffer, a
    \<open>bounded_history\<close>.
  \<^item> \<open>Objects\<close>: the lists of named kernel objects of \<^verbatim>\<open>object.c\<close> and the registration of devices over them.
  \<^item> \<open>Console\<close>: console input as interleaved steps of the UART interrupt, the shell's \<open>finsh_getchar\<close> loop and the
    rest of the system, over \<open>Serial\<close> and \<open>Ipc\<close>.
  \<^item> \<open>Firmware\<close>: the shell thread from the bytes on the UART to the operation of the stopwatch.
  \<^item> \<open>Ipc_Create\<close>: the objects of \<^verbatim>\<open>ipc.c\<close> that live on the heap.
  \<^item> \<open>Mem_Align\<close>: aligned blocks and copies of strings of \<^verbatim>\<open>kservice.c\<close> over the heap, and the shell's own prompt.
  \<^item> \<open>Irq\<close>: the nesting counter of \<^verbatim>\<open>irq.c\<close> and the error number, one cell for each context (locale \<open>cells\<close>).
  \<^item> \<open>Console_Dev\<close>: the console device of \<^verbatim>\<open>kservice.c\<close> over \<open>Objects\<close>, \<open>Device\<close> and \<open>Serial\<close>: what is put on the console
    is sent on the line.
  \<^item> \<open>Dataqueue\<close>: \<^verbatim>\<open>dataqueue.c\<close>, one more \<open>bounded_fifo\<close>, and \<^verbatim>\<open>completion.c\<close>.
  \<^item> \<open>Ringblk\<close>: \<^verbatim>\<open>ringblk_buf.c\<close>: blocks cut from a buffer in ring order.
  \<^item> \<open>Workqueue\<close>: \<^verbatim>\<open>workqueue.c\<close>: the operations and the steps of the worker thread, with delayed works over \<open>Timer\<close>.
  \<^item> \<open>Pipe\<close>: \<^verbatim>\<open>waitqueue.c\<close>, and \<^verbatim>\<open>pipe.c\<close> as a driver under \<open>Device\<close>, whose transfers are a \<open>byte_queue\<close>.

  \<^bold>\<open>Groups of results.\<close>  Refinements of an abstract machine: the stopwatch, the tick, the line
  editor, the ring buffer, pipes, mailboxes, message queues and data queues.  Invariants over every operation: the stopwatch, the timer lists, the
  paging of laps, the light sensor, the heap, the whole kernel state of threads, semaphores and mutexes, and the
  threads waiting for an event set, of which none is ever waiting for events that are there; the blocks
  of memory pools, which have one user each; the stacks of dead threads, of which none is lost; and a serial device,
  whose flags agree with its buffers; and the registry of devices, where each is found under its name; and the blocks of a ring block buffer, which never overlap.  Across components:
  \<open>typed_command_runs\<close>, that a command typed at the terminal is done exactly once, however its bytes arrive, and that the shell never
  sleeps while there is input for it.  Works run in the order of their submission, and nobody sleeps on a completion that is done.
  Functional behaviour on every branch: the commands, the pages, the drawing routines, the mutex
  with inheritance and hand-over.  Equivalence with a reference: the formatter and the memory and
  string routines, which are optimised with word loops.  Round trips: decimal numbers and the
  displayed time read back, and a heap whose blocks are all given back is whole again.  Progress: timers fire at their tick, the wake-up loop of an object
  and the loop of the idle thread end, the end of a work is acknowledged to all that wait for it, and the shell gets a character that is there.  Bounds: when the reading of the time base is the elapsed time, and the cut of long console lines.  Several
  lemmas exhibit inputs on which the code fails its purpose (among them \<open>zero_period_hangs\<close>,
  \<open>put_force_loses_everything\<close>, \<open>long_line_stays\<close>, \<open>stale_line_overruns\<close>, \<open>huge_request_wraps\<close>, \<open>calloc_overruns\<close>, \<open>exact_fit_refused\<close>,
  \<open>alloc_over_buffer\<close>, \<open>empty_block_breaks_ring\<close>, \<open>delete_races_with_timeout\<close>, \<open>create_size_wraps\<close>, \<open>reopen_forgets_buffer\<close>, \<open>device_destroy_asserts\<close>,
  \<open>queue_blocks_overlap\<close>, \<open>submit_before_suspend_is_lost\<close>, \<open>pipe_close_keeps_fifo\<close>).

  \<^bold>\<open>Bounds and fuel.\<close>  Loops over counters are functions with a measure.  \<open>check_loop\<close> of \<open>Timer\<close>
  has fuel, since a timer of period zero makes the C loop run for ever: \<open>tick_refines\<close> shows that
  any fuel above the number of timers on the list is enough when no period is zero.
  \<open>resume_all_loop\<close> of \<open>Ipc\<close> takes one more than the length of the list, shown enough by
  \<open>resume_all_returns\<close>; \<open>drain_loop\<close> of \<open>Msgqueue\<close> takes one more than the number of messages, shown
  enough by \<open>reset_empties\<close>; \<open>completion_loop\<close> of \<open>Workqueue\<close> takes two more than the number of waiting threads, shown
  enough by \<open>work_completion_returns\<close>.  The two loops over the chain of heap blocks are partial functions, shown to
  return on every well-formed heap.  Ring buffer indexes are taken modulo \<open>2 ^ 15\<close> as the bit fields are; the
  hold count of a mutex is a byte, its value and that of a semaphore sixteen bits; ticks are 32-bit
  words compared by half the range.

  \<^bold>\<open>Abstractions.\<close>  An operation of a kernel object runs with interrupts disabled and is one step;
  interleavings are sequences of steps.  The deletion of a thread, which enables interrupts several times, is a sequence of steps, between which
  the others leave the thread alone that is being closed; \<open>delete_races_with_timeout\<close> is what the end of its timer does there.  The headers of the
  heap are a store apart from the bytes of the blocks; a \<open>rt_memset\<close> of \<open>rt_calloc\<close> that would run over its block is \<open>None\<close>.  In \<open>Firmware\<close> the application
  changes by the commands of the shell only, while bytes arrive its time stands still.  In the application, a call is atomic with respect to the
  mutex it holds.  The copy of a message, done outside the critical section on a slot that is on
  neither list of its queue, is part of the step.  Intrusive lists are lists of object addresses.  Kernel objects
  are identified with their addresses; their names are modelled in \<open>Objects\<close> only.  In \<open>Console\<close> the receive interrupt is one step,
  and the other threads and interrupts may do anything that keeps the kernel consistent and leaves the shell's semaphore alone.  The intrusive timer skip list has
  one level, as \<^verbatim>\<open>RT_TIMER_SKIP_LIST_LEVEL\<close> is 1.  Whether an allocation or a thread creation
  succeeds is a parameter.

  \<^bold>\<open>Not modelled.\<close>  Start-up code, linker scripts, the context switch and stack frames in assembly;
  the HAL and CMSIS libraries of the vendor and the board drivers over them, which write registers;
  the pin device, which only forwards to its driver; DMA and file operations of the serial driver and of pipes, which are not configured; the
  assertion handler of \<^verbatim>\<open>kservice.c\<close> (a failed assertion is \<open>None\<close>); the console listings of \<^verbatim>\<open>cmd.c\<close>; signals and the other memory managers, and the components of the repository (file systems, network stacks, USB, C++ and others) that
  \<^verbatim>\<open>rtconfig.h\<close> leaves out of the build.  What a work function, a notification or a hook does when it is called is up to the client and
  appears as the steps of other threads.
\<close>

end
